(* ===== verification/Prelude.thy ===== *)
theory Prelude
  imports Main "HOL-Library.Word"
begin

unbundle bit_operations_syntax

text \<open>
  Shared vocabulary of the development: bytes and byte strings, Python's
  \<^verbatim>\<open>struct\<close> packing of big-endian unsigned fields, cutting a byte string into pieces of a
  fixed size, results that are an error or a value, and the facts about them that the component
  theories use through the simplifier and the collections below.
\<close>

named_theorems byte_lens "lengths of packed fields and encoded pieces"
named_theorems result_defs "unfolding of the error combinators"

type_synonym byte = "8 word"
type_synonym bytes = "byte list"

section \<open>Results\<close>

text \<open>
  A Python call that may raise is a value of a sum type: \<open>Inl e\<close> for the exception, \<open>Inr x\<close> for
  the returned value. \<open>and_then\<close> is the sequencing of two such calls.
\<close>

definition and_then :: "'e + 'a \<Rightarrow> ('a \<Rightarrow> 'e + 'b) \<Rightarrow> 'e + 'b" where
  "and_then r f = (case r of Inl e \<Rightarrow> Inl e | Inr x \<Rightarrow> f x)"

lemma and_then_Inl [simp]: "and_then (Inl e) f = Inl e"
  by (simp add: and_then_def)

lemma and_then_Inr [simp]: "and_then (Inr x) f = f x"
  by (simp add: and_then_def)

lemma and_then_eq_Inr [simp]:
  "and_then r f = Inr y \<longleftrightarrow> (\<exists>x. r = Inr x \<and> f x = Inr y)"
  by (cases r) auto

section \<open>Big-endian unsigned fields\<close>

text \<open>
  \<open>be_bytes n x\<close> is the \<open>n\<close>-byte big-endian field of the number \<open>x\<close> and \<open>be_nat\<close> reads such a
  field back: what \<^verbatim>\<open>struct\<close> does for the formats \<open>B\<close>, \<open>H\<close>, \<open>I\<close> and \<open>Q\<close> after \<open>>\<close>.
\<close>

fun be_bytes :: "nat \<Rightarrow> nat \<Rightarrow> bytes" where
  "be_bytes 0 x = []"
| "be_bytes (Suc n) x = be_bytes n (x div 256) @ [of_nat (x mod 256)]"

definition be_nat :: "bytes \<Rightarrow> nat" where
  "be_nat bs = foldl (\<lambda>acc b. 256 * acc + unat b) 0 bs"

lemma length_be_bytes [simp, byte_lens]: "length (be_bytes n x) = n"
  by (induction n arbitrary: x) auto

lemma be_bytes_numeral: "be_bytes (numeral k) x = be_bytes (pred_numeral k) (x div 256) @ [of_nat (x mod 256)]"
  by (simp only: numeral_eq_Suc [of k] be_bytes.simps)

lemma be_nat_Nil [simp]: "be_nat [] = 0"
  by (simp add: be_nat_def)

lemma be_nat_snoc [simp]: "be_nat (bs @ [b]) = 256 * be_nat bs + unat b"
  by (simp add: be_nat_def)

lemma unat_byte_less [simp]: "unat (b :: byte) < 256"
  using unsigned_less [of b] by simp

lemma unat_of_nat_byte [simp]: "unat (of_nat x :: byte) = x mod 256"
  by (simp add: unat_of_nat)

lemma of_nat_unat_byte [simp]: "(of_nat (unat (b :: byte)) :: byte) = b"
  by simp

lemma be_nat_be_bytes_mod: "be_nat (be_bytes n x) = x mod 256 ^ n"
proof (induction n arbitrary: x)
  case 0
  then show ?case by simp
next
  case (Suc n)
  have "be_nat (be_bytes (Suc n) x) = 256 * ((x div 256) mod 256 ^ n) + x mod 256"
    by (simp add: Suc.IH)
  also have "\<dots> = x mod 256 ^ Suc n"
    by (simp add: mod_mult2_eq)
  finally show ?case .
qed

lemma be_nat_be_bytes [simp]: "x < 256 ^ n \<Longrightarrow> be_nat (be_bytes n x) = x"
  by (simp add: be_nat_be_bytes_mod)

lemma be_nat_less: "be_nat bs < 256 ^ length bs"
proof (induction bs rule: rev_induct)
  case Nil
  then show ?case by simp
next
  case (snoc b bs)
  from snoc.IH have le: "be_nat bs + 1 \<le> 256 ^ length bs" by simp
  have "be_nat (bs @ [b]) < 256 * be_nat bs + 256"
    by (simp only: be_nat_snoc nat_add_left_cancel_less unat_byte_less)
  also have "\<dots> = 256 * (be_nat bs + 1)" by simp
  also have "\<dots> \<le> 256 * 256 ^ length bs" using le by (rule mult_le_mono2)
  finally show ?case by simp
qed

lemma be_bytes_be_nat: "be_bytes (length bs) (be_nat bs) = bs"
proof (induction bs rule: rev_induct)
  case Nil
  then show ?case by simp
next
  case (snoc b bs)
  have "(256 * be_nat bs + unat b) div 256 = be_nat bs"
    by (simp add: div_mult_self4)
  moreover have "(256 * be_nat bs + unat b) mod 256 = unat b"
    by simp
  ultimately show ?case using snoc.IH by simp
qed

section \<open>Cutting a byte string\<close>

text \<open>\<open>py_slice xs i n\<close> is Python's \<open>xs[i : i + n]\<close> for \<open>i, n \<ge> 0\<close>: shorter at the end, never an error.\<close>

definition py_slice :: "'a list \<Rightarrow> nat \<Rightarrow> nat \<Rightarrow> 'a list" where
  "py_slice xs i n = take n (drop i xs)"

lemma length_py_slice [simp]: "length (py_slice xs i n) = min n (length xs - i)"
  by (simp add: py_slice_def)

lemma py_slice_append_left: "i + n \<le> length xs \<Longrightarrow> py_slice (xs @ ys) i n = py_slice xs i n"
  by (simp add: py_slice_def)

lemma py_slice_append_right: "length xs \<le> i \<Longrightarrow> py_slice (xs @ ys) i n = py_slice ys (i - length xs) n"
  by (simp add: py_slice_def)

lemma py_slice_0: "py_slice xs 0 n = take n xs"
  by (simp add: py_slice_def)

text \<open>
  \<open>py_range xs a b\<close> is the slice \<open>xs[a : b]\<close> for any integers: negative bounds count from the end,
  and both are clamped to the list.
\<close>

definition py_bound :: "'a list \<Rightarrow> int \<Rightarrow> nat" where
  "py_bound xs a = (if a < 0 then nat (a + int (length xs)) else min (nat a) (length xs))"

definition py_range :: "'a list \<Rightarrow> int \<Rightarrow> int \<Rightarrow> 'a list" where
  "py_range xs a b = drop (py_bound xs a) (take (py_bound xs b) xs)"

lemma py_range_nat [simp]: "py_range xs (int i) (int i + int n) = py_slice xs i n"
proof -
  have "nat (int i + int n) = i + n" by simp
  then show ?thesis
    by (cases "i \<le> length xs")
      (simp_all add: py_range_def py_bound_def py_slice_def drop_take min_def take_all_iff)
qed

lemma py_range_prefix [simp]: "py_range xs 0 (int n) = take n xs"
  using py_range_nat [of xs 0 n] by (simp add: py_slice_0)

text \<open>
  \<open>pieces n xs\<close> cuts \<open>xs\<close> into pieces of \<open>n\<close> elements, the last one possibly shorter: the ranges
  \<open>xs[s : s + n] for s in range(0, len(xs), n)\<close> of the source. A piece size of 0 would make
  \<^verbatim>\<open>range\<close> raise; the callers' sizes are positive.
\<close>

function pieces :: "nat \<Rightarrow> 'a list \<Rightarrow> 'a list list" where
  "pieces n xs = (if n = 0 \<or> xs = [] then [] else take n xs # pieces n (drop n xs))"
  by pat_completeness auto
termination
  by (relation "measure (\<lambda>(n, xs). length xs)") auto

declare pieces.simps [simp del]

lemma pieces_Nil [simp]: "pieces n [] = []"
  by (simp add: pieces.simps)

lemma pieces_unfold:
  "0 < n \<Longrightarrow> xs \<noteq> [] \<Longrightarrow> pieces n xs = take n xs # pieces n (drop n xs)"
  by (subst pieces.simps) simp

lemma concat_pieces: "0 < n \<Longrightarrow> concat (pieces n xs) = xs"
proof (induction n xs rule: pieces.induct)
  case (1 n xs)
  then show ?case by (cases "xs = []") (simp_all add: pieces_unfold)
qed

lemma pieces_append: "0 < n \<Longrightarrow> length xs = n \<Longrightarrow> pieces n (xs @ ys) = xs # pieces n ys"
  by (cases xs) (auto simp: pieces_unfold)

lemma pieces_concat:
  assumes "0 < n" and "\<forall>x \<in> set xss. length x = n"
  shows "pieces n (concat xss @ ys) = xss @ pieces n ys"
  using assms(2) by (induction xss) (auto simp: pieces_append [OF \<open>0 < n\<close>])

lemma pieces_lengths: "p \<in> set (pieces n xs) \<Longrightarrow> 0 < length p \<and> length p \<le> n"
proof (induction n xs rule: pieces.induct)
  case (1 n xs)
  then show ?case
    by (cases "n = 0 \<or> xs = []") (auto simp: pieces.simps [of n xs])
qed

lemma length_pieces: "0 < n \<Longrightarrow> length (pieces n xs) = (length xs + n - 1) div n"
proof (induction n xs rule: pieces.induct)
  case (1 n xs)
  show ?case
  proof (cases "xs = []")
    case True
    then show ?thesis using 1(2) by simp
  next
    case False
    with 1 have IH: "length (pieces n (drop n xs)) = (length (drop n xs) + n - 1) div n"
      by simp
    show ?thesis
    proof (cases "length xs \<le> n")
      case True
      then have "(length xs + n - 1) div n = 1"
        using False \<open>0 < n\<close> by (cases "length xs") (auto simp: div_nat_eqI)
      with True False \<open>0 < n\<close> show ?thesis by (simp add: pieces_unfold)
    next
      case gt: False
      then have "length xs + n - 1 = (length (drop n xs) + n - 1) + n" by simp
      then have "(length xs + n - 1) div n = Suc ((length (drop n xs) + n - 1) div n)"
        using \<open>0 < n\<close> by (simp only: div_add_self2)
      with IH False \<open>0 < n\<close> show ?thesis by (simp add: pieces_unfold)
    qed
  qed
qed

lemma nth_pieces:
  "0 < n \<Longrightarrow> i < length (pieces n xs) \<Longrightarrow> pieces n xs ! i = py_slice xs (i * n) n"
proof (induction n xs arbitrary: i rule: pieces.induct)
  case (1 n xs)
  then have ne: "xs \<noteq> []" by auto
  show ?case
  proof (cases i)
    case 0
    with ne 1 show ?thesis by (simp add: pieces_unfold py_slice_def)
  next
    case (Suc j)
    with ne 1 have "pieces n (drop n xs) ! j = py_slice (drop n xs) (j * n) n"
      by (simp add: pieces_unfold)
    with ne Suc 1 show ?thesis by (simp add: pieces_unfold py_slice_def add.commute)
  qed
qed

lemma length_full_pieces:
  assumes "0 < n"
  shows "length (pieces n (take (length xs div n * n) xs)) = length xs div n"
proof -
  have "length xs div n * n \<le> length xs" by simp
  then have "length (take (length xs div n * n) xs) = length xs div n * n" by simp
  moreover have "(length xs div n * n + n - 1) div n = length xs div n"
    using assms by (cases n) (auto simp: div_nat_eqI)
  ultimately show ?thesis using assms by (simp only: length_pieces)
qed

lemma pieces_full_lengths:
  assumes "0 < n" and "p \<in> set (pieces n (take (length xs div n * n) xs))"
  shows "length p = n"
proof -
  let ?k = "length xs div n * n"
  let ?F = "pieces n (take ?k xs)"
  have k: "?k \<le> length xs" by simp
  obtain i where i: "i < length ?F" "p = ?F ! i" using assms(2) by (auto simp: in_set_conv_nth)
  have "length ?F = length xs div n" by (rule length_full_pieces [OF assms(1)])
  then have "Suc i * n \<le> ?k" using i by (intro mult_le_mono1) simp
  then show "length p = n" using i assms k by (simp add: nth_pieces)
qed

lemma pieces_full_rest:
  assumes "0 < n"
  shows "pieces n xs = pieces n (take (length xs div n * n) xs) @
    (if length xs mod n = 0 then [] else [drop (length xs div n * n) xs])"
proof -
  let ?k = "length xs div n * n"
  let ?F = "pieces n (take ?k xs)"
  have k: "?k \<le> length xs" by simp
  have full: "\<forall>p \<in> set ?F. length p = n"
    using pieces_full_lengths [OF assms] by blast
  have "pieces n xs = pieces n (concat ?F @ drop ?k xs)"
    using assms by (simp add: concat_pieces)
  also have "\<dots> = ?F @ pieces n (drop ?k xs)"
    by (rule pieces_concat [OF assms full])
  also have "pieces n (drop ?k xs) = (if length xs mod n = 0 then [] else [drop ?k xs])"
  proof (cases "length xs mod n = 0")
    case True
    then have "?k = length xs" by (simp add: mod_eq_0_iff_dvd)
    then show ?thesis using True by simp
  next
    case False
    have len: "length (drop ?k xs) = length xs mod n"
      by (simp add: minus_div_mult_eq_mod)
    with False have ne: "drop ?k xs \<noteq> []" by auto
    have "length (drop ?k xs) < n" using len assms by simp
    with ne False assms show ?thesis by (simp add: pieces_unfold)
  qed
  finally show ?thesis .
qed

section \<open>Exclusive or\<close>

definition xor_bytes :: "bytes \<Rightarrow> bytes \<Rightarrow> bytes" where
  "xor_bytes xs ys = map2 (XOR) xs ys"

lemma length_xor_bytes [simp, byte_lens]: "length (xor_bytes xs ys) = min (length xs) (length ys)"
  by (simp add: xor_bytes_def)

lemma nth_xor_bytes:
  "i < length xs \<Longrightarrow> i < length ys \<Longrightarrow> xor_bytes xs ys ! i = xs ! i XOR ys ! i"
  by (simp add: xor_bytes_def)

end
