(* ===== verification/GF256.thy ===== *)
theory GF256
  imports Prelude
begin

text \<open>
  The arithmetic of GF(256) that \<^verbatim>\<open>src/dbs/container/rs.py\<close> builds from its two tables
  (\<^verbatim>\<open>_field_tables\<close>, \<^verbatim>\<open>_EXP\<close>, \<^verbatim>\<open>_LOG\<close>) and looks up in \<^verbatim>\<open>_multiply\<close>. The tables are built
  here by the loops of the source; the lemmas show that the exponent table lists the powers of
  2 modulo the primitive polynomial, that the logarithm table inverts it, and that the lookup
  product and exclusive or make the bytes a field, which is stated as an instance of the
  library's class \<open>field\<close> for a copy of the byte type.
\<close>

section \<open>The tables, as the source builds them\<close>

definition PRIMITIVE_POLYNOMIAL :: nat where
  "PRIMITIVE_POLYNOMIAL = 0x11D"

definition field_next :: "nat \<Rightarrow> nat" where
  "field_next value =
     (let value = push_bit 1 value
      in if value AND 0x100 \<noteq> 0 then value XOR PRIMITIVE_POLYNOMIAL else value)"

definition field_step :: "nat \<Rightarrow> nat list \<times> nat list \<times> nat \<Rightarrow> nat list \<times> nat list \<times> nat" where
  "field_step pw st =
     (case st of (ex, lg, value) \<Rightarrow> (ex[pw := value], lg[value := pw], field_next value))"

definition field_tables :: "nat list \<times> nat list" where
  "field_tables =
     (case fold field_step [0..<255] (replicate 512 0, replicate 256 0, 1) of
        (ex, lg, value) \<Rightarrow> (fold (\<lambda>pw ex. ex[pw := ex ! (pw - 255)]) [255..<512] ex, lg))"

definition gf_exp :: "nat list" where
  "gf_exp = fst field_tables"

definition gf_log :: "nat list" where
  "gf_log = snd field_tables"

definition multiply :: "byte \<Rightarrow> byte \<Rightarrow> byte" where
  "multiply a b =
     (if a = 0 \<or> b = 0 then 0
      else of_nat (gf_exp ! (gf_log ! unat a + gf_log ! unat b)))"

section \<open>Multiplication by 2\<close>

text \<open>One step of the table loop, read on bytes: shift, and reduce when the top bit falls out.\<close>

definition xtime :: "byte \<Rightarrow> byte" where
  "xtime x = (if bit x 7 then 2 * x XOR 0x1D else 2 * x)"

lemma and256: "v AND 256 = (0::nat) \<longleftrightarrow> \<not> bit v 8"
  using and_exp_eq_0_iff_not_bit [of v 8] by simp

lemma field_next_bits: "field_next v = (if bit v 7 then (2 * v) XOR PRIMITIVE_POLYNOMIAL else 2 * v)"
proof -
  have "bit (push_bit 1 v) 8 = bit v 7" by (simp only: bit_push_bit_iff) (simp add: possible_bit_def)
  moreover have "push_bit 1 v = 2 * v" by simp
  ultimately show ?thesis
    unfolding field_next_def Let_def and256 by (simp add: mult.commute)
qed

lemma not_bit8: "w < 256 \<Longrightarrow> \<not> bit (w :: nat) 8"
  by (simp add: bit_iff_odd)

lemma xor256: "w < 256 \<Longrightarrow> 256 + w = 256 XOR (w :: nat)"
  by (rule disjunctive_add_eq_xor) (simp add: and.commute [of 256] and256 not_bit8)

lemma bit7_iff: assumes "v < 256" shows "bit (v::nat) 7 \<longleftrightarrow> 128 \<le> v"
proof (cases "v < 128")
  case False
  with assms have "v div 128 = 1" by (intro div_nat_eqI) auto
  with False show ?thesis by (simp add: bit_iff_odd)
qed (simp add: bit_iff_odd)

lemma byte_bit7_iff: "bit (x :: byte) 7 \<longleftrightarrow> 128 \<le> unat x"
  using bit7_iff [of "unat x"] by (simp add: bit_unsigned_iff)

lemma unat_double: "unat (2 * (x::byte)) = (2 * unat x) mod 256"
   by (simp add: unat_word_ariths)

lemma xtime_unat: "field_next (unat x) = unat (xtime x)"
proof (cases "128 \<le> unat x")
  case True
  define w where "w = 2 * unat x - 256"
  have w: "w < 256" "2 * unat x = 256 + w" using True unat_byte_less [of x] unfolding w_def by linarith+
  have "256 + w = 256 XOR w" by (rule xor256 [OF w(1)])
  moreover have "PRIMITIVE_POLYNOMIAL = 256 XOR 29" by (simp add: PRIMITIVE_POLYNOMIAL_def)
  ultimately have "2 * unat x XOR PRIMITIVE_POLYNOMIAL = (256 XOR w) XOR (256 XOR 29)"
    using w(2) by (simp only:)
  also have "\<dots> = w XOR 29"
    by (simp only: ac_simps xor_self_eq xor.left_neutral flip: xor.assoc [of 256 256])
  finally have "2 * unat x XOR PRIMITIVE_POLYNOMIAL = w XOR 29" .
  moreover have "unat (2 * x) = w" using w by (simp add: unat_double)
  ultimately show ?thesis using True bit7_iff [of "unat x"]
    by (simp add: field_next_bits xtime_def byte_bit7_iff unsigned_xor_eq)
next
  case False
  then show ?thesis using bit7_iff [of "unat x"] by (simp add: field_next_bits xtime_def byte_bit7_iff unat_double)
qed

lemma double_xor: "2 * (x XOR y) = 2 * x XOR 2 * (y :: byte)"
proof -
  have "2 * z = push_bit 1 z" for z :: byte by (simp add: mult.commute)
  then show ?thesis by (simp only: push_bit_xor)
qed

lemma xtime_xor: "xtime (x XOR y) = xtime x XOR xtime y"
  unfolding xtime_def double_xor by (simp add: bit_xor_iff xor.assoc xor.left_commute xor.commute)

lemma xtime_0 [simp]: "xtime 0 = 0"
  by (simp add: xtime_def)

lemma bit_double: "bit (2 * (x :: byte)) n \<longleftrightarrow> n < 8 \<and> 0 < n \<and> bit x (n - 1)"
  using bit_push_bit_iff [of 1 x n] by (auto simp: mult.commute possible_bit_def)

lemma xtime_eq_0: "xtime x = 0 \<Longrightarrow> x = 0"
proof -
  assume z: "xtime x = 0"
  have "\<not> bit x 7"
  proof
    assume "bit x 7"
    with z have "bit (2 * x XOR 0x1D) 0 = False" by (simp add: xtime_def)
    then show False by (simp add: bit_xor_iff bit_double)
  qed
  with z have d: "2 * x = 0" by (simp add: xtime_def)
  show "x = 0"
  proof (rule bit_word_eqI)
    fix n assume "n < LENGTH(8)"
    then have "n < 8" by simp
    show "bit x n = bit 0 n"
    proof (cases "n = 7")
      case True
      with \<open>\<not> bit x 7\<close> show ?thesis by simp
    next
      case False
      with \<open>n < 8\<close> have "bit (2 * x) (Suc n) = bit x n" by (simp add: bit_double)
      with d show ?thesis by simp
    qed
  qed
qed

lemma xtime_inj: "xtime x = xtime y \<Longrightarrow> x = y"
proof -
  assume "xtime x = xtime y"
  then have "xtime (x XOR y) = 0" by (simp add: xtime_xor)
  then have "x XOR y = 0" by (rule xtime_eq_0)
  then have "(x XOR y) XOR y = y" by simp
  then show "x = y" by (simp add: xor.assoc)
qed

section \<open>Powers of 2\<close>

definition apow :: "nat \<Rightarrow> byte" where
  "apow k = (xtime ^^ k) 1"

lemma apow_0 [simp]: "apow 0 = 1"
  by (simp add: apow_def)

lemma apow_Suc: "apow (Suc k) = xtime (apow k)"
  by (simp add: apow_def)

lemma apow_add: "apow (m + n) = (xtime ^^ m) (apow n)"
  by (simp add: apow_def funpow_add)

lemma xtime_pow_xor: "(xtime ^^ n) (x XOR y) = (xtime ^^ n) x XOR (xtime ^^ n) y"
  by (induction n) (simp_all add: xtime_xor)

lemma xtime_pow_0 [simp]: "(xtime ^^ n) 0 = 0"
  by (induction n) simp_all

lemma xtime_pow_inj: "(xtime ^^ n) x = (xtime ^^ n) y \<Longrightarrow> x = y"
  by (induction n) (auto dest: xtime_inj)

lemma apow_nonzero [simp]: "apow k \<noteq> 0"
  by (induction k) (auto simp: apow_Suc dest: xtime_eq_0)

text \<open>
  The order of 2 is 255: no earlier power is 1. The orbit is evaluated once, by the simplifier.
\<close>

primrec orbit_avoids :: "nat \<Rightarrow> byte \<Rightarrow> bool" where
  "orbit_avoids 0 x = True"
| "orbit_avoids (Suc n) x = (x \<noteq> 1 \<and> orbit_avoids n (xtime x))"

lemma orbit_avoids_numeral:
  "orbit_avoids (numeral k) x = (x \<noteq> 1 \<and> orbit_avoids (pred_numeral k) (xtime x))"
  by (simp add: numeral_eq_Suc)

lemma orbit_avoidsD: "orbit_avoids n x \<Longrightarrow> k < n \<Longrightarrow> (xtime ^^ k) x \<noteq> 1"
proof (induction n arbitrary: x k)
  case 0
  then show ?case by simp
next
  case (Suc n)
  then show ?case
    by (cases k) (auto simp: funpow_Suc_right simp del: funpow.simps)
qed

lemma orbit_254: "orbit_avoids 254 2"
  by (simp add: orbit_avoids_numeral xtime_def)

lemma funpow_numeral: "(f ^^ numeral k) x = (f ^^ pred_numeral k) (f x)"
  by (simp add: numeral_eq_Suc funpow_Suc_right del: funpow.simps)

lemma apow_255 [simp]: "apow 255 = 1"
  by (simp add: apow_def funpow_numeral xtime_def)

lemma apow_neq_1: "0 < k \<Longrightarrow> k < 255 \<Longrightarrow> apow k \<noteq> 1"
proof -
  assume k: "0 < k" "k < 255"
  then obtain m where m: "k = Suc m" by (cases k) auto
  have "xtime 1 = 2" by (simp add: xtime_def)
  with m have "apow k = (xtime ^^ m) 2"
    by (simp add: apow_def funpow_Suc_right del: funpow.simps)
  moreover have "m < 254" using k m by simp
  ultimately show ?thesis using orbit_avoidsD [OF orbit_254] by simp
qed

lemma apow_mod: "apow k = apow (k mod 255)"
proof -
  have period: "apow (255 * n + m) = apow m" for n m
  proof (induction n)
    case (Suc n)
    have "apow (255 * Suc n + m) = apow ((255 * n + m) + 255)" by (simp add: algebra_simps)
    also have "\<dots> = (xtime ^^ (255 * n + m)) (apow 255)" by (rule apow_add)
    also have "\<dots> = apow (255 * n + m)" by (simp only: apow_255) (simp add: apow_def)
    finally show ?case using Suc by simp
  qed simp
  show ?thesis using period [of "k div 255" "k mod 255"] by simp
qed

lemma apow_inj: "i < 255 \<Longrightarrow> j < 255 \<Longrightarrow> apow i = apow j \<Longrightarrow> i = j"
proof (induction i j rule: linorder_wlog)
  case (le i j)
  then have "(xtime ^^ i) (apow (j - i)) = (xtime ^^ i) 1"
    using apow_add [of i "j - i"] by (simp add: apow_def)
  then have "apow (j - i) = 1" by (rule xtime_pow_inj)
  with le apow_neq_1 [of "j - i"] show ?case by fastforce
next
  case (sym i j)
  then show ?case by simp
qed

section \<open>What the tables hold\<close>

lemma field_step_simp [simp]:
  "field_step pw (ex, lg, value) = (ex[pw := value], lg[value := pw], field_next value)"
  by (simp add: field_step_def)

lemma field_next_apow: "field_next (unat (apow k)) = unat (apow (Suc k))"
  by (simp add: xtime_unat apow_Suc)

lemma field_loop:
  "n \<le> 255 \<Longrightarrow> fold field_step [0..<n] (replicate 512 0, replicate 256 0, 1) = (ex, lg, v) \<Longrightarrow>
   v = unat (apow n) \<and> length ex = 512 \<and> length lg = 256 \<and>
   (\<forall>k<n. ex ! k = unat (apow k)) \<and> (\<forall>k<n. lg ! unat (apow k) = k)"
proof (induction n arbitrary: ex lg v)
  case 0
  then show ?case by auto
next
  case (Suc n)
  obtain ex' lg' v' where
    prev: "fold field_step [0..<n] (replicate 512 0, replicate 256 0, 1) = (ex', lg', v')"
    by (metis prod_cases3)
  with Suc.IH [of ex' lg' v'] Suc.prems(1) have
    IH: "v' = unat (apow n)" "length ex' = 512" "length lg' = 256"
      "\<forall>k<n. ex' ! k = unat (apow k)" "\<forall>k<n. lg' ! unat (apow k) = k"
    by auto
  from prev Suc.prems(2) have
    step: "ex = ex'[n := v']" "lg = lg'[v' := n]" "v = field_next v'"
    by (auto simp del: One_nat_def)
  have diff: "unat (apow k) \<noteq> unat (apow n)" if "k < n" for k
  proof
    assume "unat (apow k) = unat (apow n)"
    then have "apow k = apow n" by (simp only: unsigned_word_eqI)
    with apow_inj [of k n] that Suc.prems(1) show False by simp
  qed
  show ?case
    using IH step Suc.prems(1) unat_byte_less [of "apow n"]
    by (auto simp: field_next_apow nth_list_update less_Suc_eq diff diff [symmetric])
qed

lemma exp_copy_loop:
  assumes "length ex = 512" and "\<forall>k<255. ex ! k = unat (apow k)" and "m \<le> 257"
  shows "length (fold (\<lambda>pw ex. ex[pw := ex ! (pw - 255)]) [255..<255 + m] ex) = 512 \<and>
    (\<forall>k<255 + m. fold (\<lambda>pw ex. ex[pw := ex ! (pw - 255)]) [255..<255 + m] ex ! k
       = unat (apow k))"
  using assms(3)
proof (induction m)
  case 0
  then show ?case using assms by simp
next
  case (Suc m)
  have "apow (255 + m) = apow m"
    using apow_mod [of "255 + m"] apow_mod [of m] by simp
  moreover have "[255..<255 + Suc m] = [255..<255 + m] @ [255 + m]"
    by (simp only: add_Suc_right upt_Suc) simp
  ultimately show ?case using Suc
    by (auto simp: nth_list_update less_Suc_eq simp del: upt_Suc)
qed

lemma field_tables_hold:
  "length gf_exp = 512 \<and> length gf_log = 256 \<and>
   (\<forall>k<512. gf_exp ! k = unat (apow k)) \<and> (\<forall>k<255. gf_log ! unat (apow k) = k)"
proof -
  obtain ex lg v where
    loop: "fold field_step [0..<255] (replicate 512 0, replicate 256 0, 1) = (ex, lg, v)"
    by (metis prod_cases3)
  have bound: "255 + 257 = (512 :: nat)" by simp
  have ft: "field_tables = (fold (\<lambda>pw ex. ex[pw := ex ! (pw - 255)]) [255..<512] ex, lg)"
    by (simp only: field_tables_def loop prod.case)
  from field_loop [OF order_refl loop] have
    l: "length ex = 512" "length lg = 256" "\<forall>k<255. ex ! k = unat (apow k)"
    "\<forall>k<255. lg ! unat (apow k) = k" by blast+
  from exp_copy_loop [OF l(1,3) order_refl] l(2,4) show ?thesis
    unfolding gf_exp_def gf_log_def ft bound fst_conv snd_conv by blast
qed

lemma gf_exp_nth: "k < 512 \<Longrightarrow> gf_exp ! k = unat (apow k)"
  using field_tables_hold by blast

lemma gf_log_apow: "k < 255 \<Longrightarrow> gf_log ! unat (apow k) = k"
  using field_tables_hold by blast

section \<open>Every nonzero byte is a power of 2\<close>

lemma apow_image: "apow ` {..<255} = UNIV - {0}"
proof (rule card_subset_eq)
  have "card (UNIV :: byte set) = 256" by (simp add: card_word)
  then show "finite (UNIV - {0 :: byte})" by (simp add: finite_Diff)
  show "apow ` {..<255} \<subseteq> UNIV - {0}" by auto
  have "inj_on apow {..<255}" by (auto intro: inj_onI apow_inj)
  then have "card (apow ` {..<255}) = 255" by (simp add: card_image)
  moreover have "card (UNIV - {0 :: byte}) = 255" by (simp add: card_Diff_singleton card_word)
  ultimately show "card (apow ` {..<255}) = card (UNIV - {0 :: byte})" by simp
qed

lemma nonzero_apow:
  assumes "a \<noteq> 0"
  obtains k where "k < 255" "a = apow k"
proof -
  have "a \<in> apow ` {..<255}" unfolding apow_image using assms by simp
  then show thesis using that by auto
qed

lemma multiply_apow: "multiply (apow i) (apow j) = apow (i + j)"
proof -
  have "unat (apow (k mod 255)) = unat (apow k)" for k using apow_mod [of k] by simp
  moreover have "gf_log ! unat (apow (i mod 255)) = i mod 255" "gf_log ! unat (apow (j mod 255)) = j mod 255"
    by (rule gf_log_apow, simp)+
  ultimately have logs: "gf_log ! unat (apow i) = i mod 255" "gf_log ! unat (apow j) = j mod 255"
    by simp_all
  have "i mod 255 < 255" "j mod 255 < 255" by simp_all
  then have "i mod 255 + j mod 255 < 512" by linarith
  then have "multiply (apow i) (apow j) = apow (i mod 255 + j mod 255)"
    by (simp add: multiply_def logs gf_exp_nth)
  also have "\<dots> = apow (i + j)"
    using apow_mod [of "i mod 255 + j mod 255"] apow_mod [of "i + j"] by (simp add: mod_add_eq)
  finally show ?thesis .
qed

lemma multiply_0 [simp]: "multiply 0 b = 0" "multiply a 0 = 0"
  by (simp_all add: multiply_def)

lemma multiply_apow_left: "multiply (apow i) b = (xtime ^^ i) b"
proof (cases "b = 0")
  case True
  then show ?thesis by simp
next
  case False
  then obtain j where "b = apow j" by (rule nonzero_apow)
  then show ?thesis by (simp add: multiply_apow apow_add)
qed

lemma multiply_commute: "multiply a b = multiply b a"
  by (simp add: multiply_def add.commute)

lemma multiply_assoc: "multiply (multiply a b) c = multiply a (multiply b c)"
proof (cases "a = 0 \<or> b = 0 \<or> c = 0")
  case True
  then show ?thesis by auto
next
  case False
  then obtain i j k where "a = apow i" "b = apow j" "c = apow k" by (metis nonzero_apow)
  then show ?thesis by (simp add: multiply_apow add.assoc)
qed

lemma multiply_1 [simp]: "multiply 1 a = a" "multiply a 1 = a"
  using multiply_apow_left [of 0 a] by (simp_all add: multiply_commute)

lemma multiply_xor: "multiply a (b XOR c) = multiply a b XOR multiply a c"
proof (cases "a = 0")
  case True
  then show ?thesis by simp
next
  case False
  then obtain i where "a = apow i" by (rule nonzero_apow)
  then show ?thesis by (simp add: multiply_apow_left xtime_pow_xor)
qed

definition gf_inverse :: "byte \<Rightarrow> byte" where
  "gf_inverse a = (if a = 0 then 0 else of_nat (gf_exp ! (255 - gf_log ! unat a)))"

lemma multiply_inverse: "a \<noteq> 0 \<Longrightarrow> multiply (gf_inverse a) a = 1"
proof -
  assume a: "a \<noteq> 0"
  then obtain k where k: "k < 255" "a = apow k" by (rule nonzero_apow)
  then have "gf_inverse a = apow (255 - k)"
    by (simp add: gf_inverse_def gf_log_apow gf_exp_nth)
  with k show ?thesis by (simp add: multiply_apow)
qed

section \<open>The field\<close>

text \<open>
  The field is an instance on a copy of the byte type, since a byte as a machine word already
  has the ring structure of arithmetic modulo 256. \<open>GF\<close> and \<open>byte_of\<close> convert.
\<close>

typedef gf256 = "UNIV :: byte set"
  morphisms byte_of GF
  by auto

setup_lifting type_definition_gf256

instantiation gf256 :: field
begin

lift_definition zero_gf256 :: gf256 is "0 :: byte" .
lift_definition one_gf256 :: gf256 is "1 :: byte" .
lift_definition plus_gf256 :: "gf256 \<Rightarrow> gf256 \<Rightarrow> gf256" is "(XOR)" .
lift_definition minus_gf256 :: "gf256 \<Rightarrow> gf256 \<Rightarrow> gf256" is "(XOR)" .
lift_definition uminus_gf256 :: "gf256 \<Rightarrow> gf256" is "\<lambda>x. x" .
lift_definition times_gf256 :: "gf256 \<Rightarrow> gf256 \<Rightarrow> gf256" is multiply .
lift_definition inverse_gf256 :: "gf256 \<Rightarrow> gf256" is gf_inverse .
lift_definition divide_gf256 :: "gf256 \<Rightarrow> gf256 \<Rightarrow> gf256" is "\<lambda>x y. multiply x (gf_inverse y)" .

instance
proof
  fix a b c :: gf256
  show "a * b * c = a * (b * c)" by transfer (rule multiply_assoc)
  show "a * b = b * a" by transfer (rule multiply_commute)
  show "1 * a = a" by transfer simp
  show "a + b + c = a + (b + c)" by transfer (rule xor.assoc)
  show "a + b = b + a" by transfer (rule xor.commute)
  show "0 + a = a" by transfer simp
  show "- a + a = 0" by transfer simp
  show "a - b = a + - b" by transfer simp
  show "(a + b) * c = a * c + b * c"
    by transfer (simp only: multiply_xor multiply_commute [of "_ XOR _"] multiply_commute [of _ "_ XOR _"] multiply_commute)
  show "(0 :: gf256) \<noteq> 1" by transfer simp
  show "a \<noteq> 0 \<Longrightarrow> inverse a * a = 1" by transfer (rule multiply_inverse)
  show "a div b = a * inverse b" by transfer simp
  show "inverse (0 :: gf256) = 0" by transfer (simp add: gf_inverse_def)
qed

end

lemma GF_0 [simp]: "GF 0 = 0"
  by (simp add: zero_gf256_def)

lemma GF_1 [simp]: "GF 1 = 1"
  by (simp add: one_gf256_def)

lemma GF_xor [simp]: "GF (a XOR b) = GF a + GF b"
  by (simp add: plus_gf256.abs_eq)

lemma GF_multiply [simp]: "GF (multiply a b) = GF a * GF b"
  by (simp add: times_gf256.abs_eq)

lemma GF_inject [simp]: "GF a = GF b \<longleftrightarrow> a = b"
  by (simp add: GF_inject)

lemma gf256_char_2 [simp]: "(a :: gf256) + a = 0"
  by transfer simp

lemma gf256_uminus [simp]: "- (a :: gf256) = a"
  by transfer simp

lemma gf256_minus [simp]: "(a :: gf256) - b = a + b"
  by transfer simp

text \<open>The primitive element 2 and its powers, which the exponent table lists.\<close>

definition alpha :: gf256 where
  "alpha = GF 2"

lemma GF_apow: "GF (apow k) = alpha ^ k"
proof (induction k)
  case (Suc k)
  have "apow 1 = 2" by (simp add: apow_Suc xtime_def)
  then have "apow (Suc k) = multiply 2 (apow k)"
    using multiply_apow [of 1 k] by simp
  with Suc show ?case by (simp add: alpha_def)
qed simp

lemma alpha_power_inj: "i < 255 \<Longrightarrow> j < 255 \<Longrightarrow> alpha ^ i = alpha ^ j \<Longrightarrow> i = j"
  using apow_inj by (simp flip: GF_apow)

lemma alpha_power_nonzero [simp]: "alpha ^ k \<noteq> 0"
  using GF_inject [of "apow k" 0] by (simp only: GF_apow GF_0 apow_nonzero simp_thms)

lemma GF_gf_exp: "k < 512 \<Longrightarrow> GF (of_nat (gf_exp ! k)) = alpha ^ k"
  by (simp add: gf_exp_nth GF_apow)

end
