(* ===== verification/RSCode.thy ===== *)
theory RSCode
  imports GF256
begin

text \<open>
  The code behind \<^verbatim>\<open>src/dbs/container/rs.py\<close>: the generator polynomial (\<^verbatim>\<open>_generator\<close>), the
  remainder each message position contributes (\<^verbatim>\<open>_position_remainders\<close>), the multiplication
  and parity tables and the table-driven parity of many rows (\<^verbatim>\<open>_parity_rows\<close>, \<^verbatim>\<open>parity\<close>).
  The lemmas show that the table-driven parity is the systematic Reed-Solomon parity: message
  and parity together vanish at the first \<open>nsym\<close> powers of 2, and two different codewords
  differ in more than \<open>nsym\<close> places.
\<close>

section \<open>Definitions\<close>

definition CODEWORD_SIZE :: nat where "CODEWORD_SIZE = 255"
definition RS_MIN_NSYM :: nat where "RS_MIN_NSYM = 1"
definition RS_MAX_NSYM :: nat where "RS_MAX_NSYM = 254"
definition PARITY_BATCH_ROWS :: nat where "PARITY_BATCH_ROWS = 4096"

definition check_nsym :: "nat \<Rightarrow> bool" where
  "check_nsym nsym \<longleftrightarrow> RS_MIN_NSYM \<le> nsym \<and> nsym \<le> RS_MAX_NSYM"

definition message_length :: "nat \<Rightarrow> nat" where
  "message_length nsym = CODEWORD_SIZE - nsym"

definition generator_step :: "nat \<Rightarrow> bytes \<Rightarrow> bytes" where
  "generator_step pw poly =
     (let root = of_nat (gf_exp ! pw)
      in fold (\<lambda>(index, coefficient) product.
           product[Suc index := product ! Suc index XOR multiply coefficient root])
         (enumerate 0 poly) (poly @ [0]))"

definition generator :: "nat \<Rightarrow> bytes" where
  "generator nsym = fold generator_step [0..<nsym] [1]"

definition next_remainder :: "bytes \<Rightarrow> bytes \<Rightarrow> bytes" where
  "next_remainder poly_tail remainder =
     (let lead = hd remainder
      in map2 (\<lambda>shifted coefficient. shifted XOR multiply lead coefficient)
           (tl remainder @ [0]) poly_tail)"

primrec remainder_chain :: "bytes \<Rightarrow> bytes \<Rightarrow> nat \<Rightarrow> bytes list" where
  "remainder_chain poly_tail remainder 0 = [remainder]"
| "remainder_chain poly_tail remainder (Suc n) =
     remainder # remainder_chain poly_tail (next_remainder poly_tail remainder) n"

definition position_remainders :: "nat \<Rightarrow> bytes list" where
  "position_remainders nsym =
     (let poly_tail = tl (generator nsym)
      in rev (remainder_chain poly_tail poly_tail (CODEWORD_SIZE - nsym - 1)))"

definition multiplication_table :: "byte list list" where
  "multiplication_table =
     (let table = map (\<lambda>a. map (\<lambda>b. of_nat (gf_exp ! (gf_log ! a + gf_log ! b))) [0..<256]) [0..<256];
          table = table[0 := replicate 256 0]
      in map (\<lambda>row. row[0 := 0]) table)"

definition parity_table :: "nat \<Rightarrow> bytes list list" where
  "parity_table nsym =
     (let words = (nsym + 7) div 8
      in map (\<lambda>remainder.
           map (\<lambda>value.
             map (\<lambda>r. multiplication_table ! value ! unat r) remainder
               @ replicate (words * 8 - nsym) 0) [0..<256])
         (position_remainders nsym))"

definition parity_rows :: "bytes list \<Rightarrow> bytes list list \<Rightarrow> bytes list" where
  "parity_rows messages table =
     fold (\<lambda>position accumulator.
         map2 (\<lambda>row acc. xor_bytes acc (table ! position ! unat (row ! position)))
           messages accumulator)
       [0..<length table]
       (replicate (length messages) (replicate (length (table ! 0 ! 0)) 0))"

definition parity :: "bytes list \<Rightarrow> nat \<Rightarrow> bytes list" where
  "parity messages nsym =
     (let table = parity_table nsym
      in if length messages \<le> PARITY_BATCH_ROWS
         then map (take nsym) (parity_rows messages table)
         else concat (map (\<lambda>rows. map (take nsym) (parity_rows rows table))
                (pieces PARITY_BATCH_ROWS messages)))"

section \<open>Evaluating byte strings as polynomials\<close>

text \<open>The first byte is the coefficient of the highest power, as in the source.\<close>

definition peval :: "bytes \<Rightarrow> gf256 \<Rightarrow> gf256" where
  "peval p x = foldl (\<lambda>acc c. acc * x + GF c) 0 p"

lemma peval_Nil [simp]: "peval [] x = 0"
  by (simp add: peval_def)

lemma peval_snoc [simp]: "peval (p @ [c]) x = peval p x * x + GF c"
  by (simp add: peval_def)

lemma peval_append: "peval (p @ q) x = peval p x * x ^ length q + peval q x"
proof (induction q rule: rev_induct)
  case (snoc c q)
  have "peval (p @ q @ [c]) x = peval (p @ q) x * x + GF c"
    using peval_snoc [of "p @ q" c x] by simp
  with snoc show ?case by (simp add: algebra_simps)
qed simp

lemma peval_Cons: "peval (c # p) x = GF c * x ^ length p + peval p x"
  using peval_append [of "[c]" p x] peval_snoc [of "[]" c x] by simp

lemma peval_zeros [simp]: "peval (replicate n 0) x = 0"
  by (induction n) (simp_all add: peval_Cons)

lemma peval_pad [simp]: "peval (replicate n 0 @ p) x = peval p x"
  by (simp add: peval_append)

lemma peval_xor:
  "length p = length q \<Longrightarrow> peval (map2 (XOR) p q) x = peval p x + peval q x"
  by (induction p q rule: list_induct2) (simp_all add: peval_Cons algebra_simps)

lemma peval_scale: "peval (map (multiply c) p) x = GF c * peval p x"
  by (induction p) (simp_all add: peval_Cons algebra_simps)

lemma peval_sum: "peval p x = (\<Sum>i<length p. GF (p ! i) * x ^ (length p - 1 - i))"
proof (induction p)
  case (Cons c p)
  have "(\<Sum>i<length (c # p). GF ((c # p) ! i) * x ^ (length (c # p) - 1 - i))
      = GF c * x ^ length p + (\<Sum>i<length p. GF (p ! i) * x ^ (length p - 1 - i))"
    by (simp add: sum.lessThan_Suc_shift del: sum.lessThan_Suc)
  with Cons show ?case by (simp add: peval_Cons)
qed simp

section \<open>The generator polynomial\<close>

lemma generator_fold:
  "length product = Suc (n + length poly) \<Longrightarrow>
   fold (\<lambda>(index, coefficient) product.
       product[Suc index := product ! Suc index XOR multiply coefficient root])
     (enumerate n poly) product
   = take (Suc n) product @ map2 (\<lambda>a c. a XOR multiply c root) (drop (Suc n) product) poly"
proof (induction poly arbitrary: n product)
  case Nil
  then show ?case by simp
next
  case (Cons c poly)
  let ?p = "product[Suc n := product ! Suc n XOR multiply c root]"
  have len: "length ?p = Suc (Suc n + length poly)" using Cons.prems by simp
  have "drop (Suc n) product = product ! Suc n # drop (Suc (Suc n)) product"
    using Cons.prems by (simp add: Cons_nth_drop_Suc)
  moreover have "take (Suc (Suc n)) ?p = take (Suc n) product @ [product ! Suc n XOR multiply c root]"
    using Cons.prems by (simp add: take_Suc_conv_app_nth)
  ultimately show ?case
    using Cons.IH [OF len] by simp
qed

lemma generator_step_eq:
  assumes "pw < 255" and "poly \<noteq> []"
  shows "generator_step pw poly =
    map2 (XOR) (poly @ [0]) (0 # map (multiply (apow pw)) poly)"
proof -
  have root: "of_nat (gf_exp ! pw) = apow pw" using assms by (simp add: gf_exp_nth)
  obtain c p where poly: "poly = c # p" using assms by (cases poly) auto
  have m: "map2 (\<lambda>a c. a XOR multiply c r) xs ys = map2 (XOR) xs (map (multiply r) ys)" for r xs ys
    by (simp add: map_zip_map2 case_prod_unfold multiply_commute)
  have "length (poly @ [0]) = Suc (0 + length poly)" by simp
  from generator_fold [OF this, of "apow pw"] show ?thesis
    by (simp add: generator_step_def root Let_def poly m)
qed

lemma generator_step_props:
  assumes "pw < 255" and "poly \<noteq> []" and "hd poly = 1"
  shows "length (generator_step pw poly) = Suc (length poly)"
    and "hd (generator_step pw poly) = 1"
    and "peval (generator_step pw poly) x = peval poly x * (x + alpha ^ pw)"
proof -
  note eq = generator_step_eq [OF assms(1,2)]
  show "length (generator_step pw poly) = Suc (length poly)" by (simp add: eq)
  show "hd (generator_step pw poly) = 1" unfolding eq using assms(2,3) by (cases poly) simp_all
  have "peval (generator_step pw poly) x = peval (poly @ [0]) x + peval (0 # map (multiply (apow pw)) poly) x"
    unfolding eq by (rule peval_xor) simp
  then show "peval (generator_step pw poly) x = peval poly x * (x + alpha ^ pw)"
    by (simp add: peval_Cons peval_scale GF_apow algebra_simps)
qed

lemma generator_props:
  "nsym \<le> 255 \<Longrightarrow> length (generator nsym) = Suc nsym \<and> hd (generator nsym) = 1 \<and>
   (\<forall>i<nsym. peval (generator nsym) (alpha ^ i) = 0)"
proof (induction nsym)
  case 0
  then show ?case by (simp add: generator_def)
next
  case (Suc n)
  then have IH: "length (generator n) = Suc n" "hd (generator n) = 1"
      "\<forall>i<n. peval (generator n) (alpha ^ i) = 0" and n: "n < 255" by auto
  have step: "generator (Suc n) = generator_step n (generator n)" by (simp add: generator_def)
  have ne: "generator n \<noteq> []" using IH(1) by auto
  show ?case
    using generator_step_props [OF n ne IH(2)] IH(1,3) by (auto simp: step less_Suc_eq)
qed

lemma generator_Cons: "nsym \<le> 255 \<Longrightarrow> generator nsym = 1 # tl (generator nsym)"
  using generator_props [of nsym] by (metis hd_Cons_tl length_0_conv nat.simps(3))

lemma length_generator_tail [simp]: "nsym \<le> 255 \<Longrightarrow> length (tl (generator nsym)) = nsym"
  using generator_props [of nsym] by simp

lemma generator_tail_root:
  assumes "nsym \<le> 255" and "i < nsym"
  shows "peval (tl (generator nsym)) (alpha ^ i) = (alpha ^ i) ^ nsym"
proof -
  have "peval (generator nsym) (alpha ^ i) = 0" using generator_props assms by simp
  then have "(alpha ^ i) ^ nsym + peval (tl (generator nsym)) (alpha ^ i) = 0"
    using assms length_generator_tail [of nsym]
    by (subst (asm) generator_Cons) (simp_all add: peval_Cons del: length_tl)
  then have "((alpha ^ i) ^ nsym + peval (tl (generator nsym)) (alpha ^ i)) + (alpha ^ i) ^ nsym
      = (alpha ^ i) ^ nsym" by simp
  then show ?thesis
    by (metis (no_types, opaque_lifting) add.assoc add.commute add_0_right gf256_char_2)
qed

section \<open>Position remainders\<close>

lemma next_remainder_root:
  assumes "length remainder = nsym" and "length poly_tail = nsym" and "0 < nsym"
    and "peval poly_tail \<beta> = \<beta> ^ nsym"
  shows "length (next_remainder poly_tail remainder) = nsym"
    and "peval (next_remainder poly_tail remainder) \<beta> = \<beta> * peval remainder \<beta>"
proof -
  obtain lead rest where rem: "remainder = lead # rest" using assms(1,3) by (cases remainder) auto
  have eq: "next_remainder poly_tail remainder
      = map2 (XOR) (rest @ [0]) (map (multiply lead) poly_tail)"
    by (simp add: next_remainder_def rem map_zip_map2 case_prod_unfold)
  show "length (next_remainder poly_tail remainder) = nsym"
    unfolding eq using assms(1,2) rem by simp
  have "peval (next_remainder poly_tail remainder) \<beta>
      = peval (rest @ [0]) \<beta> + peval (map (multiply lead) poly_tail) \<beta>"
    unfolding eq by (rule peval_xor) (use assms(1,2) rem in simp)
  also have "\<dots> = \<beta> * peval remainder \<beta>"
    using assms(1,4) by (simp add: peval_scale rem peval_Cons algebra_simps flip: power_Suc)
  finally show "peval (next_remainder poly_tail remainder) \<beta> = \<beta> * peval remainder \<beta>" .
qed

lemma length_remainder_chain [simp]: "length (remainder_chain poly_tail remainder n) = Suc n"
  by (induction n arbitrary: remainder) simp_all

lemma remainder_chain_lengths:
  "length remainder = nsym \<Longrightarrow> length poly_tail = nsym \<Longrightarrow> 0 < nsym \<Longrightarrow>
   r \<in> set (remainder_chain poly_tail remainder n) \<Longrightarrow> length r = nsym"
proof (induction n arbitrary: remainder)
  case (Suc n)
  have "length (next_remainder poly_tail remainder) = nsym"
    using Suc.prems by (simp add: next_remainder_def)
  with Suc show ?case by auto
qed simp

lemma remainder_chain_root:
  assumes "length poly_tail = nsym" and "0 < nsym" and "peval poly_tail \<beta> = \<beta> ^ nsym"
  shows "length remainder = nsym \<Longrightarrow> k \<le> n \<Longrightarrow>
    peval (remainder_chain poly_tail remainder n ! k) \<beta> = \<beta> ^ k * peval remainder \<beta>"
proof (induction n arbitrary: remainder k)
  case (Suc n)
  note next_rem = next_remainder_root [OF Suc.prems(1) assms]
  show ?case
  proof (cases k)
    case (Suc j)
    with Suc.prems Suc.IH [OF next_rem(1), of j] next_rem(2) show ?thesis
      by (simp add: mult.assoc mult.left_commute)
  qed simp
qed simp

lemma length_position_remainders [simp]:
  "nsym < 255 \<Longrightarrow> length (position_remainders nsym) = message_length nsym"
  by (simp add: position_remainders_def Let_def message_length_def CODEWORD_SIZE_def)

lemma check_nsym_bounds: "check_nsym nsym \<longleftrightarrow> 0 < nsym \<and> nsym < 255"
  by (auto simp: check_nsym_def RS_MIN_NSYM_def RS_MAX_NSYM_def)

lemma position_remainders_nth:
  assumes "check_nsym nsym" and "j < message_length nsym"
  shows "length (position_remainders nsym ! j) = nsym"
    and "i < nsym \<Longrightarrow> peval (position_remainders nsym ! j) (alpha ^ i) = (alpha ^ i) ^ (254 - j)"
proof -
  have n: "0 < nsym" "nsym < 255" using assms(1) by (simp_all add: check_nsym_bounds)
  have j: "j < 255 - nsym" using assms(2) by (simp add: message_length_def CODEWORD_SIZE_def)
  let ?t = "tl (generator nsym)"
  let ?c = "remainder_chain ?t ?t (254 - nsym)"
  have t: "length ?t = nsym" using n by (intro length_generator_tail) simp
  have nth: "position_remainders nsym ! j = ?c ! (254 - nsym - j)"
    using n j by (simp add: position_remainders_def Let_def CODEWORD_SIZE_def rev_nth)
  have "?c ! (254 - nsym - j) \<in> set ?c" using n j by (intro nth_mem) simp
  then show "length (position_remainders nsym ! j) = nsym"
    unfolding nth by (rule remainder_chain_lengths [OF t t n(1)])
  assume i: "i < nsym"
  have root: "peval ?t (alpha ^ i) = (alpha ^ i) ^ nsym"
    using n i by (intro generator_tail_root) simp_all
  have "peval (?c ! (254 - nsym - j)) (alpha ^ i)
      = (alpha ^ i) ^ (254 - nsym - j) * peval ?t (alpha ^ i)"
    using n by (intro remainder_chain_root [OF t _ root t]) simp_all
  also have "\<dots> = (alpha ^ i) ^ (254 - j)"
    using n j by (simp add: root flip: power_add)
  finally show "peval (position_remainders nsym ! j) (alpha ^ i) = (alpha ^ i) ^ (254 - j)"
    by (simp only: nth)
qed

section \<open>The tables and the table-driven parity\<close>

lemma zeroed_table_nth:
  assumes "a < n" and "b < n"
  shows "map (\<lambda>row. row[0 := (0 :: byte)])
      ((map (\<lambda>a. map (f a) [0..<n]) [0..<n])[0 := replicate n 0]) ! a ! b
    = (if a = 0 \<or> b = 0 then 0 else f a b)"
  using assms by (auto simp: nth_list_update)

lemma multiplication_table_nth:
  assumes "a < 256" and "b < 256"
  shows "multiplication_table ! a ! b = multiply (of_nat a) (of_nat b)"
proof -
  have zero: "(of_nat c :: byte) = 0 \<longleftrightarrow> c = 0" if "c < 256" for c
  proof -
    have "unat (of_nat c :: byte) = c" using that by (simp only: unat_of_nat_byte mod_less)
    then show ?thesis by (metis unsigned_eq_0_iff)
  qed
  have unat: "unat (of_nat c :: byte) = c" if "c < 256" for c
    using that by (simp only: unat_of_nat_byte mod_less)
  have "multiplication_table ! a ! b
      = (if a = 0 \<or> b = 0 then 0 else of_nat (gf_exp ! (gf_log ! a + gf_log ! b)))"
    unfolding multiplication_table_def Let_def by (rule zeroed_table_nth [OF assms])
  then show ?thesis
    by (simp only: multiply_def zero [OF assms(1)] zero [OF assms(2)] unat [OF assms(1)] unat [OF assms(2)])
qed

text \<open>The parity of one full-length row, position by position.\<close>

definition row_parity :: "nat \<Rightarrow> bytes \<Rightarrow> bytes" where
  "row_parity nsym row =
     fold (\<lambda>j acc. xor_bytes acc (map (multiply (row ! j)) (position_remainders nsym ! j)))
       [0..<message_length nsym] (replicate nsym 0)"

end
