(* ===== verification/RSParity.thy ===== *)
theory RSParity
  imports RSCode
begin

text \<open>
  What \<^verbatim>\<open>parity\<close> of \<^verbatim>\<open>src/dbs/container/rs.py\<close> computes: each row's parity by itself, whatever
  the batching; a message followed by its parity is a codeword (it vanishes at the first \<open>nsym\<close>
  powers of 2); and the distance of the code, more than \<open>nsym\<close>.
\<close>

section \<open>One row\<close>

lemma row_parity_fold_length:
  assumes "check_nsym nsym" and "\<forall>j \<in> set js. j < message_length nsym" and "length acc = nsym"
  shows "length (fold (\<lambda>j acc. xor_bytes acc (map (f j) (position_remainders nsym ! j))) js acc) = nsym"
  using assms by (induction js arbitrary: acc) (simp_all add: position_remainders_nth(1))

lemma length_row_parity [simp, byte_lens]: "check_nsym nsym \<Longrightarrow> length (row_parity nsym row) = nsym"
  unfolding row_parity_def by (rule row_parity_fold_length) simp_all

lemma row_parity_fold_root:
  assumes "check_nsym nsym" and "i < nsym"
  shows "(\<forall>j \<in> set js. j < message_length nsym) \<Longrightarrow> length acc = nsym \<Longrightarrow>
    peval (fold (\<lambda>j acc. xor_bytes acc (map (multiply (row ! j)) (position_remainders nsym ! j))) js acc) (alpha ^ i)
    = peval acc (alpha ^ i) + (\<Sum>j\<leftarrow>js. GF (row ! j) * (alpha ^ i) ^ (254 - j))"
proof (induction js arbitrary: acc)
  case Nil
  then show ?case by simp
next
  case (Cons j js)
  let ?t = "map (multiply (row ! j)) (position_remainders nsym ! j)"
  have j: "j < message_length nsym" using Cons.prems by simp
  note rem = position_remainders_nth [OF assms(1) j]
  have len: "length (xor_bytes acc ?t) = nsym" using Cons.prems rem(1) by simp
  have "peval (xor_bytes acc ?t) (alpha ^ i)
      = peval acc (alpha ^ i) + GF (row ! j) * (alpha ^ i) ^ (254 - j)"
    unfolding xor_bytes_def using Cons.prems rem assms(2)
    by (subst peval_xor) (simp_all add: peval_scale)
  with Cons.IH [OF _ len] Cons.prems show ?case by (simp add: add.assoc)
qed

lemma row_parity_root:
  assumes "check_nsym nsym" and "length row = message_length nsym" and "i < nsym"
  shows "peval (row_parity nsym row) (alpha ^ i) = peval row (alpha ^ i) * (alpha ^ i) ^ nsym"
proof -
  have n: "nsym < 255" using assms(1) by (simp add: check_nsym_bounds)
  let ?b = "alpha ^ i"
  have "peval (row_parity nsym row) ?b
      = (\<Sum>j\<leftarrow>[0..<message_length nsym]. GF (row ! j) * ?b ^ (254 - j))"
    unfolding row_parity_def
    by (subst row_parity_fold_root [OF assms(1,3)]) simp_all
  also have "\<dots> = (\<Sum>j<message_length nsym. GF (row ! j) * ?b ^ (254 - j))"
    by (simp add: interv_sum_list_conv_sum_set_nat atLeast0LessThan)
  also have "\<dots> = (\<Sum>j<message_length nsym. GF (row ! j) * ?b ^ (message_length nsym - 1 - j) * ?b ^ nsym)"
  proof (rule sum.cong [OF refl])
    fix j assume "j \<in> {..<message_length nsym}"
    then have "254 - j = (message_length nsym - 1 - j) + nsym"
      using n by (simp add: message_length_def CODEWORD_SIZE_def)
    then show "GF (row ! j) * ?b ^ (254 - j) = GF (row ! j) * ?b ^ (message_length nsym - 1 - j) * ?b ^ nsym"
      by (simp only: power_add mult.assoc)
  qed
  also have "\<dots> = peval row ?b * ?b ^ nsym"
    by (simp add: peval_sum assms(2) flip: sum_distrib_right)
  finally show ?thesis .
qed

text \<open>A codeword vanishes at the first \<open>nsym\<close> powers of 2.\<close>

definition is_codeword :: "nat \<Rightarrow> bytes \<Rightarrow> bool" where
  "is_codeword nsym c \<longleftrightarrow> (\<forall>i<nsym. peval c (alpha ^ i) = 0)"

definition padded :: "nat \<Rightarrow> bytes \<Rightarrow> bytes" where
  "padded nsym m = replicate (message_length nsym - length m) 0 @ m"

lemma length_padded [simp]: "length m \<le> message_length nsym \<Longrightarrow> length (padded nsym m) = message_length nsym"
  by (simp add: padded_def)

text \<open>A possibly shortened message with its parity, as \<^verbatim>\<open>encode_many\<close> lays it out.\<close>

definition cw_of :: "nat \<Rightarrow> bytes \<Rightarrow> bytes" where
  "cw_of nsym m = m @ row_parity nsym (padded nsym m)"

lemma length_cw_of [simp, byte_lens]: "check_nsym nsym \<Longrightarrow> length (cw_of nsym m) = length m + nsym"
  by (simp add: cw_of_def)

lemma cw_of_is_codeword:
  assumes "check_nsym nsym" and "length m \<le> message_length nsym"
  shows "is_codeword nsym (cw_of nsym m)"
proof (unfold is_codeword_def, intro allI impI)
  fix i assume i: "i < nsym"
  have len: "length (padded nsym m) = message_length nsym" using assms(2) by simp
  have "peval (cw_of nsym m) (alpha ^ i)
      = peval m (alpha ^ i) * (alpha ^ i) ^ nsym + peval (row_parity nsym (padded nsym m)) (alpha ^ i)"
    using assms(1) by (simp add: cw_of_def peval_append)
  also have "\<dots> = 0"
    using row_parity_root [OF assms(1) len i] by (simp add: padded_def)
  finally show "peval (cw_of nsym m) (alpha ^ i) = 0" .
qed

section \<open>Many rows, in batches\<close>

lemma parity_table_nth:
  assumes "check_nsym nsym" and "j < message_length nsym" and "v < 256"
  shows "parity_table nsym ! j ! v =
    map (multiply (of_nat v)) (position_remainders nsym ! j) @ replicate ((nsym + 7) div 8 * 8 - nsym) 0"
proof -
  have "j < length (position_remainders nsym)" using assms by (simp add: check_nsym_bounds)
  moreover have "multiplication_table ! v ! unat r = multiply (of_nat v) r" for r :: byte
    using multiplication_table_nth [OF assms(3), of "unat r"] by simp
  ultimately show ?thesis
    using assms(3) by (simp add: parity_table_def Let_def del: upt_Suc)
qed

lemma parity_rows_fold:
  assumes "length accs = length rows"
  shows "fold (\<lambda>j accs. map2 (\<lambda>row acc. g j row acc) rows accs) js accs
    = map2 (\<lambda>row acc. fold (\<lambda>j acc. g j row acc) js acc) rows accs"
  using assms
proof (induction js arbitrary: accs)
  case Nil
  then show ?case by (simp add: map_snd_zip case_prod_unfold)
next
  case (Cons j js)
  have "map2 (\<lambda>row acc. fold (\<lambda>j. g j row) js (g j row acc)) rows accs
      = map2 (\<lambda>row. fold (\<lambda>j. g j row) js) rows (map2 (g j) rows accs)"
    using Cons.prems by (induction rows accs rule: list_induct2') simp_all
  then show ?case using Cons by simp
qed

lemma take_xor_bytes:
  "take n (xor_bytes a (b @ z)) = take n (xor_bytes a b)" if "n \<le> length b"
  using that by (simp add: xor_bytes_def take_map take_zip)

lemma take_row_fold:
  assumes "check_nsym nsym"
  shows "\<forall>j \<in> set js. j < message_length nsym \<Longrightarrow> nsym \<le> length acc \<Longrightarrow> length acc \<le> (nsym + 7) div 8 * 8 \<Longrightarrow>
   take nsym (fold (\<lambda>j acc. xor_bytes acc (parity_table nsym ! j ! unat (row ! j))) js acc)
   = fold (\<lambda>j acc. xor_bytes acc (map (multiply (row ! j)) (position_remainders nsym ! j))) js (take nsym acc)"
proof (induction js arbitrary: acc)
  case Nil
  then show ?case by simp
next
  case (Cons j js)
  have j: "j < message_length nsym" using Cons.prems by simp
  let ?r = "map (multiply (row ! j)) (position_remainders nsym ! j)"
  let ?z = "replicate ((nsym + 7) div 8 * 8 - nsym) (0 :: byte)"
  have r: "length ?r = nsym" using position_remainders_nth(1) [OF assms j] by simp
  have t: "parity_table nsym ! j ! unat (row ! j) = ?r @ ?z"
    using parity_table_nth [OF assms j, of "unat (row ! j)"] by simp
  have len: "length (xor_bytes acc (?r @ ?z)) = length acc" using Cons.prems(2,3) r by simp
  have "take nsym (xor_bytes acc (?r @ ?z)) = xor_bytes (take nsym acc) ?r"
    using r by (simp add: xor_bytes_def take_map take_zip)
  with Cons.IH [of "xor_bytes acc (?r @ ?z)"] Cons.prems len show ?case by (simp add: t)
qed

lemma parity_rows_eq:
  assumes "check_nsym nsym"
  shows "map (take nsym) (parity_rows rows (parity_table nsym)) = map (row_parity nsym) rows"
proof -
  let ?w = "(nsym + 7) div 8 * 8"
  have n: "0 < nsym" "nsym < 255" using assms by (simp_all add: check_nsym_bounds)
  have lt: "length (parity_table nsym) = message_length nsym"
    using n by (simp add: parity_table_def Let_def)
  have ml: "0 < message_length nsym" using n by (simp add: message_length_def CODEWORD_SIZE_def)
  have w: "length (parity_table nsym ! 0 ! 0) = ?w"
    using parity_table_nth [OF assms ml, of 0] position_remainders_nth(1) [OF assms ml] by simp
  have nw: "nsym \<le> ?w" by presburger
  have "parity_rows rows (parity_table nsym)
      = map2 (\<lambda>row acc. fold (\<lambda>j acc. xor_bytes acc (parity_table nsym ! j ! unat (row ! j)))
          [0..<message_length nsym] acc) rows (replicate (length rows) (replicate ?w 0))"
    unfolding parity_rows_def lt w by (rule parity_rows_fold) simp
  also have "map (take nsym) \<dots> = map (row_parity nsym) rows"
    using take_row_fold [OF assms, of "[0..<message_length nsym]" "replicate ?w 0"] nw
    by (simp add: zip_replicate2 row_parity_def)
  finally show ?thesis .
qed

lemma parity_eq:
  assumes "check_nsym nsym"
  shows "parity rows nsym = map (row_parity nsym) rows"
proof -
  have "concat (map (\<lambda>rows. map (row_parity nsym) rows) (pieces PARITY_BATCH_ROWS rows))
      = map (row_parity nsym) (concat (pieces PARITY_BATCH_ROWS rows))"
    by (simp add: map_concat)
  then show ?thesis
    by (simp add: parity_def Let_def parity_rows_eq [OF assms] concat_pieces PARITY_BATCH_ROWS_def)
qed

section \<open>The distance of the code\<close>

definition differing :: "'a list \<Rightarrow> 'a list \<Rightarrow> nat list" where
  "differing xs ys = filter (\<lambda>i. xs ! i \<noteq> ys ! i) [0..<min (length xs) (length ys)]"

text \<open>The locator of a position and the product that vanishes at all but one of them.\<close>

lemma weighted_sum_vanishes:
  fixes X :: "nat \<Rightarrow> gf256"
  assumes "finite T" and "\<And>j. j < n \<Longrightarrow> (\<Sum>i\<in>S. c i * X i ^ j) = 0"
  shows "j + card T < n \<Longrightarrow> (\<Sum>i\<in>S. c i * X i ^ j * (\<Prod>t\<in>T. X i + X t)) = 0"
  using assms(1)
proof (induction T arbitrary: j rule: finite_induct)
  case empty
  then show ?case using assms(2) by simp
next
  case (insert t T)
  have j: "Suc j + card T < n" "j + card T < n" using insert by simp_all
  have "(\<Sum>i\<in>S. c i * X i ^ j * (\<Prod>u\<in>insert t T. X i + X u))
      = (\<Sum>i\<in>S. c i * X i ^ Suc j * (\<Prod>u\<in>T. X i + X u)) +
        X t * (\<Sum>i\<in>S. c i * X i ^ j * (\<Prod>u\<in>T. X i + X u))"
    using insert.hyps by (simp add: sum_distrib_left algebra_simps flip: sum.distrib)
  also have "\<dots> = 0" using insert.IH [OF j(1)] insert.IH [OF j(2)] by simp
  finally show ?case .
qed

lemma few_terms_vanish:
  fixes X :: "nat \<Rightarrow> gf256"
  assumes "finite S" and "card S \<le> n" and "inj_on X S"
    and "\<And>j. j < n \<Longrightarrow> (\<Sum>i\<in>S. c i * X i ^ j) = 0" and "k \<in> S"
  shows "c k = 0"
proof -
  let ?T = "S - {k}"
  have "0 < card S" using assms(1,5) by (auto simp: card_gt_0_iff)
  with assms(2,5) have "0 + card ?T < n" by (simp add: card_Diff_singleton)
  then have "(\<Sum>i\<in>S. c i * X i ^ 0 * (\<Prod>t\<in>?T. X i + X t)) = 0"
    using assms(1,4) by (intro weighted_sum_vanishes) auto
  moreover have "(\<Sum>i\<in>S. c i * X i ^ 0 * (\<Prod>t\<in>?T. X i + X t)) = c k * (\<Prod>t\<in>?T. X k + X t)"
  proof -
    have pz: "(\<Prod>t\<in>?T. X i + X t) = 0" if "i \<in> S" "i \<noteq> k" for i
      using assms(1) that by (intro prod_zero bexI [of _ i]) auto
    have "(\<Sum>i\<in>?T. c i * X i ^ 0 * (\<Prod>t\<in>?T. X i + X t)) = 0"
      by (rule sum.neutral) (simp add: pz del: prod_zero_iff)
    then show ?thesis
      using assms(1,5) by (simp add: sum.remove [of S k] del: prod_zero_iff)
  qed
  moreover have "(\<Prod>t\<in>?T. X k + X t) \<noteq> 0"
  proof -
    have "X k + X t \<noteq> 0" if "t \<in> ?T" for t
    proof -
      have "X k \<noteq> X t" using that assms(3,5) by (auto dest: inj_onD)
      then show ?thesis by (metis add.assoc add.right_neutral add_0 gf256_char_2)
    qed
    then show ?thesis using assms(1) by simp
  qed
  ultimately show ?thesis by simp
qed

lemma byte_xor_eq_0: "(a :: byte) XOR b = 0 \<longleftrightarrow> a = b"
proof
  assume "a XOR b = 0"
  then have "(a XOR b) XOR b = b" by simp
  then show "a = b" by (simp add: xor.assoc)
qed simp

lemma codeword_distance:
  assumes "is_codeword nsym c" and "is_codeword nsym d"
    and len: "length c = length d" "length c \<le> 255"
    and few: "length (differing c d) \<le> nsym"
  shows "c = d"
proof -
  let ?e = "map2 (XOR) c d" and ?n = "length c"
  let ?S = "{i. i < ?n \<and> c ! i \<noteq> d ! i}"
  let ?X = "\<lambda>i. alpha ^ (?n - 1 - i)"
  have e: "?e ! i = c ! i XOR d ! i" if "i < ?n" for i using that len by simp
  have sums: "(\<Sum>i\<in>?S. GF (?e ! i) * ?X i ^ j) = 0" if "j < nsym" for j
  proof -
    have "peval ?e (alpha ^ j) = 0"
      using assms(1,2) that len by (simp add: peval_xor is_codeword_def)
    then have "(\<Sum>i<?n. GF (?e ! i) * ?X i ^ j) = 0"
      using len by (simp add: peval_sum mult.commute flip: power_mult)
    moreover have "(\<Sum>i\<in>?S. GF (?e ! i) * ?X i ^ j) = (\<Sum>i<?n. GF (?e ! i) * ?X i ^ j)"
      by (rule sum.mono_neutral_left) (auto simp: e byte_xor_eq_0)
    ultimately show ?thesis by simp
  qed
  have "?S = set (differing c d)" using len by (auto simp: differing_def)
  then have card: "card ?S \<le> nsym" using few by (metis card_length le_trans)
  have inj: "inj_on ?X ?S"
  proof (rule inj_onI)
    fix i j assume "i \<in> ?S" "j \<in> ?S" "?X i = ?X j"
    moreover from this have "?n - 1 - i < 255" "?n - 1 - j < 255" using len(2) by auto
    ultimately have "?n - 1 - i = ?n - 1 - j" by (intro alpha_power_inj)
    with \<open>i \<in> ?S\<close> \<open>j \<in> ?S\<close> show "i = j" by auto
  qed
  have "c ! i = d ! i" if "i < ?n" for i
  proof (rule ccontr)
    assume "c ! i \<noteq> d ! i"
    with that have "i \<in> ?S" by simp
    then have "GF (?e ! i) = 0"
      using few_terms_vanish [where S = ?S and X = ?X and c = "\<lambda>i. GF (?e ! i)" and n = nsym and k = i]
        card inj sums by simp
    then have "?e ! i = 0" by (metis GF_0 GF_inject)
    with \<open>c ! i \<noteq> d ! i\<close> that show False by (simp add: e byte_xor_eq_0)
  qed
  then show "c = d" using len by (intro nth_equalityI) auto
qed

lemma length_differing_sym: "length xs = length ys \<Longrightarrow> differing xs ys = differing ys xs"
  by (auto simp: differing_def intro: filter_cong)

lemma differing_self [simp]: "differing xs xs = []"
  by (simp add: differing_def)

lemma differing_triangle:
  assumes "length xs = length ys" and "length ys = length zs"
  shows "length (differing xs zs) \<le> length (differing xs ys) + length (differing ys zs)"
proof -
  have card: "length (differing us vs) = card {i. i < length us \<and> us ! i \<noteq> vs ! i}"
    if "length us = length vs" for us vs :: "'a list"
    using that by (auto simp: differing_def length_filter_conv_card intro!: arg_cong [where f = card])
  have "{i. i < length xs \<and> xs ! i \<noteq> zs ! i}
      \<subseteq> {i. i < length xs \<and> xs ! i \<noteq> ys ! i} \<union> {i. i < length ys \<and> ys ! i \<noteq> zs ! i}"
    using assms by auto
  then have "card {i. i < length xs \<and> xs ! i \<noteq> zs ! i}
      \<le> card ({i. i < length xs \<and> xs ! i \<noteq> ys ! i} \<union> {i. i < length ys \<and> ys ! i \<noteq> zs ! i})"
    by (intro card_mono) auto
  also have "\<dots> \<le> card {i. i < length xs \<and> xs ! i \<noteq> ys ! i} + card {i. i < length ys \<and> ys ! i \<noteq> zs ! i}"
    by (rule card_Un_le)
  finally show ?thesis using assms by (simp add: card)
qed

lemma cw_of_inject_near:
  assumes "check_nsym nsym" and "length m = length m'" and "length m \<le> message_length nsym"
    and "length c = length m + nsym"
    and "length (differing (cw_of nsym m) c) + length (differing c (cw_of nsym m')) \<le> nsym"
  shows "m = m'"
proof -
  have "length (cw_of nsym m) \<le> 255"
    using assms(3) by (simp add: assms(1)) (use assms(1) in \<open>auto simp: check_nsym_bounds message_length_def CODEWORD_SIZE_def\<close>)
  moreover have "length (differing (cw_of nsym m) (cw_of nsym m')) \<le> nsym"
    using differing_triangle [of "cw_of nsym m" c "cw_of nsym m'"] assms by simp
  ultimately have "cw_of nsym m = cw_of nsym m'"
    using assms by (intro codeword_distance [of nsym]) (simp_all add: cw_of_is_codeword)
  then show ?thesis using assms(2) by (simp add: cw_of_def)
qed

end
