(* ===== verification/ReedSolomon.thy ===== *)
theory ReedSolomon
  imports RSParity
begin

text \<open>
  The operations of \<^verbatim>\<open>src/dbs/container/rs.py\<close> on whole blocks: \<^verbatim>\<open>encode_many\<close>,
  \<^verbatim>\<open>strip_parity\<close>, \<^verbatim>\<open>damaged_codewords\<close>, \<^verbatim>\<open>decode\<close> and \<^verbatim>\<open>repair_from_copies\<close>. The error
  correcting decoder itself is the third-party package reedsolo: it is the parameter
  \<open>codec\<close>, called as \<open>codec nsym erasures codeword\<close>, with \<open>None\<close> for the exception it raises when a
  codeword cannot be decoded. The lemmas that rely on what it promises are in the locale
  \<open>correcting_codec\<close>.
\<close>

section \<open>Definitions\<close>

type_synonym codec = "nat \<Rightarrow> nat list option \<Rightarrow> bytes \<Rightarrow> bytes option"

definition encoded_length :: "nat \<Rightarrow> nat \<Rightarrow> nat" where
  "encoded_length data_len nsym =
     (let full = data_len div message_length nsym; rest = data_len mod message_length nsym
      in full * CODEWORD_SIZE + (if rest \<noteq> 0 then rest + nsym else 0))"

definition codeword_count :: "nat \<Rightarrow> nat" where
  "codeword_count encoded_len = nat (- ((- int encoded_len) div int CODEWORD_SIZE))"

definition is_well_formed :: "nat \<Rightarrow> nat \<Rightarrow> bool" where
  "is_well_formed encoded_len nsym =
     (let rest = encoded_len mod CODEWORD_SIZE in rest = 0 \<or> nsym < rest)"

definition message_rows :: "bytes \<Rightarrow> nat \<Rightarrow> bytes list \<times> nat" where
  "message_rows data nsym =
     (let message_len = message_length nsym;
          full = length data div message_len;
          rest = length data mod message_len;
          rows = pieces message_len (take (full * message_len) data)
      in (rows @ (if rest \<noteq> 0 then [replicate (message_len - rest) 0 @ drop (full * message_len) data] else []),
          rest))"

fun encode_layouts :: "nat \<Rightarrow> bytes list \<Rightarrow> nat \<Rightarrow> ((bytes list \<times> nat) \<times> bytes) list \<Rightarrow> bytes list" where
  "encode_layouts nsym all_parity start [] = []"
| "encode_layouts nsym all_parity start (((rows, rest), block) # layouts) =
     (let message_len = message_length nsym;
          count = length rows;
          block_parity = py_slice all_parity start count;
          full = count - (if rest \<noteq> 0 then 1 else 0);
          codewords = concat (map2 (@) (take full rows) (take full block_parity));
          tail = (if rest \<noteq> 0 then drop (full * message_len) block @ block_parity ! full else [])
      in (codewords @ tail) # encode_layouts nsym all_parity (start + count) layouts)"

definition encode_many :: "bytes list \<Rightarrow> nat \<Rightarrow> bytes list" where
  "encode_many blocks nsym =
     (if blocks = [] then []
      else let layouts = map (\<lambda>block. message_rows block nsym) blocks;
               all_parity = parity (concat (map fst layouts)) nsym
           in encode_layouts nsym all_parity 0 (zip layouts blocks))"

definition encode :: "bytes \<Rightarrow> nat \<Rightarrow> bytes" where
  "encode data nsym = encode_many [data] nsym ! 0"

definition split_codewords :: "bytes \<Rightarrow> nat \<Rightarrow> bytes list \<times> bytes list \<times> nat" where
  "split_codewords encoded nsym =
     (let message_len = message_length nsym;
          full = length encoded div CODEWORD_SIZE;
          rest = length encoded mod CODEWORD_SIZE;
          codewords = pieces CODEWORD_SIZE (take (full * CODEWORD_SIZE) encoded);
          tail = drop (full * CODEWORD_SIZE) encoded
      in (map (take message_len) codewords @
            (if rest \<noteq> 0 then [replicate (message_len - (rest - nsym)) 0 @ take (rest - nsym) tail] else []),
          map (drop message_len) codewords @ (if rest \<noteq> 0 then [drop (rest - nsym) tail] else []),
          rest))"

definition strip_parity :: "bytes \<Rightarrow> nat \<Rightarrow> bytes option" where
  "strip_parity encoded nsym =
     (if \<not> is_well_formed (length encoded) nsym then None
      else let message_len = message_length nsym;
               full = length encoded div CODEWORD_SIZE;
               rest = length encoded mod CODEWORD_SIZE;
               data = concat (map (take message_len)
                        (pieces CODEWORD_SIZE (take (full * CODEWORD_SIZE) encoded)))
           in Some (if rest \<noteq> 0
                    then data @ drop (full * CODEWORD_SIZE) (take (length encoded - nsym) encoded)
                    else data))"

definition damaged_codewords :: "bytes \<Rightarrow> nat \<Rightarrow> nat list option" where
  "damaged_codewords encoded nsym =
     (if \<not> is_well_formed (length encoded) nsym then None
      else case split_codewords encoded nsym of (messages, stored, rest) \<Rightarrow>
        Some (filter (\<lambda>index. parity messages nsym ! index \<noteq> stored ! index) [0..<length messages]))"

definition codeword :: "bytes \<Rightarrow> nat \<Rightarrow> bytes" where
  "codeword encoded index = py_slice encoded (index * CODEWORD_SIZE) CODEWORD_SIZE"

definition decode_codeword :: "codec \<Rightarrow> bytes \<Rightarrow> nat \<Rightarrow> nat list \<Rightarrow> bytes option" where
  "decode_codeword codec codeword_bytes nsym erasures =
     (if erasures \<noteq> [] then codec nsym (Some erasures) codeword_bytes
      else codec nsym None codeword_bytes)"

definition decode_whole :: "codec \<Rightarrow> bytes \<Rightarrow> nat \<Rightarrow> bytes option" where
  "decode_whole codec encoded nsym = codec nsym None encoded"

text \<open>Python's slice assignment \<open>xs[start : start + len(p)] = p\<close> on a bytearray.\<close>

definition splice :: "'a list \<Rightarrow> nat \<Rightarrow> 'a list \<Rightarrow> 'a list" where
  "splice xs start p = take start xs @ p @ drop (start + length p) xs"

fun decode_loop :: "codec \<Rightarrow> bytes \<Rightarrow> nat \<Rightarrow> nat list \<Rightarrow> bytes \<Rightarrow> bytes option" where
  "decode_loop codec encoded nsym [] out = Some out"
| "decode_loop codec encoded nsym (index # damaged) out =
     (case decode_codeword codec (codeword encoded index) nsym [] of
        None \<Rightarrow> None
      | Some repaired \<Rightarrow>
          decode_loop codec encoded nsym damaged (splice out (index * message_length nsym) repaired))"

definition decode :: "codec \<Rightarrow> bytes \<Rightarrow> nat \<Rightarrow> bytes option" where
  "decode codec encoded nsym =
     (case damaged_codewords encoded nsym of
        None \<Rightarrow> decode_whole codec encoded nsym
      | Some damaged \<Rightarrow>
          (case strip_parity encoded nsym of
             None \<Rightarrow> None
           | Some data \<Rightarrow>
               if damaged = [] then Some data else decode_loop codec encoded nsym damaged data))"

fun decode_first :: "codec \<Rightarrow> nat \<Rightarrow> nat list \<Rightarrow> nat \<Rightarrow> bytes list \<Rightarrow> (nat \<times> bytes) option" where
  "decode_first codec nsym erasures source [] = None"
| "decode_first codec nsym erasures source (candidate # rest) =
     (case decode_codeword codec candidate nsym erasures of
        Some piece \<Rightarrow> Some (source, piece)
      | None \<Rightarrow> decode_first codec nsym erasures (Suc source) rest)"

definition decode_any :: "codec \<Rightarrow> bytes list \<Rightarrow> nat \<Rightarrow> (nat \<times> bytes) option" where
  "decode_any codec codewords nsym =
     (case decode_first codec nsym [] 0 codewords of
        Some found \<Rightarrow> Some found
      | None \<Rightarrow>
          if length codewords = 2 \<and> length (codewords ! 0) = length (codewords ! 1)
          then let diff = differing (codewords ! 0) (codewords ! 1)
               in if 0 < length diff \<and> length diff \<le> nsym
                  then decode_first codec nsym diff 0 codewords
                  else None
          else None)"

fun repair_loop ::
  "codec \<Rightarrow> bytes list \<Rightarrow> nat \<Rightarrow> bool list list \<Rightarrow> bytes list \<Rightarrow> nat list \<Rightarrow>
   bytes \<Rightarrow> nat set \<Rightarrow> bool \<Rightarrow> bytes option \<times> nat set \<times> bool" where
  "repair_loop codec copies nsym consistent stripped [] repaired used decoded =
     (Some repaired, used, decoded)"
| "repair_loop codec copies nsym consistent stripped (index # rest) repaired used decoded =
     (let message_len = message_length nsym; start = index * message_len
      in case find (\<lambda>number. consistent ! number ! index) [0..<length consistent] of
           Some source \<Rightarrow>
             let piece = py_slice (stripped ! source) start message_len
             in repair_loop codec copies nsym consistent stripped rest
                  (splice repaired start piece) (insert source used) decoded
         | None \<Rightarrow>
             (case decode_any codec (map (\<lambda>copy. codeword copy index) copies) nsym of
                None \<Rightarrow> (None, used, decoded)
              | Some (source, piece) \<Rightarrow>
                  repair_loop codec copies nsym consistent stripped rest
                    (splice repaired start piece) (insert source used) True))"

definition consistent_mask :: "bytes \<Rightarrow> nat \<Rightarrow> bool list" where
  "consistent_mask copy nsym =
     (case split_codewords copy nsym of (messages, stored, rest) \<Rightarrow>
        map2 (=) (parity messages nsym) stored)"

definition repair_from_copies :: "codec \<Rightarrow> bytes list \<Rightarrow> nat \<Rightarrow> bytes option \<times> nat set \<times> bool" where
  "repair_from_copies codec copies nsym =
     (case copies of
        [] \<Rightarrow> (None, {}, False)
      | first # _ \<Rightarrow>
          let len = length first
          in if (\<exists>copy \<in> set copies. length copy \<noteq> len) \<or> \<not> is_well_formed len nsym
             then (None, {}, False)
             else let consistent = map (\<lambda>copy. consistent_mask copy nsym) copies;
                      stripped = map (\<lambda>copy. the (strip_parity copy nsym)) copies
                  in repair_loop codec copies nsym consistent stripped [0..<codeword_count len]
                       (stripped ! 0) {} False)"

section \<open>Encoding, codeword by codeword\<close>

lemma CODEWORD_SIZE_pos [simp]: "0 < CODEWORD_SIZE"
  by (simp add: CODEWORD_SIZE_def)

lemma message_length_pos: "check_nsym nsym \<Longrightarrow> 0 < message_length nsym"
  by (simp add: check_nsym_bounds message_length_def CODEWORD_SIZE_def)

lemma message_length_plus: "check_nsym nsym \<Longrightarrow> message_length nsym + nsym = CODEWORD_SIZE"
  by (simp add: check_nsym_bounds message_length_def CODEWORD_SIZE_def)

lemma length_last_piece: "length (drop (length xs div n * n) xs) = length xs mod n"
  by (simp add: minus_div_mult_eq_mod)

lemma message_rows_eq:
  assumes "check_nsym nsym"
  shows "message_rows data nsym
    = (map (padded nsym) (pieces (message_length nsym) data), length data mod message_length nsym)"
proof -
  let ?m = "message_length nsym"
  let ?F = "pieces ?m (take (length data div ?m * ?m) data)"
  note m = message_length_pos [OF assms]
  have "map (padded nsym) ?F = ?F"
    by (auto intro!: map_idI simp: padded_def dest!: pieces_full_lengths [OF m])
  moreover have "length (drop (length data div ?m * ?m) data) = length data mod ?m"
    by (rule length_last_piece)
  ultimately show ?thesis
    unfolding message_rows_def Let_def
    by (subst pieces_full_rest [OF m]) (simp add: padded_def)
qed

definition encode_spec :: "bytes \<Rightarrow> nat \<Rightarrow> bytes" where
  "encode_spec data nsym = concat (map (cw_of nsym) (pieces (message_length nsym) data))"

lemma encode_block:
  fixes data :: bytes
  assumes "check_nsym nsym"
  defines "m \<equiv> message_length nsym"
  defines "ps \<equiv> pieces m data" and "rest \<equiv> length data mod m"
  defines "rows \<equiv> map (padded nsym) ps" and "par \<equiv> map (\<lambda>p. row_parity nsym (padded nsym p)) ps"
  defines "full \<equiv> length rows - (if rest \<noteq> 0 then 1 else 0)"
  shows "concat (map2 (@) (take full rows) (take full par))
      @ (if rest \<noteq> 0 then drop (full * m) data @ par ! full else []) = encode_spec data nsym"
proof -
  have m: "0 < m" unfolding m_def by (rule message_length_pos [OF assms(1)])
  let ?F = "pieces m (take (length data div m * m) data)"
  have full_len: "length p = m" if "p \<in> set ?F" for p
    using pieces_full_lengths [OF m that] .
  have lF: "length ?F = length data div m"
    by (rule length_full_pieces [OF m])
  have ps: "ps = ?F @ (if rest = 0 then [] else [drop (length data div m * m) data])"
    unfolding ps_def rest_def by (rule pieces_full_rest [OF m])
  have full: "full = length ?F"
    unfolding full_def rows_def by (simp add: ps)
  have "map (padded nsym) ?F = ?F"
  proof (rule map_idI)
    fix p assume "p \<in> set ?F"
    then have "length p = m" by (rule full_len)
    then show "padded nsym p = p" by (simp add: padded_def m_def)
  qed
  then have heads: "take full rows = ?F" "take full par = map (\<lambda>p. row_parity nsym (padded nsym p)) ?F"
    unfolding rows_def par_def full ps by simp_all
  have body: "concat (map2 (@) (take full rows) (take full par)) = concat (map (cw_of nsym) ?F)"
  proof -
    have "cw_of nsym = (\<lambda>p. p @ row_parity nsym (padded nsym p))" by (simp add: fun_eq_iff cw_of_def)
    then show ?thesis unfolding heads by (simp add: zip_map2 zip_same_conv_map o_def case_prod_unfold)
  qed
  show ?thesis
    unfolding encode_spec_def body using ps full lF
    by (auto simp: par_def nth_append cw_of_def simp flip: m_def ps_def)
qed

lemma encode_layouts_eq:
  assumes "check_nsym nsym"
    and "drop start all_parity = concat (map (\<lambda>b. map (\<lambda>p. row_parity nsym (padded nsym p))
           (pieces (message_length nsym) b)) blocks)"
  shows "encode_layouts nsym all_parity start (zip (map (\<lambda>b. message_rows b nsym) blocks) blocks)
    = map (\<lambda>b. encode_spec b nsym) blocks"
  using assms(2)
proof (induction blocks arbitrary: start)
  case Nil
  then show ?case by simp
next
  case (Cons b blocks)
  let ?ps = "pieces (message_length nsym) b"
  have "py_slice all_parity start (length ?ps) = map (\<lambda>p. row_parity nsym (padded nsym p)) ?ps"
    unfolding py_slice_def Cons.prems by simp
  moreover have "drop (start + length ?ps) all_parity
      = drop (length ?ps) (drop start all_parity)" by (simp add: add.commute)
  then have "drop (start + length ?ps) all_parity = concat (map (\<lambda>b. map (\<lambda>p. row_parity nsym (padded nsym p))
      (pieces (message_length nsym) b)) blocks)"
    unfolding Cons.prems by simp
  ultimately show ?case
    using Cons.IH encode_block [OF assms(1), of b]
    by (simp only: message_rows_eq [OF assms(1)] encode_layouts.simps Let_def list.map zip_Cons_Cons length_map)
qed

lemma encode_many_eq:
  assumes "check_nsym nsym"
  shows "encode_many blocks nsym = map (\<lambda>b. encode_spec b nsym) blocks"
proof (cases "blocks = []")
  case True
  then show ?thesis by (simp add: encode_many_def)
next
  case False
  have "parity (concat (map fst (map (\<lambda>b. message_rows b nsym) blocks))) nsym
      = concat (map (\<lambda>b. map (\<lambda>p. row_parity nsym (padded nsym p)) (pieces (message_length nsym) b)) blocks)"
    by (simp add: parity_eq [OF assms] message_rows_eq [OF assms] map_concat o_def)
  with False show ?thesis
    unfolding encode_many_def Let_def
    by (subst encode_layouts_eq [OF assms]) simp_all
qed

lemma encode_eq: "check_nsym nsym \<Longrightarrow> encode data nsym = encode_spec data nsym"
  by (simp add: encode_def encode_many_eq)

lemma encode_many_encode: "check_nsym nsym \<Longrightarrow> encode_many blocks nsym = map (\<lambda>b. encode b nsym) blocks"
  by (simp add: encode_many_eq encode_eq)

section \<open>Taking a well-formed encoding apart\<close>

lemma well_formed_pieces:
  fixes e :: bytes
  assumes "is_well_formed (length e) nsym"
  obtains F t where
    "pieces CODEWORD_SIZE (take (length e div CODEWORD_SIZE * CODEWORD_SIZE) e) = F"
    "drop (length e div CODEWORD_SIZE * CODEWORD_SIZE) e = t"
    "\<And>c. c \<in> set F \<Longrightarrow> length c = CODEWORD_SIZE"
    "length t = length e mod CODEWORD_SIZE"
    "length t = 0 \<or> nsym < length t"
    "pieces CODEWORD_SIZE e = F @ (if length t = 0 then [] else [t])"
proof (rule that [OF refl refl])
  show "length c = CODEWORD_SIZE"
    if "c \<in> set (pieces CODEWORD_SIZE (take (length e div CODEWORD_SIZE * CODEWORD_SIZE) e))" for c
    by (rule pieces_full_lengths [OF CODEWORD_SIZE_pos that])
  show len: "length (drop (length e div CODEWORD_SIZE * CODEWORD_SIZE) e) = length e mod CODEWORD_SIZE"
    by (rule length_last_piece)
  show "length (drop (length e div CODEWORD_SIZE * CODEWORD_SIZE) e) = 0 \<or>
      nsym < length (drop (length e div CODEWORD_SIZE * CODEWORD_SIZE) e)"
    using assms unfolding len by (simp add: is_well_formed_def Let_def)
  show "pieces CODEWORD_SIZE e = pieces CODEWORD_SIZE (take (length e div CODEWORD_SIZE * CODEWORD_SIZE) e) @
      (if length (drop (length e div CODEWORD_SIZE * CODEWORD_SIZE) e) = 0 then []
       else [drop (length e div CODEWORD_SIZE * CODEWORD_SIZE) e])"
    unfolding len by (rule pieces_full_rest [OF CODEWORD_SIZE_pos])
qed

lemma split_codewords_eq:
  assumes "check_nsym nsym" and "is_well_formed (length e) nsym"
  shows "split_codewords e nsym
    = (map (\<lambda>c. padded nsym (take (length c - nsym) c)) (pieces CODEWORD_SIZE e),
       map (\<lambda>c. drop (length c - nsym) c) (pieces CODEWORD_SIZE e),
       length e mod CODEWORD_SIZE)"
proof -
  obtain F t where ft:
    "pieces CODEWORD_SIZE (take (length e div CODEWORD_SIZE * CODEWORD_SIZE) e) = F"
    "drop (length e div CODEWORD_SIZE * CODEWORD_SIZE) e = t"
    and F: "\<And>c. c \<in> set F \<Longrightarrow> length c = CODEWORD_SIZE"
    and t: "length t = length e mod CODEWORD_SIZE" "length t = 0 \<or> nsym < length t"
    and p: "pieces CODEWORD_SIZE e = F @ (if length t = 0 then [] else [t])"
    by (rule well_formed_pieces [OF assms(2)]) blast
  have m: "CODEWORD_SIZE - nsym = message_length nsym" by (simp add: message_length_def)
  have "map (take (message_length nsym)) F = map (\<lambda>c. padded nsym (take (length c - nsym) c)) F"
    by (rule map_cong [OF refl]) (simp add: F padded_def message_length_def)
  moreover have "map (drop (message_length nsym)) F = map (\<lambda>c. drop (length c - nsym) c) F"
    by (rule map_cong [OF refl]) (simp add: F flip: m)
  ultimately show ?thesis
    unfolding split_codewords_def Let_def ft p t(1) [symmetric] by (auto simp: padded_def)
qed

lemma strip_parity_eq:
  assumes "check_nsym nsym" and "is_well_formed (length e) nsym"
  shows "strip_parity e nsym = Some (concat (map (\<lambda>c. take (length c - nsym) c) (pieces CODEWORD_SIZE e)))"
proof -
  obtain F t where ft:
    "pieces CODEWORD_SIZE (take (length e div CODEWORD_SIZE * CODEWORD_SIZE) e) = F"
    "drop (length e div CODEWORD_SIZE * CODEWORD_SIZE) e = t"
    and F: "\<And>c. c \<in> set F \<Longrightarrow> length c = CODEWORD_SIZE"
    and t: "length t = length e mod CODEWORD_SIZE" "length t = 0 \<or> nsym < length t"
    and p: "pieces CODEWORD_SIZE e = F @ (if length t = 0 then [] else [t])"
    by (rule well_formed_pieces [OF assms(2)]) blast
  have eq: "map (take (message_length nsym)) F = map (\<lambda>c. take (length c - nsym) c) F"
    by (rule map_cong [OF refl]) (simp add: F message_length_def)
  have tail: "drop (length e div CODEWORD_SIZE * CODEWORD_SIZE) (take (length e - nsym) e)
      = take (length t - nsym) t"
    by (simp add: drop_take add.commute flip: ft(2))
  show ?thesis
    using assms(2) unfolding strip_parity_def Let_def ft p t(1) [symmetric] eq tail by simp
qed

lemma length_split_messages:
  "check_nsym nsym \<Longrightarrow> is_well_formed (length e) nsym \<Longrightarrow>
   length (fst (split_codewords e nsym)) = length (pieces CODEWORD_SIZE e)"
  by (simp add: split_codewords_eq)

text \<open>A codeword is consistent when its parity is the parity of its message.\<close>

definition consistent_cw :: "nat \<Rightarrow> bytes \<Rightarrow> bool" where
  "consistent_cw nsym c \<longleftrightarrow> cw_of nsym (take (length c - nsym) c) = c"

lemma consistent_cw_iff:
  assumes "check_nsym nsym" and "nsym \<le> length c"
  shows "consistent_cw nsym c \<longleftrightarrow>
    row_parity nsym (padded nsym (take (length c - nsym) c)) = drop (length c - nsym) c"
proof -
  have "cw_of nsym (take (length c - nsym) c) = c \<longleftrightarrow>
      take (length c - nsym) c @ row_parity nsym (padded nsym (take (length c - nsym) c))
      = take (length c - nsym) c @ drop (length c - nsym) c"
    by (simp add: cw_of_def)
  then show ?thesis by (simp add: consistent_cw_def del: append_take_drop_id)
qed

lemma well_formed_piece_length:
  fixes e :: bytes
  assumes "check_nsym nsym" and "is_well_formed (length e) nsym" and "c \<in> set (pieces CODEWORD_SIZE e)"
  shows "nsym < length c \<and> length c \<le> CODEWORD_SIZE"
proof -
  obtain F t where F: "\<And>c. c \<in> set F \<Longrightarrow> length c = CODEWORD_SIZE"
    and t: "length t = length e mod CODEWORD_SIZE" "length t = 0 \<or> nsym < length t"
    and p: "pieces CODEWORD_SIZE e = F @ (if length t = 0 then [] else [t])"
    by (rule well_formed_pieces [OF assms(2)]) blast
  have "length t \<le> CODEWORD_SIZE" using t(1) by (simp add: less_imp_le)
  moreover have "nsym < CODEWORD_SIZE" using assms(1) by (simp add: check_nsym_bounds CODEWORD_SIZE_def)
  ultimately show ?thesis using assms(3) F t(2) unfolding p by (auto split: if_splits)
qed

lemma consistent_mask_eq:
  assumes "check_nsym nsym" and "is_well_formed (length e) nsym"
  shows "consistent_mask e nsym = map (consistent_cw nsym) (pieces CODEWORD_SIZE e)"
  using well_formed_piece_length [OF assms]
  by (auto simp: consistent_mask_def split_codewords_eq [OF assms] parity_eq [OF assms(1)]
      consistent_cw_iff [OF assms(1)] zip_map1 zip_map2 zip_same_conv_map less_imp_le)

lemma damaged_codewords_eq:
  assumes "check_nsym nsym" and "is_well_formed (length e) nsym"
  shows "damaged_codewords e nsym = Some (filter
    (\<lambda>i. \<not> consistent_cw nsym (pieces CODEWORD_SIZE e ! i)) [0..<length (pieces CODEWORD_SIZE e)])"
  using assms(2) well_formed_piece_length [OF assms]
  by (auto simp: damaged_codewords_def split_codewords_eq [OF assms] parity_eq [OF assms(1)]
      consistent_cw_iff [OF assms(1)] less_imp_le intro!: filter_cong)

section \<open>The pieces of an encoding\<close>

lemma pieces_concat_last:
  assumes "0 < n" and "\<And>i. Suc i < length ps \<Longrightarrow> length (ps ! i) = n"
    and "\<And>p. p \<in> set ps \<Longrightarrow> 0 < length p \<and> length p \<le> n"
  shows "pieces n (concat ps) = ps"
  using assms(2,3)
proof (induction ps)
  case Nil
  then show ?case by simp
next
  case (Cons p ps)
  have IH: "pieces n (concat ps) = ps"
  proof (rule Cons.IH)
    show "length (ps ! i) = n" if "Suc i < length ps" for i
      using Cons.prems(1) [of "Suc i"] that by simp
    show "0 < length q \<and> length q \<le> n" if "q \<in> set ps" for q
      using Cons.prems(2) that by simp
  qed
  show ?case
  proof (cases ps)
    case Nil
    then show ?thesis using Cons.prems(2) [of p] assms(1) by (simp add: pieces_unfold)
  next
    case (Cons q qs)
    then have "length p = n" using Cons.prems(1) [of 0] by simp
    then show ?thesis using IH by (simp add: pieces_append [OF assms(1)])
  qed
qed

lemma pieces_nth_length:
  assumes "0 < n" and "Suc i < length (pieces n xs)"
  shows "length (pieces n xs ! i) = n"
proof -
  have "length (pieces n xs) = (length xs + n - 1) div n" by (rule length_pieces [OF assms(1)])
  then have "Suc (Suc i) * n \<le> length xs + n - 1"
    using assms by (simp add: less_eq_div_iff_mult_less_eq Suc_le_eq flip: Suc_le_eq)
  then have "n + i * n \<le> length xs" using assms(1) by simp
  then show ?thesis using assms by (simp add: nth_pieces)
qed

lemma encode_pieces:
  assumes "check_nsym nsym"
  shows "pieces CODEWORD_SIZE (encode data nsym) = map (cw_of nsym) (pieces (message_length nsym) data)"
proof -
  let ?ps = "pieces (message_length nsym) data"
  note m = message_length_pos [OF assms]
  note mn = message_length_plus [OF assms]
  have "pieces CODEWORD_SIZE (concat (map (cw_of nsym) ?ps)) = map (cw_of nsym) ?ps"
  proof (rule pieces_concat_last [OF CODEWORD_SIZE_pos])
    show "length (map (cw_of nsym) ?ps ! i) = CODEWORD_SIZE"
      if "Suc i < length (map (cw_of nsym) ?ps)" for i
      using that pieces_nth_length [OF m, of i data] mn assms by simp
    show "0 < length c \<and> length c \<le> CODEWORD_SIZE" if "c \<in> set (map (cw_of nsym) ?ps)" for c
      using that mn assms by (auto dest!: pieces_lengths simp: cw_of_def)
  qed
  then show ?thesis by (simp add: encode_eq [OF assms] encode_spec_def)
qed

lemma length_encode:
  assumes "check_nsym nsym"
  shows "length (encode data nsym) = encoded_length (length data) nsym"
proof -
  let ?m = "message_length nsym"
  let ?F = "pieces ?m (take (length data div ?m * ?m) data)"
  note m = message_length_pos [OF assms]
  have F: "length p = ?m" if "p \<in> set ?F" for p by (rule pieces_full_lengths [OF m that])
  have per: "map (length \<circ> cw_of nsym) ?F = map (\<lambda>_. CODEWORD_SIZE) ?F"
  proof (rule map_cong [OF refl])
    fix p assume "p \<in> set ?F"
    then have "length p = ?m" by (rule F)
    then show "(length \<circ> cw_of nsym) p = CODEWORD_SIZE"
      by (simp only: o_apply length_cw_of [OF assms] message_length_plus [OF assms])
  qed
  have "length (concat (map (cw_of nsym) ?F)) = sum_list (map (length \<circ> cw_of nsym) ?F)"
    by (simp only: length_concat map_map)
  then have F_len: "length (concat (map (cw_of nsym) ?F)) = length data div ?m * CODEWORD_SIZE"
    by (simp only: per sum_list_triv length_full_pieces [OF m] of_nat_id)
  have t_len: "length (cw_of nsym (drop (length data div ?m * ?m) data)) = length data mod ?m + nsym"
    by (simp only: length_cw_of [OF assms] length_last_piece)
  have P: "pieces ?m data = ?F @ (if length data mod ?m = 0 then [] else [drop (length data div ?m * ?m) data])"
    by (rule pieces_full_rest [OF m])
  have "length (concat (map (cw_of nsym) (pieces ?m data)))
      = length data div ?m * CODEWORD_SIZE + (if length data mod ?m = 0 then 0 else length data mod ?m + nsym)"
    unfolding P map_append concat_append length_append F_len by (simp add: t_len del: length_cw_of)
  then show ?thesis
    by (simp add: encode_eq [OF assms] encode_spec_def encoded_length_def Let_def)
qed

lemma encode_well_formed:
  assumes "check_nsym nsym"
  shows "is_well_formed (length (encode data nsym)) nsym"
proof -
  let ?r = "length data mod message_length nsym"
  have "?r + nsym < CODEWORD_SIZE"
    using message_length_pos [OF assms] message_length_plus [OF assms]
    by (metis add.commute add_less_cancel_left mod_less_divisor)
  then show ?thesis
    by (simp add: length_encode [OF assms] encoded_length_def Let_def is_well_formed_def)
qed

lemma cw_of_message [simp]: "check_nsym nsym \<Longrightarrow> take (length (cw_of nsym m) - nsym) (cw_of nsym m) = m"
  by (simp add: cw_of_def)

lemma consistent_cw_of [simp]: "check_nsym nsym \<Longrightarrow> consistent_cw nsym (cw_of nsym m)"
  by (simp add: consistent_cw_def del: length_cw_of)

lemma strip_parity_encode:
  assumes "check_nsym nsym"
  shows "strip_parity (encode data nsym) nsym = Some data"
  using assms message_length_pos [OF assms]
  by (simp add: strip_parity_eq encode_well_formed encode_pieces o_def concat_pieces del: length_cw_of)

lemma damaged_codewords_encode:
  assumes "check_nsym nsym"
  shows "damaged_codewords (encode data nsym) nsym = Some []"
  using assms by (simp add: damaged_codewords_eq encode_well_formed encode_pieces)

lemma decode_encode:
  "check_nsym nsym \<Longrightarrow> decode codec (encode data nsym) nsym = Some data"
  by (simp add: decode_def damaged_codewords_encode strip_parity_encode)

end
