(* ===== verification/RSRepair.thy ===== *)
theory RSRepair
  imports ReedSolomon
begin

text \<open>
  Correctness of \<^verbatim>\<open>decode\<close> and \<^verbatim>\<open>repair_from_copies\<close> of \<^verbatim>\<open>src/dbs/container/rs.py\<close> on damaged
  blocks. What the third-party decoder promises is the locale \<open>correcting_codec\<close>; the locale is
  interpreted on a decoder that searches for the nearest codeword, whose laws follow from the
  distance of the code. The contract of the systematic code itself (encoding, taking the parity
  off, detecting damage) is the locale \<open>systematic_code\<close>, interpreted on the functions of the source.
\<close>

section \<open>The systematic code as an interface\<close>

locale systematic_code =
  fixes valid :: "nat \<Rightarrow> bool"
    and enc :: "bytes \<Rightarrow> nat \<Rightarrow> bytes"
    and strip :: "bytes \<Rightarrow> nat \<Rightarrow> bytes option"
    and damaged :: "bytes \<Rightarrow> nat \<Rightarrow> nat list option"
    and enc_len :: "nat \<Rightarrow> nat \<Rightarrow> nat"
  assumes length_enc: "valid n \<Longrightarrow> length (enc d n) = enc_len (length d) n"
    and strip_enc: "valid n \<Longrightarrow> strip (enc d n) n = Some d"
    and damaged_enc: "valid n \<Longrightarrow> damaged (enc d n) n = Some []"
begin

lemma enc_inject: "valid n \<Longrightarrow> enc d n = enc d' n \<Longrightarrow> d = d'"
  by (metis option.inject strip_enc)

lemma enc_len_eq: "valid n \<Longrightarrow> length d = length d' \<Longrightarrow> length (enc d n) = length (enc d' n)"
  by (simp add: length_enc)

lemma strip_take_enc: "valid n \<Longrightarrow> strip (take (enc_len (length d) n) (enc d n @ rest)) n = Some d"
  by (simp add: strip_enc flip: length_enc)

end

interpretation rs: systematic_code check_nsym encode strip_parity damaged_codewords encoded_length
  by unfold_locales (simp_all add: length_encode strip_parity_encode damaged_codewords_encode)

section \<open>Overwriting the pieces of a message\<close>

definition same_shape :: "nat \<Rightarrow> bytes list \<Rightarrow> bytes list \<Rightarrow> bool" where
  "same_shape m ts ps \<longleftrightarrow> length ps = length ts \<and> (\<forall>i<length ts. length (ps ! i) = length (ts ! i)) \<and>
     (\<forall>i. Suc i < length ts \<longrightarrow> length (ts ! i) = m)"

lemma same_shape_update:
  "same_shape m ts ps \<Longrightarrow> i < length ts \<Longrightarrow> length p = length (ts ! i) \<Longrightarrow> same_shape m ts (ps[i := p])"
  by (auto simp: same_shape_def nth_list_update)

lemma concat_prefix:
  assumes "same_shape m ts ps" and "i < length ps"
  shows "length (concat (take i ps)) = i * m"
  using assms
proof (induction i)
  case 0
  then show ?case by simp
next
  case (Suc i)
  then have "length (ps ! i) = m" by (simp add: same_shape_def)
  with Suc show ?case by (simp add: take_Suc_conv_app_nth)
qed

lemma splice_concat:
  assumes "same_shape m ts ps" and "i < length ps" and "length p = length (ps ! i)"
  shows "splice (concat ps) (i * m) p = concat (ps[i := p])"
proof -
  have "concat ps = concat (take i ps) @ ps ! i @ concat (drop (Suc i) ps)"
    by (metis append_take_drop_id assms(2) concat.simps(2) concat_append Cons_nth_drop_Suc)
  moreover have "concat (ps[i := p]) = concat (take i ps) @ p @ concat (drop (Suc i) ps)"
    using assms(2) by (simp add: upd_conv_take_nth_drop)
  ultimately show ?thesis
    using concat_prefix [OF assms(1,2)] assms(3) by (simp add: splice_def)
qed

lemma py_slice_concat:
  assumes "same_shape m ts ps" and "i < length ps" and "length (ps ! i) \<le> m"
  shows "py_slice (concat ps) (i * m) m = ps ! i"
proof -
  have split: "concat ps = concat (take i ps) @ ps ! i @ concat (drop (Suc i) ps)"
    by (metis append_take_drop_id assms(2) concat.simps(2) concat_append Cons_nth_drop_Suc)
  show ?thesis
  proof (cases "Suc i < length ps")
    case True
    then have "length (ps ! i) = m" using assms(1) by (simp add: same_shape_def)
    then show ?thesis
      unfolding split py_slice_def using concat_prefix [OF assms(1,2)] by simp
  next
    case False
    then have "drop (Suc i) ps = []" by simp
    then show ?thesis
      unfolding split py_slice_def using concat_prefix [OF assms(1,2)] assms(3) by simp
  qed
qed

lemma same_shape_pieces:
  assumes "0 < m" and "length ps = length (pieces m d)"
    and "\<And>i. i < length ps \<Longrightarrow> length (ps ! i) = length (pieces m d ! i)"
  shows "same_shape m (pieces m d) ps"
  using assms by (simp add: same_shape_def pieces_nth_length [OF assms(1)])

text \<open>A received block of the length of an encoding: its codewords and their message parts.\<close>

lemma pieces_same_length:
  fixes e f :: bytes
  assumes "0 < n" and "length e = length f"
  shows "length (pieces n e) = length (pieces n f)"
    and "i < length (pieces n e) \<Longrightarrow> length (pieces n e ! i) = length (pieces n f ! i)"
  using assms by (simp_all add: length_pieces nth_pieces)

lemma codeword_piece:
  fixes e :: bytes
  shows "i < length (pieces CODEWORD_SIZE e) \<Longrightarrow> codeword e i = pieces CODEWORD_SIZE e ! i"
  by (simp add: codeword_def nth_pieces)

lemma received_pieces:
  assumes "check_nsym nsym" and "length e = length (encode data nsym)"
  defines "ts \<equiv> pieces (message_length nsym) data" and "cs \<equiv> pieces CODEWORD_SIZE e"
  shows "is_well_formed (length e) nsym" and "length cs = length ts"
    and "i < length ts \<Longrightarrow> length (cs ! i) = length (ts ! i) + nsym"
    and "i < length ts \<Longrightarrow> pieces CODEWORD_SIZE (encode data nsym) ! i = cw_of nsym (ts ! i)"
    and "i < length ts \<Longrightarrow> 0 < length (ts ! i) \<and> length (ts ! i) \<le> message_length nsym"
    and "same_shape (message_length nsym) ts (map (\<lambda>c. take (length c - nsym) c) cs)"
proof -
  note P = encode_pieces [OF assms(1), of data]
  note L = pieces_same_length [OF CODEWORD_SIZE_pos assms(2)]
  show "is_well_formed (length e) nsym" by (simp add: assms(2) encode_well_formed [OF assms(1)])
  show len: "length cs = length ts" by (simp add: cs_def ts_def L(1) P)
  show cl: "length (cs ! i) = length (ts ! i) + nsym" if "i < length ts" for i
    using that len L(2) [of i] assms(1) by (simp add: cs_def ts_def P)
  show "pieces CODEWORD_SIZE (encode data nsym) ! i = cw_of nsym (ts ! i)" if "i < length ts" for i
    using that by (simp add: P ts_def)
  show "0 < length (ts ! i) \<and> length (ts ! i) \<le> message_length nsym" if "i < length ts" for i
    by (rule pieces_lengths [of _ _ data]) (use that in \<open>simp add: ts_def\<close>)
  show "same_shape (message_length nsym) ts (map (\<lambda>c. take (length c - nsym) c) cs)"
    unfolding ts_def
    by (rule same_shape_pieces [OF message_length_pos [OF assms(1)]])
      (use len cl in \<open>simp_all add: ts_def\<close>)
qed

text \<open>
  A consistent codeword that differs from the one written in at most \<open>nsym\<close> bytes is the one
  written: damage that the parity does not show is more than \<open>nsym\<close> bytes.
\<close>

lemma consistent_near:
  assumes "check_nsym nsym" and "consistent_cw nsym c" and "length c = length m + nsym"
    and "length m \<le> message_length nsym" and "length (differing (cw_of nsym m) c) \<le> nsym"
  shows "take (length c - nsym) c = m"
proof -
  have c: "cw_of nsym (take (length m) c) = c" using assms(2,3) by (simp add: consistent_cw_def)
  have "m = take (length m) c"
    by (rule cw_of_inject_near [OF assms(1), of _ _ c]) (use assms in \<open>simp_all add: c\<close>)
  then show ?thesis using assms(3) by simp
qed

section \<open>Decoding\<close>

locale correcting_codec =
  fixes codec :: codec
  assumes corrects_errors:
    "check_nsym n \<Longrightarrow> 0 < length m \<Longrightarrow> length m \<le> message_length n \<Longrightarrow> length c = length m + n \<Longrightarrow>
     2 * length (differing (cw_of n m) c) \<le> n \<Longrightarrow> codec n None c = Some m"
  and corrects_erasures:
    "check_nsym n \<Longrightarrow> 0 < length m \<Longrightarrow> length m \<le> message_length n \<Longrightarrow> length c = length m + n \<Longrightarrow>
     set (differing (cw_of n m) c) \<subseteq> set es \<Longrightarrow> distinct es \<Longrightarrow> length es \<le> n \<Longrightarrow>
     codec n (Some es) c = Some m"

lemma decode_loop_pieces:
  assumes "same_shape (message_length nsym) ts ps" and "set damaged \<subseteq> {..<length ts}"
    and "\<And>i. i \<in> set damaged \<Longrightarrow> decode_codeword codec (codeword e i) nsym [] = Some (ts ! i)"
  shows "\<exists>qs. decode_loop codec e nsym damaged (concat ps) = Some (concat qs) \<and> length qs = length ts \<and>
    (\<forall>i<length ts. qs ! i = (if i \<in> set damaged then ts ! i else ps ! i))"
  using assms
proof (induction damaged arbitrary: ps)
  case Nil
  then show ?case by (auto simp: same_shape_def)
next
  case (Cons i damaged)
  let ?ps = "ps[i := ts ! i]"
  have i: "i < length ts" "i < length ps" using Cons.prems(1,2) by (auto simp: same_shape_def)
  have "length (ts ! i) = length (ps ! i)" using Cons.prems(1) i by (simp add: same_shape_def)
  then have spl: "splice (concat ps) (i * message_length nsym) (ts ! i) = concat ?ps"
    by (rule splice_concat [OF Cons.prems(1) i(2)])
  have shape: "same_shape (message_length nsym) ts ?ps"
    by (rule same_shape_update [OF Cons.prems(1) i(1)]) simp
  have "\<exists>qs. decode_loop codec e nsym damaged (concat ?ps) = Some (concat qs) \<and> length qs = length ts \<and>
    (\<forall>j<length ts. qs ! j = (if j \<in> set damaged then ts ! j else ?ps ! j))"
    using Cons.prems by (intro Cons.IH [OF shape]) auto
  then show ?case
    using Cons.prems(3) [of i] spl i by (auto simp: nth_list_update)
qed

context correcting_codec
begin

lemma decode_codeword_near:
  "check_nsym n \<Longrightarrow> 0 < length m \<Longrightarrow> length m \<le> message_length n \<Longrightarrow> length c = length m + n \<Longrightarrow>
   2 * length (differing (cw_of n m) c) \<le> n \<Longrightarrow> decode_codeword codec c n [] = Some m"
  by (simp add: decode_codeword_def corrects_errors)

lemma decode_codeword_erased:
  "check_nsym n \<Longrightarrow> 0 < length m \<Longrightarrow> length m \<le> message_length n \<Longrightarrow> length c = length m + n \<Longrightarrow>
   set (differing (cw_of n m) c) \<subseteq> set es \<Longrightarrow> distinct es \<Longrightarrow> length es \<le> n \<Longrightarrow> es \<noteq> [] \<Longrightarrow>
   decode_codeword codec c n es = Some m"
  by (simp add: decode_codeword_def corrects_erasures)

lemma decode_corrects:
  assumes "check_nsym nsym" and "length e = length (encode data nsym)"
    and near: "\<And>i. i < length (pieces CODEWORD_SIZE e) \<Longrightarrow>
      2 * length (differing (pieces CODEWORD_SIZE (encode data nsym) ! i) (pieces CODEWORD_SIZE e ! i)) \<le> nsym"
  shows "decode codec e nsym = Some data"
proof -
  let ?ts = "pieces (message_length nsym) data" and ?cs = "pieces CODEWORD_SIZE e"
  let ?ps = "map (\<lambda>c. take (length c - nsym) c) ?cs"
  let ?dam = "filter (\<lambda>i. \<not> consistent_cw nsym (?cs ! i)) [0..<length ?cs]"
  note R = received_pieces [OF assms(1,2)]
  have diff: "2 * length (differing (cw_of nsym (?ts ! i)) (?cs ! i)) \<le> nsym" if "i < length ?ts" for i
    using near [of i] that R(2,4) by simp
  have dec: "decode_codeword codec (codeword e i) nsym [] = Some (?ts ! i)" if "i \<in> set ?dam" for i
  proof -
    have i: "i < length ?cs" "i < length ?ts" using that R(2) by auto
    show ?thesis
      unfolding codeword_piece [OF i(1)]
      using R(3,5) [OF i(2)] diff [OF i(2)] assms(1) by (intro decode_codeword_near) auto
  qed
  have keep: "?ps ! i = ?ts ! i" if i: "i < length ?ts" "i \<notin> set ?dam" for i
  proof -
    have ic: "i < length ?cs" using i R(2) by simp
    then have "consistent_cw nsym (?cs ! i)" using i(2) by simp
    then have "take (length (?cs ! i) - nsym) (?cs ! i) = ?ts ! i"
      using R(3,5) [OF i(1)] diff [OF i(1)] by (intro consistent_near [OF assms(1)]) auto
    then show ?thesis using ic by simp
  qed
  obtain qs where qs: "decode_loop codec e nsym ?dam (concat ?ps) = Some (concat qs)" "length qs = length ?ts"
      "\<forall>i<length ?ts. qs ! i = (if i \<in> set ?dam then ?ts ! i else ?ps ! i)"
    using decode_loop_pieces [OF R(6), of ?dam codec e] dec R(2) by auto
  have "qs = ?ts" using qs(2,3) keep by (intro nth_equalityI) auto
  moreover have "?ps = ?ts" if "?dam = []" using keep R(2) that by (intro nth_equalityI) (auto simp: filter_empty_conv)
  ultimately show ?thesis
    using qs(1) concat_pieces [OF message_length_pos [OF assms(1)], of data]
    by (simp add: decode_def damaged_codewords_eq [OF assms(1) R(1)] strip_parity_eq [OF assms(1) R(1)])
qed

end

section \<open>Repairing from copies\<close>

text \<open>The damage one copy of a codeword may have without hiding behind its own parity.\<close>

definition within_reach :: "nat \<Rightarrow> bytes \<Rightarrow> bytes \<Rightarrow> bool" where
  "within_reach nsym written copy \<longleftrightarrow> length copy = length written \<and>
     (\<forall>i<length (pieces CODEWORD_SIZE written).
        length (differing (pieces CODEWORD_SIZE written ! i) (pieces CODEWORD_SIZE copy ! i)) \<le> nsym)"

definition intact_somewhere :: "bytes \<Rightarrow> bytes list \<Rightarrow> bool" where
  "intact_somewhere written copies \<longleftrightarrow>
     (\<forall>i<length (pieces CODEWORD_SIZE written).
        \<exists>copy \<in> set copies. pieces CODEWORD_SIZE copy ! i = pieces CODEWORD_SIZE written ! i)"

lemma codeword_count_pieces_aux: "nat (- ((- int n) div 255)) = (n + 254) div 255"
proof -
  define q r where "q = n div 255" and "r = n mod 255"
  have n: "n = 255 * q + r" "r < 255" by (simp_all add: q_def r_def)
  show ?thesis
  proof (cases "r = 0")
    case True
    have "(255 * q + 254) div 255 = q" by (rule div_nat_eqI) simp_all
    with True n show ?thesis by simp
  next
    case False
    have "(255 * q + r + 254) div 255 = Suc q" by (rule div_nat_eqI) (use n False in simp_all)
    moreover have "(- int n) div 255 = - int q - 1"
      by (rule int_div_pos_eq [where r = "255 - int r"]) (use n False in simp_all)
    ultimately show ?thesis using n by simp
  qed
qed

lemma codeword_count_pieces:
  fixes e :: bytes
  shows "codeword_count (length e) = length (pieces CODEWORD_SIZE e)"
  by (simp add: codeword_count_pieces_aux codeword_count_def length_pieces CODEWORD_SIZE_def)

lemma repair_loop_consistent:
  assumes "same_shape m ts ps" and m: "m = message_length nsym"
    and "set indices \<subseteq> {..<length ts}" and "length consistent = length stripped"
    and found: "\<And>i. i \<in> set indices \<Longrightarrow> \<exists>s<length consistent. consistent ! s ! i"
    and good: "\<And>i s. i \<in> set indices \<Longrightarrow> s < length consistent \<Longrightarrow> consistent ! s ! i \<Longrightarrow>
      py_slice (stripped ! s) (i * m) m = ts ! i"
  shows "\<exists>qs used'. repair_loop codec copies nsym consistent stripped indices (concat ps) used decoded
      = (Some (concat qs), used', decoded) \<and> used' \<subseteq> used \<union> {..<length consistent} \<and>
    length qs = length ts \<and> (\<forall>i<length ts. qs ! i = (if i \<in> set indices then ts ! i else ps ! i))"
  using assms(1,3,5,6)
proof (induction indices arbitrary: ps used)
  case Nil
  then show ?case by (auto simp: same_shape_def)
next
  case (Cons i indices)
  let ?ps = "ps[i := ts ! i]"
  let ?P = "\<lambda>s. consistent ! s ! i"
  obtain s where s: "find ?P [0..<length consistent] = Some s" "s < length consistent" "?P s"
  proof (cases "find ?P [0..<length consistent]")
    case None
    with Cons.prems(3) [of i] show ?thesis by (auto simp: find_None_iff)
  next
    case (Some s)
    then have "s < length consistent \<and> ?P s" by (auto simp: find_Some_iff)
    with Some that show ?thesis by blast
  qed
  have piece: "py_slice (stripped ! s) (i * m) m = ts ! i"
    using Cons.prems(4) [of i s] s by simp
  have i: "i < length ts" "i < length ps" using Cons.prems(1,2) by (auto simp: same_shape_def)
  have "length (ts ! i) = length (ps ! i)" using Cons.prems(1) i by (simp add: same_shape_def)
  then have spl: "splice (concat ps) (i * m) (ts ! i) = concat ?ps"
    by (rule splice_concat [OF Cons.prems(1) i(2)])
  have shape: "same_shape m ts ?ps"
    by (rule same_shape_update [OF Cons.prems(1) i(1)]) simp
  obtain qs used' where
    "repair_loop codec copies nsym consistent stripped indices (concat ?ps) (insert s used) decoded
      = (Some (concat qs), used', decoded)" "used' \<subseteq> insert s used \<union> {..<length consistent}"
    "length qs = length ts" "\<forall>j<length ts. qs ! j = (if j \<in> set indices then ts ! j else ?ps ! j)"
    using Cons.IH [OF shape, of "insert s used"] Cons.prems by force
  then show ?case
    using s(1,2) piece spl i m by (auto simp: nth_list_update Let_def)
qed

section \<open>A decoder that keeps the contract\<close>

text \<open>
  The first message in reach, by exhaustive search: slow, and a decoder that meets the contract
  for every code the configuration admits. Uniqueness is the distance of the code.
\<close>

definition all_bytes :: bytes where
  "all_bytes = map of_nat [0..<256]"

definition candidate_ok :: "nat \<Rightarrow> nat list option \<Rightarrow> bytes \<Rightarrow> bytes \<Rightarrow> bool" where
  "candidate_ok n erasures c m =
     (case erasures of
        None \<Rightarrow> 2 * length (differing (cw_of n m) c) \<le> n
      | Some es \<Rightarrow> length (remdups es) \<le> n \<and> set (differing (cw_of n m) c) \<subseteq> set es)"

definition nearest_codec :: codec where
  "nearest_codec n erasures c = find (candidate_ok n erasures c) (List.n_lists (length c - n) all_bytes)"

lemma word_of_nat_unat: "word_of_nat (unat (b :: byte)) = b"
  by simp

lemma word_byte_range: "unat (b :: byte) \<in> {0..<256}"
  using unsigned_less [of b, where ?'a = nat] by (simp only: atLeastLessThan_iff) simp

lemma set_all_bytes: "set all_bytes = (UNIV :: byte set)"
proof -
  have "b \<in> set all_bytes" for b :: byte
  proof -
    have "unat b \<in> {0..<256}" by (rule word_byte_range)
    then have "word_of_nat (unat b) \<in> (word_of_nat :: nat \<Rightarrow> byte) ` {0..<256}" by (rule imageI)
    then show ?thesis by (simp only: all_bytes_def set_map set_upt word_of_nat_unat)
  qed
  then show ?thesis by auto
qed

lemma find_unique: "x \<in> set xs \<Longrightarrow> P x \<Longrightarrow> (\<And>y. y \<in> set xs \<Longrightarrow> P y \<Longrightarrow> y = x) \<Longrightarrow> find P xs = Some x"
  by (metis (mono_tags, lifting) find_None_iff find_Some_iff nth_mem option.exhaust)

lemma differing_sym: "length xs = length ys \<Longrightarrow> differing xs ys = differing ys xs"
  by (auto simp: differing_def intro!: filter_cong)

lemma distinct_differing: "distinct (differing xs ys)"
  by (simp add: differing_def)

lemma differing_list_update: "length (differing xs (xs[i := v])) \<le> 1"
proof -
  have "set (differing xs (xs[i := v])) \<subseteq> {i}" by (auto simp: differing_def) (metis nth_list_update_neq)
  then have "card (set (differing xs (xs[i := v]))) \<le> card {i}" by (intro card_mono) simp_all
  then show ?thesis by (simp add: distinct_card [OF distinct_differing])
qed

lemma differing_erased:
  assumes "length xs = length ys" and "length ys = length zs"
    and "set (differing xs ys) \<subseteq> A" and "set (differing zs ys) \<subseteq> A"
  shows "set (differing xs zs) \<subseteq> A"
proof
  fix i assume "i \<in> set (differing xs zs)"
  then have "i \<in> set (differing xs ys) \<or> i \<in> set (differing zs ys)"
    using assms(1,2) by (auto simp: differing_def)
  then show "i \<in> A" using assms(3,4) by blast
qed

lemma nearest_codec_finds:
  assumes "length c = length m + n" and "candidate_ok n erasures c m"
    and "\<And>m'. length m' = length m \<Longrightarrow> candidate_ok n erasures c m' \<Longrightarrow> m' = m"
  shows "nearest_codec n erasures c = Some m"
  unfolding nearest_codec_def
  by (rule find_unique) (use assms in \<open>auto simp: set_n_lists set_all_bytes\<close>)

interpretation nearest: correcting_codec nearest_codec
proof
  fix n :: nat and m c :: bytes
  assume v: "check_nsym n" "0 < length m" "length m \<le> message_length n" "length c = length m + n"
  show "nearest_codec n None c = Some m" if near: "2 * length (differing (cw_of n m) c) \<le> n"
  proof (rule nearest_codec_finds [OF v(4)])
    show "candidate_ok n None c m" using near by (simp add: candidate_ok_def)
    fix m' :: bytes
    assume m': "length m' = length m" "candidate_ok n None c m'"
    have "differing c (cw_of n m') = differing (cw_of n m') c"
      by (rule differing_sym) (use v m' in simp)
    then show "m' = m"
      using m' near v by (intro cw_of_inject_near [symmetric, OF v(1), of m m' c]) (simp_all add: candidate_ok_def)
  qed
  fix es :: "nat list"
  assume erased: "set (differing (cw_of n m) c) \<subseteq> set es" and es: "distinct es" "length es \<le> n"
  show "nearest_codec n (Some es) c = Some m"
  proof (rule nearest_codec_finds [OF v(4)])
    show "candidate_ok n (Some es) c m" using erased es by (simp add: candidate_ok_def distinct_remdups_id)
    fix m' :: bytes
    assume m': "length m' = length m" "candidate_ok n (Some es) c m'"
    have sub: "set (differing (cw_of n m) (cw_of n m')) \<subseteq> set es"
      by (rule differing_erased [of _ c]) (use v m' erased in \<open>simp_all add: candidate_ok_def\<close>)
    have "length (differing (cw_of n m) (cw_of n m')) \<le> length es"
      using card_mono [OF _ sub] distinct_differing es(1) by (metis List.finite_set distinct_card)
    moreover have "length (cw_of n m) \<le> 255"
      using v by (auto simp: check_nsym_bounds message_length_def CODEWORD_SIZE_def)
    ultimately have "cw_of n m = cw_of n m'"
      using v m' es by (intro codeword_distance [of n]) (simp_all add: cw_of_is_codeword)
    then show "m' = m" using m' by (simp add: cw_of_def)
  qed
qed

end
