(* ===== verification/RSProperties.thy ===== *)
theory RSProperties
  imports RSRepair
begin

text \<open>
  The properties of \<^verbatim>\<open>src/dbs/container/rs.py\<close>: the table arithmetic against carry-less
  multiplication, what the encoder writes, how far apart its codewords are, and what decoding and
  repairing from copies return on damaged blocks.
\<close>

section \<open>The arithmetic\<close>

text \<open>
  The product of two polynomials over GF(2) modulo \<open>0x11D\<close>, one shifted copy of \<open>b\<close> for each bit
  of \<open>a\<close>.
\<close>

definition carryless_product :: "byte \<Rightarrow> byte \<Rightarrow> byte" where
  "carryless_product a b = fold (\<lambda>i acc. if bit a i then acc XOR (xtime ^^ i) b else acc) [0..<8] 0"

lemma apow_bit: "i < 8 \<Longrightarrow> apow i = push_bit i 1"
proof -
  assume "i < 8"
  then have "i \<in> {0, 1, 2, 3, 4, 5, 6, 7}" by auto
  then show ?thesis
    by (elim insertE emptyE) (simp_all add: apow_def funpow_numeral xtime_def push_bit_eq_mult)
qed

lemma fold_bits:
  fixes a :: byte
  assumes "n \<le> 8" and "k < 8"
  shows "bit (fold (\<lambda>i acc. if bit a i then acc XOR apow i else acc) [0..<n] 0) k \<longleftrightarrow> k < n \<and> bit a k"
  using assms(1)
proof (induction n)
  case (Suc n)
  then show ?case
    using assms(2) by (auto simp: apow_bit bit_simps less_Suc_eq)
qed simp

lemma byte_bits:
  fixes a :: byte
  shows "a = fold (\<lambda>i acc. if bit a i then acc XOR apow i else acc) [0..<8] 0"
proof (rule bit_eqI)
  fix n assume "possible_bit TYPE(byte) n"
  then have "n < 8" by simp
  then show "bit a n \<longleftrightarrow> bit (fold (\<lambda>i acc. if bit a i then acc XOR apow i else acc) [0..<8] 0) n"
    by (simp only: fold_bits order_refl simp_thms)
qed

text \<open>
  The product looked up through the logarithm and exponent tables is the product of GF(256):
  multiplication of polynomials over GF(2) modulo the primitive polynomial \<open>0x11D\<close>.
\<close>

theorem multiply_is_carryless: "multiply a b = carryless_product a b"
proof -
  let ?f = "\<lambda>i acc. if bit a i then acc XOR apow i else acc"
  let ?g = "\<lambda>i acc. if bit a i then acc XOR (xtime ^^ i) b else acc"
  have right: "multiply b (apow i) = (xtime ^^ i) b" for i
    using multiply_apow_left [of i b] by (simp only: multiply_commute)
  have "multiply (fold ?f is x) b = fold ?g is (multiply x b)" for "is" x
    by (induction "is" arbitrary: x)
      (simp_all add: multiply_commute [of _ b] multiply_xor right)
  then show ?thesis by (subst byte_bits [of a]) (simp add: carryless_product_def)
qed

section \<open>The code\<close>

text \<open>
  C14: What \<^verbatim>\<open>encode\<close> writes is, for each piece of at most \<open>255 - nsym\<close> message bytes, the piece
  followed by \<open>nsym\<close> parity bytes, and that codeword, read as a polynomial, vanishes at the first
  \<open>nsym\<close> powers of the primitive element: a systematic, possibly shortened, Reed-Solomon code.
\<close>

theorem encode_is_reed_solomon:
  assumes "check_nsym nsym"
  shows "list_all2 (\<lambda>m c. take (length m) c = m \<and> length c = length m + nsym \<and>
      length m \<le> message_length nsym \<and> (\<forall>i<nsym. peval c (alpha ^ i) = 0))
    (pieces (message_length nsym) data) (pieces CODEWORD_SIZE (encode data nsym))"
proof -
  have "take (length m) (cw_of nsym m) = m" for m by (simp add: cw_of_def)
  moreover have "length m \<le> message_length nsym" if "m \<in> set (pieces (message_length nsym) data)" for m
    using pieces_lengths [OF that] by simp
  ultimately show ?thesis
    using cw_of_is_codeword [OF assms]
    by (auto simp: encode_pieces [OF assms] list_all2_conv_all_nth assms is_codeword_def)
qed

theorem encode_is_reed_solomon_witness:
  "list_all2 (\<lambda>m c. take (length m) c = m \<and> length c = length m + 4 \<and>
      length m \<le> message_length 4 \<and> (\<forall>i<4. peval c (alpha ^ i) = 0))
    (pieces (message_length 4) [1, 2, 3]) (pieces CODEWORD_SIZE (encode [1, 2, 3] 4))"
  by (rule encode_is_reed_solomon) (simp add: check_nsym_bounds)

lemma encode_single:
  assumes "check_nsym nsym" and "0 < length d" and "length d \<le> message_length nsym"
  shows "encode d nsym = cw_of nsym d"
proof -
  have "pieces (message_length nsym) d = [d]"
    using assms by (simp add: pieces.simps [of _ d] message_length_pos)
  then have "pieces CODEWORD_SIZE (encode d nsym) = [cw_of nsym d]"
    by (simp add: encode_pieces [OF assms(1)])
  then show ?thesis
    using concat_pieces [OF CODEWORD_SIZE_pos, of "encode d nsym"] by simp
qed

text \<open>
  Two different messages of one codeword have encodings that differ in more than \<open>nsym\<close> bytes
  (the code is maximum distance separable), so damage to at most \<open>nsym\<close> bytes is always detected.
\<close>

theorem encode_distance:
  assumes "check_nsym nsym" and "0 < length d" and "length d \<le> message_length nsym"
    and "length d' = length d" and "d \<noteq> d'"
  shows "nsym < length (differing (encode d nsym) (encode d' nsym))"
proof (rule ccontr)
  assume near: "\<not> ?thesis"
  have e: "encode d nsym = cw_of nsym d" "encode d' nsym = cw_of nsym d'"
    using assms by (simp_all add: encode_single)
  have "differing (cw_of nsym d') (cw_of nsym d') = []" by (simp add: differing_def)
  with near have "d = d'"
    using assms by (intro cw_of_inject_near [of nsym d d' "cw_of nsym d'"]) (simp_all add: e)
  then show False using assms(5) by simp
qed

theorem encode_distance_witness:
  "4 < length (differing (encode [1, 2] 4) (encode [1, 3] 4))"
  by (rule encode_distance) (simp_all add: check_nsym_bounds message_length_def CODEWORD_SIZE_def)

text \<open>
  Encoding is inverted by taking the parity off and by decoding, a fresh encoding shows no
  damaged codeword, its length is the one the layouts compute in advance, and encoding many blocks
  at once gives what encoding each alone gives.
\<close>

theorem encode_roundtrip:
  assumes "check_nsym nsym"
  shows "strip_parity (encode data nsym) nsym = Some data \<and>
    damaged_codewords (encode data nsym) nsym = Some [] \<and>
    decode codec (encode data nsym) nsym = Some data \<and>
    length (encode data nsym) = encoded_length (length data) nsym \<and>
    encode_many blocks nsym = map (\<lambda>b. encode b nsym) blocks"
  using assms by (simp add: rs.strip_enc rs.damaged_enc decode_encode rs.length_enc encode_many_encode)

theorem encode_roundtrip_witness:
  "strip_parity (encode [7, 8] 16) 16 = Some [7, 8] \<and> encode_many [[1], [2]] 16 = [encode [1] 16, encode [2] 16]"
  using encode_roundtrip [of 16 "[7, 8]" nearest_codec "[[1], [2]]"] by (simp add: check_nsym_bounds)

section \<open>Decoding damaged blocks\<close>

text \<open>
  C15: With a codeword decoder that corrects up to \<open>nsym / 2\<close> errors, \<^verbatim>\<open>decode\<close> returns the original
  data from any block of the right length with at most that many damaged bytes in each codeword.
\<close>

theorem decode_corrects_errors:
  assumes "correcting_codec codec" and "check_nsym nsym" and "length e = length (encode data nsym)"
    and "\<And>i. i < length (pieces CODEWORD_SIZE e) \<Longrightarrow>
      2 * length (differing (pieces CODEWORD_SIZE (encode data nsym) ! i) (pieces CODEWORD_SIZE e ! i)) \<le> nsym"
  shows "decode codec e nsym = Some data"
  by (rule correcting_codec.decode_corrects [OF assms])

lemma pieces_one:
  fixes e :: bytes
  shows "0 < length e \<Longrightarrow> length e \<le> n \<Longrightarrow> pieces n e = [e]"
  by (cases e) (simp_all add: pieces.simps [of n])

theorem decode_corrects_errors_witness:
  "decode nearest_codec ((encode [1, 2] 2)[1 := 9]) 2 = Some [1, 2]"
proof (rule decode_corrects_errors [OF nearest.correcting_codec_axioms])
  show v: "check_nsym 2" by (simp add: check_nsym_bounds)
  show "length ((encode [1, 2] 2)[1 := 9]) = length (encode [1, 2] 2)" by simp
  have "length (encode [1, 2] 2) = 4"
    by (simp add: rs.length_enc [OF v] encoded_length_def message_length_def CODEWORD_SIZE_def)
  moreover have "length (differing (encode [1, 2] 2) ((encode [1, 2] 2)[1 := 9])) \<le> 1"
    by (rule differing_list_update)
  moreover fix i assume "i < length (pieces CODEWORD_SIZE ((encode [1, 2] 2)[1 := 9]))"
  ultimately show "2 * length (differing (pieces CODEWORD_SIZE (encode [1, 2] 2) ! i)
      (pieces CODEWORD_SIZE ((encode [1, 2] 2)[1 := 9]) ! i)) \<le> 2"
    by (simp add: pieces_one CODEWORD_SIZE_def)
qed

text \<open>
  Merging copies of one block: if every codeword survives intact in some copy, and no copy of a
  codeword is damaged in more than \<open>nsym\<close> bytes, the merge returns the original data without
  calling the decoder at all, whichever copies the codewords come from.
\<close>

theorem repair_from_copies_intact:
  assumes "check_nsym nsym" and "copies \<noteq> []"
    and reach: "\<And>copy. copy \<in> set copies \<Longrightarrow> within_reach nsym (encode data nsym) copy"
    and intact: "intact_somewhere (encode data nsym) copies"
  shows "\<exists>used. used \<subseteq> {..<length copies} \<and> repair_from_copies codec copies nsym = (Some data, used, False)"
proof -
  let ?m = "message_length nsym" and ?ts = "pieces (message_length nsym) data"
  let ?msg = "\<lambda>copy. map (\<lambda>c. take (length c - nsym) c) (pieces CODEWORD_SIZE copy)"
  have len: "length copy = length (encode data nsym)" if "copy \<in> set copies" for copy
    using reach [OF that] by (simp add: within_reach_def)
  note R = received_pieces [OF assms(1) len]
  obtain first rest where copies: "copies = first # rest" using assms(2) by (cases copies) auto
  define consistent where "consistent = map (\<lambda>copy. map (consistent_cw nsym) (pieces CODEWORD_SIZE copy)) copies"
  define stripped where "stripped = map (\<lambda>copy. concat (?msg copy)) copies"
  have n: "length (pieces CODEWORD_SIZE (encode data nsym)) = length ?ts"
    by (simp add: encode_pieces [OF assms(1)])
  have good: "py_slice (stripped ! s) (i * ?m) ?m = ?ts ! i"
    if i: "i < length ?ts" and s: "s < length copies" and cs: "consistent ! s ! i" for i s
  proof -
    let ?copy = "copies ! s"
    have c: "?copy \<in> set copies" using s by simp
    have ic: "i < length (pieces CODEWORD_SIZE ?copy)" using i R(2) [OF c] by simp
    have "consistent_cw nsym (pieces CODEWORD_SIZE ?copy ! i)"
      using cs s ic by (simp add: consistent_def)
    moreover have "length (differing (cw_of nsym (?ts ! i)) (pieces CODEWORD_SIZE ?copy ! i)) \<le> nsym"
      using reach [OF c] i n R(4) [OF c i] by (auto simp: within_reach_def)
    ultimately have "take (length (pieces CODEWORD_SIZE ?copy ! i) - nsym) (pieces CODEWORD_SIZE ?copy ! i) = ?ts ! i"
      using R(3) [OF c i] R(5) [OF c i] by (intro consistent_near [OF assms(1)]) auto
    then have msg: "?msg ?copy ! i = ?ts ! i" using ic by simp
    have "py_slice (concat (?msg ?copy)) (i * ?m) ?m = ?msg ?copy ! i"
      by (rule py_slice_concat [OF R(6) [OF c]]) (use ic msg R(5) [OF c i] in simp_all)
    then show ?thesis using msg s by (simp add: stripped_def)
  qed
  have found: "\<exists>s<length consistent. consistent ! s ! i" if i: "i < length ?ts" for i
  proof -
    obtain copy where copy: "copy \<in> set copies"
        "pieces CODEWORD_SIZE copy ! i = pieces CODEWORD_SIZE (encode data nsym) ! i"
      using intact i n by (auto simp: intact_somewhere_def)
    then obtain s where s: "s < length copies" "copies ! s = copy" by (auto simp: in_set_conv_nth)
    have "consistent_cw nsym (pieces CODEWORD_SIZE copy ! i)"
      using copy(2) R(4) [OF copy(1) i] assms(1) by simp
    then show ?thesis
      using s i R(2) [OF copy(1)] by (auto simp: consistent_def)
  qed
  have f: "first \<in> set copies" using copies by simp
  obtain qs used where qs:
    "repair_loop codec copies nsym consistent stripped [0..<length ?ts] (concat (?msg first)) {} False
      = (Some (concat qs), used, False)" "used \<subseteq> {} \<union> {..<length consistent}"
    "length qs = length ?ts" "\<forall>i<length ?ts. qs ! i = (if i \<in> set [0..<length ?ts] then ?ts ! i else ?msg first ! i)"
    using repair_loop_consistent [OF R(6) [OF f] refl, of "[0..<length ?ts]" consistent stripped codec copies "{}" False]
      found good by (auto simp: consistent_def stripped_def atLeast0LessThan)
  have "qs = ?ts" using qs(3,4) by (intro nth_equalityI) auto
  then have "concat qs = data" by (simp add: concat_pieces message_length_pos [OF assms(1)])
  moreover have "map (\<lambda>copy. consistent_mask copy nsym) copies = consistent"
    using R(1) by (simp add: consistent_def consistent_mask_eq [OF assms(1)])
  moreover have "map (\<lambda>copy. the (strip_parity copy nsym)) copies = stripped"
    using R(1) by (simp add: stripped_def strip_parity_eq [OF assms(1)])
  moreover have "codeword_count (length first) = length ?ts"
    using R(2) [OF f] by (simp add: codeword_count_pieces)
  moreover have "stripped ! 0 = concat (?msg first)" by (simp add: stripped_def copies)
  moreover have "\<not> (\<exists>copy \<in> set copies. length copy \<noteq> length first)" using len f by metis
  ultimately have "repair_from_copies codec copies nsym = (Some data, used, False)"
    using qs(1) R(1) [OF f] unfolding repair_from_copies_def copies by (simp add: Let_def)
  then show ?thesis using qs(2) by (auto simp: consistent_def)
qed

theorem repair_from_copies_intact_witness:
  "\<exists>used. used \<subseteq> {..<length [(encode [1, 2] 2)[1 := 9], encode [1, 2] 2]} \<and>
    repair_from_copies nearest_codec [(encode [1, 2] 2)[1 := 9], encode [1, 2] 2] 2 = (Some [1, 2], used, False)"
proof (rule repair_from_copies_intact)
  show v: "check_nsym 2" by (simp add: check_nsym_bounds)
  have "length (encode [1, 2] 2) = 4"
    by (simp add: rs.length_enc [OF v] encoded_length_def message_length_def CODEWORD_SIZE_def)
  moreover have "length (differing (encode [1, 2] 2) ((encode [1, 2] 2)[1 := 9])) \<le> 1"
    by (rule differing_list_update)
  moreover have "differing (encode [1, 2] 2) (encode [1, 2] 2) = []" by (simp add: differing_def)
  ultimately show "within_reach 2 (encode [1, 2] 2) copy"
    if "copy \<in> set [(encode [1, 2] 2)[1 := 9], encode [1, 2] 2]" for copy
    using that by (auto simp: within_reach_def pieces_one CODEWORD_SIZE_def)
qed (simp_all add: intact_somewhere_def)

end
