(* ===== verification/Blocks.thy ===== *)
theory Blocks
  imports RSRepair
begin

text \<open>
  The block plan and the two-copy repair of version 1 containers,
  \<^verbatim>\<open>src/dbs/container/blocks.py\<close>. The Reed-Solomon decoder is the parameter \<open>codec\<close>, its constructor
  is \<open>mk_rsc\<close> (None where \<^verbatim>\<open>RSCodec\<close> raises) and the block hash is the parameter \<open>hash\<close>.
\<close>

section \<open>Plan and report\<close>

record block_plan =
  bp_block_size :: int
  bp_nsym :: int
  bp_ciphertext_len :: int
  bp_enc_lens :: "int list"
  bp_enc_hashes :: "string list"
  bp_data_hashes :: "string list"

definition copy_len :: "block_plan \<Rightarrow> int" where
  "copy_len plan = sum_list (bp_enc_lens plan)"

definition n_blocks :: "block_plan \<Rightarrow> nat" where
  "n_blocks plan = length (bp_enc_lens plan)"

record repair_report =
  total_blocks :: nat
  blocks_direct :: nat
  blocks_rs_corrected :: nat
  blocks_used_b :: nat
  blocks_merged :: nat
  copies_available :: nat
  failed_blocks :: "nat list"

definition report_ok :: "repair_report \<Rightarrow> bool" where
  "report_ok r \<longleftrightarrow> failed_blocks r = []"

definition report_healed :: "repair_report \<Rightarrow> bool" where
  "report_healed r \<longleftrightarrow> report_ok r \<and>
     (blocks_rs_corrected r \<noteq> 0 \<or> blocks_used_b r \<noteq> 0 \<or> blocks_merged r \<noteq> 0 \<or> copies_available r < 2)"

datatype block_verdict =
    UNRECOVERABLE nat nat "nat list" bool
  | REPAIRED nat nat nat "nat option" bool
  | CLEAN nat

definition summary :: "repair_report \<Rightarrow> block_verdict" where
  "summary r =
     (if \<not> report_ok r
      then UNRECOVERABLE (length (failed_blocks r)) (total_blocks r) (take 10 (failed_blocks r))
             (10 < length (failed_blocks r))
      else if report_healed r
      then REPAIRED (total_blocks r) (blocks_rs_corrected r) (blocks_used_b r)
             (if blocks_merged r \<noteq> 0 then Some (blocks_merged r) else None) (copies_available r < 2)
      else CLEAN (total_blocks r))"

section \<open>Decoding one block\<close>

record rs_codec =
  rsc_nsym :: nat
  rsc_nsize :: nat

definition decode_with_reedsolo ::
  "codec \<Rightarrow> (bytes \<Rightarrow> string) \<Rightarrow> rs_codec \<Rightarrow> bytes \<Rightarrow> string \<Rightarrow> bytes option" where
  "decode_with_reedsolo codec hash rsc encoded data_hash =
     (case codec (rsc_nsym rsc) None encoded of
        None \<Rightarrow> None
      | Some data \<Rightarrow> if hash data = data_hash then Some data else None)"

definition rsc_decode_codeword :: "codec \<Rightarrow> rs_codec \<Rightarrow> bytes \<Rightarrow> nat list \<Rightarrow> bytes option" where
  "rsc_decode_codeword codec rsc cw erasures =
     (if erasures \<noteq> [] then codec (rsc_nsym rsc) (Some erasures) cw else codec (rsc_nsym rsc) None cw)"

definition rebuild_codeword :: "codec \<Rightarrow> rs_codec \<Rightarrow> bytes \<Rightarrow> bytes \<Rightarrow> bytes option" where
  "rebuild_codeword codec rsc first second =
     (case rsc_decode_codeword codec rsc first [] of
        Some data \<Rightarrow> Some data
      | None \<Rightarrow>
     (case rsc_decode_codeword codec rsc second [] of
        Some data \<Rightarrow> Some data
      | None \<Rightarrow>
     (let diff = differing first second
      in if diff = [] \<or> rsc_nsym rsc < length diff then None
         else (case rsc_decode_codeword codec rsc first diff of
                 Some data \<Rightarrow> Some data
               | None \<Rightarrow> rsc_decode_codeword codec rsc second diff))))"

fun rebuild_pieces :: "codec \<Rightarrow> rs_codec \<Rightarrow> (bytes \<times> bytes) list \<Rightarrow> bytes list option" where
  "rebuild_pieces codec rsc [] = Some []"
| "rebuild_pieces codec rsc ((first, second) # rest) =
     (case rebuild_codeword codec rsc first second of
        None \<Rightarrow> None
      | Some piece \<Rightarrow> map_option ((#) piece) (rebuild_pieces codec rsc rest))"

definition rebuild_from_both ::
  "codec \<Rightarrow> (bytes \<Rightarrow> string) \<Rightarrow> rs_codec \<Rightarrow> bytes list \<Rightarrow> string \<Rightarrow> bytes option" where
  "rebuild_from_both codec hash rsc encoded data_hash =
     (if length encoded \<noteq> 2 \<or> length (encoded ! 0) \<noteq> length (encoded ! 1) then None
      else case rebuild_pieces codec rsc
                  (zip (pieces (rsc_nsize rsc) (encoded ! 0)) (pieces (rsc_nsize rsc) (encoded ! 1))) of
             None \<Rightarrow> None
           | Some ps \<Rightarrow> let data = concat ps in if hash data = data_hash then Some data else None)"

definition decode_block ::
  "codec \<Rightarrow> (bytes \<Rightarrow> string) \<Rightarrow> rs_codec \<Rightarrow> bytes \<Rightarrow> string \<Rightarrow> bytes option" where
  "decode_block codec hash rsc encoded data_hash =
     (if rsc_nsize rsc \<noteq> CODEWORD_SIZE \<or> \<not> check_nsym (rsc_nsym rsc)
      then decode_with_reedsolo codec hash rsc encoded data_hash
      else case strip_parity encoded (rsc_nsym rsc) of
             Some stripped \<Rightarrow>
               if hash stripped = data_hash then Some stripped
               else (case decode codec encoded (rsc_nsym rsc) of
                       Some data \<Rightarrow> if hash data = data_hash then Some data else None
                     | None \<Rightarrow> None)
           | None \<Rightarrow>
               (case decode codec encoded (rsc_nsym rsc) of
                  Some data \<Rightarrow> if hash data = data_hash then Some data else None
                | None \<Rightarrow> None))"

section \<open>Repairing a payload from its copies\<close>

text \<open>The first source whose copy of the block decodes: its data, whether it is copy b, whether Reed-Solomon was needed.\<close>

fun choose_copy ::
  "codec \<Rightarrow> (bytes \<Rightarrow> string) \<Rightarrow> rs_codec \<Rightarrow> string \<Rightarrow> string \<Rightarrow> (string \<times> bytes) list \<Rightarrow>
   (bytes \<times> bool \<times> bool) option" where
  "choose_copy codec hash rsc enc_hash data_hash [] = None"
| "choose_copy codec hash rsc enc_hash data_hash ((label, encoded) # rest) =
     (let stored_intact = (hash encoded = enc_hash)
      in case decode_block codec hash rsc encoded data_hash of
           Some data \<Rightarrow> Some (data, label = ''b'', \<not> stored_intact)
         | None \<Rightarrow> choose_copy codec hash rsc enc_hash data_hash rest)"

text \<open>The body of the loop: the chunk one block contributes and the report after it.\<close>

definition repair_block ::
  "codec \<Rightarrow> (bytes \<Rightarrow> string) \<Rightarrow> rs_codec \<Rightarrow> nat \<Rightarrow> (string \<times> bytes) list \<Rightarrow> string \<Rightarrow> string \<Rightarrow>
   repair_report \<Rightarrow> bytes \<times> repair_report" where
  "repair_block codec hash rsc index encoded_copies enc_hash data_hash report =
     (case choose_copy codec hash rsc enc_hash data_hash encoded_copies of
        Some (data, used_b, needed_rs) \<Rightarrow>
          (data,
           let report = (if used_b then report\<lparr>blocks_used_b := blocks_used_b report + 1\<rparr> else report)
           in if needed_rs then report\<lparr>blocks_rs_corrected := blocks_rs_corrected report + 1\<rparr>
              else report\<lparr>blocks_direct := blocks_direct report + 1\<rparr>)
      | None \<Rightarrow>
          (case rebuild_from_both codec hash rsc (map snd encoded_copies) data_hash of
             Some data \<Rightarrow> (data, report\<lparr>blocks_merged := blocks_merged report + 1\<rparr>)
           | None \<Rightarrow> ([], report\<lparr>failed_blocks := failed_blocks report @ [index]\<rparr>)))"

fun repair_blocks ::
  "codec \<Rightarrow> (bytes \<Rightarrow> string) \<Rightarrow> rs_codec \<Rightarrow> (string \<times> bytes) list \<Rightarrow> nat \<Rightarrow> int \<Rightarrow>
   (int \<times> string \<times> string) list \<Rightarrow> bytes list \<Rightarrow> repair_report \<Rightarrow> bytes list \<times> repair_report" where
  "repair_blocks codec hash rsc sources index offset [] chunks report = (chunks, report)"
| "repair_blocks codec hash rsc sources index offset ((enc_len, enc_hash, data_hash) # rest) chunks report =
     (let encoded_copies = map (\<lambda>(label, source). (label, py_range source offset (offset + enc_len))) sources;
          outcome = repair_block codec hash rsc index encoded_copies enc_hash data_hash report
      in repair_blocks codec hash rsc sources (Suc index) (offset + enc_len) rest
           (chunks @ [fst outcome]) (snd outcome))"

definition copy_sources :: "bytes option \<Rightarrow> bytes option \<Rightarrow> (string \<times> bytes) list" where
  "copy_sources copy_a copy_b =
     (case copy_a of None \<Rightarrow> [] | Some a \<Rightarrow> [(''a'', a)]) @
     (case copy_b of None \<Rightarrow> [] | Some b \<Rightarrow> [(''b'', b)])"

definition empty_report :: "nat \<Rightarrow> nat \<Rightarrow> repair_report" where
  "empty_report n available =
     \<lparr>total_blocks = n, blocks_direct = 0, blocks_rs_corrected = 0, blocks_used_b = 0,
      blocks_merged = 0, copies_available = available, failed_blocks = []\<rparr>"

definition plan_rows :: "block_plan \<Rightarrow> (int \<times> string \<times> string) list" where
  "plan_rows plan = zip (bp_enc_lens plan) (zip (bp_enc_hashes plan) (bp_data_hashes plan))"

definition repair_copies ::
  "codec \<Rightarrow> (int \<Rightarrow> rs_codec option) \<Rightarrow> (bytes \<Rightarrow> string) \<Rightarrow> bytes option \<Rightarrow> bytes option \<Rightarrow> block_plan \<Rightarrow>
   (bytes option \<times> repair_report) option" where
  "repair_copies codec mk_rsc hash copy_a copy_b plan =
     (let sources = copy_sources copy_a copy_b
      in case mk_rsc (bp_nsym plan) of
           None \<Rightarrow> None
         | Some rsc \<Rightarrow>
             (case repair_blocks codec hash rsc sources 0 0 (plan_rows plan)
                     [] (empty_report (n_blocks plan) (length sources)) of
                (chunks, report) \<Rightarrow>
                  if failed_blocks report \<noteq> [] then Some (None, report)
                  else let ciphertext = concat chunks
                       in Some (Some (if int (length ciphertext) \<noteq> bp_ciphertext_len plan
                                      then py_range ciphertext 0 (bp_ciphertext_len plan)
                                      else ciphertext),
                                report)))"

section \<open>What the repair accepts and what it counts\<close>

lemma decode_block_hash: "decode_block codec hash rsc encoded data_hash = Some d \<Longrightarrow> hash d = data_hash"
  by (auto simp: decode_block_def decode_with_reedsolo_def split: if_splits option.splits)

lemma choose_copy_hash: "choose_copy codec hash rsc eh data_hash srcs = Some (d, u, n) \<Longrightarrow> hash d = data_hash"
  by (induction srcs rule: choose_copy.induct [of _ codec hash rsc eh data_hash])
    (auto simp: Let_def split: option.splits dest: decode_block_hash)

lemma rebuild_from_both_hash: "rebuild_from_both codec hash rsc encoded data_hash = Some d \<Longrightarrow> hash d = data_hash"
  by (auto simp: rebuild_from_both_def Let_def split: if_splits option.splits)

definition accounted :: "repair_report \<Rightarrow> nat" where
  "accounted r = blocks_direct r + blocks_rs_corrected r + blocks_merged r + length (failed_blocks r)"

lemma repair_block_effect:
  assumes "repair_block codec hash rsc index srcs enc_hash data_hash report = (d, r)"
  shows "(failed_blocks r = failed_blocks report \<and> hash d = data_hash) \<or>
         (failed_blocks r = failed_blocks report @ [index] \<and> d = [])"
    and "accounted r = accounted report + 1"
    and "blocks_used_b r + (blocks_direct report + blocks_rs_corrected report)
      \<le> blocks_used_b report + (blocks_direct r + blocks_rs_corrected r)"
    and "total_blocks r = total_blocks report" and "copies_available r = copies_available report"
  using assms
  by (auto simp: repair_block_def accounted_def Let_def dest: choose_copy_hash rebuild_from_both_hash
      split: option.splits if_splits)

text \<open>
  One pass over the rows of the plan: what it appends and how the counters move. \<open>fs\<close> are the
  blocks the pass gives up.
\<close>

lemma repair_blocks_pass:
  assumes "repair_blocks codec hash rsc sources index offset rows chunks report = (chunks', report')"
  shows "\<exists>new fs. chunks' = chunks @ new \<and> length new = length rows \<and>
    failed_blocks report' = failed_blocks report @ fs \<and>
    sorted_wrt (<) fs \<and> set fs \<subseteq> {index..<index + length rows} \<and>
    (\<forall>i<length rows. if index + i \<in> set fs then new ! i = [] else hash (new ! i) = snd (snd (rows ! i))) \<and>
    accounted report' = accounted report + length rows \<and>
    blocks_used_b report' + (blocks_direct report + blocks_rs_corrected report)
      \<le> blocks_used_b report + (blocks_direct report' + blocks_rs_corrected report') \<and>
    total_blocks report' = total_blocks report \<and> copies_available report' = copies_available report"
  using assms
proof (induction rows arbitrary: index offset chunks report)
  case Nil
  then show ?case by auto
next
  case (Cons row rows)
  obtain enc_len enc_hash data_hash where row: "row = (enc_len, enc_hash, data_hash)" by (cases row)
  let ?copies = "map (\<lambda>(label, source). (label, py_range source offset (offset + enc_len))) sources"
  obtain d r where outcome: "repair_block codec hash rsc index ?copies enc_hash data_hash report = (d, r)"
    by (metis surj_pair)
  note E = repair_block_effect [OF outcome]
  have step: "repair_blocks codec hash rsc sources (Suc index) (offset + enc_len) rows (chunks @ [d]) r
      = (chunks', report')"
    using Cons.prems by (simp add: row outcome Let_def)
  obtain new fs where IH: "chunks' = (chunks @ [d]) @ new" "length new = length rows"
      "failed_blocks report' = failed_blocks r @ fs" "sorted_wrt (<) fs"
      "set fs \<subseteq> {Suc index..<Suc index + length rows}"
      "\<forall>i<length rows. if Suc index + i \<in> set fs then new ! i = [] else hash (new ! i) = snd (snd (rows ! i))"
      "accounted report' = accounted r + length rows"
      "blocks_used_b report' + (blocks_direct r + blocks_rs_corrected r)
        \<le> blocks_used_b r + (blocks_direct report' + blocks_rs_corrected report')"
      "total_blocks report' = total_blocks r" "copies_available report' = copies_available r"
    using Cons.IH [OF step] by blast
  obtain h where h: "failed_blocks r = failed_blocks report @ h"
      "h = [] \<and> hash d = data_hash \<or> h = [index] \<and> d = []"
    using E(1) by auto
  let ?fs = "h @ fs"
  have "\<forall>x \<in> set fs. index < x" using IH(5) by fastforce
  then have "sorted_wrt (<) ?fs" using IH(4) h(2) by auto
  moreover have "set ?fs \<subseteq> {index..<index + length (row # rows)}" using IH(5) h(2) by auto
  moreover have "if index + i \<in> set ?fs then (d # new) ! i = [] else hash ((d # new) ! i) = snd (snd ((row # rows) ! i))"
    if "i < length (row # rows)" for i
  proof (cases i)
    case 0
    have "index \<notin> set fs" using IH(5) by auto
    then show ?thesis using 0 h(2) by (auto simp: row)
  next
    case (Suc j)
    then have "j < length rows" using that by simp
    then show ?thesis using IH(6) Suc h(2) by (auto split: if_splits)
  qed
  ultimately show ?case
    using IH(1,2,3,7-10) h(1) E(2-5) by (intro exI [of _ "d # new"] exI [of _ ?fs]) auto
qed

section \<open>Healing\<close>

text \<open>
  The plan of a payload whose blocks are \<open>blocks\<close>, as version 1 containers carry it, and what a
  copy holds of one of its blocks.
\<close>

definition plan_of :: "(bytes \<Rightarrow> string) \<Rightarrow> nat \<Rightarrow> int \<Rightarrow> bytes list \<Rightarrow> block_plan" where
  "plan_of hash nsym block_size blocks =
     \<lparr>bp_block_size = block_size, bp_nsym = int nsym, bp_ciphertext_len = int (length (concat blocks)),
      bp_enc_lens = map (\<lambda>b. int (length (encode b nsym))) blocks,
      bp_enc_hashes = map (\<lambda>b. hash (encode b nsym)) blocks,
      bp_data_hashes = map hash blocks\<rparr>"

definition block_offset :: "nat \<Rightarrow> bytes list \<Rightarrow> nat \<Rightarrow> nat" where
  "block_offset nsym blocks i = sum_list (map (\<lambda>b. length (encode b nsym)) (take i blocks))"

definition near_block :: "nat \<Rightarrow> bytes \<Rightarrow> bytes \<Rightarrow> bool" where
  "near_block nsym written copy \<longleftrightarrow> length copy = length written \<and>
     (\<forall>i<length (pieces CODEWORD_SIZE written).
        2 * length (differing (pieces CODEWORD_SIZE written ! i) (pieces CODEWORD_SIZE copy ! i)) \<le> nsym)"

definition holds_block :: "nat \<Rightarrow> bytes list \<Rightarrow> nat \<Rightarrow> bytes \<Rightarrow> bool" where
  "holds_block nsym blocks i copy \<longleftrightarrow>
     near_block nsym (encode (blocks ! i) nsym)
       (py_slice copy (block_offset nsym blocks i) (length (encode (blocks ! i) nsym)))"

abbreviation standard_rsc :: "nat \<Rightarrow> rs_codec" where
  "standard_rsc nsym \<equiv> \<lparr>rsc_nsym = nsym, rsc_nsize = CODEWORD_SIZE\<rparr>"

lemma plan_of_simps [simp]:
  "bp_nsym (plan_of hash nsym bs blocks) = int nsym"
  "bp_ciphertext_len (plan_of hash nsym bs blocks) = int (length (concat blocks))"
  "n_blocks (plan_of hash nsym bs blocks) = length blocks"
  by (simp_all add: plan_of_def n_blocks_def)

lemma plan_rows_plan_of:
  "plan_rows (plan_of hash nsym bs blocks)
     = map (\<lambda>b. (int (length (encode b nsym)), hash (encode b nsym), hash b)) blocks"
  by (simp add: plan_rows_def plan_of_def zip_map_map zip_same_conv_map split_def comp_def)

lemma decode_block_near:
  assumes "correcting_codec codec" and "check_nsym nsym" and "near_block nsym (encode b nsym) e"
    and uniq: "\<And>d. hash d = hash b \<Longrightarrow> d = b"
  shows "decode_block codec hash (standard_rsc nsym) e (hash b) = Some b"
proof -
  have len: "length e = length (encode b nsym)" using assms(3) by (simp add: near_block_def)
  have "decode codec e nsym = Some b"
    using assms(3) pieces_same_length(1) [OF CODEWORD_SIZE_pos len]
    by (intro correcting_codec.decode_corrects [OF assms(1,2) len]) (simp add: near_block_def)
  then show ?thesis
    using assms(2) by (auto simp: decode_block_def split: option.splits dest: uniq)
qed

lemma decode_block_intact:
  "check_nsym nsym \<Longrightarrow> decode_block codec hash (standard_rsc nsym) (encode b nsym) (hash b) = Some b"
  by (simp add: decode_block_def rs.strip_enc)

lemma choose_copy_unique:
  assumes "\<And>e d. decode_block codec hash rsc e dh = Some d \<Longrightarrow> d = b"
    and "\<exists>(l, e) \<in> set srcs. decode_block codec hash rsc e dh = Some b"
  shows "\<exists>u n. choose_copy codec hash rsc eh dh srcs = Some (b, u, n)"
  using assms(2)
proof (induction srcs)
  case (Cons src srcs)
  obtain l e where src: "src = (l, e)" by (cases src)
  show ?case
  proof (cases "decode_block codec hash rsc e dh")
    case None
    then have "\<exists>(l, e) \<in> set srcs. decode_block codec hash rsc e dh = Some b"
      using Cons.prems src by auto
    from Cons.IH [OF this] show ?thesis using None src by (simp add: Let_def)
  next
    case (Some d)
    then show ?thesis using assms(1) [OF Some] src by (simp add: Let_def)
  qed
qed simp

lemma repair_blocks_heals:
  assumes rsc: "correcting_codec codec" "check_nsym nsym"
    and uniq: "\<And>b d. b \<in> set blocks \<Longrightarrow> hash d = hash b \<Longrightarrow> d = b"
    and held: "\<And>i. i < length blocks \<Longrightarrow> \<exists>(l, copy) \<in> set sources.
      near_block nsym (encode (blocks ! i) nsym)
        (py_slice copy (offset + block_offset nsym blocks i) (length (encode (blocks ! i) nsym)))"
  shows "\<exists>report'. repair_blocks codec hash (standard_rsc nsym) sources index (int offset)
      (map (\<lambda>b. (int (length (encode b nsym)), hash (encode b nsym), hash b)) blocks) chunks report
      = (chunks @ blocks, report') \<and> failed_blocks report' = failed_blocks report"
  using uniq held
proof (induction blocks arbitrary: index offset chunks report)
  case (Cons b blocks)
  let ?len = "length (encode b nsym)"
  let ?copies = "map (\<lambda>(l, source). (l, py_range source (int offset) (int offset + int ?len))) sources"
  have "\<exists>(l, e) \<in> set ?copies. near_block nsym (encode b nsym) e"
    using Cons.prems(2) [of 0] by (fastforce simp: block_offset_def)
  moreover have near: "decode_block codec hash (standard_rsc nsym) e (hash b) = Some b"
    if "near_block nsym (encode b nsym) e" for e
    by (rule decode_block_near [OF rsc that]) (rule Cons.prems(1) [OF list.set_intros(1)])
  ultimately have "\<exists>(l, e) \<in> set ?copies. decode_block codec hash (standard_rsc nsym) e (hash b) = Some b"
    by fast
  moreover have only: "d = b" if "decode_block codec hash (standard_rsc nsym) e (hash b) = Some d" for e d
    using decode_block_hash [OF that] Cons.prems(1) [of b d] by simp
  ultimately obtain u n where chosen: "choose_copy codec hash (standard_rsc nsym) (hash (encode b nsym)) (hash b) ?copies = Some (b, u, n)"
    using choose_copy_unique [where rsc = "standard_rsc nsym" and dh = "hash b" and b = b] by blast
  obtain r where r: "repair_block codec hash (standard_rsc nsym) index ?copies (hash (encode b nsym)) (hash b) report = (b, r)"
      "failed_blocks r = failed_blocks report"
    using chosen by (simp add: repair_block_def Let_def)
  have IH: "\<exists>report'. repair_blocks codec hash (standard_rsc nsym) sources (Suc index) (int (offset + ?len))
      (map (\<lambda>b. (int (length (encode b nsym)), hash (encode b nsym), hash b)) blocks) (chunks @ [b]) r
      = ((chunks @ [b]) @ blocks, report') \<and> failed_blocks report' = failed_blocks r"
  proof (rule Cons.IH)
    show "hash d = hash b' \<Longrightarrow> d = b'" if "b' \<in> set blocks" for b' d using Cons.prems(1) that by auto
    show "\<exists>(l, copy) \<in> set sources. near_block nsym (encode (blocks ! i) nsym)
        (py_slice copy (offset + ?len + block_offset nsym blocks i) (length (encode (blocks ! i) nsym)))"
      if "i < length blocks" for i
      using Cons.prems(2) [of "Suc i"] that by (simp add: block_offset_def add.assoc)
  qed
  then show ?case using r by (simp add: Let_def)
qed simp

lemma repair_blocks_intact:
  assumes "check_nsym nsym"
  shows "repair_blocks codec hash (standard_rsc nsym) ((''a'', pre @ concat (map (\<lambda>b. encode b nsym) blocks)) # rest)
      index (int (length pre)) (map (\<lambda>b. (int (length (encode b nsym)), hash (encode b nsym), hash b)) blocks) chunks report
      = (chunks @ blocks, report\<lparr>blocks_direct := blocks_direct report + length blocks\<rparr>)"
proof (induction blocks arbitrary: pre index chunks report)
  case (Cons b blocks)
  have "py_slice (pre @ encode b nsym @ concat (map (\<lambda>b. encode b nsym) blocks)) (length pre) (length (encode b nsym))
      = encode b nsym"
    by (simp add: py_slice_def)
  then show ?case
    using Cons.IH [of "pre @ encode b nsym"]
    by (simp add: Let_def repair_block_def decode_block_intact [OF assms])
qed simp

definition byte_chars :: "bytes \<Rightarrow> string" where
  "byte_chars bs = map (\<lambda>b. char_of (unat b)) bs"

lemma byte_chars_inject: "byte_chars d = byte_chars b \<Longrightarrow> d = b"
proof -
  have "x = y" if "char_of (unat x) = (char_of (unat y) :: char)" for x y :: byte
  proof -
    have "of_char (char_of (unat x) :: char) = (of_char (char_of (unat y) :: char) :: nat)" using that by simp
    then show ?thesis by (simp add: unsigned_word_eqI)
  qed
  then show "byte_chars d = byte_chars b \<Longrightarrow> d = b"
    unfolding byte_chars_def by (metis (mono_tags, lifting) injI inj_map_eq_map)
qed

lemma repair_copies_intact:
  assumes "check_nsym nsym" and "mk_rsc (int nsym) = Some (standard_rsc nsym)"
  shows "repair_copies codec mk_rsc hash (Some (concat (map (\<lambda>b. encode b nsym) blocks))) copy_b
      (plan_of hash nsym block_size blocks)
    = Some (Some (concat blocks), (empty_report (length blocks) (if copy_b = None then 1 else 2))
        \<lparr>blocks_direct := length blocks\<rparr>)"
  using repair_blocks_intact [OF assms(1), where pre = "[]" and codec = codec and hash = hash and blocks = blocks]
  by (auto simp: repair_copies_def Let_def assms(2) plan_rows_plan_of copy_sources_def empty_report_def
      split: option.split)

lemma repair_copies_example:
  "repair_copies nearest_codec (\<lambda>n. Some (standard_rsc 2)) byte_chars
      (Some (concat (map (\<lambda>b. encode b 2) [[1], [2, 3]]))) None (plan_of byte_chars 2 65536 [[1], [2, 3]])
    = Some (Some [1, 2, 3], (empty_report 2 1)\<lparr>blocks_direct := 2\<rparr>)"
  using repair_copies_intact [of 2 "\<lambda>n. Some (standard_rsc 2)" nearest_codec byte_chars "[[1], [2, 3]]" None 65536]
  by (simp add: check_nsym_bounds numeral_2_eq_2)

section \<open>Properties\<close>

text \<open>
  C17: A payload the repair returns is built of blocks that each hash to the data hash the plan
  records for it, in plan order, cut to the recorded ciphertext length; no block of it was given up.
\<close>

theorem repair_copies_verified:
  assumes "repair_copies codec mk_rsc hash copy_a copy_b plan = Some (Some ciphertext, report)"
  shows "\<exists>chunks. length chunks = length (plan_rows plan) \<and>
    (\<forall>i<length chunks. hash (chunks ! i) = snd (snd (plan_rows plan ! i))) \<and>
    ciphertext = (if int (length (concat chunks)) = bp_ciphertext_len plan then concat chunks
                  else py_range (concat chunks) 0 (bp_ciphertext_len plan)) \<and> report_ok report"
proof -
  obtain rsc chunks where run: "repair_blocks codec hash rsc (copy_sources copy_a copy_b) 0 0 (plan_rows plan) []
      (empty_report (n_blocks plan) (length (copy_sources copy_a copy_b))) = (chunks, report)"
    and ok: "failed_blocks report = []"
    and c: "ciphertext = (if int (length (concat chunks)) \<noteq> bp_ciphertext_len plan
      then py_range (concat chunks) 0 (bp_ciphertext_len plan) else concat chunks)"
    using assms by (fastforce simp: repair_copies_def Let_def split: option.splits prod.splits if_splits)
  show ?thesis
    using repair_blocks_pass [OF run] ok c by (intro exI [of _ chunks]) (auto simp: report_ok_def)
qed

theorem repair_copies_verified_witness:
  "\<exists>chunks. length chunks = length (plan_rows (plan_of byte_chars 2 65536 [[1], [2, 3]])) \<and>
    (\<forall>i<length chunks. byte_chars (chunks ! i) = snd (snd (plan_rows (plan_of byte_chars 2 65536 [[1], [2, 3]]) ! i)))"
  using repair_copies_verified [OF repair_copies_example] by blast

text \<open>
  Whatever the copies hold, the report accounts for every block of the plan exactly once
  (direct, corrected, merged or failed), blocks from copy b are among the direct and corrected ones,
  the failed blocks are listed once each in ascending order, and the payload is withheld exactly
  when some block failed.
\<close>

theorem repair_copies_accounts:
  assumes "repair_copies codec mk_rsc hash copy_a copy_b plan = Some (result, report)"
  shows "blocks_direct report + blocks_rs_corrected report + blocks_merged report + length (failed_blocks report)
      = length (plan_rows plan) \<and>
    blocks_used_b report \<le> blocks_direct report + blocks_rs_corrected report \<and>
    sorted_wrt (<) (failed_blocks report) \<and> set (failed_blocks report) \<subseteq> {..<length (plan_rows plan)} \<and>
    (result = None \<longleftrightarrow> \<not> report_ok report) \<and> total_blocks report = n_blocks plan"
proof -
  obtain rsc chunks where run: "repair_blocks codec hash rsc (copy_sources copy_a copy_b) 0 0 (plan_rows plan) []
      (empty_report (n_blocks plan) (length (copy_sources copy_a copy_b))) = (chunks, report)"
    and r: "result = None \<longleftrightarrow> failed_blocks report \<noteq> []"
    using assms by (fastforce simp: repair_copies_def Let_def split: option.splits prod.splits if_splits)
  show ?thesis
    using repair_blocks_pass [OF run] r by (auto simp: accounted_def empty_report_def report_ok_def)
qed

theorem repair_copies_accounts_witness:
  "blocks_direct ((empty_report 2 1)\<lparr>blocks_direct := 2\<rparr>) + 0 + 0 + 0
    = length (plan_rows (plan_of byte_chars 2 65536 [[1], [2, 3]]))"
  using repair_copies_accounts [OF repair_copies_example] by (simp add: empty_report_def)

text \<open>
  C16: Given a decoder that corrects up to half the parity, if every block is held by one of the two
  copies with no codeword damaged in more than \<open>nsym / 2\<close> bytes, the repair returns the payload.
  The block hashes only have to tell the payload's own blocks from other byte strings.
\<close>

theorem repair_copies_heals:
  assumes "correcting_codec codec" and "check_nsym nsym" and "mk_rsc (int nsym) = Some (standard_rsc nsym)"
    and "\<And>b d. b \<in> set blocks \<Longrightarrow> hash d = hash b \<Longrightarrow> d = b"
    and "\<And>i. i < length blocks \<Longrightarrow> \<exists>copy \<in> set (map snd (copy_sources copy_a copy_b)). holds_block nsym blocks i copy"
  shows "\<exists>report. repair_copies codec mk_rsc hash copy_a copy_b (plan_of hash nsym block_size blocks)
    = Some (Some (concat blocks), report) \<and> report_ok report"
proof -
  let ?sources = "copy_sources copy_a copy_b"
  have held: "\<exists>(l, copy) \<in> set ?sources. near_block nsym (encode (blocks ! i) nsym)
      (py_slice copy (0 + block_offset nsym blocks i) (length (encode (blocks ! i) nsym)))"
    if "i < length blocks" for i
    using assms(5) [OF that] by (auto simp: holds_block_def)
  obtain report where "repair_blocks codec hash (standard_rsc nsym) ?sources 0 (int 0)
      (map (\<lambda>b. (int (length (encode b nsym)), hash (encode b nsym), hash b)) blocks) []
      (empty_report (length blocks) (length ?sources)) = ([] @ blocks, report)" "failed_blocks report = []"
    using repair_blocks_heals [OF assms(1,2,4) held, where index = 0 and chunks = "[]"
        and report = "empty_report (length blocks) (length ?sources)"]
    by (auto simp: empty_report_def)
  then show ?thesis
    by (auto simp: repair_copies_def Let_def assms(3) plan_rows_plan_of report_ok_def)
qed

theorem repair_copies_heals_witness:
  "\<exists>report. repair_copies nearest_codec (\<lambda>n. Some (standard_rsc 2)) byte_chars
      (Some ((encode [1] 2)[0 := 7])) None (plan_of byte_chars 2 65536 [[1]])
    = Some (Some (concat [[1]]), report) \<and> report_ok report"
proof (rule repair_copies_heals [OF nearest.correcting_codec_axioms])
  show v: "check_nsym 2" by (simp add: check_nsym_bounds)
  show "Some (standard_rsc 2) = Some (standard_rsc 2)" ..
  show "d = b" if "byte_chars d = byte_chars b" for b d by (rule byte_chars_inject [OF that])
  fix i assume "i < length [[1 :: byte]]"
  then have i: "i = 0" by simp
  have len: "length (encode [1] 2) = 3"
    by (simp add: rs.length_enc [OF v] encoded_length_def message_length_def CODEWORD_SIZE_def)
  have one: "pieces CODEWORD_SIZE ys = [ys]" if "length ys = 3" for ys :: bytes
    using that by (simp add: pieces.simps [of _ ys] CODEWORD_SIZE_def) (auto simp: pieces_Nil)
  have d: "length (differing (encode [1] 2) ((encode [1] 2)[0 := 7])) \<le> 1" by (rule differing_list_update)
  have "holds_block 2 [[1]] i ((encode [1] 2)[0 := 7])"
    using d by (simp add: holds_block_def near_block_def i block_offset_def py_slice_def len one)
  then show "\<exists>copy \<in> set (map snd (copy_sources (Some ((encode [1] 2)[0 := 7])) None)). holds_block 2 [[1]] i copy"
    by (simp add: copy_sources_def)
qed

text \<open>
  A container whose first copy is intact is read from it alone: every block counts as direct,
  nothing is corrected, taken from copy b or merged, and with both copies present the summary is CLEAN.
\<close>

theorem repair_copies_clean:
  assumes "check_nsym nsym" and "mk_rsc (int nsym) = Some (standard_rsc nsym)"
    and "copy_a = concat (map (\<lambda>b. encode b nsym) blocks)"
  shows "\<exists>report. repair_copies codec mk_rsc hash (Some copy_a) copy_b (plan_of hash nsym block_size blocks)
      = Some (Some (concat blocks), report) \<and>
    blocks_direct report = length blocks \<and> blocks_rs_corrected report = 0 \<and> blocks_used_b report = 0 \<and>
    blocks_merged report = 0 \<and> (report_healed report \<longleftrightarrow> copy_b = None) \<and>
    (copy_b \<noteq> None \<longrightarrow> summary report = CLEAN (length blocks))"
  using repair_copies_intact [OF assms(1), of mk_rsc, OF assms(2)]
  by (simp add: assms(3) empty_report_def summary_def report_ok_def report_healed_def)

theorem repair_copies_clean_witness:
  "\<exists>report. repair_copies nearest_codec (\<lambda>n. Some (standard_rsc 2)) byte_chars
      (Some (concat (map (\<lambda>b. encode b 2) [[1], [2, 3]]))) (Some []) (plan_of byte_chars 2 65536 [[1], [2, 3]])
    = Some (Some [1, 2, 3], report) \<and> summary report = CLEAN 2"
  using repair_copies_clean [of 2 "\<lambda>n. Some (standard_rsc 2)" "concat (map (\<lambda>b. encode b 2) [[1], [2, 3]])"
      "[[1], [2, 3]]" nearest_codec byte_chars "Some []" 65536]
  by (fastforce simp: check_nsym_bounds numeral_2_eq_2)

end
