(* ===== verification/Struct.thy ===== *)
theory Struct
  imports Prelude
begin

text \<open>
  The part of Python's \<^verbatim>\<open>struct\<close> module the source uses: big-endian formats of unsigned fields
  (\<^verbatim>\<open>B\<close>, \<^verbatim>\<open>H\<close>, \<^verbatim>\<open>I\<close>, \<^verbatim>\<open>Q\<close>), byte strings (\<^verbatim>\<open>16s\<close>) and padding (\<^verbatim>\<open>3x\<close>). Packing fails, as
  \<^verbatim>\<open>struct.error\<close>, when a number does not fit its field; a byte string is cut or zero-filled to
  its width; padding is written as zeros and skipped when reading. The records the source packs
  share the contract \<open>fixed_record\<close>.
\<close>

section \<open>Formats\<close>

datatype field_code = FU nat | FS nat | FX nat

datatype field_value = Num nat | Raw bytes

fun field_width :: "field_code \<Rightarrow> nat" where
  "field_width (FU n) = n"
| "field_width (FS n) = n"
| "field_width (FX n) = n"

definition struct_size :: "field_code list \<Rightarrow> nat" where
  "struct_size fmt = sum_list (map field_width fmt)"

fun struct_pack :: "field_code list \<Rightarrow> field_value list \<Rightarrow> bytes option" where
  "struct_pack [] [] = Some []"
| "struct_pack (FX n # fmt) vs = map_option ((@) (replicate n 0)) (struct_pack fmt vs)"
| "struct_pack (FU n # fmt) (Num x # vs) =
     (if x < 256 ^ n then map_option ((@) (be_bytes n x)) (struct_pack fmt vs) else None)"
| "struct_pack (FS n # fmt) (Raw b # vs) =
     map_option ((@) (take n (b @ replicate n 0))) (struct_pack fmt vs)"
| "struct_pack _ _ = None"

fun struct_fields :: "field_code list \<Rightarrow> bytes \<Rightarrow> field_value list" where
  "struct_fields [] bs = []"
| "struct_fields (FX n # fmt) bs = struct_fields fmt (drop n bs)"
| "struct_fields (FU n # fmt) bs = Num (be_nat (take n bs)) # struct_fields fmt (drop n bs)"
| "struct_fields (FS n # fmt) bs = Raw (take n bs) # struct_fields fmt (drop n bs)"

definition struct_unpack :: "field_code list \<Rightarrow> bytes \<Rightarrow> field_value list option" where
  "struct_unpack fmt bs = (if length bs = struct_size fmt then Some (struct_fields fmt bs) else None)"

definition struct_unpack_from :: "field_code list \<Rightarrow> bytes \<Rightarrow> field_value list option" where
  "struct_unpack_from fmt bs = (if struct_size fmt \<le> length bs then Some (struct_fields fmt bs) else None)"

text \<open>Values that survive packing unchanged, and byte strings whose padding is zero.\<close>

fun fits :: "field_code list \<Rightarrow> field_value list \<Rightarrow> bool" where
  "fits [] [] \<longleftrightarrow> True"
| "fits (FX n # fmt) vs \<longleftrightarrow> fits fmt vs"
| "fits (FU n # fmt) (Num x # vs) \<longleftrightarrow> x < 256 ^ n \<and> fits fmt vs"
| "fits (FS n # fmt) (Raw b # vs) \<longleftrightarrow> length b = n \<and> fits fmt vs"
| "fits _ _ \<longleftrightarrow> False"

fun zero_padded :: "field_code list \<Rightarrow> bytes \<Rightarrow> bool" where
  "zero_padded [] bs \<longleftrightarrow> True"
| "zero_padded (FX n # fmt) bs \<longleftrightarrow> take n bs = replicate n 0 \<and> zero_padded fmt (drop n bs)"
| "zero_padded (c # fmt) bs \<longleftrightarrow> zero_padded fmt (drop (field_width c) bs)"

lemma struct_size_simps [simp]:
  "struct_size [] = 0" "struct_size (c # fmt) = field_width c + struct_size fmt"
  by (simp_all add: struct_size_def)

lemma struct_pack_length: "struct_pack fmt vs = Some bs \<Longrightarrow> length bs = struct_size fmt"
  by (induction fmt vs arbitrary: bs rule: struct_pack.induct) (auto split: if_splits)

lemma struct_pack_fits: "fits fmt vs \<Longrightarrow> \<exists>bs. struct_pack fmt vs = Some bs"
  by (induction fmt vs rule: fits.induct) auto

lemma struct_fields_pack:
  "fits fmt vs \<Longrightarrow> struct_pack fmt vs = Some bs \<Longrightarrow> struct_fields fmt (bs @ rest) = vs"
  by (induction fmt vs arbitrary: bs rule: fits.induct) (auto split: if_splits)

lemma zero_padded_pack:
  "fits fmt vs \<Longrightarrow> struct_pack fmt vs = Some bs \<Longrightarrow> zero_padded fmt (bs @ rest)"
  by (induction fmt vs arbitrary: bs rule: fits.induct) (auto split: if_splits)

lemma fits_struct_fields: "length bs = struct_size fmt \<Longrightarrow> fits fmt (struct_fields fmt bs)"
proof (induction fmt bs rule: struct_fields.induct)
  case (3 n fmt bs)
  then show ?case using be_nat_less [of "take n bs"] by simp
qed simp_all

lemma pack_struct_fields:
  "length bs = struct_size fmt \<Longrightarrow> zero_padded fmt bs \<Longrightarrow> struct_pack fmt (struct_fields fmt bs) = Some bs"
proof (induction fmt bs rule: struct_fields.induct)
  case (2 n fmt bs)
  then show ?case by simp (metis append_take_drop_id)
next
  case (3 n fmt bs)
  have "be_bytes n (be_nat (take n bs)) = take n bs" using be_bytes_be_nat [of "take n bs"] 3 by simp
  then show ?case using 3 be_nat_less [of "take n bs"] by simp
next
  case (4 n fmt bs)
  then show ?case by simp
qed simp_all

lemma struct_fields_take: "struct_fields fmt (take (struct_size fmt) bs) = struct_fields fmt bs"
  by (induction fmt bs rule: struct_fields.induct) (simp_all add: drop_take min_def)

lemma struct_unpack_pack:
  "fits fmt vs \<Longrightarrow> struct_pack fmt vs = Some bs \<Longrightarrow> struct_unpack fmt bs = Some vs"
  using struct_fields_pack [of fmt vs bs "[]"] by (simp add: struct_unpack_def struct_pack_length)

section \<open>Fixed-size records\<close>

text \<open>
  The contract of a record the source writes to bytes and reads back: what is written can be read,
  and what is read is what would be written.
\<close>

locale fixed_record =
  fixes valid :: "'a \<Rightarrow> bool"
    and put :: "'a \<Rightarrow> bytes option"
    and get :: "bytes \<Rightarrow> 'a option"
    and size :: nat
  assumes put_valid: "valid x \<Longrightarrow> \<exists>bs. put x = Some bs"
    and put_size: "put x = Some bs \<Longrightarrow> length bs = size"
    and get_put: "valid x \<Longrightarrow> put x = Some bs \<Longrightarrow> get bs = Some x"
    and put_get: "get bs = Some x \<Longrightarrow> put x = Some bs"
begin

lemma get_size: "get bs = Some x \<Longrightarrow> length bs = size"
  using put_get [of bs x] put_size [of x bs] by simp

lemma get_inject: "get bs = Some x \<Longrightarrow> get bs' = Some x \<Longrightarrow> bs = bs'"
  using put_get [of bs x] put_get [of bs' x] by simp

lemma put_inject: "valid x \<Longrightarrow> put x = Some bs \<Longrightarrow> valid y \<Longrightarrow> put y = Some bs \<Longrightarrow> x = y"
  using get_put [of x bs] get_put [of y bs] by simp

lemma get_the_put: "valid x \<Longrightarrow> get (the (put x)) = Some x"
  using put_valid [of x] get_put [of x] by auto

end

end
