(* ===== verification/Errors.thy ===== *)
theory Errors
  imports Struct
begin

text \<open>
  The exception classes of \<^verbatim>\<open>src/dbs/exceptions.py\<close> with their inheritance, and the built-in ones
  the modelled code raises or catches. A call that may raise has a result of type
  \<open>exn + 'a\<close>; an \<^verbatim>\<open>except\<close> clause names a class and takes its subclasses too. Messages are left out.
\<close>

datatype exn =
    DBSError | ConfigurationError | HostKeyError | RemoteTimeout | ConnectionLost | CryptoError
  | InvalidPassphrase | ContainerError | CorruptionError | RestoreError | BackupError
  | MissingSourceFiles | Busy | ScheduleError
  | ValueError | TypeError | KeyError | OverflowError | StructError | OSError | InterfaceError | BuiltinException
  | RuntimeError | FileExistsError | FileNotFoundError | DatabaseError | Stopped

primrec parent_class :: "exn \<Rightarrow> exn option" where
  "parent_class DBSError = Some BuiltinException"
| "parent_class ConfigurationError = Some DBSError"
| "parent_class HostKeyError = Some ConfigurationError"
| "parent_class RemoteTimeout = Some DBSError"
| "parent_class ConnectionLost = Some DBSError"
| "parent_class CryptoError = Some DBSError"
| "parent_class InvalidPassphrase = Some CryptoError"
| "parent_class ContainerError = Some DBSError"
| "parent_class CorruptionError = Some ContainerError"
| "parent_class RestoreError = Some DBSError"
| "parent_class BackupError = Some DBSError"
| "parent_class MissingSourceFiles = Some BackupError"
| "parent_class ValueError = Some BuiltinException"
| "parent_class TypeError = Some BuiltinException"
| "parent_class KeyError = Some BuiltinException"
| "parent_class OverflowError = Some BuiltinException"
| "parent_class StructError = Some BuiltinException"
| "parent_class OSError = Some BuiltinException"
| "parent_class InterfaceError = Some BuiltinException"
| "parent_class BuiltinException = None"
| "parent_class Busy = Some DBSError"
| "parent_class ScheduleError = Some DBSError"
| "parent_class RuntimeError = Some BuiltinException"
| "parent_class FileExistsError = Some OSError"
| "parent_class FileNotFoundError = Some OSError"
| "parent_class DatabaseError = Some BuiltinException"
| "parent_class Stopped = Some BuiltinException"

primrec class_depth :: "exn \<Rightarrow> nat" where
  "class_depth DBSError = 1"
| "class_depth ConfigurationError = 2"
| "class_depth HostKeyError = 3"
| "class_depth RemoteTimeout = 2"
| "class_depth ConnectionLost = 2"
| "class_depth CryptoError = 2"
| "class_depth InvalidPassphrase = 3"
| "class_depth ContainerError = 2"
| "class_depth CorruptionError = 3"
| "class_depth RestoreError = 2"
| "class_depth BackupError = 2"
| "class_depth MissingSourceFiles = 3"
| "class_depth ValueError = 1"
| "class_depth TypeError = 1"
| "class_depth KeyError = 1"
| "class_depth OverflowError = 1"
| "class_depth StructError = 1"
| "class_depth OSError = 1"
| "class_depth InterfaceError = 1"
| "class_depth BuiltinException = 0"
| "class_depth Busy = 2"
| "class_depth ScheduleError = 2"
| "class_depth RuntimeError = 1"
| "class_depth FileExistsError = 2"
| "class_depth FileNotFoundError = 2"
| "class_depth DatabaseError = 1"
| "class_depth Stopped = 1"

lemma parent_class_depth: "parent_class e = Some p \<Longrightarrow> class_depth e = Suc (class_depth p)"
  by (cases e) auto

text \<open>Whether \<^verbatim>\<open>except c\<close> takes an exception of class \<open>e\<close>.\<close>

function catches :: "exn \<Rightarrow> exn \<Rightarrow> bool" where
  "catches c e \<longleftrightarrow> c = e \<or> (case parent_class e of None \<Rightarrow> False | Some p \<Rightarrow> catches c p)"
  by pat_completeness auto
termination
  by (relation "measure (\<lambda>(c, e). class_depth e)") (auto dest: parent_class_depth)

declare catches.simps [simp del]

lemma catches_self [simp]: "catches e e"
  by (simp add: catches.simps)

lemma catches_all [simp]: "catches BuiltinException e"
  by (cases e) (simp_all add: catches.simps)

type_synonym 'a result = "exn + 'a"

definition guard :: "bool \<Rightarrow> exn \<Rightarrow> unit result" where
  "guard ok e = (if ok then Inr () else Inl e)"

lemma guard_True [simp]: "guard True e = Inr ()"
  by (simp add: guard_def)

lemma guard_False [simp]: "guard False e = Inl e"
  by (simp add: guard_def)

lemma guard_eq_Inr [simp]: "guard ok e = Inr u \<longleftrightarrow> ok"
  by (simp add: guard_def)

text \<open>\<open>catching c handler r\<close> is \<^verbatim>\<open>try: r  except c: handler\<close>.\<close>

definition catching :: "exn \<Rightarrow> 'a result \<Rightarrow> 'a result \<Rightarrow> 'a result" where
  "catching c handler r = (case r of Inl e \<Rightarrow> if catches c e then handler else r | Inr _ \<Rightarrow> r)"

lemma catching_Inr [simp]: "catching c h (Inr x) = Inr x"
  by (simp add: catching_def)

lemma catching_Inl: "catching c h (Inl e) = (if catches c e then h else Inl e)"
  by (simp add: catching_def)

end
