(* ===== verification/Crypto.thy ===== *)
theory Crypto
  imports Errors
begin

text \<open>
  \<^verbatim>\<open>src/dbs/crypto/chunked.py\<close>, \<^verbatim>\<open>kdf.py\<close> and \<^verbatim>\<open>envelope.py\<close>: the nonce of a chunk, sealing and
  opening chunks, wrapping the data key and the limits on key-derivation parameters. AES-GCM is the
  parameter \<open>enc\<close>/\<open>dec\<close> (key, nonce, text, associated data; \<open>None\<close> is \<^verbatim>\<open>InvalidTag\<close>) with the laws
  of the locale \<open>aead_scheme\<close>, Argon2id is the parameter \<open>argon2\<close>.
\<close>

type_synonym aead_enc = "bytes \<Rightarrow> bytes \<Rightarrow> bytes \<Rightarrow> bytes \<Rightarrow> bytes"
type_synonym aead_dec = "bytes \<Rightarrow> bytes \<Rightarrow> bytes \<Rightarrow> bytes \<Rightarrow> bytes option"

section \<open>Chunks\<close>

definition KEY_LENGTH :: nat where "KEY_LENGTH = 32"
definition NONCE_LENGTH :: nat where "NONCE_LENGTH = 12"
definition NONCE_PREFIX_LENGTH :: nat where "NONCE_PREFIX_LENGTH = 7"
definition TAG_LENGTH :: nat where "TAG_LENGTH = 16"
definition WRAPPED_KEY_LENGTH :: nat where "WRAPPED_KEY_LENGTH = KEY_LENGTH + TAG_LENGTH"
definition MAX_CHUNKS :: nat where "MAX_CHUNKS = 2 ^ 32"

definition COUNTER :: "field_code list" where "COUNTER = [FU 4, FU 1]"

definition WRAP_LABEL :: bytes where
  "WRAP_LABEL = [100, 98, 115, 47, 118, 50, 47, 107, 101, 121, 45, 119, 114, 97, 112, 0]"

definition chunk_nonce :: "bytes \<Rightarrow> int \<Rightarrow> bool \<Rightarrow> bytes result" where
  "chunk_nonce prefix index final =
     (if length prefix \<noteq> NONCE_PREFIX_LENGTH then Inl ValueError
      else if \<not> (0 \<le> index \<and> index < int MAX_CHUNKS) then Inl ValueError
      else case struct_pack COUNTER [Num (nat index), Num (if final then 1 else 0)] of
             None \<Rightarrow> Inl StructError
           | Some counter \<Rightarrow> Inr (prefix @ counter))"

record chunk_cipher =
  cc_key :: bytes
  cc_prefix :: bytes
  cc_associated_data :: bytes

definition ChunkCipher :: "bytes \<Rightarrow> bytes \<Rightarrow> bytes \<Rightarrow> chunk_cipher result" where
  "ChunkCipher key nonce_prefix associated_data =
     (if length key \<noteq> KEY_LENGTH then Inl ValueError
      else Inr \<lparr>cc_key = key, cc_prefix = nonce_prefix, cc_associated_data = associated_data\<rparr>)"

definition chunk_seal :: "aead_enc \<Rightarrow> chunk_cipher \<Rightarrow> int \<Rightarrow> bytes \<Rightarrow> bool \<Rightarrow> bytes result" where
  "chunk_seal enc c index plaintext final =
     and_then (chunk_nonce (cc_prefix c) index final)
       (\<lambda>nonce. Inr (enc (cc_key c) nonce plaintext (cc_associated_data c)))"

definition chunk_open :: "aead_dec \<Rightarrow> chunk_cipher \<Rightarrow> int \<Rightarrow> bytes \<Rightarrow> bool \<Rightarrow> bytes result" where
  "chunk_open dec c index ciphertext final =
     and_then (chunk_nonce (cc_prefix c) index final)
       (\<lambda>nonce. case dec (cc_key c) nonce ciphertext (cc_associated_data c) of
          None \<Rightarrow> Inl CorruptionError
        | Some plaintext \<Rightarrow> Inr plaintext)"

text \<open>The nonce of a wrapped key comes from \<^verbatim>\<open>os.urandom\<close> and is an argument here.\<close>

definition wrap_key :: "aead_enc \<Rightarrow> bytes \<Rightarrow> bytes \<Rightarrow> bytes \<Rightarrow> bytes \<Rightarrow> bytes \<times> bytes" where
  "wrap_key enc nonce kek dek associated_data = (nonce, enc kek nonce dek (WRAP_LABEL @ associated_data))"

definition unwrap_key :: "aead_dec \<Rightarrow> bytes \<Rightarrow> bytes \<Rightarrow> bytes \<Rightarrow> bytes \<Rightarrow> bytes result" where
  "unwrap_key dec kek nonce wrapped associated_data =
     (case dec kek nonce wrapped (WRAP_LABEL @ associated_data) of
        None \<Rightarrow> Inl InvalidPassphrase
      | Some dek \<Rightarrow> if length dek \<noteq> KEY_LENGTH then Inl InvalidPassphrase else Inr dek)"

section \<open>Key derivation\<close>

definition SALT_LENGTH :: nat where "SALT_LENGTH = 16"
definition MAX_TIME_COST :: int where "MAX_TIME_COST = 16"
definition MAX_MEMORY_COST :: int where "MAX_MEMORY_COST = 1024 * 1024"
definition MAX_PARALLELISM :: int where "MAX_PARALLELISM = 16"
definition MIN_KEY_LENGTH :: int where "MIN_KEY_LENGTH = 16"
definition MAX_KEY_LENGTH :: int where "MAX_KEY_LENGTH = 64"
definition UNTRUSTED_MAX_TIME_COST :: int where "UNTRUSTED_MAX_TIME_COST = 10"
definition UNTRUSTED_MAX_MEMORY_COST :: int where "UNTRUSTED_MAX_MEMORY_COST = 256 * 1024"
definition UNTRUSTED_MAX_PARALLELISM :: int where "UNTRUSTED_MAX_PARALLELISM = 16"

record kdf_params =
  time_cost :: int
  memory_cost :: int
  parallelism :: int
  key_length :: int

definition default_kdf_params :: kdf_params where
  "default_kdf_params = \<lparr>time_cost = 3, memory_cost = 64 * 1024, parallelism = 4, key_length = int KEY_LENGTH\<rparr>"

definition kdf_validate :: "kdf_params \<Rightarrow> unit result" where
  "kdf_validate p =
     (let checks = [(time_cost p, 1, MAX_TIME_COST), (memory_cost p, 8, MAX_MEMORY_COST),
                    (parallelism p, 1, MAX_PARALLELISM), (key_length p, MIN_KEY_LENGTH, MAX_KEY_LENGTH)]
      in guard (list_all (\<lambda>(value, lower, upper). lower \<le> value \<and> value \<le> upper) checks) CryptoError)"

definition validate_untrusted :: "kdf_params \<Rightarrow> unit result" where
  "validate_untrusted p =
     and_then (kdf_validate p) (\<lambda>_.
     let ceilings = [(time_cost p, UNTRUSTED_MAX_TIME_COST), (memory_cost p, UNTRUSTED_MAX_MEMORY_COST),
                     (parallelism p, UNTRUSTED_MAX_PARALLELISM)]
     in if list_ex (\<lambda>(value, ceiling). ceiling < value) ceilings then Inl CryptoError
        else if memory_cost p < 8 * parallelism p then Inl CryptoError
        else if key_length p \<noteq> int KEY_LENGTH then Inl CryptoError
        else Inr ())"

type_synonym argon2 = "bytes \<Rightarrow> bytes \<Rightarrow> int \<Rightarrow> int \<Rightarrow> int \<Rightarrow> int \<Rightarrow> bytes"

definition derive_key :: "argon2 \<Rightarrow> bytes \<Rightarrow> bytes \<Rightarrow> kdf_params \<Rightarrow> bytes result" where
  "derive_key argon2 passphrase salt p =
     and_then (kdf_validate p) (\<lambda>_.
       Inr (argon2 passphrase salt (time_cost p) (memory_cost p) (parallelism p) (key_length p)))"

section \<open>The envelope of version 1 payloads\<close>

definition DEK_AAD :: bytes where
  "DEK_AAD = [100, 98, 115, 47, 100, 101, 107, 45, 119, 114, 97, 112, 47, 118, 49]"

definition DATA_AAD :: bytes where
  "DATA_AAD = [100, 98, 115, 47, 100, 97, 116, 97, 47, 118, 49]"

record envelope_material =
  em_salt :: bytes
  em_kdf_params :: kdf_params
  em_wrapped_dek :: bytes
  em_dek_nonce :: bytes
  em_data_nonce :: bytes

definition decrypt_payload ::
  "aead_dec \<Rightarrow> argon2 \<Rightarrow> bytes \<Rightarrow> bytes \<Rightarrow> envelope_material \<Rightarrow> bytes result" where
  "decrypt_payload dec argon2 ciphertext passphrase m =
     and_then (derive_key argon2 passphrase (em_salt m) (em_kdf_params m)) (\<lambda>kek.
       case dec kek (em_dek_nonce m) (em_wrapped_dek m) DEK_AAD of
         None \<Rightarrow> Inl InvalidPassphrase
       | Some dek \<Rightarrow>
           (case dec dek (em_data_nonce m) ciphertext DATA_AAD of
              None \<Rightarrow> Inl InvalidPassphrase
            | Some plaintext \<Rightarrow> Inr plaintext))"

section \<open>Nonces\<close>

lemma chunk_nonce_eq:
  assumes "length prefix = NONCE_PREFIX_LENGTH" and "0 \<le> index" and "index < int MAX_CHUNKS"
  shows "chunk_nonce prefix index final
    = Inr (prefix @ be_bytes 4 (nat index) @ [if final then 1 else 0])"
  using assms by (simp add: chunk_nonce_def COUNTER_def MAX_CHUNKS_def nat_less_iff)

lemma chunk_nonce_Inr:
  "chunk_nonce prefix index final = Inr nonce \<longleftrightarrow>
     length prefix = NONCE_PREFIX_LENGTH \<and> 0 \<le> index \<and> index < int MAX_CHUNKS \<and>
     nonce = prefix @ be_bytes 4 (nat index) @ [if final then 1 else 0]"
proof (cases "length prefix = NONCE_PREFIX_LENGTH \<and> 0 \<le> index \<and> index < int MAX_CHUNKS")
  case True
  then show ?thesis by (auto simp: chunk_nonce_eq)
next
  case False
  then show ?thesis by (auto simp: chunk_nonce_def)
qed

lemma chunk_nonce_length: "chunk_nonce prefix index final = Inr nonce \<Longrightarrow> length nonce = NONCE_LENGTH"
  by (auto simp: chunk_nonce_Inr NONCE_PREFIX_LENGTH_def NONCE_LENGTH_def)

section \<open>Authenticated encryption\<close>

locale aead_scheme =
  fixes enc :: aead_enc and dec :: aead_dec
  assumes dec_enc: "dec k n (enc k n p a) a = Some p"
    and length_enc: "length (enc k n p a) = length p + TAG_LENGTH"
    and dec_genuine: "dec k n c a = Some p \<Longrightarrow> c = enc k n p a"
begin

lemma enc_inject: "enc k n p a = enc k n q a \<Longrightarrow> p = q"
  by (metis dec_enc option.inject)

lemma dec_length: "dec k n c a = Some p \<Longrightarrow> length c = length p + TAG_LENGTH"
  using dec_genuine [of k n c a p] length_enc [of k n p a] by simp

lemma unwrap_wrap:
  assumes "length dek = KEY_LENGTH" and "wrap_key enc nonce kek dek ad = (n, w)"
  shows "unwrap_key dec kek n w ad = Inr dek"
  using assms by (auto simp: wrap_key_def unwrap_key_def dec_enc)

lemma unwrap_genuine: "unwrap_key dec kek nonce wrapped ad = Inr dek \<Longrightarrow>
    length dek = KEY_LENGTH \<and> wrapped = snd (wrap_key enc nonce kek dek ad)"
  by (auto simp: unwrap_key_def wrap_key_def dest: dec_genuine split: option.splits if_splits)

end

text \<open>
  The contract of the sealed chunks of one stream, as the container relies on it: what
  \<open>ChunkCipher\<close> provides over any scheme that meets \<open>aead_scheme\<close>.
\<close>

locale chunk_sealing =
  fixes usable :: "'c \<Rightarrow> bool"
    and seal :: "'c \<Rightarrow> int \<Rightarrow> bytes \<Rightarrow> bool \<Rightarrow> bytes result"
    and unseal :: "'c \<Rightarrow> int \<Rightarrow> bytes \<Rightarrow> bool \<Rightarrow> bytes result"
  assumes seal_total: "usable c \<Longrightarrow> 0 \<le> i \<Longrightarrow> i < int MAX_CHUNKS \<Longrightarrow> \<exists>s. seal c i p f = Inr s"
    and seal_length: "seal c i p f = Inr s \<Longrightarrow> length s = length p + TAG_LENGTH"
    and open_seal: "seal c i p f = Inr s \<Longrightarrow> unseal c i s f = Inr p"
    and open_genuine: "unseal c i s f = Inr p \<Longrightarrow> seal c i p f = Inr s"
begin

lemma open_length: "unseal c i s f = Inr p \<Longrightarrow> length s = length p + TAG_LENGTH"
  by (rule seal_length [OF open_genuine])

lemma open_altered: "seal c i p f = Inr s \<Longrightarrow> s' \<noteq> s \<Longrightarrow> unseal c i s' f \<noteq> Inr p"
  using open_genuine [of c i s' f p] by auto

end

sublocale aead_scheme \<subseteq> chunks: chunk_sealing
  "\<lambda>c. length (cc_prefix c) = NONCE_PREFIX_LENGTH" "chunk_seal enc" "chunk_open dec"
proof
  fix c :: chunk_cipher and i :: int and p s :: bytes and f :: bool
  show "length (cc_prefix c) = NONCE_PREFIX_LENGTH \<Longrightarrow> 0 \<le> i \<Longrightarrow> i < int MAX_CHUNKS \<Longrightarrow>
      \<exists>s. chunk_seal enc c i p f = Inr s"
    by (simp add: chunk_seal_def chunk_nonce_eq)
  show "chunk_seal enc c i p f = Inr s \<Longrightarrow> length s = length p + TAG_LENGTH"
    by (auto simp: chunk_seal_def length_enc)
  show "chunk_seal enc c i p f = Inr s \<Longrightarrow> chunk_open dec c i s f = Inr p"
    by (auto simp: chunk_seal_def chunk_open_def dec_enc)
  show "chunk_open dec c i s f = Inr p \<Longrightarrow> chunk_seal enc c i p f = Inr s"
    by (auto simp: chunk_seal_def chunk_open_def split: option.splits dest: dec_genuine)
qed

text \<open>
  A scheme that meets the laws, for examples: the text in clear followed by a 16-byte sum over the
  key, the nonce, the text and the associated data.
\<close>

definition sum_tag :: "bytes \<Rightarrow> bytes \<Rightarrow> bytes \<Rightarrow> bytes \<Rightarrow> bytes" where
  "sum_tag k n p a = be_bytes TAG_LENGTH (be_nat (k @ n @ p @ a))"

definition clear_enc :: aead_enc where
  "clear_enc k n p a = p @ sum_tag k n p a"

definition clear_dec :: aead_dec where
  "clear_dec k n c a =
     (let p = take (length c - TAG_LENGTH) c
      in if TAG_LENGTH \<le> length c \<and> drop (length c - TAG_LENGTH) c = sum_tag k n p a then Some p else None)"

interpretation clear: aead_scheme clear_enc clear_dec
proof
  fix k n c p a :: bytes
  show "clear_dec k n (clear_enc k n p a) a = Some p"
    by (simp add: clear_dec_def clear_enc_def sum_tag_def)
  show "length (clear_enc k n p a) = length p + TAG_LENGTH"
    by (simp add: clear_enc_def sum_tag_def)
  show "clear_dec k n c a = Some p \<Longrightarrow> c = clear_enc k n p a"
    by (auto simp: clear_dec_def clear_enc_def Let_def split: if_splits)
      (metis append_take_drop_id)
qed

section \<open>Properties\<close>

text \<open>
  No nonce is used for two chunks: equal nonces come from the same prefix, the same chunk index
  and the same final flag, for all \<open>2^32\<close> indices a stream may have.
\<close>

theorem chunk_nonce_unique:
  assumes "chunk_nonce prefix index final = Inr nonce" and "chunk_nonce prefix' index' final' = Inr nonce"
  shows "prefix = prefix' \<and> index = index' \<and> final = final'"
proof -
  have r: "nat index < 256 ^ 4" "nat index' < 256 ^ 4" "0 \<le> index" "0 \<le> index'"
    using assms by (auto simp: chunk_nonce_Inr MAX_CHUNKS_def nat_less_iff)
  have eq: "prefix = prefix'" "be_bytes 4 (nat index) = be_bytes 4 (nat index')"
    "(if final then 1 else 0 :: byte) = (if final' then 1 else 0)"
    using assms by (auto simp: chunk_nonce_Inr)
  have "nat index = nat index'" using eq(2) r(1,2) be_nat_be_bytes by metis
  then show ?thesis using eq r(3,4) by (auto split: if_splits)
qed

theorem chunk_nonce_unique_witness:
  "{(index, final). chunk_nonce [1, 2, 3, 4, 5, 6, 7] index final = Inr [1, 2, 3, 4, 5, 6, 7, 0, 0, 0, 5, 1]} = {(5, True)}"
proof -
  have n: "chunk_nonce [1, 2, 3, 4, 5, 6, 7] 5 True = Inr [1, 2, 3, 4, 5, 6, 7, 0, 0, 0, 5, 1]"
    by (simp add: chunk_nonce_Inr NONCE_PREFIX_LENGTH_def MAX_CHUNKS_def be_bytes_numeral)
  then show ?thesis using chunk_nonce_unique [OF n] by blast
qed

text \<open>
  Key-derivation parameters from a backup file are accepted exactly when each is within its
  range for untrusted input, there are 8 KiB for every lane and the key has 32 bytes; so a file can
  make the reader spend at most 10 passes over 256 MiB.
\<close>

theorem validate_untrusted_iff:
  "validate_untrusted p = Inr () \<longleftrightarrow>
     time_cost p \<in> {1..10} \<and> memory_cost p \<in> {8..262144} \<and> parallelism p \<in> {1..16} \<and>
     8 * parallelism p \<le> memory_cost p \<and> key_length p = 32"
  by (auto simp: validate_untrusted_def kdf_validate_def MAX_TIME_COST_def MAX_MEMORY_COST_def
      MAX_PARALLELISM_def MIN_KEY_LENGTH_def MAX_KEY_LENGTH_def UNTRUSTED_MAX_TIME_COST_def
      UNTRUSTED_MAX_MEMORY_COST_def UNTRUSTED_MAX_PARALLELISM_def KEY_LENGTH_def split: if_splits)



end
