(* ===== verification/ContainerFormat.thy ===== *)
theory ContainerFormat
  imports Errors
begin

text \<open>
  \<^verbatim>\<open>src/dbs/container/sources.py\<close> and \<^verbatim>\<open>format.py\<close>: random access to a container, the fixed
  header of version 1 with its two manifests, the sealed header of later versions, finding a
  verified header at either end of a damaged file, and cutting a version 1 container into its copies.

  BLAKE2b with a 16-byte digest is the parameter \<open>h16\<close> (personalisation, key, data); its result is
  a 128-bit word, so the digest has 16 bytes by construction. Decoding a manifest (UTF-8, then JSON
  with an object at the top) is the parameter \<open>decode_manifest\<close>, reading an integer \<open>copy_len\<close> out
  of it is \<open>copy_len_field\<close>.
\<close>

section \<open>Sources\<close>

definition read_at :: "bytes \<Rightarrow> int \<Rightarrow> int \<Rightarrow> bytes" where
  "read_at data offset len =
     (if offset < 0 \<or> len \<le> 0 \<or> int (length data) \<le> offset then []
      else py_range data offset (offset + len))"

text \<open>
  A file on disk: its contents, and how many bytes a \<^verbatim>\<open>read\<close> at a position gives at most (a short
  read may give fewer than asked for). \<open>file_read\<close> is one call of \<^verbatim>\<open>read(n)\<close>.
\<close>

record file_source =
  fs_content :: bytes
  fs_origin :: nat
  fs_size :: int
  fs_short :: "nat \<Rightarrow> nat"

definition open_file_source :: "bytes \<Rightarrow> nat \<Rightarrow> (nat \<Rightarrow> nat) \<Rightarrow> file_source" where
  "open_file_source content position short =
     \<lparr>fs_content = content, fs_origin = position, fs_size = int (length content) - int position,
      fs_short = short\<rparr>"

definition file_read :: "file_source \<Rightarrow> nat \<Rightarrow> nat \<Rightarrow> bytes" where
  "file_read f position n = take (min n (fs_short f position)) (drop position (fs_content f))"

function file_read_loop :: "file_source \<Rightarrow> nat \<Rightarrow> nat \<Rightarrow> bytes list" where
  "file_read_loop f position remaining =
     (if remaining = 0 then []
      else let piece = file_read f position remaining
           in if piece = [] then []
              else piece # file_read_loop f (position + length piece) (remaining - length piece))"
  by pat_completeness auto
termination
  by (relation "measure (\<lambda>(f, position, remaining). remaining)") auto

declare file_read_loop.simps [simp del]

definition file_read_at :: "file_source \<Rightarrow> int \<Rightarrow> int \<Rightarrow> bytes" where
  "file_read_at f offset len =
     (if offset < 0 \<or> len \<le> 0 \<or> fs_size f \<le> offset then []
      else let len = min len (fs_size f - offset)
           in concat (file_read_loop f (nat (int (fs_origin f) + offset)) (nat len)))"

section \<open>Sealed headers\<close>

type_synonym hash16 = "bytes \<Rightarrow> bytes \<Rightarrow> bytes \<Rightarrow> 128 word"

definition digest16 :: "128 word \<Rightarrow> bytes" where
  "digest16 d = be_bytes 16 (unat d)"

lemma length_digest16 [simp, byte_lens]: "length (digest16 d) = 16"
  by (simp add: digest16_def)

definition MAGIC :: bytes where "MAGIC = [68, 66, 83, 67, 79, 78, 48, 49]"

definition HEADER_STRUCT :: "field_code list" where
  "HEADER_STRUCT = [FS 8, FU 2, FU 2, FU 4, FU 8, FU 8, FU 8, FS 16, FX 8]"

definition V1_HEADER_SIZE :: nat where "V1_HEADER_SIZE = struct_size HEADER_STRUCT"
definition V1_FORMAT_VERSION :: nat where "V1_FORMAT_VERSION = 1"
definition STREAM_FORMAT_VERSION :: nat where "STREAM_FORMAT_VERSION = 2"

definition SEALED_PREFIX :: "field_code list" where "SEALED_PREFIX = [FS 8, FU 2, FU 2]"
definition SEALED_CHECKSUM_SIZE :: nat where "SEALED_CHECKSUM_SIZE = 16"
definition SEALED_MIN_SIZE :: nat where "SEALED_MIN_SIZE = struct_size SEALED_PREFIX + SEALED_CHECKSUM_SIZE"
definition SEALED_MAX_SIZE :: nat where "SEALED_MAX_SIZE = 4096"
definition SEALED_PERSON :: bytes where
  "SEALED_PERSON = [100, 98, 115, 47, 115, 101, 97, 108, 101, 100, 45, 104, 101, 97, 100]"

definition manifest_hash :: "hash16 \<Rightarrow> bytes \<Rightarrow> bytes" where
  "manifest_hash h16 manifest = digest16 (h16 [] [] manifest)"

definition sealed_checksum :: "hash16 \<Rightarrow> bytes \<Rightarrow> bytes" where
  "sealed_checksum h16 unsealed = digest16 (h16 SEALED_PERSON [] unsealed)"

definition seal_header :: "hash16 \<Rightarrow> nat \<Rightarrow> bytes \<Rightarrow> bytes result" where
  "seal_header h16 version body =
     (let len = struct_size SEALED_PREFIX + length body + SEALED_CHECKSUM_SIZE
      in if version \<le> V1_FORMAT_VERSION \<or> \<not> (SEALED_MIN_SIZE \<le> len \<and> len \<le> SEALED_MAX_SIZE)
         then Inl ValueError
         else case struct_pack SEALED_PREFIX [Raw MAGIC, Num version, Num len] of
                None \<Rightarrow> Inl StructError
              | Some prefix \<Rightarrow>
                  let unsealed = prefix @ body in Inr (unsealed @ sealed_checksum h16 unsealed))"

definition open_sealed_header :: "hash16 \<Rightarrow> bytes \<Rightarrow> (nat \<times> bytes) option" where
  "open_sealed_header h16 raw =
     (if length raw < SEALED_MIN_SIZE then None
      else case struct_unpack_from SEALED_PREFIX raw of
             Some [Raw magic, Num version, Num len] \<Rightarrow>
               if magic \<noteq> MAGIC \<or> version \<le> V1_FORMAT_VERSION then None
               else if \<not> (SEALED_MIN_SIZE \<le> len \<and> len \<le> min (length raw) SEALED_MAX_SIZE) then None
               else let unsealed = take (len - SEALED_CHECKSUM_SIZE) raw
                    in if sealed_checksum h16 unsealed
                            \<noteq> py_slice raw (len - SEALED_CHECKSUM_SIZE) SEALED_CHECKSUM_SIZE then None
                       else Some (version, drop (struct_size SEALED_PREFIX) unsealed)
           | _ \<Rightarrow> None)"

section \<open>The version 1 header\<close>

record v1_header =
  h_version :: nat
  h_flags :: nat
  h_block_size :: nat
  h_manifest_offset :: nat
  h_manifest_len :: nat
  h_manifest_dup_offset :: nat
  h_manifest_hash :: bytes

definition parse_v1_header :: "bytes \<Rightarrow> v1_header option" where
  "parse_v1_header raw =
     (if length raw < V1_HEADER_SIZE then None
      else case struct_unpack HEADER_STRUCT (take V1_HEADER_SIZE raw) of
             Some [Raw magic, Num version, Num flags, Num block_size, Num m_off, Num m_len, Num m_dup, Raw m_hash] \<Rightarrow>
               if magic \<noteq> MAGIC then None
               else Some \<lparr>h_version = version, h_flags = flags, h_block_size = block_size,
                          h_manifest_offset = m_off, h_manifest_len = m_len,
                          h_manifest_dup_offset = m_dup, h_manifest_hash = m_hash\<rparr>
           | _ \<Rightarrow> None)"

definition v1_layout :: "bytes \<Rightarrow> nat \<Rightarrow> v1_header option" where
  "v1_layout raw available =
     (case parse_v1_header raw of
        None \<Rightarrow> None
      | Some header \<Rightarrow>
          if h_version header \<noteq> V1_FORMAT_VERSION then None
          else let m_len = h_manifest_len header
               in if h_manifest_offset header \<noteq> V1_HEADER_SIZE then None
                  else if h_manifest_dup_offset header \<noteq> V1_HEADER_SIZE + m_len then None
                  else if available < V1_HEADER_SIZE + m_len then None
                  else Some header)"

record 'm verified_header =
  vh_version :: nat
  vh_offset :: int
  vh_raw :: bytes
  vh_body :: bytes
  vh_header :: "v1_header option"
  vh_manifest :: "'m option"

definition verified_v1 ::
  "hash16 \<Rightarrow> (bytes \<Rightarrow> 'm option) \<Rightarrow> bytes \<Rightarrow> int \<Rightarrow> 'm verified_header option" where
  "verified_v1 h16 decode_manifest source offset =
     (let raw = read_at source offset (int V1_HEADER_SIZE)
      in case v1_layout raw (length source) of
           None \<Rightarrow> None
         | Some header \<Rightarrow>
             let m_len = h_manifest_len header;
                 attempt = (\<lambda>m_off.
                   let candidate = read_at source (int m_off) (int m_len)
                   in if length candidate \<noteq> m_len \<or> manifest_hash h16 candidate \<noteq> h_manifest_hash header then None
                      else map_option (\<lambda>manifest.
                             \<lparr>vh_version = V1_FORMAT_VERSION, vh_offset = offset, vh_raw = raw, vh_body = [],
                              vh_header = Some header, vh_manifest = Some manifest\<rparr>) (decode_manifest candidate))
             in (case attempt V1_HEADER_SIZE of
                   Some found \<Rightarrow> Some found
                 | None \<Rightarrow> attempt (V1_HEADER_SIZE + m_len)))"

definition verified_sealed_front :: "hash16 \<Rightarrow> bytes \<Rightarrow> 'm verified_header option" where
  "verified_sealed_front h16 source =
     (let raw = read_at source 0 (int SEALED_MAX_SIZE)
      in case open_sealed_header h16 raw of
           None \<Rightarrow> None
         | Some (version, body) \<Rightarrow>
             let len = struct_size SEALED_PREFIX + length body + SEALED_CHECKSUM_SIZE
             in Some \<lparr>vh_version = version, vh_offset = 0, vh_raw = take len raw, vh_body = body,
                      vh_header = None, vh_manifest = None\<rparr>)"

text \<open>Python's \<^verbatim>\<open>bytes.rfind(sub, 0, end)\<close>; None where it gives -1.\<close>

definition rfind :: "bytes \<Rightarrow> bytes \<Rightarrow> nat \<Rightarrow> nat option" where
  "rfind bs sub stop =
     find (\<lambda>i. i + length sub \<le> min stop (length bs) \<and> py_slice bs i (length sub) = sub)
       (rev [0..<Suc (min stop (length bs))])"

lemma find_SomeD: "find P xs = Some x \<Longrightarrow> P x"
  by (induction xs) (auto split: if_splits)

lemma rfind_Some:
  "rfind bs sub stop = Some i \<Longrightarrow> i + length sub \<le> min stop (length bs) \<and> py_slice bs i (length sub) = sub"
  unfolding rfind_def by (drule find_SomeD) simp

function sealed_tail_loop ::
  "hash16 \<Rightarrow> bytes \<Rightarrow> nat \<Rightarrow> nat option \<Rightarrow> 'm verified_header option" where
  "sealed_tail_loop h16 tail start None = None"
| "sealed_tail_loop h16 tail start (Some position) =
     (case open_sealed_header h16 (drop position tail) of
        Some (version, body) \<Rightarrow>
          if struct_size SEALED_PREFIX + length body + SEALED_CHECKSUM_SIZE = length tail - position
          then Some \<lparr>vh_version = version, vh_offset = int (start + position), vh_raw = drop position tail,
                     vh_body = body, vh_header = None, vh_manifest = None\<rparr>
          else sealed_tail_loop h16 tail start (rfind tail MAGIC position)
      | None \<Rightarrow> sealed_tail_loop h16 tail start (rfind tail MAGIC position))"
  by pat_completeness auto
termination
proof (relation "measure (\<lambda>(h16, tail, start, position). case position of None \<Rightarrow> 0 | Some p \<Rightarrow> Suc p)", simp)
  have less: "(case rfind tail MAGIC position of None \<Rightarrow> 0 | Some p \<Rightarrow> Suc p) < Suc position" for tail position
    using rfind_Some [of tail MAGIC position] by (auto simp: MAGIC_def split: option.split)
  show "((h16, tail, start, rfind tail MAGIC position), h16, tail, start, Some position)
      \<in> measure (\<lambda>(h16, tail, start, position). case position of None \<Rightarrow> 0 | Some p \<Rightarrow> Suc p)"
    for h16 :: hash16 and tail :: bytes and start position :: nat
    using less by simp
  show "((h16, tail, start, rfind tail MAGIC position), h16, tail, start, Some position)
      \<in> measure (\<lambda>(h16, tail, start, position). case position of None \<Rightarrow> 0 | Some p \<Rightarrow> Suc p)"
    for h16 :: hash16 and tail :: bytes and start position :: nat
    using less by simp
qed

definition verified_sealed_tail :: "hash16 \<Rightarrow> bytes \<Rightarrow> 'm verified_header option" where
  "verified_sealed_tail h16 source =
     (let span = min (length source) SEALED_MAX_SIZE; start = length source - span;
          tail = read_at source (int start) (int span)
      in sealed_tail_loop h16 tail start (rfind tail MAGIC (length tail)))"

definition verified_headers :: "hash16 \<Rightarrow> (bytes \<Rightarrow> 'm option) \<Rightarrow> bytes \<Rightarrow> 'm verified_header list" where
  "verified_headers h16 decode_manifest source =
     List.map_filter id [verified_v1 h16 decode_manifest source 0, verified_sealed_front h16 source] @
     (if 2 * V1_HEADER_SIZE \<le> length source
      then List.map_filter id [verified_v1 h16 decode_manifest source (int (length source) - int V1_HEADER_SIZE)]
      else []) @
     (case verified_sealed_tail h16 source of
        Some tail \<Rightarrow> if 0 < vh_offset tail then [tail] else []
      | None \<Rightarrow> [])"

definition first_verified_header :: "hash16 \<Rightarrow> (bytes \<Rightarrow> 'm option) \<Rightarrow> bytes \<Rightarrow> 'm verified_header option" where
  "first_verified_header h16 decode_manifest source =
     (case verified_headers h16 decode_manifest source of [] \<Rightarrow> None | found # _ \<Rightarrow> Some found)"

definition read_format_version :: "hash16 \<Rightarrow> (bytes \<Rightarrow> 'm option) \<Rightarrow> bytes \<Rightarrow> nat option" where
  "read_format_version h16 decode_manifest source =
     map_option vh_version (first_verified_header h16 decode_manifest source)"

section \<open>Reading a version 1 container\<close>

datatype unreadable = ManifestsCorrupted | NotAContainer

definition unreadable_reason :: "bytes \<Rightarrow> unreadable" where
  "unreadable_reason source =
     (if list_ex (\<lambda>offset. 0 \<le> offset \<and> v1_layout (read_at source offset (int V1_HEADER_SIZE)) (length source) \<noteq> None)
           [0, int (length source) - int V1_HEADER_SIZE]
      then ManifestsCorrupted else NotAContainer)"

definition resolve_v1 :: "hash16 \<Rightarrow> (bytes \<Rightarrow> 'm option) \<Rightarrow> bytes \<Rightarrow> 'm verified_header result" where
  "resolve_v1 h16 decode_manifest data =
     (case first_verified_header h16 decode_manifest data of
        None \<Rightarrow> Inl ContainerError
      | Some found \<Rightarrow>
          if vh_version found = STREAM_FORMAT_VERSION then Inl ContainerError
          else if vh_version found \<noteq> V1_FORMAT_VERSION then Inl ContainerError
          else Inr found)"

definition manifest_copy_len :: "('m \<Rightarrow> int option) \<Rightarrow> 'm \<Rightarrow> int result" where
  "manifest_copy_len copy_len_field manifest =
     (case copy_len_field manifest of
        None \<Rightarrow> Inl ContainerError
      | Some len \<Rightarrow> if len < 0 then Inl ContainerError else Inr len)"

definition complete_copy :: "bytes \<Rightarrow> int \<Rightarrow> int \<Rightarrow> bytes option" where
  "complete_copy data offset len =
     (let candidate = py_range data offset (offset + len)
      in if int (length candidate) = len then Some candidate else None)"

definition copy_offsets ::
  "hash16 \<Rightarrow> (bytes \<Rightarrow> 'm option) \<Rightarrow> ('m \<Rightarrow> int option) \<Rightarrow> bytes \<Rightarrow> (int \<times> int \<times> int) result" where
  "copy_offsets h16 decode_manifest copy_len_field data =
     and_then (resolve_v1 h16 decode_manifest data) (\<lambda>found.
     and_then (manifest_copy_len copy_len_field (the (vh_manifest found))) (\<lambda>len.
       let a = int V1_HEADER_SIZE + 2 * int (h_manifest_len (the (vh_header found)))
       in Inr (a, a + len, len)))"

definition read_container ::
  "hash16 \<Rightarrow> (bytes \<Rightarrow> 'm option) \<Rightarrow> ('m \<Rightarrow> int option) \<Rightarrow> bytes \<Rightarrow>
   ('m \<times> bytes option \<times> bytes option) result" where
  "read_container h16 decode_manifest copy_len_field data =
     and_then (resolve_v1 h16 decode_manifest data) (\<lambda>found.
     let manifest = the (vh_manifest found)
     in and_then (manifest_copy_len copy_len_field manifest) (\<lambda>len.
        let copy_a_offset = int V1_HEADER_SIZE + 2 * int (h_manifest_len (the (vh_header found)));
            copy_b_offset = copy_a_offset + len;
            copy_a = complete_copy data copy_a_offset len;
            copy_b = complete_copy data copy_b_offset len
        in if copy_a = None \<and> copy_b = None then Inl ContainerError
           else Inr (manifest, copy_a, copy_b)))"

section \<open>Lemmas\<close>

lemma struct_size_sealed_prefix [simp]: "struct_size SEALED_PREFIX = 12"
  by (simp add: SEALED_PREFIX_def)

lemma V1_HEADER_SIZE_eq [simp]: "V1_HEADER_SIZE = 64"
  by (simp add: V1_HEADER_SIZE_def HEADER_STRUCT_def)

lemma SEALED_MIN_SIZE_eq [simp]: "SEALED_MIN_SIZE = 28"
  by (simp add: SEALED_MIN_SIZE_def SEALED_CHECKSUM_SIZE_def)

lemma length_sealed_checksum [simp, byte_lens]: "length (sealed_checksum h16 x) = 16"
  by (simp add: sealed_checksum_def)

lemma read_at_nat [simp]: "read_at data (int i) (int n) = py_slice data i n"
  by (auto simp: read_at_def py_slice_def)

lemma read_at_0 [simp]: "read_at data 0 (int n) = take n data"
  using read_at_nat [of data 0 n] by (simp add: py_slice_0)

lemma seal_header_Inr:
  "seal_header h16 version body = Inr raw \<longleftrightarrow>
     1 < version \<and> version < 65536 \<and> length body \<le> 4068 \<and>
     (\<exists>prefix. prefix = MAGIC @ be_bytes 2 version @ be_bytes 2 (28 + length body) \<and>
        raw = prefix @ body @ sealed_checksum h16 (prefix @ body))"
proof -
  have "28 + length body < 65536" if "length body \<le> 4068" using that by simp
  then show ?thesis
    by (auto simp: seal_header_def Let_def SEALED_CHECKSUM_SIZE_def SEALED_MAX_SIZE_def V1_FORMAT_VERSION_def
        SEALED_PREFIX_def MAGIC_def split: if_splits)
qed

lemma seal_header_length: "seal_header h16 version body = Inr raw \<Longrightarrow> length raw = 28 + length body"
  by (auto simp: seal_header_Inr MAGIC_def)

lemma open_seal_header:
  assumes "seal_header h16 version body = Inr raw"
  shows "open_sealed_header h16 (raw @ rest) = Some (version, body)"
proof -
  let ?len = "28 + length body"
  obtain prefix where p: "prefix = MAGIC @ be_bytes 2 version @ be_bytes 2 ?len"
      "raw = prefix @ body @ sealed_checksum h16 (prefix @ body)"
      and v: "1 < version" "version < 65536" "length body \<le> 4068"
    using assms by (auto simp: seal_header_Inr)
  have lp: "length prefix = 12" by (simp add: p(1) MAGIC_def)
  define w where "w = raw @ rest"
  have fields: "struct_unpack_from SEALED_PREFIX w = Some [Raw MAGIC, Num version, Num ?len]"
    using v by (simp add: w_def struct_unpack_from_def SEALED_PREFIX_def p MAGIC_def)
  have t: "take (?len - SEALED_CHECKSUM_SIZE) w = prefix @ body"
    using lp by (simp add: w_def p(2) SEALED_CHECKSUM_SIZE_def)
  have c: "py_slice w (?len - SEALED_CHECKSUM_SIZE) SEALED_CHECKSUM_SIZE = sealed_checksum h16 (prefix @ body)"
    using lp by (simp add: w_def p(2) SEALED_CHECKSUM_SIZE_def py_slice_def)
  have "?len \<le> length w" using seal_header_length [OF assms] by (simp add: w_def)
  then have "open_sealed_header h16 w = Some (version, body)"
    using v lp unfolding open_sealed_header_def fields
    by (simp add: t c Let_def V1_FORMAT_VERSION_def SEALED_MAX_SIZE_def)
  then show ?thesis by (simp add: w_def)
qed

lemma open_sealed_header_Some:
  assumes "open_sealed_header h16 raw = Some (version, body)"
  shows "seal_header h16 version body = Inr (take (28 + length body) raw)" and "28 + length body \<le> length raw"
proof -
  obtain magic len where f: "struct_unpack_from SEALED_PREFIX raw = Some [Raw magic, Num version, Num len]"
      and m: "magic = MAGIC" "1 < version" "28 \<le> len" "len \<le> length raw" "len \<le> 4096"
      and c: "sealed_checksum h16 (take (len - 16) raw) = py_slice raw (len - 16) 16"
      and b: "body = drop 12 (take (len - 16) raw)"
    using assms
    by (auto simp: open_sealed_header_def Let_def SEALED_CHECKSUM_SIZE_def SEALED_MAX_SIZE_def V1_FORMAT_VERSION_def
        split: if_splits option.splits list.splits field_value.splits)
  have lb: "length body = len - 28" using b m by simp
  have size: "length (take 12 raw) = struct_size SEALED_PREFIX" using m by simp
  have fs: "struct_fields SEALED_PREFIX (take 12 raw) = [Raw MAGIC, Num version, Num len]"
    using f m(1) struct_fields_take [of SEALED_PREFIX raw] by (simp add: struct_unpack_from_def split: if_splits)
  have "zero_padded SEALED_PREFIX (take 12 raw)" by (simp add: SEALED_PREFIX_def)
  then have pre: "struct_pack SEALED_PREFIX [Raw MAGIC, Num version, Num len] = Some (take 12 raw)"
    using pack_struct_fields [OF size] fs by simp
  have "take (len - 16) raw = take 12 raw @ body"
  proof -
    have "min 12 (len - 16) = 12" using m by simp
    then show ?thesis using append_take_drop_id [of 12 "take (len - 16) raw"] b by (simp add: min.commute)
  qed
  moreover have "take len raw = take (len - 16) raw @ py_slice raw (len - 16) 16"
    using m by (simp add: py_slice_def flip: take_add)
  ultimately show "seal_header h16 version body = Inr (take (28 + length body) raw)"
    using m lb pre c by (simp add: seal_header_def Let_def SEALED_CHECKSUM_SIZE_def SEALED_MAX_SIZE_def V1_FORMAT_VERSION_def)
  show "28 + length body \<le> length raw" using lb m by simp
qed

lemma file_read_loop_eq:
  assumes "\<forall>p. 0 < fs_short f p" and "position + remaining \<le> length (fs_content f)"
  shows "concat (file_read_loop f position remaining) = py_slice (fs_content f) position remaining"
  using assms
proof (induction f position remaining rule: file_read_loop.induct)
  case (1 f position remaining)
  show ?case
  proof (cases "remaining = 0")
    case True
    then show ?thesis by (simp add: file_read_loop.simps py_slice_def)
  next
    case False
    define piece where "piece = file_read f position remaining"
    have len: "length piece = min remaining (fs_short f position)"
      using "1.prems" by (simp add: piece_def file_read_def)
    then have ne: "piece \<noteq> []" "length piece \<le> remaining"
      using "1.prems"(1) [rule_format, of position] False by (auto simp: min_def split: if_splits)
    have p: "piece = take (length piece) (drop position (fs_content f))"
      using len by (simp add: piece_def file_read_def)
    have loop: "file_read_loop f position remaining
        = piece # file_read_loop f (position + length piece) (remaining - length piece)"
      using False ne by (simp add: file_read_loop.simps [of f position remaining] Let_def flip: piece_def)
    have rest: "concat (file_read_loop f (position + length piece) (remaining - length piece))
        = py_slice (fs_content f) (position + length piece) (remaining - length piece)"
      using "1.IH" [OF False piece_def] ne "1.prems" by (simp flip: piece_def)
    have "take remaining (drop position (fs_content f))
        = take (length piece) (drop position (fs_content f))
          @ take (remaining - length piece) (drop (length piece) (drop position (fs_content f)))"
      using ne(2) take_add [of "length piece" "remaining - length piece" "drop position (fs_content f)"] by simp
    then show ?thesis
      using p by (simp add: loop rest py_slice_def add.commute)
  qed
qed

section \<open>Properties\<close>

text \<open>
  A file read in pieces, however short each \<^verbatim>\<open>read\<close> comes back, yields at every offset and
  length the bytes an in-memory source would, from the position the file had when it was wrapped.
\<close>

theorem file_read_at_eq:
  assumes "\<forall>p. 0 < short p" and "position \<le> length content"
  shows "file_read_at (open_file_source content position short) offset len = read_at (drop position content) offset len"
proof -
  let ?f = "open_file_source content position short" and ?size = "length content - position"
  have size: "fs_size ?f = int ?size" using assms(2) by (simp add: open_file_source_def)
  show ?thesis
  proof (cases "offset < 0 \<or> len \<le> 0 \<or> int ?size \<le> offset")
    case True
    then show ?thesis by (auto simp: file_read_at_def size read_at_def)
  next
    case False
    define i n where "i = nat offset" and "n = nat (min len (int ?size - offset))"
    have i1: "offset = int i" using False by (simp add: i_def)
    then have i: "offset = int i" "i < ?size" using False by linarith+
    have n: "n \<le> ?size - i" using i by (simp add: n_def)
    have "concat (file_read_loop ?f (position + i) n) = py_slice content (position + i) n"
      using file_read_loop_eq [of ?f "position + i" n] assms n i by (simp add: open_file_source_def)
    moreover have "py_slice (drop position content) i n = py_slice (drop position content) i (nat len)"
      using i False by (auto simp: n_def py_slice_def min_def)
    moreover have "len = int (nat len)" using False by simp
    moreover have "py_slice content (position + i) n = py_slice (drop position content) i n"
      by (simp add: py_slice_def add.commute)
    moreover have "read_at (drop position content) offset len = py_slice (drop position content) i (nat len)"
      using read_at_nat [of "drop position content" i "nat len"] i(1) False by simp
    moreover have "fs_origin ?f = position" by (simp add: open_file_source_def)
    moreover have "nat (min len (int (length content) - int position - int i)) = n"
      using i(1) assms(2) by (simp add: n_def of_nat_diff)
    ultimately show ?thesis
      using False i by (simp add: file_read_at_def size Let_def nat_add_distrib flip: n_def)
  qed
qed

theorem file_read_at_eq_witness:
  "file_read_at (open_file_source [1, 2, 3, 4, 5] 1 (\<lambda>_. 1)) 1 3 = [3, 4, 5]"
  using file_read_at_eq [of "\<lambda>_. 1" 1 "[1, 2, 3, 4, 5]" 1 3]
  by (simp add: read_at_def py_range_def py_bound_def)

text \<open>
  A sealed header opens to the version and body it was sealed with, whatever follows it, and
  whatever opens is byte for byte the header that sealing that version and body writes.
\<close>

theorem sealed_header_roundtrip:
  "(seal_header h16 version body = Inr raw \<longrightarrow> open_sealed_header h16 (raw @ rest) = Some (version, body)) \<and>
   (open_sealed_header h16 raw' = Some (version, body) \<longrightarrow>
      seal_header h16 version body = Inr (take (28 + length body) raw'))"
  using open_seal_header open_sealed_header_Some(1) by blast

theorem sealed_header_roundtrip_witness:
  "open_sealed_header (\<lambda>_ _ _. 7) (MAGIC @ [0, 2, 0, 29, 9] @ digest16 7 @ [1, 1]) = Some (2, [9])"
proof -
  have "seal_header (\<lambda>_ _ _. 7) 2 [9] = Inr (MAGIC @ [0, 2, 0, 29, 9] @ digest16 7)"
    by (simp add: seal_header_Inr sealed_checksum_def be_bytes_numeral)
  then show ?thesis using sealed_header_roundtrip [of "\<lambda>_ _ _. 7" 2 "[9]" _ "[1, 1]"] by fastforce
qed

lemma drop_length_append: "drop (length xs + i) (xs @ ys) = drop i ys"
  by simp

text \<open>
  C19: A version 1 container whose front header survives is read although one of its two manifest
  copies is damaged (in a way its hash shows): the result is the manifest, the complete first copy
  of the payload, and the second copy when the file was not cut short before its end.
\<close>

theorem read_container_survives:
  assumes data: "data = hdr @ m1 @ m2 @ payload" and hdr: "length hdr = 64" "v1_layout hdr (length data) = Some header"
    and lens: "length m1 = h_manifest_len header" "length m2 = h_manifest_len header"
    and mb: "manifest_hash h16 mb = h_manifest_hash header" "decode_manifest mb = Some m" "copy_len_field m = Some (int len)"
    and m1: "m1 = mb \<or> manifest_hash h16 m1 \<noteq> h_manifest_hash header"
    and m2: "m1 = mb \<or> m2 = mb" and len: "len \<le> length payload"
  shows "read_container h16 decode_manifest copy_len_field data
    = Inr (m, Some (take len payload), if 2 * len \<le> length payload then Some (py_slice payload len len) else None)"
proof -
  let ?L = "h_manifest_len header"
  let ?found = "\<lparr>vh_version = V1_FORMAT_VERSION, vh_offset = 0, vh_raw = hdr, vh_body = [],
    vh_header = Some header, vh_manifest = Some m\<rparr>"
  have raw: "read_at data 0 (int V1_HEADER_SIZE) = hdr" using hdr(1) by (simp add: data flip: V1_HEADER_SIZE_eq)
  have c1: "read_at data (int 64) (int ?L) = m1" unfolding read_at_nat using hdr(1) lens by (simp add: data py_slice_def)
  have c2: "read_at data (int (64 + ?L)) (int ?L) = m2" unfolding read_at_nat using hdr(1) lens by (simp add: data py_slice_def)
  have "verified_v1 h16 decode_manifest data 0 = Some ?found"
  proof (cases "manifest_hash h16 m1 = h_manifest_hash header")
    case True
    then have "m1 = mb" using m1 by blast
    then show ?thesis
      using mb lens unfolding verified_v1_def raw
      by (simp only: hdr(2) Let_def option.case V1_HEADER_SIZE_eq c1) simp
  next
    case False
    then have "m2 = mb" using m2 mb(1) by auto
    then show ?thesis
      using False mb lens unfolding verified_v1_def raw
      by (simp only: hdr(2) Let_def option.case V1_HEADER_SIZE_eq c1 c2) simp
  qed
  then have "first_verified_header h16 decode_manifest data = Some ?found"
    by (simp add: first_verified_header_def verified_headers_def List.map_filter_simps)
  then have res: "resolve_v1 h16 decode_manifest data = Inr ?found"
    by (simp add: resolve_v1_def V1_FORMAT_VERSION_def STREAM_FORMAT_VERSION_def)
  have head: "length (hdr @ m1 @ m2) = 64 + 2 * ?L" using hdr(1) lens by simp
  have slice: "py_range data (int (64 + 2 * ?L + i)) (int (64 + 2 * ?L + i) + int n) = py_slice payload i n" for i n
    using drop_length_append [of "hdr @ m1 @ m2" i payload] unfolding py_range_nat head
    by (simp add: data py_slice_def)
  have off: "64 + 2 * int ?L = int (64 + 2 * ?L + 0)" "64 + 2 * int ?L + int len = int (64 + 2 * ?L + len)"
    by simp_all
  have a: "complete_copy data (64 + 2 * int ?L) (int len) = Some (take len payload)"
    unfolding complete_copy_def off(1) slice using len by (simp add: py_slice_0)
  have b: "complete_copy data (64 + 2 * int ?L + int len) (int len)
      = (if 2 * len \<le> length payload then Some (py_slice payload len len) else None)"
    unfolding complete_copy_def off(2) slice by (auto simp: Let_def)
  show ?thesis
    using mb(3) a b by (simp add: read_container_def res manifest_copy_len_def Let_def)
qed

theorem read_container_survives_witness:
  "read_container (\<lambda>_ _ d. of_nat (be_nat d)) (\<lambda>_. Some ()) (\<lambda>_. Some 2)
     ((MAGIC @ [0, 1, 0, 0, 0, 0, 0, 0] @ be_bytes 8 64 @ be_bytes 8 1 @ be_bytes 8 65 @ be_bytes 16 1 @ replicate 8 0)
        @ [9] @ [1] @ [5, 6, 5])
   = Inr ((), Some [5, 6], None)"
proof -
  let ?hdr = "MAGIC @ [0, 1, 0, 0, 0, 0, 0, 0] @ be_bytes 8 64 @ be_bytes 8 1 @ be_bytes 8 65 @ be_bytes 16 1 @ replicate 8 0"
  let ?h = "\<lparr>h_version = 1, h_flags = 0, h_block_size = 0, h_manifest_offset = 64, h_manifest_len = 1,
    h_manifest_dup_offset = 65, h_manifest_hash = be_bytes 16 1\<rparr>"
  have len: "length ?hdr = 64" by (simp add: MAGIC_def)
  have "struct_unpack HEADER_STRUCT ?hdr
      = Some [Raw MAGIC, Num 1, Num 0, Num 0, Num 64, Num 1, Num 65, Raw (be_bytes 16 1)]"
  proof (rule struct_unpack_pack)
    show "struct_pack HEADER_STRUCT [Raw MAGIC, Num 1, Num 0, Num 0, Num 64, Num 1, Num 65, Raw (be_bytes 16 1)] = Some ?hdr"
      by (simp add: HEADER_STRUCT_def MAGIC_def be_bytes_numeral)
  qed (simp add: HEADER_STRUCT_def MAGIC_def)
  then have "v1_layout ?hdr n = Some ?h" if "65 \<le> n" for n
    using that len by (simp add: v1_layout_def parse_v1_header_def V1_FORMAT_VERSION_def del: append_assoc append.simps)
  moreover have "65 \<le> length (?hdr @ [9] @ [1] @ [5, 6, 5])" by (simp add: MAGIC_def)
  ultimately have lay: "v1_layout ?hdr (length (?hdr @ [9] @ [1] @ [5, 6, 5])) = Some ?h" by blast
  have one: "manifest_hash (\<lambda>_ _ d. of_nat (be_nat d)) [9] = be_bytes 16 9"
      "manifest_hash (\<lambda>_ _ d. of_nat (be_nat d)) [1] = be_bytes 16 1"
    by (simp_all add: manifest_hash_def digest16_def be_nat_def)
  have "be_bytes 16 9 \<noteq> be_bytes 16 1" by (simp add: be_bytes_numeral)
  then show ?thesis
    using read_container_survives [OF refl len lay, of "\<lambda>_ _ d. of_nat (be_nat d)" "[1]" "\<lambda>_. Some ()" "()" "\<lambda>_. Some 2" 2] one
    by (simp add: numeral_2_eq_2)
qed

end
