(* ===== verification/StreamLayout.thy ===== *)
theory StreamLayout
  imports Crypto ContainerFormat RSRepair
begin

text \<open>
  The layout of version 2 containers, the first part of \<^verbatim>\<open>src/dbs/container/stream.py\<close>: limits on the
  layout, sizes, the header and the trailer as records packed into bytes, the tags of slots, and the
  schedule that places the two copies of every block. The locale \<open>fixed_record\<close> is interpreted on the
  header, the trailer and the descriptor of a block.
\<close>

section \<open>Constants and limits\<close>

definition DEFAULT_INTERLEAVE :: nat where "DEFAULT_INTERLEAVE = 64"
definition MIN_BLOCK_SIZE :: nat where "MIN_BLOCK_SIZE = 512"
definition MAX_BLOCK_SIZE :: nat where "MAX_BLOCK_SIZE = 16 * 1024 * 1024"
definition MIN_NSYM :: nat where "MIN_NSYM = 2"
definition MAX_NSYM :: nat where "MAX_NSYM = 128"
definition MAX_INTERLEAVE :: nat where "MAX_INTERLEAVE = 4096"
definition MAX_WINDOW_BYTES :: nat where "MAX_WINDOW_BYTES = 64 * 1024 * 1024"
definition MAX_BLOCKS :: nat where "MAX_BLOCKS = MAX_CHUNKS - 1"
definition BATCH_BLOCKS :: nat where "BATCH_BLOCKS = 16"
definition READ_BATCH_SLOTS :: nat where "READ_BATCH_SLOTS = 16"
definition SCAN_BATCH_BLOCKS :: nat where "SCAN_BATCH_BLOCKS = 256"
definition CONTAINER_ID_LENGTH :: nat where "CONTAINER_ID_LENGTH = 16"
definition SLOT_TAG_SIZE :: nat where "SLOT_TAG_SIZE = 16"

definition DESCRIPTOR :: "field_code list" where "DESCRIPTOR = [FU 8, FU 4, FU 1, FX 3]"
definition FINAL_FLAG :: nat where "FINAL_FLAG = 1"
definition CHUNK_OVERHEAD :: nat where "CHUNK_OVERHEAD = struct_size DESCRIPTOR + TAG_LENGTH"

definition HEADER_BODY :: "field_code list" where
  "HEADER_BODY = [FU 2, FU 2, FU 4, FU 4, FU 4, FU 4, FU 2, FU 2, FS 16, FS 16, FS 7, FX 1, FS 12, FS 48]"

definition HEADER_PAD_OFFSET :: nat where
  "HEADER_PAD_OFFSET = struct_size [FU 2, FU 2, FU 4, FU 4, FU 4, FU 4, FU 2, FU 2, FS 16, FS 16, FS 7]"

definition HEADER_SIZE :: nat where
  "HEADER_SIZE = struct_size SEALED_PREFIX + struct_size HEADER_BODY + SEALED_CHECKSUM_SIZE"

definition KEY_BINDING_SIZE :: nat where
  "KEY_BINDING_SIZE = struct_size HEADER_BODY - NONCE_LENGTH - WRAPPED_KEY_LENGTH"

definition TRAILER_MARKER :: bytes where "TRAILER_MARKER = [68, 66, 83, 69, 78, 68, 48, 50]"

definition TRAILER_BODY :: "field_code list" where
  "TRAILER_BODY = [FS 8, FU 2, FU 2, FS 16, FU 8, FU 8, FU 4, FX 4, FS 32]"

definition TRAILER_SIZE :: nat where "TRAILER_SIZE = struct_size TRAILER_BODY + SEALED_CHECKSUM_SIZE"

definition SLOT_PERSON :: bytes where
  "SLOT_PERSON = [100, 98, 115, 47, 118, 50, 45, 115, 108, 111, 116]"

definition DIGEST_PERSON :: bytes where
  "DIGEST_PERSON = [100, 98, 115, 47, 118, 50, 45, 98, 108, 111, 99, 107, 115]"

definition TRAILER_PERSON :: bytes where
  "TRAILER_PERSON = [100, 98, 115, 47, 118, 50, 45, 116, 114, 97, 105, 108, 101, 114]"

datatype layout_fault = BlockSizeOutside | NsymOutside | InterleaveOutside | WindowTooLarge

definition layout_problem :: "int \<Rightarrow> int \<Rightarrow> int \<Rightarrow> layout_fault option" where
  "layout_problem block_size nsym interleave =
     (if \<not> (int MIN_BLOCK_SIZE \<le> block_size \<and> block_size \<le> int MAX_BLOCK_SIZE) then Some BlockSizeOutside
      else if \<not> (int MIN_NSYM \<le> nsym \<and> nsym \<le> int MAX_NSYM) then Some NsymOutside
      else if \<not> (1 \<le> interleave \<and> interleave \<le> int MAX_INTERLEAVE) then Some InterleaveOutside
      else let window = interleave * int (encoded_length (nat block_size) (nat nsym) + SLOT_TAG_SIZE)
           in if int MAX_WINDOW_BYTES < window then Some WindowTooLarge else None)"

section \<open>The layout\<close>

record stream_layout =
  block_size :: nat
  nsym :: nat
  interleave :: nat

definition encoded_size :: "stream_layout \<Rightarrow> nat" where
  "encoded_size l = encoded_length (block_size l) (nsym l)"

definition slot_size :: "stream_layout \<Rightarrow> nat" where
  "slot_size l = encoded_size l + SLOT_TAG_SIZE"

definition chunk_capacity :: "stream_layout \<Rightarrow> nat" where
  "chunk_capacity l = block_size l - CHUNK_OVERHEAD"

definition max_chunk_len :: "stream_layout \<Rightarrow> nat" where
  "max_chunk_len l = block_size l - struct_size DESCRIPTOR"

definition container_size :: "stream_layout \<Rightarrow> nat \<Rightarrow> nat" where
  "container_size l blocks = 2 * HEADER_SIZE + 2 * TRAILER_SIZE + 2 * blocks * slot_size l"

definition burst_tolerance :: "stream_layout \<Rightarrow> nat \<Rightarrow> nat" where
  "burst_tolerance l blocks =
     nat (max (if interleave l < blocks then int (interleave l) else int blocks - 1) 0) * slot_size l"

definition layout_ok :: "stream_layout \<Rightarrow> bool" where
  "layout_ok l \<longleftrightarrow> layout_problem (int (block_size l)) (int (nsym l)) (int (interleave l)) = None"

section \<open>The header\<close>

record stream_header =
  sh_flags :: nat
  sh_layout :: stream_layout
  sh_kdf_params :: kdf_params
  sh_salt :: bytes
  sh_container_id :: bytes
  sh_nonce_prefix :: bytes
  sh_wrap_nonce :: bytes
  sh_wrapped_key :: bytes

definition pack_body :: "stream_header \<Rightarrow> bytes result" where
  "pack_body h =
     (let l = sh_layout h; p = sh_kdf_params h
      in if time_cost p < 0 \<or> memory_cost p < 0 \<or> parallelism p < 0 then Inl StructError
         else case struct_pack HEADER_BODY
                [Num (sh_flags h), Num (nsym l), Num (block_size l), Num (interleave l),
                 Num (nat (time_cost p)), Num (nat (memory_cost p)), Num (nat (parallelism p)), Num 0,
                 Raw (sh_salt h), Raw (sh_container_id h), Raw (sh_nonce_prefix h),
                 Raw (sh_wrap_nonce h), Raw (sh_wrapped_key h)] of
                None \<Rightarrow> Inl StructError
              | Some body \<Rightarrow> Inr body)"

definition key_binding :: "stream_header \<Rightarrow> bytes result" where
  "key_binding h = and_then (pack_body h) (\<lambda>body. Inr (take KEY_BINDING_SIZE body))"

definition header_seal :: "hash16 \<Rightarrow> stream_header \<Rightarrow> bytes result" where
  "header_seal h16 h = and_then (pack_body h) (seal_header h16 STREAM_FORMAT_VERSION)"

definition header_parse :: "bytes \<Rightarrow> stream_header result" where
  "header_parse body =
     (case struct_unpack HEADER_BODY body of
        Some [Num flags, Num ns, Num bs, Num il, Num tc, Num mc, Num par, Num reserved,
              Raw salt, Raw container_id, Raw nonce_prefix, Raw wrap_nonce, Raw wrapped_key] \<Rightarrow>
          if reserved \<noteq> 0 \<or> body ! HEADER_PAD_OFFSET \<noteq> 0 then Inl ContainerError
          else if layout_problem (int bs) (int ns) (int il) \<noteq> None then Inl ContainerError
          else let params = \<lparr>time_cost = int tc, memory_cost = int mc, parallelism = int par,
                             key_length = int KEY_LENGTH\<rparr>
               in and_then (catching CryptoError (Inl ContainerError) (validate_untrusted params)) (\<lambda>_.
                    Inr \<lparr>sh_flags = flags, sh_layout = \<lparr>block_size = bs, nsym = ns, interleave = il\<rparr>,
                         sh_kdf_params = params, sh_salt = salt, sh_container_id = container_id,
                         sh_nonce_prefix = nonce_prefix, sh_wrap_nonce = wrap_nonce,
                         sh_wrapped_key = wrapped_key\<rparr>)
      | _ \<Rightarrow> Inl ContainerError)"

section \<open>The trailer\<close>

definition trailer_checksum :: "hash16 \<Rightarrow> bytes \<Rightarrow> bytes" where
  "trailer_checksum h16 body = digest16 (h16 TRAILER_PERSON [] body)"

record stream_trailer =
  tr_container_id :: bytes
  tr_blocks :: nat
  tr_plaintext_bytes :: nat
  tr_final_chunk_len :: nat
  tr_blocks_digest :: bytes

definition trailer_seal :: "hash16 \<Rightarrow> stream_trailer \<Rightarrow> bytes result" where
  "trailer_seal h16 t =
     (case struct_pack TRAILER_BODY
             [Raw TRAILER_MARKER, Num STREAM_FORMAT_VERSION, Num TRAILER_SIZE, Raw (tr_container_id t),
              Num (tr_blocks t), Num (tr_plaintext_bytes t), Num (tr_final_chunk_len t),
              Raw (tr_blocks_digest t)] of
        None \<Rightarrow> Inl StructError
      | Some body \<Rightarrow> Inr (body @ trailer_checksum h16 body))"

definition trailer_open :: "hash16 \<Rightarrow> stream_header \<Rightarrow> bytes \<Rightarrow> stream_trailer option" where
  "trailer_open h16 header raw =
     (if length raw \<noteq> TRAILER_SIZE then None
      else let body = take (struct_size TRAILER_BODY) raw
           in if trailer_checksum h16 body \<noteq> drop (struct_size TRAILER_BODY) raw then None
              else case struct_unpack TRAILER_BODY body of
                Some [Raw marker, Num version, Num len, Raw container_id, Num blocks, Num plaintext_bytes,
                      Num final_len, Raw digest] \<Rightarrow>
                  let layout = sh_layout header
                  in if marker \<noteq> TRAILER_MARKER \<or> version \<noteq> STREAM_FORMAT_VERSION \<or> len \<noteq> TRAILER_SIZE then None
                     else if container_id \<noteq> sh_container_id header \<or> py_slice body 48 4 \<noteq> replicate 4 0 then None
                     else if \<not> (1 \<le> blocks \<and> blocks \<le> MAX_BLOCKS) then None
                     else if \<not> (TAG_LENGTH \<le> final_len \<and> final_len \<le> max_chunk_len layout) then None
                     else if plaintext_bytes \<noteq> (blocks - 1) * chunk_capacity layout + final_len - TAG_LENGTH then None
                     else Some \<lparr>tr_container_id = container_id, tr_blocks = blocks,
                                tr_plaintext_bytes = plaintext_bytes, tr_final_chunk_len = final_len,
                                tr_blocks_digest = digest\<rparr>
              | _ \<Rightarrow> None)"

section \<open>Tags and the schedule\<close>

type_synonym hash32 = "bytes \<Rightarrow> bytes \<Rightarrow> bytes \<Rightarrow> 256 word"

definition digest32 :: "256 word \<Rightarrow> bytes" where
  "digest32 d = be_bytes 32 (unat d)"

definition slot_tag :: "hash16 \<Rightarrow> bytes \<Rightarrow> bytes \<Rightarrow> bytes" where
  "slot_tag h16 container_id encoded = digest16 (h16 SLOT_PERSON container_id encoded)"

definition blocks_digest :: "hash32 \<Rightarrow> bytes \<Rightarrow> bytes \<Rightarrow> bytes" where
  "blocks_digest h32 container_id tags = digest32 (h32 DIGEST_PERSON container_id tags)"

definition first_copy_position :: "nat \<Rightarrow> nat \<Rightarrow> nat" where
  "first_copy_position index il = (if index < il then index else 2 * index - il)"

fun schedule_from :: "nat \<Rightarrow> nat \<Rightarrow> nat list \<Rightarrow> nat \<Rightarrow> (nat \<times> nat \<times> bool) list" where
  "schedule_from blocks il [] position = []"
| "schedule_from blocks il (step # steps) position =
     (let first = (if step < blocks then [(position, step, True)] else []);
          position = position + length first;
          second = (if il \<le> step then [(position, step - il, False)] else [])
      in first @ second @ schedule_from blocks il steps (position + length second))"

definition schedule :: "nat \<Rightarrow> nat \<Rightarrow> (nat \<times> nat \<times> bool) list" where
  "schedule blocks il = schedule_from blocks il [0..<blocks + il] 0"

section \<open>The records as bytes\<close>

lemma stream_sizes [simp]:
  "struct_size DESCRIPTOR = 16" "CHUNK_OVERHEAD = 32" "struct_size HEADER_BODY = 124" "HEADER_PAD_OFFSET = 63"
  "HEADER_SIZE = 152" "KEY_BINDING_SIZE = 64" "struct_size TRAILER_BODY = 84" "TRAILER_SIZE = 100"
  by (simp_all add: DESCRIPTOR_def CHUNK_OVERHEAD_def TAG_LENGTH_def HEADER_BODY_def HEADER_PAD_OFFSET_def
      HEADER_SIZE_def KEY_BINDING_SIZE_def NONCE_LENGTH_def WRAPPED_KEY_LENGTH_def KEY_LENGTH_def
      TRAILER_BODY_def TRAILER_SIZE_def SEALED_CHECKSUM_SIZE_def)

definition header_fields :: "stream_header \<Rightarrow> field_value list" where
  "header_fields h = [Num (sh_flags h), Num (nsym (sh_layout h)), Num (block_size (sh_layout h)),
     Num (interleave (sh_layout h)), Num (nat (time_cost (sh_kdf_params h))),
     Num (nat (memory_cost (sh_kdf_params h))), Num (nat (parallelism (sh_kdf_params h))), Num 0,
     Raw (sh_salt h), Raw (sh_container_id h), Raw (sh_nonce_prefix h), Raw (sh_wrap_nonce h),
     Raw (sh_wrapped_key h)]"

definition header_ok :: "stream_header \<Rightarrow> bool" where
  "header_ok h \<longleftrightarrow> sh_flags h < 65536 \<and> layout_ok (sh_layout h) \<and>
     validate_untrusted (sh_kdf_params h) = Inr () \<and>
     length (sh_salt h) = SALT_LENGTH \<and> length (sh_container_id h) = CONTAINER_ID_LENGTH \<and>
     length (sh_nonce_prefix h) = NONCE_PREFIX_LENGTH \<and> length (sh_wrap_nonce h) = NONCE_LENGTH \<and>
     length (sh_wrapped_key h) = WRAPPED_KEY_LENGTH"

lemma layout_okD:
  assumes "layout_ok l"
  shows "512 \<le> block_size l" "block_size l \<le> 16777216" "2 \<le> nsym l" "nsym l \<le> 128"
    "1 \<le> interleave l" "interleave l \<le> 4096"
  using assms
  by (auto simp: layout_ok_def layout_problem_def MIN_BLOCK_SIZE_def MAX_BLOCK_SIZE_def MIN_NSYM_def MAX_NSYM_def
      MAX_INTERLEAVE_def split: if_splits)

lemma layout_check_nsym: "layout_ok l \<Longrightarrow> check_nsym (nsym l)"
  using layout_okD [of l] by (simp add: check_nsym_bounds)

lemma validate_untrustedD:
  assumes "validate_untrusted p = Inr ()"
  shows "1 \<le> time_cost p" "time_cost p \<le> 10" "8 \<le> memory_cost p" "memory_cost p \<le> 262144"
    "1 \<le> parallelism p" "parallelism p \<le> 16" "key_length p = 32"
  using assms
  by (auto simp: validate_untrusted_def kdf_validate_def UNTRUSTED_MAX_TIME_COST_def UNTRUSTED_MAX_MEMORY_COST_def
      UNTRUSTED_MAX_PARALLELISM_def KEY_LENGTH_def split: if_splits)

lemma header_fits: "header_ok h \<Longrightarrow> fits HEADER_BODY (header_fields h)"
  using layout_okD [of "sh_layout h"] validate_untrustedD [of "sh_kdf_params h"]
  by (simp add: header_ok_def header_fields_def HEADER_BODY_def SALT_LENGTH_def CONTAINER_ID_LENGTH_def
      NONCE_PREFIX_LENGTH_def NONCE_LENGTH_def WRAPPED_KEY_LENGTH_def KEY_LENGTH_def TAG_LENGTH_def nat_less_iff)

lemma pack_body_eq:
  "header_ok h \<Longrightarrow> pack_body h = (case struct_pack HEADER_BODY (header_fields h) of None \<Rightarrow> Inl StructError | Some b \<Rightarrow> Inr b)"
  using validate_untrustedD [of "sh_kdf_params h"]
  by (simp add: pack_body_def Let_def header_fields_def header_ok_def)

lemma pack_body_total:
  assumes "header_ok h"
  obtains body where "pack_body h = Inr body" "struct_pack HEADER_BODY (header_fields h) = Some body" "length body = 124"
proof -
  obtain body where b: "struct_pack HEADER_BODY (header_fields h) = Some body"
    using struct_pack_fits [OF header_fits [OF assms]] by blast
  show ?thesis
    by (rule that [OF _ b]) (use struct_pack_length [OF b] assms b in \<open>simp_all add: pack_body_eq\<close>)
qed

lemma zero_padded_header:
  "length body = 124 \<Longrightarrow> zero_padded HEADER_BODY body \<longleftrightarrow> body ! HEADER_PAD_OFFSET = 0"
  by (simp add: HEADER_BODY_def take_Suc_conv_app_nth)

lemma kdf_params_eta:
  "\<lparr>time_cost = time_cost p, memory_cost = memory_cost p, parallelism = parallelism p, key_length = key_length p\<rparr> = p"
  by simp

lemma header_parse_pack:
  assumes "header_ok h" and "pack_body h = Inr body"
  shows "header_parse body = Inr h"
proof -
  obtain b where "pack_body h = Inr b" and p: "struct_pack HEADER_BODY (header_fields h) = Some b" and l: "length b = 124"
    using assms(1) by (rule pack_body_total)
  then have body: "body = b" using assms(2) by simp
  have f: "fits HEADER_BODY (header_fields h)" by (rule header_fits [OF assms(1)])
  have u: "struct_unpack HEADER_BODY body = Some (header_fields h)"
    using struct_unpack_pack [OF f p] by (simp add: body)
  have z: "body ! 63 = 0"
    using zero_padded_pack [OF f p, of "[]"] zero_padded_header [OF l] by (simp add: body)
  have lo: "layout_problem (int (block_size (sh_layout h))) (int (nsym (sh_layout h))) (int (interleave (sh_layout h))) = None"
    using assms(1) by (simp add: header_ok_def layout_ok_def)
  have K: "0 \<le> time_cost (sh_kdf_params h)" "0 \<le> memory_cost (sh_kdf_params h)" "0 \<le> parallelism (sh_kdf_params h)"
      "int KEY_LENGTH = key_length (sh_kdf_params h)"
    using validate_untrustedD [of "sh_kdf_params h"] assms(1) by (simp_all add: header_ok_def KEY_LENGTH_def)
  show ?thesis
    using assms(1) unfolding header_parse_def u
    by (simp add: header_fields_def z lo K kdf_params_eta Let_def header_ok_def)
qed

lemma header_parse_Inr:
  assumes "header_parse body = Inr h"
  shows "header_ok h" and "pack_body h = Inr body"
proof -
  have l: "length body = 124"
    using assms by (auto simp: header_parse_def struct_unpack_def split: option.splits if_splits)
  have fits: "fits HEADER_BODY (struct_fields HEADER_BODY body)" by (rule fits_struct_fields) (simp add: l)
  have z: "zero_padded HEADER_BODY body"
    using assms l by (auto simp: zero_padded_header header_parse_def split: option.splits list.splits field_value.splits if_splits)
  have packed: "struct_pack HEADER_BODY (struct_fields HEADER_BODY body) = Some body"
    by (rule pack_struct_fields) (simp_all add: l z)
  have fs: "struct_fields HEADER_BODY body = header_fields h \<and> layout_ok (sh_layout h) \<and>
      validate_untrusted (sh_kdf_params h) = Inr ()"
    using assms l
    by (auto simp: header_parse_def struct_unpack_def header_fields_def layout_ok_def Let_def catching_def
        split: option.splits list.splits field_value.splits if_splits sum.splits)
  show ok: "header_ok h"
    using fs fits by (simp add: header_ok_def header_fields_def HEADER_BODY_def SALT_LENGTH_def CONTAINER_ID_LENGTH_def
      NONCE_PREFIX_LENGTH_def NONCE_LENGTH_def WRAPPED_KEY_LENGTH_def KEY_LENGTH_def TAG_LENGTH_def)
  show "pack_body h = Inr body" using packed fs ok by (simp add: pack_body_eq)
qed

text \<open>Reading one stored copy of the header, as \<^verbatim>\<open>_locate_header\<close> does.\<close>

definition header_put :: "hash16 \<Rightarrow> stream_header \<Rightarrow> bytes option" where
  "header_put h16 h = (case header_seal h16 h of Inl _ \<Rightarrow> None | Inr raw \<Rightarrow> Some raw)"

definition header_get :: "hash16 \<Rightarrow> bytes \<Rightarrow> stream_header option" where
  "header_get h16 raw =
     (if length raw \<noteq> HEADER_SIZE then None
      else case open_sealed_header h16 raw of
             None \<Rightarrow> None
           | Some (version, body) \<Rightarrow>
               if version \<noteq> STREAM_FORMAT_VERSION then None
               else (case header_parse body of Inl _ \<Rightarrow> None | Inr h \<Rightarrow> Some h))"

lemma header_seal_Inr:
  assumes "header_ok h"
  obtains raw body where "header_seal h16 h = Inr raw" "pack_body h = Inr body" "length raw = 152"
    "\<And>rest. open_sealed_header h16 (raw @ rest) = Some (STREAM_FORMAT_VERSION, body)"
proof -
  obtain body where b: "pack_body h = Inr body" "length body = 124" using assms by (rule pack_body_total)
  obtain raw where r: "seal_header h16 STREAM_FORMAT_VERSION body = Inr raw"
    using b(2) by (auto simp: seal_header_Inr STREAM_FORMAT_VERSION_def)
  show ?thesis
    by (rule that [of raw body])
      (use b r seal_header_length [OF r] open_seal_header [OF r] in \<open>simp_all add: header_seal_def\<close>)
qed

interpretation stream_header: fixed_record header_ok "header_put h16" "header_get h16" HEADER_SIZE for h16
proof
  fix h :: stream_header and raw :: bytes
  show "\<exists>raw. header_put h16 h = Some raw" if "header_ok h"
    using that by (rule header_seal_Inr [of h h16]) (simp add: header_put_def)
  show "length raw = HEADER_SIZE" if put: "header_put h16 h = Some raw"
  proof -
    obtain body where b: "pack_body h = Inr body" "seal_header h16 STREAM_FORMAT_VERSION body = Inr raw"
      using put by (auto simp: header_put_def header_seal_def split: sum.splits)
    have "length body = 124"
      using b(1) struct_pack_length by (fastforce simp: pack_body_def Let_def split: if_splits option.splits)
    then show ?thesis using seal_header_length [OF b(2)] by simp
  qed
  show "header_get h16 raw = Some h" if ok: "header_ok h" and put: "header_put h16 h = Some raw"
  proof -
    obtain raw' body where r: "header_seal h16 h = Inr raw'" "pack_body h = Inr body" "length raw' = 152"
        "\<And>rest. open_sealed_header h16 (raw' @ rest) = Some (STREAM_FORMAT_VERSION, body)"
      by (rule header_seal_Inr [OF ok, of h16]) blast
    have "raw = raw'" using put r(1) by (simp add: header_put_def)
    then show ?thesis
      using r(3) r(4) [of "[]"] header_parse_pack [OF ok r(2)] by (simp add: header_get_def)
  qed
  show "header_put h16 h = Some raw" if get: "header_get h16 raw = Some h"
  proof -
    obtain body where g: "length raw = 152" "open_sealed_header h16 raw = Some (STREAM_FORMAT_VERSION, body)"
        "header_parse body = Inr h"
      using get by (auto simp: header_get_def split: if_splits option.splits sum.splits)
    note P = header_parse_Inr [OF g(3)]
    obtain b where "pack_body h = Inr b" "length b = 124" using P(1) by (rule pack_body_total)
    then have "length body = 124" using P(2) by simp
    then show ?thesis
      using open_sealed_header_Some(1) [OF g(2)] g(1) P(2) by (simp add: header_put_def header_seal_def)
  qed
qed

text \<open>The trailer, read against the header it belongs to.\<close>

definition trailer_ok :: "stream_header \<Rightarrow> stream_trailer \<Rightarrow> bool" where
  "trailer_ok header t \<longleftrightarrow> header_ok header \<and> tr_container_id t = sh_container_id header \<and>
     1 \<le> tr_blocks t \<and> tr_blocks t \<le> MAX_BLOCKS \<and>
     TAG_LENGTH \<le> tr_final_chunk_len t \<and> tr_final_chunk_len t \<le> max_chunk_len (sh_layout header) \<and>
     tr_plaintext_bytes t
       = (tr_blocks t - 1) * chunk_capacity (sh_layout header) + tr_final_chunk_len t - TAG_LENGTH \<and>
     length (tr_blocks_digest t) = 32"

definition trailer_fields :: "stream_trailer \<Rightarrow> field_value list" where
  "trailer_fields t = [Raw TRAILER_MARKER, Num STREAM_FORMAT_VERSION, Num TRAILER_SIZE, Raw (tr_container_id t),
     Num (tr_blocks t), Num (tr_plaintext_bytes t), Num (tr_final_chunk_len t), Raw (tr_blocks_digest t)]"

definition trailer_put :: "hash16 \<Rightarrow> stream_trailer \<Rightarrow> bytes option" where
  "trailer_put h16 t = (case trailer_seal h16 t of Inl _ \<Rightarrow> None | Inr raw \<Rightarrow> Some raw)"

lemma trailer_fits:
  assumes "trailer_ok header t"
  shows "fits TRAILER_BODY (trailer_fields t)"
proof -
  let ?l = "sh_layout header"
  have ok: "layout_ok ?l" using assms by (simp add: trailer_ok_def header_ok_def)
  note L = layout_okD [OF ok]
  have blocks: "tr_blocks t - 1 \<le> 2 ^ 32" and final: "tr_final_chunk_len t \<le> 2 ^ 24"
    using assms L(2) by (auto simp: trailer_ok_def MAX_BLOCKS_def MAX_CHUNKS_def max_chunk_len_def)
  have cap: "chunk_capacity ?l \<le> 2 ^ 24" using L(2) by (simp add: chunk_capacity_def)
  have "(tr_blocks t - 1) * chunk_capacity ?l \<le> 2 ^ 32 * 2 ^ 24" by (rule mult_le_mono [OF blocks cap])
  then have "tr_plaintext_bytes t < 256 ^ 8" using assms final by (simp add: trailer_ok_def)
  moreover have "tr_blocks t < 256 ^ 8" using blocks by simp
  moreover have "tr_final_chunk_len t < 256 ^ 4" using final by simp
  ultimately show ?thesis
    using assms by (simp add: trailer_fields_def TRAILER_BODY_def trailer_ok_def header_ok_def TRAILER_MARKER_def
        STREAM_FORMAT_VERSION_def CONTAINER_ID_LENGTH_def)
qed

lemma trailer_seal_eq:
  "trailer_seal h16 t = (case struct_pack TRAILER_BODY (trailer_fields t) of None \<Rightarrow> Inl StructError
     | Some body \<Rightarrow> Inr (body @ trailer_checksum h16 body))"
  by (simp add: trailer_seal_def trailer_fields_def)

lemma length_trailer_checksum [simp, byte_lens]: "length (trailer_checksum h16 body) = 16"
  by (simp add: trailer_checksum_def)

lemma zero_padded_trailer:
  "length body = 84 \<Longrightarrow> zero_padded TRAILER_BODY body \<longleftrightarrow> py_slice body 48 4 = replicate 4 0"
  by (simp add: TRAILER_BODY_def py_slice_def)

lemma trailer_open_seal:
  assumes ok: "trailer_ok header t" and seal: "trailer_seal h16 t = Inr raw"
  shows "trailer_open h16 header raw = Some t"
proof -
  obtain body where b: "struct_pack TRAILER_BODY (trailer_fields t) = Some body" "raw = body @ trailer_checksum h16 body"
    using seal by (auto simp: trailer_seal_eq split: option.splits)
  have l: "length body = 84" using struct_pack_length [OF b(1)] by simp
  have u: "struct_unpack TRAILER_BODY body = Some (trailer_fields t)"
    by (rule struct_unpack_pack [OF trailer_fits [OF ok] b(1)])
  have z: "py_slice body 48 4 = replicate 4 0"
    using zero_padded_pack [OF trailer_fits [OF ok] b(1), of "[]"] zero_padded_trailer [OF l] by simp
  have "\<not> (tr_blocks t < 1)" using ok by (simp add: trailer_ok_def)
  then show ?thesis
    using ok unfolding trailer_open_def
    by (simp add: b(2) l u z trailer_fields_def Let_def trailer_ok_def)
qed

lemma trailer_open_Some:
  assumes "trailer_open h16 header raw = Some t" and h: "header_ok header"
  shows "trailer_ok header t" and "trailer_seal h16 t = Inr raw"
proof -
  let ?body = "take 84 raw"
  have raw: "length raw = 100" "trailer_checksum h16 ?body = drop 84 raw"
    using assms by (auto simp: trailer_open_def Let_def split: if_splits)
  have l: "length ?body = 84" using raw(1) by simp
  have facts: "struct_fields TRAILER_BODY ?body = trailer_fields t \<and> py_slice ?body 48 4 = replicate 4 0 \<and>
      tr_container_id t = sh_container_id header \<and> 1 \<le> tr_blocks t \<and> tr_blocks t \<le> MAX_BLOCKS \<and>
      TAG_LENGTH \<le> tr_final_chunk_len t \<and> tr_final_chunk_len t \<le> max_chunk_len (sh_layout header) \<and>
      tr_plaintext_bytes t = (tr_blocks t - 1) * chunk_capacity (sh_layout header) + tr_final_chunk_len t - TAG_LENGTH"
    using assms l
    by (auto simp: trailer_open_def struct_unpack_def trailer_fields_def Let_def
        split: option.splits list.splits field_value.splits if_splits)
  have "fits TRAILER_BODY (struct_fields TRAILER_BODY ?body)" by (rule fits_struct_fields) (simp add: raw(1))
  then have "fits TRAILER_BODY (trailer_fields t)" using facts by simp
  then have "length (tr_blocks_digest t) = 32" by (simp add: trailer_fields_def TRAILER_BODY_def)
  then show "trailer_ok header t" using facts h by (simp add: trailer_ok_def)
  have "struct_pack TRAILER_BODY (struct_fields TRAILER_BODY ?body) = Some ?body"
    by (rule pack_struct_fields) (use l facts in \<open>simp_all add: zero_padded_trailer\<close>)
  then have "trailer_seal h16 t = Inr (?body @ drop 84 raw)" using facts raw(2) by (simp add: trailer_seal_eq)
  then show "trailer_seal h16 t = Inr raw" by simp
qed

lemma trailer_seal_total:
  assumes "trailer_ok header t"
  obtains raw where "trailer_seal h16 t = Inr raw" "length raw = 100" "trailer_open h16 header raw = Some t"
proof -
  obtain body where b: "struct_pack TRAILER_BODY (trailer_fields t) = Some body"
    using struct_pack_fits [OF trailer_fits [OF assms]] by blast
  then have "trailer_seal h16 t = Inr (body @ trailer_checksum h16 body)" by (simp add: trailer_seal_eq)
  moreover have "length body = 84" using struct_pack_length [OF b] by simp
  ultimately show ?thesis using that trailer_open_seal [OF assms] by simp
qed

definition trailer_get :: "hash16 \<Rightarrow> stream_header \<Rightarrow> bytes \<Rightarrow> stream_trailer option" where
  "trailer_get h16 header raw = (if header_ok header then trailer_open h16 header raw else None)"

interpretation stream_trailer: fixed_record "trailer_ok header" "trailer_put h16" "trailer_get h16 header" TRAILER_SIZE
  for h16 header
proof
  fix t :: stream_trailer and raw :: bytes
  show "\<exists>raw. trailer_put h16 t = Some raw" if "trailer_ok header t"
    using that by (rule trailer_seal_total [of header t h16]) (simp add: trailer_put_def)
  show "length raw = TRAILER_SIZE" if put: "trailer_put h16 t = Some raw"
  proof -
    obtain body where "struct_pack TRAILER_BODY (trailer_fields t) = Some body" "raw = body @ trailer_checksum h16 body"
      using put by (cases "struct_pack TRAILER_BODY (trailer_fields t)") (auto simp: trailer_put_def trailer_seal_eq)
    then show ?thesis using struct_pack_length by fastforce
  qed
  show "trailer_get h16 header raw = Some t" if "trailer_ok header t" "trailer_put h16 t = Some raw"
    using that trailer_open_seal [of header t h16 raw]
    by (auto simp: trailer_put_def trailer_get_def trailer_ok_def split: sum.splits)
  show "trailer_put h16 t = Some raw" if "trailer_get h16 header raw = Some t"
    using that trailer_open_Some(2) [of h16 header raw t]
    by (auto simp: trailer_put_def trailer_get_def split: if_splits)
qed

text \<open>The descriptor at the head of a block: its index, the length of its chunk and its flags.\<close>

definition descriptor_fields :: "bytes \<Rightarrow> (nat \<times> nat \<times> nat) option" where
  "descriptor_fields message =
     (case struct_unpack_from DESCRIPTOR message of
        Some [Num index, Num chunk_len, Num flags] \<Rightarrow> Some (index, chunk_len, flags)
      | _ \<Rightarrow> None)"

definition descriptor_put :: "nat \<times> nat \<times> nat \<Rightarrow> bytes option" where
  "descriptor_put d = (case d of (index, chunk_len, flags) \<Rightarrow> struct_pack DESCRIPTOR [Num index, Num chunk_len, Num flags])"

definition descriptor_get :: "bytes \<Rightarrow> (nat \<times> nat \<times> nat) option" where
  "descriptor_get raw = (if length raw = 16 \<and> py_slice raw 13 3 = replicate 3 0 then descriptor_fields raw else None)"

definition descriptor_fits :: "nat \<times> nat \<times> nat \<Rightarrow> bool" where
  "descriptor_fits d = (case d of (index, chunk_len, flags) \<Rightarrow> index < 256 ^ 8 \<and> chunk_len < 256 ^ 4 \<and> flags < 256)"

interpretation descriptor: fixed_record descriptor_fits descriptor_put descriptor_get "struct_size DESCRIPTOR"
proof
  fix d :: "nat \<times> nat \<times> nat" and raw :: bytes
  obtain i n f where d: "d = (i, n, f)" by (cases d)
  have fits: "descriptor_fits d \<longleftrightarrow> fits DESCRIPTOR [Num i, Num n, Num f]"
    by (simp add: d descriptor_fits_def DESCRIPTOR_def)
  show "\<exists>raw. descriptor_put d = Some raw" if "descriptor_fits d"
    using struct_pack_fits that unfolding fits by (fastforce simp: d descriptor_put_def)
  show "length raw = struct_size DESCRIPTOR" if "descriptor_put d = Some raw"
    using that struct_pack_length [of DESCRIPTOR] by (simp add: d descriptor_put_def)
  have zero: "zero_padded DESCRIPTOR raw \<longleftrightarrow> py_slice raw 13 3 = replicate 3 0"
    by (simp add: DESCRIPTOR_def py_slice_def)
  show "descriptor_get raw = Some d" if f: "descriptor_fits d" and p: "descriptor_put d = Some raw"
  proof -
    have pack: "struct_pack DESCRIPTOR [Num i, Num n, Num f] = Some raw" using p by (simp add: d descriptor_put_def)
    have "struct_fields DESCRIPTOR raw = [Num i, Num n, Num f]"
      using struct_fields_pack [OF f [unfolded fits] pack, of "[]"] by simp
    moreover have "py_slice raw 13 3 = replicate 3 0"
      using zero_padded_pack [OF f [unfolded fits] pack, of "[]"] zero by simp
    ultimately show ?thesis
      using struct_pack_length [OF pack] by (simp add: descriptor_get_def descriptor_fields_def struct_unpack_from_def d)
  qed
  show "descriptor_put d = Some raw" if "descriptor_get raw = Some d"
  proof -
    have r: "length raw = 16" "zero_padded DESCRIPTOR raw" "struct_fields DESCRIPTOR raw = [Num i, Num n, Num f]"
      using that by (auto simp: descriptor_get_def descriptor_fields_def struct_unpack_from_def zero d
          split: if_splits option.splits list.splits field_value.splits)
    then show ?thesis using pack_struct_fields [of raw DESCRIPTOR] by (simp add: d descriptor_put_def)
  qed
qed

end
