(* ===== verification/StreamSchedule.thy ===== *)
theory StreamSchedule
  imports StreamLayout
begin

text \<open>
  What the schedule of slots in \<^verbatim>\<open>src/dbs/container/stream.py\<close> guarantees: it fills the slot positions
  in order, places every block twice, and keeps the two copies of a block further apart than the
  bursts the layout promises to survive.
\<close>

section \<open>The schedule in closed form\<close>

definition second_copy_position :: "nat \<Rightarrow> nat \<Rightarrow> nat \<Rightarrow> nat" where
  "second_copy_position blocks il i = i + min blocks (i + il + 1)"

definition schedule_step :: "nat \<Rightarrow> nat \<Rightarrow> nat \<Rightarrow> (nat \<times> nat \<times> bool) list" where
  "schedule_step blocks il step =
     (if step < blocks then [(first_copy_position step il, step, True)] else []) @
     (if il \<le> step then [(second_copy_position blocks il (step - il), step - il, False)] else [])"

text \<open>The number of slots placed before a step.\<close>

definition placed :: "nat \<Rightarrow> nat \<Rightarrow> nat \<Rightarrow> nat" where
  "placed blocks il step = min step blocks + (step - il)"

lemma first_copy_placed: "step < blocks \<Longrightarrow> first_copy_position step il = placed blocks il step"
  by (auto simp: first_copy_position_def placed_def)

lemma second_copy_placed:
  "il \<le> step \<Longrightarrow> second_copy_position blocks il (step - il)
    = placed blocks il step + (if step < blocks then 1 else 0)"
  by (auto simp: second_copy_position_def placed_def min_def)

lemma placed_Suc:
  "placed blocks il (Suc step)
    = placed blocks il step + (if step < blocks then 1 else 0) + (if il \<le> step then 1 else 0)"
  by (auto simp: placed_def min_def Suc_diff_le)

lemma schedule_from_Cons:
  "schedule_from blocks il (step # steps) (placed blocks il step)
    = schedule_step blocks il step @ schedule_from blocks il steps (placed blocks il (Suc step))"
  by (simp add: Let_def schedule_step_def first_copy_placed second_copy_placed placed_Suc)

lemma schedule_from_eq:
  "schedule_from blocks il [s..<s + m] (placed blocks il s) = concat (map (schedule_step blocks il) [s..<s + m])"
proof (induction m arbitrary: s)
  case (Suc m)
  have "[s..<s + Suc m] = s # [Suc s..<Suc s + m]" by (simp only: add_Suc_shift upt_conv_Cons less_add_Suc1 flip: add_Suc_right)
  then show ?case using Suc.IH [of "Suc s"] by (simp only: schedule_from_Cons list.map concat.simps)
qed simp

lemma schedule_eq: "schedule blocks il = concat (map (schedule_step blocks il) [0..<blocks + il])"
  using schedule_from_eq [of blocks il 0 "blocks + il"] by (simp add: schedule_def placed_def)

lemma schedule_positions_upto:
  "map fst (concat (map (schedule_step blocks il) [0..<m])) = [0..<placed blocks il m]"
proof (induction m)
  case 0
  then show ?case by (simp add: placed_def)
next
  case (Suc m)
  have "map fst (schedule_step blocks il m) = [placed blocks il m..<placed blocks il (Suc m)]"
    by (auto simp: schedule_step_def first_copy_placed second_copy_placed placed_Suc)
  moreover have "placed blocks il m \<le> placed blocks il (Suc m)" by (simp add: placed_Suc)
  then have "[0..<placed blocks il (Suc m)] = [0..<placed blocks il m] @ [placed blocks il m..<placed blocks il (Suc m)]"
    by (metis le0 le_Suc_ex upt_add_eq_append)
  ultimately show ?case using Suc by simp
qed

lemma schedule_positions: "map fst (schedule blocks il) = [0..<2 * blocks]"
  by (simp add: schedule_eq schedule_positions_upto placed_def mult_2)

lemma length_schedule: "length (schedule blocks il) = 2 * blocks"
  using arg_cong [OF schedule_positions, of length blocks il] by simp

lemma schedule_nth: "p < 2 * blocks \<Longrightarrow> \<exists>i c. schedule blocks il ! p = (p, i, c)"
proof -
  assume p: "p < 2 * blocks"
  then have "map fst (schedule blocks il) ! p = p" by (simp add: schedule_positions)
  then have "fst (schedule blocks il ! p) = p" using p by (simp add: length_schedule)
  then show ?thesis by (cases "schedule blocks il ! p") auto
qed

lemma first_copy_scheduled: "i < blocks \<Longrightarrow> (first_copy_position i il, i, True) \<in> set (schedule blocks il)"
  by (force simp: schedule_eq schedule_step_def)

lemma second_copy_scheduled:
  "i < blocks \<Longrightarrow> (second_copy_position blocks il i, i, False) \<in> set (schedule blocks il)"
  by (rule set_mp [of "set (schedule_step blocks il (i + il))"])
    (auto simp: schedule_eq schedule_step_def intro!: bexI [of _ "i + il"])

lemma schedule_firsts: "map (\<lambda>(p, i, c). i) (filter (\<lambda>(p, i, c). c) (schedule blocks il)) = [0..<blocks]"
proof -
  have "map (\<lambda>(p, i, c). i) (filter (\<lambda>(p, i, c). c) (concat (map (schedule_step blocks il) [0..<m])))
      = [0..<min m blocks]" for m
    by (induction m) (auto simp: schedule_step_def min_def not_less_eq_eq dest: le_antisym)
  from this [of "blocks + il"] show ?thesis by (simp add: schedule_eq)
qed

lemma schedule_seconds: "map (\<lambda>(p, i, c). i) (filter (\<lambda>(p, i, c). \<not> c) (schedule blocks il)) = [0..<blocks]"
proof -
  have "map (\<lambda>(p, i, c). i) (filter (\<lambda>(p, i, c). \<not> c) (concat (map (schedule_step blocks il) [0..<m])))
      = [0..<m - il]" for m
    by (induction m) (auto simp: schedule_step_def Suc_diff_le)
  from this [of "blocks + il"] show ?thesis by (simp add: schedule_eq)
qed

lemma schedule_index: "(p, i, c) \<in> set (schedule blocks il) \<Longrightarrow>
    i < blocks \<and> p = (if c then first_copy_position i il else second_copy_position blocks il i)"
  by (auto simp: schedule_eq schedule_step_def split: if_splits)

lemma copies_apart:
  assumes "i < blocks" and "1 \<le> il"
  shows "first_copy_position i il + (if il < blocks then il else blocks - 1) < second_copy_position blocks il i"
  using assms by (auto simp: first_copy_position_def second_copy_position_def min_def)

lemma burst_misses_a_copy:
  assumes "1 \<le> interleave l" and "len \<le> burst_tolerance l blocks" and "i < blocks"
  shows "\<exists>p \<in> {first_copy_position i (interleave l), second_copy_position blocks (interleave l) i}.
    {HEADER_SIZE + p * slot_size l..<HEADER_SIZE + (p + 1) * slot_size l} \<inter> {start..<start + len} = {}"
proof -
  let ?S = "slot_size l" and ?il = "interleave l"
  let ?p = "first_copy_position i ?il" and ?q = "second_copy_position blocks ?il i"
  let ?d = "if ?il < blocks then ?il else blocks - 1"
  have tol: "len \<le> ?d * ?S" using assms by (simp add: burst_tolerance_def nat_diff_distrib split: if_splits)
  have "(?p + ?d + 1) * ?S \<le> ?q * ?S"
    using copies_apart [OF assms(3,1)] by (intro mult_le_mono1) simp
  then have far: "(?p + 1) * ?S + len \<le> ?q * ?S" using tol by (simp add: algebra_simps)
  show ?thesis
  proof (cases "HEADER_SIZE + (?p + 1) * ?S \<le> start")
    case True
    then show ?thesis by fastforce
  next
    case False
    then have "start + len \<le> HEADER_SIZE + ?q * ?S" using far by linarith
    then show ?thesis by fastforce
  qed
qed

section \<open>Properties\<close>

text \<open>
  The schedule emits the slots in the order of their positions, without a gap, and the first
  copies of the blocks in order and likewise the second copies: every block is placed exactly twice.
\<close>

theorem schedule_complete:
  "map fst (schedule blocks il) = [0..<2 * blocks] \<and>
   map (\<lambda>(p, i, c). i) (filter (\<lambda>(p, i, c). c) (schedule blocks il)) = [0..<blocks] \<and>
   map (\<lambda>(p, i, c). i) (filter (\<lambda>(p, i, c). \<not> c) (schedule blocks il)) = [0..<blocks]"
  by (simp add: schedule_positions schedule_firsts schedule_seconds)

text \<open>
  A burst that destroys at most \<^verbatim>\<open>burst_tolerance\<close> consecutive bytes, wherever it starts, leaves
  at least one of the two slots of every block untouched.
\<close>

theorem burst_spares_a_copy:
  assumes "1 \<le> interleave l" and "len \<le> burst_tolerance l blocks" and "i < blocks"
  shows "\<exists>p c. (p, i, c) \<in> set (schedule blocks (interleave l)) \<and>
    {HEADER_SIZE + p * slot_size l..<HEADER_SIZE + (p + 1) * slot_size l} \<inter> {start..<start + len} = {}"
  using burst_misses_a_copy [OF assms, of start] first_copy_scheduled [OF assms(3), of "interleave l"]
    second_copy_scheduled [OF assms(3), of "interleave l"] by blast

theorem burst_spares_a_copy_witness:
  "\<exists>p c. (p, 2, c) \<in> set (schedule 10 4) \<and>
    {HEADER_SIZE + p * slot_size \<lparr>block_size = 512, nsym = 16, interleave = 4\<rparr>
      ..<HEADER_SIZE + (p + 1) * slot_size \<lparr>block_size = 512, nsym = 16, interleave = 4\<rparr>} \<inter> {100..<100 + 300} = {}"
  using burst_spares_a_copy [of "\<lparr>block_size = 512, nsym = 16, interleave = 4\<rparr>" 300 10 2 100]
  by (simp add: burst_tolerance_def slot_size_def encoded_size_def encoded_length_def message_length_def
      CODEWORD_SIZE_def SLOT_TAG_SIZE_def)

end
