(* ===== verification/StreamWriter.thy ===== *)
theory StreamWriter
  imports StreamSchedule
begin

text \<open>
  \<^verbatim>\<open>StreamWriter\<close> of \<^verbatim>\<open>src/dbs/container/stream.py\<close>: cutting the written bytes into chunks, sealing a
  batch of chunks into slots, placing every slot twice through the window, and the end of the
  container. The sink, the SHA-256 state and the digest of the block tags are the bytes they were fed
  so far; what \<^verbatim>\<open>os.urandom\<close> and \<^verbatim>\<open>AESGCM.generate_key\<close> return is the record \<open>randomness\<close>.
\<close>

section \<open>State\<close>

record primitives =
  prim_h16 :: hash16
  prim_h32 :: hash32
  prim_enc :: aead_enc
  prim_dec :: aead_dec
  prim_argon2 :: argon2

record randomness =
  rnd_salt :: bytes
  rnd_container_id :: bytes
  rnd_nonce_prefix :: bytes
  rnd_data_key :: bytes
  rnd_wrap_nonce :: bytes

record stream_summary =
  ss_container_bytes :: nat
  ss_plaintext_bytes :: nat
  ss_blocks :: nat
  ss_block_size :: nat
  ss_nsym :: nat
  ss_interleave :: nat
  ss_slot_size :: nat
  ss_hashed :: bytes
  ss_correctable :: nat
  ss_burst_tolerance :: nat

record stream_writer =
  sw_header :: stream_header
  sw_data_key :: bytes
  sw_sealed_header :: bytes
  sw_workers :: nat
  sw_pool :: bool
  sw_sink :: bytes
  sw_hashed :: bytes
  sw_digest :: bytes
  sw_window :: "bytes list"
  sw_batch :: "bytes list"
  sw_pending :: bytes
  sw_next_index :: nat
  sw_plaintext_bytes :: nat
  sw_container_bytes :: nat
  sw_final_chunk_len :: nat
  sw_summary :: "stream_summary option"
  sw_closed :: bool

abbreviation sw_layout :: "stream_writer \<Rightarrow> stream_layout" where
  "sw_layout w \<equiv> sh_layout (sw_header w)"

section \<open>Emitting and placing slots\<close>

definition writer_emit :: "bytes \<Rightarrow> stream_writer \<Rightarrow> stream_writer" where
  "writer_emit data w =
     w\<lparr>sw_sink := sw_sink w @ data, sw_hashed := sw_hashed w @ data,
       sw_container_bytes := sw_container_bytes w + length data\<rparr>"

definition writer_place :: "bytes \<Rightarrow> stream_writer \<Rightarrow> stream_writer" where
  "writer_place slot w =
     (let w = writer_emit slot w;
          w = w\<lparr>sw_digest := sw_digest w @ drop (length slot - SLOT_TAG_SIZE) slot,
                sw_window := sw_window w @ [slot]\<rparr>
      in if interleave (sw_layout w) < length (sw_window w)
         then writer_emit (hd (sw_window w)) (w\<lparr>sw_window := tl (sw_window w)\<rparr>)
         else w)"

section \<open>Encoding a batch\<close>

fun encode_blocks ::
  "primitives \<Rightarrow> chunk_cipher \<Rightarrow> nat \<Rightarrow> nat option \<Rightarrow> (nat \<times> bytes) list \<Rightarrow> bytes list result" where
  "encode_blocks prim cipher bs final_index [] = Inr []"
| "encode_blocks prim cipher bs final_index ((index, chunk) # jobs) =
     (let final = (Some index = final_index)
      in and_then (chunk_seal (prim_enc prim) cipher (int index) chunk final) (\<lambda>sealed.
         case struct_pack DESCRIPTOR [Num index, Num (length sealed), Num (if final then FINAL_FLAG else 0)] of
           None \<Rightarrow> Inl StructError
         | Some descriptor \<Rightarrow>
             let block = descriptor @ sealed
             in if bs < length block then Inl ValueError
                else and_then (encode_blocks prim cipher bs final_index jobs)
                       (\<lambda>blocks. Inr ((block @ replicate (bs - length block) 0) # blocks))))"

definition writer_encode ::
  "primitives \<Rightarrow> stream_writer \<Rightarrow> nat option \<Rightarrow> (nat \<times> bytes) list \<Rightarrow> bytes list result" where
  "writer_encode prim w final_index jobs =
     and_then (ChunkCipher (sw_data_key w) (sh_nonce_prefix (sw_header w)) (sw_sealed_header w)) (\<lambda>cipher.
     and_then (encode_blocks prim cipher (block_size (sw_layout w)) final_index jobs) (\<lambda>blocks.
       Inr (map (\<lambda>encoded. encoded @ slot_tag (prim_h16 prim) (sh_container_id (sw_header w)) encoded)
              (encode_many blocks (nsym (sw_layout w))))))"

fun encode_groups ::
  "primitives \<Rightarrow> stream_writer \<Rightarrow> nat option \<Rightarrow> (nat \<times> bytes) list list \<Rightarrow> bytes list list result" where
  "encode_groups prim w final_index [] = Inr []"
| "encode_groups prim w final_index (jobs # groups) =
     and_then (writer_encode prim w final_index jobs) (\<lambda>slots.
     and_then (encode_groups prim w final_index groups) (\<lambda>rest. Inr (slots # rest)))"

definition writer_flush :: "primitives \<Rightarrow> bool \<Rightarrow> stream_writer \<Rightarrow> stream_writer result" where
  "writer_flush prim final w =
     (if sw_batch w = [] then Inr w
      else let first = sw_next_index w
           in if MAX_BLOCKS < first + length (sw_batch w) then Inl ContainerError
              else let final_index = (if final then Some (first + length (sw_batch w) - 1) else None);
                       jobs = map (\<lambda>(offset, chunk). (first + offset, chunk)) (enumerate 0 (sw_batch w));
                       w = w\<lparr>sw_batch := [], sw_next_index := sw_next_index w + length jobs\<rparr>;
                       groups = pieces BATCH_BLOCKS jobs
                   in and_then (encode_groups prim w final_index groups)
                        (\<lambda>encoded_groups. Inr (fold writer_place (concat encoded_groups) w)))"

definition writer_queue :: "primitives \<Rightarrow> bytes \<Rightarrow> stream_writer \<Rightarrow> stream_writer result" where
  "writer_queue prim chunk w =
     (let w = w\<lparr>sw_batch := sw_batch w @ [chunk]\<rparr>
      in if BATCH_BLOCKS * sw_workers w \<le> length (sw_batch w) then writer_flush prim False w else Inr w)"

section \<open>Opening, writing, closing\<close>

definition kdf_or_default :: "kdf_params option \<Rightarrow> kdf_params" where
  "kdf_or_default params = (case params of None \<Rightarrow> default_kdf_params | Some p \<Rightarrow> p)"

definition writer_init ::
  "primitives \<Rightarrow> randomness \<Rightarrow> bytes \<Rightarrow> kdf_params option \<Rightarrow> int \<Rightarrow> int \<Rightarrow> int \<Rightarrow> int option \<Rightarrow> int \<Rightarrow> stream_writer result" where
  "writer_init prim rnd passphrase kdf bs ns il workers flags =
     (if layout_problem bs ns il \<noteq> None then Inl ValueError
      else if \<not> (0 \<le> flags \<and> flags \<le> 65535) then Inl ValueError
      else let workers = (case workers of None \<Rightarrow> 1 | Some n \<Rightarrow> n)
      in if workers < 1 then Inl ValueError
      else let params = kdf_or_default kdf
      in and_then (validate_untrusted params) (\<lambda>_.
         let unwrapped = \<lparr>sh_flags = nat flags,
               sh_layout = \<lparr>block_size = nat bs, nsym = nat ns, interleave = nat il\<rparr>,
               sh_kdf_params = params, sh_salt = rnd_salt rnd, sh_container_id = rnd_container_id rnd,
               sh_nonce_prefix = rnd_nonce_prefix rnd, sh_wrap_nonce = replicate NONCE_LENGTH 0,
               sh_wrapped_key = replicate WRAPPED_KEY_LENGTH 0\<rparr>
         in and_then (derive_key (prim_argon2 prim) passphrase (rnd_salt rnd) params) (\<lambda>kek.
            and_then (key_binding unwrapped) (\<lambda>binding.
            case wrap_key (prim_enc prim) (rnd_wrap_nonce rnd) kek (rnd_data_key rnd) binding of
              (wrap_nonce, wrapped_key) \<Rightarrow>
                let header = unwrapped\<lparr>sh_wrap_nonce := wrap_nonce, sh_wrapped_key := wrapped_key\<rparr>
                in and_then (header_seal (prim_h16 prim) header) (\<lambda>sealed.
                   Inr (writer_emit sealed
                     \<lparr>sw_header = header, sw_data_key = rnd_data_key rnd, sw_sealed_header = sealed,
                      sw_workers = nat workers, sw_pool = (1 < workers), sw_sink = [], sw_hashed = [],
                      sw_digest = [], sw_window = [], sw_batch = [], sw_pending = [], sw_next_index = 0,
                      sw_plaintext_bytes = 0, sw_container_bytes = 0, sw_final_chunk_len = 0,
                      sw_summary = None, sw_closed = False\<rparr>))))))"

text \<open>
  The \<^verbatim>\<open>while size - offset > capacity\<close> loop on what is left of the view. Every accepted layout has a
  positive capacity, so the first condition never stops the loop.
\<close>

function write_loop :: "primitives \<Rightarrow> bytes \<Rightarrow> stream_writer \<Rightarrow> (bytes \<times> stream_writer) result" where
  "write_loop prim view w =
     (let capacity = chunk_capacity (sw_layout w)
      in if 0 < capacity \<and> capacity < length view
         then (case writer_queue prim (take capacity view) w of
                 Inl e \<Rightarrow> Inl e
               | Inr w' \<Rightarrow> write_loop prim (drop capacity view) w')
         else Inr (view, w))"
  by pat_completeness auto
termination
  by (relation "measure (\<lambda>(prim, view, w). length view)") auto

declare write_loop.simps [simp del]

definition writer_write :: "primitives \<Rightarrow> bytes \<Rightarrow> stream_writer \<Rightarrow> (nat \<times> stream_writer) result" where
  "writer_write prim data w =
     (if sw_closed w then Inl ValueError
      else let capacity = chunk_capacity (sw_layout w)
      in and_then
           (if sw_pending w \<noteq> [] \<and> data \<noteq> []
            then let room = capacity - length (sw_pending w);
                     pending = sw_pending w @ take room data
                 in if room < length data
                    then and_then (writer_queue prim pending (w\<lparr>sw_pending := pending\<rparr>))
                           (\<lambda>w. Inr (drop room data, w\<lparr>sw_pending := []\<rparr>))
                    else Inr ([], w\<lparr>sw_pending := pending\<rparr>)
            else Inr (data, w))
         (\<lambda>(view, w). and_then (write_loop prim view w)
         (\<lambda>(view, w). Inr (length data,
            w\<lparr>sw_pending := sw_pending w @ view, sw_plaintext_bytes := sw_plaintext_bytes w + length data\<rparr>))))"

definition writer_abort :: "stream_writer \<Rightarrow> stream_writer" where
  "writer_abort w = w\<lparr>sw_closed := True, sw_batch := [], sw_window := [], sw_pending := [], sw_pool := False\<rparr>"

definition writer_finish :: "primitives \<Rightarrow> stream_writer \<Rightarrow> stream_writer result" where
  "writer_finish prim w =
     (let final_chunk = sw_pending w;
          w = w\<lparr>sw_pending := [], sw_final_chunk_len := length final_chunk + TAG_LENGTH,
                sw_batch := sw_batch w @ [final_chunk]\<rparr>
      in and_then (writer_flush prim True w) (\<lambda>w.
         let w = (fold writer_emit (sw_window w) w)\<lparr>sw_window := []\<rparr>
         in and_then (trailer_seal (prim_h16 prim)
              \<lparr>tr_container_id = sh_container_id (sw_header w), tr_blocks = sw_next_index w,
               tr_plaintext_bytes = sw_plaintext_bytes w, tr_final_chunk_len = sw_final_chunk_len w,
               tr_blocks_digest = blocks_digest (prim_h32 prim) (sh_container_id (sw_header w)) (sw_digest w)\<rparr>)
            (\<lambda>trailer. Inr (writer_emit (sw_sealed_header w) (writer_emit trailer (writer_emit trailer w))))))"

definition writer_close :: "primitives \<Rightarrow> stream_writer \<Rightarrow> stream_summary result \<times> stream_writer" where
  "writer_close prim w =
     (case sw_summary w of
        Some summary \<Rightarrow> (Inr summary, w)
      | None \<Rightarrow>
          if sw_closed w then (Inl ValueError, w)
          else case writer_finish prim w of
                 Inl e \<Rightarrow> (Inl e, writer_abort w)
               | Inr w \<Rightarrow>
                   let l = sw_layout w;
                       summary = \<lparr>ss_container_bytes = sw_container_bytes w,
                         ss_plaintext_bytes = sw_plaintext_bytes w, ss_blocks = sw_next_index w,
                         ss_block_size = block_size l, ss_nsym = nsym l, ss_interleave = interleave l,
                         ss_slot_size = slot_size l, ss_hashed = sw_hashed w, ss_correctable = nsym l div 2,
                         ss_burst_tolerance = burst_tolerance l (sw_next_index w)\<rparr>
                   in (Inr summary, w\<lparr>sw_closed := True, sw_pool := False, sw_summary := Some summary\<rparr>))"

text \<open>Writing a sequence of pieces, as a caller's loop over \<^verbatim>\<open>write\<close> does.\<close>

fun write_all :: "primitives \<Rightarrow> bytes list \<Rightarrow> stream_writer \<Rightarrow> stream_writer result" where
  "write_all prim [] w = Inr w"
| "write_all prim (piece # rest) w = and_then (writer_write prim piece w) (\<lambda>(_, w). write_all prim rest w)"

end
