(* ===== verification/WriterCorrect.thy ===== *)
theory WriterCorrect
  imports StreamWriter
begin

text \<open>
  What \<^verbatim>\<open>StreamWriter\<close> writes. \<open>container_image\<close> is the container of a payload, as a function of the
  payload alone; the writer produces exactly these bytes whatever the sizes of the pieces it is
  given and whatever its number of workers.
\<close>

section \<open>The container of a payload\<close>

function chunks_of :: "nat \<Rightarrow> bytes \<Rightarrow> bytes list" where
  "chunks_of cap data =
     (if 0 < cap \<and> cap < length data then take cap data # chunks_of cap (drop cap data) else [data])"
  by pat_completeness auto
termination
  by (relation "measure (\<lambda>(cap, data). length data)") auto

declare chunks_of.simps [simp del]

definition nonce_of :: "stream_header \<Rightarrow> nat \<Rightarrow> bool \<Rightarrow> bytes" where
  "nonce_of h i final = sh_nonce_prefix h @ be_bytes 4 i @ [if final then 1 else 0]"

definition sealed_chunk :: "primitives \<Rightarrow> stream_header \<Rightarrow> bytes \<Rightarrow> bytes \<Rightarrow> nat \<Rightarrow> bytes \<Rightarrow> bool \<Rightarrow> bytes" where
  "sealed_chunk prim h key ad i chunk final = prim_enc prim key (nonce_of h i final) chunk ad"

definition block_of :: "primitives \<Rightarrow> stream_header \<Rightarrow> bytes \<Rightarrow> bytes \<Rightarrow> nat \<Rightarrow> bytes \<Rightarrow> bool \<Rightarrow> bytes" where
  "block_of prim h key ad i chunk final =
     (let sealed = sealed_chunk prim h key ad i chunk final
      in be_bytes 8 i @ be_bytes 4 (length sealed) @ [if final then 1 else 0] @ replicate 3 0 @ sealed @
         replicate (block_size (sh_layout h) - 16 - length sealed) 0)"

definition slot_of :: "primitives \<Rightarrow> stream_header \<Rightarrow> bytes \<Rightarrow> bytes \<Rightarrow> nat \<Rightarrow> bytes \<Rightarrow> bool \<Rightarrow> bytes" where
  "slot_of prim h key ad i chunk final =
     (let encoded = encode (block_of prim h key ad i chunk final) (nsym (sh_layout h))
      in encoded @ slot_tag (prim_h16 prim) (sh_container_id h) encoded)"

definition container_slots :: "primitives \<Rightarrow> stream_header \<Rightarrow> bytes \<Rightarrow> bytes \<Rightarrow> bytes \<Rightarrow> bytes list" where
  "container_slots prim h key ad data =
     (let chunks = chunks_of (chunk_capacity (sh_layout h)) data
      in map (\<lambda>i. slot_of prim h key ad i (chunks ! i) (Suc i = length chunks)) [0..<length chunks])"

definition slot_tags :: "bytes list \<Rightarrow> bytes" where
  "slot_tags slots = concat (map (\<lambda>slot. drop (length slot - SLOT_TAG_SIZE) slot) slots)"

definition container_trailer :: "primitives \<Rightarrow> stream_header \<Rightarrow> bytes \<Rightarrow> bytes \<Rightarrow> bytes \<Rightarrow> stream_trailer" where
  "container_trailer prim h key ad data =
     (let chunks = chunks_of (chunk_capacity (sh_layout h)) data
      in \<lparr>tr_container_id = sh_container_id h, tr_blocks = length chunks, tr_plaintext_bytes = length data,
          tr_final_chunk_len = length (last chunks) + TAG_LENGTH,
          tr_blocks_digest = blocks_digest (prim_h32 prim) (sh_container_id h)
            (slot_tags (container_slots prim h key ad data))\<rparr>)"

definition container_image :: "primitives \<Rightarrow> stream_header \<Rightarrow> bytes \<Rightarrow> bytes \<Rightarrow> bytes \<Rightarrow> bytes \<Rightarrow> bytes" where
  "container_image prim h key ad trailer data =
     (let slots = container_slots prim h key ad data
      in ad @ concat (map (\<lambda>(position, i, first). slots ! i) (schedule (length slots) (interleave (sh_layout h)))) @
         trailer @ trailer @ ad)"

section \<open>Chunks\<close>

lemma chunks_of_short: "length data \<le> cap \<Longrightarrow> chunks_of cap data = [data]"
  by (simp add: chunks_of.simps)

lemma chunks_of_long:
  "0 < cap \<Longrightarrow> cap < length data \<Longrightarrow> chunks_of cap data = take cap data # chunks_of cap (drop cap data)"
  by (subst chunks_of.simps) simp

lemma chunks_of_not_Nil [simp]: "chunks_of cap data \<noteq> []"
  by (subst chunks_of.simps) simp

lemma concat_chunks_of: "concat (chunks_of cap data) = data"
proof (induction cap data rule: chunks_of.induct)
  case (1 cap data)
  then show ?case by (simp add: chunks_of.simps [of cap data])
qed

lemma chunks_of_lengths:
  "0 < cap \<Longrightarrow> (\<forall>c \<in> set (butlast (chunks_of cap data)). length c = cap) \<and> length (last (chunks_of cap data)) \<le> cap"
proof (induction cap data rule: chunks_of.induct)
  case (1 cap data)
  show ?case
  proof (cases "cap < length data")
    case True
    define rest where "rest = chunks_of cap (drop cap data)"
    have "(\<forall>c \<in> set (butlast rest). length c = cap) \<and> length (last rest) \<le> cap"
      unfolding rest_def using True "1.prems" by (intro "1.IH") simp_all
    moreover have "chunks_of cap data = take cap data # rest"
      unfolding rest_def using "1.prems" True by (rule chunks_of_long)
    moreover have "rest \<noteq> []" by (simp add: rest_def)
    ultimately show ?thesis using True by simp
  next
    case False
    then show ?thesis by (simp add: chunks_of_short)
  qed
qed

lemma chunks_of_small:
  assumes "0 < cap" and "c \<in> set (chunks_of cap data)"
  shows "length c \<le> cap"
proof -
  have "c \<in> set (butlast (chunks_of cap data) @ [last (chunks_of cap data)])" using assms(2) by simp
  then show ?thesis
    using chunks_of_lengths [OF assms(1), of data] by (auto simp del: append_butlast_last_id)
qed

lemma chunks_of_append:
  assumes "0 < cap"
  shows "chunks_of cap (D @ data) = butlast (chunks_of cap D) @ chunks_of cap (last (chunks_of cap D) @ data)"
  using assms
proof (induction cap D rule: chunks_of.induct)
  case (1 cap D)
  show ?case
  proof (cases "cap < length D")
    case True
    have "chunks_of cap (D @ data) = take cap D # chunks_of cap (drop cap D @ data)"
      using True 1(2) by (simp add: chunks_of_long)
    then show ?thesis using True "1.IH" 1(2) by (simp add: chunks_of_long)
  next
    case False
    then show ?thesis by (simp add: chunks_of_short)
  qed
qed

section \<open>Placing slots\<close>

definition placed_out :: "nat \<Rightarrow> bytes list \<Rightarrow> bytes" where
  "placed_out k slots =
     concat (map (\<lambda>i. slots ! i @ (if k \<le> i then slots ! (i - k) else [])) [0..<length slots])"

definition with_slots :: "bytes list \<Rightarrow> stream_writer \<Rightarrow> stream_writer" where
  "with_slots slots w =
     (let k = interleave (sw_layout w); out = sw_sealed_header w @ placed_out k slots
      in w\<lparr>sw_sink := out, sw_hashed := out, sw_container_bytes := length out, sw_digest := slot_tags slots,
           sw_window := drop (length slots - k) slots\<rparr>)"

lemma placed_out_snoc:
  "placed_out k (slots @ [s]) = placed_out k slots @ s
     @ (if k \<le> length slots then (slots @ [s]) ! (length slots - k) else [])"
proof -
  have "map (\<lambda>i. (slots @ [s]) ! i @ (if k \<le> i then (slots @ [s]) ! (i - k) else [])) [0..<length slots]
      = map (\<lambda>i. slots ! i @ (if k \<le> i then slots ! (i - k) else [])) [0..<length slots]"
    by (rule map_cong) (auto simp: nth_append)
  from arg_cong [OF this, of concat] show ?thesis by (simp add: placed_out_def)
qed

lemma writer_place_with_slots:
  "writer_place s (with_slots slots w) = with_slots (slots @ [s]) w"
proof -
  let ?k = "interleave (sw_layout w)" and ?n = "length slots"
  have hd: "hd (drop (?n - ?k) slots @ [s]) = (slots @ [s]) ! (?n - ?k)"
    by (cases "?n - ?k < ?n") (simp_all add: hd_append hd_drop_conv_nth nth_append)
  have tl: "tl (drop (?n - ?k) slots @ [s]) = drop (Suc (?n - ?k)) (slots @ [s])"
  proof -
    have "drop (?n - ?k) slots @ [s] = drop (?n - ?k) (slots @ [s])" by simp
    then show ?thesis by (simp only: drop_Suc tl_drop)
  qed
  have "?k < length (drop (?n - ?k) slots @ [s]) \<longleftrightarrow> ?k \<le> ?n" by auto
  then show ?thesis
    using hd tl
    by (auto simp: writer_place_def Let_def writer_emit_def with_slots_def placed_out_snoc slot_tags_def Suc_diff_le)
qed

lemma writer_place_all: "fold writer_place ss (with_slots slots w) = with_slots (slots @ ss) w"
  by (induction ss arbitrary: slots) (simp_all add: writer_place_with_slots)

lemma concat_map_concat_map: "concat (map f (concat xss)) = concat (map (\<lambda>xs. concat (map f xs)) xss)"
  by (induction xss) simp_all

lemma placed_out_schedule:
  "placed_out k slots @ concat (drop (length slots - k) slots)
    = concat (map (\<lambda>(position, i, first). slots ! i) (schedule (length slots) k))"
proof -
  let ?n = "length slots" and ?f = "\<lambda>(position, i, first). slots ! i"
  have up: "[0..<?n + k] = [0..<?n] @ [?n..<?n + k]" by (rule upt_add_eq_append) simp
  have early: "concat (map (\<lambda>i. concat (map ?f (schedule_step ?n k i))) [0..<?n]) = placed_out k slots"
    unfolding placed_out_def
    by (rule arg_cong [where f = concat], rule map_cong) (auto simp: schedule_step_def)
  have late: "concat (map (\<lambda>i. concat (map ?f (schedule_step ?n k i))) [?n..<?n + m])
      = concat (take (m - (k - ?n)) (drop (?n - k) slots))" if "m \<le> k" for m
    using that
  proof (induction m)
    case (Suc m)
    show ?case
    proof (cases "k \<le> ?n + m")
      case True
      define d j where "d = ?n - k" and "j = m - (k - ?n)"
      have dj: "Suc m - (k - ?n) = Suc j" "?n + m - k = d + j" "j < length (drop d slots)"
        using Suc.prems True by (auto simp: d_def j_def)
      have "concat (take (Suc j) (drop d slots)) = concat (take j (drop d slots)) @ slots ! (d + j)"
        using take_Suc_conv_app_nth [OF dj(3)] dj(3) by simp
      moreover have "concat (map ?f (schedule_step ?n k (?n + m))) = slots ! (d + j)"
        using True dj(2) by (simp add: schedule_step_def)
      ultimately show ?thesis
        using Suc dj(1) by (simp flip: d_def j_def)
    next
      case False
      then show ?thesis using Suc by (simp add: schedule_step_def)
    qed
  qed simp
  have "concat (take (k - (k - ?n)) (drop (?n - k) slots)) = concat (drop (?n - k) slots)" by simp
  then show ?thesis
    using late [of k] by (simp add: schedule_eq up concat_map_concat_map early comp_def)
qed

section \<open>The setting of one stream\<close>

text \<open>
  One stream: primitives whose authenticated encryption keeps its laws, an acceptable header that
  seals to \<open>ad\<close> (the associated data of every chunk) and a data key of the right length.
\<close>

locale stream_setting =
  aead: aead_scheme "prim_enc prim" "prim_dec prim" for prim :: primitives +
  fixes h :: stream_header and key ad :: bytes
  assumes header: "header_ok h" and key: "length key = KEY_LENGTH"
    and ad: "header_seal (prim_h16 prim) h = Inr ad"
begin

abbreviation layout :: stream_layout where "layout \<equiv> sh_layout h"

lemma layout_fine: "layout_ok layout"
  using header by (simp add: header_ok_def)

lemma nsym_fine: "check_nsym (nsym layout)"
  by (rule layout_check_nsym [OF layout_fine])

lemma capacity_eq: "chunk_capacity layout + 32 = block_size layout" "480 \<le> chunk_capacity layout"
  using layout_okD [OF layout_fine] by (simp_all add: chunk_capacity_def)

lemma max_chunk_len_eq: "max_chunk_len layout = chunk_capacity layout + 16"
  using layout_okD [OF layout_fine] by (simp add: chunk_capacity_def max_chunk_len_def)

lemma length_ad: "length ad = 152"
  by (rule header_seal_Inr [OF header, of "prim_h16 prim"]) (use ad in simp)

lemma length_sealed_chunk: "length (sealed_chunk prim h key ad i c f) = length c + 16"
  by (simp add: sealed_chunk_def aead.length_enc TAG_LENGTH_def)

lemma length_block_of:
  "length c \<le> chunk_capacity layout \<Longrightarrow> length (block_of prim h key ad i c f) = block_size layout"
  using capacity_eq by (simp add: block_of_def Let_def length_sealed_chunk)

lemma length_slot_of:
  "length c \<le> chunk_capacity layout \<Longrightarrow> length (slot_of prim h key ad i c f) = slot_size layout"
  by (simp add: slot_of_def Let_def rs.length_enc [OF nsym_fine] length_block_of slot_size_def encoded_size_def
      slot_tag_def SLOT_TAG_SIZE_def)

abbreviation cipher :: chunk_cipher where
  "cipher \<equiv> \<lparr>cc_key = key, cc_prefix = sh_nonce_prefix h, cc_associated_data = ad\<rparr>"

lemma chunk_nonce_of:
  "i < MAX_CHUNKS \<Longrightarrow> chunk_nonce (sh_nonce_prefix h) (int i) f = Inr (nonce_of h i f)"
  using header by (simp add: chunk_nonce_eq nonce_of_def header_ok_def)

lemma chunk_seal_eq:
  "i < MAX_CHUNKS \<Longrightarrow> chunk_seal (prim_enc prim) cipher (int i) c f = Inr (sealed_chunk prim h key ad i c f)"
  by (simp add: chunk_seal_def chunk_nonce_of sealed_chunk_def)

lemma chunk_open_sealed:
  "i < MAX_CHUNKS \<Longrightarrow> chunk_open (prim_dec prim) cipher (int i) (sealed_chunk prim h key ad i c f) f = Inr c"
  using aead.chunks.open_seal [OF chunk_seal_eq] .

lemma descriptor_pack:
  assumes "i < MAX_CHUNKS" and "n \<le> block_size layout"
  shows "struct_pack DESCRIPTOR [Num i, Num n, Num (if f then FINAL_FLAG else 0)]
    = Some (be_bytes 8 i @ be_bytes 4 n @ [if f then 1 else 0] @ replicate 3 0)"
proof -
  have "i < 256 ^ 8" "n < 256 ^ 4"
    using assms layout_okD(2) [OF layout_fine] by (simp_all add: MAX_CHUNKS_def)
  then show ?thesis by (simp add: DESCRIPTOR_def FINAL_FLAG_def)
qed

lemma encode_blocks_eq:
  assumes "\<forall>(i, c) \<in> set jobs. i < MAX_CHUNKS \<and> length c \<le> chunk_capacity layout"
  shows "encode_blocks prim cipher (block_size layout) fi jobs
    = Inr (map (\<lambda>(i, c). block_of prim h key ad i c (Some i = fi)) jobs)"
  using assms
proof (induction jobs)
  case (Cons job jobs)
  obtain i c where job: "job = (i, c)" by (cases job)
  have i: "i < MAX_CHUNKS" and c: "length c + 32 \<le> block_size layout"
    using Cons.prems capacity_eq by (auto simp: job)
  let ?s = "sealed_chunk prim h key ad i c (Some i = fi)"
  let ?d = "be_bytes 8 i @ be_bytes 4 (length ?s) @ [if Some i = fi then 1 else 0] @ replicate 3 0 :: bytes"
  have len: "length ?s \<le> block_size layout" using c by (simp add: length_sealed_chunk)
  have fit: "\<not> block_size layout < length (?d @ ?s)" using c by (simp add: length_sealed_chunk)
  have block: "(?d @ ?s) @ replicate (block_size layout - length (?d @ ?s)) 0 = block_of prim h key ad i c (Some i = fi)"
    by (simp add: block_of_def Let_def)
  have rest: "encode_blocks prim cipher (block_size layout) fi jobs
      = Inr (map (\<lambda>(i, c). block_of prim h key ad i c (Some i = fi)) jobs)"
    using Cons by simp
  show ?case
    unfolding job encode_blocks.simps Let_def chunk_seal_eq [OF i] and_then_Inr descriptor_pack [OF i len]
      option.case if_not_P [OF fit] rest block by simp
qed simp

lemma writer_encode_eq:
  assumes "\<forall>(i, c) \<in> set jobs. i < MAX_CHUNKS \<and> length c \<le> chunk_capacity layout"
    and w: "sw_header w = h" "sw_data_key w = key" "sw_sealed_header w = ad"
  shows "writer_encode prim w fi jobs = Inr (map (\<lambda>(i, c). slot_of prim h key ad i c (Some i = fi)) jobs)"
  using encode_blocks_eq [OF assms(1), of fi]
  by (simp add: writer_encode_def w ChunkCipher_def key encode_many_encode [OF nsym_fine] slot_of_def Let_def comp_def
      split_def)

lemma encode_groups_eq:
  assumes "\<forall>(i, c) \<in> set (concat groups). i < MAX_CHUNKS \<and> length c \<le> chunk_capacity layout"
    and w: "sw_header w = h" "sw_data_key w = key" "sw_sealed_header w = ad"
  shows "encode_groups prim w fi groups
    = Inr (map (map (\<lambda>(i, c). slot_of prim h key ad i c (Some i = fi))) groups)"
  using assms(1)
proof (induction groups)
  case (Cons jobs groups)
  have now: "\<forall>(i, c) \<in> set jobs. i < MAX_CHUNKS \<and> length c \<le> chunk_capacity layout"
    and later: "\<forall>(i, c) \<in> set (concat groups). i < MAX_CHUNKS \<and> length c \<le> chunk_capacity layout"
    using Cons.prems by auto
  show ?case by (simp add: writer_encode_eq [OF now w] Cons.IH [OF later])
qed simp

section \<open>The writer's states\<close>

definition open_slots :: "bytes list \<Rightarrow> bytes list" where
  "open_slots chunks = map (\<lambda>i. slot_of prim h key ad i (chunks ! i) False) [0..<length chunks]"

text \<open>A writer that has placed the chunks \<open>sent\<close>, holds \<open>batch\<close> and \<open>pending\<close> and was given \<open>total\<close> bytes.\<close>

definition writer_at :: "stream_writer \<Rightarrow> bytes list \<Rightarrow> bytes list \<Rightarrow> bytes \<Rightarrow> nat \<Rightarrow> stream_writer" where
  "writer_at w0 sent batch pending n =
     (with_slots (open_slots sent) w0)
       \<lparr>sw_batch := batch, sw_pending := pending, sw_next_index := length sent, sw_plaintext_bytes := n\<rparr>"

definition fresh_writer :: "stream_writer \<Rightarrow> bool" where
  "fresh_writer w0 \<longleftrightarrow> sw_header w0 = h \<and> sw_data_key w0 = key \<and> sw_sealed_header w0 = ad \<and>
     \<not> sw_closed w0 \<and> sw_summary w0 = None \<and> 0 < sw_workers w0"

lemma writer_at_simps [simp]:
  "fresh_writer w0 \<Longrightarrow> sw_header (writer_at w0 p b q n) = h"
  "sw_batch (writer_at w0 p b q n) = b" "sw_pending (writer_at w0 p b q n) = q"
  "sw_next_index (writer_at w0 p b q n) = length p" "sw_plaintext_bytes (writer_at w0 p b q n) = n"
  "sw_closed (writer_at w0 p b q n) = sw_closed w0" "sw_workers (writer_at w0 p b q n) = sw_workers w0"
  "sw_summary (writer_at w0 p b q n) = sw_summary w0"
  "(writer_at w0 p b q n)\<lparr>sw_batch := b'\<rparr> = writer_at w0 p b' q n"
  "(writer_at w0 p b q n)\<lparr>sw_pending := q'\<rparr> = writer_at w0 p b q' n"
  "(writer_at w0 p b q n)\<lparr>sw_plaintext_bytes := n'\<rparr> = writer_at w0 p b q n'"
  by (simp_all add: writer_at_def with_slots_def Let_def fresh_writer_def)

lemma open_slots_append:
  "open_slots (xs @ ys) = open_slots xs @ map (\<lambda>(i, c). slot_of prim h key ad i c False) (enumerate (length xs) ys)"
  by (rule nth_equalityI) (auto simp: open_slots_def nth_append nth_enumerate_eq)

lemma place_all_writer_at:
  "fold writer_place ss ((with_slots slots w0)\<lparr>sw_batch := b, sw_pending := q, sw_next_index := m, sw_plaintext_bytes := n\<rparr>)
    = (with_slots (slots @ ss) w0)\<lparr>sw_batch := b, sw_pending := q, sw_next_index := m, sw_plaintext_bytes := n\<rparr>"
proof -
  let ?u = "\<lambda>w. w\<lparr>sw_batch := b, sw_pending := q, sw_next_index := m, sw_plaintext_bytes := n\<rparr>"
  have one: "writer_place s (?u w) = ?u (writer_place s w)" for s w
    by (simp add: writer_place_def writer_emit_def Let_def)
  have "fold writer_place ss (?u w) = ?u (fold writer_place ss w)" for w
    by (induction ss arbitrary: w) (simp_all add: one)
  then show ?thesis by (simp add: writer_place_all)
qed

lemma shifted_enumerate: "map (\<lambda>(offset, c). (m + offset, c)) (enumerate 0 xs) = enumerate m xs"
  by (rule nth_equalityI) (simp_all add: nth_enumerate_eq)

lemma flush_eq:
  fixes final :: bool
  assumes w0: "fresh_writer w0" and small: "\<forall>c \<in> set batch. length c \<le> chunk_capacity layout"
    and room: "length sent + length batch \<le> MAX_BLOCKS" and batch: "batch \<noteq> []"
  defines "fi \<equiv> if final then Some (length sent + length batch - 1) else None"
  shows "writer_flush prim final (writer_at w0 sent batch pending n)
    = Inr ((with_slots (open_slots sent
          @ map (\<lambda>(i, c). slot_of prim h key ad i c (Some i = fi)) (enumerate (length sent) batch)) w0)
        \<lparr>sw_batch := [], sw_pending := pending, sw_next_index := length sent + length batch,
         sw_plaintext_bytes := n\<rparr>)"
proof -
  let ?jobs = "enumerate (length sent) batch"
  let ?w = "(writer_at w0 sent batch pending n)\<lparr>sw_batch := [], sw_next_index := length sent + length batch\<rparr>"
  have w: "?w = (with_slots (open_slots sent) w0)
      \<lparr>sw_batch := [], sw_pending := pending, sw_next_index := length sent + length batch, sw_plaintext_bytes := n\<rparr>"
    by (simp add: writer_at_def)
  have conc: "concat (pieces BATCH_BLOCKS ?jobs) = ?jobs" by (rule concat_pieces) (simp add: BATCH_BLOCKS_def)
  have ok: "\<forall>(i, c) \<in> set (concat (pieces BATCH_BLOCKS ?jobs)). i < MAX_CHUNKS \<and> length c \<le> chunk_capacity layout"
    using room small unfolding conc
    by (auto simp: in_set_enumerate_eq MAX_BLOCKS_def MAX_CHUNKS_def)
  have fields: "sw_header ?w = h" "sw_data_key ?w = key" "sw_sealed_header ?w = ad"
    using w0 by (simp_all add: writer_at_def with_slots_def Let_def fresh_writer_def)
  have enc: "encode_groups prim ?w fi (pieces BATCH_BLOCKS ?jobs)
      = Inr (map (map (\<lambda>(i, c). slot_of prim h key ad i c (Some i = fi))) (pieces BATCH_BLOCKS ?jobs))"
    by (rule encode_groups_eq [OF ok fields])
  have slots: "concat (map (map f) (pieces BATCH_BLOCKS ?jobs)) = map f ?jobs" for f :: "nat \<times> bytes \<Rightarrow> bytes"
    using conc by (simp flip: map_concat)
  have "\<not> MAX_BLOCKS < length sent + length batch" using room by simp
  then have "writer_flush prim final (writer_at w0 sent batch pending n)
      = and_then (encode_groups prim ?w fi (pieces BATCH_BLOCKS ?jobs)) (\<lambda>groups. Inr (fold writer_place (concat groups) ?w))"
    using batch by (simp add: writer_flush_def Let_def shifted_enumerate fi_def)
  also have "\<dots> = Inr (fold writer_place (map (\<lambda>(i, c). slot_of prim h key ad i c (Some i = fi)) ?jobs) ?w)"
    unfolding enc and_then_Inr slots ..
  finally show ?thesis unfolding w place_all_writer_at .
qed

lemma flush_open:
  assumes "fresh_writer w0" and "\<forall>c \<in> set batch. length c \<le> chunk_capacity layout"
    and "length sent + length batch \<le> MAX_BLOCKS"
  shows "writer_flush prim False (writer_at w0 sent batch pending n) = Inr (writer_at w0 (sent @ batch) [] pending n)"
proof (cases "batch = []")
  case True
  then show ?thesis by (simp add: writer_flush_def)
next
  case False
  show ?thesis
    using flush_eq [OF assms(1-3) False, of False] by (simp add: writer_at_def open_slots_append)
qed

lemma queue_eq:
  assumes w0: "fresh_writer w0" and small: "\<forall>c \<in> set (batch @ [chunk]). length c \<le> chunk_capacity layout"
    and room: "length sent + length batch < MAX_BLOCKS"
  obtains sent' batch' where "sent' @ batch' = sent @ batch @ [chunk]" "set batch' \<subseteq> set (batch @ [chunk])"
    "writer_queue prim chunk (writer_at w0 sent batch pending n) = Inr (writer_at w0 sent' batch' pending n)"
proof (cases "BATCH_BLOCKS * sw_workers w0 \<le> length (batch @ [chunk])")
  case True
  have "writer_queue prim chunk (writer_at w0 sent batch pending n)
      = Inr (writer_at w0 (sent @ batch @ [chunk]) [] pending n)"
    using True flush_open [OF w0 small, of sent pending n] room by (simp add: writer_queue_def Let_def)
  then show ?thesis by (intro that [of "sent @ batch @ [chunk]" "[]"]) simp_all
next
  case False
  then show ?thesis by (intro that [of sent "batch @ [chunk]"]) (simp_all add: writer_queue_def Let_def)
qed

section \<open>Writing\<close>

text \<open>A writer that was given the bytes \<open>D\<close>.\<close>

definition has_written :: "stream_writer \<Rightarrow> bytes \<Rightarrow> stream_writer \<Rightarrow> bool" where
  "has_written w0 D w \<longleftrightarrow>
     (\<exists>sent batch. sent @ batch = butlast (chunks_of (chunk_capacity layout) D) \<and>
        w = writer_at w0 sent batch (last (chunks_of (chunk_capacity layout) D)) (length D))"

lemma write_loop_eq:
  assumes "fresh_writer w0" and "\<forall>c \<in> set batch. length c \<le> chunk_capacity layout"
    and "length sent + length batch + length (chunks_of (chunk_capacity layout) view) \<le> MAX_BLOCKS"
  shows "\<exists>sent' batch'. sent' @ batch' = sent @ batch @ butlast (chunks_of (chunk_capacity layout) view) \<and>
    write_loop prim view (writer_at w0 sent batch pending n)
      = Inr (last (chunks_of (chunk_capacity layout) view), writer_at w0 sent' batch' pending n)"
  using assms(2,3)
proof (induction "length view" arbitrary: view sent batch rule: less_induct)
  case less
  let ?cap = "chunk_capacity layout"
  have cap: "0 < ?cap" using capacity_eq(2) by linarith
  have lay: "sw_layout (writer_at w0 sent batch pending n) = layout" using assms(1) by simp
  show ?case
  proof (cases "?cap < length view")
    case False
    then show ?thesis
      by (intro exI [of _ sent] exI [of _ batch])
        (simp add: write_loop.simps [of prim view] lay Let_def chunks_of_short)
  next
    case True
    have ch: "chunks_of ?cap view = take ?cap view # chunks_of ?cap (drop ?cap view)"
      using cap True by (rule chunks_of_long)
    have small: "\<forall>c \<in> set (batch @ [take ?cap view]). length c \<le> ?cap" using less.prems(1) by auto
    have "length sent + length batch < MAX_BLOCKS" using less.prems(2) by (simp add: ch)
    then obtain sent1 batch1 where q: "sent1 @ batch1 = sent @ batch @ [take ?cap view]"
        "set batch1 \<subseteq> set (batch @ [take ?cap view])"
        "writer_queue prim (take ?cap view) (writer_at w0 sent batch pending n) = Inr (writer_at w0 sent1 batch1 pending n)"
      by (rule queue_eq [OF assms(1) small])
    have "\<exists>sent' batch'. sent' @ batch' = sent1 @ batch1 @ butlast (chunks_of ?cap (drop ?cap view)) \<and>
        write_loop prim (drop ?cap view) (writer_at w0 sent1 batch1 pending n)
          = Inr (last (chunks_of ?cap (drop ?cap view)), writer_at w0 sent' batch' pending n)"
    proof (rule less.hyps)
      show "length (drop ?cap view) < length view" using True cap by simp
      show "\<forall>c \<in> set batch1. length c \<le> ?cap" using q(2) small by blast
      show "length sent1 + length batch1 + length (chunks_of ?cap (drop ?cap view)) \<le> MAX_BLOCKS"
        using less.prems(2) arg_cong [OF q(1), of length] by (simp add: ch)
    qed
    moreover have "sent1 @ batch1 @ xs = sent @ batch @ take ?cap view # xs" for xs
      using arg_cong [OF q(1), of "\<lambda>ys. ys @ xs"] by simp
    ultimately show ?thesis
      using q(3) cap True by (simp add: write_loop.simps [of prim view] lay Let_def ch)
  qed
qed

lemma has_written_nothing: "writer_at w0 [] [] [] 0 = w0 \<Longrightarrow> has_written w0 [] w0"
  unfolding has_written_def by (intro exI [of _ "[]"]) (simp add: chunks_of_short)

lemma has_written_batch:
  assumes "sent @ batch = butlast (chunks_of (chunk_capacity layout) D)"
  shows "\<forall>c \<in> set batch. length c \<le> chunk_capacity layout"
    and "length sent + length batch + 1 = length (chunks_of (chunk_capacity layout) D)"
proof -
  have cap: "0 < chunk_capacity layout" using capacity_eq(2) by linarith
  have "set batch \<subseteq> set (butlast (chunks_of (chunk_capacity layout) D))" by (simp flip: assms)
  then show "\<forall>c \<in> set batch. length c \<le> chunk_capacity layout"
    using chunks_of_lengths [OF cap, of D] by (auto dest: subsetD)
  have "length (sent @ batch) = length (chunks_of (chunk_capacity layout) D) - 1" by (simp add: assms)
  moreover have "length (chunks_of (chunk_capacity layout) D) \<noteq> 0" by simp
  ultimately show "length sent + length batch + 1 = length (chunks_of (chunk_capacity layout) D)" by simp
qed

lemma write_eq:
  assumes w0: "fresh_writer w0" and w: "has_written w0 D w"
    and room: "length (chunks_of (chunk_capacity layout) (D @ data)) \<le> MAX_BLOCKS"
  shows "\<exists>w'. writer_write prim data w = Inr (length data, w') \<and> has_written w0 (D @ data) w'"
proof -
  let ?cap = "chunk_capacity layout"
  let ?p = "last (chunks_of ?cap D)"
  have cap: "0 < ?cap" using capacity_eq(2) by linarith
  obtain sent batch where sb: "sent @ batch = butlast (chunks_of ?cap D)"
    and w_eq: "w = writer_at w0 sent batch ?p (length D)"
    using w by (auto simp: has_written_def)
  note small = has_written_batch [OF sb]
  have p: "length ?p \<le> ?cap" using chunks_of_lengths [OF cap] by blast
  have app: "chunks_of ?cap (D @ data) = sent @ batch @ chunks_of ?cap (?p @ data)"
    using chunks_of_append [OF cap, of D data] by (simp flip: sb)
  have lay: "sw_layout w = layout" and closed: "\<not> sw_closed w"
    using w0 by (simp_all add: w_eq) (simp add: fresh_writer_def)
  have first_part: "\<exists>sent1 batch1 q view. sent1 @ batch1 @ chunks_of ?cap (q @ view) = sent @ batch @ chunks_of ?cap (?p @ data) \<and>
      (\<forall>c \<in> set batch1. length c \<le> ?cap) \<and> (view = [] \<and> length q \<le> ?cap \<or> q = []) \<and>
      (if ?p \<noteq> [] \<and> data \<noteq> []
       then if ?cap - length ?p < length data
            then and_then (writer_queue prim (?p @ take (?cap - length ?p) data)
                     (w\<lparr>sw_pending := ?p @ take (?cap - length ?p) data\<rparr>))
                   (\<lambda>w. Inr (drop (?cap - length ?p) data, w\<lparr>sw_pending := []\<rparr>))
            else Inr ([], w\<lparr>sw_pending := ?p @ take (?cap - length ?p) data\<rparr>)
       else Inr (data, w)) = Inr (view, writer_at w0 sent1 batch1 q (length D))"
  proof (cases "?p \<noteq> [] \<and> data \<noteq> []")
    case False
    then show ?thesis
      using p small(1) by (intro exI [of _ sent] exI [of _ batch] exI [of _ ?p] exI [of _ data]) (auto simp: w_eq)
  next
    case True
    let ?room = "?cap - length ?p"
    show ?thesis
    proof (cases "?room < length data")
      case False
      then show ?thesis
        using True p small(1)
        by (intro exI [of _ sent] exI [of _ batch] exI [of _ "?p @ data"] exI [of _ "[]"]) (simp add: w_eq)
    next
      case more: True
      let ?c = "?p @ take ?room data"
      have len: "length ?c = ?cap" using more p by simp
      have ch: "chunks_of ?cap (?p @ data) = ?c # chunks_of ?cap (drop ?room data)"
        using chunks_of_long [OF cap, of "?p @ data"] more p by simp
      have small': "\<forall>c \<in> set (batch @ [?c]). length c \<le> ?cap" using small(1) len by simp
      have "length sent + length batch < MAX_BLOCKS" using room by (simp add: app ch)
      then obtain sent1 batch1 where q: "sent1 @ batch1 = sent @ batch @ [?c]"
          "set batch1 \<subseteq> set (batch @ [?c])"
          "writer_queue prim ?c (writer_at w0 sent batch ?c (length D)) = Inr (writer_at w0 sent1 batch1 ?c (length D))"
        by (rule queue_eq [OF w0 small'])
      have "sent1 @ batch1 @ xs = sent @ batch @ ?c # xs" for xs
        using arg_cong [OF q(1), of "\<lambda>ys. ys @ xs"] by simp
      then show ?thesis
        using True more small' q(2,3)
        by (intro exI [of _ sent1] exI [of _ batch1] exI [of _ "[]"] exI [of _ "drop ?room data"])
          (auto simp: w_eq ch)
    qed
  qed
  then obtain sent1 batch1 q view where f:
      "sent1 @ batch1 @ chunks_of ?cap (q @ view) = sent @ batch @ chunks_of ?cap (?p @ data)"
      "\<forall>c \<in> set batch1. length c \<le> ?cap" "view = [] \<and> length q \<le> ?cap \<or> q = []"
      and eq: "(if ?p \<noteq> [] \<and> data \<noteq> []
       then if ?cap - length ?p < length data
            then and_then (writer_queue prim (?p @ take (?cap - length ?p) data)
                     (w\<lparr>sw_pending := ?p @ take (?cap - length ?p) data\<rparr>))
                   (\<lambda>w. Inr (drop (?cap - length ?p) data, w\<lparr>sw_pending := []\<rparr>))
            else Inr ([], w\<lparr>sw_pending := ?p @ take (?cap - length ?p) data\<rparr>)
       else Inr (data, w)) = Inr (view, writer_at w0 sent1 batch1 q (length D))"
    by blast
  have view: "butlast (chunks_of ?cap (q @ view)) = butlast (chunks_of ?cap view)"
      "last (chunks_of ?cap (q @ view)) = q @ last (chunks_of ?cap view)"
    using f(3) by (auto simp: chunks_of_short)
  have counts: "length sent1 + length batch1 + length (chunks_of ?cap (q @ view)) \<le> MAX_BLOCKS"
    using room arg_cong [OF f(1), of length] by (simp add: app)
  have "length (chunks_of ?cap view) \<le> length (chunks_of ?cap (q @ view))"
    using f(3) by (auto simp: chunks_of_short)
  then obtain sent2 batch2 where loop: "sent2 @ batch2 = sent1 @ batch1 @ butlast (chunks_of ?cap view)"
      "write_loop prim view (writer_at w0 sent1 batch1 q (length D))
        = Inr (last (chunks_of ?cap view), writer_at w0 sent2 batch2 q (length D))"
    using write_loop_eq [OF w0 f(2), of sent1 view q "length D"] counts by auto
  have total: "sent1 @ batch1 @ chunks_of ?cap (q @ view) = chunks_of ?cap (D @ data)" by (simp add: f(1) app)
  have "sent2 @ batch2 = butlast (chunks_of ?cap (D @ data))"
    by (simp add: loop(1) butlast_append flip: total view(1))
  moreover have "last (chunks_of ?cap (D @ data)) = q @ last (chunks_of ?cap view)"
    by (simp add: view(2) flip: total)
  moreover have "writer_write prim data w = Inr (length data,
      writer_at w0 sent2 batch2 (q @ last (chunks_of ?cap view)) (length D + length data))"
  proof -
    have pend: "sw_pending w = ?p" by (simp add: w_eq)
    show ?thesis
      unfolding writer_write_def if_not_P [OF closed] lay pend Let_def eq and_then_Inr prod.case loop(2) by simp
  qed
  ultimately show ?thesis
    unfolding has_written_def by auto
qed

lemma chunks_of_mono: "length (chunks_of (chunk_capacity layout) D) \<le> length (chunks_of (chunk_capacity layout) (D @ data))"
proof -
  have cap: "0 < chunk_capacity layout" using capacity_eq(2) by linarith
  have "0 < length (chunks_of (chunk_capacity layout) (last (chunks_of (chunk_capacity layout) D) @ data))" by simp
  then show ?thesis using chunks_of_append [OF cap, of D data] by (simp only: length_append length_butlast)
qed

lemma write_all_eq:
  assumes w0: "fresh_writer w0" and "has_written w0 D w"
    and "length (chunks_of (chunk_capacity layout) (D @ concat ps)) \<le> MAX_BLOCKS"
  shows "\<exists>w'. write_all prim ps w = Inr w' \<and> has_written w0 (D @ concat ps) w'"
  using assms(2,3)
proof (induction ps arbitrary: D w)
  case (Cons p ps)
  have "length (chunks_of (chunk_capacity layout) (D @ p)) \<le> MAX_BLOCKS"
    using chunks_of_mono [of "D @ p" "concat ps"] Cons.prems(2) by simp
  then obtain w1 where w1: "writer_write prim p w = Inr (length p, w1)" "has_written w0 (D @ p) w1"
    using write_eq [OF w0 Cons.prems(1)] by blast
  have "\<exists>w'. write_all prim ps w1 = Inr w' \<and> has_written w0 ((D @ p) @ concat ps) w'"
    by (rule Cons.IH [OF w1(2)]) (use Cons.prems(2) in simp)
  then show ?case using w1(1) by simp
qed auto

section \<open>Closing\<close>

lemma final_slots:
  assumes chunks: "sent @ batch @ [c] = chunks_of (chunk_capacity layout) D"
  shows "open_slots sent @ map (\<lambda>(i, c). slot_of prim h key ad i c (Some i = Some (length sent + length batch)))
      (enumerate (length sent) (batch @ [c])) = container_slots prim h key ad D"
proof (rule nth_equalityI)
  let ?xs = "sent @ batch @ [c]"
  show "length (open_slots sent @ map (\<lambda>(i, c). slot_of prim h key ad i c (Some i = Some (length sent + length batch)))
      (enumerate (length sent) (batch @ [c]))) = length (container_slots prim h key ad D)"
    by (simp add: open_slots_def container_slots_def Let_def flip: chunks)
  fix i
  assume "i < length (open_slots sent @ map (\<lambda>(i, c). slot_of prim h key ad i c (Some i = Some (length sent + length batch)))
      (enumerate (length sent) (batch @ [c])))"
  then have i: "i < length ?xs" by (simp add: open_slots_def)
  have r: "container_slots prim h key ad D ! i = slot_of prim h key ad i (?xs ! i) (i = length sent + length batch)"
    using i unfolding container_slots_def Let_def chunks [symmetric] by (simp del: upt_Suc)
  show "(open_slots sent @ map (\<lambda>(i, c). slot_of prim h key ad i c (Some i = Some (length sent + length batch)))
      (enumerate (length sent) (batch @ [c]))) ! i = container_slots prim h key ad D ! i"
  proof (cases "i < length sent")
    case True
    then show ?thesis by (simp add: r open_slots_def nth_append)
  next
    case False
    have "enumerate (length sent) (batch @ [c]) ! (i - length sent) = (i, (batch @ [c]) ! (i - length sent))"
      using False i by (subst nth_enumerate_eq) simp_all
    moreover have "?xs ! i = (batch @ [c]) ! (i - length sent)" using False by (simp add: nth_append)
    ultimately show ?thesis using False i by (simp add: r open_slots_def nth_append)
  qed
qed

lemma emit_all: "fold writer_emit xs w = writer_emit (concat xs) w"
  by (induction xs arbitrary: w) (simp_all add: writer_emit_def add.assoc)

lemma container_trailer_ok:
  assumes "length (chunks_of (chunk_capacity layout) D) \<le> MAX_BLOCKS"
  shows "trailer_ok h (container_trailer prim h key ad D)"
proof -
  let ?cap = "chunk_capacity layout" and ?cs = "chunks_of (chunk_capacity layout) D"
  have cap: "0 < ?cap" using capacity_eq(2) by linarith
  note L = chunks_of_lengths [OF cap, of D]
  have "length D = length (concat (butlast ?cs @ [last ?cs]))" by (simp add: concat_chunks_of)
  also have "\<dots> = (length ?cs - 1) * ?cap + length (last ?cs)"
  proof -
    have "map length (butlast ?cs) = map (\<lambda>_. ?cap) (butlast ?cs)" using L by simp
    then show ?thesis by (simp only: concat_append length_append length_concat map_replicate_const sum_list_replicate) simp
  qed
  finally have len: "length D = (length ?cs - 1) * ?cap + length (last ?cs)" .
  have "length (last ?cs) + 16 \<le> max_chunk_len layout" using L by (simp add: max_chunk_len_eq)
  moreover have "1 \<le> length ?cs" by (simp add: Suc_le_eq)
  ultimately show ?thesis
    using assms header len
    by (simp add: trailer_ok_def container_trailer_def Let_def TAG_LENGTH_def blocks_digest_def digest32_def)
qed

lemma finish_eq:
  assumes w0: "fresh_writer w0" and w: "has_written w0 D w"
    and room: "length (chunks_of (chunk_capacity layout) D) \<le> MAX_BLOCKS"
    and trailer: "trailer_seal (prim_h16 prim) (container_trailer prim h key ad D) = Inr trailer"
  shows "\<exists>w'. writer_finish prim w = Inr w' \<and> sw_sink w' = container_image prim h key ad trailer D \<and>
    sw_hashed w' = sw_sink w' \<and> sw_container_bytes w' = length (sw_sink w') \<and> sw_header w' = h \<and>
    sw_plaintext_bytes w' = length D \<and> sw_next_index w' = length (chunks_of (chunk_capacity layout) D)"
proof -
  let ?cap = "chunk_capacity layout"
  let ?c = "last (chunks_of ?cap D)" and ?slots = "container_slots prim h key ad D" and ?k = "interleave layout"
  have cap: "0 < ?cap" using capacity_eq(2) by linarith
  obtain sent batch where sb: "sent @ batch = butlast (chunks_of ?cap D)"
    and w_eq: "w = writer_at w0 sent batch ?c (length D)"
    using w by (auto simp: has_written_def)
  note small = has_written_batch [OF sb]
  have chunks: "sent @ batch @ [?c] = chunks_of ?cap D"
    using append_butlast_last_id [of "chunks_of ?cap D"] sb by (metis append_assoc chunks_of_not_Nil)
  have small': "\<forall>c \<in> set (batch @ [?c]). length c \<le> ?cap" using small(1) chunks_of_lengths [OF cap] by simp
  have fits: "length sent + length (batch @ [?c]) \<le> MAX_BLOCKS" using small(2) room by simp
  let ?w0 = "w0\<lparr>sw_final_chunk_len := length ?c + TAG_LENGTH\<rparr>"
  have w0': "fresh_writer ?w0" using w0 by (simp add: fresh_writer_def)
  have start: "w\<lparr>sw_pending := [], sw_final_chunk_len := length ?c + TAG_LENGTH, sw_batch := batch @ [?c]\<rparr>
      = writer_at ?w0 sent (batch @ [?c]) [] (length D)"
    by (simp add: w_eq writer_at_def with_slots_def Let_def)
  let ?w1 = "(with_slots ?slots ?w0)
    \<lparr>sw_batch := [], sw_pending := [], sw_next_index := length sent + length (batch @ [?c]), sw_plaintext_bytes := length D\<rparr>"
  have flush: "writer_flush prim True (writer_at ?w0 sent (batch @ [?c]) [] (length D)) = Inr ?w1"
    using flush_eq [OF w0' small' fits, of True "[]" "length D"] final_slots [OF chunks] by simp
  have w1: "sw_header ?w1 = h" "sw_sealed_header ?w1 = ad" "sw_next_index ?w1 = length (chunks_of ?cap D)"
      "sw_plaintext_bytes ?w1 = length D" "sw_final_chunk_len ?w1 = length ?c + TAG_LENGTH"
      "sw_sink ?w1 = ad @ placed_out ?k ?slots" "sw_hashed ?w1 = sw_sink ?w1"
      "sw_container_bytes ?w1 = length (sw_sink ?w1)" "sw_digest ?w1 = slot_tags ?slots"
      "sw_window ?w1 = drop (length ?slots - ?k) ?slots"
    using w0 small(2) by (simp_all add: with_slots_def Let_def fresh_writer_def)
  let ?w2 = "(writer_emit (concat (sw_window ?w1)) ?w1)\<lparr>sw_window := []\<rparr>"
  have tr: "\<lparr>tr_container_id = sh_container_id (sw_header ?w2), tr_blocks = sw_next_index ?w2,
      tr_plaintext_bytes = sw_plaintext_bytes ?w2, tr_final_chunk_len = sw_final_chunk_len ?w2,
      tr_blocks_digest = blocks_digest (prim_h32 prim) (sh_container_id (sw_header ?w2)) (sw_digest ?w2)\<rparr>
    = container_trailer prim h key ad D"
    using w1 by (simp add: writer_emit_def container_trailer_def Let_def)
  have pend: "sw_pending w = ?c" "sw_batch w = batch" by (simp_all add: w_eq)
  have "writer_finish prim w = Inr (writer_emit ad (writer_emit trailer (writer_emit trailer ?w2)))"
    unfolding writer_finish_def Let_def pend start flush and_then_Inr emit_all tr trailer
    using w1(2) by (simp add: writer_emit_def)
  moreover have "sw_sink (writer_emit ad (writer_emit trailer (writer_emit trailer ?w2)))
      = container_image prim h key ad trailer D"
    using w1(6,10) placed_out_schedule [of ?k ?slots]
    by (simp add: writer_emit_def container_image_def Let_def)
  moreover have "sw_hashed (writer_emit ad (writer_emit trailer (writer_emit trailer ?w2)))
        = sw_sink (writer_emit ad (writer_emit trailer (writer_emit trailer ?w2)))"
    "sw_container_bytes (writer_emit ad (writer_emit trailer (writer_emit trailer ?w2)))
        = length (sw_sink (writer_emit ad (writer_emit trailer (writer_emit trailer ?w2))))"
    using w1(7,8) by (simp_all add: writer_emit_def)
  moreover have "sw_header (writer_emit ad (writer_emit trailer (writer_emit trailer ?w2))) = h"
    "sw_plaintext_bytes (writer_emit ad (writer_emit trailer (writer_emit trailer ?w2))) = length D"
    "sw_next_index (writer_emit ad (writer_emit trailer (writer_emit trailer ?w2))) = length (chunks_of ?cap D)"
    using w1(1,3,4) by (simp_all add: writer_emit_def)
  ultimately show ?thesis by blast
qed

lemma container_slot_length: "s \<in> set (container_slots prim h key ad D) \<Longrightarrow> length s = slot_size layout"
proof -
  assume "s \<in> set (container_slots prim h key ad D)"
  then obtain i f where i: "i < length (chunks_of (chunk_capacity layout) D)"
      and s: "s = slot_of prim h key ad i (chunks_of (chunk_capacity layout) D ! i) f"
    by (auto simp: container_slots_def Let_def)
  have cap: "0 < chunk_capacity layout" using capacity_eq(2) by linarith
  have "length (chunks_of (chunk_capacity layout) D ! i) \<le> chunk_capacity layout"
    by (rule chunks_of_small [OF cap nth_mem [OF i]])
  then show "length s = slot_size layout" using s by (simp add: length_slot_of)
qed

lemma length_container_slots [simp]:
  "length (container_slots prim h key ad D) = length (chunks_of (chunk_capacity layout) D)"
  by (simp add: container_slots_def Let_def)

lemma container_image_length:
  assumes "length trailer = 100"
  shows "length (container_image prim h key ad trailer D)
    = container_size layout (length (chunks_of (chunk_capacity layout) D))"
proof -
  let ?slots = "container_slots prim h key ad D"
  let ?sch = "schedule (length ?slots) (interleave layout)"
  have "length (case x of (p, i, f) \<Rightarrow> ?slots ! i) = slot_size layout" if "x \<in> set ?sch" for x
  proof -
    obtain p i f where x: "x = (p, i, f)" by (cases x)
    then have "i < length ?slots" using that schedule_index by fastforce
    then show ?thesis by (simp only: x prod.case container_slot_length [OF nth_mem])
  qed
  then have "map (\<lambda>x. length (case x of (p, i, f) \<Rightarrow> ?slots ! i)) ?sch = map (\<lambda>_. slot_size layout) ?sch" by simp
  then have "length (concat (map (\<lambda>(p, i, f). ?slots ! i) ?sch)) = length ?sch * slot_size layout"
    by (simp only: length_concat map_map comp_def map_replicate_const sum_list_replicate) simp
  then show ?thesis
    using assms by (simp add: container_image_def Let_def length_ad length_schedule container_size_def)
qed

lemma written_container:
  assumes w0: "fresh_writer w0" and w: "has_written w0 [] w0"
    and room: "length (chunks_of (chunk_capacity layout) (concat ps)) \<le> MAX_BLOCKS"
  shows "\<exists>w summary w' trailer. write_all prim ps w0 = Inr w \<and> writer_close prim w = (Inr summary, w') \<and>
    trailer_seal (prim_h16 prim) (container_trailer prim h key ad (concat ps)) = Inr trailer \<and>
    sw_sink w' = container_image prim h key ad trailer (concat ps) \<and>
    ss_container_bytes summary = container_size layout (length (chunks_of (chunk_capacity layout) (concat ps))) \<and>
    ss_plaintext_bytes summary = length (concat ps) \<and> ss_hashed summary = sw_sink w' \<and> sw_closed w'"
proof -
  obtain w where w1: "write_all prim ps w0 = Inr w" "has_written w0 (concat ps) w"
    using write_all_eq [OF w0 w, of ps] room by auto
  obtain trailer where t: "trailer_seal (prim_h16 prim) (container_trailer prim h key ad (concat ps)) = Inr trailer"
      "length trailer = 100"
    by (rule trailer_seal_total [OF container_trailer_ok [OF room], of "prim_h16 prim"]) blast
  obtain w' where f: "writer_finish prim w = Inr w'"
      "sw_sink w' = container_image prim h key ad trailer (concat ps)" "sw_hashed w' = sw_sink w'"
      "sw_container_bytes w' = length (sw_sink w')" "sw_plaintext_bytes w' = length (concat ps)"
    using finish_eq [OF w0 w1(2) room t(1)] by blast
  have "sw_summary w0 = None" "\<not> sw_closed w0" using w0 by (simp_all add: fresh_writer_def)
  then have open_w: "sw_summary w = None" "\<not> sw_closed w" using w1(2) by (auto simp: has_written_def)
  show ?thesis
    using w1(1) t(1) f open_w container_image_length [OF t(2), of "concat ps"]
    by (intro exI [of _ w]) (simp add: writer_close_def Let_def)
qed

end

section \<open>Opening\<close>

definition randomness_ok :: "randomness \<Rightarrow> bool" where
  "randomness_ok rnd \<longleftrightarrow> length (rnd_salt rnd) = SALT_LENGTH \<and> length (rnd_container_id rnd) = CONTAINER_ID_LENGTH \<and>
     length (rnd_nonce_prefix rnd) = NONCE_PREFIX_LENGTH \<and> length (rnd_data_key rnd) = KEY_LENGTH \<and>
     length (rnd_wrap_nonce rnd) = NONCE_LENGTH"

lemma writer_init_ok:
  assumes aead: "aead_scheme (prim_enc prim) (prim_dec prim)" and rnd: "randomness_ok rnd"
    and init: "writer_init prim rnd passphrase kdf bs ns il workers flags = Inr w0"
  shows "stream_setting prim (sw_header w0) (rnd_data_key rnd) (sw_sealed_header w0)"
    and "stream_setting.fresh_writer (sw_header w0) (rnd_data_key rnd) (sw_sealed_header w0) w0"
    and "stream_setting.has_written prim (sw_header w0) (rnd_data_key rnd) (sw_sealed_header w0) w0 [] w0"
proof -
  define params where "params = kdf_or_default kdf"
  let ?l = "\<lparr>block_size = nat bs, nsym = nat ns, interleave = nat il\<rparr>"
  have lay: "layout_ok ?l" and fl: "0 \<le> flags" "flags \<le> 65535" and wk: "1 \<le> (case workers of None \<Rightarrow> 1 | Some n \<Rightarrow> n)"
    and kdf: "validate_untrusted params = Inr ()"
  proof -
    have "layout_problem bs ns il = None \<and> 0 \<le> flags \<and> flags \<le> 65535 \<and> 1 \<le> (case workers of None \<Rightarrow> 1 | Some n \<Rightarrow> n) \<and>
        validate_untrusted params = Inr ()"
      using init by (auto simp: writer_init_def Let_def params_def split: if_splits)
    moreover have "int (nat bs) = bs" "int (nat ns) = ns" "int (nat il) = il" if "layout_problem bs ns il = None"
      using that by (auto simp: layout_problem_def MIN_BLOCK_SIZE_def MIN_NSYM_def split: if_splits)
    ultimately show "layout_ok ?l" "0 \<le> flags" "flags \<le> 65535" "1 \<le> (case workers of None \<Rightarrow> 1 | Some n \<Rightarrow> n)"
      "validate_untrusted params = Inr ()"
      by (simp_all add: layout_ok_def)
  qed
  obtain kek binding sealed header where parts:
      "header = \<lparr>sh_flags = nat flags, sh_layout = ?l, sh_kdf_params = params, sh_salt = rnd_salt rnd,
         sh_container_id = rnd_container_id rnd, sh_nonce_prefix = rnd_nonce_prefix rnd,
         sh_wrap_nonce = rnd_wrap_nonce rnd,
         sh_wrapped_key = prim_enc prim kek (rnd_wrap_nonce rnd) (rnd_data_key rnd) (WRAP_LABEL @ binding)\<rparr>"
      "header_seal (prim_h16 prim) header = Inr sealed"
      "w0 = writer_emit sealed
         \<lparr>sw_header = header, sw_data_key = rnd_data_key rnd, sw_sealed_header = sealed,
          sw_workers = nat (case workers of None \<Rightarrow> 1 | Some n \<Rightarrow> n),
          sw_pool = (1 < (case workers of None \<Rightarrow> 1 | Some n \<Rightarrow> n)), sw_sink = [], sw_hashed = [],
          sw_digest = [], sw_window = [], sw_batch = [], sw_pending = [], sw_next_index = 0,
          sw_plaintext_bytes = 0, sw_container_bytes = 0, sw_final_chunk_len = 0,
          sw_summary = None, sw_closed = False\<rparr>"
    using init by (auto simp: writer_init_def Let_def wrap_key_def params_def split: if_splits)
  have h: "sw_header w0 = header" "sw_sealed_header w0 = sealed" by (simp_all add: parts(3) writer_emit_def)
  have "header_ok header"
    using rnd lay fl kdf by (simp add: header_ok_def parts(1) randomness_ok_def aead_scheme.length_enc [OF aead]
        WRAPPED_KEY_LENGTH_def)
  then show set: "stream_setting prim (sw_header w0) (rnd_data_key rnd) (sw_sealed_header w0)"
    using aead rnd parts(2) by (simp add: stream_setting_def stream_setting_axioms_def h randomness_ok_def)
  show fresh: "stream_setting.fresh_writer (sw_header w0) (rnd_data_key rnd) (sw_sealed_header w0) w0"
    using wk unfolding stream_setting.fresh_writer_def [OF set] by (simp add: h) (simp add: parts(3) writer_emit_def)
  have start0: "stream_setting.writer_at prim (sw_header w0) (rnd_data_key rnd) (sw_sealed_header w0) w0 [] [] [] 0 = w0"
    unfolding stream_setting.writer_at_def [OF set] stream_setting.open_slots_def [OF set]
    by (simp add: with_slots_def Let_def placed_out_def slot_tags_def h) (simp add: parts(3) writer_emit_def)
  show "stream_setting.has_written prim (sw_header w0) (rnd_data_key rnd) (sw_sealed_header w0) w0 [] w0"
    by (rule stream_setting.has_written_nothing [OF set start0])
qed

lemma writer_init_total:
  assumes aead: "aead_scheme (prim_enc prim) (prim_dec prim)" and rnd: "randomness_ok rnd"
    and l: "layout_problem bs ns il = None" and "0 \<le> flags" "flags \<le> 65535" and "1 \<le> (case workers of None \<Rightarrow> 1 | Some n \<Rightarrow> n)"
    and kdf: "validate_untrusted (kdf_or_default kdf) = Inr ()"
  shows "\<exists>w0. writer_init prim rnd passphrase kdf bs ns il workers flags = Inr w0 \<and>
    sw_layout w0 = \<lparr>block_size = nat bs, nsym = nat ns, interleave = nat il\<rparr>"
proof -
  define params where "params = kdf_or_default kdf"
  let ?l = "\<lparr>block_size = nat bs, nsym = nat ns, interleave = nat il\<rparr>"
  have "int (nat bs) = bs" "int (nat ns) = ns" "int (nat il) = il"
    using l by (auto simp: layout_problem_def MIN_BLOCK_SIZE_def MIN_NSYM_def split: if_splits)
  then have lay: "layout_ok ?l" using l by (simp add: layout_ok_def)
  let ?h = "\<lambda>nonce wrapped. \<lparr>sh_flags = nat flags, sh_layout = ?l, sh_kdf_params = params, sh_salt = rnd_salt rnd,
    sh_container_id = rnd_container_id rnd, sh_nonce_prefix = rnd_nonce_prefix rnd,
    sh_wrap_nonce = nonce, sh_wrapped_key = wrapped\<rparr>"
  have ok: "header_ok (?h nonce wrapped)" if "length nonce = NONCE_LENGTH" "length wrapped = WRAPPED_KEY_LENGTH" for nonce wrapped
    using that rnd lay assms(4,5) kdf by (simp add: header_ok_def randomness_ok_def params_def)
  obtain body where body: "pack_body (?h (replicate NONCE_LENGTH 0) (replicate WRAPPED_KEY_LENGTH 0)) = Inr body"
    using ok [of "replicate NONCE_LENGTH 0" "replicate WRAPPED_KEY_LENGTH 0"] by (rule pack_body_total) simp_all
  have "kdf_validate params = Inr ()"
    using kdf by (auto simp: params_def validate_untrusted_def split: if_splits)
  then obtain kek where kek: "derive_key (prim_argon2 prim) passphrase (rnd_salt rnd) params = Inr kek"
    by (simp add: derive_key_def)
  have wl: "length (rnd_wrap_nonce rnd) = NONCE_LENGTH"
      "length (prim_enc prim kek (rnd_wrap_nonce rnd) (rnd_data_key rnd) (WRAP_LABEL @ take KEY_BINDING_SIZE body)) = WRAPPED_KEY_LENGTH"
    using rnd by (simp_all add: randomness_ok_def aead_scheme.length_enc [OF aead] WRAPPED_KEY_LENGTH_def)
  obtain sealed where sealed: "header_seal (prim_h16 prim) (?h (rnd_wrap_nonce rnd)
      (prim_enc prim kek (rnd_wrap_nonce rnd) (rnd_data_key rnd) (WRAP_LABEL @ take KEY_BINDING_SIZE body))) = Inr sealed"
    by (rule header_seal_Inr [OF ok [OF wl], of "prim_h16 prim"]) blast
  have "\<not> (case workers of None \<Rightarrow> 1 | Some n \<Rightarrow> n) < 1" using assms(6) by linarith
  then show ?thesis
    using l assms(4,5) kdf kek body sealed
    by (simp add: writer_init_def Let_def key_binding_def wrap_key_def flip: params_def) (simp add: writer_emit_def)
qed

section \<open>Properties\<close>

text \<open>
  C20: The writer refines the container as a function of the payload: for every accepted
  configuration and every way of cutting the payload into writes, all writes and the close succeed
  (up to \<open>2^32 - 1\<close> blocks), and the bytes emitted are the header, the slots in the order of the
  schedule, the trailer twice and the header again. The number of workers and the sizes of the
  writes do not change a byte, and the summary tells the size the layout computes.
\<close>

theorem writer_writes_image:
  assumes "aead_scheme (prim_enc prim) (prim_dec prim)" and "randomness_ok rnd"
    and "writer_init prim rnd passphrase kdf bs ns il workers flags = Inr w0"
    and "length (chunks_of (chunk_capacity (sw_layout w0)) (concat ps)) \<le> MAX_BLOCKS"
  shows "\<exists>w summary w' trailer. write_all prim ps w0 = Inr w \<and> writer_close prim w = (Inr summary, w') \<and>
    trailer_seal (prim_h16 prim)
      (container_trailer prim (sw_header w0) (rnd_data_key rnd) (sw_sealed_header w0) (concat ps)) = Inr trailer \<and>
    sw_sink w' = container_image prim (sw_header w0) (rnd_data_key rnd) (sw_sealed_header w0) trailer (concat ps) \<and>
    ss_container_bytes summary
      = container_size (sw_layout w0) (length (chunks_of (chunk_capacity (sw_layout w0)) (concat ps))) \<and>
    ss_plaintext_bytes summary = length (concat ps) \<and> ss_hashed summary = sw_sink w' \<and> sw_closed w'"
  using stream_setting.written_container [OF writer_init_ok [OF assms(1-3)] assms(4)] .

definition demo_primitives :: primitives where
  "demo_primitives = \<lparr>prim_h16 = (\<lambda>_ _ d. of_nat (be_nat d)), prim_h32 = (\<lambda>_ _ d. of_nat (be_nat d)),
     prim_enc = clear_enc, prim_dec = clear_dec, prim_argon2 = (\<lambda>_ _ _ _ _ _. replicate 32 0)\<rparr>"

definition demo_randomness :: randomness where
  "demo_randomness = \<lparr>rnd_salt = replicate SALT_LENGTH 1, rnd_container_id = replicate CONTAINER_ID_LENGTH 2,
     rnd_nonce_prefix = replicate NONCE_PREFIX_LENGTH 3, rnd_data_key = replicate KEY_LENGTH 4,
     rnd_wrap_nonce = replicate NONCE_LENGTH 5\<rparr>"

lemma demo_randomness_ok: "randomness_ok demo_randomness"
  by (simp add: randomness_ok_def demo_randomness_def)

lemma demo_aead: "aead_scheme (prim_enc demo_primitives) (prim_dec demo_primitives)"
  using clear.aead_scheme_axioms by (simp add: demo_primitives_def)

lemma demo_layout: "layout_problem 512 16 4 = None"
  by (simp add: layout_problem_def MIN_BLOCK_SIZE_def MAX_BLOCK_SIZE_def MIN_NSYM_def MAX_NSYM_def MAX_INTERLEAVE_def
      MAX_WINDOW_BYTES_def encoded_length_def message_length_def CODEWORD_SIZE_def SLOT_TAG_SIZE_def)

lemma demo_writer:
  obtains w0 where "writer_init demo_primitives demo_randomness [1] None 512 16 4 None 0 = Inr w0"
    "sw_layout w0 = \<lparr>block_size = 512, nsym = 16, interleave = 4\<rparr>"
proof -
  have "validate_untrusted (kdf_or_default None) = Inr ()"
    by (simp add: kdf_or_default_def default_kdf_params_def validate_untrusted_def kdf_validate_def KEY_LENGTH_def
        MAX_TIME_COST_def MAX_MEMORY_COST_def MAX_PARALLELISM_def MIN_KEY_LENGTH_def MAX_KEY_LENGTH_def
        UNTRUSTED_MAX_TIME_COST_def UNTRUSTED_MAX_MEMORY_COST_def UNTRUSTED_MAX_PARALLELISM_def)
  then show ?thesis
    using writer_init_total [OF demo_aead demo_randomness_ok demo_layout, of 0 None None "[1]"] that by auto
qed

text \<open>The setting that opening this writer sets up.\<close>

definition demo_w0 :: stream_writer where
  "demo_w0 = projr (writer_init demo_primitives demo_randomness [1] None 512 16 4 None 0)"

lemma demo_w0_init: "writer_init demo_primitives demo_randomness [1] None 512 16 4 None 0 = Inr demo_w0"
  by (rule demo_writer) (simp add: demo_w0_def)

interpretation demo: stream_setting demo_primitives "sw_header demo_w0" "rnd_data_key demo_randomness" "sw_sealed_header demo_w0"
  by (rule writer_init_ok(1) [OF demo_aead demo_randomness_ok demo_w0_init])

theorem writer_writes_image_witness:
  "\<exists>w0 w summary w'. writer_init demo_primitives demo_randomness [1] None 512 16 4 None 0 = Inr w0 \<and>
    write_all demo_primitives [[7], [8, 9]] w0 = Inr w \<and> writer_close demo_primitives w = (Inr summary, w') \<and>
    ss_container_bytes summary = container_size \<lparr>block_size = 512, nsym = 16, interleave = 4\<rparr> 1 \<and>
    ss_plaintext_bytes summary = 3"
proof -
  obtain w0 where w0: "writer_init demo_primitives demo_randomness [1] None 512 16 4 None 0 = Inr w0"
      "sw_layout w0 = \<lparr>block_size = 512, nsym = 16, interleave = 4\<rparr>"
    by (rule demo_writer)
  have one: "chunks_of (chunk_capacity (sw_layout w0)) (concat [[7], [8, 9]]) = [[7, 8, 9]]"
    by (simp add: w0(2) chunk_capacity_def chunks_of_short)
  show ?thesis
    using writer_writes_image [OF demo_aead demo_randomness_ok w0(1), of "[[7], [8, 9]]"] w0 one
    by (fastforce simp: MAX_BLOCKS_def MAX_CHUNKS_def)
qed

end
