(* ===== verification/StreamReader.thy ===== *)
theory StreamReader
  imports WriterCorrect Blocks
begin

text \<open>
  \<^verbatim>\<open>StreamReader\<close> of \<^verbatim>\<open>src/dbs/container/stream.py\<close>: locating the header, the trailer and, when both
  trailers are gone, the number of blocks; reading the slots; and the single pass that accepts a
  clean first copy, repairs a block from its copies, and hands the blocks in order to its consumer
  (decryption or verification). Generators are the list of what they yield; a consumer runs on each
  element as it is produced, on the same report.
\<close>

section \<open>Reports\<close>

datatype metadata_part = FrontHeader | BackHeader | TrailerCopy nat | TrailerBothCopies

datatype stream_problem = EndMissing | DigestMismatch

record stream_report = repair_report +
  spares_damaged :: "nat list"
  metadata_damaged :: "metadata_part list"
  unverified_blocks :: "nat list"
  problems :: "stream_problem list"

definition stream_ok :: "stream_report \<Rightarrow> bool" where
  "stream_ok r \<longleftrightarrow> failed_blocks r = [] \<and> problems r = []"

definition stream_healed :: "stream_report \<Rightarrow> bool" where
  "stream_healed r \<longleftrightarrow> stream_ok r \<and>
     (blocks_rs_corrected r \<noteq> 0 \<or> blocks_used_b r \<noteq> 0 \<or> blocks_merged r \<noteq> 0 \<or> copies_available r < 2 \<or>
      spares_damaged r \<noteq> [] \<or> metadata_damaged r \<noteq> [])"

datatype stream_verdict =
    StreamUnrecoverable "(nat \<times> nat \<times> nat list \<times> bool) option" "stream_problem list"
  | StreamRepaired nat nat nat "nat option" "nat option" "metadata_part list" bool "nat option"
  | StreamClean nat "nat option"

definition nonzero :: "nat \<Rightarrow> nat option" where
  "nonzero n = (if n = 0 then None else Some n)"

definition stream_report_summary :: "stream_report \<Rightarrow> stream_verdict" where
  "stream_report_summary r =
     (if \<not> stream_ok r
      then StreamUnrecoverable
             (if failed_blocks r \<noteq> []
              then Some (length (failed_blocks r), total_blocks r, take 10 (failed_blocks r), 10 < length (failed_blocks r))
              else None)
             (problems r)
      else let notes = nonzero (length (unverified_blocks r))
           in if stream_healed r
              then StreamRepaired (total_blocks r) (blocks_rs_corrected r) (blocks_used_b r) (nonzero (blocks_merged r))
                     (nonzero (length (spares_damaged r))) (metadata_damaged r) (copies_available r < 2) notes
              else StreamClean (total_blocks r) notes)"

definition fresh_report :: "nat \<Rightarrow> metadata_part list \<Rightarrow> stream_report" where
  "fresh_report blocks damaged =
     \<lparr>total_blocks = blocks, blocks_direct = 0, blocks_rs_corrected = 0, blocks_used_b = 0, blocks_merged = 0,
      copies_available = 2, failed_blocks = [], spares_damaged = [], metadata_damaged = damaged,
      unverified_blocks = [], problems = []\<rparr>"

section \<open>Locating header and end\<close>

definition locate_header ::
  "hash16 \<Rightarrow> bytes \<Rightarrow> (stream_header \<times> metadata_part list) result" where
  "locate_header h16 source =
     (let total_bytes = length source;
          offsets = [0] @ (if 2 * HEADER_SIZE \<le> total_bytes then [int total_bytes - int HEADER_SIZE] else []);
          copies = map (\<lambda>offset.
            let raw = read_at source offset (int HEADER_SIZE)
            in case open_sealed_header h16 raw of
                 Some (version, body) \<Rightarrow> if version = STREAM_FORMAT_VERSION then Some raw else None
               | None \<Rightarrow> None) offsets
      in case List.map_filter id copies of
           [] \<Rightarrow> Inl ContainerError
         | chosen # _ \<Rightarrow>
             and_then (header_parse (snd (the (open_sealed_header h16 chosen)))) (\<lambda>header.
               Inr (header, map fst (filter (\<lambda>(name, raw). raw \<noteq> Some chosen)
                      (zip [FrontHeader, BackHeader] (copies @ replicate (2 - length copies) None))))))"

definition read_trailers ::
  "hash16 \<Rightarrow> stream_header \<Rightarrow> bytes \<Rightarrow> int \<Rightarrow> (stream_trailer \<Rightarrow> bool) \<Rightarrow> stream_trailer option \<times> metadata_part list" where
  "read_trailers h16 header source start consistent =
     (if start < int HEADER_SIZE then (None, [])
      else let found = map (\<lambda>number.
                 case trailer_open h16 header
                        (read_at source (start + int ((number - 1) * TRAILER_SIZE)) (int TRAILER_SIZE)) of
                   Some trailer \<Rightarrow> if consistent trailer then Some trailer else None
                 | None \<Rightarrow> None) [1, 2]
           in case List.map_filter id found of
                [] \<Rightarrow> (None, [])
              | chosen # _ \<Rightarrow>
                  (Some chosen, map (\<lambda>(number, _). TrailerCopy number)
                     (filter (\<lambda>(number, trailer). trailer \<noteq> Some chosen) (zip [1, 2] found))))"

definition descriptor_of :: "bytes option \<Rightarrow> (nat \<times> nat) option" where
  "descriptor_of message =
     (case message of
        None \<Rightarrow> None
      | Some message \<Rightarrow>
          if length message < struct_size DESCRIPTOR then None
          else case descriptor_fields message of
                 None \<Rightarrow> None
               | Some (index, _, flags) \<Rightarrow>
                   if flags div 2 \<noteq> 0 \<or> py_slice message 13 3 \<noteq> replicate 3 0 then None
                   else Some (index, flags))"

fun descriptors_loop ::
  "codec \<Rightarrow> nat \<Rightarrow> nat set \<Rightarrow> nat \<Rightarrow> bytes list \<Rightarrow> (nat \<times> nat) option list" where
  "descriptors_loop codec ns damaged number [] = []"
| "descriptors_loop codec ns damaged number (cw # rest) =
     (if length cw \<noteq> CODEWORD_SIZE then None # descriptors_loop codec ns damaged number rest
      else descriptor_of (if number \<in> damaged then decode_codeword codec cw ns [] else Some (take (CODEWORD_SIZE - ns) cw))
           # descriptors_loop codec ns damaged (Suc number) rest)"

definition first_descriptors ::
  "codec \<Rightarrow> nat \<Rightarrow> bytes \<Rightarrow> int list \<Rightarrow> (nat \<times> nat) option list" where
  "first_descriptors codec ns source offsets =
     (let codewords = map (\<lambda>offset. read_at source offset (int CODEWORD_SIZE)) offsets;
          joined = concat (filter (\<lambda>cw. length cw = CODEWORD_SIZE) codewords);
          damaged = (if joined \<noteq> [] then (case damaged_codewords joined ns of None \<Rightarrow> {} | Some ds \<Rightarrow> set ds) else {})
      in descriptors_loop codec ns damaged 0 codewords)"

fun scan_batch :: "nat \<Rightarrow> ((nat \<times> nat) \<times> (nat \<times> nat) option) list \<Rightarrow> nat option" where
  "scan_batch il [] = None"
| "scan_batch il (((candidate, position), descriptor) # rest) =
     (case descriptor of
        None \<Rightarrow> scan_batch il rest
      | Some (found, flags) \<Rightarrow>
          if found = candidate \<and> flags mod 2 \<noteq> 0 then Some (candidate + 1)
          else if found < candidate
          then let count = int position - int found
               in if 0 < count \<and> count \<le> int candidate \<and> count - int il \<le> int found \<and> int found < count
                  then Some (nat count)
                  else scan_batch il rest
          else scan_batch il rest)"

definition scan_candidates :: "stream_layout \<Rightarrow> nat \<Rightarrow> nat \<Rightarrow> (nat \<times> nat \<times> nat) list" where
  "scan_candidates l total_bytes index =
     takeWhile (\<lambda>(candidate, position, offset). offset < total_bytes)
       (map (\<lambda>candidate.
          let position = first_copy_position candidate (interleave l)
          in (candidate, position, HEADER_SIZE + position * slot_size l))
         [index..<min (index + SCAN_BATCH_BLOCKS) MAX_BLOCKS])"

lemma scan_candidates_last:
  "scan_candidates l n index \<noteq> [] \<Longrightarrow> index \<le> fst (last (scan_candidates l n index)) \<and>
    fst (last (scan_candidates l n index)) < MAX_BLOCKS"
proof -
  assume "scan_candidates l n index \<noteq> []"
  then have "last (scan_candidates l n index) \<in> set (scan_candidates l n index)" by (rule last_in_set)
  then have "last (scan_candidates l n index) \<in> set (map (\<lambda>candidate.
          let position = first_copy_position candidate (interleave l)
          in (candidate, position, HEADER_SIZE + position * slot_size l))
         [index..<min (index + SCAN_BATCH_BLOCKS) MAX_BLOCKS])"
    unfolding scan_candidates_def by (rule set_takeWhileD [THEN conjunct1])
  then show ?thesis by (auto simp: Let_def)
qed

function scan_block_count :: "codec \<Rightarrow> stream_layout \<Rightarrow> bytes \<Rightarrow> nat \<Rightarrow> nat result" where
  "scan_block_count codec l source index =
     (if index < MAX_BLOCKS
      then let batch = scan_candidates l (length source) index
           in if batch = [] then Inl CorruptionError
              else (case scan_batch (interleave l)
                           (zip (map (\<lambda>(candidate, position, offset). (candidate, position)) batch)
                              (first_descriptors codec (nsym l) source (map (\<lambda>(_, _, offset). int offset) batch))) of
                      Some count \<Rightarrow> Inr count
                    | None \<Rightarrow> scan_block_count codec l source (fst (last batch) + 1))
      else Inl CorruptionError)"
  by pat_completeness auto
termination
proof (relation "measure (\<lambda>(codec, l, source, index). MAX_BLOCKS - index)", simp)
  fix codec :: codec and l :: stream_layout and source :: bytes and index :: nat and batch
  assume "index < MAX_BLOCKS" "batch = scan_candidates l (length source) index" "batch \<noteq> []"
  then show "((codec, l, source, fst (last batch) + 1), codec, l, source, index)
      \<in> measure (\<lambda>(codec, l, source, index). MAX_BLOCKS - index)"
    using scan_candidates_last [of l "length source" index] by simp linarith
qed

declare scan_block_count.simps [simp del]

definition locate_end ::
  "hash16 \<Rightarrow> codec \<Rightarrow> stream_header \<Rightarrow> bytes \<Rightarrow> (stream_trailer option \<times> nat \<times> metadata_part list) result" where
  "locate_end h16 codec header source =
     (let total_bytes = length source; l = sh_layout header;
          ending = int total_bytes - int HEADER_SIZE - 2 * int TRAILER_SIZE
      in case read_trailers h16 header source ending (\<lambda>found. container_size l (tr_blocks found) = total_bytes) of
           (Some trailer, damaged) \<Rightarrow> Inr (Some trailer, tr_blocks trailer, damaged)
         | (None, _) \<Rightarrow>
             and_then (scan_block_count codec l source 0) (\<lambda>count.
               let start = HEADER_SIZE + 2 * count * slot_size l
               in case read_trailers h16 header source (int start) (\<lambda>found. tr_blocks found = count) of
                    (Some trailer, damaged) \<Rightarrow> Inr (Some trailer, count, damaged)
                  | (None, _) \<Rightarrow> Inr (None, count, [TrailerBothCopies])))"

section \<open>Opening a reader\<close>

record stream_reader =
  rd_source :: bytes
  rd_header :: stream_header
  rd_cipher :: "chunk_cipher option"
  rd_trailer :: "stream_trailer option"
  rd_blocks :: nat
  rd_metadata_damaged :: "metadata_part list"

abbreviation rd_layout :: "stream_reader \<Rightarrow> stream_layout" where
  "rd_layout r \<equiv> sh_layout (rd_header r)"

definition reader_cipher ::
  "primitives \<Rightarrow> stream_header \<Rightarrow> bytes option \<Rightarrow> chunk_cipher option result" where
  "reader_cipher prim header passphrase =
     (case passphrase of
        None \<Rightarrow> Inr None
      | Some passphrase \<Rightarrow>
          and_then (derive_key (prim_argon2 prim) passphrase (sh_salt header) (sh_kdf_params header)) (\<lambda>kek.
          and_then (key_binding header) (\<lambda>binding.
          and_then (unwrap_key (prim_dec prim) kek (sh_wrap_nonce header) (sh_wrapped_key header) binding) (\<lambda>data_key.
          and_then (header_seal (prim_h16 prim) header) (\<lambda>sealed.
          and_then (ChunkCipher data_key (sh_nonce_prefix header) sealed) (\<lambda>cipher. Inr (Some cipher)))))))"

definition open_reader ::
  "primitives \<Rightarrow> codec \<Rightarrow> bytes \<Rightarrow> bytes option \<Rightarrow> stream_reader result" where
  "open_reader prim codec source passphrase =
     and_then (locate_header (prim_h16 prim) source) (\<lambda>(header, damaged).
     and_then (reader_cipher prim header passphrase) (\<lambda>cipher.
     and_then (locate_end (prim_h16 prim) codec header source) (\<lambda>(trailer, blocks, damaged').
       Inr \<lparr>rd_source = source, rd_header = header, rd_cipher = cipher, rd_trailer = trailer,
            rd_blocks = blocks, rd_metadata_damaged = damaged @ damaged'\<rparr>)))"

section \<open>Slots and blocks\<close>

definition read_slots :: "stream_reader \<Rightarrow> bytes list" where
  "read_slots r =
     (let slot = slot_size (rd_layout r); positions = 2 * rd_blocks r
      in concat (map (\<lambda>batch.
           let start = batch * READ_BATCH_SLOTS; count = min READ_BATCH_SLOTS (positions - start);
               raw = read_at (rd_source r) (int (HEADER_SIZE + start * slot)) (int (count * slot))
           in map (\<lambda>number. py_slice raw (number * slot) slot) [0..<count])
         [0..<(positions + READ_BATCH_SLOTS - 1) div READ_BATCH_SLOTS]))"

record stream_block =
  sb_data :: bytes
  sb_chunk_len :: nat
  sb_tag :: bytes

definition reader_chunk_len :: "stream_reader \<Rightarrow> bytes \<Rightarrow> nat \<Rightarrow> nat option" where
  "reader_chunk_len r data index =
     (let l = rd_layout r; final = (int index = int (rd_blocks r) - 1)
      in if length data \<noteq> block_size l then None
         else case descriptor_fields data of
                None \<Rightarrow> None
              | Some (found, chunk_len, flags) \<Rightarrow>
                  if found \<noteq> index \<or> flags \<noteq> (if final then FINAL_FLAG else 0) then None
                  else if py_slice data 13 3 \<noteq> replicate 3 0 then None
                  else if \<not> final then (if chunk_len = max_chunk_len l then Some chunk_len else None)
                  else if \<not> (TAG_LENGTH \<le> chunk_len \<and> chunk_len \<le> max_chunk_len l) then None
                  else if (case rd_trailer r of None \<Rightarrow> False | Some t \<Rightarrow> chunk_len \<noteq> tr_final_chunk_len t) then None
                  else let stop = struct_size DESCRIPTOR + chunk_len
                       in if drop stop data \<noteq> replicate (block_size l - stop) 0 then None else Some chunk_len)"

definition reader_clean :: "hash16 \<Rightarrow> stream_reader \<Rightarrow> bytes \<Rightarrow> nat \<Rightarrow> stream_block option" where
  "reader_clean h16 r raw index =
     (let l = rd_layout r; encoded = take (encoded_size l) raw; tag = drop (encoded_size l) raw
      in if length raw \<noteq> slot_size l then None
         else if slot_tag h16 (sh_container_id (rd_header r)) encoded \<noteq> tag then None
         else case strip_parity encoded (nsym l) of
                None \<Rightarrow> None
              | Some data \<Rightarrow>
                  (case reader_chunk_len r data index of
                     None \<Rightarrow> None
                   | Some chunk_len \<Rightarrow> Some \<lparr>sb_data = data, sb_chunk_len = chunk_len, sb_tag = tag\<rparr>))"

datatype copy_label = CopyA | CopyB

definition repair_merged ::
  "hash16 \<Rightarrow> codec \<Rightarrow> stream_reader \<Rightarrow> nat \<Rightarrow> bytes option \<Rightarrow> bytes option \<Rightarrow> stream_report \<Rightarrow>
   stream_block option \<times> stream_report" where
  "repair_merged h16 codec r index first second report =
     (let l = rd_layout r;
          labelled = (case first of None \<Rightarrow> [] | Some raw \<Rightarrow> [(CopyA, raw)]) @
                     (case second of None \<Rightarrow> [] | Some raw \<Rightarrow> [(CopyB, raw)]);
          copies = map snd labelled; labels = map fst labelled
      in if copies = [] then (None, report)
         else case repair_from_copies codec (map (\<lambda>raw. take (encoded_size l) raw) copies) (nsym l) of
                (None, _, _) \<Rightarrow> (None, report)
              | (Some data, used, decoded) \<Rightarrow>
                  (case reader_chunk_len r data index of
                     None \<Rightarrow> (None, report)
                   | Some chunk_len \<Rightarrow>
                       let tag = slot_tag h16 (sh_container_id (rd_header r)) (encode data (nsym l));
                           stored = map (\<lambda>raw. drop (encoded_size l) raw) copies
                       in if tag \<notin> set stored \<and> (decoded \<or> length stored = 2 \<and> stored ! 0 = stored ! 1) then (None, report)
                          else let report = (if tag \<notin> set stored
                                 then report\<lparr>unverified_blocks := unverified_blocks report @ [index]\<rparr> else report);
                               sources = (\<lambda>number. labels ! number) ` used;
                               report =
                                 (if 1 < card sources then report\<lparr>blocks_merged := blocks_merged report + 1\<rparr>
                                  else if sources = {CopyB}
                                  then let report = report\<lparr>blocks_used_b := blocks_used_b report + 1\<rparr>
                                       in if decoded
                                          then report\<lparr>blocks_rs_corrected := blocks_rs_corrected report + 1\<rparr>
                                          else report
                                  else report\<lparr>blocks_rs_corrected := blocks_rs_corrected report + 1\<rparr>)
                               in (Some \<lparr>sb_data = data, sb_chunk_len = chunk_len, sb_tag = tag\<rparr>, report)))"

definition reader_repair ::
  "hash16 \<Rightarrow> codec \<Rightarrow> stream_reader \<Rightarrow> nat \<Rightarrow> bytes option \<Rightarrow> bytes option \<Rightarrow> stream_report \<Rightarrow>
   stream_block option \<times> stream_report" where
  "reader_repair h16 codec r index first second report =
     (case (case second of None \<Rightarrow> None | Some raw \<Rightarrow> reader_clean h16 r raw index) of
        Some block \<Rightarrow> (Some block, report\<lparr>blocks_used_b := blocks_used_b report + 1\<rparr>)
      | None \<Rightarrow> repair_merged h16 codec r index first second report)"

definition spare_intact :: "hash16 \<Rightarrow> stream_reader \<Rightarrow> bytes \<Rightarrow> bytes option \<Rightarrow> bool" where
  "spare_intact h16 r raw tag =
     (let l = rd_layout r
      in if length raw \<noteq> slot_size l \<or> Some (drop (encoded_size l) raw) \<noteq> tag then False
         else Some (slot_tag h16 (sh_container_id (rd_header r)) (take (encoded_size l) raw)) = tag)"

section \<open>The pass over the slots\<close>

text \<open>
  The dictionaries of \<^verbatim>\<open>_resolved\<close>: first copies that are waiting for their second one, blocks ready
  to be handed out, the tags of clean first copies, and the next block to hand out.
\<close>

record resolve_state =
  rs_waiting :: "nat \<Rightarrow> bytes option option"
  rs_ready :: "nat \<Rightarrow> stream_block option option"
  rs_first_tags :: "nat \<Rightarrow> bytes option"
  rs_next_index :: nat

definition resolve_slot ::
  "hash16 \<Rightarrow> codec \<Rightarrow> stream_reader \<Rightarrow> bool \<Rightarrow> nat \<times> bool \<Rightarrow> bytes \<Rightarrow> resolve_state \<times> stream_report \<Rightarrow>
   resolve_state \<times> stream_report" where
  "resolve_slot h16 codec r check_spares event raw st =
     (case event of (index, first_copy) \<Rightarrow> case st of (s, report) \<Rightarrow>
      let complete = (length raw = slot_size (rd_layout r));
          report = (if complete then report else report\<lparr>copies_available := 1\<rparr>)
      in if first_copy
         then (case (if complete then reader_clean h16 r raw index else None) of
                 Some block \<Rightarrow>
                   (s\<lparr>rs_ready := (rs_ready s)(index \<mapsto> Some block),
                      rs_first_tags := (if check_spares then (rs_first_tags s)(index \<mapsto> sb_tag block) else rs_first_tags s)\<rparr>,
                    report\<lparr>blocks_direct := blocks_direct report + 1\<rparr>)
               | None \<Rightarrow>
                   (s\<lparr>rs_waiting := (rs_waiting s)(index \<mapsto> (if complete then Some raw else None))\<rparr>, report))
         else (case rs_waiting s index of
                 Some first \<Rightarrow>
                   (case reader_repair h16 codec r index first (if complete then Some raw else None) report of
                      (block, report) \<Rightarrow>
                        (s\<lparr>rs_waiting := (rs_waiting s)(index := None), rs_ready := (rs_ready s)(index \<mapsto> block)\<rparr>,
                         if block = None then report\<lparr>failed_blocks := failed_blocks report @ [index]\<rparr> else report))
               | None \<Rightarrow>
                   if check_spares
                   then (s\<lparr>rs_first_tags := (rs_first_tags s)(index := None)\<rparr>,
                         if \<not> spare_intact h16 r raw (rs_first_tags s index)
                         then report\<lparr>spares_damaged := spares_damaged report @ [index]\<rparr> else report)
                   else (s, report)))"

text \<open>
  A consumer takes the block of an index (None when it could not be read) and the report, and goes
  on with an updated report and result, or raises. \<open>digest\<close> is what was fed to the digest of the tags.
\<close>

record 'c pass_state =
  ps_report :: stream_report
  ps_digest :: bytes
  ps_result :: 'c

type_synonym 'c consumer =
  "nat \<Rightarrow> stream_block option \<Rightarrow> stream_report \<times> 'c \<Rightarrow> (exn \<times> stream_report \<times> 'c) + (stream_report \<times> 'c)"

type_synonym 'c outcome = "(exn \<times> stream_report \<times> 'c) + 'c pass_state"

definition hand_out :: "'c consumer \<Rightarrow> nat \<Rightarrow> stream_block option \<Rightarrow> 'c pass_state \<Rightarrow> 'c outcome" where
  "hand_out consumer index block p =
     (let digest = (case block of None \<Rightarrow> ps_digest p | Some b \<Rightarrow> ps_digest p @ sb_tag b)
      in case consumer index block (ps_report p, ps_result p) of
           Inl stop \<Rightarrow> Inl stop
         | Inr (report, result) \<Rightarrow> Inr \<lparr>ps_report = report, ps_digest = digest, ps_result = result\<rparr>)"

text \<open>The \<^verbatim>\<open>while next_index in ready\<close> loop; the indices are those of the schedule, below \<open>blocks\<close>.\<close>

function drain_ready ::
  "nat \<Rightarrow> 'c consumer \<Rightarrow> resolve_state \<Rightarrow> 'c pass_state \<Rightarrow> (exn \<times> stream_report \<times> 'c) + (resolve_state \<times> 'c pass_state)" where
  "drain_ready blocks consumer s p =
     (if rs_next_index s < blocks
      then (case rs_ready s (rs_next_index s) of
              None \<Rightarrow> Inr (s, p)
            | Some block \<Rightarrow>
                (case hand_out consumer (rs_next_index s) block p of
                   Inl stop \<Rightarrow> Inl stop
                 | Inr p \<Rightarrow>
                     drain_ready blocks consumer
                       (s\<lparr>rs_ready := (rs_ready s)(rs_next_index s := None), rs_next_index := Suc (rs_next_index s)\<rparr>) p))
      else Inr (s, p))"
  by pat_completeness auto
termination
  by (relation "measure (\<lambda>(blocks, consumer, s, p). blocks - rs_next_index s)") auto

declare drain_ready.simps [simp del]

fun resolve_loop ::
  "hash16 \<Rightarrow> codec \<Rightarrow> stream_reader \<Rightarrow> bool \<Rightarrow> 'c consumer \<Rightarrow> ((nat \<times> nat \<times> bool) \<times> bytes) list \<Rightarrow>
   resolve_state \<Rightarrow> 'c pass_state \<Rightarrow> (exn \<times> stream_report \<times> 'c) + (resolve_state \<times> 'c pass_state)" where
  "resolve_loop h16 codec r check_spares consumer [] s p = Inr (s, p)"
| "resolve_loop h16 codec r check_spares consumer (((position, index, first_copy), raw) # slots) s p =
     (case resolve_slot h16 codec r check_spares (index, first_copy) raw (s, ps_report p) of
        (s, report) \<Rightarrow>
          (case drain_ready (rd_blocks r) consumer s (p\<lparr>ps_report := report\<rparr>) of
             Inl stop \<Rightarrow> Inl stop
           | Inr (s, p) \<Rightarrow> resolve_loop h16 codec r check_spares consumer slots s p))"

text \<open>The blocks no slot accounted for.\<close>

fun resolve_rest :: "'c consumer \<Rightarrow> nat list \<Rightarrow> 'c pass_state \<Rightarrow> 'c outcome" where
  "resolve_rest consumer [] p = Inr p"
| "resolve_rest consumer (index # rest) p =
     (let report = ps_report p;
          report = (if index \<in> set (failed_blocks report) then report
                    else report\<lparr>failed_blocks := failed_blocks report @ [index]\<rparr>)
      in case hand_out consumer index None (p\<lparr>ps_report := report\<rparr>) of
           Inl stop \<Rightarrow> Inl stop
         | Inr p \<Rightarrow> resolve_rest consumer rest p)"

definition check_digest :: "hash32 \<Rightarrow> stream_reader \<Rightarrow> bytes \<Rightarrow> stream_report \<Rightarrow> stream_report" where
  "check_digest h32 r digest report =
     (case rd_trailer r of
        None \<Rightarrow> report
      | Some trailer \<Rightarrow>
          if failed_blocks report \<noteq> [] then report
          else if blocks_digest h32 (sh_container_id (rd_header r)) digest = tr_blocks_digest trailer
          then report\<lparr>unverified_blocks := []\<rparr>
          else if unverified_blocks report \<noteq> []
          then report\<lparr>failed_blocks := failed_blocks report @ unverified_blocks report, unverified_blocks := []\<rparr>
          else report\<lparr>problems := problems report @ [DigestMismatch]\<rparr>)"

definition reader_pass ::
  "primitives \<Rightarrow> codec \<Rightarrow> stream_reader \<Rightarrow> bool \<Rightarrow> 'c consumer \<Rightarrow> 'c \<Rightarrow>
   (exn \<times> stream_report \<times> 'c) + (stream_report \<times> 'c)" where
  "reader_pass prim codec r check_spares consumer init =
     (let p = \<lparr>ps_report = fresh_report (rd_blocks r) (rd_metadata_damaged r), ps_digest = [], ps_result = init\<rparr>;
          s = \<lparr>rs_waiting = Map.empty, rs_ready = Map.empty, rs_first_tags = Map.empty, rs_next_index = 0\<rparr>
      in case resolve_loop (prim_h16 prim) codec r check_spares consumer
                (zip (schedule (rd_blocks r) (interleave (rd_layout r))) (read_slots r)) s p of
           Inl stop \<Rightarrow> Inl stop
         | Inr (s, p) \<Rightarrow>
             (case resolve_rest consumer [rs_next_index s..<rd_blocks r] p of
                Inl stop \<Rightarrow> Inl stop
              | Inr p \<Rightarrow> Inr (check_digest (prim_h32 prim) r (ps_digest p) (ps_report p), ps_result p)))"

section \<open>Decrypting and verifying\<close>

definition discard_unverified :: "nat \<Rightarrow> stream_report \<Rightarrow> stream_report" where
  "discard_unverified index report =
     (if index \<in> set (unverified_blocks report)
      then report\<lparr>unverified_blocks := remove1 index (unverified_blocks report)\<rparr> else report)"

definition block_ciphertext :: "stream_block \<Rightarrow> bytes" where
  "block_ciphertext block = py_slice (sb_data block) (struct_size DESCRIPTOR) (sb_chunk_len block)"

definition chunk_consumer :: "primitives \<Rightarrow> stream_reader \<Rightarrow> chunk_cipher \<Rightarrow> bytes list consumer" where
  "chunk_consumer prim r cipher index block st =
     (case st of (report, yielded) \<Rightarrow>
      case block of
        None \<Rightarrow> Inl (CorruptionError, report, yielded)
      | Some block \<Rightarrow>
          (case chunk_open (prim_dec prim) cipher (int index) (block_ciphertext block) (int index = int (rd_blocks r) - 1) of
             Inl e \<Rightarrow>
               if catches CorruptionError e
               then Inl (CorruptionError, report\<lparr>failed_blocks := failed_blocks report @ [index]\<rparr>, yielded)
               else Inl (e, report, yielded)
           | Inr plaintext \<Rightarrow>
               Inr (discard_unverified index report, if plaintext \<noteq> [] then yielded @ [plaintext] else yielded)))"

definition reader_chunks ::
  "primitives \<Rightarrow> codec \<Rightarrow> stream_reader \<Rightarrow> bool \<Rightarrow> (exn \<times> stream_report option \<times> bytes list) + (stream_report \<times> bytes list)" where
  "reader_chunks prim codec r check_spares =
     (case rd_cipher r of
        None \<Rightarrow> Inl (ContainerError, None, [])
      | Some cipher \<Rightarrow>
          (case reader_pass prim codec r check_spares (chunk_consumer prim r cipher) [] of
             Inl (e, report, yielded) \<Rightarrow> Inl (e, Some report, yielded)
           | Inr (report, yielded) \<Rightarrow>
               if \<not> stream_ok report then Inl (CorruptionError, Some report, yielded) else Inr (report, yielded)))"

definition read_all :: "primitives \<Rightarrow> codec \<Rightarrow> stream_reader \<Rightarrow> bytes result" where
  "read_all prim codec r =
     (case reader_chunks prim codec r False of
        Inl (e, _, _) \<Rightarrow> Inl e
      | Inr (_, chunks) \<Rightarrow> Inr (concat chunks))"

definition verify_consumer :: "primitives \<Rightarrow> stream_reader \<Rightarrow> unit consumer" where
  "verify_consumer prim r index block st =
     (case st of (report, _) \<Rightarrow>
      case (block, rd_cipher r) of
        (Some block, Some cipher) \<Rightarrow>
          (case chunk_open (prim_dec prim) cipher (int index) (block_ciphertext block) (int index = int (rd_blocks r) - 1) of
             Inl e \<Rightarrow>
               if catches CorruptionError e
               then Inr (report\<lparr>failed_blocks := failed_blocks report @ [index]\<rparr>, ())
               else Inl (e, report, ())
           | Inr _ \<Rightarrow> Inr (discard_unverified index report, ()))
      | _ \<Rightarrow> Inr (report, ()))"

definition reader_verify :: "primitives \<Rightarrow> codec \<Rightarrow> stream_reader \<Rightarrow> stream_report result" where
  "reader_verify prim codec r =
     (case reader_pass prim codec r True (verify_consumer prim r) () of
        Inl (e, _, _) \<Rightarrow> Inl e
      | Inr (report, _) \<Rightarrow> Inr report)"

end
