(* ===== verification/ReaderPass.thy ===== *)
theory ReaderPass
  imports StreamReader
begin

text \<open>
  The reader's pass over a container in which every block has an intact copy: the state of
  \<^verbatim>\<open>_resolved\<close> after any number of slots in closed form, and from it the report and the result of
  the whole pass, for any consumer that accepts the blocks.
\<close>

section \<open>The order in which copies arrive\<close>

text \<open>\<open>b\<close> first copies and \<open>a\<close> second copies have been seen; both come in the order of the blocks.\<close>

fun arrivals :: "nat \<Rightarrow> nat \<Rightarrow> nat \<Rightarrow> (nat \<times> nat \<times> bool) list \<Rightarrow> bool" where
  "arrivals n b a [] \<longleftrightarrow> b = n \<and> a = n"
| "arrivals n b a ((p, i, c) # es) \<longleftrightarrow>
     (if c then i = b \<and> b < n \<and> arrivals n (Suc b) a es else i = a \<and> a < b \<and> arrivals n b (Suc a) es)"

lemma arrivals_bound: "arrivals n b a es \<Longrightarrow> b \<le> n"
  by (induction n b a es rule: arrivals.induct) (auto split: if_splits)

lemma arrivals_schedule:
  assumes "1 \<le> il"
  shows "arrivals n 0 0 (schedule n il)"
proof -
  have "arrivals n (min s n) (s - il) (concat (map (schedule_step n il) [s..<n + il]))" if "s \<le> n + il" for s
    using that
  proof (induction "n + il - s" arbitrary: s)
    case 0
    then show ?case by simp
  next
    case (Suc m)
    then have s: "[s..<n + il] = s # [Suc s..<n + il]" by (simp add: upt_conv_Cons)
    have "arrivals n (min (Suc s) n) (Suc s - il) (concat (map (schedule_step n il) [Suc s..<n + il]))"
      using Suc by simp
    then show ?case
      using assms Suc.hyps(2) by (auto simp: s schedule_step_def min_def Suc_diff_le not_le not_less_eq_eq split: if_splits)
  qed
  from this [of 0] show ?thesis by (simp add: schedule_eq)
qed

section \<open>A pass in which every block has an intact copy\<close>

locale steady_pass =
  fixes prim :: primitives and codec :: codec and r :: stream_reader and spares :: bool
    and consumer :: "'c consumer" and block :: "nat \<Rightarrow> stream_block" and advance :: "nat \<Rightarrow> 'c \<Rightarrow> 'c"
    and intact :: "nat \<Rightarrow> bool" and intact2 :: "nat \<Rightarrow> bool" and start :: 'c
  assumes consume: "i < rd_blocks r \<Longrightarrow> unverified_blocks report = [] \<Longrightarrow>
      consumer i (Some (block i)) (report, x) = Inr (report, advance i x)"
    and a_copy: "i < rd_blocks r \<Longrightarrow> intact i \<or> intact2 i"
begin

abbreviation h16 :: hash16 where "h16 \<equiv> prim_h16 prim"

definition slot_seen :: "nat \<Rightarrow> bool \<Rightarrow> bytes \<Rightarrow> bool" where
  "slot_seen i c raw \<longleftrightarrow> length raw = slot_size (rd_layout r) \<and>
     (if (if c then intact i else intact2 i)
      then reader_clean h16 r raw i = Some (block i) \<and> spare_intact h16 r raw (Some (sb_tag (block i)))
      else reader_clean h16 r raw i = None \<and> \<not> spare_intact h16 r raw (Some (sb_tag (block i))))"

definition report_at :: "nat \<Rightarrow> nat \<Rightarrow> stream_report" where
  "report_at b a = (fresh_report (rd_blocks r) (rd_metadata_damaged r))
     \<lparr>blocks_direct := length (filter intact [0..<b]),
      blocks_used_b := length (filter (\<lambda>i. \<not> intact i) [0..<a]),
      spares_damaged := (if spares then filter (\<lambda>i. intact i \<and> \<not> intact2 i) [0..<a] else [])\<rparr>"

definition resolved :: "nat \<Rightarrow> nat \<Rightarrow> nat \<Rightarrow> bool" where
  "resolved b a i \<longleftrightarrow> i < b \<and> intact i \<or> i < a"

definition state_at :: "nat \<Rightarrow> nat \<Rightarrow> resolve_state \<Rightarrow> bool" where
  "state_at b a s \<longleftrightarrow>
     rs_ready s = (\<lambda>i. if rs_next_index s \<le> i \<and> resolved b a i then Some (Some (block i)) else None) \<and>
     (\<forall>i. rs_waiting s i \<noteq> None \<longleftrightarrow> a \<le> i \<and> i < b \<and> \<not> intact i) \<and>
     (spares \<longrightarrow> (\<forall>i. a \<le> i \<and> i < b \<and> intact i \<longrightarrow> rs_first_tags s i = Some (sb_tag (block i)))) \<and>
     (\<forall>i < rs_next_index s. resolved b a i)"

definition pass_at :: "nat \<Rightarrow> nat \<Rightarrow> nat \<Rightarrow> 'c pass_state" where
  "pass_at b a k = \<lparr>ps_report = report_at b a, ps_digest = concat (map (\<lambda>i. sb_tag (block i)) [0..<k]),
     ps_result = fold advance [0..<k] start\<rparr>"

lemma report_at_simps [simp]:
  "unverified_blocks (report_at b a) = []" "failed_blocks (report_at b a) = []" "problems (report_at b a) = []"
  "blocks_direct (report_at b a) = length (filter intact [0..<b])"
  "blocks_used_b (report_at b a) = length (filter (\<lambda>i. \<not> intact i) [0..<a])"
  by (simp_all add: report_at_def fresh_report_def)

lemma hand_out_pass_at:
  assumes "k < rd_blocks r"
  shows "hand_out consumer k (Some (block k)) (pass_at b a k) = Inr (pass_at b a (Suc k))"
  using assms by (simp add: hand_out_def pass_at_def consume)

lemma drain_state_at:
  assumes "state_at b a s"
  shows "\<exists>s'. drain_ready (rd_blocks r) consumer s (pass_at b a (rs_next_index s)) = Inr (s', pass_at b a (rs_next_index s')) \<and>
    state_at b a s' \<and> (rs_next_index s' < rd_blocks r \<longrightarrow> \<not> resolved b a (rs_next_index s'))"
  using assms
proof (induction "rd_blocks r - rs_next_index s" arbitrary: s rule: less_induct)
  case less
  let ?k = "rs_next_index s"
  show ?case
  proof (cases "?k < rd_blocks r \<and> resolved b a ?k")
    case True
    let ?s = "s\<lparr>rs_ready := (rs_ready s)(?k := None), rs_next_index := Suc ?k\<rparr>"
    have ready: "rs_ready s ?k = Some (Some (block ?k))" using less.prems True by (simp add: state_at_def)
    have "state_at b a ?s" using less.prems True by (auto simp: state_at_def fun_eq_iff less_Suc_eq)
    then have "\<exists>s'. drain_ready (rd_blocks r) consumer ?s (pass_at b a (rs_next_index ?s)) = Inr (s', pass_at b a (rs_next_index s')) \<and>
        state_at b a s' \<and> (rs_next_index s' < rd_blocks r \<longrightarrow> \<not> resolved b a (rs_next_index s'))"
      using True by (intro less.hyps) auto
    then show ?thesis
      using True hand_out_pass_at [of ?k b a] by (simp add: drain_ready.simps [of _ _ s] ready)
  next
    case False
    then have "drain_ready (rd_blocks r) consumer s p = Inr (s, p)" for p
      using less.prems by (auto simp: drain_ready.simps [of _ _ s] state_at_def)
    then show ?thesis using less.prems False by blast
  qed
qed

lemma first_copy_state_at:
  assumes s: "state_at b a s" and raw: "slot_seen b True raw" and "a \<le> b"
  shows "\<exists>s'. resolve_slot h16 codec r spares (b, True) raw (s, report_at b a) = (s', report_at (Suc b) a) \<and>
    state_at (Suc b) a s' \<and> rs_next_index s' = rs_next_index s"
proof -
  have next_le: "rs_next_index s \<le> b"
    using s assms(3) by (auto simp: state_at_def resolved_def not_less [symmetric])
  have len: "length raw = slot_size (rd_layout r)" using raw by (simp add: slot_seen_def)
  show ?thesis
  proof (cases "intact b")
    case True
    then have "reader_clean h16 r raw b = Some (block b)" using raw by (simp add: slot_seen_def)
    then show ?thesis
      using s True next_le assms(3) len
      by (auto simp: resolve_slot_def Let_def state_at_def resolved_def report_at_def fun_eq_iff less_Suc_eq)
  next
    case False
    then have "reader_clean h16 r raw b = None" using raw by (simp add: slot_seen_def)
    then show ?thesis
      using s False next_le assms(3) len
      by (auto simp: resolve_slot_def Let_def state_at_def resolved_def report_at_def fun_eq_iff less_Suc_eq)
  qed
qed

lemma second_copy_state_at:
  assumes s: "state_at b a s" and raw: "slot_seen a False raw" and "a < b" and b: "b \<le> rd_blocks r"
  shows "\<exists>s'. resolve_slot h16 codec r spares (a, False) raw (s, report_at b a) = (s', report_at b (Suc a)) \<and>
    state_at b (Suc a) s' \<and> rs_next_index s' = rs_next_index s"
proof -
  have len: "length raw = slot_size (rd_layout r)" using raw by (simp add: slot_seen_def)
  show ?thesis
  proof (cases "intact a")
    case True
    then have w: "rs_waiting s a = None" using s assms(3) by (auto simp: state_at_def)
    have res: "resolved b (Suc a) = resolved b a" using True assms(3) by (auto simp: resolved_def fun_eq_iff less_Suc_eq)
    have wt: "(\<forall>i. rs_waiting s i \<noteq> None \<longleftrightarrow> Suc a \<le> i \<and> i < b \<and> \<not> intact i)"
      using s True w by (auto simp: state_at_def Suc_le_eq order.order_iff_strict)
    have tag: "spares \<longrightarrow> rs_first_tags s a = Some (sb_tag (block a))"
      using s True assms(3) unfolding state_at_def by blast
    have sp: "spares \<longrightarrow> spare_intact h16 r raw (rs_first_tags s a) = intact2 a"
      using tag raw by (auto simp: slot_seen_def split: if_splits)
    let ?s = "if spares then s\<lparr>rs_first_tags := (rs_first_tags s)(a := None)\<rparr> else s"
    have "report_at b (Suc a) = (if spares \<and> \<not> intact2 a
        then (report_at b a)\<lparr>spares_damaged := spares_damaged (report_at b a) @ [a]\<rparr> else report_at b a)"
      using True unfolding report_at_def by simp
    then have "resolve_slot h16 codec r spares (a, False) raw (s, report_at b a) = (?s, report_at b (Suc a))"
      using w len sp by (simp add: resolve_slot_def Let_def)
    moreover have "state_at b (Suc a) ?s"
    proof -
      have "(\<forall>i. rs_waiting ?s i \<noteq> None \<longleftrightarrow> Suc a \<le> i \<and> i < b \<and> \<not> intact i)" using wt by simp
      moreover have "spares \<longrightarrow> (\<forall>i. Suc a \<le> i \<and> i < b \<and> intact i \<longrightarrow> rs_first_tags ?s i = Some (sb_tag (block i)))"
        using s unfolding state_at_def by simp
      ultimately show ?thesis using s unfolding state_at_def res by simp
    qed
    ultimately show ?thesis by fastforce
  next
    case False
    then have "intact2 a" using a_copy [of a] assms(3) b by simp
    then have clean: "reader_clean h16 r raw a = Some (block a)" using raw by (simp add: slot_seen_def)
    have "rs_waiting s a \<noteq> None" using s False assms(3) unfolding state_at_def by blast
    then obtain w where w: "rs_waiting s a = Some w" by blast
    have "\<not> resolved b a a" using False by (simp add: resolved_def)
    then have next_le: "rs_next_index s \<le> a" using s by (auto simp: state_at_def not_less [symmetric])
    show ?thesis
      using s False w len clean next_le assms(3)
      by (auto simp: resolve_slot_def Let_def reader_repair_def state_at_def resolved_def report_at_def fun_eq_iff
          less_Suc_eq Suc_le_eq order.order_iff_strict)
  qed
qed

lemma resolve_loop_steady:
  assumes "arrivals (rd_blocks r) b a (map fst slots)"
    and "\<forall>((p, i, c), raw) \<in> set slots. slot_seen i c raw"
    and "state_at b a s" and "rs_next_index s < rd_blocks r \<longrightarrow> \<not> resolved b a (rs_next_index s)" and "a \<le> b"
  shows "\<exists>s'. resolve_loop h16 codec r spares consumer slots s (pass_at b a (rs_next_index s))
      = Inr (s', pass_at (rd_blocks r) (rd_blocks r) (rd_blocks r)) \<and> rs_next_index s' = rd_blocks r"
  using assms
proof (induction slots arbitrary: b a s)
  case Nil
  then have "b = rd_blocks r" "a = rd_blocks r" by auto
  moreover have "rs_next_index s = rd_blocks r"
  proof (rule antisym)
    show "rs_next_index s \<le> rd_blocks r"
    proof (rule ccontr)
      assume "\<not> rs_next_index s \<le> rd_blocks r"
      then have "resolved b a (rd_blocks r)" using Nil.prems(3) by (simp add: state_at_def)
      then show False using Nil.prems(1) by (simp add: resolved_def)
    qed
    show "rd_blocks r \<le> rs_next_index s"
      using Nil.prems(1,4) by (auto simp: resolved_def not_less [symmetric])
  qed
  ultimately show ?case by auto
next
  case (Cons e slots)
  obtain p i c raw where e: "e = ((p, i, c), raw)" by (metis prod.exhaust)
  define b' a' where "b' = (if c then Suc b else b)" and "a' = (if c then a else Suc a)"
  have seen: "slot_seen i c raw" using Cons.prems(2) by (simp add: e)
  have rest: "arrivals (rd_blocks r) b' a' (map fst slots)" and i: "i = (if c then b else a)"
    and le: "a' \<le> b'"
    using Cons.prems(1,5) by (auto simp: e b'_def a'_def split: if_splits)
  have "b \<le> rd_blocks r" by (rule arrivals_bound [OF Cons.prems(1)])
  then obtain s1 where s1: "resolve_slot h16 codec r spares (i, c) raw (s, report_at b a) = (s1, report_at b' a')"
      "state_at b' a' s1" "rs_next_index s1 = rs_next_index s"
    using first_copy_state_at [OF Cons.prems(3), of raw] second_copy_state_at [OF Cons.prems(3), of raw]
      seen i Cons.prems(1,5) by (cases c) (auto simp: e b'_def a'_def)
  obtain s2 where s2: "drain_ready (rd_blocks r) consumer s1 (pass_at b' a' (rs_next_index s1)) = Inr (s2, pass_at b' a' (rs_next_index s2))"
      "state_at b' a' s2" "rs_next_index s2 < rd_blocks r \<longrightarrow> \<not> resolved b' a' (rs_next_index s2)"
    using drain_state_at [OF s1(2)] by blast
  have upd: "(pass_at b a k)\<lparr>ps_report := report_at b' a'\<rparr> = pass_at b' a' k"
      "ps_report (pass_at b a k) = report_at b a" for k
    by (simp_all add: pass_at_def)
  have "\<exists>s'. resolve_loop h16 codec r spares consumer slots s2 (pass_at b' a' (rs_next_index s2))
      = Inr (s', pass_at (rd_blocks r) (rd_blocks r) (rd_blocks r)) \<and> rs_next_index s' = rd_blocks r"
    by (rule Cons.IH [OF rest _ s2(2,3) le]) (use Cons.prems(2) in auto)
  then show ?case by (simp add: e upd s1(1) flip: s1(3)) (simp add: s2(1))
qed

lemma reader_pass_steady:
  assumes il: "1 \<le> interleave (rd_layout r)" and len: "length (read_slots r) = 2 * rd_blocks r"
    and seen: "\<And>p i c. (p, i, c) \<in> set (schedule (rd_blocks r) (interleave (rd_layout r))) \<Longrightarrow> slot_seen i c (read_slots r ! p)"
    and digest: "\<And>t. rd_trailer r = Some t \<Longrightarrow>
      blocks_digest (prim_h32 prim) (sh_container_id (rd_header r)) (concat (map (\<lambda>i. sb_tag (block i)) [0..<rd_blocks r]))
        = tr_blocks_digest t"
  shows "reader_pass prim codec r spares consumer start
    = Inr (report_at (rd_blocks r) (rd_blocks r), fold advance [0..<rd_blocks r] start)"
proof -
  let ?n = "rd_blocks r"
  let ?slots = "zip (schedule ?n (interleave (rd_layout r))) (read_slots r)"
  let ?s = "\<lparr>rs_waiting = Map.empty, rs_ready = Map.empty, rs_first_tags = Map.empty, rs_next_index = 0\<rparr>"
  have fsts: "map fst ?slots = schedule ?n (interleave (rd_layout r))"
    by (simp add: len length_schedule)
  have "slot_seen i c raw" if slot: "((p, i, c), raw) \<in> set ?slots" for p i c raw
  proof -
    obtain q where q: "q < 2 * ?n" "schedule ?n (interleave (rd_layout r)) ! q = (p, i, c)" "read_slots r ! q = raw"
      using slot by (auto simp: set_zip length_schedule len)
    then have "q = p" using schedule_nth [OF q(1), of "interleave (rd_layout r)"] by simp
    moreover have "(p, i, c) \<in> set (schedule ?n (interleave (rd_layout r)))" using slot by (rule set_zip_leftD)
    ultimately show ?thesis using seen q(3) by blast
  qed
  then have all: "\<forall>((p, i, c), raw) \<in> set ?slots. slot_seen i c raw" by blast
  have s: "state_at 0 0 ?s" by (simp add: state_at_def resolved_def)
  have "pass_at 0 0 0 = \<lparr>ps_report = fresh_report ?n (rd_metadata_damaged r), ps_digest = [], ps_result = start\<rparr>"
    by (simp add: pass_at_def report_at_def fresh_report_def)
  moreover obtain s' where "resolve_loop h16 codec r spares consumer ?slots ?s (pass_at 0 0 0) = Inr (s', pass_at ?n ?n ?n)"
      "rs_next_index s' = ?n"
    using resolve_loop_steady [of 0 0 ?slots ?s] arrivals_schedule [OF il, of ?n] all s
    by (auto simp: fsts resolved_def)
  moreover have "check_digest (prim_h32 prim) r (concat (map (\<lambda>i. sb_tag (block i)) [0..<?n])) (report_at ?n ?n) = report_at ?n ?n"
    using digest by (auto simp: check_digest_def report_at_def fresh_report_def split: option.split)
  ultimately show ?thesis by (simp add: reader_pass_def Let_def) (simp add: pass_at_def)
qed

end

section \<open>The order of the blocks handed out\<close>

text \<open>
  Whatever the container holds, a pass that comes to its end has handed out the blocks \<open>0, 1, 2, ...\<close>
  in order, each once: an invariant of the consumer, indexed by the number of blocks handed out,
  holds at the end for all the blocks.
\<close>

lemma resolve_slot_next: "rs_next_index (fst (resolve_slot h16 codec r spares event raw (s, report))) = rs_next_index s"
  by (auto simp: resolve_slot_def Let_def split: prod.split option.split)

locale in_order =
  fixes consumer :: "'c consumer" and n :: nat and inv :: "nat \<Rightarrow> 'c \<Rightarrow> bool"
  assumes step: "inv k x \<Longrightarrow> k < n \<Longrightarrow> consumer k b (report, x) = Inr (report', x') \<Longrightarrow> inv (Suc k) x'"
begin

lemma hand_out_inv:
  assumes "hand_out consumer k b p = Inr p'" and "inv k (ps_result p)" and "k < n"
  shows "inv (Suc k) (ps_result p')"
  using assms step [of k "ps_result p" b "ps_report p"]
  by (auto simp: hand_out_def Let_def split: sum.splits prod.splits)

lemma drain_inv:
  assumes "drain_ready n consumer s p = Inr (s', p')" and "inv (rs_next_index s) (ps_result p)" and "rs_next_index s \<le> n"
  shows "inv (rs_next_index s') (ps_result p') \<and> rs_next_index s' \<le> n"
  using assms
proof (induction "n - rs_next_index s" arbitrary: s p rule: less_induct)
  case less
  show ?case
  proof (cases "rs_next_index s < n \<and> rs_ready s (rs_next_index s) \<noteq> None")
    case False
    then have "(s', p') = (s, p)"
      using less.prems(1) by (auto simp: drain_ready.simps [of n consumer s p] split: if_splits)
    then show ?thesis using less.prems by simp
  next
    case True
    then obtain b where b: "rs_ready s (rs_next_index s) = Some b" by blast
    let ?s = "s\<lparr>rs_ready := (rs_ready s)(rs_next_index s := None), rs_next_index := Suc (rs_next_index s)\<rparr>"
    obtain p1 where p1: "hand_out consumer (rs_next_index s) b p = Inr p1" "drain_ready n consumer ?s p1 = Inr (s', p')"
      using less.prems(1) True b by (auto simp: drain_ready.simps [of n consumer s p] split: sum.splits)
    show ?thesis
      by (rule less.hyps [OF _ p1(2)]) (use True hand_out_inv [OF p1(1) less.prems(2)] in auto)
  qed
qed

lemma resolve_loop_inv:
  assumes "resolve_loop h16 codec r spares consumer slots s p = Inr (s', p')" and "rd_blocks r = n"
    and "inv (rs_next_index s) (ps_result p)" and "rs_next_index s \<le> n"
  shows "inv (rs_next_index s') (ps_result p') \<and> rs_next_index s' \<le> n"
  using assms
proof (induction slots arbitrary: s p)
  case (Cons e slots)
  obtain q i c raw where e: "e = ((q, i, c), raw)" by (metis prod.exhaust)
  obtain s1 rep where s1: "resolve_slot h16 codec r spares (i, c) raw (s, ps_report p) = (s1, rep)" by fastforce
  obtain s2 p2 where s2: "drain_ready n consumer s1 (p\<lparr>ps_report := rep\<rparr>) = Inr (s2, p2)"
      "resolve_loop h16 codec r spares consumer slots s2 p2 = Inr (s', p')"
    using Cons.prems(1,2) by (auto simp: e s1 split: sum.splits)
  have "rs_next_index s1 = rs_next_index s"
    using resolve_slot_next [of h16 codec r spares "(i, c)" raw s "ps_report p"] by (simp add: s1)
  then show ?case
    using Cons.IH [OF s2(2)] drain_inv [OF s2(1)] Cons.prems by simp
qed simp

lemma resolve_rest_inv:
  "resolve_rest consumer [k..<n] p = Inr p' \<Longrightarrow> inv k (ps_result p) \<Longrightarrow> k \<le> n \<Longrightarrow> inv n (ps_result p')"
proof (induction "n - k" arbitrary: k p)
  case (Suc m)
  let ?report = "if k \<in> set (failed_blocks (ps_report p)) then ps_report p
    else (ps_report p)\<lparr>failed_blocks := failed_blocks (ps_report p) @ [k]\<rparr>"
  have k: "[k..<n] = k # [Suc k..<n]" using Suc.hyps(2) by (simp add: upt_conv_Cons)
  obtain p1 where p1: "hand_out consumer k None (p\<lparr>ps_report := ?report\<rparr>) = Inr p1"
      "resolve_rest consumer [Suc k..<n] p1 = Inr p'"
    using Suc.prems(1) by (auto simp: k Let_def split: sum.splits)
  show ?case
    by (rule Suc.hyps(1) [OF _ p1(2)]) (use Suc.hyps(2) Suc.prems(2) hand_out_inv [OF p1(1)] in auto)
qed simp

lemma reader_pass_inv:
  assumes "reader_pass prim codec r spares consumer start = Inr (report, x)" and "rd_blocks r = n" and "inv 0 start"
  shows "inv n x"
proof -
  obtain s' p' p'' where e: "resolve_loop (prim_h16 prim) codec r spares consumer
        (zip (schedule (rd_blocks r) (interleave (rd_layout r))) (read_slots r))
        \<lparr>rs_waiting = Map.empty, rs_ready = Map.empty, rs_first_tags = Map.empty, rs_next_index = 0\<rparr>
        \<lparr>ps_report = fresh_report (rd_blocks r) (rd_metadata_damaged r), ps_digest = [], ps_result = start\<rparr> = Inr (s', p')"
      "resolve_rest consumer [rs_next_index s'..<n] p' = Inr p''" "x = ps_result p''"
    using assms(1,2) by (auto simp: reader_pass_def Let_def split: sum.splits prod.splits)
  have "inv (rs_next_index s') (ps_result p') \<and> rs_next_index s' \<le> n"
    by (rule resolve_loop_inv [OF e(1) assms(2)]) (simp_all add: assms(3))
  then show ?thesis using resolve_rest_inv [OF e(2)] e(3) by simp
qed

end

end
