(* ===== verification/ReaderCorrect.thy ===== *)
theory ReaderCorrect
  imports ReaderPass
begin

text \<open>
  What \<^verbatim>\<open>StreamReader\<close> makes of the containers \<^verbatim>\<open>StreamWriter\<close> writes: it reads the payload back from
  every copy of a container in which each header, each trailer and each block has one intact copy and
  the damage elsewhere is detected by the checksums; its report says exactly what was damaged; and
  what it returns is never anything but the payload that was sealed.
\<close>

section \<open>Reading slots\<close>

lemma py_slice_py_slice: "j + n \<le> m \<Longrightarrow> py_slice (py_slice xs i m) j n = py_slice xs (i + j) n"
  by (simp add: py_slice_def drop_take min_def add.commute)

lemma slice_of_concat:
  "\<forall>x \<in> set xs. length x = n \<Longrightarrow> p < length xs \<Longrightarrow> py_slice (concat xs) (p * n) n = xs ! p"
proof (induction xs arbitrary: p)
  case (Cons x xs)
  then show ?case by (cases p) (simp_all add: py_slice_def)
qed simp

lemma batched:
  assumes "0 < per"
  shows "concat (map (\<lambda>batch. map (\<lambda>k. f (batch * per + k)) [0..<min per (n - batch * per)]) [0..<(n + per - 1) div per])
    = map f [0..<n]"
proof -
  have "concat (map (\<lambda>batch. map (\<lambda>k. f (batch * per + k)) [0..<min per (n - batch * per)]) [0..<m])
      = map f [0..<min (m * per) n]" for m
  proof (induction m)
    case (Suc m)
    let ?a = "m * per" and ?k = "min per (n - m * per)"
    have "map (\<lambda>k. f (?a + k)) [0..<?k] = map f [?a..<?a + ?k]" by (rule nth_equalityI) simp_all
    moreover have "map f [0..<min ?a n] @ map f [?a..<?a + ?k] = map f [0..<min (Suc m * per) n]"
    proof (cases "?a \<le> n")
      case True
      then have "min (Suc m * per) n = ?a + ?k" "min ?a n = ?a" by (auto simp: min_def)
      then show ?thesis using upt_add_eq_append [of 0 ?a ?k] by simp
    next
      case False
      then show ?thesis by (simp add: min_def)
    qed
    ultimately show ?case using Suc by simp
  qed simp
  moreover have "n \<le> (n + per - 1) div per * per"
    using assms dividend_less_div_times [of per "n + per - 1"] by linarith
  ultimately show ?thesis by (simp add: min_absorb2)
qed

definition slot_in :: "stream_layout \<Rightarrow> bytes \<Rightarrow> nat \<Rightarrow> bytes" where
  "slot_in l src p = py_slice src (HEADER_SIZE + p * slot_size l) (slot_size l)"

lemma read_slots_eq: "read_slots r = map (slot_in (rd_layout r) (rd_source r)) [0..<2 * rd_blocks r]"
proof -
  let ?S = "slot_size (rd_layout r)" and ?n = "2 * rd_blocks r"
  have one: "py_slice (read_at (rd_source r) (int (HEADER_SIZE + batch * READ_BATCH_SLOTS * ?S))
        (int (min READ_BATCH_SLOTS (?n - batch * READ_BATCH_SLOTS) * ?S))) (k * ?S) ?S
      = slot_in (rd_layout r) (rd_source r) (batch * READ_BATCH_SLOTS + k)"
    if "k \<in> set [0..<min READ_BATCH_SLOTS (?n - batch * READ_BATCH_SLOTS)]" for batch k
  proof -
    have "(k + 1) * ?S \<le> min READ_BATCH_SLOTS (?n - batch * READ_BATCH_SLOTS) * ?S"
      using that by (intro mult_le_mono1) simp
    then have "k * ?S + ?S \<le> min READ_BATCH_SLOTS (?n - batch * READ_BATCH_SLOTS) * ?S" by simp
    then show ?thesis
      unfolding read_at_nat slot_in_def by (simp only: py_slice_py_slice) (simp add: algebra_simps)
  qed
  have "read_slots r = concat (map (\<lambda>batch. map (\<lambda>k. slot_in (rd_layout r) (rd_source r) (batch * READ_BATCH_SLOTS + k))
      [0..<min READ_BATCH_SLOTS (?n - batch * READ_BATCH_SLOTS)]) [0..<(?n + READ_BATCH_SLOTS - 1) div READ_BATCH_SLOTS])"
    unfolding read_slots_def Let_def by (intro arg_cong [where f = concat] map_cong [OF refl] one)
  then show ?thesis using batched [of READ_BATCH_SLOTS] by (simp add: READ_BATCH_SLOTS_def)
qed

section \<open>A damaged container that can still be read\<close>

text \<open>
  \<open>src\<close> has the size of the container with the given slots, an intact copy of the header, of the
  trailer and of every block, and where it differs the checksums notice: a first header or trailer
  that is not the one written does not open, a slot that is not the one written does not match its tag.
\<close>

definition front_header :: "bytes \<Rightarrow> bytes" where
  "front_header src = py_slice src 0 HEADER_SIZE"

definition back_header :: "bytes \<Rightarrow> bytes" where
  "back_header src = py_slice src (length src - HEADER_SIZE) HEADER_SIZE"

definition trailer_copy :: "stream_layout \<Rightarrow> nat \<Rightarrow> bytes \<Rightarrow> nat \<Rightarrow> bytes" where
  "trailer_copy l n src k = py_slice src (HEADER_SIZE + 2 * n * slot_size l + k * TRAILER_SIZE) TRAILER_SIZE"

definition slot_detected :: "hash16 \<Rightarrow> stream_header \<Rightarrow> bytes \<Rightarrow> bool" where
  "slot_detected h16 h raw \<longleftrightarrow>
     slot_tag h16 (sh_container_id h) (take (encoded_size (sh_layout h)) raw) \<noteq> drop (encoded_size (sh_layout h)) raw"

definition readable_damage :: "hash16 \<Rightarrow> stream_header \<Rightarrow> bytes \<Rightarrow> bytes \<Rightarrow> bytes list \<Rightarrow> bytes \<Rightarrow> bool" where
  "readable_damage h16 h ad trailer slots src \<longleftrightarrow>
     (let l = sh_layout h; n = length slots; places = schedule n (interleave l)
      in length src = container_size l n \<and>
         (front_header src = ad \<or> open_sealed_header h16 (front_header src) = None \<and> back_header src = ad) \<and>
         (trailer_copy l n src 0 = trailer \<or>
          trailer_open h16 h (trailer_copy l n src 0) = None \<and> trailer_copy l n src 1 = trailer) \<and>
         (\<forall>(p, i, c) \<in> set places. slot_in l src p = slots ! i \<or> slot_detected h16 h (slot_in l src p)) \<and>
         (\<forall>i < n. \<exists>(p, j, c) \<in> set places. j = i \<and> slot_in l src p = slots ! i))"

definition damaged_metadata :: "stream_layout \<Rightarrow> nat \<Rightarrow> bytes \<Rightarrow> bytes \<Rightarrow> bytes \<Rightarrow> metadata_part list" where
  "damaged_metadata l n ad trailer src =
     map fst (filter (\<lambda>(name, raw). raw \<noteq> ad) [(FrontHeader, front_header src), (BackHeader, back_header src)]) @
     map fst (filter (\<lambda>(name, raw). raw \<noteq> trailer)
       [(TrailerCopy 1, trailer_copy l n src 0), (TrailerCopy 2, trailer_copy l n src 1)])"

locale damaged_container = stream_setting +
  fixes data trailer src :: bytes and dec :: aead_dec and codec :: codec
  assumes room: "length (chunks_of (chunk_capacity (sh_layout h)) data) \<le> MAX_BLOCKS"
    and trailer: "trailer_seal (prim_h16 prim) (container_trailer prim h key ad data) = Inr trailer"
    and damage: "readable_damage (prim_h16 prim) h ad trailer (container_slots prim h key ad data) src"
    and opens: "i < length (chunks_of (chunk_capacity (sh_layout h)) data) \<Longrightarrow>
      f = (Suc i = length (chunks_of (chunk_capacity (sh_layout h)) data)) \<Longrightarrow>
      dec key (nonce_of h i f) (sealed_chunk prim h key ad i (chunks_of (chunk_capacity (sh_layout h)) data ! i) f) ad
        = Some (chunks_of (chunk_capacity (sh_layout h)) data ! i)"
begin

abbreviation chunks :: "bytes list" where "chunks \<equiv> chunks_of (chunk_capacity layout) data"
abbreviation slots :: "bytes list" where "slots \<equiv> container_slots prim h key ad data"
abbreviation prim' :: primitives where "prim' \<equiv> prim\<lparr>prim_dec := dec\<rparr>"
abbreviation the_trailer :: stream_trailer where "the_trailer \<equiv> container_trailer prim h key ad data"
abbreviation places :: "(nat \<times> nat \<times> bool) list" where "places \<equiv> schedule (length chunks) (interleave layout)"

definition reader :: "chunk_cipher option \<Rightarrow> stream_reader" where
  "reader c = \<lparr>rd_source = src, rd_header = h, rd_cipher = c, rd_trailer = Some the_trailer,
     rd_blocks = length chunks, rd_metadata_damaged = damaged_metadata layout (length chunks) ad trailer src\<rparr>"

lemma reader_simps [simp]:
  "rd_source (reader c) = src" "rd_header (reader c) = h" "rd_cipher (reader c) = c"
  "rd_trailer (reader c) = Some the_trailer" "rd_blocks (reader c) = length chunks"
  "rd_metadata_damaged (reader c) = damaged_metadata layout (length chunks) ad trailer src"
  by (simp_all add: reader_def)

lemma length_src: "length src = container_size layout (length chunks)"
  using damage by (simp add: readable_damage_def Let_def)

lemma chunk_small: "i < length chunks \<Longrightarrow> length (chunks ! i) \<le> chunk_capacity layout"
  using chunks_of_small [OF _ nth_mem] capacity_eq(2) by simp

lemma chunk_full:
  assumes "i < length chunks" and "Suc i \<noteq> length chunks"
  shows "length (chunks ! i) = chunk_capacity layout"
proof -
  have cap: "0 < chunk_capacity layout" using capacity_eq(2) by linarith
  have "chunks ! i = butlast chunks ! i" using assms by (simp add: nth_butlast)
  moreover have "butlast chunks ! i \<in> set (butlast chunks)" using assms by (intro nth_mem) simp
  ultimately show ?thesis using chunks_of_lengths [OF cap, of data] by simp
qed

definition block :: "nat \<Rightarrow> stream_block" where
  "block i = \<lparr>sb_data = block_of prim h key ad i (chunks ! i) (Suc i = length chunks),
     sb_chunk_len = length (chunks ! i) + TAG_LENGTH,
     sb_tag = slot_tag (prim_h16 prim) (sh_container_id h)
       (encode (block_of prim h key ad i (chunks ! i) (Suc i = length chunks)) (nsym layout))\<rparr>"

lemma slot_nth: "i < length chunks \<Longrightarrow> slots ! i = encode (sb_data (block i)) (nsym layout) @ sb_tag (block i)"
  by (simp add: container_slots_def Let_def slot_of_def block_def)

lemma slots_parts:
  assumes "i < length chunks"
  shows "take (encoded_size layout) (slots ! i) = encode (sb_data (block i)) (nsym layout)"
    and "drop (encoded_size layout) (slots ! i) = sb_tag (block i)"
    and "length (slots ! i) = slot_size layout"
proof -
  have "length (encode (sb_data (block i)) (nsym layout)) = encoded_size layout"
    using chunk_small [OF assms]
    by (simp add: block_def rs.length_enc [OF nsym_fine] length_block_of encoded_size_def)
  then show "take (encoded_size layout) (slots ! i) = encode (sb_data (block i)) (nsym layout)"
    "drop (encoded_size layout) (slots ! i) = sb_tag (block i)"
    by (simp_all add: slot_nth [OF assms])
  show "length (slots ! i) = slot_size layout"
    using assms by (intro container_slot_length [of _ data] nth_mem) simp
qed

lemma block_descriptor:
  assumes "i < length chunks"
  shows "descriptor_fields (sb_data (block i)) = Some (i, sb_chunk_len (block i), if Suc i = length chunks then FINAL_FLAG else 0)"
    and "py_slice (sb_data (block i)) 13 3 = replicate 3 0"
proof -
  let ?f = "Suc i = length chunks"
  have i: "i < MAX_CHUNKS" using assms room by (simp add: MAX_BLOCKS_def)
  have "length (chunks ! i) + 16 \<le> block_size layout" using chunk_small [OF assms] capacity_eq by linarith
  then have pack: "struct_pack DESCRIPTOR [Num i, Num (length (chunks ! i) + 16), Num (if ?f then FINAL_FLAG else 0)]
      = Some (be_bytes 8 i @ be_bytes 4 (length (chunks ! i) + 16) @ [if ?f then 1 else 0] @ replicate 3 0)"
    by (rule descriptor_pack [OF i])
  let ?d = "be_bytes 8 i @ be_bytes 4 (length (chunks ! i) + 16) @ [if ?f then 1 else 0] @ replicate 3 0 :: bytes"
  obtain rest where data: "sb_data (block i) = ?d @ rest"
    by (simp add: block_def block_of_def Let_def length_sealed_chunk)
  have fits: "fits DESCRIPTOR [Num i, Num (length (chunks ! i) + 16), Num (if ?f then FINAL_FLAG else 0)]"
    using i \<open>length (chunks ! i) + 16 \<le> block_size layout\<close> layout_okD(2) [OF layout_fine]
    by (simp add: DESCRIPTOR_def MAX_CHUNKS_def FINAL_FLAG_def)
  have fields: "struct_fields DESCRIPTOR (sb_data (block i))
      = [Num i, Num (length (chunks ! i) + 16), Num (if ?f then FINAL_FLAG else 0)]"
    unfolding data by (rule struct_fields_pack [OF fits pack])
  have len: "length ?d = 16" by simp
  have "16 \<le> length (sb_data (block i))" by (simp add: data)
  then show "descriptor_fields (sb_data (block i)) = Some (i, sb_chunk_len (block i), if ?f then FINAL_FLAG else 0)"
    by (simp add: descriptor_fields_def struct_unpack_from_def fields) (simp add: block_def TAG_LENGTH_def)
  have "py_slice (sb_data (block i)) 13 3 = py_slice ?d 13 3"
    unfolding data by (rule py_slice_append_left) (simp add: len)
  then show "py_slice (sb_data (block i)) 13 3 = replicate 3 0" by (simp add: py_slice_def)
qed

lemma block_chunk_len:
  assumes "i < length chunks"
  shows "reader_chunk_len (reader c) (sb_data (block i)) i = Some (sb_chunk_len (block i))"
proof -
  have len: "length (sb_data (block i)) = block_size layout"
    using chunk_small [OF assms] by (simp add: block_def length_block_of)
  have sealed: "length (chunks ! i) + 16 \<le> max_chunk_len layout"
    using chunk_small [OF assms] by (simp add: max_chunk_len_eq)
  have rest: "drop (16 + (length (chunks ! i) + 16)) (sb_data (block i))
      = replicate (block_size layout - (16 + (length (chunks ! i) + 16))) 0"
  proof -
    let ?s = "sealed_chunk prim h key ad i (chunks ! i) (Suc i = length chunks)"
    let ?pre = "be_bytes 8 i @ be_bytes 4 (length ?s) @ [if Suc i = length chunks then 1 else 0] @ replicate 3 0 @ ?s"
    have "sb_data (block i) = ?pre @ replicate (block_size layout - 16 - length ?s) 0"
      by (simp add: block_def block_of_def Let_def)
    moreover have "length ?pre = 16 + (length (chunks ! i) + 16)" by (simp add: length_sealed_chunk)
    ultimately show ?thesis by (simp add: length_sealed_chunk del: append_assoc)
  qed
  show ?thesis
  proof (cases "Suc i = length chunks")
    case True
    then have "last chunks = chunks ! i" by (metis diff_Suc_1 last_conv_nth chunks_of_not_Nil)
    then have final: "tr_final_chunk_len the_trailer = sb_chunk_len (block i)"
      by (simp add: container_trailer_def Let_def block_def)
    have "int i = int (length chunks) - 1" using True by simp
    then show ?thesis
      using len sealed rest block_descriptor [OF assms] True final
      by (simp add: reader_chunk_len_def Let_def block_def TAG_LENGTH_def)
  next
    case False
    then have "sb_chunk_len (block i) = max_chunk_len layout"
      using chunk_full [OF assms] by (simp add: block_def max_chunk_len_eq TAG_LENGTH_def)
    moreover have "int i \<noteq> int (length chunks) - 1" using False by linarith
    ultimately show ?thesis
      using len block_descriptor [OF assms] False by (simp add: reader_chunk_len_def Let_def)
  qed
qed

lemma intact_slot:
  assumes "i < length chunks"
  shows "reader_clean (prim_h16 prim) (reader c) (slots ! i) i = Some (block i)"
    and "spare_intact (prim_h16 prim) (reader c) (slots ! i) (Some (sb_tag (block i)))"
proof -
  have tag: "slot_tag (prim_h16 prim) (sh_container_id h) (encode (sb_data (block i)) (nsym layout)) = sb_tag (block i)"
    by (simp add: block_def)
  show "reader_clean (prim_h16 prim) (reader c) (slots ! i) i = Some (block i)"
    by (simp add: reader_clean_def Let_def slots_parts [OF assms] tag rs.strip_enc [OF nsym_fine]
        block_chunk_len [OF assms])
  show "spare_intact (prim_h16 prim) (reader c) (slots ! i) (Some (sb_tag (block i)))"
    by (simp add: spare_intact_def Let_def slots_parts [OF assms] tag)
qed

lemma detected_slot:
  assumes "slot_detected (prim_h16 prim) h raw"
  shows "reader_clean (prim_h16 prim) (reader c) raw i = None"
    and "\<not> spare_intact (prim_h16 prim) (reader c) raw (Some t)"
  using assms by (auto simp: reader_clean_def spare_intact_def slot_detected_def Let_def)

definition intact :: "nat \<Rightarrow> bool" where
  "intact i \<longleftrightarrow> slot_in layout src (first_copy_position i (interleave layout)) = slots ! i"

definition intact2 :: "nat \<Rightarrow> bool" where
  "intact2 i \<longleftrightarrow> slot_in layout src (second_copy_position (length chunks) (interleave layout) i) = slots ! i"

lemma an_intact_copy: "i < length chunks \<Longrightarrow> intact i \<or> intact2 i"
  using damage unfolding readable_damage_def Let_def intact_def intact2_def
  by (force dest: schedule_index split: if_splits)

lemma block_ciphertext_block:
  "block_ciphertext (block i) = sealed_chunk prim h key ad i (chunks ! i) (Suc i = length chunks)"
proof -
  let ?s = "sealed_chunk prim h key ad i (chunks ! i) (Suc i = length chunks)"
  let ?d = "be_bytes 8 i @ be_bytes 4 (length ?s) @ [if Suc i = length chunks then 1 else 0] @ replicate 3 0 :: bytes"
  have "sb_data (block i) = ?d @ ?s @ replicate (block_size layout - 16 - length ?s) 0"
    by (simp add: block_def block_of_def Let_def)
  moreover have "length ?d = 16" by simp
  moreover have "sb_chunk_len (block i) = length ?s" by (simp add: block_def length_sealed_chunk TAG_LENGTH_def)
  ultimately show ?thesis
    unfolding block_ciphertext_def stream_sizes by (simp add: py_slice_append_right py_slice_0 del: append_assoc)
qed

lemma chunk_opens:
  assumes "i < length chunks"
  shows "chunk_open dec cipher (int i) (block_ciphertext (block i)) (int i = int (length chunks) - 1) = Inr (chunks ! i)"
proof -
  have i: "i < MAX_CHUNKS" using assms room by (simp add: MAX_BLOCKS_def)
  have f: "(int i = int (length chunks) - 1) = (Suc i = length chunks)" by linarith
  show ?thesis
    unfolding chunk_open_def block_ciphertext_block f chunk_cipher.simps chunk_nonce_of [OF i] and_then_Inr
    using opens [OF assms refl] by simp
qed

lemma discard_nothing: "unverified_blocks report = [] \<Longrightarrow> discard_unverified i report = report"
  by (simp add: discard_unverified_def)

definition yield_chunk :: "nat \<Rightarrow> bytes list \<Rightarrow> bytes list" where
  "yield_chunk i ys = (if chunks ! i \<noteq> [] then ys @ [chunks ! i] else ys)"

lemma yielded: "concat (fold yield_chunk [0..<length chunks] []) = data"
proof -
  have "concat (fold yield_chunk [0..<m] []) = concat (take m chunks)" if "m \<le> length chunks" for m
    using that by (induction m) (auto simp: yield_chunk_def take_Suc_conv_app_nth)
  then show ?thesis by (simp add: concat_chunks_of)
qed

lemma length_slots_read: "length (read_slots (reader c)) = 2 * rd_blocks (reader c)"
  by (simp add: read_slots_eq)

lemma slot_read:
  assumes "(p, i, c) \<in> set places"
  shows "read_slots (reader ciph) ! p = slot_in layout src p" and "i < length chunks"
    and "length (slot_in layout src p) = slot_size layout"
proof -
  have p: "p < 2 * length chunks"
  proof -
    have "p \<in> set (map fst places)" using assms by force
    then show ?thesis by (simp add: schedule_positions)
  qed
  then show "read_slots (reader ciph) ! p = slot_in layout src p" by (simp add: read_slots_eq)
  show "i < length chunks" using schedule_index [OF assms] by simp
  have "(p + 1) * slot_size layout \<le> 2 * length chunks * slot_size layout" using p by (intro mult_le_mono1) simp
  then have "HEADER_SIZE + p * slot_size layout + slot_size layout \<le> length src"
    by (simp add: length_src container_size_def)
  then show "length (slot_in layout src p) = slot_size layout"
    unfolding slot_in_def by simp
qed

lemma slot_noticed:
  assumes "(p, i, c) \<in> set places" and "slot_in layout src p \<noteq> slots ! i"
  shows "slot_detected (prim_h16 prim) h (slot_in layout src p)"
  using assms damage by (fastforce simp: readable_damage_def Let_def)

lemma trailer_digest:
  "blocks_digest (prim_h32 prim) (sh_container_id h) (concat (map (\<lambda>i. sb_tag (block i)) [0..<length chunks]))
    = tr_blocks_digest the_trailer"
proof -
  have "slot_tags slots = concat (map (\<lambda>i. sb_tag (block i)) [0..<length chunks])"
  proof -
    have "drop (length (slots ! i) - SLOT_TAG_SIZE) (slots ! i) = sb_tag (block i)" if "i < length chunks" for i
      using slots_parts [OF that] by (simp add: slot_size_def)
    then have "map (\<lambda>s. drop (length s - SLOT_TAG_SIZE) s) slots = map (\<lambda>i. sb_tag (block i)) [0..<length chunks]"
      by (intro nth_equalityI) simp_all
    then show ?thesis by (simp add: slot_tags_def)
  qed
  then show ?thesis by (simp add: container_trailer_def Let_def)
qed

end

sublocale damaged_container \<subseteq> reading: steady_pass "prim\<lparr>prim_dec := dec\<rparr>" codec "reader (Some cipher)" spares
    "chunk_consumer (prim\<lparr>prim_dec := dec\<rparr>) (reader (Some cipher)) cipher" block yield_chunk intact intact2 "[]"
  for spares
proof
  fix i :: nat and report :: stream_report and x :: "bytes list"
  show "intact i \<or> intact2 i" if "i < rd_blocks (reader (Some cipher))"
    using that an_intact_copy by simp
  show "chunk_consumer prim' (reader (Some cipher)) cipher i (Some (block i)) (report, x) = Inr (report, yield_chunk i x)"
    if "i < rd_blocks (reader (Some cipher))" "unverified_blocks report = []"
    using that chunk_opens [of i] by (simp add: chunk_consumer_def discard_nothing yield_chunk_def)
qed

sublocale damaged_container \<subseteq> verifying: steady_pass "prim\<lparr>prim_dec := dec\<rparr>" codec "reader (Some cipher)" True
    "verify_consumer (prim\<lparr>prim_dec := dec\<rparr>) (reader (Some cipher))" block "\<lambda>_ _. ()" intact intact2 "()"
proof
  fix i :: nat and report :: stream_report and x :: unit
  show "intact i \<or> intact2 i" if "i < rd_blocks (reader (Some cipher))"
    using that an_intact_copy by simp
  show "verify_consumer prim' (reader (Some cipher)) i (Some (block i)) (report, x) = Inr (report, ())"
    if "i < rd_blocks (reader (Some cipher))" "unverified_blocks report = []"
    using that chunk_opens [of i] by (simp add: verify_consumer_def discard_nothing)
qed

section \<open>Reading and verifying a damaged container\<close>

context damaged_container begin

lemma slots_seen:
  "(p, i, c) \<in> set places \<Longrightarrow> reading.slot_seen i c (read_slots (reader (Some cipher)) ! p)"
  "(p, i, c) \<in> set places \<Longrightarrow> verifying.slot_seen i c (read_slots (reader (Some cipher)) ! p)"
proof -
  have "length raw = slot_size layout \<and>
      (if (if c then intact i else intact2 i)
       then reader_clean (prim_h16 prim) (reader (Some cipher)) raw i = Some (block i) \<and>
         spare_intact (prim_h16 prim) (reader (Some cipher)) raw (Some (sb_tag (block i)))
       else reader_clean (prim_h16 prim) (reader (Some cipher)) raw i = None \<and>
         \<not> spare_intact (prim_h16 prim) (reader (Some cipher)) raw (Some (sb_tag (block i))))"
    if place: "(p, i, c) \<in> set places" and raw: "raw = read_slots (reader (Some cipher)) ! p" for p i c raw
  proof -
    note R = slot_read [OF place]
    have "(if c then intact i else intact2 i) \<longleftrightarrow> raw = slots ! i"
      using schedule_index [OF place] unfolding raw R(1) by (simp add: intact_def intact2_def)
    then show ?thesis
      using R slot_noticed [OF place] intact_slot [OF R(2)] detected_slot [of raw]
      by (auto simp: raw)
  qed
  then show "(p, i, c) \<in> set places \<Longrightarrow> reading.slot_seen i c (read_slots (reader (Some cipher)) ! p)"
    "(p, i, c) \<in> set places \<Longrightarrow> verifying.slot_seen i c (read_slots (reader (Some cipher)) ! p)"
    unfolding reading.slot_seen_def verifying.slot_seen_def by simp_all
qed

definition the_report :: "bool \<Rightarrow> stream_report" where
  "the_report spares = reading.report_at spares (length chunks) (length chunks)"

lemma the_report_fields:
  "total_blocks (the_report spares) = length chunks" "failed_blocks (the_report spares) = []"
  "problems (the_report spares) = []" "unverified_blocks (the_report spares) = []"
  "blocks_rs_corrected (the_report spares) = 0" "blocks_merged (the_report spares) = 0"
  "copies_available (the_report spares) = 2"
  "blocks_direct (the_report spares) = length (filter intact [0..<length chunks])"
  "blocks_used_b (the_report spares) = length (filter (\<lambda>i. \<not> intact i) [0..<length chunks])"
  "spares_damaged (the_report spares) = (if spares then filter (\<lambda>i. intact i \<and> \<not> intact2 i) [0..<length chunks] else [])"
  "metadata_damaged (the_report spares) = damaged_metadata layout (length chunks) ad trailer src"
  by (simp_all add: the_report_def reading.report_at_def fresh_report_def)

lemma interleave_fine: "1 \<le> interleave layout"
  using layout_okD(5) [OF layout_fine] .

lemma chunks_read:
  "reader_chunks prim' codec (reader (Some cipher)) spares
    = Inr (the_report spares, fold yield_chunk [0..<length chunks] [])"
proof -
  have "reader_pass prim' codec (reader (Some cipher)) spares
      (chunk_consumer prim' (reader (Some cipher)) cipher) []
    = Inr (the_report spares, fold yield_chunk [0..<length chunks] [])"
    using reading.reader_pass_steady [of spares] interleave_fine length_slots_read slots_seen(1) trailer_digest
    by (simp add: the_report_def)
  then show ?thesis by (simp add: reader_chunks_def stream_ok_def the_report_fields)
qed

lemma payload_read: "read_all prim' codec (reader (Some cipher)) = Inr data"
  by (simp add: read_all_def chunks_read yielded)

lemma damage_verified: "reader_verify prim' codec (reader (Some cipher)) = Inr (the_report True)"
proof -
  have "reader_pass prim' codec (reader (Some cipher)) True (verify_consumer prim' (reader (Some cipher))) ()
    = Inr (verifying.report_at (length chunks) (length chunks), ())"
    using verifying.reader_pass_steady interleave_fine length_slots_read slots_seen(2) trailer_digest by simp
  moreover have "verifying.report_at (length chunks) (length chunks) = the_report True"
    by (simp add: the_report_def reading.report_at_def verifying.report_at_def)
  ultimately show ?thesis by (simp add: reader_verify_def)
qed

section \<open>Opening it\<close>

lemma header_found:
  "locate_header (prim_h16 prim) src
    = Inr (h, map fst (filter (\<lambda>(name, raw). raw \<noteq> ad) [(FrontHeader, front_header src), (BackHeader, back_header src)]))"
proof -
  obtain body where body: "open_sealed_header (prim_h16 prim) ad = Some (STREAM_FORMAT_VERSION, body)"
      "pack_body h = Inr body"
  proof (rule header_seal_Inr [OF header, of "prim_h16 prim"])
    fix raw body
    assume "header_seal (prim_h16 prim) h = Inr raw" "pack_body h = Inr body"
      "\<And>rest. open_sealed_header (prim_h16 prim) (raw @ rest) = Some (STREAM_FORMAT_VERSION, body)"
    then show thesis using that ad by (metis append_Nil2 sum.inject(2))
  qed
  have parse: "header_parse body = Inr h" by (rule header_parse_pack [OF header body(2)])
  have big: "2 * HEADER_SIZE \<le> length src" by (simp add: length_src container_size_def)
  have reads: "read_at src 0 (int HEADER_SIZE) = front_header src"
      "read_at src (int (length src) - int HEADER_SIZE) (int HEADER_SIZE) = back_header src"
    using read_at_nat [of src 0 HEADER_SIZE] read_at_nat [of src "length src - HEADER_SIZE" HEADER_SIZE] big
    by (simp_all add: front_header_def back_header_def of_nat_diff)
  let ?copy = "\<lambda>raw. case open_sealed_header (prim_h16 prim) raw of
      Some (version, body) \<Rightarrow> if version = STREAM_FORMAT_VERSION then Some raw else None | None \<Rightarrow> None"
  have copy: "?copy raw = Some ad \<longleftrightarrow> raw = ad" for raw
    using body(1) by (auto split: option.split)
  have front: "front_header src = ad \<or> ?copy (front_header src) = None \<and> back_header src = ad"
    using damage by (auto simp: readable_damage_def Let_def)
  let ?copies = "[?copy (front_header src), ?copy (back_header src)]"
  have pad: "x # y # replicate (2 - length [x, y]) None = [x, y]" for x y :: "bytes option" by simp
  have chosen: "\<exists>rest. List.map_filter id ?copies = ad # rest"
    using front copy [of "front_header src"] copy [of "back_header src"]
    by (elim disjE) (auto simp: map_filter_simps)
  have damaged: "map fst (filter (\<lambda>(name, raw). raw \<noteq> Some ad) (zip [FrontHeader, BackHeader] ?copies))
      = map fst (filter (\<lambda>(name, raw). raw \<noteq> ad) [(FrontHeader, front_header src), (BackHeader, back_header src)])"
    using copy [of "front_header src"] copy [of "back_header src"] by simp
  have unfold: "locate_header (prim_h16 prim) src = (case List.map_filter id ?copies of [] \<Rightarrow> Inl ContainerError
     | chosen # _ \<Rightarrow> and_then (header_parse (snd (the (open_sealed_header (prim_h16 prim) chosen)))) (\<lambda>header.
         Inr (header, map fst (filter (\<lambda>(name, raw). raw \<noteq> Some chosen) (zip [FrontHeader, BackHeader] ?copies)))))"
    unfolding locate_header_def Let_def if_P [OF big] append.simps list.map reads pad ..
  obtain rest where "List.map_filter id ?copies = ad # rest" using chosen by blast
  then show ?thesis unfolding unfold using body(1) parse damaged by simp
qed

lemma end_found:
  "locate_end (prim_h16 prim) codec h src = Inr (Some the_trailer, length chunks,
     map fst (filter (\<lambda>(name, raw). raw \<noteq> trailer)
       [(TrailerCopy 1, trailer_copy layout (length chunks) src 0), (TrailerCopy 2, trailer_copy layout (length chunks) src 1)]))"
proof -
  let ?t = "trailer_copy layout (length chunks) src"
  let ?open = "\<lambda>raw. case trailer_open (prim_h16 prim) h raw of
      Some t \<Rightarrow> if container_size layout (tr_blocks t) = length src then Some t else None | None \<Rightarrow> None"
  have blocks: "tr_blocks the_trailer = length chunks" by (simp add: container_trailer_def Let_def)
  have good: "trailer_open (prim_h16 prim) h trailer = Some the_trailer"
    by (rule trailer_open_seal [OF container_trailer_ok [OF room] trailer])
  have copy: "?open raw = Some the_trailer \<longleftrightarrow> raw = trailer" for raw
  proof
    assume "?open raw = Some the_trailer"
    then have "trailer_open (prim_h16 prim) h raw = Some the_trailer" by (auto split: option.splits if_splits)
    then show "raw = trailer" using trailer_open_Some(2) [OF _ header] trailer by fastforce
  qed (simp add: good blocks length_src)
  have ending: "int (length src) - int HEADER_SIZE - 2 * int TRAILER_SIZE
      = int (HEADER_SIZE + 2 * length chunks * slot_size layout)"
    by (simp add: length_src container_size_def)
  have reads: "read_at src (int (HEADER_SIZE + 2 * length chunks * slot_size layout) + int ((1 - 1) * TRAILER_SIZE)) (int TRAILER_SIZE) = ?t 0"
      "read_at src (int (HEADER_SIZE + 2 * length chunks * slot_size layout) + int ((2 - 1) * TRAILER_SIZE)) (int TRAILER_SIZE) = ?t 1"
    unfolding trailer_copy_def read_at_nat of_nat_add [symmetric] by simp_all
  let ?found = "[?open (?t 0), ?open (?t 1)]"
  have first: "?t 0 = trailer \<or> ?open (?t 0) = None \<and> ?t 1 = trailer"
    using damage by (auto simp: readable_damage_def Let_def)
  then have chosen: "\<exists>rest. List.map_filter id ?found = the_trailer # rest"
    using copy [of "?t 0"] copy [of "?t 1"] by (elim disjE) (auto simp: map_filter_simps)
  have damaged: "map (\<lambda>(number, _). TrailerCopy number) (filter (\<lambda>(number, t). t \<noteq> Some the_trailer) (zip [1, 2] ?found))
      = map fst (filter (\<lambda>(name, raw). raw \<noteq> trailer) [(TrailerCopy 1, ?t 0), (TrailerCopy 2, ?t 1)])"
    using copy [of "?t 0"] copy [of "?t 1"] by simp
  have start: "\<not> int (HEADER_SIZE + 2 * length chunks * slot_size layout) < int HEADER_SIZE"
    unfolding of_nat_less_iff by simp
  have eq: "read_trailers (prim_h16 prim) h src (int (HEADER_SIZE + 2 * length chunks * slot_size layout))
      (\<lambda>found. container_size layout (tr_blocks found) = length src)
    = (case List.map_filter id ?found of [] \<Rightarrow> (None, []) | chosen # _ \<Rightarrow>
        (Some chosen, map (\<lambda>(number, _). TrailerCopy number) (filter (\<lambda>(number, t). t \<noteq> Some chosen) (zip [1, 2] ?found))))"
    unfolding read_trailers_def Let_def list.map reads if_not_P [OF start] ..
  obtain rest where "List.map_filter id ?found = the_trailer # rest" using chosen by blast
  then have "read_trailers (prim_h16 prim) h src (int (HEADER_SIZE + 2 * length chunks * slot_size layout))
      (\<lambda>found. container_size layout (tr_blocks found) = length src)
    = (Some the_trailer, map fst (filter (\<lambda>(name, raw). raw \<noteq> trailer) [(TrailerCopy 1, ?t 0), (TrailerCopy 2, ?t 1)]))"
    unfolding eq by (simp only: list.case damaged)
  then show ?thesis
    unfolding locate_end_def Let_def ending by (simp only: prod.case option.case blocks)
qed

lemma reader_opens:
  assumes "reader_cipher prim' h passphrase = Inr c"
  shows "open_reader prim' codec src passphrase = Inr (reader c)"
  using assms header_found end_found by (simp add: open_reader_def reader_def damaged_metadata_def)

end

end
