(* ===== verification/StreamRoundtrip.thy ===== *)
theory StreamRoundtrip
  imports ReaderCorrect
begin

text \<open>
  The stream container from end to end: what \<^verbatim>\<open>StreamReader\<close> makes of a container that
  \<^verbatim>\<open>StreamWriter\<close> wrote, intact or damaged, with the passphrase it was written with; and that no
  container makes it return anything the writer did not seal.
\<close>

section \<open>The data key comes back\<close>

lemma struct_pack_append:
  "struct_pack fmt vs = Some a \<Longrightarrow> struct_pack (fmt @ fmt') (vs @ vs') = map_option ((@) a) (struct_pack fmt' vs')"
  by (induction fmt vs arbitrary: a rule: struct_pack.induct)
    (auto split: if_splits option.splits simp: map_option_case)

lemma struct_pack_prefix:
  "struct_pack (fmt @ fmt') (vs @ vs') = Some b \<Longrightarrow> fits fmt vs \<Longrightarrow> struct_pack fmt vs = Some (take (struct_size fmt) b)"
  using struct_pack_fits [of fmt vs] struct_pack_append [of fmt vs _ fmt' vs'] struct_pack_length [of fmt vs]
  by fastforce

lemma key_binding_wrap:
  assumes ok: "header_ok h" and "length n = NONCE_LENGTH" and "length k = WRAPPED_KEY_LENGTH"
  shows "key_binding (h\<lparr>sh_wrap_nonce := n, sh_wrapped_key := k\<rparr>) = key_binding h"
proof -
  let ?h = "h\<lparr>sh_wrap_nonce := n, sh_wrapped_key := k\<rparr>"
  have ok': "header_ok ?h" using assms by (simp add: header_ok_def)
  define fmt where "fmt = [FU 2, FU 2, FU 4, FU 4, FU 4, FU 4, FU 2, FU 2, FS 16, FS 16, FS 7, FX 1]"
  define vs where "vs = take 11 (header_fields h)"
  have body: "HEADER_BODY = fmt @ [FS 12, FS 48]" by (simp add: HEADER_BODY_def fmt_def)
  have fields: "header_fields h = vs @ [Raw (sh_wrap_nonce h), Raw (sh_wrapped_key h)]"
      "header_fields ?h = vs @ [Raw n, Raw k]"
    by (simp_all add: header_fields_def vs_def)
  have fits: "fits fmt vs"
    using header_fits [OF ok] by (simp add: header_fields_def HEADER_BODY_def fmt_def vs_def)
  have len: "struct_size fmt = 64" by (simp add: fmt_def)
  obtain b where b: "pack_body h = Inr b" "struct_pack HEADER_BODY (header_fields h) = Some b"
    using ok by (rule pack_body_total)
  obtain b' where b': "pack_body ?h = Inr b'" "struct_pack HEADER_BODY (header_fields ?h) = Some b'"
    using ok' by (rule pack_body_total)
  have "struct_pack fmt vs = Some (take 64 b)"
    using struct_pack_prefix [OF _ fits] b(2) unfolding fields body len [symmetric] by blast
  moreover have "struct_pack fmt vs = Some (take 64 b')"
    using struct_pack_prefix [OF _ fits] b'(2) unfolding fields body len [symmetric] by blast
  ultimately show ?thesis by (simp add: key_binding_def b(1) b'(1))
qed

lemma writer_init_cipher:
  assumes aead: "aead_scheme (prim_enc prim) (prim_dec prim)" and rnd: "randomness_ok rnd"
    and init: "writer_init prim rnd passphrase kdf bs ns il workers flags = Inr w0"
  shows "reader_cipher prim (sw_header w0) (Some passphrase)
    = Inr (Some \<lparr>cc_key = rnd_data_key rnd, cc_prefix = sh_nonce_prefix (sw_header w0),
        cc_associated_data = sw_sealed_header w0\<rparr>)"
proof -
  define params where "params = kdf_or_default kdf"
  let ?h = "\<lambda>n k. \<lparr>sh_flags = nat flags, sh_layout = \<lparr>block_size = nat bs, nsym = nat ns, interleave = nat il\<rparr>,
    sh_kdf_params = params, sh_salt = rnd_salt rnd, sh_container_id = rnd_container_id rnd,
    sh_nonce_prefix = rnd_nonce_prefix rnd, sh_wrap_nonce = n, sh_wrapped_key = k\<rparr>"
  obtain kek binding sealed where parts:
      "derive_key (prim_argon2 prim) passphrase (rnd_salt rnd) params = Inr kek"
      "key_binding (?h (replicate NONCE_LENGTH 0) (replicate WRAPPED_KEY_LENGTH 0)) = Inr binding"
      "sw_header w0 = ?h (rnd_wrap_nonce rnd) (prim_enc prim kek (rnd_wrap_nonce rnd) (rnd_data_key rnd) (WRAP_LABEL @ binding))"
      "header_seal (prim_h16 prim) (sw_header w0) = Inr sealed" "sw_sealed_header w0 = sealed"
    using init by (auto simp: writer_init_def Let_def wrap_key_def params_def writer_emit_def split: if_splits)
  have set: "stream_setting prim (sw_header w0) (rnd_data_key rnd) (sw_sealed_header w0)"
    by (rule writer_init_ok(1) [OF aead rnd init])
  then have ok: "header_ok (sw_header w0)" by (simp add: stream_setting_def stream_setting_axioms_def)
  have "key_binding (sw_header w0) = Inr binding"
    using key_binding_wrap [OF ok, of "replicate NONCE_LENGTH 0" "replicate WRAPPED_KEY_LENGTH 0"] parts(2)
    by (simp add: parts(3))
  moreover have "unwrap_key (prim_dec prim) kek (sh_wrap_nonce (sw_header w0)) (sh_wrapped_key (sw_header w0)) binding
      = Inr (rnd_data_key rnd)"
    using rnd aead_scheme.dec_enc [OF aead] by (simp add: unwrap_key_def parts(3) randomness_ok_def)
  moreover have "sh_salt (sw_header w0) = rnd_salt rnd" "sh_kdf_params (sw_header w0) = params" by (simp_all add: parts(3))
  ultimately show ?thesis
    using rnd parts by (simp add: reader_cipher_def ChunkCipher_def randomness_ok_def)
qed

section \<open>Damage to a container\<close>

text \<open>
  \<open>src\<close> is what is left of the container \<open>good\<close> of \<open>n\<close> blocks: of every header, trailer and block
  one copy is intact, and the checksums notice the damage to the others.
\<close>

definition survivable :: "hash16 \<Rightarrow> stream_header \<Rightarrow> nat \<Rightarrow> bytes \<Rightarrow> bytes \<Rightarrow> bool" where
  "survivable h16 h n good src \<longleftrightarrow>
     (let l = sh_layout h
      in length src = length good \<and>
         (front_header src = front_header good \<or>
          open_sealed_header h16 (front_header src) = None \<and> back_header src = back_header good) \<and>
         (trailer_copy l n src 0 = trailer_copy l n good 0 \<or>
          trailer_open h16 h (trailer_copy l n src 0) = None \<and> trailer_copy l n src 1 = trailer_copy l n good 1) \<and>
         (\<forall>p < 2 * n. slot_in l src p = slot_in l good p \<or> slot_detected h16 h (slot_in l src p)) \<and>
         (\<forall>i < n. (\<exists>p \<in> {first_copy_position i (interleave l), second_copy_position n (interleave l) i}.
             slot_in l src p = slot_in l good p)))"

lemma survivable_refl: "survivable h16 h n good good"
  by (auto simp: survivable_def Let_def)

context stream_setting begin

lemma image_parts:
  assumes "length trailer = 100"
  shows "front_header (container_image prim h key ad trailer data) = ad"
    and "back_header (container_image prim h key ad trailer data) = ad"
    and "k < 2 \<Longrightarrow> trailer_copy layout (length (chunks_of (chunk_capacity layout) data))
      (container_image prim h key ad trailer data) k = trailer"
    and "(p, i, c) \<in> set (schedule (length (chunks_of (chunk_capacity layout) data)) (interleave layout)) \<Longrightarrow>
      slot_in layout (container_image prim h key ad trailer data) p = container_slots prim h key ad data ! i"
proof -
  let ?slots = "container_slots prim h key ad data" and ?n = "length (chunks_of (chunk_capacity layout) data)"
  let ?sch = "schedule ?n (interleave layout)"
  let ?area = "map (\<lambda>(p, i, c). ?slots ! i) ?sch"
  have lens: "\<forall>s \<in> set ?area. length s = slot_size layout"
  proof
    fix s
    assume "s \<in> set ?area"
    then obtain p i c where pic: "(p, i, c) \<in> set ?sch" "s = ?slots ! i" by auto
    then have "i < length ?slots" using schedule_index [OF pic(1)] by simp
    then show "length s = slot_size layout" using container_slot_length [OF nth_mem] pic(2) by blast
  qed
  have sz: "length (concat ?area) = 2 * ?n * slot_size layout"
  proof -
    have "map length ?area = replicate (length ?area) (slot_size layout)"
      by (intro nth_equalityI) (use lens in simp_all)
    then show ?thesis by (simp add: length_concat sum_list_replicate length_schedule)
  qed
  have image: "container_image prim h key ad trailer data = ad @ concat ?area @ trailer @ trailer @ ad"
    by (simp add: container_image_def Let_def)
  show "front_header (container_image prim h key ad trailer data) = ad"
    by (simp add: image front_header_def py_slice_def length_ad)
  show "back_header (container_image prim h key ad trailer data) = ad"
    by (simp add: image back_header_def py_slice_def length_ad)
  show "trailer_copy layout ?n (container_image prim h key ad trailer data) k = trailer" if "k < 2"
    using that assms less_2_cases [OF that]
    by (auto simp: image trailer_copy_def py_slice_def length_ad sz)
  show "slot_in layout (container_image prim h key ad trailer data) p = ?slots ! i" if place: "(p, i, c) \<in> set ?sch"
  proof -
    have p: "p < length ?sch" "?sch ! p = (p, i, c)"
    proof -
      have "p \<in> set (map fst ?sch)" using place by force
      then show "p < length ?sch" by (simp add: schedule_positions length_schedule)
      obtain q where q: "q < length ?sch" "?sch ! q = (p, i, c)" using place by (metis in_set_conv_nth)
      then show "?sch ! p = (p, i, c)" using schedule_nth [of q ?n "interleave layout"] by (simp add: length_schedule)
    qed
    have "slot_in layout (container_image prim h key ad trailer data) p
        = py_slice (concat ?area @ trailer @ trailer @ ad) (p * slot_size layout) (slot_size layout)"
      by (simp add: slot_in_def image length_ad py_slice_append_right)
    also have "\<dots> = py_slice (concat ?area) (p * slot_size layout) (slot_size layout)"
    proof (rule py_slice_append_left)
      have "(p + 1) * slot_size layout \<le> 2 * ?n * slot_size layout"
        using p(1) by (intro mult_le_mono1) (simp add: length_schedule)
      then show "p * slot_size layout + slot_size layout \<le> length (concat ?area)" by (simp add: sz)
    qed
    also have "\<dots> = ?area ! p" by (rule slice_of_concat [OF lens]) (use p(1) in simp)
    finally show ?thesis using p by simp
  qed
qed

lemma survivable_readable:
  assumes "length trailer = 100"
    and "survivable (prim_h16 prim) h (length (chunks_of (chunk_capacity layout) data))
      (container_image prim h key ad trailer data) src"
  shows "readable_damage (prim_h16 prim) h ad trailer (container_slots prim h key ad data) src"
proof -
  let ?n = "length (chunks_of (chunk_capacity layout) data)" and ?good = "container_image prim h key ad trailer data"
  note P = image_parts [OF assms(1), where data = data]
  have slots: "(p, i, c) \<in> set (schedule ?n (interleave layout)) \<Longrightarrow> p < 2 * ?n" for p i c
  proof -
    assume "(p, i, c) \<in> set (schedule ?n (interleave layout))"
    then have "p \<in> set (map fst (schedule ?n (interleave layout)))" by force
    then show "p < 2 * ?n" by (simp add: schedule_positions)
  qed
  have copies: "\<exists>(p, j, c) \<in> set (schedule ?n (interleave layout)). j = i \<and> slot_in layout src p = container_slots prim h key ad data ! i"
    if i: "i < ?n" for i
  proof -
    note F = first_copy_scheduled [OF i, of "interleave layout"] second_copy_scheduled [OF i, of "interleave layout"]
    show ?thesis
      using assms(2) i F P(4) [OF F(1)] P(4) [OF F(2)] unfolding survivable_def Let_def by fastforce
  qed
  have "slot_in layout src p = container_slots prim h key ad data ! i \<or> slot_detected (prim_h16 prim) h (slot_in layout src p)"
    if "(p, i, c) \<in> set (schedule ?n (interleave layout))" for p i c
    using assms(2) slots [OF that] P(4) [OF that] by (auto simp: survivable_def Let_def)
  then show ?thesis
    using assms(2) P(1,2) P(3) [of 0] P(3) [of 1] copies container_image_length [OF assms(1), of data]
    unfolding readable_damage_def survivable_def Let_def by auto
qed

end

section \<open>Only what was sealed\<close>

text \<open>The plaintexts a reader has yielded after \<open>k\<close> blocks: each one opened at its own index.\<close>

definition opened_chunks :: "primitives \<Rightarrow> chunk_cipher \<Rightarrow> nat \<Rightarrow> nat \<Rightarrow> bytes list \<Rightarrow> bool" where
  "opened_chunks prim c n k ys \<longleftrightarrow> (\<exists>ps. length ps = k \<and> concat ys = concat ps \<and>
     (\<forall>i < k. \<exists>s. chunk_open (prim_dec prim) c (int i) s (int i = int n - 1) = Inr (ps ! i)))"

interpretation chunk_order: in_order "chunk_consumer prim r c" "rd_blocks r" "opened_chunks prim c (rd_blocks r)"
  for prim r c
proof
  fix k x b report report' x'
  assume inv: "opened_chunks prim c (rd_blocks r) k x" and k: "k < rd_blocks r"
    and e: "chunk_consumer prim r c k b (report, x) = Inr (report', x')"
  obtain blk p where b: "b = Some blk"
      "chunk_open (prim_dec prim) c (int k) (block_ciphertext blk) (int k = int (rd_blocks r) - 1) = Inr p"
      "x' = (if p \<noteq> [] then x @ [p] else x)"
    using e by (auto simp: chunk_consumer_def split: option.splits sum.splits if_splits)
  obtain ps where ps: "length ps = k" "concat x = concat ps"
      "\<forall>i < k. \<exists>s. chunk_open (prim_dec prim) c (int i) s (int i = int (rd_blocks r) - 1) = Inr (ps ! i)"
    using inv by (auto simp: opened_chunks_def)
  show "opened_chunks prim c (rd_blocks r) (Suc k) x'"
    unfolding opened_chunks_def
    by (rule exI [of _ "ps @ [p]"]) (use ps b(2,3) in \<open>auto simp: nth_append less_Suc_eq\<close>)
qed

lemma scan_block_count_pos: "scan_block_count codec l src i = Inr n \<Longrightarrow> 0 < n"
proof (induction codec l src i rule: scan_block_count.induct)
  case (1 codec l src i)
  have scan: "scan_batch il xs = Some n \<Longrightarrow> 0 < n" for il xs
    by (induction il xs rule: scan_batch.induct) (auto simp: Let_def split: option.splits if_splits)
  show ?case
    using "1.prems" "1.IH" by (subst (asm) scan_block_count.simps) (auto simp: Let_def dest: scan split: if_splits option.splits)
qed

lemma read_trailers_pos: "read_trailers h16 h src i ok = (Some t, ds) \<Longrightarrow> ok t \<and> 0 < tr_blocks t"
proof -
  have pos: "trailer_open h16 h raw = Some t \<Longrightarrow> 0 < tr_blocks t" for raw t
    by (auto simp: trailer_open_def Let_def split: if_splits option.splits list.splits field_value.splits)
  assume "read_trailers h16 h src i ok = (Some t, ds)"
  then have "t \<in> set (List.map_filter id (map (\<lambda>number. case trailer_open h16 h
        (read_at src (i + int ((number - 1) * TRAILER_SIZE)) (int TRAILER_SIZE)) of
      Some trailer \<Rightarrow> if ok trailer then Some trailer else None | None \<Rightarrow> None) [1, 2]))"
    unfolding read_trailers_def Let_def by (auto simp del: stream_sizes split: if_splits list.splits)
  then show ?thesis
    by (auto simp: map_filter_def dest!: pos split: option.splits if_splits)
qed

lemma locate_end_pos:
  assumes "locate_end h16 codec h src = Inr (t, n, ds)"
  shows "0 < n"
proof -
  let ?first = "read_trailers h16 h src (int (length src) - int HEADER_SIZE - 2 * int TRAILER_SIZE)
    (\<lambda>found. container_size (sh_layout h) (tr_blocks found) = length src)"
  obtain t1 ds1 where first: "?first = (t1, ds1)" by fastforce
  show ?thesis
  proof (cases t1)
    case (Some trailer)
    then have "n = tr_blocks trailer" using assms unfolding locate_end_def Let_def first by simp
    moreover have "0 < tr_blocks trailer" using read_trailers_pos [of h16 h src _ _ trailer ds1] first Some by blast
    ultimately show ?thesis by simp
  next
    case None
    obtain count where count: "scan_block_count codec (sh_layout h) src 0 = Inr count"
        "n = count"
      using assms unfolding locate_end_def Let_def first None
      by (cases "scan_block_count codec (sh_layout h) src 0") (auto split: prod.splits option.splits)
    show ?thesis using scan_block_count_pos [OF count(1)] count(2) by simp
  qed
qed

lemma open_reader_pos:
  assumes "open_reader prim codec src passphrase = Inr r"
  shows "0 < rd_blocks r"
  using assms by (auto simp: open_reader_def dest!: locate_end_pos)

section \<open>Reading what was written\<close>

context damaged_container begin

lemma the_report_eq:
  "the_report True = (fresh_report (length chunks) (damaged_metadata layout (length chunks) ad trailer src))
     \<lparr>blocks_direct := length (filter intact [0..<length chunks]),
      blocks_used_b := length (filter (\<lambda>i. \<not> intact i) [0..<length chunks]),
      spares_damaged := filter (\<lambda>i. intact i \<and> \<not> intact2 i) [0..<length chunks]\<rparr>"
  by (simp add: the_report_def reading.report_at_def)

end

abbreviation payload_blocks :: "stream_writer \<Rightarrow> bytes \<Rightarrow> nat" where
  "payload_blocks w0 data \<equiv> length (chunks_of (chunk_capacity (sw_layout w0)) data)"

lemma written_damaged:
  assumes aead: "aead_scheme (prim_enc prim) (prim_dec prim)" and rnd: "randomness_ok rnd"
    and init: "writer_init prim rnd passphrase kdf bs ns il workers flags = Inr w0"
    and room: "payload_blocks w0 (concat ps) \<le> MAX_BLOCKS"
    and writes: "write_all prim ps w0 = Inr w" "writer_close prim w = (Inr ss, w')"
    and src: "survivable (prim_h16 prim) (sw_header w0) (payload_blocks w0 (concat ps)) (sw_sink w') src"
  obtains trailer where
    "damaged_container prim (sw_header w0) (rnd_data_key rnd) (sw_sealed_header w0) (concat ps) trailer src (prim_dec prim)"
    "sw_sink w' = container_image prim (sw_header w0) (rnd_data_key rnd) (sw_sealed_header w0) trailer (concat ps)"
    "length trailer = 100"
proof -
  note set = writer_init_ok(1) [OF aead rnd init]
  obtain trailer where t: "trailer_seal (prim_h16 prim)
        (container_trailer prim (sw_header w0) (rnd_data_key rnd) (sw_sealed_header w0) (concat ps)) = Inr trailer"
      "sw_sink w' = container_image prim (sw_header w0) (rnd_data_key rnd) (sw_sealed_header w0) trailer (concat ps)"
    using stream_setting.written_container [OF writer_init_ok [OF aead rnd init] room] writes by auto
  have len: "length trailer = 100"
    by (rule trailer_seal_total [OF stream_setting.container_trailer_ok [OF set room], of "prim_h16 prim"]) (use t(1) in simp)
  have readable: "readable_damage (prim_h16 prim) (sw_header w0) (sw_sealed_header w0) trailer
      (container_slots prim (sw_header w0) (rnd_data_key rnd) (sw_sealed_header w0) (concat ps)) src"
    by (rule stream_setting.survivable_readable [OF set len]) (use src t(2) in simp)
  have "damaged_container prim (sw_header w0) (rnd_data_key rnd) (sw_sealed_header w0) (concat ps) trailer src (prim_dec prim)"
    unfolding damaged_container_def damaged_container_axioms_def
    using set room t(1) readable aead_scheme.dec_enc [OF aead] by (simp add: sealed_chunk_def)
  then show thesis using that t(2) len by blast
qed

text \<open>The report on a readable container: every damaged part, and how each block was obtained.\<close>

definition damage_report :: "stream_layout \<Rightarrow> nat \<Rightarrow> bytes \<Rightarrow> bytes \<Rightarrow> stream_report" where
  "damage_report l n good src =
     (let same = (\<lambda>p. slot_in l src p = slot_in l good p);
          intact = (\<lambda>i. same (first_copy_position i (interleave l)));
          intact2 = (\<lambda>i. same (second_copy_position n (interleave l) i))
      in (fresh_report n (damaged_metadata l n (front_header good) (trailer_copy l n good 0) src))
         \<lparr>blocks_direct := length (filter intact [0..<n]), blocks_used_b := length (filter (\<lambda>i. \<not> intact i) [0..<n]),
          spares_damaged := filter (\<lambda>i. intact i \<and> \<not> intact2 i) [0..<n]\<rparr>)"

lemma reader_of_written:
  assumes "aead_scheme (prim_enc prim) (prim_dec prim)" and "randomness_ok rnd"
    and "writer_init prim rnd passphrase kdf bs ns il workers flags = Inr w0"
    and "payload_blocks w0 (concat ps) \<le> MAX_BLOCKS"
    and "write_all prim ps w0 = Inr w" "writer_close prim w = (Inr ss, w')"
    and "survivable (prim_h16 prim) (sw_header w0) (payload_blocks w0 (concat ps)) (sw_sink w') src"
  shows "\<exists>r. open_reader prim codec src (Some passphrase) = Inr r \<and> rd_header r = sw_header w0 \<and>
    rd_blocks r = payload_blocks w0 (concat ps) \<and> read_all prim codec r = Inr (concat ps) \<and>
    reader_verify prim codec r = Inr (damage_report (sw_layout w0) (payload_blocks w0 (concat ps)) (sw_sink w') src)"
proof -
  obtain trailer where c: "damaged_container prim (sw_header w0) (rnd_data_key rnd) (sw_sealed_header w0) (concat ps) trailer src (prim_dec prim)"
    and image: "sw_sink w' = container_image prim (sw_header w0) (rnd_data_key rnd) (sw_sealed_header w0) trailer (concat ps)"
    and len: "length trailer = 100"
    using assms by (rule written_damaged)
  note set = writer_init_ok(1) [OF assms(1-3)]
  let ?n = "payload_blocks w0 (concat ps)" and ?l = "sw_layout w0"
  let ?c = "\<lparr>cc_key = rnd_data_key rnd, cc_prefix = sh_nonce_prefix (sw_header w0), cc_associated_data = sw_sealed_header w0\<rparr>"
  let ?r = "damaged_container.reader prim (sw_header w0) (rnd_data_key rnd) (sw_sealed_header w0) (concat ps) trailer src (Some ?c)"
  note P = stream_setting.image_parts [OF set len, where data = "concat ps"]
  have prim: "prim\<lparr>prim_dec := prim_dec prim\<rparr> = prim" by simp
  have opened: "open_reader prim codec src (Some passphrase) = Inr ?r"
    using damaged_container.reader_opens [OF c, of "Some passphrase" "Some ?c" codec] writer_init_cipher [OF assms(1-3)]
    unfolding prim by simp
  have intact: "damaged_container.intact prim (sw_header w0) (rnd_data_key rnd) (sw_sealed_header w0) (concat ps) src i
      \<longleftrightarrow> slot_in ?l src (first_copy_position i (interleave ?l)) = slot_in ?l (sw_sink w') (first_copy_position i (interleave ?l))"
    if "i < ?n" for i
    unfolding damaged_container.intact_def [OF c] image P(4) [OF first_copy_scheduled [OF that]] ..
  have intact2: "damaged_container.intact2 prim (sw_header w0) (rnd_data_key rnd) (sw_sealed_header w0) (concat ps) src i
      \<longleftrightarrow> slot_in ?l src (second_copy_position ?n (interleave ?l) i) = slot_in ?l (sw_sink w') (second_copy_position ?n (interleave ?l) i)"
    if "i < ?n" for i
    unfolding damaged_container.intact2_def [OF c] image P(4) [OF second_copy_scheduled [OF that]] ..
  have meta: "front_header (sw_sink w') = sw_sealed_header w0" "trailer_copy ?l ?n (sw_sink w') 0 = trailer"
    using P(1) P(3) [of 0] by (simp_all add: image)
  have filters: "filter (damaged_container.intact prim (sw_header w0) (rnd_data_key rnd) (sw_sealed_header w0) (concat ps) src) [0..<?n]
      = filter (\<lambda>i. slot_in ?l src (first_copy_position i (interleave ?l)) = slot_in ?l (sw_sink w') (first_copy_position i (interleave ?l))) [0..<?n]"
    "filter (\<lambda>i. \<not> damaged_container.intact prim (sw_header w0) (rnd_data_key rnd) (sw_sealed_header w0) (concat ps) src i) [0..<?n]
      = filter (\<lambda>i. slot_in ?l src (first_copy_position i (interleave ?l)) \<noteq> slot_in ?l (sw_sink w') (first_copy_position i (interleave ?l))) [0..<?n]"
    "filter (\<lambda>i. damaged_container.intact prim (sw_header w0) (rnd_data_key rnd) (sw_sealed_header w0) (concat ps) src i \<and>
        \<not> damaged_container.intact2 prim (sw_header w0) (rnd_data_key rnd) (sw_sealed_header w0) (concat ps) src i) [0..<?n]
      = filter (\<lambda>i. slot_in ?l src (first_copy_position i (interleave ?l)) = slot_in ?l (sw_sink w') (first_copy_position i (interleave ?l)) \<and>
          slot_in ?l src (second_copy_position ?n (interleave ?l) i) \<noteq> slot_in ?l (sw_sink w') (second_copy_position ?n (interleave ?l) i)) [0..<?n]"
    using intact intact2 by (auto intro!: filter_cong)
  show ?thesis
    by (intro exI conjI, rule opened, simp add: damaged_container.reader_def [OF c], simp add: damaged_container.reader_def [OF c],
        use damaged_container.payload_read [OF c, of codec] in \<open>simp add: prim\<close>,
        use damaged_container.damage_verified [OF c, of codec] in \<open>simp add: prim\<close>)
      (simp add: damaged_container.the_report_eq [OF c] damage_report_def Let_def meta filters)
qed

lemma damage_report_good:
  assumes "front_header good = back_header good" and "trailer_copy l n good 0 = trailer_copy l n good 1"
  shows "stream_report_summary (damage_report l n good good) = StreamClean n None"
proof -
  have "metadata_damaged (damage_report l n good good) = []"
    using assms by (simp add: damage_report_def Let_def fresh_report_def damaged_metadata_def)
  then show ?thesis
    by (simp add: stream_report_summary_def stream_ok_def stream_healed_def damage_report_def Let_def fresh_report_def
        nonzero_def)
qed

lemma written_clean:
  assumes "aead_scheme (prim_enc prim) (prim_dec prim)" and "randomness_ok rnd"
    and "writer_init prim rnd passphrase kdf bs ns il workers flags = Inr w0"
    and "payload_blocks w0 (concat ps) \<le> MAX_BLOCKS"
    and "write_all prim ps w0 = Inr w" "writer_close prim w = (Inr ss, w')"
  shows "stream_report_summary (damage_report (sw_layout w0) (payload_blocks w0 (concat ps)) (sw_sink w') (sw_sink w'))
    = StreamClean (payload_blocks w0 (concat ps)) None"
proof -
  obtain trailer where image: "sw_sink w' = container_image prim (sw_header w0) (rnd_data_key rnd) (sw_sealed_header w0) trailer (concat ps)"
    and len: "length trailer = 100"
    using assms survivable_refl by (rule written_damaged)
  note P = stream_setting.image_parts [OF writer_init_ok(1) [OF assms(1-3)] len, where data = "concat ps"]
  have "trailer_copy (sw_layout w0) (payload_blocks w0 (concat ps)) (sw_sink w') k = trailer" if "k < 2" for k
    unfolding image by (rule P(3) [OF that])
  from this [of 0] this [of 1] show ?thesis by (intro damage_report_good) (simp_all add: image P(1,2))
qed

section \<open>Bursts\<close>

text \<open>The checksums notice the damage: no header, trailer or slot was altered into another valid one.\<close>

definition damage_noticed :: "hash16 \<Rightarrow> stream_header \<Rightarrow> nat \<Rightarrow> bytes \<Rightarrow> bytes \<Rightarrow> bool" where
  "damage_noticed h16 h n good src \<longleftrightarrow>
     (front_header src = front_header good \<or> open_sealed_header h16 (front_header src) = None) \<and>
     (let l = sh_layout h
      in (trailer_copy l n src 0 = trailer_copy l n good 0 \<or> trailer_open h16 h (trailer_copy l n src 0) = None) \<and>
         (\<forall>p < 2 * n. slot_in l src p = slot_in l good p \<or> slot_detected h16 h (slot_in l src p)))"

lemma py_slice_outside:
  assumes "length src = length good" and "\<forall>k < length src. k \<notin> {start..<start + len} \<longrightarrow> src ! k = good ! k"
    and "{i..<i + n} \<inter> {start..<start + len} = {}"
  shows "py_slice src i n = py_slice good i n"
proof (rule nth_equalityI)
  show "length (py_slice src i n) = length (py_slice good i n)" using assms(1) by simp
  fix k
  assume k: "k < length (py_slice src i n)"
  then have "i + k \<in> {i..<i + n}" by simp
  then have "i + k \<notin> {start..<start + len}" using assms(3) by blast
  moreover have inside: "i + k < length src" using k by simp linarith
  ultimately have "src ! (i + k) = good ! (i + k)" using assms(2) by blast
  then show "py_slice src i n ! k = py_slice good i n ! k" using k inside assms(1) by (simp add: py_slice_def)
qed

lemma burst_survivable:
  assumes good: "length good = container_size (sh_layout h) n" and src: "length src = length good"
    and il: "1 \<le> interleave (sh_layout h)"
    and outside: "\<forall>k < length src. k \<notin> {start..<start + len} \<longrightarrow> src ! k = good ! k"
    and len: "len \<le> burst_tolerance (sh_layout h) n" and last_parts: "start + len \<le> length src - HEADER_SIZE - TRAILER_SIZE"
    and noticed: "damage_noticed h16 h n good src"
  shows "survivable h16 h n good src"
proof -
  let ?l = "sh_layout h"
  note same = py_slice_outside [OF src outside]
  have behind: "back_header src = back_header good"
    unfolding back_header_def src using last_parts src by (intro same) auto
  have trailer: "trailer_copy ?l n src 1 = trailer_copy ?l n good 1"
    unfolding trailer_copy_def using last_parts good src by (intro same) (auto simp: container_size_def)
  have slots: "\<exists>p \<in> {first_copy_position i (interleave ?l), second_copy_position n (interleave ?l) i}.
      slot_in ?l src p = slot_in ?l good p" if i: "i < n" for i
  proof -
    obtain p where p: "p \<in> {first_copy_position i (interleave ?l), second_copy_position n (interleave ?l) i}"
        "{HEADER_SIZE + p * slot_size ?l..<HEADER_SIZE + (p + 1) * slot_size ?l} \<inter> {start..<start + len} = {}"
      using burst_misses_a_copy [OF il len i, of start] by blast
    have "HEADER_SIZE + (p + 1) * slot_size ?l = HEADER_SIZE + p * slot_size ?l + slot_size ?l" by simp
    then have "slot_in ?l src p = slot_in ?l good p"
      unfolding slot_in_def using p(2) by (intro same) (simp only:)
    then show ?thesis using p(1) by blast
  qed
  show ?thesis
    using noticed behind trailer slots src unfolding survivable_def damage_noticed_def Let_def by blast
qed

section \<open>A container for the examples\<close>

text \<open>The writer of \<open>demo_w0\<close> after a payload, and what it emitted.\<close>

lemma demo_w0_layout: "sw_layout demo_w0 = \<lparr>block_size = 512, nsym = 16, interleave = 4\<rparr>"
  by (rule demo_writer) (use demo_w0_init in simp)

lemma demo_capacity: "chunk_capacity (sw_layout demo_w0) = 480"
  by (simp add: demo_w0_layout chunk_capacity_def)

lemma demo_written:
  assumes "payload_blocks demo_w0 (concat ps) \<le> MAX_BLOCKS"
  obtains w ss w' trailer where "write_all demo_primitives ps demo_w0 = Inr w"
    "writer_close demo_primitives w = (Inr ss, w')"
    "trailer_seal (prim_h16 demo_primitives) (container_trailer demo_primitives (sw_header demo_w0)
      (rnd_data_key demo_randomness) (sw_sealed_header demo_w0) (concat ps)) = Inr trailer"
    "sw_sink w' = container_image demo_primitives (sw_header demo_w0) (rnd_data_key demo_randomness)
      (sw_sealed_header demo_w0) trailer (concat ps)"
    "length (sw_sink w') = container_size (sw_layout demo_w0) (payload_blocks demo_w0 (concat ps))"
proof -
  note init = writer_init_ok [OF demo_aead demo_randomness_ok demo_w0_init]
  obtain w ss w' trailer where W: "write_all demo_primitives ps demo_w0 = Inr w"
      "writer_close demo_primitives w = (Inr ss, w')"
      "trailer_seal (prim_h16 demo_primitives) (container_trailer demo_primitives (sw_header demo_w0)
        (rnd_data_key demo_randomness) (sw_sealed_header demo_w0) (concat ps)) = Inr trailer"
      "sw_sink w' = container_image demo_primitives (sw_header demo_w0) (rnd_data_key demo_randomness)
        (sw_sealed_header demo_w0) trailer (concat ps)"
    using stream_setting.written_container [OF init assms] by blast
  have "length trailer = 100"
    by (rule trailer_seal_total [OF stream_setting.container_trailer_ok [OF init(1) assms], of "prim_h16 demo_primitives"])
      (use W(3) in simp)
  then have "length (sw_sink w') = container_size (sw_layout demo_w0) (payload_blocks demo_w0 (concat ps))"
    unfolding W(4) by (rule stream_setting.container_image_length [OF init(1)])
  then show thesis using that W by blast
qed

lemma zeros_no_header: "open_sealed_header h16 (0 # raw) = None"
  by (auto simp: open_sealed_header_def struct_unpack_from_def SEALED_PREFIX_def MAGIC_def)

text \<open>Overwriting the first \<open>len\<close> bytes of the first header with zeros.\<close>

lemma wiped_front:
  assumes good: "length good = container_size (sh_layout h) n" and len: "0 < len" "len \<le> HEADER_SIZE"
  defines "src \<equiv> replicate len 0 @ drop len good"
  shows "length src = length good" and "\<forall>k < length src. k \<notin> {0..<0 + len} \<longrightarrow> src ! k = good ! k"
    and "damage_noticed h16 h n good src" and "survivable h16 h n good src"
proof -
  have long: "len \<le> length good" using good len by (simp add: container_size_def)
  then show L: "length src = length good" by (simp add: src_def)
  show outside: "\<forall>k < length src. k \<notin> {0..<0 + len} \<longrightarrow> src ! k = good ! k"
    using long by (auto simp: src_def nth_append)
  note same = py_slice_outside [OF L outside]
  obtain m where m: "len = Suc m" using len(1) by (cases len) auto
  have "front_header src = 0 # py_slice (tl src) 0 (HEADER_SIZE - 1)"
    by (simp add: front_header_def py_slice_def src_def m take_Cons')
  then have "open_sealed_header h16 (front_header src) = None" by (simp add: zeros_no_header)
  moreover have "trailer_copy (sh_layout h) n src k = trailer_copy (sh_layout h) n good k" for k
    unfolding trailer_copy_def using len(2) by (intro same) auto
  moreover have "slot_in (sh_layout h) src p = slot_in (sh_layout h) good p" for p
    unfolding slot_in_def using len(2) by (intro same) auto
  moreover have "back_header src = back_header good"
    unfolding back_header_def L using len(2) good by (intro same) (auto simp: container_size_def)
  ultimately show "damage_noticed h16 h n good src" "survivable h16 h n good src"
    using L by (simp_all add: damage_noticed_def survivable_def Let_def)
qed

text \<open>
  A cipher under which only the sealed chunk of the payload \<open>[7, 8, 9]\<close> opens with the data key, and
  the container of that payload read with it.
\<close>

abbreviation demo_sealed :: bytes where
  "demo_sealed \<equiv> sealed_chunk demo_primitives (sw_header demo_w0) (rnd_data_key demo_randomness)
     (sw_sealed_header demo_w0) 0 [7, 8, 9] True"

definition demo_dec :: aead_dec where
  "demo_dec k n c a =
     (if k = rnd_data_key demo_randomness
      then (if n = nonce_of (sw_header demo_w0) 0 True \<and> c = demo_sealed then Some [7, 8, 9] else None)
      else clear_dec k n c a)"

definition demo_trailer :: bytes where
  "demo_trailer = projr (trailer_seal (prim_h16 demo_primitives) (container_trailer demo_primitives (sw_header demo_w0)
     (rnd_data_key demo_randomness) (sw_sealed_header demo_w0) [7, 8, 9]))"

definition demo_image :: bytes where
  "demo_image = container_image demo_primitives (sw_header demo_w0) (rnd_data_key demo_randomness)
     (sw_sealed_header demo_w0) demo_trailer [7, 8, 9]"

lemma demo_chunks: "chunks_of (chunk_capacity (sw_layout demo_w0)) [7, 8, 9] = [[7, 8, 9]]"
  by (simp add: demo_capacity chunks_of_short)

interpretation demo_container: damaged_container demo_primitives "sw_header demo_w0" "rnd_data_key demo_randomness"
  "sw_sealed_header demo_w0" "[7, 8, 9]" demo_trailer demo_image demo_dec nearest_codec
proof
  have room: "length (chunks_of (chunk_capacity (sw_layout demo_w0)) [7, 8, 9]) \<le> MAX_BLOCKS"
    by (simp add: demo_chunks MAX_BLOCKS_def MAX_CHUNKS_def)
  obtain raw where raw: "trailer_seal (prim_h16 demo_primitives) (container_trailer demo_primitives (sw_header demo_w0)
      (rnd_data_key demo_randomness) (sw_sealed_header demo_w0) [7, 8, 9]) = Inr raw" "length raw = 100"
    by (rule trailer_seal_total [OF demo.container_trailer_ok [OF room], of "prim_h16 demo_primitives"]) blast
  have trailer: "demo_trailer = raw" by (simp add: demo_trailer_def raw(1))
  show "length (chunks_of (chunk_capacity (sw_layout demo_w0)) [7, 8, 9]) \<le> MAX_BLOCKS" by (rule room)
  show "trailer_seal (prim_h16 demo_primitives) (container_trailer demo_primitives (sw_header demo_w0)
      (rnd_data_key demo_randomness) (sw_sealed_header demo_w0) [7, 8, 9]) = Inr demo_trailer"
    by (simp add: trailer raw(1))
  show "readable_damage (prim_h16 demo_primitives) (sw_header demo_w0) (sw_sealed_header demo_w0) demo_trailer
      (container_slots demo_primitives (sw_header demo_w0) (rnd_data_key demo_randomness) (sw_sealed_header demo_w0) [7, 8, 9])
      demo_image"
    unfolding demo_image_def trailer by (rule demo.survivable_readable [OF raw(2) survivable_refl])
  show "demo_dec (rnd_data_key demo_randomness) (nonce_of (sw_header demo_w0) i f)
      (sealed_chunk demo_primitives (sw_header demo_w0) (rnd_data_key demo_randomness) (sw_sealed_header demo_w0) i
        (chunks_of (chunk_capacity (sw_layout demo_w0)) [7, 8, 9] ! i) f) (sw_sealed_header demo_w0)
      = Some (chunks_of (chunk_capacity (sw_layout demo_w0)) [7, 8, 9] ! i)"
    if "i < length (chunks_of (chunk_capacity (sw_layout demo_w0)) [7, 8, 9])"
      "f = (Suc i = length (chunks_of (chunk_capacity (sw_layout demo_w0)) [7, 8, 9]))" for i f
    using that by (simp add: demo_chunks demo_dec_def)
qed

lemma demo_opens:
  "open_reader (demo_primitives\<lparr>prim_dec := demo_dec\<rparr>) nearest_codec demo_image (Some [1])
    = Inr (demo_container.reader (Some demo.cipher))"
proof (rule demo_container.reader_opens)
  have "reader_cipher (demo_primitives\<lparr>prim_dec := demo_dec\<rparr>) (sw_header demo_w0) (Some [1])
      = reader_cipher demo_primitives (sw_header demo_w0) (Some [1])"
  proof -
    have "replicate 32 0 \<noteq> rnd_data_key demo_randomness" by (simp add: demo_randomness_def KEY_LENGTH_def)
    then have unwrap: "unwrap_key demo_dec (replicate 32 0) n w b = unwrap_key (prim_dec demo_primitives) (replicate 32 0) n w b" for n w b
      by (simp add: unwrap_key_def demo_dec_def demo_primitives_def)
    show ?thesis
    proof (cases "derive_key (prim_argon2 demo_primitives) [1] (sh_salt (sw_header demo_w0)) (sh_kdf_params (sw_header demo_w0))")
      case (Inl e)
      then show ?thesis by (simp add: reader_cipher_def)
    next
      case (Inr kek)
      then have "kek = replicate 32 0" by (auto simp: derive_key_def demo_primitives_def)
      then show ?thesis using Inr by (simp add: reader_cipher_def unwrap)
    qed
  qed
  then show "reader_cipher (demo_primitives\<lparr>prim_dec := demo_dec\<rparr>) (sw_header demo_w0) (Some [1]) = Inr (Some demo.cipher)"
    using writer_init_cipher [OF demo_aead demo_randomness_ok demo_w0_init] by simp
qed

lemma demo_authentic:
  assumes "chunk_open demo_dec demo.cipher i s f = Inr p"
  shows "i = 0 \<and> f \<and> p = [7, 8, 9]"
proof -
  obtain nonce where n: "chunk_nonce (sh_nonce_prefix (sw_header demo_w0)) i f = Inr nonce"
      "nonce = nonce_of (sw_header demo_w0) 0 True" "p = [7, 8, 9]"
    using assms by (auto simp: chunk_open_def demo_dec_def split: option.splits if_splits)
  then have "be_bytes 4 (nat i) = be_bytes 4 0" "(if f then 1 else 0 :: byte) = 1" "0 \<le> i" "nat i < 256 ^ 4"
    by (auto simp: chunk_nonce_Inr nonce_of_def MAX_CHUNKS_def)
  then have "nat i = 0" by (metis be_nat_be_bytes zero_less_power zero_less_numeral)
  then show ?thesis using n(3) \<open>0 \<le> i\<close> \<open>(if f then 1 else 0 :: byte) = 1\<close> by (auto split: if_splits)
qed

section \<open>Properties\<close>

text \<open>
  C6: A container the writer produced is read back from whatever is left of it, as long as of each
  header, trailer and block one copy is intact and the checksums notice the damage to the others: with
  the passphrase it opens, \<^verbatim>\<open>read_all\<close> returns the payload, and \<^verbatim>\<open>verify\<close> reports exactly which parts
  were damaged and how many blocks came from their first and from their second copy.
\<close>

theorem damaged_container_is_read:
  assumes "aead_scheme (prim_enc prim) (prim_dec prim)" and "randomness_ok rnd"
    and "writer_init prim rnd passphrase kdf bs ns il workers flags = Inr w0"
    and "payload_blocks w0 (concat ps) \<le> MAX_BLOCKS"
    and "write_all prim ps w0 = Inr w" "writer_close prim w = (Inr ss, w')"
    and "survivable (prim_h16 prim) (sw_header w0) (payload_blocks w0 (concat ps)) (sw_sink w') src"
  shows "\<exists>r. open_reader prim codec src (Some passphrase) = Inr r \<and> read_all prim codec r = Inr (concat ps) \<and>
    reader_verify prim codec r = Inr (damage_report (sw_layout w0) (payload_blocks w0 (concat ps)) (sw_sink w') src)"
  using reader_of_written [OF assms, of codec] by blast

theorem damaged_container_is_read_witness:
  "\<exists>w ss w' r. write_all demo_primitives [[7], [8, 9]] demo_w0 = Inr w \<and>
    writer_close demo_primitives w = (Inr ss, w') \<and>
    open_reader demo_primitives nearest_codec (replicate 9 0 @ drop 9 (sw_sink w')) (Some [1]) = Inr r \<and>
    read_all demo_primitives nearest_codec r = Inr [7, 8, 9]"
proof -
  have one: "payload_blocks demo_w0 (concat [[7], [8, 9]]) = 1"
    by (simp add: demo_capacity chunks_of_short)
  then have room: "payload_blocks demo_w0 (concat [[7], [8, 9]]) \<le> MAX_BLOCKS"
    by (simp add: MAX_BLOCKS_def MAX_CHUNKS_def)
  obtain w ss w' trailer where W: "write_all demo_primitives [[7], [8, 9]] demo_w0 = Inr w"
      "writer_close demo_primitives w = (Inr ss, w')"
      "length (sw_sink w') = container_size (sw_layout demo_w0) (payload_blocks demo_w0 (concat [[7], [8, 9]]))"
    using room by (rule demo_written)
  have "survivable (prim_h16 demo_primitives) (sw_header demo_w0) (payload_blocks demo_w0 (concat [[7], [8, 9]])) (sw_sink w')
      (replicate 9 0 @ drop 9 (sw_sink w'))"
    by (rule wiped_front(4) [OF W(3)]) simp_all
  from damaged_container_is_read [OF demo_aead demo_randomness_ok demo_w0_init room W(1,2) this, of nearest_codec]
  show ?thesis using W(1,2) by auto
qed

text \<open>
  The round trip of the stream container: opened with the passphrase it was written with, an
  undamaged container gives back exactly the bytes that were written, whatever the sizes of the writes,
  and verifying it says that all its blocks are clean.
\<close>

theorem written_container_reads_back:
  assumes "aead_scheme (prim_enc prim) (prim_dec prim)" and "randomness_ok rnd"
    and "writer_init prim rnd passphrase kdf bs ns il workers flags = Inr w0"
    and "payload_blocks w0 (concat ps) \<le> MAX_BLOCKS"
    and "write_all prim ps w0 = Inr w" "writer_close prim w = (Inr ss, w')"
  shows "\<exists>r report. open_reader prim codec (sw_sink w') (Some passphrase) = Inr r \<and>
    read_all prim codec r = Inr (concat ps) \<and> reader_verify prim codec r = Inr report \<and>
    stream_report_summary report = StreamClean (payload_blocks w0 (concat ps)) None"
  using reader_of_written [OF assms survivable_refl, of codec] written_clean [OF assms] by blast

theorem written_container_reads_back_witness:
  "\<exists>w ss w' r report. write_all demo_primitives [[7], [8, 9]] demo_w0 = Inr w \<and>
    writer_close demo_primitives w = (Inr ss, w') \<and>
    open_reader demo_primitives nearest_codec (sw_sink w') (Some [1]) = Inr r \<and>
    read_all demo_primitives nearest_codec r = Inr [7, 8, 9] \<and>
    reader_verify demo_primitives nearest_codec r = Inr report \<and>
    stream_report_summary report = StreamClean 1 None"
proof -
  have one: "payload_blocks demo_w0 (concat [[7], [8, 9]]) = 1"
    by (simp add: demo_capacity chunks_of_short)
  then have room: "payload_blocks demo_w0 (concat [[7], [8, 9]]) \<le> MAX_BLOCKS"
    by (simp add: MAX_BLOCKS_def MAX_CHUNKS_def)
  obtain w ss w' trailer where W: "write_all demo_primitives [[7], [8, 9]] demo_w0 = Inr w"
      "writer_close demo_primitives w = (Inr ss, w')"
    using room by (rule demo_written)
  from written_container_reads_back [OF demo_aead demo_randomness_ok demo_w0_init room W(1,2), of nearest_codec]
  show ?thesis using W(1,2) unfolding one by auto
qed

text \<open>
  C7: A burst that overwrites at most \<^verbatim>\<open>burst_tolerance\<close> consecutive bytes of a container, anywhere
  before the second trailer and with any bytes the checksums notice, costs nothing: the payload is read
  back in full.
\<close>

theorem burst_is_survived:
  assumes "aead_scheme (prim_enc prim) (prim_dec prim)" and "randomness_ok rnd"
    and "writer_init prim rnd passphrase kdf bs ns il workers flags = Inr w0"
    and "payload_blocks w0 (concat ps) \<le> MAX_BLOCKS"
    and "write_all prim ps w0 = Inr w" "writer_close prim w = (Inr ss, w')"
    and "length src = length (sw_sink w')"
    and "\<forall>k < length src. k \<notin> {start..<start + len} \<longrightarrow> src ! k = sw_sink w' ! k"
    and "len \<le> burst_tolerance (sw_layout w0) (payload_blocks w0 (concat ps))"
    and "start + len \<le> length src - HEADER_SIZE - TRAILER_SIZE"
    and "damage_noticed (prim_h16 prim) (sw_header w0) (payload_blocks w0 (concat ps)) (sw_sink w') src"
  shows "\<exists>r. open_reader prim codec src (Some passphrase) = Inr r \<and> read_all prim codec r = Inr (concat ps)"
proof -
  note set = writer_init_ok(1) [OF assms(1-3)]
  obtain trailer where "length trailer = 100"
      "sw_sink w' = container_image prim (sw_header w0) (rnd_data_key rnd) (sw_sealed_header w0) trailer (concat ps)"
    using assms(1-6) survivable_refl by (rule written_damaged)
  then have "length (sw_sink w') = container_size (sw_layout w0) (payload_blocks w0 (concat ps))"
    using stream_setting.container_image_length [OF set] by simp
  moreover have "1 \<le> interleave (sw_layout w0)"
    by (rule layout_okD(5) [OF stream_setting.layout_fine [OF set]])
  ultimately have "survivable (prim_h16 prim) (sw_header w0) (payload_blocks w0 (concat ps)) (sw_sink w') src"
    using assms(7-11) by (intro burst_survivable)
  then show ?thesis using reader_of_written [OF assms(1-6), of src codec] by blast
qed

theorem burst_is_survived_witness:
  "\<exists>w ss w' r. write_all demo_primitives [replicate 480 7, [8, 9]] demo_w0 = Inr w \<and>
    writer_close demo_primitives w = (Inr ss, w') \<and>
    open_reader demo_primitives nearest_codec (replicate 100 0 @ drop 100 (sw_sink w')) (Some [1]) = Inr r \<and>
    read_all demo_primitives nearest_codec r = Inr (replicate 480 7 @ [8, 9])"
proof -
  let ?ps = "[replicate 480 7, [8, 9]] :: bytes list"
  have two: "payload_blocks demo_w0 (concat ?ps) = 2"
    using chunks_of_long [of 480 "concat ?ps"] by (simp add: demo_capacity chunks_of_short)
  then have room: "payload_blocks demo_w0 (concat ?ps) \<le> MAX_BLOCKS"
    by (simp add: MAX_BLOCKS_def MAX_CHUNKS_def)
  obtain w ss w' trailer where W: "write_all demo_primitives ?ps demo_w0 = Inr w"
      "writer_close demo_primitives w = (Inr ss, w')"
      "length (sw_sink w') = container_size (sw_layout demo_w0) (payload_blocks demo_w0 (concat ?ps))"
    using room by (rule demo_written)
  have "(0::nat) < 100" "100 \<le> HEADER_SIZE" by simp_all
  note B = wiped_front [OF W(3) this]
  have "100 \<le> burst_tolerance (sw_layout demo_w0) (payload_blocks demo_w0 (concat ?ps))"
    unfolding two by (simp add: demo_w0_layout burst_tolerance_def slot_size_def encoded_size_def encoded_length_def
        message_length_def CODEWORD_SIZE_def SLOT_TAG_SIZE_def)
  moreover have "0 + 100 \<le> length (replicate 100 0 @ drop 100 (sw_sink w')) - HEADER_SIZE - TRAILER_SIZE"
    unfolding B(1) W(3) by (simp add: container_size_def)
  ultimately have "\<exists>r. open_reader demo_primitives nearest_codec (replicate 100 0 @ drop 100 (sw_sink w')) (Some [1]) = Inr r \<and>
      read_all demo_primitives nearest_codec r = Inr (concat ?ps)"
    using B(3) by (intro burst_is_survived [OF demo_aead demo_randomness_ok demo_w0_init room W(1,2) B(1,2)])
  then show ?thesis using W(1,2) by auto
qed



end
