(* ===== verification/Frames.thy ===== *)
theory Frames
  imports Complex_Main Errors
begin

text \<open>
  The payload of format version 2, \<^verbatim>\<open>src/dbs/engine/frames.py\<close>: frames with a kind and a length, the
  reader that cuts them out of pieces of any size, the checks on the JSON each frame carries, and the
  phases in which \<^verbatim>\<open>PayloadReader\<close> reads header, file manifest, file data, records and trailer.

  \<open>py\<close> is what \<^verbatim>\<open>json.loads\<close> returns. Decoding and encoding JSON and SHA-256 are arguments
  (\<open>codec_of_json\<close>): \<open>loads\<close> of a bytes object, \<open>loads_utf8\<close> of a body decoded as UTF-8 first; \<open>None\<close> is
  any of the three exceptions \<^verbatim>\<open>_parsed\<close> and \<^verbatim>\<open>_decoded\<close> translate.
\<close>

section \<open>Values\<close>

datatype py =
    PNone
  | PBool bool
  | PInt int
  | PFloat rat
  | PNonFinite
  | PStr string
  | PList "py list"
  | PDict "(string \<times> py) list"

definition is_dict :: "py \<Rightarrow> bool" where "is_dict v = (case v of PDict _ \<Rightarrow> True | _ \<Rightarrow> False)"
definition is_list :: "py \<Rightarrow> bool" where "is_list v = (case v of PList _ \<Rightarrow> True | _ \<Rightarrow> False)"

text \<open>\<^verbatim>\<open>value.get(name)\<close> of a dictionary; the other shapes have been rejected before it is called.\<close>

definition py_get :: "py \<Rightarrow> string \<Rightarrow> py" where
  "py_get v name = (case v of PDict ps \<Rightarrow> (case map_of ps name of None \<Rightarrow> PNone | Some x \<Rightarrow> x) | _ \<Rightarrow> PNone)"

definition py_items :: "py \<Rightarrow> py list" where
  "py_items v = (case v of PList xs \<Rightarrow> xs | _ \<Rightarrow> [])"

definition py_text :: "py \<Rightarrow> string" where
  "py_text v = (case v of PStr s \<Rightarrow> s | _ \<Rightarrow> [])"

definition py_nat :: "py \<Rightarrow> nat" where
  "py_nat v = (case v of PInt i \<Rightarrow> nat i | _ \<Rightarrow> 0)"

text \<open>\<^verbatim>\<open>value == n\<close> for an integer \<open>n\<close>: \<^verbatim>\<open>True == 1\<close> and \<^verbatim>\<open>2.0 == 2\<close> hold in Python.\<close>

definition py_eq_int :: "py \<Rightarrow> int \<Rightarrow> bool" where
  "py_eq_int v n = (case v of PInt i \<Rightarrow> i = n | PBool b \<Rightarrow> (if b then 1 else 0) = n | PFloat q \<Rightarrow> q = of_int n | _ \<Rightarrow> False)"

definition is_text :: "py \<Rightarrow> bool" where
  "is_text v = (case v of PStr _ \<Rightarrow> True | _ \<Rightarrow> False)"

definition optional_text :: "py \<Rightarrow> bool" where
  "optional_text v = (case v of PNone \<Rightarrow> True | PStr _ \<Rightarrow> True | _ \<Rightarrow> False)"

definition is_count :: "py \<Rightarrow> bool" where
  "is_count v = (case v of PInt i \<Rightarrow> 0 \<le> i | _ \<Rightarrow> False)"

definition is_scalar :: "py \<Rightarrow> bool" where
  "is_scalar v = (case v of PList _ \<Rightarrow> False | PDict _ \<Rightarrow> False | _ \<Rightarrow> True)"

record codec_of_json =
  loads :: "bytes \<Rightarrow> py option"
  loads_utf8 :: "bytes \<Rightarrow> py option"
  dumps :: "py \<Rightarrow> bytes"
  sha256 :: "bytes \<Rightarrow> string"

section \<open>Frames\<close>

definition PAYLOAD_MAGIC :: bytes where "PAYLOAD_MAGIC = [68, 66, 83, 80, 65, 89, 48, 50]"
definition PAYLOAD_VERSION :: int where "PAYLOAD_VERSION = 2"
definition FRAME_PREFIX :: "field_code list" where "FRAME_PREFIX = [FU 1, FU 4]"
definition FILE_INDEX :: "field_code list" where "FILE_INDEX = [FU 4]"

definition HEADER :: nat where "HEADER = 72"
definition MANIFEST :: nat where "MANIFEST = 77"
definition FILE_DATA :: nat where "FILE_DATA = 68"
definition FILE_END :: nat where "FILE_END = 69"
definition RECORDS :: nat where "RECORDS = 82"
definition TRAILER :: nat where "TRAILER = 84"

definition frame_kinds :: "nat list" where
  "frame_kinds = [HEADER, MANIFEST, FILE_DATA, FILE_END, RECORDS, TRAILER]"

definition MAX_FRAME_BYTES :: nat where "MAX_FRAME_BYTES = 256 * 1024 * 1024"
definition MAX_FILES :: nat where "MAX_FILES = 2 ^ 32 - 1"
definition MANIFEST_BATCH :: nat where "MANIFEST_BATCH = 1000"
definition SMALL_PIECE_BYTES :: nat where "SMALL_PIECE_BYTES = 1024 * 1024"
definition COMPACT_BYTES :: nat where "COMPACT_BYTES = 4 * 1024 * 1024"

definition frame_prefix :: "nat \<Rightarrow> nat \<Rightarrow> bytes result" where
  "frame_prefix kind len =
     (case struct_pack FRAME_PREFIX [Num kind, Num len] of None \<Rightarrow> Inl StructError | Some prefix \<Rightarrow> Inr prefix)"

definition frame :: "nat \<Rightarrow> bytes \<Rightarrow> bytes result" where
  "frame kind body =
     (if MAX_FRAME_BYTES < length body then Inl ValueError
      else and_then (frame_prefix kind (length body)) (\<lambda>prefix. Inr (prefix @ body)))"

definition frame_parts :: "nat \<Rightarrow> bytes list \<Rightarrow> bytes list result" where
  "frame_parts kind ps =
     (let len = sum_list (map length ps)
      in if MAX_FRAME_BYTES < len then Inl ValueError
         else and_then (frame_prefix kind len) (\<lambda>prefix.
           case ps of
             p # rest \<Rightarrow> if length p \<le> SMALL_PIECE_BYTES then Inr ((prefix @ p) # rest) else Inr (prefix # ps)
           | [] \<Rightarrow> Inr [prefix]))"

definition json_frame :: "codec_of_json \<Rightarrow> nat \<Rightarrow> py \<Rightarrow> bytes result" where
  "json_frame js kind v = frame kind (dumps js v)"

record file_entry =
  fe_kind :: string
  fe_size :: nat
  fe_sha256 :: string
  fe_model :: py
  fe_pk :: py
  fe_field :: py
  fe_name :: string
  fe_root :: py

definition manifest_item :: "file_entry \<Rightarrow> py" where
  "manifest_item e = PDict [(''kind'', PStr (fe_kind e)), (''size'', PInt (int (fe_size e))), (''model'', fe_model e),
     (''pk'', fe_pk e), (''field'', fe_field e), (''name'', PStr (fe_name e)), (''root'', fe_root e)]"

definition file_data_frame :: "nat \<Rightarrow> bytes \<Rightarrow> bytes result" where
  "file_data_frame index chunk =
     (case struct_pack FILE_INDEX [Num index] of None \<Rightarrow> Inl StructError | Some prefix \<Rightarrow> frame FILE_DATA (prefix @ chunk))"

definition file_end_frame :: "codec_of_json \<Rightarrow> nat \<Rightarrow> nat \<Rightarrow> string \<Rightarrow> string \<Rightarrow> bytes result" where
  "file_end_frame js index len digest skipped =
     (if skipped \<noteq> [] then json_frame js FILE_END (PDict [(''index'', PInt (int index)), (''skipped'', PStr skipped)])
      else json_frame js FILE_END (PDict [(''index'', PInt (int index)), (''size'', PInt (int len)), (''sha256'', PStr digest)]))"

section \<open>Checks on what the frames carry\<close>

abbreviation malformed :: "'a result" where "malformed \<equiv> Inl ContainerError"

definition parsed :: "codec_of_json \<Rightarrow> bytes \<Rightarrow> py result" where
  "parsed js body = (case loads js body of None \<Rightarrow> malformed | Some v \<Rightarrow> Inr v)"

definition parsed_utf8 :: "codec_of_json \<Rightarrow> bytes \<Rightarrow> py result" where
  "parsed_utf8 js body = (case loads_utf8 js body of None \<Rightarrow> malformed | Some v \<Rightarrow> Inr v)"

definition checked_header :: "py \<Rightarrow> py result" where
  "checked_header v =
     (if \<not> is_dict v \<or> \<not> py_eq_int (py_get v ''version'') PAYLOAD_VERSION then malformed
      else let order = py_get v ''order''
      in if \<not> is_list order \<or> \<not> list_all is_text (py_items order) then malformed
      else let migrations = py_get v ''migrations''
      in if migrations \<noteq> PNone \<and> \<not> (case migrations of PDict ps \<Rightarrow> list_all (\<lambda>(app, name). is_text name) ps | _ \<Rightarrow> False)
         then malformed
      else if \<not> list_all (\<lambda>name. optional_text (py_get v name)) [''created'', ''django_version''] then malformed
      else Inr v)"

definition checked_entry :: "py \<Rightarrow> file_entry result" where
  "checked_entry v =
     (if \<not> is_dict v then malformed
      else if \<not> is_text (py_get v ''kind'') \<or> \<not> is_text (py_get v ''name'') then malformed
      else if \<not> is_count (py_get v ''size'') then malformed
      else if \<not> list_all (\<lambda>name. optional_text (py_get v name)) [''model'', ''field'', ''root''] then malformed
      else if \<not> is_scalar (py_get v ''pk'') then malformed
      else Inr \<lparr>fe_kind = py_text (py_get v ''kind''), fe_size = py_nat (py_get v ''size''), fe_sha256 = [],
                fe_model = py_get v ''model'', fe_pk = py_get v ''pk'', fe_field = py_get v ''field'',
                fe_name = py_text (py_get v ''name''), fe_root = py_get v ''root''\<rparr>)"

text \<open>
  \<^verbatim>\<open>rank.get(label)\<close>: the ranks are keyed by text, so every other hashable value is absent; a list or
  a dictionary is not hashable and raises \<^verbatim>\<open>TypeError\<close>.
\<close>

definition rank_get :: "(string \<rightharpoonup> nat) \<Rightarrow> py \<Rightarrow> nat option result" where
  "rank_get rank label =
     (case label of PStr s \<Rightarrow> Inr (rank s) | PList _ \<Rightarrow> Inl TypeError | PDict _ \<Rightarrow> Inl TypeError | _ \<Rightarrow> Inr None)"

fun checked_records_loop :: "(string \<rightharpoonup> nat) \<Rightarrow> nat \<Rightarrow> py list \<Rightarrow> nat result" where
  "checked_records_loop rank current [] = Inr current"
| "checked_records_loop rank current (r # rs) =
     (if \<not> is_dict r \<or> \<not> is_dict (py_get r ''fields'') then malformed
      else and_then (rank_get rank (py_get r ''model'')) (\<lambda>position.
        case position of
          None \<Rightarrow> malformed
        | Some position \<Rightarrow>
            if position < current then malformed
            else if \<not> is_scalar (py_get r ''pk'') then malformed
            else checked_records_loop rank position rs))"

definition checked_records :: "py \<Rightarrow> (string \<rightharpoonup> nat) \<Rightarrow> nat \<Rightarrow> (py list \<times> nat) result" where
  "checked_records v rank current =
     (case v of
        PList rs \<Rightarrow> and_then (checked_records_loop rank current rs) (\<lambda>current. Inr (rs, current))
      | _ \<Rightarrow> malformed)"

definition checked_trailer :: "py \<Rightarrow> py result" where
  "checked_trailer v =
     (let stats = (if is_dict v then py_get v ''stats'' else PNone)
      in if \<not> is_dict stats then malformed
      else let models = py_get stats ''models''
      in if \<not> is_list models \<or>
            \<not> list_all (\<lambda>item. is_dict item \<and> is_text (py_get item ''model'') \<and> is_count (py_get item ''count'')) (py_items models)
         then malformed
      else if \<not> is_count (py_get stats ''records'') \<or> \<not> is_count (py_get stats ''files'') then malformed
      else let skipped = py_get stats ''skipped_files''
      in if \<not> is_list skipped \<or> \<not> list_all is_text (py_items skipped) then malformed
      else Inr v)"

section \<open>Cutting frames out of pieces\<close>

record frame_reader =
  fr_pieces :: "bytes list"
  fr_buffer :: bytes
  fr_start :: nat

definition available :: "frame_reader \<Rightarrow> nat" where
  "available fr = length (fr_buffer fr) - fr_start fr"

fun fill_loop :: "nat \<Rightarrow> bytes list \<Rightarrow> bytes \<Rightarrow> nat \<Rightarrow> bool \<times> frame_reader" where
  "fill_loop n [] buffer start =
     (\<not> length buffer - start < n, \<lparr>fr_pieces = [], fr_buffer = buffer, fr_start = start\<rparr>)"
| "fill_loop n (piece # ps) buffer start =
     (if length buffer - start < n
      then (let buffer = (if start \<noteq> 0 then drop start buffer else buffer); start = (if start \<noteq> 0 then 0 else start)
            in fill_loop n ps (buffer @ piece) start)
      else (True, \<lparr>fr_pieces = piece # ps, fr_buffer = buffer, fr_start = start\<rparr>))"

definition fill :: "nat \<Rightarrow> frame_reader \<Rightarrow> bool \<times> frame_reader" where
  "fill n fr = fill_loop n (fr_pieces fr) (fr_buffer fr) (fr_start fr)"

definition take_bytes :: "nat \<Rightarrow> frame_reader \<Rightarrow> (bytes \<times> frame_reader) result" where
  "take_bytes n fr =
     (case fill n fr of
        (False, _) \<Rightarrow> malformed
      | (True, fr) \<Rightarrow>
          let taken = py_slice (fr_buffer fr) (fr_start fr) n; start = fr_start fr + n
          in Inr (taken, if COMPACT_BYTES \<le> start
                         then fr\<lparr>fr_buffer := drop start (fr_buffer fr), fr_start := 0\<rparr>
                         else fr\<lparr>fr_start := start\<rparr>))"

definition next_frame :: "frame_reader \<Rightarrow> ((nat \<times> bytes) option \<times> frame_reader) result" where
  "next_frame fr =
     (case fill (struct_size FRAME_PREFIX) fr of
        (False, fr) \<Rightarrow> if available fr \<noteq> 0 then malformed else Inr (None, fr)
      | (True, fr) \<Rightarrow>
          (case struct_unpack_from FRAME_PREFIX (drop (fr_start fr) (fr_buffer fr)) of
             Some [Num kind, Num len] \<Rightarrow>
               if kind \<notin> set frame_kinds then malformed
               else if MAX_FRAME_BYTES < len then malformed
               else and_then (take_bytes len (fr\<lparr>fr_start := fr_start fr + struct_size FRAME_PREFIX\<rparr>))
                      (\<lambda>(body, fr). Inr (Some (kind, body), fr))
           | _ \<Rightarrow> Inl StructError))"

definition open_frames :: "bytes list \<Rightarrow> frame_reader result" where
  "open_frames ps =
     and_then (take_bytes (length PAYLOAD_MAGIC) \<lparr>fr_pieces = ps, fr_buffer = [], fr_start = 0\<rparr>)
       (\<lambda>(magic, fr). if magic \<noteq> PAYLOAD_MAGIC then Inl ContainerError else Inr fr)"

section \<open>What is left to read\<close>

definition rest_of :: "frame_reader \<Rightarrow> bytes" where
  "rest_of fr = drop (fr_start fr) (fr_buffer fr) @ concat (fr_pieces fr)"

lemma frame_sizes [simp]: "struct_size FRAME_PREFIX = 5" "struct_size FILE_INDEX = 4"
  by (simp_all add: FRAME_PREFIX_def FILE_INDEX_def)

lemma fill_rest: "rest_of (snd (fill n fr)) = rest_of fr"
proof -
  have "rest_of (snd (fill_loop n ps buffer start)) = drop start buffer @ concat ps" for ps buffer start
    by (induction n ps buffer start rule: fill_loop.induct) (simp_all add: rest_of_def Let_def)
  then show ?thesis by (simp add: fill_def rest_of_def)
qed

lemma fill_result: "fst (fill n fr) \<longleftrightarrow> n \<le> length (rest_of fr)"
proof -
  have "fst (fill_loop n ps buffer start) \<longleftrightarrow> n \<le> length (drop start buffer @ concat ps)" for ps buffer start
    by (induction n ps buffer start rule: fill_loop.induct) (auto simp: Let_def)
  then show ?thesis by (simp add: fill_def rest_of_def)
qed

lemma fill_available: "fst (fill n fr) \<Longrightarrow> n \<le> available (snd (fill n fr))"
proof -
  have "fst (fill_loop n ps buffer start) \<Longrightarrow> n \<le> available (snd (fill_loop n ps buffer start))" for ps buffer start
    by (induction n ps buffer start rule: fill_loop.induct) (auto simp: Let_def available_def split: if_splits)
  then show "fst (fill n fr) \<Longrightarrow> ?thesis" by (simp add: fill_def)
qed

lemma fill_short: "\<not> fst (fill n fr) \<Longrightarrow> fr_pieces (snd (fill n fr)) = []"
proof -
  have "\<not> fst (fill_loop n ps buffer start) \<Longrightarrow> fr_pieces (snd (fill_loop n ps buffer start)) = []" for ps buffer start
    by (induction n ps buffer start rule: fill_loop.induct) (auto simp: Let_def split: if_splits)
  then show "\<not> fst (fill n fr) \<Longrightarrow> ?thesis" by (simp add: fill_def)
qed

lemma take_bytes_eq:
  "take_bytes n fr = Inr (taken, fr') \<Longrightarrow> rest_of fr = taken @ rest_of fr' \<and> length taken = n"
  "n \<le> length (rest_of fr) \<Longrightarrow> \<exists>fr'. take_bytes n fr = Inr (take n (rest_of fr), fr')"
  "length (rest_of fr) < n \<Longrightarrow> take_bytes n fr = malformed"
proof -
  obtain ok fr1 where f: "fill n fr = (ok, fr1)" by fastforce
  have ok: "ok \<longleftrightarrow> n \<le> length (rest_of fr)" using fill_result [of n fr] by (simp add: f)
  have r: "rest_of fr1 = rest_of fr" using fill_rest [of n fr] by (simp add: f)
  have av: "n \<le> length (fr_buffer fr1) - fr_start fr1" if ok
    using fill_available [of n fr] that by (simp add: f available_def)
  show "length (rest_of fr) < n \<Longrightarrow> take_bytes n fr = malformed"
    using ok by (simp add: take_bytes_def f)
  show "n \<le> length (rest_of fr) \<Longrightarrow> \<exists>fr'. take_bytes n fr = Inr (take n (rest_of fr), fr')"
    using ok av r [symmetric] by (simp add: take_bytes_def f Let_def py_slice_def rest_of_def)
  show "rest_of fr = taken @ rest_of fr' \<and> length taken = n" if "take_bytes n fr = Inr (taken, fr')"
  proof -
    have o: ok using that by (cases ok) (simp_all add: take_bytes_def f)
    have t: "taken = take n (drop (fr_start fr1) (fr_buffer fr1))"
        "fr_pieces fr' = fr_pieces fr1" "drop (fr_start fr') (fr_buffer fr') = drop (fr_start fr1 + n) (fr_buffer fr1)"
      using that o by (auto simp: take_bytes_def f Let_def py_slice_def split: if_splits)
    have "drop (fr_start fr1) (fr_buffer fr1) = taken @ drop (fr_start fr') (fr_buffer fr')"
      by (simp add: t add.commute flip: drop_drop)
    moreover have "rest_of fr = drop (fr_start fr1) (fr_buffer fr1) @ concat (fr_pieces fr1)"
      by (simp add: rest_of_def [of fr1, symmetric] r)
    ultimately have "rest_of fr = taken @ rest_of fr'" by (simp add: rest_of_def [of fr'] t(2))
    then show ?thesis using av [OF o] t(1) by simp
  qed
qed

text \<open>One frame at the head of a byte string: the specification of \<^verbatim>\<open>next_frame\<close>.\<close>

definition parse_frame :: "bytes \<Rightarrow> ((nat \<times> bytes) \<times> bytes) option result" where
  "parse_frame bs =
     (if bs = [] then Inr None
      else if length bs < 5 then malformed
      else let kind = unat (hd bs); len = be_nat (take 4 (drop 1 bs))
           in if kind \<notin> set frame_kinds \<or> MAX_FRAME_BYTES < len \<or> length bs < 5 + len then malformed
              else Inr (Some ((kind, take len (drop 5 bs)), drop (5 + len) bs)))"

lemma be_nat_take_1: "xs \<noteq> [] \<Longrightarrow> be_nat (take 1 xs) = unat (hd xs)"
  using be_nat_snoc [of "[]" "hd xs"] by (cases xs) simp_all

lemma next_frame_eq:
  "case parse_frame (rest_of fr) of
     Inl e \<Rightarrow> next_frame fr = Inl e
   | Inr None \<Rightarrow> \<exists>fr'. next_frame fr = Inr (None, fr') \<and> rest_of fr' = []
   | Inr (Some (f, rest)) \<Rightarrow> \<exists>fr'. next_frame fr = Inr (Some f, fr') \<and> rest_of fr' = rest"
proof -
  obtain ok fr1 where f: "fill 5 fr = (ok, fr1)" by fastforce
  have ok: "ok \<longleftrightarrow> 5 \<le> length (rest_of fr)" using fill_result [of 5 fr] by (simp add: f)
  have r: "rest_of fr1 = rest_of fr" using fill_rest [of 5 fr] by (simp add: f)
  show ?thesis
  proof (cases ok)
    case False
    then have "fr_pieces fr1 = []" using fill_short [of 5 fr] by (simp add: f)
    then have "available fr1 = length (rest_of fr)" using arg_cong [OF r, of length] by (simp add: available_def rest_of_def [of fr1])
    then show ?thesis using False ok r by (auto simp: next_frame_def f parse_frame_def)
  next
    case True
    let ?b = "drop (fr_start fr1) (fr_buffer fr1)"
    let ?fr2 = "fr1\<lparr>fr_start := fr_start fr1 + 5\<rparr>"
    have av: "5 \<le> length ?b" using fill_available [of 5 fr] True by (simp add: f available_def)
    have rest: "rest_of fr = ?b @ concat (fr_pieces fr1)" by (simp add: rest_of_def [of fr1, symmetric] r)
    have rest2: "rest_of ?fr2 = drop 5 (rest_of fr)"
      using av unfolding rest by (simp add: rest_of_def [of ?fr2] add.commute)
    have ne: "?b \<noteq> []" using av by auto
    have kind: "be_nat (take 1 ?b) = unat (hd (rest_of fr))" and len: "take 4 (drop 1 ?b) = take 4 (drop 1 (rest_of fr))"
      using av ne be_nat_take_1 [OF ne] unfolding rest by simp_all
    have unpack: "struct_unpack_from FRAME_PREFIX ?b
        = Some [Num (unat (hd (rest_of fr))), Num (be_nat (take 4 (drop 1 (rest_of fr))))]"
    proof -
      have "struct_fields FRAME_PREFIX ?b = [Num (be_nat (take 1 ?b)), Num (be_nat (take 4 (drop 1 ?b)))]"
        by (simp add: FRAME_PREFIX_def)
      then show ?thesis using av unfolding struct_unpack_from_def kind len by simp
    qed
    show ?thesis
    proof (cases "unat (hd (rest_of fr)) \<notin> set frame_kinds \<or> MAX_FRAME_BYTES < be_nat (take 4 (drop 1 (rest_of fr)))")
      case True
      then show ?thesis using \<open>ok\<close> ok unpack by (auto simp: next_frame_def f parse_frame_def Let_def)
    next
      case False
      let ?len = "be_nat (take 4 (drop 1 (rest_of fr)))"
      have eq: "next_frame fr = and_then (take_bytes ?len ?fr2) (\<lambda>(body, fr). Inr (Some (unat (hd (rest_of fr0)), body), fr))"
        if "fr0 = fr" for fr0
        using that False True f unpack by (simp add: next_frame_def)
      have ne: "rest_of fr \<noteq> []" "\<not> length (rest_of fr) < 5" using True ok by auto
      show ?thesis
      proof (cases "?len \<le> length (rest_of ?fr2)")
        case enough: True
        obtain fr' where t: "take_bytes ?len ?fr2 = Inr (take ?len (rest_of ?fr2), fr')"
          using take_bytes_eq(2) [OF enough] by blast
        have "rest_of ?fr2 = take ?len (rest_of ?fr2) @ rest_of fr'" using take_bytes_eq(1) [OF t] by blast
        then have "rest_of fr' = drop ?len (rest_of ?fr2)" by (metis append_eq_conv_conj append_take_drop_id same_append_eq)
        then show ?thesis
          using False ne enough eq [OF refl] t by (simp add: parse_frame_def Let_def rest2 add.commute)
      next
        case short: False
        then have "take_bytes ?len ?fr2 = malformed" using take_bytes_eq(3) by simp
        then show ?thesis
          using False ne short eq [OF refl] by (auto simp: parse_frame_def Let_def rest2)
      qed
    qed
  qed
qed

lemma next_frame_less:
  assumes "next_frame fr = Inr (Some f, fr')"
  shows "length (rest_of fr') + 5 \<le> length (rest_of fr)"
  using next_frame_eq [of fr] assms
  by (auto simp: parse_frame_def Let_def split: if_splits)

end
