(* ===== verification/Payload.thy ===== *)
theory Payload
  imports Frames "HOL-Library.AList"
begin

text \<open>
  \<^verbatim>\<open>FileStream\<close> and \<^verbatim>\<open>PayloadReader\<close> of \<^verbatim>\<open>src/dbs/engine/frames.py\<close>, the full reading of a payload
  in \<^verbatim>\<open>engine/validate.py\<close> (\<^verbatim>\<open>_read_through\<close>) and the frames \<^verbatim>\<open>engine/backup.py\<close> emits (\<^verbatim>\<open>_produce\<close>).
  Generators are the list of what they yield. A consumer that skips a file's chunks leaves it to
  \<^verbatim>\<open>drain\<close>, which reads the same frames.
\<close>

section \<open>The reader's state\<close>

datatype payload_phase = PhHeader | PhManifest | PhFiles | PhRecords | PhTrailer | PhEnd | PhDone

record payload_reader =
  pr_frames :: frame_reader
  pr_pending :: "(nat \<times> bytes) option"
  pr_header :: py
  pr_entries :: "file_entry list"
  pr_trailer :: py
  pr_rank :: "string \<rightharpoonup> nat"
  pr_position :: nat
  pr_phase :: payload_phase

definition open_payload :: "bytes list \<Rightarrow> payload_reader result" where
  "open_payload ps =
     and_then (open_frames ps) (\<lambda>fr.
       Inr \<lparr>pr_frames = fr, pr_pending = None, pr_header = PDict [], pr_entries = [], pr_trailer = PDict [],
            pr_rank = Map.empty, pr_position = 0, pr_phase = PhHeader\<rparr>)"

definition peek_frame :: "payload_reader \<Rightarrow> ((nat \<times> bytes) \<times> payload_reader) result" where
  "peek_frame pr =
     (case pr_pending pr of
        Some found \<Rightarrow> Inr (found, pr)
      | None \<Rightarrow>
          and_then (next_frame (pr_frames pr)) (\<lambda>(found, fr).
            case found of
              None \<Rightarrow> malformed
            | Some found \<Rightarrow> Inr (found, pr\<lparr>pr_frames := fr, pr_pending := Some found\<rparr>)))"

definition pop_frame :: "payload_reader \<Rightarrow> ((nat \<times> bytes) \<times> payload_reader) result" where
  "pop_frame pr = and_then (peek_frame pr) (\<lambda>(found, pr). Inr (found, pr\<lparr>pr_pending := None\<rparr>))"

definition expect_phase :: "payload_phase \<Rightarrow> payload_reader \<Rightarrow> unit result" where
  "expect_phase phase pr = guard (pr_phase pr = phase) RuntimeError"

text \<open>What bounds the loops: the bytes left, and whether a frame is pending.\<close>

definition left_to_read :: "payload_reader \<Rightarrow> nat" where
  "left_to_read pr = length (rest_of (pr_frames pr)) + (case pr_pending pr of None \<Rightarrow> 0 | Some _ \<Rightarrow> 1)"

lemma peek_frame_less:
  assumes "peek_frame pr = Inr (f, pr')"
  shows "left_to_read pr' \<le> left_to_read pr" and "pr_pending pr' = Some f"
proof -
  have "left_to_read pr' \<le> left_to_read pr \<and> pr_pending pr' = Some f"
  proof (cases "pr_pending pr")
    case (Some g)
    then show ?thesis using assms by (simp add: peek_frame_def)
  next
    case None
    then obtain fr where fr: "next_frame (pr_frames pr) = Inr (Some f, fr)"
        "pr' = pr\<lparr>pr_frames := fr, pr_pending := Some f\<rparr>"
      using assms by (auto simp: peek_frame_def split: option.splits)
    show ?thesis using next_frame_less [OF fr(1)] None by (simp add: left_to_read_def fr(2))
  qed
  then show "left_to_read pr' \<le> left_to_read pr" and "pr_pending pr' = Some f" by blast+
qed

lemma pop_frame_less:
  assumes "pop_frame pr = Inr (f, pr')"
  shows "left_to_read pr' < left_to_read pr"
proof -
  obtain pr1 where pr1: "peek_frame pr = Inr (f, pr1)" "pr' = pr1\<lparr>pr_pending := None\<rparr>"
    using assms by (auto simp: pop_frame_def)
  show ?thesis
    using peek_frame_less [OF pr1(1)] by (simp add: left_to_read_def pr1(2))
qed

lemma peek_pop_less: "peek_frame pr = Inr (g, pr1) \<Longrightarrow> pop_frame pr1 = Inr (f, pr2) \<Longrightarrow> left_to_read pr2 < left_to_read pr"
  using peek_frame_less(1) pop_frame_less by fastforce

lemma left_to_read_update [simp]:
  "left_to_read (pr\<lparr>pr_entries := es\<rparr>) = left_to_read pr" "left_to_read (pr\<lparr>pr_position := n\<rparr>) = left_to_read pr"
  by (simp_all add: left_to_read_def)

section \<open>Header and manifest\<close>

definition read_header :: "codec_of_json \<Rightarrow> payload_reader \<Rightarrow> (py \<times> payload_reader) result" where
  "read_header js pr =
     and_then (expect_phase PhHeader pr) (\<lambda>_.
     and_then (pop_frame pr) (\<lambda>((kind, body), pr).
       if kind \<noteq> HEADER then malformed
       else and_then (parsed js body) (\<lambda>v.
            and_then (checked_header v) (\<lambda>header.
            let order = map py_text (py_items (py_get header ''order''))
            in Inr (header, pr\<lparr>pr_header := header, pr_rank := map_of (rev (zip order [0..<length order])),
                              pr_phase := PhManifest\<rparr>)))))"

fun checked_entries :: "py list \<Rightarrow> file_entry list result" where
  "checked_entries [] = Inr []"
| "checked_entries (v # vs) =
     and_then (checked_entry v) (\<lambda>e. and_then (checked_entries vs) (\<lambda>es. Inr (e # es)))"

function manifest_loop :: "codec_of_json \<Rightarrow> payload_reader \<Rightarrow> payload_reader result" where
  "manifest_loop js pr =
     (case peek_frame pr of
        Inl e \<Rightarrow> Inl e
      | Inr ((kind, _), pr1) \<Rightarrow>
          if kind \<noteq> MANIFEST then Inr pr1
          else (case pop_frame pr1 of
                  Inl e \<Rightarrow> Inl e
                | Inr ((_, body), pr2) \<Rightarrow>
                    (case and_then (parsed js body) (\<lambda>items.
                            if \<not> is_list items then malformed else checked_entries (py_items items)) of
                       Inl e \<Rightarrow> Inl e
                     | Inr es \<Rightarrow>
                         if MAX_FILES < length (pr_entries pr2 @ es) then malformed
                         else manifest_loop js (pr2\<lparr>pr_entries := pr_entries pr2 @ es\<rparr>))))"
  by pat_completeness auto
termination
  by (relation "measure (\<lambda>(js, pr). left_to_read pr)") (auto dest: peek_pop_less)

declare manifest_loop.simps [simp del]

definition read_manifest :: "codec_of_json \<Rightarrow> payload_reader \<Rightarrow> (file_entry list \<times> payload_reader) result" where
  "read_manifest js pr =
     and_then (expect_phase PhManifest pr) (\<lambda>_.
     and_then (manifest_loop js pr) (\<lambda>pr. Inr (pr_entries pr, pr\<lparr>pr_phase := PhFiles\<rparr>)))"

section \<open>Files\<close>

record file_outcome =
  fo_chunks :: "bytes list"
  fo_size :: nat
  fo_sha256 :: string
  fo_skipped :: string

definition file_finish :: "codec_of_json \<Rightarrow> nat \<Rightarrow> py \<Rightarrow> bytes list \<Rightarrow> file_outcome result" where
  "file_finish js index ending chunks =
     (if \<not> is_dict ending \<or> \<not> py_eq_int (py_get ending ''index'') (int index) then malformed
      else let skipped = py_get ending ''skipped''
      in if skipped \<noteq> PNone
         then (if \<not> is_text skipped \<or> py_text skipped = [] then malformed
               else Inr \<lparr>fo_chunks = chunks, fo_size = 0, fo_sha256 = [], fo_skipped = py_text skipped\<rparr>)
      else if \<not> is_count (py_get ending ''size'') \<or> \<not> is_text (py_get ending ''sha256'') then malformed
      else if length (concat chunks) \<noteq> py_nat (py_get ending ''size'') \<or>
              sha256 js (concat chunks) \<noteq> py_text (py_get ending ''sha256'')
           then Inl CorruptionError
      else Inr \<lparr>fo_chunks = chunks, fo_size = length (concat chunks), fo_sha256 = sha256 js (concat chunks),
                fo_skipped = []\<rparr>)"

function file_chunks ::
  "codec_of_json \<Rightarrow> nat \<Rightarrow> payload_reader \<Rightarrow> bytes list \<Rightarrow> (file_outcome \<times> payload_reader) result" where
  "file_chunks js index pr chunks =
     (case pop_frame pr of
        Inl e \<Rightarrow> Inl e
      | Inr ((kind, body), pr1) \<Rightarrow>
          if kind = FILE_DATA
          then (if length body < struct_size FILE_INDEX \<or> be_nat (take (struct_size FILE_INDEX) body) \<noteq> index then malformed
                else file_chunks js index pr1 (chunks @ [drop (struct_size FILE_INDEX) body]))
          else if kind \<noteq> FILE_END then malformed
          else and_then (parsed js body) (\<lambda>ending.
               and_then (file_finish js index ending chunks) (\<lambda>out.
                 Inr (out, if fo_skipped out = []
                           then pr1\<lparr>pr_entries := (pr_entries pr1)
                                  [index := (pr_entries pr1 ! index)\<lparr>fe_sha256 := fo_sha256 out\<rparr>]\<rparr>
                           else pr1))))"
  by pat_completeness auto
termination
  by (relation "measure (\<lambda>(js, index, pr, chunks). left_to_read pr)") (auto dest: pop_frame_less)

declare file_chunks.simps [simp del]

fun files_loop :: "codec_of_json \<Rightarrow> nat list \<Rightarrow> payload_reader \<Rightarrow> (file_outcome list \<times> payload_reader) result" where
  "files_loop js [] pr = Inr ([], pr)"
| "files_loop js (index # rest) pr =
     and_then (file_chunks js index pr []) (\<lambda>(out, pr).
     and_then (files_loop js rest pr) (\<lambda>(outs, pr). Inr (out # outs, pr)))"

definition read_files :: "codec_of_json \<Rightarrow> payload_reader \<Rightarrow> (file_outcome list \<times> payload_reader) result" where
  "read_files js pr =
     and_then (expect_phase PhFiles pr) (\<lambda>_.
     and_then (files_loop js [0..<length (pr_entries pr)] pr) (\<lambda>(outs, pr). Inr (outs, pr\<lparr>pr_phase := PhRecords\<rparr>)))"

section \<open>Records, trailer, end\<close>

definition read_batch :: "codec_of_json \<Rightarrow> bool \<Rightarrow> bytes \<Rightarrow> payload_reader \<Rightarrow> (py list option \<times> payload_reader) result" where
  "read_batch js parse body pr =
     (if \<not> parse then Inr (None, pr)
      else and_then (parsed_utf8 js body) (\<lambda>v.
           and_then (checked_records v (pr_rank pr) (pr_position pr)) (\<lambda>(records, position).
             Inr (Some records, pr\<lparr>pr_position := position\<rparr>))))"

lemma read_batch_less:
  assumes "peek_frame pr = Inr (g, pr1)" and "pop_frame pr1 = Inr (f, pr2)" and "read_batch js parse body pr2 = Inr (batch, pr3)"
  shows "left_to_read pr3 < left_to_read pr"
proof -
  have "left_to_read pr3 = left_to_read pr2" using assms(3) by (auto simp: read_batch_def split: if_splits)
  then show ?thesis using peek_pop_less [OF assms(1,2)] by simp
qed

function batches_loop ::
  "codec_of_json \<Rightarrow> bool \<Rightarrow> payload_reader \<Rightarrow> py list option list \<Rightarrow> (py list option list \<times> payload_reader) result" where
  "batches_loop js parse pr batches =
     (case peek_frame pr of
        Inl e \<Rightarrow> Inl e
      | Inr ((kind, _), pr1) \<Rightarrow>
          if kind \<noteq> RECORDS then Inr (batches, pr1)
          else (case pop_frame pr1 of
                  Inl e \<Rightarrow> Inl e
                | Inr ((_, body), pr2) \<Rightarrow>
                    (case read_batch js parse body pr2 of
                       Inl e \<Rightarrow> Inl e
                     | Inr (batch, pr3) \<Rightarrow> batches_loop js parse pr3 (batches @ [batch]))))"
  by pat_completeness auto
termination
  by (relation "measure (\<lambda>(js, parse, pr, batches). left_to_read pr)") (auto dest: read_batch_less)

declare batches_loop.simps [simp del]

definition record_batches ::
  "codec_of_json \<Rightarrow> bool \<Rightarrow> payload_reader \<Rightarrow> (py list option list \<times> payload_reader) result" where
  "record_batches js parse pr =
     and_then (expect_phase PhRecords pr) (\<lambda>_.
     and_then (batches_loop js parse pr []) (\<lambda>(batches, pr). Inr (batches, pr\<lparr>pr_phase := PhTrailer\<rparr>)))"

definition read_trailer :: "codec_of_json \<Rightarrow> payload_reader \<Rightarrow> (py \<times> payload_reader) result" where
  "read_trailer js pr =
     and_then (expect_phase PhTrailer pr) (\<lambda>_.
     and_then (pop_frame pr) (\<lambda>((kind, body), pr).
       if kind \<noteq> TRAILER then malformed
       else and_then (parsed js body) (\<lambda>v.
            and_then (checked_trailer v) (\<lambda>trailer.
              Inr (trailer, pr\<lparr>pr_trailer := trailer, pr_phase := PhEnd\<rparr>)))))"

definition payload_finish :: "payload_reader \<Rightarrow> payload_reader result" where
  "payload_finish pr =
     and_then (expect_phase PhEnd pr) (\<lambda>_.
     and_then (next_frame (pr_frames pr)) (\<lambda>(found, fr).
       if found \<noteq> None then malformed else Inr (pr\<lparr>pr_frames := fr, pr_phase := PhDone\<rparr>)))"

definition payload_stats :: "payload_reader \<Rightarrow> py" where
  "payload_stats pr = (case py_get (pr_trailer pr) ''stats'' of PNone \<Rightarrow> PDict [] | v \<Rightarrow> v)"

section \<open>Reading a payload through\<close>

fun count_models :: "py list \<Rightarrow> (string \<times> nat) list \<Rightarrow> (string \<times> nat) list" where
  "count_models [] counts = counts"
| "count_models (r # rs) counts =
     (let model = py_text (py_get r ''model'');
          n = (case map_of counts model of None \<Rightarrow> 0 | Some n \<Rightarrow> n)
      in count_models rs (AList.update model (n + 1) counts))"

definition recorded_counts :: "py \<Rightarrow> (string \<times> nat) list" where
  "recorded_counts stats =
     fold (\<lambda>item counts. if py_nat (py_get item ''count'') \<noteq> 0
         then AList.update (py_text (py_get item ''model'')) (py_nat (py_get item ''count'')) counts else counts)
       (py_items (py_get stats ''models'')) []"

definition same_dict :: "(string \<times> nat) list \<Rightarrow> (string \<times> nat) list \<Rightarrow> bool" where
  "same_dict a b \<longleftrightarrow> list_all (\<lambda>k. map_of a k = map_of b k) (map fst a @ map fst b)"

definition read_through :: "codec_of_json \<Rightarrow> payload_reader \<Rightarrow> (py \<times> file_outcome list \<times> py list option list) result" where
  "read_through js pr =
     and_then (read_header js pr) (\<lambda>(_, pr).
     and_then (read_manifest js pr) (\<lambda>(_, pr).
     and_then (read_files js pr) (\<lambda>(outs, pr).
     let files = length (filter (\<lambda>out. fo_skipped out = []) outs)
     in and_then (record_batches js True pr) (\<lambda>(batches, pr).
     let counts = count_models (concat (List.map_filter id batches)) []
     in and_then (read_trailer js pr) (\<lambda>(_, pr).
     and_then (payload_finish pr) (\<lambda>pr.
     let stats = payload_stats pr
     in if \<not> same_dict (recorded_counts stats) counts \<or> py_nat (py_get stats ''records'') \<noteq> sum_list (map snd counts)
        then malformed
        else if py_nat (py_get stats ''files'') \<noteq> files then malformed
        else Inr (stats, outs, batches)))))))"

definition read_payload :: "codec_of_json \<Rightarrow> bytes list \<Rightarrow> (py \<times> file_outcome list \<times> py list option list) result" where
  "read_payload js ps = and_then (open_payload ps) (read_through js)"

end
