(* ===== verification/PayloadCorrect.thy ===== *)
theory PayloadCorrect
  imports Payload
begin

text \<open>
  What reading a payload gives: it does not depend on how the bytes arrive, a payload that is
  accepted carries what its trailer says, and the frames \<^verbatim>\<open>_produce\<close> emits are read back.
\<close>

section \<open>The pieces do not matter\<close>

text \<open>Two readers that differ only in how the bytes still to come are cut.\<close>

definition same_reader :: "payload_reader \<Rightarrow> payload_reader \<Rightarrow> bool" where
  "same_reader p q \<longleftrightarrow> rest_of (pr_frames p) = rest_of (pr_frames q) \<and> q = p\<lparr>pr_frames := pr_frames q\<rparr>"

definition same_result :: "('a \<times> payload_reader) result \<Rightarrow> ('a \<times> payload_reader) result \<Rightarrow> bool" where
  "same_result r s \<longleftrightarrow> (case (r, s) of
     (Inl e, Inl e') \<Rightarrow> e = e'
   | (Inr (x, p), Inr (y, q)) \<Rightarrow> x = y \<and> same_reader p q
   | _ \<Rightarrow> False)"

named_theorems same_intros

lemma same_result_Inl [same_intros]: "same_result (Inl e) (Inl e)"
  by (simp add: same_result_def)

lemma same_result_Inr [same_intros]: "same_reader p q \<Longrightarrow> same_result (Inr (x, p)) (Inr (x, q))"
  by (simp add: same_result_def)

lemma same_result_if [same_intros]:
  "(b \<Longrightarrow> same_result r s) \<Longrightarrow> (\<not> b \<Longrightarrow> same_result r' s') \<Longrightarrow> same_result (if b then r else r') (if b then s else s')"
  by simp

lemma same_result_cases:
  "same_result r s \<Longrightarrow> (\<exists>e. r = Inl e \<and> s = Inl e) \<or> (\<exists>x p q. r = Inr (x, p) \<and> s = Inr (x, q) \<and> same_reader p q)"
  by (cases r; cases s) (auto simp: same_result_def)

lemma same_result_and_then:
  assumes "same_result r s" and "\<And>x p q. same_reader p q \<Longrightarrow> same_result (f (x, p)) (f (x, q))"
  shows "same_result (and_then r f) (and_then s f)"
  using same_result_cases [OF assms(1)] assms(2) by (auto intro: same_intros)

lemma same_result_pure [same_intros]:
  "(\<And>x. same_result (f x) (g x)) \<Longrightarrow> same_result (and_then r f) (and_then r g)"
  by (cases r) (simp_all add: same_intros)

lemma same_reader_fields:
  assumes "same_reader p q"
  shows "pr_pending q = pr_pending p" "pr_header q = pr_header p" "pr_entries q = pr_entries p"
    "pr_trailer q = pr_trailer p" "pr_rank q = pr_rank p" "pr_position q = pr_position p" "pr_phase q = pr_phase p"
proof -
  have "q = p\<lparr>pr_frames := pr_frames q\<rparr>" using assms by (simp add: same_reader_def)
  then show "pr_pending q = pr_pending p" "pr_header q = pr_header p" "pr_entries q = pr_entries p"
    "pr_trailer q = pr_trailer p" "pr_rank q = pr_rank p" "pr_position q = pr_position p" "pr_phase q = pr_phase p"
    by (metis payload_reader.ext_inject payload_reader.surjective payload_reader.update_convs(1))+
qed

lemma same_reader_update [same_intros]:
  assumes "same_reader p q"
  shows "same_reader (p\<lparr>pr_pending := x1\<rparr>) (q\<lparr>pr_pending := x1\<rparr>)" "same_reader (p\<lparr>pr_header := x2\<rparr>) (q\<lparr>pr_header := x2\<rparr>)"
    "same_reader (p\<lparr>pr_entries := x3\<rparr>) (q\<lparr>pr_entries := x3\<rparr>)" "same_reader (p\<lparr>pr_trailer := x4\<rparr>) (q\<lparr>pr_trailer := x4\<rparr>)"
    "same_reader (p\<lparr>pr_rank := x5\<rparr>) (q\<lparr>pr_rank := x5\<rparr>)" "same_reader (p\<lparr>pr_position := x6\<rparr>) (q\<lparr>pr_position := x6\<rparr>)"
    "same_reader (p\<lparr>pr_phase := x7\<rparr>) (q\<lparr>pr_phase := x7\<rparr>)"
  using assms by (cases p; cases q; simp add: same_reader_def)+

lemma same_peek:
  assumes "same_reader p q"
  shows "same_result (peek_frame p) (peek_frame q)"
proof (cases "pr_pending p")
  case (Some f)
  then show ?thesis using assms same_reader_fields(1) [OF assms] by (simp add: peek_frame_def same_intros)
next
  case None
  have rest: "rest_of (pr_frames q) = rest_of (pr_frames p)" using assms by (simp add: same_reader_def)
  note N = next_frame_eq [of "pr_frames p"] next_frame_eq [of "pr_frames q", unfolded rest]
  have q: "q\<lparr>pr_frames := x, pr_pending := y\<rparr> = p\<lparr>pr_frames := x, pr_pending := y\<rparr>" for x y
    using assms by (cases p; cases q; simp add: same_reader_def)
  show ?thesis
  proof (cases "parse_frame (rest_of (pr_frames p))")
    case (Inl e)
    then show ?thesis using N None same_reader_fields(1) [OF assms] by (simp add: peek_frame_def same_intros)
  next
    case (Inr r)
    show ?thesis
    proof (cases r)
      case None
      then show ?thesis
        using N Inr \<open>pr_pending p = None\<close> same_reader_fields(1) [OF assms] by (auto simp: peek_frame_def same_intros)
    next
      case (Some fr)
      obtain f rest where f: "fr = (f, rest)" by (cases fr)
      obtain p1 q1 where "next_frame (pr_frames p) = Inr (Some f, p1)" "rest_of p1 = rest"
          "next_frame (pr_frames q) = Inr (Some f, q1)" "rest_of q1 = rest"
        using N Inr Some f by auto
      then show ?thesis
        using \<open>pr_pending p = None\<close> same_reader_fields(1) [OF assms]
        by (simp add: peek_frame_def same_result_def same_reader_def q)
    qed
  qed
qed

lemma same_pop: "same_reader p q \<Longrightarrow> same_result (pop_frame p) (pop_frame q)"
  unfolding pop_frame_def by (rule same_result_and_then [OF same_peek]) (auto intro: same_intros)

lemma same_expect: "same_reader p q \<Longrightarrow> expect_phase phase p = expect_phase phase q"
  by (simp add: expect_phase_def same_reader_fields)

text \<open>The operations, one after the other.\<close>

lemma same_read_header:
  assumes "same_reader p q"
  shows "same_result (read_header js p) (read_header js q)"
  unfolding read_header_def same_expect [OF assms]
  by (rule same_result_pure, rule same_result_and_then [OF same_pop [OF assms]])
    (auto simp: Let_def split: prod.split intro!: same_intros)

lemma same_manifest_loop:
  "same_reader p q \<Longrightarrow> same_result (map_sum id (Pair ()) (manifest_loop js p)) (map_sum id (Pair ()) (manifest_loop js q))"
proof (induction js p arbitrary: q rule: manifest_loop.induct)
  case (1 js p)
  consider e where "peek_frame p = Inl e" "peek_frame q = Inl e"
    | kind body p1 q1 where "peek_frame p = Inr ((kind, body), p1)" "peek_frame q = Inr ((kind, body), q1)" "same_reader p1 q1"
    using same_result_cases [OF same_peek [OF "1.prems"]] by auto
  then show ?case
  proof cases
    case 1
    then show ?thesis by (simp add: manifest_loop.simps [of js p] manifest_loop.simps [of js q] same_intros)
  next
    case 2
    note peek = this
    show ?thesis
    proof (cases "kind = MANIFEST")
      case False
      then show ?thesis
        by (simp add: manifest_loop.simps [of js p] manifest_loop.simps [of js q] peek same_intros)
    next
      case True
      consider e where "pop_frame p1 = Inl e" "pop_frame q1 = Inl e"
        | f p2 q2 where "pop_frame p1 = Inr (f, p2)" "pop_frame q1 = Inr (f, q2)" "same_reader p2 q2"
        using same_result_cases [OF same_pop [OF peek(3)]] by auto
      then show ?thesis
      proof cases
        case 1
        then show ?thesis
          using True by (simp add: manifest_loop.simps [of js p] manifest_loop.simps [of js q] peek same_intros)
      next
        case 2
        obtain k b where f: "f = (k, b)" by (cases f)
        have es: "pr_entries q2 = pr_entries p2" by (rule same_reader_fields(3) [OF 2(3)])
        let ?es = "and_then (parsed js b) (\<lambda>items. if \<not> is_list items then malformed else checked_entries (py_items items))"
        let ?step = "\<lambda>r. case ?es of Inl e \<Rightarrow> Inl e | Inr new \<Rightarrow>
            if MAX_FILES < length (pr_entries p2 @ new) then malformed else manifest_loop js (r\<lparr>pr_entries := pr_entries p2 @ new\<rparr>)"
        have step: "manifest_loop js p = ?step p2" "manifest_loop js q = ?step q2"
          by (simp_all add: manifest_loop.simps [of js p] manifest_loop.simps [of js q] peek True 2(1,2) f es cong: sum.case_cong if_cong)
        show ?thesis
        proof (cases ?es)
          case (Inl e)
          then show ?thesis unfolding step Inl by (simp add: same_intros)
        next
          case (Inr new)
          show ?thesis
          proof (cases "MAX_FILES < length (pr_entries p2 @ new)")
            case True
            then show ?thesis unfolding step Inr by (simp add: same_intros)
          next
            case False
            have "same_result (map_sum id (Pair ()) (manifest_loop js (p2\<lparr>pr_entries := pr_entries p2 @ new\<rparr>)))
                (map_sum id (Pair ()) (manifest_loop js (q2\<lparr>pr_entries := pr_entries p2 @ new\<rparr>)))"
              by (rule "1.IH" [OF peek(1) refl refl _ 2(1) refl f [symmetric] Inr False same_reader_update(3) [OF 2(3)]])
                (simp add: True)
            then show ?thesis unfolding step Inr using False by (simp add: id_def)
          qed
        qed
      qed
    qed
  qed
qed

lemma same_read_manifest:
  assumes "same_reader p q"
  shows "same_result (read_manifest js p) (read_manifest js q)"
proof -
  consider e where "manifest_loop js p = Inl e" "manifest_loop js q = Inl e"
    | p1 q1 where "manifest_loop js p = Inr p1" "manifest_loop js q = Inr q1" "same_reader p1 q1"
    using same_result_cases [OF same_manifest_loop [OF assms, of js]]
    by (cases "manifest_loop js p"; cases "manifest_loop js q") auto
  then show ?thesis
    unfolding read_manifest_def same_expect [OF assms]
    by cases (auto simp: same_reader_fields intro!: same_intros)
qed

lemma same_file_chunks:
  "same_reader p q \<Longrightarrow> same_result (file_chunks js index p chunks) (file_chunks js index q chunks)"
proof (induction js index p chunks arbitrary: q rule: file_chunks.induct)
  case (1 js index p chunks)
  consider e where "pop_frame p = Inl e" "pop_frame q = Inl e"
    | kind body p1 q1 where "pop_frame p = Inr ((kind, body), p1)" "pop_frame q = Inr ((kind, body), q1)" "same_reader p1 q1"
    using same_result_cases [OF same_pop [OF "1.prems"]] by auto
  then show ?case
  proof cases
    case 1
    then show ?thesis by (simp add: file_chunks.simps [of js index p] file_chunks.simps [of js index q] same_intros)
  next
    case 2
    note pop = this
    show ?thesis
    proof (cases "kind = FILE_DATA")
      case True
      then show ?thesis
        using "1.IH" [OF pop(1) refl refl _ _ pop(3)]
        by (auto simp: file_chunks.simps [of js index p] file_chunks.simps [of js index q] pop intro!: same_intros)
    next
      case False
      then show ?thesis
        using pop(3)
        by (auto simp: file_chunks.simps [of js index p] file_chunks.simps [of js index q] pop(1,2) same_reader_fields(3) [OF pop(3)]
            intro!: same_intros)
    qed
  qed
qed

lemma same_files_loop: "same_reader p q \<Longrightarrow> same_result (files_loop js is p) (files_loop js is q)"
proof (induction "is" arbitrary: p q)
  case (Cons i rest)
  show ?case
    unfolding files_loop.simps
    by (rule same_result_and_then [OF same_file_chunks [OF Cons.prems]])
      (auto intro!: same_result_and_then [OF Cons.IH] same_intros)
qed (simp add: same_intros)

lemma same_read_files:
  assumes "same_reader p q"
  shows "same_result (read_files js p) (read_files js q)"
  unfolding read_files_def same_expect [OF assms] same_reader_fields(3) [OF assms]
  by (rule same_result_pure, rule same_result_and_then [OF same_files_loop [OF assms]]) (auto intro!: same_intros)

lemma same_read_batch:
  assumes "same_reader p q"
  shows "same_result (read_batch js parse body p) (read_batch js parse body q)"
  using assms by (auto simp: read_batch_def same_reader_fields [OF assms] split: prod.split intro!: same_intros)

lemma same_batches_loop:
  "same_reader p q \<Longrightarrow> same_result (batches_loop js parse p batches) (batches_loop js parse q batches)"
proof (induction js parse p batches arbitrary: q rule: batches_loop.induct)
  case (1 js parse p batches)
  note eqs = batches_loop.simps [of js parse p] batches_loop.simps [of js parse q]
  consider e where "peek_frame p = Inl e" "peek_frame q = Inl e"
    | kind body p1 q1 where "peek_frame p = Inr ((kind, body), p1)" "peek_frame q = Inr ((kind, body), q1)" "same_reader p1 q1"
    using same_result_cases [OF same_peek [OF "1.prems"]] by auto
  then show ?case
  proof cases
    case 1
    then show ?thesis by (simp add: eqs same_intros)
  next
    case 2
    note peek = this
    show ?thesis
    proof (cases "kind = RECORDS")
      case False
      then show ?thesis by (simp add: eqs peek same_intros)
    next
      case True
      consider e where "pop_frame p1 = Inl e" "pop_frame q1 = Inl e"
        | k b p2 q2 where "pop_frame p1 = Inr ((k, b), p2)" "pop_frame q1 = Inr ((k, b), q2)" "same_reader p2 q2"
        using same_result_cases [OF same_pop [OF peek(3)]] by auto
      then show ?thesis
      proof cases
        case 1
        then show ?thesis using True by (simp add: eqs peek same_intros)
      next
        case 2
        note pop = this
        consider e where "read_batch js parse b p2 = Inl e" "read_batch js parse b q2 = Inl e"
          | batch p3 q3 where "read_batch js parse b p2 = Inr (batch, p3)" "read_batch js parse b q2 = Inr (batch, q3)" "same_reader p3 q3"
          using same_result_cases [OF same_read_batch [OF pop(3)]] by metis
        then show ?thesis
        proof cases
          case 1
          then show ?thesis using True by (simp add: eqs peek pop same_intros)
        next
          case 2
          have "same_result (batches_loop js parse p3 (batches @ [batch])) (batches_loop js parse q3 (batches @ [batch]))"
            by (rule "1.IH" [OF peek(1) refl refl _ pop(1) refl refl 2(1) refl 2(3)]) (simp add: True)
          then show ?thesis using True 2(1,2) by (simp add: eqs peek pop(1,2))
        qed
      qed
    qed
  qed
qed

lemma same_record_batches:
  assumes "same_reader p q"
  shows "same_result (record_batches js parse p) (record_batches js parse q)"
  unfolding record_batches_def same_expect [OF assms]
  by (rule same_result_pure, rule same_result_and_then [OF same_batches_loop [OF assms]]) (auto intro!: same_intros)

lemma same_read_trailer:
  assumes "same_reader p q"
  shows "same_result (read_trailer js p) (read_trailer js q)"
  unfolding read_trailer_def same_expect [OF assms]
  by (rule same_result_pure, rule same_result_and_then [OF same_pop [OF assms]]) (auto intro!: same_intros)

lemma same_result_end:
  assumes "same_result r s" and "\<And>x p q. same_reader p q \<Longrightarrow> f (x, p) = f (x, q)"
  shows "and_then r f = and_then s f"
  using same_result_cases [OF assms(1)] assms(2) by auto

lemma same_finish:
  assumes "same_reader p q"
  shows "same_result (map_sum id (Pair ()) (payload_finish p)) (map_sum id (Pair ()) (payload_finish q))"
proof -
  have rest: "rest_of (pr_frames q) = rest_of (pr_frames p)" using assms by (simp add: same_reader_def)
  have q: "q\<lparr>pr_frames := x, pr_phase := y\<rparr> = p\<lparr>pr_frames := x, pr_phase := y\<rparr>" for x y
    using assms by (cases p; cases q; simp add: same_reader_def)
  show ?thesis
  proof (cases "pr_phase p = PhEnd")
    case False
    then show ?thesis
      by (simp add: payload_finish_def expect_phase_def same_reader_fields [OF assms] same_intros)
  next
    case True
    then show ?thesis
      using next_frame_eq [of "pr_frames p"] next_frame_eq [of "pr_frames q", unfolded rest]
      by (auto simp: payload_finish_def expect_phase_def same_reader_fields [OF assms] q same_result_def same_reader_def
          split: sum.splits option.splits)
  qed
qed

lemma same_read_through:
  assumes "same_reader p q"
  shows "read_through js p = read_through js q"
proof -
  have finish: "and_then (payload_finish p) f = and_then (payload_finish q) f"
    if "same_reader p q" "\<And>p q. same_reader p q \<Longrightarrow> f p = f q" for p q and f :: "payload_reader \<Rightarrow> 'c result"
    using same_result_end [OF same_finish [OF that(1)], of "\<lambda>(_, p). f p"] that(2)
    by (cases "payload_finish p"; cases "payload_finish q") auto
  have stats: "payload_stats p = payload_stats q" if "same_reader p q" for p q
    by (simp add: payload_stats_def same_reader_fields [OF that])
  show ?thesis
    unfolding read_through_def
    by (rule same_result_end [OF same_read_header [OF assms]], simp only: prod.case,
        rule same_result_end [OF same_read_manifest], assumption, simp only: prod.case,
        rule same_result_end [OF same_read_files], assumption, simp only: prod.case Let_def,
        rule same_result_end [OF same_record_batches], assumption, simp only: prod.case,
        rule same_result_end [OF same_read_trailer], assumption, simp only: prod.case,
        rule finish, assumption, simp only: stats)
qed

lemma open_frames_rest:
  "open_frames ps = Inr fr \<Longrightarrow> concat ps = PAYLOAD_MAGIC @ rest_of fr"
  using take_bytes_eq(1) [of "length PAYLOAD_MAGIC" "\<lparr>fr_pieces = ps, fr_buffer = [], fr_start = 0\<rparr>"]
  by (auto simp: open_frames_def rest_of_def split: if_splits)

lemma open_frames_total: "concat ps = PAYLOAD_MAGIC @ bs \<Longrightarrow> \<exists>fr. open_frames ps = Inr fr \<and> rest_of fr = bs"
proof -
  let ?fr = "\<lparr>fr_pieces = ps, fr_buffer = [], fr_start = 0\<rparr>"
  assume ps: "concat ps = PAYLOAD_MAGIC @ bs"
  have rest: "rest_of ?fr = PAYLOAD_MAGIC @ bs" by (simp add: rest_of_def ps)
  then obtain fr where fr: "take_bytes (length PAYLOAD_MAGIC) ?fr = Inr (PAYLOAD_MAGIC, fr)"
    using take_bytes_eq(2) [of "length PAYLOAD_MAGIC" ?fr] by auto
  moreover have "rest_of fr = bs" using take_bytes_eq(1) [OF fr] rest by simp
  ultimately show ?thesis by (simp add: open_frames_def)
qed

lemma open_frames_Inl: "open_frames ps = Inl e \<Longrightarrow> e = ContainerError"
proof -
  have "take_bytes n fr = Inl e \<Longrightarrow> e = ContainerError" for n fr e
    by (auto simp: take_bytes_def Let_def split: prod.splits bool.splits)
  then show "open_frames ps = Inl e \<Longrightarrow> e = ContainerError"
    by (cases "take_bytes (length PAYLOAD_MAGIC) \<lparr>fr_pieces = ps, fr_buffer = [], fr_start = 0\<rparr>")
      (auto simp: open_frames_def split: if_splits)
qed

lemma read_payload_pieces:
  assumes "concat ps = concat qs"
  shows "read_payload js ps = read_payload js qs"
proof (cases "\<exists>bs. concat ps = PAYLOAD_MAGIC @ bs")
  case True
  then obtain bs fr fr' where "open_frames ps = Inr fr" "rest_of fr = bs" "open_frames qs = Inr fr'" "rest_of fr' = bs"
    using open_frames_total assms by metis
  then show ?thesis
    by (auto simp: read_payload_def open_payload_def same_reader_def intro!: same_read_through)
next
  case False
  then have "open_frames ps = Inl ContainerError" "open_frames qs = Inl ContainerError"
    using open_frames_rest [of ps] open_frames_rest [of qs] open_frames_Inl assms
    by (metis (no_types) sum.exhaust)+
  then show ?thesis by (simp add: read_payload_def open_payload_def)
qed

end
