(* ===== verification/PayloadWrite.thy ===== *)
theory PayloadWrite
  imports PayloadCorrect
begin

text \<open>
  The frames \<^verbatim>\<open>_produce\<close>, \<^verbatim>\<open>_emit_files\<close> and \<^verbatim>\<open>_emit_records\<close> of \<^verbatim>\<open>src/dbs/engine/backup.py\<close> emit. What
  comes out of the database and the file system is given: the header, the listed source files with the
  chunks \<^verbatim>\<open>read_chunks\<close> yields and the reason when it stops with \<^verbatim>\<open>SkippedFile\<close>, and for every model
  the pieces and the row count of each serialised batch. The result is what was emitted, in order.
\<close>

section \<open>Emitting\<close>

record source_file =
  sf_entry :: file_entry
  sf_described :: string
  sf_chunks :: "bytes list"
  sf_skipped :: "string option"

fun emit_chunks :: "nat \<Rightarrow> bytes list \<Rightarrow> bytes list result" where
  "emit_chunks index [] = Inr []"
| "emit_chunks index (chunk # chunks) =
     and_then (file_data_frame index chunk) (\<lambda>f. and_then (emit_chunks index chunks) (\<lambda>fs. Inr (f # fs)))"

fun emit_files :: "codec_of_json \<Rightarrow> bool \<Rightarrow> nat \<Rightarrow> source_file list \<Rightarrow> (bytes list \<times> nat \<times> string list) result" where
  "emit_files js allow index [] = Inr ([], 0, [])"
| "emit_files js allow index (source # sources) =
     and_then (emit_chunks index (sf_chunks source)) (\<lambda>data.
       case sf_skipped source of
         Some reason \<Rightarrow>
           if \<not> allow then Inl MissingSourceFiles
           else and_then (file_end_frame js index 0 [] reason) (\<lambda>ending.
                and_then (emit_files js allow (Suc index) sources) (\<lambda>(out, written, skipped).
                  Inr (data @ [ending] @ out, written, (sf_described source @ '' ('' @ reason @ '')'') # skipped)))
       | None \<Rightarrow>
           and_then (file_end_frame js index (length (concat (sf_chunks source))) (sha256 js (concat (sf_chunks source))) [])
             (\<lambda>ending. and_then (emit_files js allow (Suc index) sources) (\<lambda>(out, written, skipped).
               Inr (data @ [ending] @ out, written + 1, skipped))))"

fun emit_batches :: "(bytes list \<times> nat) list \<Rightarrow> (bytes list \<times> nat) result" where
  "emit_batches [] = Inr ([], 0)"
| "emit_batches ((ps, rows) # batches) =
     and_then (frame_parts RECORDS ps) (\<lambda>parts.
     and_then (emit_batches batches) (\<lambda>(out, count). Inr (parts @ out, rows + count)))"

fun emit_records :: "(string \<times> (bytes list \<times> nat) list) list \<Rightarrow> (bytes list \<times> (string \<times> nat) list \<times> nat) result" where
  "emit_records [] = Inr ([], [], 0)"
| "emit_records ((label, batches) # models) =
     and_then (emit_batches batches) (\<lambda>(out, count).
     and_then (emit_records models) (\<lambda>(outs, stats_models, records).
       Inr (out @ outs, (label, count) # stats_models, count + records)))"

fun emit_manifest :: "codec_of_json \<Rightarrow> file_entry list list \<Rightarrow> bytes list result" where
  "emit_manifest js [] = Inr []"
| "emit_manifest js (batch # batches) =
     and_then (json_frame js MANIFEST (PList (map manifest_item batch))) (\<lambda>f.
     and_then (emit_manifest js batches) (\<lambda>fs. Inr (f # fs)))"

definition payload_trailer :: "(string \<times> nat) list \<Rightarrow> nat \<Rightarrow> nat \<Rightarrow> string list \<Rightarrow> py" where
  "payload_trailer models records files skipped =
     PDict [(''stats'', PDict
       [(''models'', PList (map (\<lambda>(label, count). PDict [(''model'', PStr label), (''count'', PInt (int count))]) models)),
        (''records'', PInt (int records)), (''files'', PInt (int files)), (''skipped_files'', PList (map PStr skipped))])]"

definition produce ::
  "codec_of_json \<Rightarrow> (string \<times> py) list \<Rightarrow> string list \<Rightarrow> source_file list \<Rightarrow> bool \<Rightarrow>
   (string \<times> (bytes list \<times> nat) list) list \<Rightarrow> (bytes list \<times> py) result" where
  "produce js about listed_skipped sources allow models =
     and_then (json_frame js HEADER (PDict ([(''version'', PInt PAYLOAD_VERSION)] @ about @
         [(''order'', PList (map (\<lambda>(label, _). PStr label) models))]))) (\<lambda>header.
     if listed_skipped \<noteq> [] \<and> \<not> allow then Inl MissingSourceFiles
     else if MAX_FILES < length sources then Inl BackupError
     else and_then (emit_manifest js (pieces MANIFEST_BATCH (map sf_entry sources))) (\<lambda>manifest.
          and_then (emit_files js allow 0 sources) (\<lambda>(data, files, skipped).
          and_then (emit_records models) (\<lambda>(records, stats_models, count).
          let trailer = payload_trailer stats_models count files (listed_skipped @ skipped)
          in and_then (json_frame js TRAILER trailer) (\<lambda>ending.
             Inr (PAYLOAD_MAGIC # header # manifest @ data @ records @ [ending], py_get trailer ''stats''))))))"

section \<open>What a payload that is accepted carries\<close>

lemma map_of_count_models:
  "map_of (count_models rs counts) m =
     (let k = length (filter (\<lambda>r. py_text (py_get r ''model'') = m) rs)
      in case map_of counts m of Some n \<Rightarrow> Some (n + k) | None \<Rightarrow> if k = 0 then None else Some k)"
  by (induction rs counts rule: count_models.induct)
    (auto simp: Let_def update_conv' split: option.splits)

lemma count_models_keys: "distinct (map fst counts) \<Longrightarrow> distinct (map fst (count_models rs counts))"
  by (induction rs counts rule: count_models.induct) (simp_all add: Let_def distinct_update)

lemma sum_update:
  "distinct (map fst counts) \<Longrightarrow>
    sum_list (map snd (AList.update k (v :: nat) counts)) + (case map_of counts k of None \<Rightarrow> 0 | Some n \<Rightarrow> n)
      = sum_list (map snd counts) + v"
proof (induction counts)
  case (Cons c counts)
  then show ?case by (cases c) (auto split: option.splits dest: map_of_SomeD)
qed simp

lemma sum_count_models:
  "distinct (map fst counts) \<Longrightarrow> sum_list (map snd (count_models rs counts)) = sum_list (map snd counts) + length rs"
proof (induction rs counts rule: count_models.induct)
  case (2 r rs counts)
  let ?m = "py_text (py_get r ''model'')"
  let ?n = "case map_of counts ?m of None \<Rightarrow> 0 | Some n \<Rightarrow> n"
  have "sum_list (map snd (AList.update ?m (?n + 1) counts)) = sum_list (map snd counts) + 1"
    using sum_update [OF "2.prems", of ?m "?n + 1"] by simp
  then show ?case using "2.IH" [OF refl refl] "2.prems" by (simp add: Let_def distinct_update)
qed simp

lemma same_dict_iff: "same_dict a b \<longleftrightarrow> map_of a = map_of b"
proof
  assume ab: "same_dict a b"
  show "map_of a = map_of b"
  proof
    fix k
    show "map_of a k = map_of b k"
      using ab by (cases "k \<in> set (map fst a @ map fst b)")
        (auto simp: same_dict_def list_all_iff map_of_eq_None_iff [THEN iffD2])
  qed
qed (simp add: same_dict_def list_all_iff)

lemma file_finish_ok:
  "file_finish js index ending chunks = Inr out \<Longrightarrow> fo_chunks out = chunks \<and>
    (fo_skipped out = [] \<longrightarrow> fo_size out = length (concat chunks) \<and> fo_sha256 out = sha256 js (concat chunks))"
  by (auto simp: file_finish_def Let_def split: if_splits)

definition outcome_checked :: "codec_of_json \<Rightarrow> file_outcome \<Rightarrow> bool" where
  "outcome_checked js out \<longleftrightarrow> fo_skipped out = [] \<longrightarrow>
     fo_size out = length (concat (fo_chunks out)) \<and> fo_sha256 out = sha256 js (concat (fo_chunks out))"

lemma file_chunks_ok: "file_chunks js index pr chunks = Inr (out, pr') \<Longrightarrow> outcome_checked js out"
proof (induction js index pr chunks rule: file_chunks.induct)
  case (1 js index pr chunks)
  obtain kind body pr1 where pop: "pop_frame pr = Inr ((kind, body), pr1)"
    using "1.prems" by (subst (asm) file_chunks.simps) (auto split: sum.splits)
  show ?case
    using "1.prems" "1.IH" [OF pop refl refl]
    by (subst (asm) file_chunks.simps)
      (auto simp: pop outcome_checked_def dest: file_finish_ok split: if_splits)
qed

lemma files_loop_ok:
  "files_loop js is pr = Inr (outs, pr') \<Longrightarrow> length outs = length is \<and> (\<forall>out \<in> set outs. outcome_checked js out)"
proof (induction "is" arbitrary: pr outs)
  case (Cons i rest)
  obtain out pr1 outs' where "file_chunks js i pr [] = Inr (out, pr1)" "files_loop js rest pr1 = Inr (outs', pr')"
      "outs = out # outs'"
    using Cons.prems by auto
  then show ?case using Cons.IH file_chunks_ok by fastforce
qed simp

section \<open>Frames to come\<close>

definition frame_bytes :: "nat \<times> bytes \<Rightarrow> bytes" where
  "frame_bytes f = (case f of (kind, body) \<Rightarrow> of_nat kind # be_bytes 4 (length body) @ body)"

definition frame_fits :: "nat \<times> bytes \<Rightarrow> bool" where
  "frame_fits f \<longleftrightarrow> fst f \<in> set frame_kinds \<and> length (snd f) \<le> MAX_FRAME_BYTES"

lemma frame_kind_small: "kind \<in> set frame_kinds \<Longrightarrow> kind < 256"
  by (auto simp: frame_kinds_def HEADER_def MANIFEST_def FILE_DATA_def FILE_END_def RECORDS_def TRAILER_def)

lemma frame_prefix_eq:
  assumes "kind < 256" and "len \<le> MAX_FRAME_BYTES"
  shows "frame_prefix kind len = Inr (of_nat kind # be_bytes 4 len)"
proof -
  have "len < 256 ^ 4" using assms(2) by (simp add: MAX_FRAME_BYTES_def)
  moreover have "be_bytes (Suc 0) kind = [of_nat kind]" using assms(1) by simp
  ultimately show ?thesis using assms(1) by (simp add: frame_prefix_def FRAME_PREFIX_def)
qed

lemma frame_eq: "kind < 256 \<Longrightarrow> frame kind body = Inr f \<longleftrightarrow> length body \<le> MAX_FRAME_BYTES \<and> f = frame_bytes (kind, body)"
  by (auto simp: frame_def frame_prefix_eq frame_bytes_def)

lemma frame_parts_eq:
  "kind < 256 \<Longrightarrow> frame_parts kind ps = Inr out \<Longrightarrow>
    length (concat ps) \<le> MAX_FRAME_BYTES \<and> concat out = frame_bytes (kind, concat ps)"
  by (auto simp: frame_parts_def Let_def frame_prefix_eq frame_bytes_def length_concat split: list.splits if_splits)

lemma parse_frame_bytes:
  assumes "frame_fits f"
  shows "parse_frame (frame_bytes f @ rest) = Inr (Some (f, rest))"
proof -
  obtain kind body where f: "f = (kind, body)" by (cases f)
  have k: "kind \<in> set frame_kinds" "length body \<le> MAX_FRAME_BYTES" using assms by (simp_all add: frame_fits_def f)
  then have "length body < 256 ^ 4" by (simp add: MAX_FRAME_BYTES_def)
  then have "be_nat (be_bytes 4 (length body)) = length body" by (rule be_nat_be_bytes)
  moreover have "unat (of_nat kind :: byte) = kind"
    using frame_kind_small [OF k(1)] by (simp add: unat_of_nat_byte)
  moreover have "drop (5 + length body) (of_nat kind # be_bytes 4 (length body) @ body @ rest) = rest"
  proof -
    have "5 + length body = Suc (length (be_bytes 4 (length body) @ body))" by simp
    then show ?thesis by (simp only: drop_Suc_Cons) simp
  qed
  ultimately show ?thesis
    using k by (simp add: parse_frame_def frame_bytes_def f Let_def)
qed

definition coming :: "payload_reader \<Rightarrow> (nat \<times> bytes) list \<Rightarrow> bool" where
  "coming pr fs \<longleftrightarrow> list_all frame_fits fs \<and>
     (case pr_pending pr of
        None \<Rightarrow> rest_of (pr_frames pr) = concat (map frame_bytes fs)
      | Some f \<Rightarrow> \<exists>gs. fs = f # gs \<and> rest_of (pr_frames pr) = concat (map frame_bytes gs))"

definition rest_fields :: "payload_reader \<Rightarrow> py \<times> file_entry list \<times> py \<times> (string \<rightharpoonup> nat) \<times> nat \<times> payload_phase" where
  "rest_fields pr = (pr_header pr, pr_entries pr, pr_trailer pr, pr_rank pr, pr_position pr, pr_phase pr)"

lemma peek_coming:
  assumes "coming pr (f # fs)"
  shows "\<exists>pr'. peek_frame pr = Inr (f, pr') \<and> coming pr' (f # fs) \<and> rest_fields pr' = rest_fields pr"
proof (cases "pr_pending pr")
  case (Some g)
  then show ?thesis using assms by (auto simp: peek_frame_def coming_def)
next
  case None
  then have rest: "rest_of (pr_frames pr) = frame_bytes f @ concat (map frame_bytes fs)" and fits: "frame_fits f"
    using assms by (auto simp: coming_def)
  obtain fr where "next_frame (pr_frames pr) = Inr (Some f, fr)" "rest_of fr = concat (map frame_bytes fs)"
    using next_frame_eq [of "pr_frames pr"] by (auto simp: rest parse_frame_bytes [OF fits])
  then show ?thesis
    using assms None by (auto simp: peek_frame_def coming_def rest_fields_def)
qed

lemma pop_coming:
  assumes "coming pr (f # fs)"
  shows "\<exists>pr'. pop_frame pr = Inr (f, pr') \<and> coming pr' fs \<and> rest_fields pr' = rest_fields pr"
proof -
  obtain pr1 where pr1: "peek_frame pr = Inr (f, pr1)" "coming pr1 (f # fs)" "rest_fields pr1 = rest_fields pr"
    using peek_coming [OF assms] by blast
  have "pr_pending pr1 = Some f" by (rule peek_frame_less(2) [OF pr1(1)])
  then show ?thesis using pr1 by (auto simp: pop_frame_def coming_def rest_fields_def)
qed

lemma coming_update [simp]:
  "coming (pr\<lparr>pr_header := x1\<rparr>) fs = coming pr fs" "coming (pr\<lparr>pr_entries := x2\<rparr>) fs = coming pr fs"
  "coming (pr\<lparr>pr_trailer := x3\<rparr>) fs = coming pr fs" "coming (pr\<lparr>pr_rank := x4\<rparr>) fs = coming pr fs"
  "coming (pr\<lparr>pr_position := x5\<rparr>) fs = coming pr fs" "coming (pr\<lparr>pr_phase := x6\<rparr>) fs = coming pr fs"
  by (simp_all add: coming_def cong: option.case_cong)

end
