(* ===== verification/PayloadRoundtrip.thy ===== *)
theory PayloadRoundtrip
  imports PayloadWrite
begin

text \<open>
  The frames that \<open>produce\<close> emits are read back by \<open>read_payload\<close>: files with their contents and
  digests, records with their order, and a trailer whose counts agree.
\<close>

section \<open>Files\<close>

definition end_value :: "codec_of_json \<Rightarrow> nat \<Rightarrow> source_file \<Rightarrow> py" where
  "end_value js index source = (case sf_skipped source of
     Some reason \<Rightarrow> PDict [(''index'', PInt (int index)), (''skipped'', PStr reason)]
   | None \<Rightarrow> PDict [(''index'', PInt (int index)), (''size'', PInt (int (length (concat (sf_chunks source))))),
                    (''sha256'', PStr (sha256 js (concat (sf_chunks source))))])"

definition source_frames :: "codec_of_json \<Rightarrow> nat \<Rightarrow> source_file \<Rightarrow> (nat \<times> bytes) list" where
  "source_frames js index source =
     map (\<lambda>c. (FILE_DATA, be_bytes 4 index @ c)) (sf_chunks source) @ [(FILE_END, dumps js (end_value js index source))]"

definition source_outcome :: "codec_of_json \<Rightarrow> source_file \<Rightarrow> file_outcome" where
  "source_outcome js source = (case sf_skipped source of
     Some reason \<Rightarrow> \<lparr>fo_chunks = sf_chunks source, fo_size = 0, fo_sha256 = [], fo_skipped = reason\<rparr>
   | None \<Rightarrow> \<lparr>fo_chunks = sf_chunks source, fo_size = length (concat (sf_chunks source)),
              fo_sha256 = sha256 js (concat (sf_chunks source)), fo_skipped = []\<rparr>)"

definition source_notes :: "source_file list \<Rightarrow> string list" where
  "source_notes sources = concat (map (\<lambda>source. case sf_skipped source of
     Some reason \<Rightarrow> [sf_described source @ '' ('' @ reason @ '')''] | None \<Rightarrow> []) sources)"

text \<open>The JSON codec reads these values back as it wrote them; reasons for skipping are not empty.\<close>

definition json_exact :: "codec_of_json \<Rightarrow> py list \<Rightarrow> bool" where
  "json_exact js vs \<longleftrightarrow> list_all (\<lambda>v. loads js (dumps js v) = Some v) vs"

lemma json_exact_simps [simp]:
  "json_exact js []" "json_exact js (v # vs) \<longleftrightarrow> loads js (dumps js v) = Some v \<and> json_exact js vs"
  "json_exact js (vs @ ws) \<longleftrightarrow> json_exact js vs \<and> json_exact js ws"
  by (simp_all add: json_exact_def)

definition reasons_given :: "source_file list \<Rightarrow> bool" where
  "reasons_given sources \<longleftrightarrow> (\<forall>source \<in> set sources. sf_skipped source \<noteq> Some [])"

lemma frame_kinds_simps [simp]:
  "HEADER \<in> set frame_kinds" "MANIFEST \<in> set frame_kinds" "FILE_DATA \<in> set frame_kinds"
  "FILE_END \<in> set frame_kinds" "RECORDS \<in> set frame_kinds" "TRAILER \<in> set frame_kinds"
  "HEADER < 256" "MANIFEST < 256" "FILE_DATA < 256" "FILE_END < 256" "RECORDS < 256" "TRAILER < 256"
  "FILE_END \<noteq> FILE_DATA" "FILE_DATA \<noteq> MANIFEST" "FILE_END \<noteq> MANIFEST" "RECORDS \<noteq> MANIFEST" "TRAILER \<noteq> MANIFEST"
  "TRAILER \<noteq> RECORDS"
  by (simp_all add: frame_kinds_def HEADER_def MANIFEST_def FILE_DATA_def FILE_END_def RECORDS_def TRAILER_def)

lemma frame_fits_pair: "frame_fits (kind, body) \<longleftrightarrow> kind \<in> set frame_kinds \<and> length body \<le> MAX_FRAME_BYTES"
  by (simp add: frame_fits_def)

lemma emit_chunks_eq:
  assumes "emit_chunks index cs = Inr out"
  shows "concat out = concat (map frame_bytes (map (\<lambda>c. (FILE_DATA, be_bytes 4 index @ c)) cs)) \<and>
    list_all frame_fits (map (\<lambda>c. (FILE_DATA, be_bytes 4 index @ c)) cs) \<and> (cs \<noteq> [] \<longrightarrow> index < 256 ^ 4)"
  using assms
  by (induction cs arbitrary: out)
    (fastforce simp: file_data_frame_def FILE_INDEX_def frame_eq frame_fits_def split: option.splits if_splits)+

lemma emit_files_eq:
  assumes "emit_files js allow index sources = Inr (out, written, skipped)" and "reasons_given sources"
  shows "concat out = concat (map frame_bytes (concat (map (\<lambda>(i, s). source_frames js i s) (enumerate index sources)))) \<and>
    list_all frame_fits (concat (map (\<lambda>(i, s). source_frames js i s) (enumerate index sources))) \<and>
    written = length (filter (\<lambda>s. sf_skipped s = None) sources) \<and> skipped = source_notes sources"
  using assms
proof (induction js allow index sources arbitrary: out written skipped rule: emit_files.induct)
  case (2 js allow index source sources)
  have reasons: "sf_skipped source \<noteq> Some []" "reasons_given sources" using "2.prems"(2) by (auto simp: reasons_given_def)
  obtain data where data: "emit_chunks index (sf_chunks source) = Inr data" using "2.prems"(1) by auto
  note D = emit_chunks_eq [OF data]
  show ?case
  proof (cases "sf_skipped source")
    case None
    obtain ending out1 written1 skipped1 where E:
        "file_end_frame js index (length (concat (sf_chunks source))) (sha256 js (concat (sf_chunks source))) [] = Inr ending"
        "emit_files js allow (Suc index) sources = Inr (out1, written1, skipped1)"
        "out = data @ [ending] @ out1" "written = written1 + 1" "skipped = skipped1"
      using "2.prems"(1) data None by auto
    show ?thesis
      using "2.IH"(1) [OF None E(2) reasons(2)] D E None
      by (simp add: source_frames_def end_value_def source_notes_def file_end_frame_def json_frame_def frame_eq frame_fits_pair)
  next
    case (Some reason)
    obtain ending out1 written1 skipped1 where E: "allow" "file_end_frame js index 0 [] reason = Inr ending"
        "emit_files js allow (Suc index) sources = Inr (out1, written1, skipped1)"
        "out = data @ [ending] @ out1" "written = written1" "skipped = (sf_described source @ '' ('' @ reason @ '')'') # skipped1"
      using "2.prems"(1) data Some by (auto split: if_splits)
    have "reason \<noteq> []" using Some reasons(1) by simp
    then show ?thesis
      using "2.IH"(2) [OF Some _ E(3) reasons(2)] D E Some
      by (simp add: source_frames_def end_value_def source_notes_def file_end_frame_def json_frame_def frame_eq frame_fits_pair)
  qed
qed (simp add: source_notes_def)

lemma file_chunks_coming:
  assumes "coming pr (map (\<lambda>c. (FILE_DATA, be_bytes 4 index @ c)) cs @ (FILE_END, body) # fs)" and "index < 256 ^ 4 \<or> cs = []"
  shows "\<exists>pr1. coming pr1 fs \<and> rest_fields pr1 = rest_fields pr \<and>
    file_chunks js index pr acc = and_then (parsed js body) (\<lambda>ending. and_then (file_finish js index ending (acc @ cs))
      (\<lambda>out. Inr (out, if fo_skipped out = []
         then pr1\<lparr>pr_entries := (pr_entries pr1)[index := (pr_entries pr1 ! index)\<lparr>fe_sha256 := fo_sha256 out\<rparr>]\<rparr> else pr1)))"
  using assms
proof (induction cs arbitrary: pr acc)
  case Nil
  obtain pr1 where "pop_frame pr = Inr ((FILE_END, body), pr1)" "coming pr1 fs" "rest_fields pr1 = rest_fields pr"
    using pop_coming Nil.prems(1) by fastforce
  then show ?case by (intro exI [of _ pr1]) (simp add: file_chunks.simps [of js index pr])
next
  case (Cons c cs)
  obtain pr1 where pr1: "pop_frame pr = Inr ((FILE_DATA, be_bytes 4 index @ c), pr1)"
      "coming pr1 (map (\<lambda>c. (FILE_DATA, be_bytes 4 index @ c)) cs @ (FILE_END, body) # fs)" "rest_fields pr1 = rest_fields pr"
    using pop_coming Cons.prems(1) by fastforce
  have "file_chunks js index pr acc = file_chunks js index pr1 (acc @ [c])"
    using Cons.prems(2) by (simp add: file_chunks.simps [of js index pr] pr1(1))
  then show ?case using Cons.IH [OF pr1(2), of "acc @ [c]"] Cons.prems(2) pr1(3) by simp
qed

lemma source_frames_coming:
  assumes "coming pr (source_frames js index source @ fs)" and "index < 256 ^ 4" and "json_exact js [end_value js index source]"
    and "sf_skipped source \<noteq> Some []"
  shows "\<exists>pr1 es. file_chunks js index pr [] = Inr (source_outcome js source, pr1) \<and> coming pr1 fs \<and>
    rest_fields pr1 = rest_fields (pr\<lparr>pr_entries := es\<rparr>) \<and> length es = length (pr_entries pr)"
proof -
  have js: "loads js (dumps js (end_value js index source)) = Some (end_value js index source)" using assms(3) by simp
  show ?thesis
  proof (cases "sf_skipped source")
    case None
    note J = js [unfolded end_value_def None option.case]
    obtain pr1 where "coming pr1 fs" "rest_fields pr1 = rest_fields pr"
        "file_chunks js index pr [] = Inr (source_outcome js source,
          pr1\<lparr>pr_entries := (pr_entries pr1)[index := (pr_entries pr1 ! index)\<lparr>fe_sha256 := fo_sha256 (source_outcome js source)\<rparr>]\<rparr>)"
      using file_chunks_coming [of pr index "sf_chunks source" _ fs js "[]"] assms(1,2) None
      by (fastforce simp: source_frames_def parsed_def J end_value_def file_finish_def Let_def is_dict_def py_get_def py_eq_int_def
          is_count_def is_text_def py_nat_def py_text_def source_outcome_def)
    then show ?thesis by (fastforce simp: rest_fields_def)
  next
    case (Some reason)
    note J = js [unfolded end_value_def Some option.case]
    obtain pr1 where "coming pr1 fs" "rest_fields pr1 = rest_fields pr"
        "file_chunks js index pr [] = Inr (source_outcome js source, pr1)"
      using file_chunks_coming [of pr index "sf_chunks source" _ fs js "[]"] assms(1,2,4) Some
      by (fastforce simp: source_frames_def parsed_def J end_value_def file_finish_def Let_def is_dict_def py_get_def py_eq_int_def
          is_count_def is_text_def py_nat_def py_text_def source_outcome_def)
    then show ?thesis by (intro exI [of _ pr1] exI [of _ "pr_entries pr"]) (simp add: rest_fields_def)
  qed
qed

lemma files_loop_coming:
  assumes "coming pr (concat (map (\<lambda>(i, s). source_frames js i s) (enumerate index sources)) @ fs)"
    and "index + length sources \<le> 256 ^ 4"
    and "json_exact js (map (\<lambda>(i, s). end_value js i s) (enumerate index sources))" and "reasons_given sources"
  shows "\<exists>pr1 es. files_loop js [index..<index + length sources] pr = Inr (map (source_outcome js) sources, pr1) \<and>
    coming pr1 fs \<and> rest_fields pr1 = rest_fields (pr\<lparr>pr_entries := es\<rparr>)"
  using assms
proof (induction sources arbitrary: index pr)
  case Nil
  then show ?case by (auto simp: rest_fields_def intro!: exI [of _ "pr_entries pr"])
next
  case (Cons s sources)
  have s: "sf_skipped s \<noteq> Some []" "reasons_given sources" using Cons.prems(4) by (auto simp: reasons_given_def)
  obtain pr1 es where P: "file_chunks js index pr [] = Inr (source_outcome js s, pr1)"
      "coming pr1 (concat (map (\<lambda>(i, s). source_frames js i s) (enumerate (Suc index) sources)) @ fs)"
      "rest_fields pr1 = rest_fields (pr\<lparr>pr_entries := es\<rparr>)"
    using source_frames_coming [of pr js index s] Cons.prems(1,2,3) s(1) by fastforce
  have js: "json_exact js (map (\<lambda>(i, s). end_value js i s) (enumerate (Suc index) sources))" using Cons.prems(3) by simp
  obtain pr2 es2 where Q: "files_loop js [Suc index..<Suc index + length sources] pr1 = Inr (map (source_outcome js) sources, pr2)"
      "coming pr2 fs" "rest_fields pr2 = rest_fields (pr1\<lparr>pr_entries := es2\<rparr>)"
    using Cons.IH [OF P(2) _ js s(2)] Cons.prems(2) by auto
  have "[index..<index + length (s # sources)] = index # [Suc index..<Suc index + length sources]"
    by (simp only: list.size add_Suc_right add_Suc add_0_right upt_conv_Cons [OF le_imp_less_Suc [OF le_add1]])
  then show ?case
    using P Q by (intro exI [of _ pr2] exI [of _ es2]) (simp add: rest_fields_def)
qed

section \<open>Manifest\<close>

definition entry_ok :: "file_entry \<Rightarrow> bool" where
  "entry_ok e \<longleftrightarrow> checked_entry (manifest_item e) = Inr (e\<lparr>fe_sha256 := []\<rparr>)"

definition listed_entry :: "file_entry \<Rightarrow> file_entry" where
  "listed_entry e = e\<lparr>fe_sha256 := []\<rparr>"

definition manifest_frames :: "codec_of_json \<Rightarrow> file_entry list list \<Rightarrow> (nat \<times> bytes) list" where
  "manifest_frames js batches = map (\<lambda>batch. (MANIFEST, dumps js (PList (map manifest_item batch)))) batches"

lemma emit_manifest_eq:
  "emit_manifest js batches = Inr out \<Longrightarrow>
    concat out = concat (map frame_bytes (manifest_frames js batches)) \<and> list_all frame_fits (manifest_frames js batches)"
  by (induction batches arbitrary: out) (fastforce simp: manifest_frames_def json_frame_def frame_eq frame_fits_pair)+

lemma checked_entries_listed:
  "list_all entry_ok es \<Longrightarrow> checked_entries (map manifest_item es) = Inr (map listed_entry es)"
  by (induction es) (simp_all add: entry_ok_def listed_entry_def)

lemma manifest_loop_coming:
  assumes "coming pr (manifest_frames js batches @ f # fs)" and "fst f \<noteq> MANIFEST"
    and "json_exact js (map (\<lambda>batch. PList (map manifest_item batch)) batches)"
    and "list_all (list_all entry_ok) batches" and "length (pr_entries pr) + length (concat batches) \<le> MAX_FILES"
  shows "\<exists>pr1. manifest_loop js pr = Inr pr1 \<and> coming pr1 (f # fs) \<and>
    rest_fields pr1 = rest_fields (pr\<lparr>pr_entries := pr_entries pr @ map listed_entry (concat batches)\<rparr>)"
  using assms
proof (induction batches arbitrary: pr)
  case Nil
  obtain pr1 where "peek_frame pr = Inr (f, pr1)" "coming pr1 (f # fs)" "rest_fields pr1 = rest_fields pr"
    using peek_coming Nil.prems(1) by (fastforce simp: manifest_frames_def)
  then show ?case
    using Nil.prems(2) by (cases f) (auto simp: manifest_loop.simps [of js pr] rest_fields_def)
next
  case (Cons batch batches)
  let ?m = "(MANIFEST, dumps js (PList (map manifest_item batch)))"
  have c: "coming pr (?m # manifest_frames js batches @ f # fs)" using Cons.prems(1) by (simp add: manifest_frames_def)
  obtain pr1 where P: "peek_frame pr = Inr (?m, pr1)" "coming pr1 (?m # manifest_frames js batches @ f # fs)"
      "rest_fields pr1 = rest_fields pr"
    using peek_coming [OF c] by blast
  obtain pr2 where Q: "pop_frame pr1 = Inr (?m, pr2)" "coming pr2 (manifest_frames js batches @ f # fs)"
      "rest_fields pr2 = rest_fields pr1"
    using pop_coming [OF P(2)] by blast
  have entries: "pr_entries pr2 = pr_entries pr" using P(3) Q(3) by (simp add: rest_fields_def)
  let ?pr3 = "pr2\<lparr>pr_entries := pr_entries pr2 @ map listed_entry batch\<rparr>"
  have step: "manifest_loop js pr = manifest_loop js ?pr3"
    using Cons.prems(3-5)
    by (simp add: manifest_loop.simps [of js pr] P(1) Q(1) parsed_def is_list_def py_items_def
        checked_entries_listed entries)
  obtain pr4 where "manifest_loop js ?pr3 = Inr pr4" "coming pr4 (f # fs)"
      "rest_fields pr4 = rest_fields (?pr3\<lparr>pr_entries := pr_entries ?pr3 @ map listed_entry (concat batches)\<rparr>)"
    using Cons.IH [of ?pr3] Cons.prems(2-5) Q(2) entries by (fastforce simp: add.assoc)
  then show ?case using step P(3) Q(3) by (auto simp: rest_fields_def)
qed

section \<open>Records\<close>

definition record_ok :: "string \<Rightarrow> py \<Rightarrow> bool" where
  "record_ok label r \<longleftrightarrow> is_dict r \<and> is_dict (py_get r ''fields'') \<and> py_get r ''model'' = PStr label \<and> is_scalar (py_get r ''pk'')"

definition batch_records :: "codec_of_json \<Rightarrow> bytes list \<times> nat \<Rightarrow> py list" where
  "batch_records js batch = (case loads_utf8 js (concat (fst batch)) of Some v \<Rightarrow> py_items v | None \<Rightarrow> [])"

definition batch_ok :: "codec_of_json \<Rightarrow> string \<Rightarrow> bytes list \<times> nat \<Rightarrow> bool" where
  "batch_ok js label batch \<longleftrightarrow>
     (case loads_utf8 js (concat (fst batch)) of
        Some (PList rs) \<Rightarrow> length rs = snd batch \<and> list_all (record_ok label) rs
      | _ \<Rightarrow> False)"

lemma batch_okD:
  assumes "batch_ok js label batch"
  shows "loads_utf8 js (concat (fst batch)) = Some (PList (batch_records js batch)) \<and>
    length (batch_records js batch) = snd batch \<and> list_all (record_ok label) (batch_records js batch)"
  using assms by (auto simp: batch_ok_def batch_records_def py_items_def split: option.splits py.splits)

lemma checked_records_loop_ok:
  "list_all (record_ok label) rs \<Longrightarrow> rank label = Some k \<Longrightarrow> current \<le> k \<Longrightarrow>
    checked_records_loop rank current rs = Inr (if rs = [] then current else k)"
proof (induction rs arbitrary: current)
  case (Cons r rs)
  have "checked_records_loop rank k rs = Inr (if rs = [] then k else k)" using Cons.IH [of k] Cons.prems by simp
  then show ?case using Cons.prems by (simp add: record_ok_def rank_get_def)
qed simp

definition batch_frames :: "(bytes list \<times> nat) list \<Rightarrow> (nat \<times> bytes) list" where
  "batch_frames batches = map (\<lambda>batch. (RECORDS, concat (fst batch))) batches"

lemma emit_batches_eq:
  assumes "emit_batches batches = Inr (out, count)"
  shows "concat out = concat (map frame_bytes (batch_frames batches)) \<and> list_all frame_fits (batch_frames batches) \<and>
    count = sum_list (map snd batches)"
  using assms
proof (induction batches arbitrary: out count)
  case (Cons batch batches)
  obtain ps rows where b: "batch = (ps, rows)" by (cases batch)
  obtain parts out1 count1 where E: "frame_parts RECORDS ps = Inr parts" "emit_batches batches = Inr (out1, count1)"
      "out = parts @ out1" "count = rows + count1"
    using Cons.prems b by auto
  show ?case
    using frame_parts_eq [OF _ E(1)] Cons.IH [OF E(2)] E(3,4) b by (simp add: batch_frames_def frame_fits_pair)
qed (simp add: batch_frames_def)

lemma emit_records_eq:
  assumes "emit_records models = Inr (out, stats_models, count)"
  shows "concat out = concat (map frame_bytes (batch_frames (concat (map snd models)))) \<and>
    list_all frame_fits (batch_frames (concat (map snd models))) \<and>
    stats_models = map (\<lambda>(label, batches). (label, sum_list (map snd batches))) models \<and>
    count = sum_list (map snd (concat (map snd models)))"
  using assms
proof (induction models arbitrary: out stats_models count)
  case (Cons m models)
  obtain label batches where m: "m = (label, batches)" by (cases m)
  obtain out1 count1 out2 sm2 count2 where E: "emit_batches batches = Inr (out1, count1)"
      "emit_records models = Inr (out2, sm2, count2)"
      "out = out1 @ out2" "stats_models = (label, count1) # sm2" "count = count1 + count2"
    using Cons.prems m by auto
  show ?case
    using emit_batches_eq [OF E(1)] Cons.IH [OF E(2)] E(3-5) m by (simp add: batch_frames_def)
qed (simp add: batch_frames_def)

lemma batches_loop_coming:
  assumes "coming pr (batch_frames batches @ fs)" and "list_all (batch_ok js label) batches"
    and "pr_rank pr label = Some k" and "pr_position pr \<le> k"
  shows "\<exists>pr1 c. batches_loop js True pr acc = batches_loop js True pr1 (acc @ map (\<lambda>b. Some (batch_records js b)) batches) \<and>
    coming pr1 fs \<and> rest_fields pr1 = rest_fields (pr\<lparr>pr_position := c\<rparr>) \<and> c \<le> k"
  using assms
proof (induction batches arbitrary: pr acc)
  case Nil
  then show ?case by (intro exI [of _ pr] exI [of _ "pr_position pr"]) (simp add: batch_frames_def rest_fields_def)
next
  case (Cons batch batches)
  let ?f = "(RECORDS, concat (fst batch))"
  have c: "coming pr (?f # batch_frames batches @ fs)" using Cons.prems(1) by (simp add: batch_frames_def)
  obtain pr1 where P: "peek_frame pr = Inr (?f, pr1)" "coming pr1 (?f # batch_frames batches @ fs)" "rest_fields pr1 = rest_fields pr"
    using peek_coming [OF c] by blast
  obtain pr2 where Q: "pop_frame pr1 = Inr (?f, pr2)" "coming pr2 (batch_frames batches @ fs)" "rest_fields pr2 = rest_fields pr1"
    using pop_coming [OF P(2)] by blast
  note B = batch_okD [of js label batch]
  have pos: "pr_rank pr2 label = Some k" "pr_position pr2 \<le> k" using P(3) Q(3) Cons.prems(3,4) by (simp_all add: rest_fields_def)
  let ?c = "if batch_records js batch = [] then pr_position pr2 else k"
  let ?pr3 = "pr2\<lparr>pr_position := ?c\<rparr>"
  have "read_batch js True (concat (fst batch)) pr2 = Inr (Some (batch_records js batch), ?pr3)"
    using B Cons.prems(2) pos
    by (simp add: read_batch_def parsed_utf8_def checked_records_def checked_records_loop_ok [where label = label and k = k])
  then have step: "batches_loop js True pr acc = batches_loop js True ?pr3 (acc @ [Some (batch_records js batch)])"
    by (subst batches_loop.simps) (simp add: P(1) Q(1))
  have c3: "coming ?pr3 (batch_frames batches @ fs)" using Q(2) by simp
  have p3: "pr_rank ?pr3 label = Some k" "pr_position ?pr3 \<le> k" using pos by simp_all
  have ok: "list_all (batch_ok js label) batches" using Cons.prems(2) by simp
  obtain pr4 c4 where "batches_loop js True ?pr3 (acc @ [Some (batch_records js batch)])
        = batches_loop js True pr4 ((acc @ [Some (batch_records js batch)]) @ map (\<lambda>b. Some (batch_records js b)) batches)"
      "coming pr4 fs" "rest_fields pr4 = rest_fields (?pr3\<lparr>pr_position := c4\<rparr>)" "c4 \<le> k"
    using Cons.IH [OF c3 ok p3] by blast
  then show ?case using step P(3) Q(3) by (intro exI [of _ pr4] exI [of _ c4]) (simp add: rest_fields_def)
qed

lemma models_loop_coming:
  assumes "coming pr (batch_frames (concat (map snd models)) @ fs)"
    and "\<forall>(label, batches) \<in> set models. list_all (batch_ok js label) batches"
    and "\<forall>i < length models. pr_rank pr (fst (models ! i)) = Some (k + i)" and "pr_position pr \<le> k"
  shows "\<exists>pr1 c. batches_loop js True pr acc
      = batches_loop js True pr1 (acc @ map (\<lambda>b. Some (batch_records js b)) (concat (map snd models))) \<and>
    coming pr1 fs \<and> rest_fields pr1 = rest_fields (pr\<lparr>pr_position := c\<rparr>)"
  using assms
proof (induction models arbitrary: pr acc k)
  case Nil
  then show ?case by (intro exI [of _ pr] exI [of _ "pr_position pr"]) (simp add: batch_frames_def rest_fields_def)
next
  case (Cons m models)
  obtain label batches where m: "m = (label, batches)" by (cases m)
  have c: "coming pr (batch_frames batches @ batch_frames (concat (map snd models)) @ fs)"
    using Cons.prems(1) by (simp add: m batch_frames_def)
  have r: "pr_rank pr label = Some k" using Cons.prems(3) [rule_format, of 0] by (simp add: m)
  have ok: "list_all (batch_ok js label) batches" using Cons.prems(2) by (simp add: m)
  obtain pr1 c1 where P: "batches_loop js True pr acc = batches_loop js True pr1 (acc @ map (\<lambda>b. Some (batch_records js b)) batches)"
      "coming pr1 (batch_frames (concat (map snd models)) @ fs)" "rest_fields pr1 = rest_fields (pr\<lparr>pr_position := c1\<rparr>)" "c1 \<le> k"
    using batches_loop_coming [OF c ok r Cons.prems(4)] by blast
  have r1: "pr_rank pr1 = pr_rank pr" "pr_position pr1 = c1" using P(3) by (simp_all add: rest_fields_def)
  have ranks: "\<forall>i < length models. pr_rank pr1 (fst (models ! i)) = Some (Suc k + i)"
    using Cons.prems(3) r1(1) by (metis Suc_less_eq add_Suc_shift length_Cons nth_Cons_Suc)
  have oks: "\<forall>(label, batches) \<in> set models. list_all (batch_ok js label) batches" using Cons.prems(2) by simp
  have c1: "pr_position pr1 \<le> Suc k" using P(4) r1(2) by simp
  obtain pr2 c2 where "batches_loop js True pr1 (acc @ map (\<lambda>b. Some (batch_records js b)) batches)
        = batches_loop js True pr2 ((acc @ map (\<lambda>b. Some (batch_records js b)) batches) @ map (\<lambda>b. Some (batch_records js b)) (concat (map snd models)))"
      "coming pr2 fs" "rest_fields pr2 = rest_fields (pr1\<lparr>pr_position := c2\<rparr>)"
    using Cons.IH [OF P(2) oks ranks c1] by blast
  then show ?case using P(1,3) m by (intro exI [of _ pr2] exI [of _ c2]) (simp add: rest_fields_def)
qed

end
