(* ===== verification/PayloadProperties.thy ===== *)
theory PayloadProperties
  imports PayloadRoundtrip
begin

text \<open>
  Properties of the payload of format version 2: what \<open>produce\<close> emits is read back, reading does not
  depend on how the bytes are cut into pieces, and a payload that is accepted is consistent with its
  own trailer and digests.
\<close>

section \<open>Trailer\<close>

lemma checked_payload_trailer: "checked_trailer (payload_trailer models records files skipped) = Inr (payload_trailer models records files skipped)"
  by (induction skipped; induction models)
    (auto simp: checked_trailer_def payload_trailer_def is_dict_def py_get_def is_list_def py_items_def is_text_def is_count_def
      list_all_iff Let_def)

lemma recorded_counts_of_trailer:
  assumes "distinct (map fst models)"
  shows "map_of (recorded_counts (py_get (payload_trailer models records files skipped) ''stats'')) m
    = (case map_of models m of Some n \<Rightarrow> if n = 0 then None else Some n | None \<Rightarrow> None)"
proof -
  have fold: "map_of (fold (\<lambda>item counts. if py_nat (py_get item ''count'') \<noteq> 0
         then AList.update (py_text (py_get item ''model'')) (py_nat (py_get item ''count'')) counts else counts)
       (map (\<lambda>(label, count). PDict [(''model'', PStr label), (''count'', PInt (int count))]) ms) counts) m
    = (case map_of ms m of Some n \<Rightarrow> if n = 0 then map_of counts m else Some n | None \<Rightarrow> map_of counts m)"
    if "distinct (map fst ms)" for ms counts
    using that
  proof (induction ms arbitrary: counts)
    case (Cons x ms)
    have "fst x \<notin> dom (map_of ms)" using Cons.prems by (simp add: dom_map_of_conv_image_fst)
    then show ?case
      using Cons.IH Cons.prems
      by (cases x) (auto simp: py_get_def py_nat_def py_text_def update_conv' split: option.splits)
  qed simp
  show ?thesis
    using fold [OF assms, of "[]"]
    unfolding recorded_counts_def payload_trailer_def by (simp add: py_get_def [of "PDict _"] py_items_def split: option.splits)
qed

lemma records_of_models:
  assumes "\<forall>(label, batches) \<in> set models. list_all (batch_ok js label) batches" and "distinct (map fst models)"
  shows "length (filter (\<lambda>r. py_text (py_get r ''model'') = m) (concat (map (batch_records js) (concat (map snd models)))))
    = (case map_of models m of Some batches \<Rightarrow> sum_list (map snd batches) | None \<Rightarrow> 0)"
  using assms
proof (induction models)
  case (Cons x models)
  obtain label batches where x: "x = (label, batches)" by (cases x)
  have one: "length (filter (\<lambda>r. py_text (py_get r ''model'') = m) (concat (map (batch_records js) bs)))
      = (if label = m then sum_list (map snd bs) else 0)" if "list_all (batch_ok js label) bs" for bs
    using that
  proof (induction bs)
    case (Cons b bs)
    have "filter (\<lambda>r. py_text (py_get r ''model'') = m) (batch_records js b) = (if label = m then batch_records js b else [])"
      using batch_okD [of js label b] Cons.prems by (auto simp: list_all_iff record_ok_def py_text_def filter_empty_conv filter_id_conv)
    then show ?case using Cons batch_okD [of js label b] by simp
  qed simp
  have "map_of models label = None" using Cons.prems(2) x by (simp add: map_of_eq_None_iff)
  then show ?case using one Cons x by auto
qed simp

lemma length_records_of_models:
  assumes "\<forall>(label, batches) \<in> set models. list_all (batch_ok js label) batches"
  shows "length (concat (map (batch_records js) (concat (map snd models)))) = sum_list (map snd (concat (map snd models)))"
proof -
  have "length (batch_records js b) = snd b" if "b \<in> set (concat (map snd models))" for b
  proof -
    obtain label batches where "(label, batches) \<in> set models" "b \<in> set batches"
      using \<open>b \<in> set (concat (map snd models))\<close> by auto
    then have "batch_ok js label b" using assms by (auto simp: list_all_iff)
    then show ?thesis using batch_okD by blast
  qed
  then have "map (\<lambda>b. length (batch_records js b)) (concat (map snd models)) = map snd (concat (map snd models))" by (rule map_cong [OF refl])
  then show ?thesis unfolding length_concat map_map comp_def by (rule arg_cong)
qed

section \<open>Reading back\<close>

definition header_of :: "(string \<times> py) list \<Rightarrow> (string \<times> (bytes list \<times> nat) list) list \<Rightarrow> py" where
  "header_of about models = PDict ([(''version'', PInt PAYLOAD_VERSION)] @ about @ [(''order'', PList (map (\<lambda>(label, _). PStr label) models))])"

definition payload_frames where
  "payload_frames js about sources models trailer =
     (HEADER, dumps js (header_of about models)) #
     manifest_frames js (pieces MANIFEST_BATCH (map sf_entry sources)) @
     concat (map (\<lambda>(i, s). source_frames js i s) (enumerate 0 sources)) @
     batch_frames (concat (map snd models)) @ [(TRAILER, dumps js trailer)]"

text \<open>
  What the engine hands to \<^verbatim>\<open>_produce\<close>: a header in the shape the reader accepts, entries in the shape
  the manifest accepts, every batch valid JSON of records of its own model, every model once.
\<close>

definition source_ok ::
  "codec_of_json \<Rightarrow> (string \<times> py) list \<Rightarrow> source_file list \<Rightarrow> (string \<times> (bytes list \<times> nat) list) list \<Rightarrow> bool" where
  "source_ok js about sources models \<longleftrightarrow>
     checked_header (header_of about models) = Inr (header_of about models) \<and> ''order'' \<notin> fst ` set about \<and>
     list_all (\<lambda>s. entry_ok (sf_entry s) \<and> sf_skipped s \<noteq> Some []) sources \<and>
     distinct (map fst models) \<and> list_all (\<lambda>(label, batches). list_all (batch_ok js label) batches) models"

definition trailer_of ::
  "string list \<Rightarrow> source_file list \<Rightarrow> (string \<times> (bytes list \<times> nat) list) list \<Rightarrow> py" where
  "trailer_of listed_skipped sources models =
     payload_trailer (map (\<lambda>(label, batches). (label, sum_list (map snd batches))) models)
       (sum_list (map snd (concat (map snd models)))) (length (filter (\<lambda>s. sf_skipped s = None) sources))
       (listed_skipped @ source_notes sources)"

definition written_values where
  "written_values js about sources models trailer =
     header_of about models # map (\<lambda>batch. PList (map manifest_item batch)) (pieces MANIFEST_BATCH (map sf_entry sources)) @
     map (\<lambda>(i, s). end_value js i s) (enumerate 0 sources) @ [trailer]"

lemma produce_frames:
  assumes "produce js about listed_skipped sources allow models = Inr (out, stats)" and "reasons_given sources"
  shows "stats = py_get (trailer_of listed_skipped sources models) ''stats'' \<and> length sources \<le> MAX_FILES \<and>
    concat out = PAYLOAD_MAGIC @ concat (map frame_bytes (payload_frames js about sources models (trailer_of listed_skipped sources models))) \<and>
    list_all frame_fits (payload_frames js about sources models (trailer_of listed_skipped sources models))"
proof -
  obtain header manifest data files skipped records stats_models count ending where E:
    "json_frame js HEADER (header_of about models) = Inr header" "length sources \<le> MAX_FILES"
    "emit_manifest js (pieces MANIFEST_BATCH (map sf_entry sources)) = Inr manifest"
    "emit_files js allow 0 sources = Inr (data, files, skipped)"
    "emit_records models = Inr (records, stats_models, count)"
    "json_frame js TRAILER (payload_trailer stats_models count files (listed_skipped @ skipped)) = Inr ending"
    "out = PAYLOAD_MAGIC # header # manifest @ data @ records @ [ending]"
    "stats = py_get (payload_trailer stats_models count files (listed_skipped @ skipped)) ''stats''"
    using assms(1) by (auto simp: produce_def header_of_def Let_def split: if_splits)
  show ?thesis
    using E(1,2,6,7,8) emit_manifest_eq [OF E(3)] emit_files_eq [OF E(4) assms(2)] emit_records_eq [OF E(5)]
    by (simp add: trailer_of_def payload_frames_def json_frame_def frame_eq frame_fits_pair)
qed

lemma open_payload_coming:
  assumes "concat ps = PAYLOAD_MAGIC @ concat (map frame_bytes fs)" and "list_all frame_fits fs"
  shows "\<exists>pr. open_payload ps = Inr pr \<and> coming pr fs \<and>
    rest_fields pr = (PDict [], [], PDict [], Map.empty, 0, PhHeader)"
proof -
  let ?fr = "\<lparr>fr_pieces = ps, fr_buffer = [], fr_start = 0\<rparr>"
  have rest: "rest_of ?fr = PAYLOAD_MAGIC @ concat (map frame_bytes fs)" using assms(1) by (simp add: rest_of_def)
  obtain fr where fr: "take_bytes (length PAYLOAD_MAGIC) ?fr = Inr (take (length PAYLOAD_MAGIC) (rest_of ?fr), fr)"
    using take_bytes_eq(2) [of "length PAYLOAD_MAGIC" ?fr] rest by auto
  have "take (length PAYLOAD_MAGIC) (rest_of ?fr) = PAYLOAD_MAGIC" by (simp add: rest)
  moreover have "rest_of fr = concat (map frame_bytes fs)"
    using take_bytes_eq(1) [OF fr] by (simp add: rest)
  ultimately show ?thesis
    using fr assms(2) by (simp add: open_payload_def open_frames_def coming_def rest_fields_def)
qed

lemma read_header_coming:
  assumes "coming pr ((HEADER, dumps js v) # fs)" and "json_exact js [v]" and "pr_phase pr = PhHeader"
    and "checked_header v = Inr v"
  shows "\<exists>pr1. read_header js pr = Inr (v, pr1) \<and> coming pr1 fs \<and>
    rest_fields pr1 = rest_fields (pr\<lparr>pr_header := v, pr_phase := PhManifest,
      pr_rank := (let order = map py_text (py_items (py_get v ''order'')) in map_of (rev (zip order [0..<length order])))\<rparr>)"
proof -
  obtain pr1 where "pop_frame pr = Inr ((HEADER, dumps js v), pr1)" "coming pr1 fs" "rest_fields pr1 = rest_fields pr"
    using pop_coming [OF assms(1)] by blast
  then show ?thesis
    using assms(2-4) by (auto simp: read_header_def expect_phase_def parsed_def Let_def rest_fields_def)
qed

lemma read_trailer_coming:
  assumes "coming pr [(TRAILER, dumps js v)]" and "json_exact js [v]" and "pr_phase pr = PhTrailer"
    and "checked_trailer v = Inr v"
  shows "\<exists>pr1 pr2. read_trailer js pr = Inr (v, pr1) \<and> payload_finish pr1 = Inr pr2 \<and> pr_trailer pr2 = v"
proof -
  obtain pr1 where pr1: "pop_frame pr = Inr ((TRAILER, dumps js v), pr1)" "coming pr1 []" "rest_fields pr1 = rest_fields pr"
    using pop_coming [OF assms(1)] by blast
  have "rest_of (pr_frames pr1) = []" using pr1(2) by (auto simp: coming_def split: option.splits)
  then obtain fr where "next_frame (pr_frames pr1) = Inr (None, fr)"
    using next_frame_eq [of "pr_frames pr1"] by (auto simp: parse_frame_def)
  then show ?thesis
    using pr1 assms(2-4)
    by (auto simp: read_trailer_def payload_finish_def expect_phase_def parsed_def)
qed

lemma rank_of_order:
  assumes "distinct labels" and "i < length labels"
  shows "map_of (rev (zip labels [0..<length labels])) (labels ! i) = Some i"
proof -
  have "map fst (rev (zip labels [0..<length labels])) = rev labels" by (simp flip: rev_map)
  then have "distinct (map fst (rev (zip labels [0..<length labels])))" using assms(1) by simp
  moreover have "(labels ! i, i) \<in> set (rev (zip labels [0..<length labels]))"
    using assms(2) by (force simp: in_set_zip)
  ultimately show ?thesis by (rule map_of_is_SomeI)
qed

lemma read_frames_back:
  assumes "coming pr (payload_frames js about sources models trailer)"
    and "rest_fields pr = (PDict [], [], PDict [], Map.empty, 0, PhHeader)"
    and "json_exact js (written_values js about sources models trailer)" and "source_ok js about sources models" and "length sources \<le> MAX_FILES"
    and "checked_trailer trailer = Inr trailer"
  shows "\<exists>pr1 pr2 pr3 pr4 pr5 pr6. read_header js pr = Inr (header_of about models, pr1) \<and>
    read_manifest js pr1 = Inr (map (listed_entry \<circ> sf_entry) sources, pr2) \<and>
    read_files js pr2 = Inr (map (source_outcome js) sources, pr3) \<and>
    record_batches js True pr3 = Inr (map (\<lambda>b. Some (batch_records js b)) (concat (map snd models)), pr4) \<and>
    read_trailer js pr4 = Inr (trailer, pr5) \<and> payload_finish pr5 = Inr pr6 \<and> pr_trailer pr6 = trailer"
proof -
  let ?records = "batch_frames (concat (map snd models)) @ [(TRAILER, dumps js trailer)]"
  let ?files = "concat (map (\<lambda>(i, s). source_frames js i s) (enumerate 0 sources))"
  let ?manifest = "manifest_frames js (pieces MANIFEST_BATCH (map sf_entry sources))"
  have ok: "checked_header (header_of about models) = Inr (header_of about models)" "''order'' \<notin> fst ` set about"
      "list_all entry_ok (map sf_entry sources)" "reasons_given sources" "distinct (map fst models)"
      "\<forall>(label, batches) \<in> set models. list_all (batch_ok js label) batches"
    using assms(4) by (auto simp: source_ok_def list_all_iff reasons_given_def)
  have js: "json_exact js [header_of about models]" "json_exact js (map (\<lambda>batch. PList (map manifest_item batch)) (pieces MANIFEST_BATCH (map sf_entry sources)))"
      "json_exact js (map (\<lambda>(i, s). end_value js i s) (enumerate 0 sources))" "json_exact js [trailer]"
    using assms(3) by (simp_all add: written_values_def)
  obtain pr1 where H: "read_header js pr = Inr (header_of about models, pr1)" "coming pr1 (?manifest @ ?files @ ?records)"
      "rest_fields pr1 = rest_fields (pr\<lparr>pr_header := header_of about models, pr_phase := PhManifest,
        pr_rank := (let order = map py_text (py_items (py_get (header_of about models) ''order''))
                    in map_of (rev (zip order [0..<length order])))\<rparr>)"
    using read_header_coming [of pr js "header_of about models"] assms(1,2) js(1) ok(1)
    by (auto simp: payload_frames_def rest_fields_def)
  have order: "map py_text (py_items (py_get (header_of about models) ''order'')) = map fst models"
  proof -
    have "map_of (about @ [(''order'', PList (map (\<lambda>(label, _). PStr label) models))]) ''order''
        = Some (PList (map (\<lambda>(label, _). PStr label) models))"
      using ok(2) by (simp add: map_add_Some_iff map_of_eq_None_iff)
    then have "py_get (header_of about models) ''order'' = PList (map (\<lambda>(label, _). PStr label) models)"
      by (simp add: header_of_def py_get_def)
    then show ?thesis by (simp add: py_items_def py_text_def comp_def case_prod_beta)
  qed
  have rank: "pr_rank pr1 (fst (models ! i)) = Some (0 + i)" if "i < length models" for i
    using rank_of_order [of "map fst models" i] ok(5) that H(3) by (simp add: rest_fields_def order Let_def)
  have start: "pr_entries pr1 = []" "pr_phase pr1 = PhManifest" "pr_position pr1 = 0"
    using H(3) assms(2) by (simp_all add: rest_fields_def)
  have batches: "list_all (list_all entry_ok) (pieces MANIFEST_BATCH (map sf_entry sources))"
      "concat (pieces MANIFEST_BATCH (map sf_entry sources)) = map sf_entry sources"
  proof -
    show c: "concat (pieces MANIFEST_BATCH (map sf_entry sources)) = map sf_entry sources"
      by (rule concat_pieces) (simp add: MANIFEST_BATCH_def)
    have "list_all entry_ok (concat (pieces MANIFEST_BATCH (map sf_entry sources)))" unfolding c by (rule ok(3))
    then show "list_all (list_all entry_ok) (pieces MANIFEST_BATCH (map sf_entry sources))"
      by (auto simp: list_all_iff)
  qed
  obtain f fs where f: "?files @ ?records = f # fs" "fst f \<noteq> MANIFEST"
  proof (cases "?files @ ?records")
    case (Cons f fs)
    have "f \<in> set (?files @ ?records)" by (simp add: Cons del: set_append)
    then have "fst f \<noteq> MANIFEST" by (auto simp: source_frames_def batch_frames_def)
    then show ?thesis using Cons by (rule that [rotated])
  qed simp
  have m: "coming pr1 (?manifest @ f # fs)" using H(2) by (simp only: f(1))
  have len: "length (pr_entries pr1) + length (concat (pieces MANIFEST_BATCH (map sf_entry sources))) \<le> MAX_FILES"
    using assms(5) by (simp add: start batches(2))
  obtain pr2' where M: "manifest_loop js pr1 = Inr pr2'" "coming pr2' (f # fs)"
      "rest_fields pr2' = rest_fields (pr1\<lparr>pr_entries := pr_entries pr1 @ map listed_entry (concat (pieces MANIFEST_BATCH (map sf_entry sources)))\<rparr>)"
    using manifest_loop_coming [OF m f(2) js(2) batches(1) len] by blast
  let ?pr2 = "pr2'\<lparr>pr_phase := PhFiles\<rparr>"
  have entries: "length (pr_entries ?pr2) = length sources" using M(3) by (simp add: rest_fields_def start batches(2))
  have fc: "coming ?pr2 (?files @ ?records)" using M(2) by (simp add: f(1))
  have small: "0 + length sources \<le> 256 ^ 4" using assms(5) by (simp add: MAX_FILES_def)
  obtain pr3' es where F: "files_loop js [0..<0 + length sources] ?pr2 = Inr (map (source_outcome js) sources, pr3')"
      "coming pr3' ?records" "rest_fields pr3' = rest_fields (?pr2\<lparr>pr_entries := es\<rparr>)"
    using files_loop_coming [OF fc small js(3) ok(4)] by blast
  let ?pr3 = "pr3'\<lparr>pr_phase := PhRecords\<rparr>"
  have rc: "coming ?pr3 ?records" using F(2) by simp
  have ranks: "\<forall>i < length models. pr_rank ?pr3 (fst (models ! i)) = Some (0 + i)" "pr_position ?pr3 \<le> 0"
    using rank F(3) M(3) start by (simp_all add: rest_fields_def)
  obtain pr4' c where B: "batches_loop js True ?pr3 [] = batches_loop js True pr4' ([] @ map (\<lambda>b. Some (batch_records js b)) (concat (map snd models)))"
      "coming pr4' [(TRAILER, dumps js trailer)]" "rest_fields pr4' = rest_fields (?pr3\<lparr>pr_position := c\<rparr>)"
    using models_loop_coming [OF rc ok(6) ranks] by blast
  obtain pr5' where P: "peek_frame pr4' = Inr ((TRAILER, dumps js trailer), pr5')" "coming pr5' [(TRAILER, dumps js trailer)]"
    using peek_coming [OF B(2)] by blast
  have last: "batches_loop js True pr4' bs = Inr (bs, pr5')" for bs
    by (subst batches_loop.simps) (simp add: P(1))
  have tc: "coming (pr5'\<lparr>pr_phase := PhTrailer\<rparr>) [(TRAILER, dumps js trailer)]" using P(2) by simp
  obtain pr6 pr7 where T: "read_trailer js (pr5'\<lparr>pr_phase := PhTrailer\<rparr>) = Inr (trailer, pr6)" "payload_finish pr6 = Inr pr7"
      "pr_trailer pr7 = trailer"
    using read_trailer_coming [OF tc js(4) _ assms(6)] by auto
  have "pr_entries pr2' = map (listed_entry \<circ> sf_entry) sources" using M(3) by (simp add: rest_fields_def start batches(2))
  then have "read_manifest js pr1 = Inr (map (listed_entry \<circ> sf_entry) sources, ?pr2)"
    by (simp add: read_manifest_def expect_phase_def start M(1))
  moreover have "read_files js ?pr2 = Inr (map (source_outcome js) sources, ?pr3)"
    using F(1) entries by (simp add: read_files_def expect_phase_def)
  moreover have "record_batches js True ?pr3
      = Inr (map (\<lambda>b. Some (batch_records js b)) (concat (map snd models)), pr5'\<lparr>pr_phase := PhTrailer\<rparr>)"
    using B(1) last by (simp add: record_batches_def expect_phase_def)
  ultimately show ?thesis using H(1) T by blast
qed

text \<open>The run of the reader on a payload that was written, step by step.\<close>

lemma produced_is_read:
  assumes "produce js about listed_skipped sources allow models = Inr (out, stats)" and "concat ps = concat out"
    and "source_ok js about sources models"
    and "json_exact js (written_values js about sources models (trailer_of listed_skipped sources models))"
  shows "\<exists>pr pr1 pr2 pr3 pr4 pr5 pr6. open_payload ps = Inr pr \<and> read_header js pr = Inr (header_of about models, pr1) \<and>
    read_manifest js pr1 = Inr (map (listed_entry \<circ> sf_entry) sources, pr2) \<and>
    read_files js pr2 = Inr (map (source_outcome js) sources, pr3) \<and>
    record_batches js True pr3 = Inr (map (\<lambda>b. Some (batch_records js b)) (concat (map snd models)), pr4) \<and>
    read_trailer js pr4 = Inr (trailer_of listed_skipped sources models, pr5) \<and> payload_finish pr5 = Inr pr6 \<and>
    payload_stats pr6 = stats \<and> pr_trailer pr6 = trailer_of listed_skipped sources models"
proof -
  let ?t = "trailer_of listed_skipped sources models"
  have reasons: "reasons_given sources" using assms(3) by (auto simp: source_ok_def list_all_iff reasons_given_def)
  note P = produce_frames [OF assms(1) reasons]
  obtain pr where O: "open_payload ps = Inr pr" "coming pr (payload_frames js about sources models ?t)"
      "rest_fields pr = (PDict [], [], PDict [], Map.empty, 0, PhHeader)"
    using open_payload_coming [of ps "payload_frames js about sources models ?t"] assms(2) P by auto
  obtain pr1 pr2 pr3 pr4 pr5 pr6 where R: "read_header js pr = Inr (header_of about models, pr1)"
      "read_manifest js pr1 = Inr (map (listed_entry \<circ> sf_entry) sources, pr2)"
      "read_files js pr2 = Inr (map (source_outcome js) sources, pr3)"
      "record_batches js True pr3 = Inr (map (\<lambda>b. Some (batch_records js b)) (concat (map snd models)), pr4)"
      "read_trailer js pr4 = Inr (?t, pr5)" "payload_finish pr5 = Inr pr6" "pr_trailer pr6 = ?t"
    using read_frames_back [OF O(2,3) assms(4,3)] P checked_payload_trailer by (auto simp: trailer_of_def)
  have "payload_stats pr6 = stats"
    using P R(7) by (simp add: payload_stats_def trailer_of_def payload_trailer_def py_get_def)
  then show ?thesis using O(1) R by blast
qed

lemma produced_is_read_back:
  assumes "produce js about listed_skipped sources allow models = Inr (out, stats)" and "concat ps = concat out"
    and "source_ok js about sources models"
    and "json_exact js (written_values js about sources models (trailer_of listed_skipped sources models))"
  shows "read_payload js ps = Inr (stats, map (source_outcome js) sources,
    map (\<lambda>b. Some (batch_records js b)) (concat (map snd models)))"
proof -
  let ?t = "trailer_of listed_skipped sources models"
  have reasons: "reasons_given sources" and ok: "distinct (map fst models)"
      "\<forall>(label, batches) \<in> set models. list_all (batch_ok js label) batches"
    using assms(3) by (auto simp: source_ok_def list_all_iff reasons_given_def)
  note P = produce_frames [OF assms(1) reasons]
  obtain pr pr1 pr2 pr3 pr4 pr5 pr6 where R: "open_payload ps = Inr pr" "read_header js pr = Inr (header_of about models, pr1)"
      "read_manifest js pr1 = Inr (map (listed_entry \<circ> sf_entry) sources, pr2)"
      "read_files js pr2 = Inr (map (source_outcome js) sources, pr3)"
      "record_batches js True pr3 = Inr (map (\<lambda>b. Some (batch_records js b)) (concat (map snd models)), pr4)"
      "read_trailer js pr4 = Inr (?t, pr5)" "payload_finish pr5 = Inr pr6" "payload_stats pr6 = stats"
    using produced_is_read [OF assms] by blast
  let ?records = "concat (map (batch_records js) (concat (map snd models)))"
  have batches: "concat (List.map_filter id (map (\<lambda>b. Some (batch_records js b)) bs)) = concat (map (batch_records js) bs)" for bs
    by (simp add: map_filter_def comp_def)
  have labels: "distinct (map fst (map (\<lambda>(label, batches). (label, sum_list (map snd batches))) models))"
    using ok(1) by (simp add: comp_def case_prod_beta)
  have counts: "same_dict (recorded_counts stats) (count_models ?records [])"
    unfolding same_dict_iff
    by (rule ext) (use ok in \<open>simp add: P trailer_of_def recorded_counts_of_trailer [OF labels] map_of_count_models Let_def
      records_of_models [OF ok(2,1)] map_of_map split: option.splits\<close>)
  have records: "py_nat (py_get stats ''records'') = sum_list (map snd (count_models ?records []))"
    using P length_records_of_models [OF ok(2)]
    by (simp add: sum_count_models trailer_of_def payload_trailer_def py_get_def py_nat_def)
  have files: "py_nat (py_get stats ''files'') = length (filter (\<lambda>out. fo_skipped out = []) (map (source_outcome js) sources))"
  proof -
    have "fo_skipped (source_outcome js s) = [] \<longleftrightarrow> sf_skipped s = None" if "s \<in> set sources" for s
      using reasons that by (auto simp: source_outcome_def reasons_given_def split: option.splits)
    then show ?thesis
      using P by (simp add: filter_map comp_def trailer_of_def payload_trailer_def py_get_def py_nat_def cong: filter_cong)
  qed
  show ?thesis
    unfolding read_payload_def R(1) read_through_def
    using R(2-8) counts records files by (simp add: batches)
qed

text \<open>
  what a backup emits is what a restore or a verification reads. Take any run of \<^verbatim>\<open>_produce\<close> that
  succeeds, cut its output into pieces of any sizes, and let \<^verbatim>\<open>PayloadReader\<close> read it through: it
  accepts, every file has the chunks that were read from the source (or the reason it was skipped),
  every batch of records comes back in order, and the statistics are those \<^verbatim>\<open>_produce\<close> returned.
\<close>
theorem payload_read_back:
  assumes "produce js about listed_skipped sources allow models = Inr (out, stats)" and "concat ps = concat out"
    and "source_ok js about sources models"
    and "json_exact js (written_values js about sources models (trailer_of listed_skipped sources models))"
  shows "read_payload js ps = Inr (stats, map (source_outcome js) sources,
    map (\<lambda>b. Some (batch_records js b)) (concat (map snd models)))"
  by (rule produced_is_read_back [OF assms])

definition demo_values :: "py list" where
  "demo_values =
     [PDict [(''version'', PInt 2), (''created'', PStr ''2026-01-01''), (''order'', PList [PStr ''a.B'', PStr ''a.C''])],
      PList [PDict [(''kind'', PStr ''root''), (''size'', PInt 3), (''model'', PNone), (''pk'', PNone), (''field'', PNone),
                    (''name'', PStr ''f''), (''root'', PStr ''/srv'')],
             PDict [(''kind'', PStr ''root''), (''size'', PInt 9), (''model'', PNone), (''pk'', PNone), (''field'', PNone),
                    (''name'', PStr ''g''), (''root'', PStr ''/srv'')]],
      PDict [(''index'', PInt 0), (''size'', PInt 3), (''sha256'', PStr ''7d0b'')],
      PDict [(''index'', PInt 1), (''skipped'', PStr ''gone'')],
      PDict [(''stats'', PDict
        [(''models'', PList [PDict [(''model'', PStr ''a.B''), (''count'', PInt 0)],
                              PDict [(''model'', PStr ''a.C''), (''count'', PInt 1)]]),
         (''records'', PInt 1), (''files'', PInt 1), (''skipped_files'', PList [PStr ''g (gone)''])])]]"

definition demo_codec :: codec_of_json where
  "demo_codec =
     \<lparr>loads = (\<lambda>b. if length b = 1 \<and> unat (hd b) < length demo_values then Some (demo_values ! unat (hd b)) else None),
      loads_utf8 = (\<lambda>b. if b = [7, 7] then Some (PList [PDict [(''model'', PStr ''a.C''), (''pk'', PInt 5), (''fields'', PDict [])]])
                        else None),
      dumps = (\<lambda>v. [of_nat (length (takeWhile (\<lambda>w. w \<noteq> v) demo_values))]),
      sha256 = (\<lambda>b. if b = [1, 2, 3] then ''7d0b'' else ''e3b0'')\<rparr>"

definition demo_sources :: "source_file list" where
  "demo_sources =
     [\<lparr>sf_entry = \<lparr>fe_kind = ''root'', fe_size = 3, fe_sha256 = [], fe_model = PNone, fe_pk = PNone, fe_field = PNone,
                   fe_name = ''f'', fe_root = PStr ''/srv''\<rparr>, sf_described = ''f'', sf_chunks = [[1, 2], [3]], sf_skipped = None\<rparr>,
      \<lparr>sf_entry = \<lparr>fe_kind = ''root'', fe_size = 9, fe_sha256 = [], fe_model = PNone, fe_pk = PNone, fe_field = PNone,
                   fe_name = ''g'', fe_root = PStr ''/srv''\<rparr>, sf_described = ''g'', sf_chunks = [[4]], sf_skipped = Some ''gone''\<rparr>]"

definition demo_models :: "(string \<times> (bytes list \<times> nat) list) list" where
  "demo_models = [(''a.B'', []), (''a.C'', [([[7], [7]], 1)])]"

definition demo_output :: "bytes list \<times> py" where
  "demo_output = projr (produce demo_codec [(''created'', PStr ''2026-01-01'')] [] demo_sources True demo_models)"

lemma frame_small: "kind < 256 \<Longrightarrow> length body \<le> 1000 \<Longrightarrow> frame kind body = Inr (frame_bytes (kind, body))"
  by (subst frame_eq) (simp_all add: MAX_FRAME_BYTES_def)

lemma length_dumps_demo [simp]: "length (dumps demo_codec v) = 1"
  by (simp add: demo_codec_def)

lemma demo_frames:
  "pieces MANIFEST_BATCH (map sf_entry demo_sources) = [map sf_entry demo_sources]"
  "frame_parts RECORDS [[7], [7]] = Inr [[82] @ be_bytes 4 2 @ [7], [7]]"
proof -
  show "pieces MANIFEST_BATCH (map sf_entry demo_sources) = [map sf_entry demo_sources]"
    by (simp add: pieces_unfold MANIFEST_BATCH_def demo_sources_def)
  show "frame_parts RECORDS [[7], [7]] = Inr [[82] @ be_bytes 4 2 @ [7], [7]]"
    by (simp add: frame_parts_def MAX_FRAME_BYTES_def SMALL_PIECE_BYTES_def frame_prefix_eq RECORDS_def numeral_2_eq_2)
qed

lemma demo_produced:
  "produce demo_codec [(''created'', PStr ''2026-01-01'')] [] demo_sources True demo_models = Inr demo_output"
  "source_ok demo_codec [(''created'', PStr ''2026-01-01'')] demo_sources demo_models"
  "json_exact demo_codec (written_values demo_codec [(''created'', PStr ''2026-01-01'')] demo_sources demo_models
     (trailer_of [] demo_sources demo_models))"
proof -
  have "\<exists>x. produce demo_codec [(''created'', PStr ''2026-01-01'')] [] demo_sources True demo_models = Inr x"
    unfolding produce_def demo_frames(1)
    by (simp add: json_frame_def frame_small demo_models_def demo_frames(2) demo_sources_def file_data_frame_def FILE_INDEX_def
        file_end_frame_def Let_def MAX_FILES_def)
  then show "produce demo_codec [(''created'', PStr ''2026-01-01'')] [] demo_sources True demo_models = Inr demo_output"
    by (auto simp: demo_output_def)
  show "source_ok demo_codec [(''created'', PStr ''2026-01-01'')] demo_sources demo_models"
    by code_simp
  show "json_exact demo_codec (written_values demo_codec [(''created'', PStr ''2026-01-01'')] demo_sources demo_models
     (trailer_of [] demo_sources demo_models))"
    unfolding written_values_def demo_frames(1) by code_simp
qed

lemma demo_pieces: "concat (map (\<lambda>b. [b]) xs) = (xs :: bytes)"
  by (induction xs) simp_all

lemma demo_produced_pair:
  "produce demo_codec [(''created'', PStr ''2026-01-01'')] [] demo_sources True demo_models = Inr (fst demo_output, snd demo_output)"
  by (simp add: demo_produced(1))

lemma demo_read:
  "read_payload demo_codec (map (\<lambda>b. [b]) (concat (fst demo_output)))
    = Inr (snd demo_output, map (source_outcome demo_codec) demo_sources, [Some (batch_records demo_codec ([[7], [7]], 1))])"
  using produced_is_read_back [OF demo_produced_pair demo_pieces demo_produced(2,3)] by (simp add: demo_models_def)

lemma payload_read_back_witness:
  "read_payload demo_codec (map (\<lambda>b. [b]) (concat (fst demo_output)))
    = Inr (snd demo_output, map (source_outcome demo_codec) demo_sources, [Some (batch_records demo_codec ([[7], [7]], 1))])"
  using payload_read_back [OF demo_produced_pair demo_pieces demo_produced(2,3)] by (simp add: demo_models_def)

section \<open>Reading does not depend on the pieces\<close>

text \<open>
  the pieces in which decompression and decryption deliver the payload do not matter. Two sequences
  of pieces that carry the same bytes are read with the same result, the same error included.
\<close>
theorem payload_pieces_do_not_matter:
  assumes "concat ps = concat qs"
  shows "read_payload js ps = read_payload js qs"
  by (rule read_payload_pieces [OF assms])

lemma payload_pieces_do_not_matter_witness:
  "read_payload demo_codec [[68, 66], [83, 80, 65, 89, 48, 50]] = read_payload demo_codec [PAYLOAD_MAGIC]"
  by (rule payload_pieces_do_not_matter) (simp add: PAYLOAD_MAGIC_def)

section \<open>What is accepted is consistent\<close>

definition record_typed :: "py \<Rightarrow> bool" where
  "record_typed r \<longleftrightarrow> is_dict r \<and> is_dict (py_get r ''fields'') \<and> is_text (py_get r ''model'') \<and> is_scalar (py_get r ''pk'')"

lemma checked_records_loop_typed:
  "checked_records_loop rank current rs = Inr c \<Longrightarrow> list_all record_typed rs"
  by (induction rank current rs rule: checked_records_loop.induct)
    (auto simp: record_typed_def is_text_def rank_get_def split: if_splits option.splits py.splits)

definition batch_typed :: "py list option \<Rightarrow> bool" where
  "batch_typed batch = (case batch of Some rs \<Rightarrow> list_all record_typed rs | None \<Rightarrow> False)"

lemma read_batch_typed: "read_batch js True body pr = Inr (batch, pr') \<Longrightarrow> batch_typed batch"
proof -
  assume "read_batch js True body pr = Inr (batch, pr')"
  then obtain v rs position where "checked_records v (pr_rank pr) (pr_position pr) = Inr (rs, position)" "batch = Some rs"
    by (auto simp: read_batch_def)
  then show "batch_typed batch"
    by (cases v) (auto simp: checked_records_def batch_typed_def dest: checked_records_loop_typed)
qed

lemma batches_loop_typed:
  "batches_loop js True pr batches = Inr (bs, pr') \<Longrightarrow> list_all batch_typed batches \<Longrightarrow> list_all batch_typed bs"
proof (induction js "True" pr batches rule: batches_loop.induct)
  case (1 js pr batches)
  show ?case
  proof (cases "peek_frame pr")
    case (Inr f)
    obtain kind body pr1 where f: "f = ((kind, body), pr1)" by (metis surj_pair)
    show ?thesis
    proof (cases "kind = RECORDS")
      case False
      then show ?thesis using "1.prems" by (subst (asm) batches_loop.simps) (simp add: Inr f)
    next
      case True
      obtain k body2 pr2 batch pr3 where P: "pop_frame pr1 = Inr ((k, body2), pr2)" "read_batch js True body2 pr2 = Inr (batch, pr3)"
          "batches_loop js True pr3 (batches @ [batch]) = Inr (bs, pr')"
        using "1.prems"(1) True by (subst (asm) batches_loop.simps) (auto simp: Inr f split: sum.splits)
      show ?thesis
        using "1.hyps" [OF Inr [unfolded f] refl refl _ P(1) refl refl P(2) refl P(3)] True read_batch_typed [OF P(2)] "1.prems"(2) by simp
    qed
  qed (use "1.prems" in \<open>subst (asm) batches_loop.simps, simp\<close>)
qed

lemma read_payload_accepts:
  assumes "read_payload js ps = Inr (stats, outs, batches)"
  shows "list_all (outcome_checked js) outs \<and> list_all batch_typed batches \<and>
    map_of (recorded_counts stats) = map_of (count_models (concat (List.map_filter id batches)) []) \<and>
    py_nat (py_get stats ''records'') = sum_list (map snd (count_models (concat (List.map_filter id batches)) [])) \<and>
    py_nat (py_get stats ''files'') = length (filter (\<lambda>out. fo_skipped out = []) outs) \<and>
    (\<exists>trailer. checked_trailer trailer = Inr trailer \<and> stats = py_get trailer ''stats'')"
proof -
  obtain pr h pr1 es pr2 pr3 pr4 trailer pr5 pr6 where R: "read_header js pr = Inr (h, pr1)" "read_manifest js pr1 = Inr (es, pr2)"
      "read_files js pr2 = Inr (outs, pr3)" "record_batches js True pr3 = Inr (batches, pr4)"
      "read_trailer js pr4 = Inr (trailer, pr5)" "payload_finish pr5 = Inr pr6" "stats = payload_stats pr6"
      "same_dict (recorded_counts stats) (count_models (concat (List.map_filter id batches)) [])"
      "py_nat (py_get stats ''records'') = sum_list (map snd (count_models (concat (List.map_filter id batches)) []))"
      "py_nat (py_get stats ''files'') = length (filter (\<lambda>out. fo_skipped out = []) outs)"
    using assms by (auto simp: read_payload_def read_through_def Let_def split: if_splits)
  have "list_all (outcome_checked js) outs" using R(3) by (auto simp: read_files_def list_all_iff dest!: files_loop_ok)
  moreover have "list_all batch_typed batches"
    using R(4) by (auto simp: record_batches_def dest: batches_loop_typed)
  moreover have "checked_trailer trailer = Inr trailer \<and> stats = py_get trailer ''stats''"
  proof -
    obtain v where v: "checked_trailer v = Inr trailer" "pr_trailer pr5 = trailer"
      using R(5) by (auto simp: read_trailer_def split: if_splits)
    have t: "v = trailer" "is_dict (py_get trailer ''stats'')"
      using v(1) by (auto simp: checked_trailer_def Let_def is_dict_def split: if_splits)
    have "pr_trailer pr6 = trailer" using R(6) v(2) by (auto simp: payload_finish_def split: if_splits)
    then show ?thesis using t v(1) R(7) by (auto simp: payload_stats_def is_dict_def split: py.splits)
  qed
  ultimately show ?thesis using R(8-10) unfolding same_dict_iff by blast
qed

lemma checked_trailer_typed:
  "checked_trailer v = Inr t \<Longrightarrow> t = v \<and> is_dict (py_get v ''stats'') \<and> is_count (py_get (py_get v ''stats'') ''records'') \<and>
    is_count (py_get (py_get v ''stats'') ''files'') \<and> list_all is_text (py_items (py_get (py_get v ''stats'') ''skipped_files''))"
  unfolding checked_trailer_def Let_def by (cases "is_dict v") (simp_all add: is_dict_def [of PNone] split: if_splits)



text \<open>
  C22: the values a restore takes from an accepted payload have the shapes it relies on: every record is an
  object with an object of fields, a model label that is text and a plain primary key, and the
  statistics carry counts that are non-negative integers and a list of texts.
\<close>
theorem accepted_payload_is_well_typed:
  assumes "read_payload js ps = Inr (stats, outs, batches)"
  shows "list_all batch_typed batches \<and> is_dict stats \<and> is_count (py_get stats ''records'') \<and>
    is_count (py_get stats ''files'') \<and> list_all is_text (py_items (py_get stats ''skipped_files''))"
proof -
  obtain trailer where "checked_trailer trailer = Inr trailer" "stats = py_get trailer ''stats''"
    using read_payload_accepts [OF assms] by blast
  then show ?thesis
    using read_payload_accepts [OF assms] checked_trailer_typed [of trailer trailer] by simp
qed

lemma accepted_payload_is_well_typed_witness:
  "list_all batch_typed [Some (batch_records demo_codec ([[7], [7]], 1))] \<and> is_count (py_get (snd demo_output) ''records'')"
  using accepted_payload_is_well_typed [OF demo_read] by simp

section \<open>Errors of records\<close>

definition record_error :: "(string \<rightharpoonup> nat) \<Rightarrow> nat \<Rightarrow> py \<Rightarrow> exn option" where
  "record_error rank current r =
     (if \<not> is_dict r \<or> \<not> is_dict (py_get r ''fields'') then Some ContainerError
      else if \<not> is_scalar (py_get r ''model'') then Some TypeError
      else if \<not> is_text (py_get r ''model'') then Some ContainerError
      else case rank (py_text (py_get r ''model'')) of
             None \<Rightarrow> Some ContainerError
           | Some k \<Rightarrow> if k < current \<or> \<not> is_scalar (py_get r ''pk'') then Some ContainerError else None)"

lemma is_scalar_simps:
  "is_scalar PNone" "is_scalar (PBool b)" "is_scalar (PInt i)" "is_scalar (PFloat q)" "is_scalar PNonFinite"
  "is_scalar (PStr s)" "\<not> is_scalar (PList xs)" "\<not> is_scalar (PDict ps)"
  by (simp_all add: is_scalar_def)

lemma checked_records_loop_Cons:
  "checked_records_loop rank current (r # rs) =
     (case record_error rank current r of
        Some e \<Rightarrow> Inl e
      | None \<Rightarrow> checked_records_loop rank (the (rank (py_text (py_get r ''model'')))) rs)"
  by (cases "py_get r ''model''")
    (auto simp: record_error_def rank_get_def is_scalar_simps is_text_def py_text_def split: option.splits)

text \<open>
  the first faulty record of a batch decides the error. Reading a batch fails exactly when some
  record is faulty and all records before it are accepted, and then with that record's error:
  \<^verbatim>\<open>ContainerError\<close> for a wrong shape, an unknown model or a step back in the model order, but
  \<^verbatim>\<open>TypeError\<close> when the model of the record is a list or an object, which \<^verbatim>\<open>rank.get\<close> cannot hash.
\<close>
theorem first_faulty_record_decides:
  "checked_records_loop rank current rs = Inl e \<longleftrightarrow>
     (\<exists>before r after c. rs = before @ r # after \<and> checked_records_loop rank current before = Inr c \<and>
        record_error rank c r = Some e)"
proof (induction rs arbitrary: current)
  case (Cons r rs)
  show ?case
  proof (cases "record_error rank current r")
    case None
    let ?k = "the (rank (py_text (py_get r ''model'')))"
    have "checked_records_loop rank current (r # rs) = Inl e \<longleftrightarrow>
        (\<exists>before r' after c. rs = before @ r' # after \<and> checked_records_loop rank ?k before = Inr c \<and> record_error rank c r' = Some e)"
      by (simp add: checked_records_loop_Cons None Cons.IH del: checked_records_loop.simps)
    also have "\<dots> \<longleftrightarrow> (\<exists>before r' after c. r # rs = before @ r' # after \<and> checked_records_loop rank current before = Inr c \<and>
        record_error rank c r' = Some e)" (is "?L \<longleftrightarrow> ?R")
    proof
      assume ?L
      then obtain before r' after c where "rs = before @ r' # after" "checked_records_loop rank ?k before = Inr c"
          "record_error rank c r' = Some e" by blast
      then show ?R
        by (intro exI [of _ "r # before"] exI [of _ r'] exI [of _ after] exI [of _ c])
          (simp add: checked_records_loop_Cons None del: checked_records_loop.simps(2))
    next
      assume ?R
      then obtain before r' after c where R: "r # rs = before @ r' # after" "checked_records_loop rank current before = Inr c"
          "record_error rank c r' = Some e" by blast
      then obtain before' where "before = r # before'" using None by (cases before) auto
      then show ?L
        using R by (intro exI [of _ before'] exI [of _ r'] exI [of _ after] exI [of _ c])
          (simp add: checked_records_loop_Cons None del: checked_records_loop.simps(2))
    qed
    finally show ?thesis .
  next
    case (Some e')
    have "before = []" if "r # rs = before @ r' # after" "checked_records_loop rank current before = Inr c" for before r' after c
      using that Some by (cases before) (auto simp: checked_records_loop_Cons simp del: checked_records_loop.simps(2))
    then show ?thesis
      using Some by (fastforce simp: checked_records_loop_Cons simp del: checked_records_loop.simps(2))
  qed
qed simp

end
