(* ===== verification/PyText.thy ===== *)
theory PyText
  imports Errors "HOL-Library.Sublist"
begin

text \<open>
  Python text and the regular expressions the code checks text with. Text is a \<open>string\<close> of ASCII
  characters. A pattern \<^verbatim>\<open>^...$\<close> used with \<^verbatim>\<open>match\<close> is the predicate of what stands between the
  anchors, wrapped in \<open>until_dollar\<close>: without \<^verbatim>\<open>re.M\<close>, \<^verbatim>\<open>$\<close> matches at the end and also just before a final
  newline.
\<close>

section \<open>Characters\<close>

definition newline :: char where "newline = CHR 0x0A"
definition nul :: char where "nul = CHR 0x00"

abbreviation code_between :: "char \<Rightarrow> char \<Rightarrow> char \<Rightarrow> bool" where
  "code_between a c b \<equiv> of_char a \<le> (of_char c :: nat) \<and> of_char c \<le> (of_char b :: nat)"

definition is_digit :: "char \<Rightarrow> bool" where "is_digit c \<longleftrightarrow> code_between CHR ''0'' c CHR ''9''"
definition is_lower :: "char \<Rightarrow> bool" where "is_lower c \<longleftrightarrow> code_between CHR ''a'' c CHR ''z''"
definition is_upper :: "char \<Rightarrow> bool" where "is_upper c \<longleftrightarrow> code_between CHR ''A'' c CHR ''Z''"
definition is_alnum :: "char \<Rightarrow> bool" where "is_alnum c \<longleftrightarrow> is_digit c \<or> is_lower c \<or> is_upper c"
definition is_octal :: "char \<Rightarrow> bool" where "is_octal c \<longleftrightarrow> code_between CHR ''0'' c CHR ''7''"
definition is_hex :: "char \<Rightarrow> bool" where "is_hex c \<longleftrightarrow> is_digit c \<or> code_between CHR ''a'' c CHR ''f''"
definition is_printable :: "char \<Rightarrow> bool" where "is_printable c \<longleftrightarrow> code_between CHR '' '' c CHR ''~''"

text \<open>ASCII white space as \<^verbatim>\<open>str.strip\<close> and \<^verbatim>\<open>\s\<close> see it: tab to carriage return, the four separators, blank.\<close>

definition is_space :: "char \<Rightarrow> bool" where
  "is_space c \<longleftrightarrow> (let n = (of_char c :: nat) in (9 \<le> n \<and> n \<le> 13) \<or> (28 \<le> n \<and> n \<le> 32))"

definition lower_char :: "char \<Rightarrow> char" where
  "lower_char c = (if is_upper c then char_of (of_char c + 32 :: nat) else c)"

section \<open>Operations on text\<close>

fun text_split :: "char \<Rightarrow> string \<Rightarrow> string list" where
  "text_split c [] = [[]]"
| "text_split c (x # xs) =
     (if x = c then [] # text_split c xs
      else case text_split c xs of [] \<Rightarrow> [[x]] | y # ys \<Rightarrow> (x # y) # ys)"

fun text_join :: "string \<Rightarrow> string list \<Rightarrow> string" where
  "text_join sep [] = []"
| "text_join sep [x] = x"
| "text_join sep (x # y # ys) = x @ sep @ text_join sep (y # ys)"

definition text_lstrip :: "char \<Rightarrow> string \<Rightarrow> string" where "text_lstrip c s = dropWhile (\<lambda>x. x = c) s"
definition text_rstrip :: "char \<Rightarrow> string \<Rightarrow> string" where "text_rstrip c s = rev (dropWhile (\<lambda>x. x = c) (rev s))"
definition text_lower :: "string \<Rightarrow> string" where "text_lower s = map lower_char s"
definition strip_spaces :: "string \<Rightarrow> string" where
  "strip_spaces s = rev (dropWhile is_space (rev (dropWhile is_space s)))"
definition rstrip_spaces :: "string \<Rightarrow> string" where "rstrip_spaces s = rev (dropWhile is_space (rev s))"

text \<open>\<^verbatim>\<open>a in b\<close> for text.\<close>

definition text_in :: "string \<Rightarrow> string \<Rightarrow> bool" where "text_in a b \<longleftrightarrow> list_ex (\<lambda>t. prefix a t) (suffixes b)"

text \<open>\<^verbatim>\<open>str(n)\<close> of a non-negative integer, and \<^verbatim>\<open>int(s)\<close> of decimal digits.\<close>

fun digits_of :: "nat \<Rightarrow> string" where
  "digits_of n = (if n < 10 then [char_of (48 + n)] else digits_of (n div 10) @ [char_of (48 + n mod 10)])"

declare digits_of.simps [simp del]

definition text_of_int :: "int \<Rightarrow> string" where
  "text_of_int i = (if i < 0 then CHR ''-'' # digits_of (nat (- i)) else digits_of (nat i))"

definition digit_value :: "char \<Rightarrow> nat" where "digit_value c = of_char c - 48"

definition number_of_digits :: "string \<Rightarrow> nat" where
  "number_of_digits s = foldl (\<lambda>n c. 10 * n + digit_value c) 0 s"

text \<open>\<^verbatim>\<open>dict.fromkeys\<close>: the first occurrence of each element, in order.\<close>

definition unique_in_order :: "'a list \<Rightarrow> 'a list" where
  "unique_in_order xs = rev (remdups (rev xs))"

section \<open>Patterns\<close>

definition until_dollar :: "(string \<Rightarrow> bool) \<Rightarrow> string \<Rightarrow> bool" where
  "until_dollar p s \<longleftrightarrow> p s \<or> (s \<noteq> [] \<and> last s = newline \<and> p (butlast s))"

text \<open>\<^verbatim>\<open>[first][rest]{0,n}\<close>, and \<^verbatim>\<open>[class]{a,b}\<close>.\<close>

definition head_and_rest :: "(char \<Rightarrow> bool) \<Rightarrow> (char \<Rightarrow> bool) \<Rightarrow> nat \<Rightarrow> string \<Rightarrow> bool" where
  "head_and_rest first rest n s \<longleftrightarrow>
     (case s of [] \<Rightarrow> False | c # cs \<Rightarrow> first c \<and> list_all rest cs \<and> length cs \<le> n)"

definition between_times :: "(char \<Rightarrow> bool) \<Rightarrow> nat \<Rightarrow> nat \<Rightarrow> string \<Rightarrow> bool" where
  "between_times p a b s \<longleftrightarrow> list_all p s \<and> a \<le> length s \<and> length s \<le> b"

definition one_of :: "string \<Rightarrow> char \<Rightarrow> bool" where "one_of cs c \<longleftrightarrow> c \<in> set cs"

section \<open>Facts\<close>

lemma text_split_not_Nil [simp]: "text_split c s \<noteq> []"
  by (induction s) (auto split: list.splits)

lemma text_join_split: "text_join [c] (text_split c s) = s"
proof (induction s)
  case (Cons x xs)
  obtain y ys where y: "text_split c xs = y # ys" by (cases "text_split c xs") simp_all
  then show ?case using Cons by (cases ys) auto
qed simp

lemma text_split_no_sep: "x \<in> set (text_split c s) \<Longrightarrow> c \<notin> set x"
  by (induction s arbitrary: x) (auto split: list.splits if_splits)

lemma text_split_single: "c \<notin> set s \<Longrightarrow> text_split c s = [s]"
  by (induction s) auto

lemma text_split_append: "c \<notin> set a \<Longrightarrow> text_split c (a @ c # s) = a # text_split c s"
  by (induction a) auto

lemma text_split_join:
  "xs \<noteq> [] \<Longrightarrow> \<forall>x \<in> set xs. c \<notin> set x \<Longrightarrow> text_split c (text_join [c] xs) = xs"
  by (induction "[c]" xs rule: text_join.induct) (simp_all add: text_split_single text_split_append)

lemma set_text_split: "x \<in> set (text_split c s) \<Longrightarrow> set x \<subseteq> set s"
  by (induction s arbitrary: x) (fastforce split: list.splits if_splits)+

lemma set_text_join: "set (text_join sep xs) \<subseteq> set sep \<union> (\<Union> (set ` set xs))"
  by (induction sep xs rule: text_join.induct) auto

lemma set_unique_in_order [simp]: "set (unique_in_order xs) = set xs"
  by (simp add: unique_in_order_def)

lemma distinct_unique_in_order [simp]: "distinct (unique_in_order xs)"
  by (simp add: unique_in_order_def)

lemma until_dollar_I: "p s \<Longrightarrow> until_dollar p s"
  by (simp add: until_dollar_def)

lemma until_dollar_set:
  assumes "until_dollar p s" and "\<And>t. p t \<Longrightarrow> list_all q t"
  shows "\<forall>c \<in> set s. q c \<or> c = newline"
proof (cases "p s")
  case True
  then show ?thesis using assms(2) by (auto simp: list_all_iff)
next
  case False
  then have "s \<noteq> []" "last s = newline" "p (butlast s)" using assms(1) by (auto simp: until_dollar_def)
  then have "set s = set (butlast s) \<union> {newline}" "list_all q (butlast s)"
    using assms(2) by (metis append_butlast_last_id list.simps(15) set_append list.set(1))+
  then show ?thesis by (auto simp: list_all_iff)
qed

lemma until_dollar_hd:
  assumes "until_dollar p s" and "\<And>t. p t \<Longrightarrow> t \<noteq> [] \<and> q (hd t)"
  shows "s \<noteq> [] \<and> q (hd s)"
proof (cases "p s")
  case False
  then have s: "s \<noteq> []" "p (butlast s)" using assms(1) by (auto simp: until_dollar_def)
  then have "butlast s \<noteq> []" "q (hd (butlast s))" using assms(2) by blast+
  then show ?thesis using s(1) by (metis append_butlast_last_id hd_append2)
qed (use assms(2) in blast)

end
