(* ===== verification/AbsPath.thy ===== *)
theory AbsPath
  imports PyText
begin

text \<open>
  Absolute paths: \<^verbatim>\<open>src/dbs/manager/common/paths.py\<close> (\<^verbatim>\<open>absolute_path\<close>, with \<^verbatim>\<open>posixpath.normpath\<close> of the standard
  library) and the folders a user may open, \<^verbatim>\<open>src/dbs/manager/files/paths.py\<close>. A normalised path is
  determined by its components (\<open>path_of\<close>), and lying within a folder is being an extension of its components.
\<close>

section \<open>Normalising\<close>

abbreviation slash :: char where "slash \<equiv> CHR ''/''"
abbreviation dot_dot :: string where "dot_dot \<equiv> ''..''"

definition initial_slashes :: "string \<Rightarrow> nat" where
  "initial_slashes p =
     (if prefix ''//'' p \<and> \<not> prefix ''///'' p then 2 else if prefix ''/'' p then 1 else 0)"

fun normal_comps :: "nat \<Rightarrow> string list \<Rightarrow> string list \<Rightarrow> string list" where
  "normal_comps slashes new [] = new"
| "normal_comps slashes new (part # parts) =
     (if part = [] \<or> part = ''.'' then normal_comps slashes new parts
      else if part \<noteq> dot_dot \<or> (slashes = 0 \<and> new = []) \<or> (new \<noteq> [] \<and> last new = dot_dot)
      then normal_comps slashes (new @ [part]) parts
      else if new \<noteq> [] then normal_comps slashes (butlast new) parts
      else normal_comps slashes new parts)"

definition normpath :: "string \<Rightarrow> string" where
  "normpath p =
     (if p = [] then ''.''
      else let q = replicate (initial_slashes p) slash @
                     text_join ''/'' (normal_comps (initial_slashes p) [] (text_split slash p))
           in if q = [] then ''.'' else q)"

definition absolute_path :: "string \<Rightarrow> string option" where
  "absolute_path p =
     (if \<not> prefix ''/'' p \<or> nul \<in> set p \<or> dot_dot \<in> set (text_split slash p) then None
      else Some (slash # text_lstrip slash (normpath p)))"

section \<open>Folders a user may open\<close>

datatype path_error = NoAllowedFolders | ValidationError | PathOutsideRoots

record located =
  lc_path :: string
  lc_root :: string

definition posix_dirname :: "string \<Rightarrow> string" where
  "posix_dirname p =
     (let head = rev (dropWhile (\<lambda>c. c \<noteq> slash) (rev p))
      in if head \<noteq> [] \<and> \<not> list_all (\<lambda>c. c = slash) head then text_rstrip slash head else head)"

definition posix_basename :: "string \<Rightarrow> string" where
  "posix_basename p = rev (takeWhile (\<lambda>c. c \<noteq> slash) (rev p))"

definition located_parent :: "located \<Rightarrow> string option" where
  "located_parent loc = (if lc_path loc = lc_root loc then None else Some (posix_dirname (lc_path loc)))"

definition located_name :: "located \<Rightarrow> string" where
  "located_name loc = posix_basename (lc_path loc)"

definition allowed_roots :: "string list \<Rightarrow> string list" where
  "allowed_roots roots = unique_in_order (List.map_filter absolute_path roots)"

definition within :: "string \<Rightarrow> string \<Rightarrow> bool" where
  "within p root \<longleftrightarrow> p = root \<or> prefix (text_rstrip slash root @ ''/'') p"

text \<open>\<^verbatim>\<open>max(holding, key=len)\<close>: the first of the longest.\<close>

fun longest :: "string \<Rightarrow> string list \<Rightarrow> string" where
  "longest best [] = best"
| "longest best (x # xs) = longest (if length best < length x then x else best) xs"

definition locate :: "string \<Rightarrow> string list \<Rightarrow> path_error + located" where
  "locate typed roots =
     (if roots = [] then Inl NoAllowedFolders
      else case absolute_path typed of
             None \<Rightarrow> Inl ValidationError
           | Some p \<Rightarrow>
               (case filter (within p) roots of
                  [] \<Rightarrow> Inl PathOutsideRoots
                | root # rest \<Rightarrow> Inr \<lparr>lc_path = p, lc_root = longest root rest\<rparr>))"

definition resolved :: "string \<Rightarrow> string list \<Rightarrow> path_error + string" where
  "resolved answer real_roots =
     (case absolute_path answer of
        None \<Rightarrow> Inl PathOutsideRoots
      | Some p \<Rightarrow> if list_ex (within p) real_roots then Inr p else Inl PathOutsideRoots)"

definition NAME_MAX_BYTES :: nat where "NAME_MAX_BYTES = 255"

definition entry_name :: "string \<Rightarrow> string option" where
  "entry_name typed =
     (if typed = [] \<or> typed = ''.'' \<or> typed = dot_dot \<or> slash \<in> set typed \<or> CHR 0x5C \<in> set typed \<or>
         \<not> list_all is_printable typed then None
      else if NAME_MAX_BYTES < length typed then None
      else Some typed)"

section \<open>Components\<close>

definition clean_component :: "string \<Rightarrow> bool" where
  "clean_component c \<longleftrightarrow> c \<noteq> [] \<and> c \<noteq> ''.'' \<and> c \<noteq> dot_dot \<and> slash \<notin> set c"

definition path_components :: "string \<Rightarrow> string list" where
  "path_components p = filter (\<lambda>c. c \<noteq> [] \<and> c \<noteq> ''.'') (text_split slash p)"

definition path_of :: "string list \<Rightarrow> string" where
  "path_of cs = slash # text_join ''/'' cs"

lemma normal_comps_clean:
  "dot_dot \<notin> set parts \<Longrightarrow> normal_comps k new parts = new @ filter (\<lambda>c. c \<noteq> [] \<and> c \<noteq> ''.'') parts"
  by (induction k new parts rule: normal_comps.induct) auto

lemma text_join_Cons: "text_join sep (x # xs) = x @ (if xs = [] then [] else sep @ text_join sep xs)"
  by (cases xs) simp_all

lemma clean_ends: "clean_component c \<Longrightarrow> c \<noteq> [] \<and> hd c \<noteq> slash \<and> last c \<noteq> slash"
  using hd_in_set last_in_set by (fastforce simp: clean_component_def)

lemma text_join_hd: "cs \<noteq> [] \<Longrightarrow> \<forall>c \<in> set cs. clean_component c \<Longrightarrow> text_join ''/'' cs \<noteq> [] \<and> hd (text_join ''/'' cs) \<noteq> slash"
  using clean_ends by (cases cs) (auto simp: text_join_Cons)

lemma text_join_last: "cs \<noteq> [] \<Longrightarrow> \<forall>c \<in> set cs. clean_component c \<Longrightarrow> last (text_join ''/'' cs) \<noteq> slash"
proof (induction cs)
  case (Cons c cs)
  then show ?case using clean_ends [of c] text_join_hd [of cs] by (simp add: text_join_Cons)
qed simp

lemma lstrip_slashes:
  assumes "\<forall>c \<in> set cs. clean_component c"
  shows "text_lstrip slash (replicate k slash @ text_join ''/'' cs) = text_join ''/'' cs"
proof -
  have "dropWhile (\<lambda>x. x = slash) (text_join ''/'' cs) = text_join ''/'' cs"
    using text_join_hd [of cs] assms by (cases cs; cases "text_join ''/'' cs") auto
  then show ?thesis by (induction k) (simp_all add: text_lstrip_def)
qed

lemma absolute_path_Some:
  "absolute_path p = Some q \<longleftrightarrow> prefix ''/'' p \<and> nul \<notin> set p \<and> dot_dot \<notin> set (text_split slash p) \<and>
    q = path_of (path_components p)"
proof (cases "prefix ''/'' p \<and> nul \<notin> set p \<and> dot_dot \<notin> set (text_split slash p)")
  case True
  have clean: "\<forall>c \<in> set (path_components p). clean_component c"
    using True text_split_no_sep by (auto simp: path_components_def clean_component_def)
  have "p \<noteq> []" "initial_slashes p \<noteq> 0" using True by (auto simp: initial_slashes_def)
  then have "normpath p = replicate (initial_slashes p) slash @ text_join ''/'' (path_components p)"
    using True by (simp add: normpath_def normal_comps_clean path_components_def Let_def)
  then show ?thesis using True by (auto simp: absolute_path_def path_of_def lstrip_slashes [OF clean])
qed (auto simp: absolute_path_def)

lemma clean_components: "absolute_path p = Some q \<Longrightarrow> \<forall>c \<in> set (path_components p). clean_component c \<and> nul \<notin> set c"
  using text_split_no_sep subsetD [OF set_text_split [of _ slash p]]
  by (fastforce simp: absolute_path_Some path_components_def clean_component_def)

lemma split_path_of:
  assumes "\<forall>c \<in> set cs. clean_component c"
  shows "text_split slash (path_of cs) = [] # (if cs = [] then [[]] else cs)"
  using assms text_split_join [of cs slash] by (auto simp: path_of_def clean_component_def)

lemma components_path_of:
  assumes "\<forall>c \<in> set cs. clean_component c"
  shows "path_components (path_of cs) = cs"
proof -
  have "filter (\<lambda>c. c \<noteq> [] \<and> c \<noteq> ''.'') cs = cs" using assms by (auto simp: clean_component_def filter_id_conv)
  then show ?thesis using assms by (simp add: path_components_def split_path_of)
qed

lemma absolute_path_of:
  assumes "\<forall>c \<in> set cs. clean_component c \<and> nul \<notin> set c"
  shows "absolute_path (path_of cs) = Some (path_of cs)"
proof -
  have clean: "\<forall>c \<in> set cs. clean_component c" using assms by blast
  have "nul \<notin> set (path_of cs)" using set_text_join [of "''/''" cs] assms by (auto simp: path_of_def nul_def)
  moreover have "dot_dot \<notin> set (text_split slash (path_of cs))"
    using clean by (auto simp: split_path_of clean_component_def)
  ultimately show ?thesis
    unfolding absolute_path_Some by (simp add: components_path_of [OF clean]) (simp add: path_of_def)
qed

lemma path_of_inject:
  "\<forall>c \<in> set cs. clean_component c \<Longrightarrow> \<forall>c \<in> set ds. clean_component c \<Longrightarrow> path_of cs = path_of ds \<longleftrightarrow> cs = ds"
  using components_path_of by metis

lemma text_join_append:
  "xs \<noteq> [] \<Longrightarrow> ys \<noteq> [] \<Longrightarrow> text_join sep (xs @ ys) = text_join sep xs @ sep @ text_join sep ys"
  by (induction sep xs rule: text_join.induct) (auto simp: neq_Nil_conv)

lemma rstrip_path_of:
  assumes "\<forall>c \<in> set cs. clean_component c"
  shows "text_rstrip slash (path_of cs) = (if cs = [] then [] else path_of cs)"
proof (cases "cs = []")
  case False
  then have "text_join ''/'' cs \<noteq> []" "last (text_join ''/'' cs) \<noteq> slash"
    using text_join_hd text_join_last assms by blast+
  then have "rev (path_of cs) \<noteq> []" "hd (rev (path_of cs)) \<noteq> slash" by (simp_all add: path_of_def hd_rev)
  then have "dropWhile (\<lambda>x. x = slash) (rev (path_of cs)) = rev (path_of cs)" by (cases "rev (path_of cs)") auto
  then show ?thesis using False by (simp add: text_rstrip_def)
qed (simp add: text_rstrip_def path_of_def)

lemma split_join_append:
  "rs \<noteq> [] \<Longrightarrow> \<forall>r \<in> set rs. slash \<notin> set r \<Longrightarrow> text_split slash (text_join ''/'' rs @ slash # t) = rs @ text_split slash t"
proof (induction rs)
  case (Cons r rs)
  have r: "slash \<notin> set r" using Cons.prems(2) by simp
  show ?case
  proof (cases "rs = []")
    case True
    then show ?thesis using text_split_append [OF r] by simp
  next
    case False
    have "text_join ''/'' (r # rs) @ slash # t = r @ slash # (text_join ''/'' rs @ slash # t)"
      using False by (simp add: text_join_Cons)
    moreover have "text_split slash (text_join ''/'' rs @ slash # t) = rs @ text_split slash t"
      by (rule Cons.IH [OF False]) (use Cons.prems(2) in simp)
    ultimately show ?thesis using text_split_append [OF r] by (simp only: append_Cons)
  qed
qed simp

lemma within_components:
  assumes "\<forall>c \<in> set ps. clean_component c" and "\<forall>c \<in> set rs. clean_component c"
  shows "within (path_of ps) (path_of rs) \<longleftrightarrow> prefix rs ps"
proof (cases "rs = []")
  case True
  then show ?thesis by (simp add: within_def rstrip_path_of) (simp add: path_of_def)
next
  case False
  have "prefix (path_of rs @ ''/'') (path_of ps) \<longleftrightarrow> (\<exists>ts. ts \<noteq> [] \<and> ps = rs @ ts)"
  proof
    assume "prefix (path_of rs @ ''/'') (path_of ps)"
    then obtain t where t: "path_of ps = path_of rs @ slash # t" by (auto simp: prefix_def)
    have "text_join ''/'' ps = text_join ''/'' rs @ slash # t" using t by (simp add: path_of_def)
    moreover have "text_split slash (text_join ''/'' rs @ slash # t) = rs @ text_split slash t"
      using False assms(2) by (intro split_join_append) (auto simp: clean_component_def)
    moreover have "ps \<noteq> []" using t by (auto simp: path_of_def)
    then have "text_split slash (text_join ''/'' ps) = ps"
      by (rule text_split_join) (use assms(1) in \<open>auto simp: clean_component_def\<close>)
    ultimately have "ps = rs @ text_split slash t" by (simp only:)
    then show "\<exists>ts. ts \<noteq> [] \<and> ps = rs @ ts" by (intro exI [of _ "text_split slash t"] conjI text_split_not_Nil)
  next
    assume "\<exists>ts. ts \<noteq> [] \<and> ps = rs @ ts"
    then show "prefix (path_of rs @ ''/'') (path_of ps)"
      using False by (auto simp: path_of_def text_join_append)
  qed
  then show ?thesis
    using False path_of_inject [OF assms] by (auto simp: within_def rstrip_path_of [OF assms(2)] prefix_def)
qed

lemma longest_in: "longest best xs \<in> insert best (set xs)"
  by (induction best xs rule: longest.induct) auto

lemma longest_bound: "x \<in> insert best (set xs) \<Longrightarrow> length x \<le> length (longest best xs)"
proof (induction best xs arbitrary: x rule: longest.induct)
  case (2 best y xs)
  let ?b = "if length best < length y then y else best"
  have "length ?b \<le> length (longest ?b xs)" using "2.IH" by blast
  moreover have "length x \<le> length (longest ?b xs)" if "x \<in> set xs" using "2.IH" that by blast
  ultimately show ?case using "2.prems" by (auto split: if_splits)
qed simp

text \<open>
  \<^verbatim>\<open>absolute_path\<close> returns a canonical path. It starts with a slash, normalising it again changes nothing,
  and none of its components is empty, a dot, a double dot or contains a NUL character.
\<close>
theorem absolute_path_canonical:
  assumes "absolute_path p = Some q"
  shows "absolute_path q = Some q \<and> hd q = slash \<and> path_components q = path_components p \<and>
    list_all (\<lambda>c. clean_component c \<and> nul \<notin> set c) (path_components q)"
proof -
  have q: "q = path_of (path_components p)" using assms by (simp add: absolute_path_Some)
  note c = clean_components [OF assms]
  then show ?thesis
    using absolute_path_of [of "path_components p"] components_path_of [of "path_components p"]
    unfolding q by (simp add: path_of_def list_all_iff)
qed

lemma absolute_path_canonical_witness:
  "absolute_path ''/srv/app/media'' = Some ''/srv/app/media''"
  using absolute_path_canonical [of "''//srv/./app//media/''" "''/srv/app/media''"] by (simp add: absolute_path_def
      initial_slashes_def normpath_def nul_def text_lstrip_def Let_def)

text \<open>
  For normalised paths the textual test \<^verbatim>\<open>within\<close> is containment of folders: the components of the root are
  a prefix of the components of the path. A folder whose name merely extends the root's name is outside.
\<close>
theorem within_is_containment:
  assumes "absolute_path p = Some p" and "absolute_path root = Some root"
  shows "within p root \<longleftrightarrow> prefix (path_components root) (path_components p)"
  using within_components [of "path_components p" "path_components root"] clean_components [OF assms(1)]
    clean_components [OF assms(2)] assms by (simp add: absolute_path_Some)

lemma within_is_containment_witness: "\<not> within ''/srv/application'' ''/srv/app''"
  by (subst within_is_containment) (simp_all add: absolute_path_def initial_slashes_def normpath_def nul_def text_lstrip_def
      Let_def path_components_def)

text \<open>
  a path the Files page opens lies in an allowed folder. When \<^verbatim>\<open>locate\<close> returns, the path is normalised, the
  root is one of those configured, the path's components extend the root's, and no configured root that
  also holds the path is longer.
\<close>
theorem located_path_is_allowed:
  assumes "locate typed (allowed_roots roots) = Inr loc"
  shows "absolute_path typed = Some (lc_path loc) \<and> absolute_path (lc_path loc) = Some (lc_path loc) \<and>
    lc_root loc \<in> set (allowed_roots roots) \<and> prefix (path_components (lc_root loc)) (path_components (lc_path loc)) \<and>
    list_all (\<lambda>r. within (lc_path loc) r \<longrightarrow> length r \<le> length (lc_root loc)) (allowed_roots roots)"
proof -
  obtain p root rest where L: "absolute_path typed = Some p" "filter (within p) (allowed_roots roots) = root # rest"
      "loc = \<lparr>lc_path = p, lc_root = longest root rest\<rparr>"
    using assms by (auto simp: locate_def split: if_splits option.splits list.splits)
  have held: "lc_root loc \<in> set (filter (within p) (allowed_roots roots))" using longest_in [of root rest] by (simp add: L)
  have pp: "absolute_path p = Some p"
    using absolute_path_of [of "path_components typed"] clean_components [OF L(1)] L(1) by (simp add: absolute_path_Some)
  obtain r where r: "absolute_path r = Some (lc_root loc)"
    using held by (auto simp: allowed_roots_def map_filter_def)
  have rr: "absolute_path (lc_root loc) = Some (lc_root loc)"
    using absolute_path_of [of "path_components r"] clean_components [OF r] r by (simp add: absolute_path_Some)
  have "within (path_of (path_components p)) (path_of (path_components (lc_root loc)))"
    using held pp rr by (simp add: absolute_path_Some)
  then have "prefix (path_components (lc_root loc)) (path_components p)"
    using within_components clean_components [OF pp] clean_components [OF rr] by blast
  moreover have "length r' \<le> length (longest root rest)" if "r' \<in> set (allowed_roots roots)" "within p r'" for r'
      proof -
    have "r' \<in> set (filter (within p) (allowed_roots roots))" using that by simp
    then show ?thesis using longest_bound [of r' root rest] by (simp add: L(2))
  qed
  moreover have "lc_root loc \<in> set (allowed_roots roots)" using held by simp
  ultimately show ?thesis using L(1,3) pp by (simp add: list_all_iff)
qed

lemma located_path_is_allowed_witness:
  "prefix (path_components ''/srv'') (path_components ''/srv/app/x.txt'')"
proof -
  have "locate ''/srv//app/x.txt'' (allowed_roots [''/srv/'', ''/home'']) = Inr \<lparr>lc_path = ''/srv/app/x.txt'', lc_root = ''/srv''\<rparr>"
    by code_simp
  from located_path_is_allowed [OF this] show ?thesis by simp
qed

end
