(* ===== verification/Catalogue.thy ===== *)
theory Catalogue
  imports AbsPath
begin

text \<open>
  The commands a relocation runs, \<^verbatim>\<open>src/dbs/manager/relocation/catalogue.py\<close>: the patterns values must match,
  one builder per command, and \<^verbatim>\<open>privileged\<close>, which wraps a command for \<^verbatim>\<open>runuser\<close> or \<^verbatim>\<open>sudo\<close>. A builder
  returns the argument vector; nothing here runs. Arguments that do not match raise \<^verbatim>\<open>ValueError\<close>.
\<close>

section \<open>Patterns\<close>

definition sha256_ref :: "string \<Rightarrow> bool" where
  "sha256_ref s \<longleftrightarrow> prefix ''sha256:'' s \<and> between_times is_hex 64 64 (drop 7 s)"

definition IMAGE_REF :: "string \<Rightarrow> bool" where
  "IMAGE_REF = until_dollar (\<lambda>s. sha256_ref s \<or> head_and_rest is_alnum (\<lambda>c. is_alnum c \<or> one_of ''._/:@-'' c) 254 s)"

definition VOLUME :: "string \<Rightarrow> bool" where
  "VOLUME = until_dollar (head_and_rest is_alnum (\<lambda>c. is_alnum c \<or> one_of ''_.-'' c) 254)"

definition NETWORK :: "string \<Rightarrow> bool" where "NETWORK = VOLUME"

definition CONTAINER :: "string \<Rightarrow> bool" where
  "CONTAINER = until_dollar (head_and_rest is_alnum (\<lambda>c. is_alnum c \<or> one_of ''_.-'' c) 254)"

definition unit_name :: "string \<Rightarrow> string \<Rightarrow> bool" where
  "unit_name ext s \<longleftrightarrow> suffix ext s \<and>
     head_and_rest is_alnum (\<lambda>c. is_alnum c \<or> one_of ''@._-'' c) 99 (take (length s - length ext) s)"

definition UNIT :: "string \<Rightarrow> bool" where
  "UNIT = until_dollar (\<lambda>s. unit_name ''.service'' s \<or> unit_name ''.socket'' s \<or> unit_name ''.timer'' s)"

definition user_name :: "string \<Rightarrow> bool" where
  "user_name = head_and_rest (\<lambda>c. is_lower c \<or> c = CHR ''_'') (\<lambda>c. is_lower c \<or> is_digit c \<or> one_of ''_-'' c) 31"

definition USER :: "string \<Rightarrow> bool" where
  "USER = until_dollar (\<lambda>s. user_name s \<or> (s \<noteq> [] \<and> last s = CHR ''$'' \<and> user_name (butlast s)))"

definition NUMERIC :: "string \<Rightarrow> bool" where "NUMERIC = until_dollar (between_times is_digit 1 10)"

definition MODE :: "string \<Rightarrow> bool" where
  "MODE = until_dollar (\<lambda>s. s \<noteq> [] \<and> hd s = CHR ''0'' \<and> between_times is_octal 3 3 (tl s))"

definition FOLDER_MODE :: "string \<Rightarrow> bool" where "FOLDER_MODE = until_dollar (between_times is_octal 3 4)"

definition MODULE_STREAM :: "string \<Rightarrow> bool" where
  "MODULE_STREAM = until_dollar (\<lambda>s. case text_split CHR '':'' s of
     [a, b] \<Rightarrow> a \<noteq> [] \<and> list_all (\<lambda>c. is_lower c \<or> is_digit c \<or> c = CHR ''-'') a \<and> b \<noteq> [] \<and> list_all is_digit b
   | _ \<Rightarrow> False)"

text \<open>The two negative lookaheads: no leading dash, no component \<^verbatim>\<open>..\<close>.\<close>

definition RELATIVE :: "string \<Rightarrow> bool" where
  "RELATIVE = until_dollar (\<lambda>s. between_times (\<lambda>c. \<not> one_of ''*?[]'' c \<and> c \<noteq> newline \<and> c \<noteq> nul) 1 1024 s \<and>
     hd s \<noteq> CHR ''-'' \<and> dot_dot \<notin> set (text_split slash s))"

definition CONTAINER_USER :: "string \<Rightarrow> bool" where
  "CONTAINER_USER = until_dollar (\<lambda>s. let ps = text_split CHR '':'' s in length ps \<le> 2 \<and>
     list_all (between_times (\<lambda>c. is_alnum c \<or> one_of ''_.-'' c) 1 64) ps)"

definition LABEL_KEY :: "string \<Rightarrow> bool" where
  "LABEL_KEY = until_dollar (head_and_rest is_alnum (\<lambda>c. is_alnum c \<or> one_of ''._/-'' c) 254)"

definition PACKAGE :: "string \<Rightarrow> bool" where
  "PACKAGE = until_dollar (head_and_rest (\<lambda>c. is_lower c \<or> is_digit c) (\<lambda>c. is_lower c \<or> is_digit c \<or> one_of ''+._-'' c) 99)"

definition SERVICE_NAME :: "string \<Rightarrow> bool" where
  "SERVICE_NAME = until_dollar (head_and_rest is_alnum (\<lambda>c. is_alnum c \<or> one_of ''_.-'' c) 99)"

definition HOST_IP :: "string \<Rightarrow> bool" where
  "HOST_IP = until_dollar (between_times (\<lambda>c. is_hex c \<or> code_between CHR ''A'' c CHR ''F'' \<or> one_of ''.:[]'' c) 1 45)"

definition PROTOCOLS :: "string list" where "PROTOCOLS = [''tcp'', ''udp'', ''sctp'']"
definition RESTART_POLICIES :: "string list" where
  "RESTART_POLICIES = [''no'', ''always'', ''unless-stopped'', ''on-failure'']"
definition APT :: "string list" where
  "APT = [''env'', ''DEBIAN_FRONTEND=noninteractive'', ''NEEDRESTART_MODE=a'', ''apt-get'']"
definition APT_LOCK :: "string list" where "APT_LOCK = [''-o'', ''DPkg::Lock::Timeout=300'']"
definition SYSTEMCTL_VERBS :: "string list" where
  "SYSTEMCTL_VERBS = [''daemon-reload'', ''enable'', ''is-active'', ''reload'', ''restart'']"

section \<open>Commands\<close>

record command =
  cm_argv :: "string list"
  cm_cwd :: "string option"
  cm_env :: "(string \<times> string) list"
  cm_root :: bool
  cm_user :: string

definition plain :: "string list \<Rightarrow> command" where
  "plain argv = \<lparr>cm_argv = argv, cm_cwd = None, cm_env = [], cm_root = False, cm_user = []\<rparr>"

definition path :: "string \<Rightarrow> string result" where
  "path v = (case absolute_path v of
     None \<Rightarrow> Inl ValueError
   | Some cleaned \<Rightarrow> if newline \<in> set v \<or> nul \<in> set v then Inl ValueError else Inr cleaned)"

definition matched :: "(string \<Rightarrow> bool) \<Rightarrow> string \<Rightarrow> string result" where
  "matched pattern v = (if pattern v then Inr v else Inl ValueError)"

definition engine :: "string \<Rightarrow> string result" where
  "engine v = (if v \<in> {''docker'', ''podman''} then Inr v else Inl ValueError)"

text \<open>
  A tuple display evaluates its items from left to right and the first exception wins: \<open>words\<close>. \<open>lit\<close> are
  the items that are literals, \<open>pre t r\<close> an f-string that puts \<open>t\<close> before a checked value.
\<close>

fun words :: "string result list \<Rightarrow> string list result" where
  "words [] = Inr []"
| "words (r # rs) = and_then r (\<lambda>w. and_then (words rs) (\<lambda>ws. Inr (w # ws)))"

abbreviation lit :: "string list \<Rightarrow> string result list" where "lit \<equiv> map Inr"

definition pre :: "string \<Rightarrow> string result \<Rightarrow> string result" where "pre t r = and_then r (\<lambda>w. Inr (t @ w))"

definition command_of :: "bool \<Rightarrow> string result list \<Rightarrow> command result" where
  "command_of root rs = and_then (words rs) (\<lambda>argv. Inr ((plain argv)\<lparr>cm_root := root\<rparr>))"

abbreviation user_command :: "string result list \<Rightarrow> command result" where "user_command \<equiv> command_of False"
abbreviation root_command :: "string result list \<Rightarrow> command result" where "root_command \<equiv> command_of True"

section \<open>Archives, folders and files\<close>

definition exclusions :: "string list \<Rightarrow> string result list" where
  "exclusions = map (\<lambda>item. pre ''--exclude=./'' (matched RELATIVE item))"

definition tar_create :: "string \<Rightarrow> string list \<Rightarrow> bool \<Rightarrow> command result" where
  "tar_create folder excludes root = command_of root
     (lit [''tar'', ''--create'', ''--gzip'', ''--file'', ''-'', ''--anchored'', ''--no-wildcards''] @ exclusions excludes @
      [Inr ''--directory'', path folder] @ lit [''--'', ''.''])"

definition tar_create_member :: "string \<Rightarrow> string \<Rightarrow> bool \<Rightarrow> command result" where
  "tar_create_member folder name root = command_of root
     (lit [''tar'', ''--create'', ''--gzip'', ''--file'', ''-'', ''--directory''] @
      [path folder, Inr ''--'', matched RELATIVE name])"

definition tar_extract :: "string \<Rightarrow> string \<Rightarrow> bool \<Rightarrow> bool \<Rightarrow> command result" where
  "tar_extract archive into numeric root = command_of root
     (lit [''tar'', ''--extract'', ''--gzip'', ''--file''] @ [path archive, Inr ''--directory'', path into] @
      lit (if root then [''--same-owner''] else [''--no-same-owner'']) @ lit [''--same-permissions'', ''--keep-old-files''] @
      lit (if numeric \<and> root then [''--numeric-owner''] else []))"

definition free_space :: "string list \<Rightarrow> command result" where
  "free_space paths = user_command (lit [''df'', ''-P'', ''-B1'', ''--''] @ map path paths)"

text \<open>\<^verbatim>\<open>posixpath.join(a, b)\<close> of two parts.\<close>

definition posix_join :: "string \<Rightarrow> string \<Rightarrow> string" where
  "posix_join a b = (if prefix ''/'' b then b else if a = [] \<or> suffix ''/'' a then a @ b else a @ ''/'' @ b)"

definition disk_usage :: "string \<Rightarrow> string list \<Rightarrow> bool \<Rightarrow> command result" where
  "disk_usage folder excludes root = command_of root
     (lit [''du'', ''-s'', ''-b'', ''-x''] @
      map (\<lambda>item. pre ''--exclude='' (and_then (path folder) (\<lambda>f. and_then (matched RELATIVE item) (\<lambda>i. Inr (posix_join f i)))))
        excludes @
      [Inr ''--'', path folder])"

definition unreadable :: "string \<Rightarrow> command result" where
  "unreadable folder = user_command ([Inr ''find'', path folder] @ lit [''-xdev'', ''!'', ''-readable'', ''-print'', ''-quit''])"

definition make_folder :: "string \<Rightarrow> string \<Rightarrow> string \<Rightarrow> string \<Rightarrow> command result" where
  "make_folder folder mode owner grp = root_command
     (lit [''install'', ''-d'', ''-m''] @ [matched MODE mode, Inr ''-o'', matched NUMERIC owner, Inr ''-g'', matched NUMERIC grp,
        Inr ''--'', path folder])"

definition folder_owner :: "string \<Rightarrow> bool \<Rightarrow> command result" where
  "folder_owner folder root = command_of root (lit [''stat'', ''--format=%u:%g:%a'', ''--''] @ [path folder])"

definition own_folder :: "string \<Rightarrow> string \<Rightarrow> string \<Rightarrow> command result" where
  "own_folder folder uid gid = root_command
     (lit [''chown'', ''-h''] @
      [and_then (matched NUMERIC uid) (\<lambda>u. and_then (matched NUMERIC gid) (\<lambda>g. Inr (u @ '':'' @ g))), Inr ''--'', path folder])"

definition folder_mode :: "string \<Rightarrow> string \<Rightarrow> bool \<Rightarrow> command result" where
  "folder_mode folder mode root = command_of root [Inr ''chmod'', matched FOLDER_MODE mode, Inr ''--'', path folder]"

definition copy_new :: "string \<Rightarrow> string \<Rightarrow> command result" where
  "copy_new staged destination = root_command
     (lit [''cp'', ''-n'', ''-T'', ''--no-preserve=all'', ''--''] @ [path staged, path destination])"

definition make_readable :: "string \<Rightarrow> command result" where
  "make_readable file = root_command (lit [''chmod'', ''0644'', ''--''] @ [path file])"

definition remove_own_link :: "string \<Rightarrow> command result" where
  "remove_own_link link = root_command (lit [''rm'', ''--''] @ [path link])"

definition link_new :: "string \<Rightarrow> string \<Rightarrow> command result" where
  "link_new target link = root_command (lit [''ln'', ''-s'', ''-T'', ''--''] @ [path target, path link])"

definition remove_empty_folder :: "string \<Rightarrow> bool \<Rightarrow> command result" where
  "remove_empty_folder folder root = command_of root (lit [''rmdir'', ''--''] @ [path folder])"

definition place :: "string \<Rightarrow> string \<Rightarrow> bool \<Rightarrow> command result" where
  "place incoming destination root = command_of root (lit [''mv'', ''-T'', ''-n'', ''--''] @ [path incoming, path destination])"

definition own_user :: "string \<Rightarrow> string \<Rightarrow> string \<Rightarrow> command result" where
  "own_user folder from_uid to_uid = root_command
     (lit [''chown'', ''-R'', ''-h''] @ [pre ''--from='' (matched NUMERIC from_uid), matched NUMERIC to_uid, Inr ''--'', path folder])"

definition own_group :: "string \<Rightarrow> string \<Rightarrow> string \<Rightarrow> command result" where
  "own_group folder from_gid to_gid = root_command
     (lit [''chown'', ''-R'', ''-h''] @
      [pre ''--from=:'' (matched NUMERIC from_gid), pre '':'' (matched NUMERIC to_gid), Inr ''--'', path folder])"

definition restore_contexts :: "string \<Rightarrow> command result" where
  "restore_contexts folder = root_command (lit [''restorecon'', ''-R'', ''--''] @ [path folder])"

definition sha256_file :: "string \<Rightarrow> bool \<Rightarrow> command result" where
  "sha256_file file root = command_of root (lit [''sha256sum'', ''--''] @ [path file])"

section \<open>Facts about the host\<close>

definition uname_machine :: command where "uname_machine = plain [''uname'', ''-m'']"
definition user_ids :: command where "user_ids = plain [''id'']"
definition sudo_present :: command where "sudo_present = plain [''sudo'', ''--version'']"
definition sudo_without_password :: command where
  "sudo_without_password = plain [''sudo'', ''-n'', ''-k'', ''--'', ''true'']"
definition sudo_check :: command where "sudo_check = (plain [''true''])\<lparr>cm_root := True\<rparr>"
definition listening :: command where "listening = plain [''ss'', ''-H'', ''-t'', ''-l'', ''-n'']"
definition selinux_mode :: command where "selinux_mode = plain [''getenforce'']"
definition firewall_active :: command where "firewall_active = plain [''systemctl'', ''is-active'', ''firewalld'']"

section \<open>Packages\<close>

definition dpkg_installed :: "string list \<Rightarrow> command result" where
  "dpkg_installed pkgs = user_command
     (lit [''dpkg-query'', ''-W'', ''-f'', ''${Package}'' @ [CHR 0x09] @ ''${db:Status-Abbrev}'' @ [newline]] @ map (matched PACKAGE) pkgs)"

definition rpm_installed :: "string list \<Rightarrow> command result" where
  "rpm_installed pkgs = user_command
     (lit [''rpm'', ''-q'', ''--queryformat'', ''%{NAME}'' @ [newline]] @ map (matched PACKAGE) pkgs)"

definition apt_update :: command where "apt_update = (plain (APT @ APT_LOCK @ [''update'']))\<lparr>cm_root := True\<rparr>"

definition apt_install :: "string list \<Rightarrow> command result" where
  "apt_install pkgs = root_command
     (lit (APT @ APT_LOCK @ [''install'', ''-y'', ''--no-install-recommends'']) @ map (matched PACKAGE) pkgs)"

definition dnf_install :: "string list \<Rightarrow> command result" where
  "dnf_install pkgs = root_command (lit [''dnf'', ''install'', ''-y''] @ map (matched PACKAGE) pkgs)"

definition dnf_module_enable :: "string \<Rightarrow> command result" where
  "dnf_module_enable stream = root_command (lit [''dnf'', ''module'', ''enable'', ''-y''] @ [matched MODULE_STREAM stream])"

definition fetch_key :: "string \<Rightarrow> string \<Rightarrow> command result" where
  "fetch_key url destination =
     (if \<not> prefix ''https://download.docker.com/linux/'' url then Inl ValueError
      else user_command (lit [''curl'', ''-fsSL'', ''--proto'', ''=https'', ''--tlsv1.2'', ''-o''] @ [path destination, Inr url]))"

definition key_fingerprints :: "string \<Rightarrow> string \<Rightarrow> command result" where
  "key_fingerprints key home = user_command
     (lit [''gpg'', ''--batch'', ''--homedir''] @ [path home] @ lit [''--with-colons'', ''--show-keys''] @ [path key])"

definition rpm_import :: "string \<Rightarrow> command result" where
  "rpm_import key = root_command (lit [''rpm'', ''--import''] @ [path key])"

section \<open>Services and accounts\<close>

definition systemctl :: "string \<Rightarrow> string \<Rightarrow> bool \<Rightarrow> command result" where
  "systemctl verb unitname now =
     (if verb \<notin> set SYSTEMCTL_VERBS then Inl ValueError
      else root_command (lit [''systemctl'', verb] @ lit (if now then [''--now''] else []) @
        (if unitname \<noteq> [] then [matched UNIT (if CHR ''.'' \<in> set unitname then unitname else unitname @ ''.service'')] else [])))"

definition systemctl_user :: "string \<Rightarrow> string \<Rightarrow> string \<Rightarrow> bool \<Rightarrow> command result" where
  "systemctl_user verb unitname runtime_dir now =
     (if verb \<notin> set SYSTEMCTL_VERBS then Inl ValueError
      else and_then (user_command (lit [''systemctl'', ''--user'', verb] @ lit (if now then [''--now''] else []) @
             (if unitname \<noteq> [] then [matched UNIT unitname] else []))) (\<lambda>c.
           and_then (path runtime_dir) (\<lambda>d. Inr (c\<lparr>cm_env := [(''XDG_RUNTIME_DIR'', d)]\<rparr>))))"

definition enable_linger :: "string \<Rightarrow> command result" where
  "enable_linger user = root_command (lit [''loginctl'', ''enable-linger''] @ [matched USER user])"

definition add_to_group :: "string \<Rightarrow> string \<Rightarrow> command result" where
  "add_to_group user grp = root_command (lit [''usermod'', ''-aG''] @ [matched USER grp, matched USER user])"

definition add_subordinate_ids :: "string \<Rightarrow> int \<Rightarrow> int \<Rightarrow> command result" where
  "add_subordinate_ids user first count =
     (let span = text_of_int first @ ''-'' @ text_of_int (first + count - 1)
      in root_command (lit [''usermod'', ''--add-subuids'', span, ''--add-subgids'', span] @ [matched USER user]))"

definition add_system_user :: "string \<Rightarrow> command result" where
  "add_system_user user = root_command
     (lit [''useradd'', ''--system'', ''--no-create-home'', ''--shell'', ''/usr/sbin/nologin''] @ [matched USER user])"

definition nginx_test :: command where "nginx_test = (plain [''nginx'', ''-t''])\<lparr>cm_root := True\<rparr>"

section \<open>Databases\<close>

definition postgresql_init :: command where
  "postgresql_init = (plain [''env'', ''PGSETUP_INITDB_OPTIONS=--auth-host=scram-sha-256 --auth-local=peer'', ''postgresql-setup'',
     ''--initdb''])\<lparr>cm_root := True\<rparr>"

definition postgresql_shell :: command where
  "postgresql_shell = (plain [''psql'', ''-X'', ''-q'', ''-v'', ''ON_ERROR_STOP=1'', ''-d'', ''postgres''])
     \<lparr>cm_root := True, cm_user := ''postgres''\<rparr>"

definition postgresql_query :: "string \<Rightarrow> command" where
  "postgresql_query sql = (plain [''psql'', ''-X'', ''-tA'', ''-d'', ''postgres'', ''-c'', sql])\<lparr>cm_root := True, cm_user := ''postgres''\<rparr>"

definition mysql_query :: "string \<Rightarrow> command" where
  "mysql_query sql = (plain [''mysql'', ''--protocol=socket'', ''--user=root'', ''-N'', ''-e'', sql])\<lparr>cm_root := True\<rparr>"

definition mysql_shell :: command where
  "mysql_shell = (plain [''mysql'', ''--protocol=socket'', ''--user=root'', ''--batch''])\<lparr>cm_root := True\<rparr>"

section \<open>Container engines\<close>

definition engine_architecture :: "string \<Rightarrow> command result" where
  "engine_architecture name = user_command ([engine name] @ lit [''info'', ''--format'', ''{{.Architecture}}''])"

definition engine_version :: "string \<Rightarrow> command result" where
  "engine_version name = user_command [engine name, Inr ''version'']"

definition image_save :: "string \<Rightarrow> string \<Rightarrow> bool \<Rightarrow> command result" where
  "image_save name ref root = command_of root [engine name, Inr ''save'', matched IMAGE_REF ref]"

definition image_load :: "string \<Rightarrow> string \<Rightarrow> command result" where
  "image_load name archive = user_command ([engine name] @ lit [''load'', ''--input''] @ [path archive])"

definition image_facts :: "string \<Rightarrow> string \<Rightarrow> command result" where
  "image_facts name ref = user_command
     ([engine name] @ lit [''image'', ''inspect'', ''--format'', ''{{.Id}} {{.Size}} {{.Architecture}}''] @ [matched IMAGE_REF ref])"

definition volume_mountpoint :: "string \<Rightarrow> string \<Rightarrow> command result" where
  "volume_mountpoint name vol = user_command
     ([engine name] @ lit [''volume'', ''inspect'', ''--format'', ''{{.Mountpoint}}''] @ [matched VOLUME vol])"

definition label_value :: "string \<Rightarrow> string result" where
  "label_value v = (if newline \<in> set v \<or> nul \<in> set v \<or> 1024 < length v then Inl ValueError else Inr v)"

definition label_word :: "string \<times> string \<Rightarrow> string result" where
  "label_word kv = and_then (matched LABEL_KEY (fst kv)) (\<lambda>k. and_then (label_value (snd kv)) (\<lambda>v. Inr (k @ ''='' @ v)))"

definition label_words :: "(string \<times> string) list \<Rightarrow> string result list" where
  "label_words labels = concat (map (\<lambda>kv. [Inr ''--label'', label_word kv]) labels)"

text \<open>\<^verbatim>\<open>sorted(labels.items())\<close> is the given list: the caller's mapping is passed sorted by key.\<close>

definition volume_create :: "string \<Rightarrow> string \<Rightarrow> (string \<times> string) list \<Rightarrow> command result" where
  "volume_create name vol labels =
     and_then (words (label_words labels)) (\<lambda>flags.
       user_command ([engine name] @ lit [''volume'', ''create''] @ lit flags @ [matched VOLUME vol]))"

definition volume_export :: "string \<Rightarrow> command result" where
  "volume_export vol = user_command (lit [''podman'', ''volume'', ''export''] @ [matched VOLUME vol])"

definition volume_import :: "string \<Rightarrow> string \<Rightarrow> command result" where
  "volume_import vol archive = user_command (lit [''podman'', ''volume'', ''import''] @ [matched VOLUME vol, path archive])"

definition network_exists :: "string \<Rightarrow> string \<Rightarrow> command result" where
  "network_exists name network = user_command ([engine name] @ lit [''network'', ''inspect''] @ [matched NETWORK network])"

definition network_create :: "string \<Rightarrow> string \<Rightarrow> command result" where
  "network_create name network = user_command ([engine name] @ lit [''network'', ''create''] @ [matched NETWORK network])"

definition compose_up :: "string list \<Rightarrow> string list \<Rightarrow> string \<Rightarrow> command result" where
  "compose_up compose_argv services cwd =
     and_then (user_command (lit (compose_argv @ [''up'', ''-d'', ''--no-build'']) @ map (matched SERVICE_NAME) services)) (\<lambda>c.
     and_then (path cwd) (\<lambda>d. Inr (c\<lparr>cm_cwd := Some d\<rparr>)))"

section \<open>Running a container\<close>

record port =
  po_host_ip :: string
  po_host_port :: int
  po_container_port :: int
  po_protocol :: string

record mount =
  mo_kind :: string
  mo_source :: string
  mo_destination :: string
  mo_read_only :: bool

record container_spec =
  cs_engine :: string
  cs_name :: string
  cs_image :: string
  cs_env_file :: string
  cs_ports :: "port list"
  cs_mounts :: "mount list"
  cs_restart :: string
  cs_restart_retries :: int
  cs_network :: string
  cs_user :: string
  cs_workdir :: string
  cs_entrypoint :: "string list option"
  cs_command :: "string list option"
  cs_labels :: "(string \<times> string) list"

definition port_word :: "port \<Rightarrow> string result" where
  "port_word p =
     (if po_protocol p \<notin> set PROTOCOLS \<or>
         \<not> (0 < po_host_port p \<and> po_host_port p < 65536 \<and> 0 < po_container_port p \<and> po_container_port p < 65536)
      then Inl ValueError
      else if po_host_ip p \<noteq> [] \<and> \<not> HOST_IP (po_host_ip p) then Inl ValueError
      else Inr ((if po_host_ip p \<noteq> [] then po_host_ip p @ '':'' else []) @ text_of_int (po_host_port p) @ '':'' @
                text_of_int (po_container_port p) @ ''/'' @ po_protocol p))"

definition mount_word :: "mount \<Rightarrow> string result" where
  "mount_word m =
     and_then (if mo_kind m = ''bind'' then path (mo_source m) else matched VOLUME (mo_source m)) (\<lambda>source.
     and_then (path (mo_destination m)) (\<lambda>destination.
       Inr (source @ '':'' @ destination @ (if mo_read_only m then '':ro'' else []))))"

definition restart_word :: "container_spec \<Rightarrow> string result" where
  "restart_word spec =
     (if cs_restart spec \<notin> set RESTART_POLICIES then Inl ValueError
      else Inr (if cs_restart spec = ''on-failure'' \<and> 0 < cs_restart_retries spec
                then ''on-failure:'' @ text_of_int (cs_restart_retries spec) else cs_restart spec))"

definition argument :: "string \<Rightarrow> string result" where
  "argument v = (if nul \<in> set v \<or> 4096 < length v then Inl ValueError else Inr v)"

definition run_options :: "container_spec \<Rightarrow> (string \<times> string result) list" where
  "run_options spec =
     [(''--name'', matched CONTAINER (cs_name spec))] @
     (if cs_env_file spec \<noteq> [] then [(''--env-file'', path (cs_env_file spec))] else []) @
     map (\<lambda>p. (''--publish'', port_word p)) (cs_ports spec) @
     map (\<lambda>m. (''--volume'', mount_word m)) (cs_mounts spec) @
     [(''--restart'', restart_word spec)] @
     (if cs_network spec \<noteq> [] then [(''--network'', matched NETWORK (cs_network spec))] else []) @
     (if cs_user spec \<noteq> [] then [(''--user'', matched CONTAINER_USER (cs_user spec))] else []) @
     (if cs_workdir spec \<noteq> [] then [(''--workdir'', path (cs_workdir spec))] else []) @
     map (\<lambda>kv. (''--label'', label_word kv)) (cs_labels spec) @
     (case cs_entrypoint spec of
        None \<Rightarrow> []
      | Some [] \<Rightarrow> [(''--entrypoint'', Inr [])]
      | Some (e # _) \<Rightarrow> [(''--entrypoint'', Inr e)])"

definition run_arguments :: "container_spec \<Rightarrow> string list" where
  "run_arguments spec =
     (case cs_entrypoint spec of Some (_ # es) \<Rightarrow> es | _ \<Rightarrow> []) @
     (case cs_command spec of Some cs \<Rightarrow> cs | None \<Rightarrow> [])"

definition container_run :: "container_spec \<Rightarrow> command result" where
  "container_run spec = user_command
     ([engine (cs_engine spec)] @ lit [''run'', ''--detach''] @
      concat (map (\<lambda>(flag, v). [Inr flag, v]) (run_options spec)) @
      [Inr ''--'', matched IMAGE_REF (cs_image spec)] @ map argument (run_arguments spec))"

section \<open>Python and Git\<close>

definition pip_freeze :: "string \<Rightarrow> command result" where
  "pip_freeze python = user_command ([path python] @ lit [''-m'', ''pip'', ''freeze'', ''--all'', ''--exclude-editable''])"

definition pip_list :: "string \<Rightarrow> command result" where
  "pip_list python = user_command ([path python] @ lit [''-m'', ''pip'', ''list'', ''--format=json''])"

definition make_venv :: "string \<Rightarrow> string \<Rightarrow> command result" where
  "make_venv python folder = user_command ([path python] @ lit [''-m'', ''venv''] @ [path folder])"

definition pip_install :: "string \<Rightarrow> string \<Rightarrow> string \<Rightarrow> command result" where
  "pip_install python requirements cwd =
     and_then (user_command ([path python] @ lit [''-m'', ''pip'', ''install'', ''--no-input'', ''-r''] @ [path requirements])) (\<lambda>c.
     and_then (path cwd) (\<lambda>d. Inr (c\<lparr>cm_cwd := Some d\<rparr>)))"

definition git_head :: "string \<Rightarrow> command result" where
  "git_head folder = user_command (lit [''git'', ''-C''] @ [path folder] @ lit [''rev-parse'', ''HEAD''])"

section \<open>Running as root\<close>

definition ROOT :: string where "ROOT = ''root''"
definition NOPASSWD :: string where "NOPASSWD = ''nopasswd''"
definition PASSWORD :: string where "PASSWORD = ''password''"
definition MISSING :: string where "MISSING = ''missing''"

definition privileged :: "command \<Rightarrow> string \<Rightarrow> string list result" where
  "privileged c mode =
     (if \<not> cm_root c then Inr (cm_argv c)
      else and_then (if cm_user c \<noteq> [] then and_then (matched USER (cm_user c)) (\<lambda>u. Inr [''-u'', u]) else Inr []) (\<lambda>as_user.
        if mode = ROOT then Inr (if cm_user c \<noteq> [] then [''runuser'', ''-u'', cm_user c, ''--''] @ cm_argv c else cm_argv c)
        else if mode = NOPASSWD then Inr ([''sudo'', ''-n'', ''-k''] @ as_user @ [''--''] @ cm_argv c)
        else if mode = PASSWORD then Inr ([''sudo'', ''-S'', ''-p'', '''', ''-k''] @ as_user @ [''--''] @ cm_argv c)
        else Inl ValueError))"

definition needs_password_line :: "string list \<Rightarrow> bool" where
  "needs_password_line argv \<longleftrightarrow> take 2 argv = [''sudo'', ''-S'']"

end
