(* ===== verification/CatalogueSafe.thy ===== *)
theory CatalogueSafe
  imports Catalogue
begin

text \<open>
  What the catalogue guarantees about the commands it builds: no value from a caller becomes an option, no
  word carries a NUL, a container's image and arguments stand behind \<^verbatim>\<open>--\<close>, and \<^verbatim>\<open>privileged\<close> only puts a
  wrapper in front. \<open>built\<close> is the set of commands the builders return.
\<close>

section \<open>Words\<close>

text \<open>A bare word is not empty, is not read as an option and carries no NUL.\<close>

definition bare_word :: "string \<Rightarrow> bool" where
  "bare_word w \<longleftrightarrow> w \<noteq> [] \<and> hd w \<noteq> CHR ''-'' \<and> nul \<notin> set w"

definition own_options :: "string list" where
  "own_options =
   [''-'', ''--'', ''--add-subgids'', ''--add-subuids'', ''--all'', ''--anchored'', ''--batch'', ''--create'',
    ''--detach'', ''--directory'', ''--entrypoint'', ''--env-file'', ''--exclude-editable'', ''--extract'',
    ''--file'', ''--format'', ''--format=%u:%g:%a'', ''--format=json'', ''--gzip'', ''--homedir'', ''--import'',
    ''--initdb'', ''--input'', ''--keep-old-files'', ''--label'', ''--name'', ''--network'', ''--no-build'',
    ''--no-create-home'', ''--no-input'', ''--no-install-recommends'', ''--no-preserve=all'', ''--no-same-owner'',
    ''--no-wildcards'', ''--now'', ''--numeric-owner'', ''--proto'', ''--protocol=socket'', ''--publish'',
    ''--queryformat'', ''--restart'', ''--same-owner'', ''--same-permissions'', ''--shell'', ''--show-keys'',
    ''--system'', ''--tlsv1.2'', ''--user'', ''--user=root'', ''--version'', ''--volume'', ''--with-colons'',
    ''--workdir'', ''-B1'', ''-C'', ''-H'', ''-N'', ''-P'', ''-R'', ''-S'', ''-T'', ''-W'', ''-X'', ''-aG'',
    ''-b'', ''-c'', ''-d'', ''-e'', ''-f'', ''-fsSL'', ''-g'', ''-h'', ''-k'', ''-l'', ''-m'', ''-n'', ''-o'',
    ''-p'', ''-print'', ''-q'', ''-quit'', ''-r'', ''-readable'', ''-s'', ''-t'', ''-tA'', ''-u'', ''-v'', ''-x'',
    ''-xdev'', ''-y'']"

definition tame_word :: "string \<Rightarrow> bool" where
  "tame_word w \<longleftrightarrow> nul \<notin> set w \<and>
     (w \<noteq> [] \<and> hd w = CHR ''-'' \<longrightarrow> w \<in> set own_options \<or> prefix ''--exclude='' w \<or> prefix ''--from='' w)"

definition tame_result :: "string result \<Rightarrow> bool" where
  "tame_result r \<longleftrightarrow> (case r of Inr w \<Rightarrow> tame_word w | Inl e \<Rightarrow> True)"

named_theorems tame "words the catalogue may put into a command"

lemma tame_result_Inr [tame]: "tame_result (Inr w) = tame_word w"
  by (simp add: tame_result_def)

lemma bare_tame: "bare_word w \<Longrightarrow> tame_word w"
  by (simp add: bare_word_def tame_word_def)

lemma until_dollar_bare:
  assumes "until_dollar p s" and "\<And>t. p t \<Longrightarrow> bare_word t"
  shows "bare_word s"
proof -
  have "s \<noteq> [] \<and> hd s \<noteq> CHR ''-''"
    using until_dollar_hd [OF assms(1), of "\<lambda>c. c \<noteq> CHR ''-''"] assms(2) by (auto simp: bare_word_def)
  moreover have "\<forall>c \<in> set s. c \<noteq> nul \<or> c = newline"
    by (rule until_dollar_set [OF assms(1)]) (use assms(2) in \<open>fastforce simp: bare_word_def list_all_iff\<close>)
  moreover have "newline \<noteq> nul" by (simp add: newline_def nul_def)
  ultimately show ?thesis by (auto simp: bare_word_def)
qed

lemma class_not [simp]:
  "\<not> is_digit CHR ''-''" "\<not> is_digit CHR 0x00" "\<not> is_digit nul"
  "\<not> is_lower CHR ''-''" "\<not> is_lower CHR 0x00" "\<not> is_lower nul"
  "\<not> is_upper CHR ''-''" "\<not> is_upper CHR 0x00" "\<not> is_upper nul"
  "\<not> is_alnum CHR ''-''" "\<not> is_alnum CHR 0x00" "\<not> is_alnum nul"
  "\<not> is_octal CHR ''-''" "\<not> is_octal CHR 0x00" "\<not> is_octal nul"
  "\<not> is_hex CHR ''-''" "\<not> is_hex CHR 0x00" "\<not> is_hex nul"
  by (simp_all add: is_digit_def is_lower_def is_upper_def is_alnum_def is_octal_def is_hex_def nul_def)

lemma class_facts:
  "is_digit c \<Longrightarrow> c \<noteq> CHR ''-'' \<and> c \<noteq> nul" "is_alnum c \<Longrightarrow> c \<noteq> CHR ''-'' \<and> c \<noteq> nul"
  "is_octal c \<Longrightarrow> c \<noteq> CHR ''-'' \<and> c \<noteq> nul" "is_hex c \<Longrightarrow> c \<noteq> CHR ''-'' \<and> c \<noteq> nul"
  by auto

lemma one_of_not_nul: "nul \<notin> set cs \<Longrightarrow> one_of cs c \<Longrightarrow> c \<noteq> nul"
  by (auto simp: one_of_def)

lemma head_and_rest_bare:
  assumes "head_and_rest first rest n s" and "\<And>c. first c \<Longrightarrow> c \<noteq> CHR ''-'' \<and> c \<noteq> nul" and "\<And>c. rest c \<Longrightarrow> c \<noteq> nul"
  shows "bare_word s"
  using assms by (fastforce simp: head_and_rest_def bare_word_def list_all_iff split: list.splits)

lemma alnum_word_bare:
  assumes "until_dollar (head_and_rest is_alnum (\<lambda>c. is_alnum c \<or> one_of cs c) n) v" and "nul \<notin> set cs"
  shows "bare_word v"
  using assms(1)
  by (rule until_dollar_bare, elim head_and_rest_bare) (use assms(2) in \<open>auto simp: class_facts one_of_def\<close>)

lemma between_times_bare:
  assumes "between_times p a b s" and "0 < a" and "\<And>c. p c \<Longrightarrow> c \<noteq> CHR ''-'' \<and> c \<noteq> nul"
  shows "bare_word s"
  using assms by (cases s) (auto simp: between_times_def bare_word_def list_all_iff)

lemma matched_bare:
  "IMAGE_REF v \<Longrightarrow> bare_word v" "VOLUME v \<Longrightarrow> bare_word v" "NETWORK v \<Longrightarrow> bare_word v" "CONTAINER v \<Longrightarrow> bare_word v"
  "UNIT v \<Longrightarrow> bare_word v" "USER v \<Longrightarrow> bare_word v" "NUMERIC v \<Longrightarrow> bare_word v" "MODE v \<Longrightarrow> bare_word v"
  "FOLDER_MODE v \<Longrightarrow> bare_word v" "LABEL_KEY v \<Longrightarrow> bare_word v" "PACKAGE v \<Longrightarrow> bare_word v"
  "SERVICE_NAME v \<Longrightarrow> bare_word v" "RELATIVE v \<Longrightarrow> bare_word v"
proof -
  show "VOLUME v \<Longrightarrow> bare_word v" unfolding VOLUME_def by (erule alnum_word_bare) (simp add: nul_def)
  show "NETWORK v \<Longrightarrow> bare_word v" unfolding NETWORK_def VOLUME_def by (erule alnum_word_bare) (simp add: nul_def)
  show "CONTAINER v \<Longrightarrow> bare_word v" unfolding CONTAINER_def by (erule alnum_word_bare) (simp add: nul_def)
  show "LABEL_KEY v \<Longrightarrow> bare_word v" unfolding LABEL_KEY_def by (erule alnum_word_bare) (simp add: nul_def)
  show "SERVICE_NAME v \<Longrightarrow> bare_word v" unfolding SERVICE_NAME_def by (erule alnum_word_bare) (simp add: nul_def)
  show "PACKAGE v \<Longrightarrow> bare_word v" unfolding PACKAGE_def
    by (erule until_dollar_bare, erule head_and_rest_bare) (auto simp: class_facts one_of_def nul_def)
  show "NUMERIC v \<Longrightarrow> bare_word v" unfolding NUMERIC_def
    by (erule until_dollar_bare, erule between_times_bare) (auto simp: class_facts)
  show "FOLDER_MODE v \<Longrightarrow> bare_word v" unfolding FOLDER_MODE_def
    by (erule until_dollar_bare, erule between_times_bare) (auto simp: class_facts)
  show "IMAGE_REF v \<Longrightarrow> bare_word v" unfolding IMAGE_REF_def
  proof (erule until_dollar_bare, erule disjE)
    fix t assume "sha256_ref t"
    then obtain u where u: "t = ''sha256:'' @ u" "list_all is_hex u" by (auto simp: sha256_ref_def between_times_def prefix_def)
    then have "\<forall>c \<in> set u. c \<noteq> nul" using class_facts(4) by (auto simp: list_all_iff)
    then show "bare_word t" by (auto simp: u(1) bare_word_def nul_def)
  next
    fix t assume "head_and_rest is_alnum (\<lambda>c. is_alnum c \<or> one_of ''._/:@-'' c) 254 t"
    then show "bare_word t"
      by (rule head_and_rest_bare) (auto simp: class_facts one_of_def nul_def)
  qed
  show "UNIT v \<Longrightarrow> bare_word v" unfolding UNIT_def
  proof (erule until_dollar_bare)
    fix t assume "unit_name ''.service'' t \<or> unit_name ''.socket'' t \<or> unit_name ''.timer'' t"
    then obtain ext where ext: "ext \<in> {''.service'', ''.socket'', ''.timer''}" "unit_name ext t" by blast
    then obtain h where h: "t = h @ ext" "head_and_rest is_alnum (\<lambda>c. is_alnum c \<or> one_of ''@._-'' c) 99 h"
      by (auto simp: unit_name_def suffix_def)
    have "bare_word h" using h(2) by (rule head_and_rest_bare) (auto simp: class_facts one_of_def nul_def)
    moreover have "nul \<notin> set ext" using ext(1) by (auto simp: nul_def)
    ultimately show "bare_word t" by (auto simp: bare_word_def h(1))
  qed
  show "USER v \<Longrightarrow> bare_word v" unfolding USER_def
  proof (erule until_dollar_bare)
    fix t assume t: "user_name t \<or> t \<noteq> [] \<and> last t = CHR ''$'' \<and> user_name (butlast t)"
    have u: "bare_word w" if "user_name w" for w
      using that unfolding user_name_def by (rule head_and_rest_bare) (auto simp: class_facts one_of_def nul_def)
    show "bare_word t"
    proof (cases "user_name t")
      case False
      then have b: "bare_word (butlast t)" "t = butlast t @ ''$''" using t u append_butlast_last_id by fastforce+
      have "bare_word (butlast t @ ''$'')" using b(1) by (auto simp: bare_word_def nul_def)
      then show ?thesis using b(2) by simp
    qed (use u in blast)
  qed
  show "MODE v \<Longrightarrow> bare_word v" unfolding MODE_def
  proof (erule until_dollar_bare)
    fix t assume t: "t \<noteq> [] \<and> hd t = CHR ''0'' \<and> between_times is_octal 3 3 (tl t)"
    then have "set t = insert (CHR ''0'') (set (tl t))" "list_all is_octal (tl t)"
      by (metis list.set(2) list.collapse, auto simp: between_times_def)
    then show "bare_word t" using t class_facts(3) by (auto simp: bare_word_def list_all_iff nul_def)
  qed
  show "RELATIVE v \<Longrightarrow> bare_word v" unfolding RELATIVE_def
    by (erule until_dollar_bare) (auto simp: between_times_def bare_word_def list_all_iff)
qed

lemma path_bare: "path v = Inr w \<Longrightarrow> bare_word w \<and> newline \<notin> set w"
proof -
  assume "path v = Inr w"
  then have w: "absolute_path v = Some w" "newline \<notin> set v" "nul \<notin> set v"
    by (auto simp: path_def split: option.splits if_splits)
  have "set w \<subseteq> insert slash (set v)"
  proof -
    have "\<Union> (set ` set (path_components v)) \<subseteq> set v" using set_text_split by (fastforce simp: path_components_def)
    moreover have "w = slash # text_join ''/'' (path_components v)" using w(1) by (simp add: absolute_path_Some path_of_def)
    moreover have "set (text_join ''/'' (path_components v)) \<subseteq> set ''/'' \<union> \<Union> (set ` set (path_components v))" by (rule set_text_join)
    ultimately show ?thesis by (simp only: list.set) blast
  qed
  moreover have "w \<noteq> [] \<and> hd w = slash" using w(1) by (simp add: absolute_path_Some path_of_def)
  ultimately show ?thesis using w(2,3) by (auto simp: bare_word_def nul_def newline_def)
qed

lemma engine_bare: "engine v = Inr w \<Longrightarrow> bare_word w"
  by (auto simp: engine_def bare_word_def nul_def split: if_splits)

lemma tame_checked [tame]:
  "tame_result (path v)" "tame_result (engine v)" "tame_result (matched IMAGE_REF v)" "tame_result (matched VOLUME v)"
  "tame_result (matched NETWORK v)" "tame_result (matched CONTAINER v)" "tame_result (matched UNIT v)" "tame_result (matched USER v)"
  "tame_result (matched NUMERIC v)" "tame_result (matched MODE v)" "tame_result (matched FOLDER_MODE v)"
  "tame_result (matched PACKAGE v)" "tame_result (matched SERVICE_NAME v)" "tame_result (matched RELATIVE v)"
  "tame_result (matched LABEL_KEY v)"
  using path_bare [of v] engine_bare [of v] matched_bare [of v]
  by (auto simp: tame_result_def matched_def bare_tame split: sum.splits)

lemma label_word_tame [tame]: "tame_result (label_word kv)"
proof -
  have "tame_word (fst kv @ ''='' @ v)" if "LABEL_KEY (fst kv)" "nul \<notin> set v" for v
    using matched_bare(10) [OF that(1)] that(2) by (auto simp: bare_word_def tame_word_def nul_def)
  then show ?thesis
    by (auto simp: tame_result_def label_word_def matched_def label_value_def and_then_def split: sum.splits if_splits)
qed

lemma digits_of_set: "c \<in> set (digits_of n) \<Longrightarrow> is_digit c"
proof (induction n rule: digits_of.induct)
  case (1 n)
  have d: "is_digit (char_of (48 + m))" if "m < 10" for m :: nat using that by (simp add: is_digit_def)
  show ?case
    using 1 d [of n] d [of "n mod 10"] by (subst (asm) (2) digits_of.simps) (auto split: if_splits)
qed

lemma digits_of_not_Nil [simp]: "digits_of n \<noteq> []"
  by (subst digits_of.simps) simp

lemma text_of_nat_bare: "0 \<le> i \<Longrightarrow> bare_word (text_of_int i)"
  using digits_of_set [of _ "nat i"] class_facts(1) hd_in_set [OF digits_of_not_Nil, of "nat i"]
  by (auto simp: text_of_int_def bare_word_def)

lemma pre_tame [tame]:
  "tame_result (pre ''--from='' (matched NUMERIC v))" "tame_result (pre ''--from=:'' (matched NUMERIC v))"
  "tame_result (pre '':'' (matched NUMERIC v))" "tame_result (pre ''--exclude=./'' (matched RELATIVE v))"
  using matched_bare [of v]
  by (auto simp: tame_result_def pre_def matched_def tame_word_def bare_word_def nul_def)

lemma owner_pair_tame [tame]:
  "tame_result (and_then (matched NUMERIC u) (\<lambda>u. and_then (matched NUMERIC g) (\<lambda>g. Inr (u @ CHR '':'' # g))))"
  using matched_bare [of u] matched_bare [of g]
  by (auto simp: tame_result_def matched_def tame_word_def bare_word_def nul_def)

lemma exclusion_tame [tame]:
  "tame_result (pre ''--exclude='' (and_then (path f) (\<lambda>f. and_then (matched RELATIVE i) (\<lambda>i. Inr (posix_join f i)))))"
proof (cases "path f")
  case (Inr w)
  then show ?thesis
    using path_bare [OF Inr] matched_bare [of i]
    by (auto simp: tame_result_def pre_def matched_def tame_word_def bare_word_def nul_def posix_join_def)
qed (simp add: tame_result_def pre_def)

lemma words_tame: "words rs = Inr ws \<Longrightarrow> list_all tame_result rs \<Longrightarrow> list_all tame_word ws"
  by (induction rs arbitrary: ws) (auto simp: tame_result_def)

lemma words_length: "words rs = Inr ws \<Longrightarrow> length ws = length rs"
  by (induction rs arbitrary: ws) auto

lemma words_lit [simp]: "words (lit ws) = Inr ws"
  by (induction ws) simp_all

lemma words_append: "words (rs @ qs) = and_then (words rs) (\<lambda>ws. and_then (words qs) (\<lambda>vs. Inr (ws @ vs)))"
proof (induction rs)
  case Nil
  show ?case by (cases "words qs") simp_all
next
  case (Cons r rs)
  show ?case by (cases r; cases "words rs"; cases "words qs") (simp_all add: Cons)
qed

section \<open>Every command the builders return\<close>

definition tame_command :: "command \<Rightarrow> bool" where
  "tame_command c \<longleftrightarrow> cm_argv c \<noteq> [] \<and> list_all tame_word (cm_argv c) \<and>
     take 2 (cm_argv c) \<noteq> [''sudo'', ''-S''] \<and> (cm_user c = [] \<or> cm_user c = ''postgres'')"

inductive built :: "command \<Rightarrow> bool" where
  built_tar_create: "tar_create folder excludes root = Inr c \<Longrightarrow> built c"
| built_tar_create_member: "tar_create_member folder name root = Inr c \<Longrightarrow> built c"
| built_tar_extract: "tar_extract archive into numeric root = Inr c \<Longrightarrow> built c"
| built_free_space: "free_space paths = Inr c \<Longrightarrow> built c"
| built_disk_usage: "disk_usage folder excludes root = Inr c \<Longrightarrow> built c"
| built_unreadable: "unreadable folder = Inr c \<Longrightarrow> built c"
| built_make_folder: "make_folder folder mode owner grp = Inr c \<Longrightarrow> built c"
| built_folder_owner: "folder_owner folder root = Inr c \<Longrightarrow> built c"
| built_own_folder: "own_folder folder uid gid = Inr c \<Longrightarrow> built c"
| built_folder_mode: "folder_mode folder mode root = Inr c \<Longrightarrow> built c"
| built_copy_new: "copy_new staged destination = Inr c \<Longrightarrow> built c"
| built_make_readable: "make_readable file = Inr c \<Longrightarrow> built c"
| built_remove_own_link: "remove_own_link link = Inr c \<Longrightarrow> built c"
| built_link_new: "link_new target link = Inr c \<Longrightarrow> built c"
| built_remove_empty_folder: "remove_empty_folder folder root = Inr c \<Longrightarrow> built c"
| built_place: "place incoming destination root = Inr c \<Longrightarrow> built c"
| built_own_user: "own_user folder from_uid to_uid = Inr c \<Longrightarrow> built c"
| built_own_group: "own_group folder from_gid to_gid = Inr c \<Longrightarrow> built c"
| built_restore_contexts: "restore_contexts folder = Inr c \<Longrightarrow> built c"
| built_sha256_file: "sha256_file file root = Inr c \<Longrightarrow> built c"
| built_uname_machine: "built uname_machine"
| built_user_ids: "built user_ids"
| built_sudo_present: "built sudo_present"
| built_sudo_without_password: "built sudo_without_password"
| built_sudo_check: "built sudo_check"
| built_listening: "built listening"
| built_selinux_mode: "built selinux_mode"
| built_firewall_active: "built firewall_active"
| built_dpkg_installed: "dpkg_installed pkgs = Inr c \<Longrightarrow> built c"
| built_rpm_installed: "rpm_installed pkgs = Inr c \<Longrightarrow> built c"
| built_apt_update: "built apt_update"
| built_apt_install: "apt_install pkgs = Inr c \<Longrightarrow> built c"
| built_dnf_install: "dnf_install pkgs = Inr c \<Longrightarrow> built c"
| built_dnf_module_enable: "hd stream \<noteq> CHR ''-'' \<Longrightarrow> dnf_module_enable stream = Inr c \<Longrightarrow> built c"
| built_fetch_key: "nul \<notin> set url \<Longrightarrow> fetch_key url destination = Inr c \<Longrightarrow> built c"
| built_key_fingerprints: "key_fingerprints key home = Inr c \<Longrightarrow> built c"
| built_rpm_import: "rpm_import key = Inr c \<Longrightarrow> built c"
| built_systemctl: "systemctl verb unitname now = Inr c \<Longrightarrow> built c"
| built_systemctl_user: "systemctl_user verb unitname runtime_dir now = Inr c \<Longrightarrow> built c"
| built_enable_linger: "enable_linger user = Inr c \<Longrightarrow> built c"
| built_add_to_group: "add_to_group user grp = Inr c \<Longrightarrow> built c"
| built_add_subordinate_ids: "0 \<le> first \<Longrightarrow> 0 < count \<Longrightarrow> add_subordinate_ids user first count = Inr c \<Longrightarrow> built c"
| built_add_system_user: "add_system_user user = Inr c \<Longrightarrow> built c"
| built_nginx_test: "built nginx_test"
| built_postgresql_init: "built postgresql_init"
| built_postgresql_shell: "built postgresql_shell"
| built_mysql_shell: "built mysql_shell"
| built_engine_architecture: "engine_architecture name = Inr c \<Longrightarrow> built c"
| built_engine_version: "engine_version name = Inr c \<Longrightarrow> built c"
| built_image_save: "image_save name ref root = Inr c \<Longrightarrow> built c"
| built_image_load: "image_load name archive = Inr c \<Longrightarrow> built c"
| built_image_facts: "image_facts name ref = Inr c \<Longrightarrow> built c"
| built_volume_mountpoint: "volume_mountpoint name vol = Inr c \<Longrightarrow> built c"
| built_volume_create: "volume_create name vol labels = Inr c \<Longrightarrow> built c"
| built_volume_export: "volume_export vol = Inr c \<Longrightarrow> built c"
| built_volume_import: "volume_import vol archive = Inr c \<Longrightarrow> built c"
| built_network_exists: "network_exists name network = Inr c \<Longrightarrow> built c"
| built_network_create: "network_create name network = Inr c \<Longrightarrow> built c"
| built_pip_freeze: "pip_freeze python = Inr c \<Longrightarrow> built c"
| built_pip_list: "pip_list python = Inr c \<Longrightarrow> built c"
| built_make_venv: "make_venv python folder = Inr c \<Longrightarrow> built c"
| built_pip_install: "pip_install python requirements cwd = Inr c \<Longrightarrow> built c"
| built_git_head: "git_head folder = Inr c \<Longrightarrow> built c"

definition not_sudo :: "string result list \<Rightarrow> bool" where
  "not_sudo rs \<longleftrightarrow> (case rs of r1 # r2 # _ \<Rightarrow> r1 \<noteq> Inr ''sudo'' \<or> r2 \<noteq> Inr ''-S'' | _ \<Rightarrow> True)"

lemma not_sudo_words: "words rs = Inr ws \<Longrightarrow> not_sudo rs \<Longrightarrow> take 2 ws \<noteq> [''sudo'', ''-S'']"
  by (auto simp: not_sudo_def numeral_2_eq_2 split: list.splits)

lemma not_sudo_Cons [simp]: "not_sudo (r1 # r2 # rs) \<longleftrightarrow> r1 \<noteq> Inr ''sudo'' \<or> r2 \<noteq> Inr ''-S''"
  by (simp add: not_sudo_def)

lemma command_of_tame:
  assumes "command_of root rs = Inr c" and "list_all tame_result rs" and "rs \<noteq> []" and "not_sudo rs"
  shows "tame_command c"
proof -
  obtain ws where ws: "words rs = Inr ws" "c = (plain ws)\<lparr>cm_root := root\<rparr>" using assms(1) by (auto simp: command_of_def)
  have "ws \<noteq> []" using words_length [OF ws(1)] assms(3) by auto
  then show ?thesis using words_tame [OF ws(1) assms(2)] not_sudo_words [OF ws(1) assms(4)] by (simp add: tame_command_def ws(2) plain_def)
qed

lemma tame_plain [tame]: "c \<noteq> CHR ''-'' \<Longrightarrow> tame_word (c # w) \<longleftrightarrow> c \<noteq> nul \<and> nul \<notin> set w"
  by (auto simp: tame_word_def)

lemma own_options_tame: "list_all tame_word own_options"
  by code_simp

lemmas tame_options [tame] = own_options_tame [unfolded own_options_def list.pred_inject(2)]

lemma tame_exclusions [tame]: "list_all tame_result (exclusions items)"
  by (simp add: exclusions_def list_all_iff tame)

lemmas plain_builders =
  uname_machine_def user_ids_def sudo_present_def sudo_without_password_def sudo_check_def listening_def
  selinux_mode_def firewall_active_def apt_update_def nginx_test_def postgresql_init_def postgresql_shell_def
  mysql_shell_def

lemmas checked_builders =
  tar_create_def tar_create_member_def tar_extract_def free_space_def disk_usage_def unreadable_def
  make_folder_def folder_owner_def own_folder_def folder_mode_def copy_new_def make_readable_def
  remove_own_link_def link_new_def remove_empty_folder_def place_def own_user_def own_group_def
  restore_contexts_def sha256_file_def dpkg_installed_def rpm_installed_def apt_install_def dnf_install_def
  dnf_module_enable_def key_fingerprints_def rpm_import_def enable_linger_def add_to_group_def
  add_system_user_def engine_architecture_def engine_version_def image_save_def image_load_def image_facts_def
  volume_mountpoint_def volume_export_def volume_import_def network_exists_def network_create_def pip_freeze_def
  pip_list_def make_venv_def git_head_def

lemma tame_map [tame]: "(\<And>x. tame_result (f x)) \<Longrightarrow> list_all tame_result (map f xs)"
  by (simp add: list_all_iff)

lemma tame_command_update [simp]:
  "tame_command (c\<lparr>cm_cwd := d\<rparr>) = tame_command c" "tame_command (c\<lparr>cm_env := e\<rparr>) = tame_command c"
  by (simp_all add: tame_command_def)

lemma systemctl_verbs_tame: "verb \<in> set SYSTEMCTL_VERBS \<Longrightarrow> tame_word verb"
  by (auto simp: SYSTEMCTL_VERBS_def tame nul_def)

lemma special_builders_tame:
  "systemctl verb unitname now = Inr c \<Longrightarrow> tame_command c"
  "systemctl_user verb unitname runtime_dir now = Inr c \<Longrightarrow> tame_command c"
  "volume_create name vol labels = Inr c \<Longrightarrow> tame_command c"
  "pip_install python requirements cwd = Inr c \<Longrightarrow> tame_command c"
  "0 \<le> first \<Longrightarrow> 0 < count \<Longrightarrow> add_subordinate_ids user first count = Inr c \<Longrightarrow> tame_command c"
  "fetch_key url destination = Inr c \<Longrightarrow> nul \<notin> set url \<Longrightarrow> tame_command c"
proof -
  show "systemctl verb unitname now = Inr c \<Longrightarrow> tame_command c"
  proof -
    assume "systemctl verb unitname now = Inr c"
    then have "verb \<in> set SYSTEMCTL_VERBS" and c: "root_command (lit [''systemctl'', verb] @ lit (if now then [''--now''] else []) @
        (if unitname \<noteq> [] then [matched UNIT (if CHR ''.'' \<in> set unitname then unitname else unitname @ ''.service'')] else [])) = Inr c"
      by (simp_all only: systemctl_def split: if_splits) auto
    then show "tame_command c"
      by (intro command_of_tame [OF c]) (simp_all add: tame systemctl_verbs_tame nul_def split: if_split)
  qed
  show "systemctl_user verb unitname runtime_dir now = Inr c \<Longrightarrow> tame_command c"
  proof -
    assume u: "systemctl_user verb unitname runtime_dir now = Inr c"
    have v: "verb \<in> set SYSTEMCTL_VERBS" by (rule ccontr) (use u in \<open>simp add: systemctl_user_def\<close>)
    have "and_then (user_command (lit [''systemctl'', ''--user'', verb] @ lit (if now then [''--now''] else []) @
            (if unitname \<noteq> [] then [matched UNIT unitname] else [])))
          (\<lambda>b. and_then (path runtime_dir) (\<lambda>d. Inr (b\<lparr>cm_env := [(''XDG_RUNTIME_DIR'', d)]\<rparr>))) = Inr c"
      using u v by (simp only: systemctl_user_def not_not if_not_P)
    then obtain b d where b: "user_command (lit [''systemctl'', ''--user'', verb] @
        lit (if now then [''--now''] else []) @ (if unitname \<noteq> [] then [matched UNIT unitname] else [])) = Inr b"
        and c: "c = b\<lparr>cm_env := [(''XDG_RUNTIME_DIR'', d)]\<rparr>"
      unfolding and_then_eq_Inr by blast
    note v
    then have "tame_command b"
      by (intro command_of_tame [OF b]) (simp_all add: tame systemctl_verbs_tame nul_def split: if_split)
    then show "tame_command c" by (simp add: c)
  qed
  show "volume_create name vol labels = Inr c \<Longrightarrow> tame_command c"
  proof -
    assume "volume_create name vol labels = Inr c"
    then obtain flags where f: "words (label_words labels) = Inr flags"
        "user_command ([engine name] @ lit [''volume'', ''create''] @ lit flags @ [matched VOLUME vol]) = Inr c"
      by (auto simp: volume_create_def)
    have "list_all tame_result (label_words labels)" by (auto simp: label_words_def list_all_iff tame)
    then have "list_all tame_word flags" using words_tame f(1) by blast
    then show "tame_command c"
      by (intro command_of_tame [OF f(2)]) (auto simp: tame list_all_iff nul_def)
  qed
  show "pip_install python requirements cwd = Inr c \<Longrightarrow> tame_command c"
  proof -
    assume "pip_install python requirements cwd = Inr c"
    then obtain b d where b: "user_command ([path python] @ lit [''-m'', ''pip'', ''install'', ''--no-input'', ''-r''] @ [path requirements]) = Inr b"
        and c: "c = b\<lparr>cm_cwd := Some d\<rparr>"
      unfolding pip_install_def and_then_eq_Inr by auto
    have "tame_command b" by (intro command_of_tame [OF b]) (simp_all add: tame nul_def)
    then show "tame_command c" by (simp add: c)
  qed
  show "0 \<le> first \<Longrightarrow> 0 < count \<Longrightarrow> add_subordinate_ids user first count = Inr c \<Longrightarrow> tame_command c"
  proof -
    assume a: "0 \<le> first" "0 < count" "add_subordinate_ids user first count = Inr c"
    have "bare_word (text_of_int first @ ''-'' @ text_of_int (first + count - 1))"
      using text_of_nat_bare [of first] text_of_nat_bare [of "first + count - 1"] a(1,2) by (auto simp: bare_word_def nul_def)
    then show "tame_command c"
      using a(3) bare_tame unfolding add_subordinate_ids_def Let_def by (elim command_of_tame) (simp_all add: tame nul_def)
  qed
  show "fetch_key url destination = Inr c \<Longrightarrow> nul \<notin> set url \<Longrightarrow> tame_command c"
  proof -
    assume f: "fetch_key url destination = Inr c" "nul \<notin> set url"
    then have "prefix ''https://download.docker.com/linux/'' url"
      and c: "user_command (lit [''curl'', ''-fsSL'', ''--proto'', ''=https'', ''--tlsv1.2'', ''-o''] @ [path destination, Inr url]) = Inr c"
      by (simp_all add: fetch_key_def split: if_splits)
    then obtain u where "url = CHR ''h'' # u" by (auto simp: prefix_def)
    then have "tame_word url" using f(2) by (simp add: tame nul_def)
    then show "tame_command c" by (intro command_of_tame [OF c]) (simp_all add: tame nul_def)
  qed
qed

text \<open>The pattern of a module stream lets a dash come first, so this builder alone needs a condition.\<close>

lemma module_stream_may_start_with_a_dash: "matched MODULE_STREAM ''-x:1'' = Inr ''-x:1''"
  by code_simp

lemma module_stream_tame: "hd v \<noteq> CHR ''-'' \<Longrightarrow> dnf_module_enable v = Inr c \<Longrightarrow> tame_command c"
proof -
  assume v: "hd v \<noteq> CHR ''-''" "dnf_module_enable v = Inr c"
  have "bare_word v" if "MODULE_STREAM v"
  proof -
    have ok: "t \<noteq> [] \<and> list_all (\<lambda>c. c \<noteq> nul) t"
      if p: "case text_split CHR '':'' t of [a, b] \<Rightarrow> a \<noteq> [] \<and> list_all (\<lambda>c. is_lower c \<or> is_digit c \<or> c = CHR ''-'') a \<and>
            b \<noteq> [] \<and> list_all is_digit b | _ \<Rightarrow> False" for t
    proof -
      obtain a b where ab: "text_split CHR '':'' t = [a, b]" "a \<noteq> []" "list_all (\<lambda>c. is_lower c \<or> is_digit c \<or> c = CHR ''-'') a"
          "list_all is_digit b"
        using p by (auto split: list.splits)
      have "t = text_join [CHR '':''] [a, b]" using text_join_split [of "CHR '':''" t] ab(1) by simp
      then show ?thesis using ab(2-4) by (auto simp: list_all_iff nul_def)
    qed
    have "v \<noteq> []" using until_dollar_hd [OF that [unfolded MODULE_STREAM_def], of "\<lambda>_. True"] ok by blast
    moreover have "\<forall>c \<in> set v. c \<noteq> nul \<or> c = newline"
      by (rule until_dollar_set [OF that [unfolded MODULE_STREAM_def]]) (use ok in blast)
    ultimately show ?thesis using v(1) by (auto simp: bare_word_def nul_def newline_def)
  qed
  then have m: "tame_result (matched MODULE_STREAM v)" using bare_tame by (simp add: matched_def tame_result_def)
  show ?thesis
    by (rule command_of_tame [OF v(2) [unfolded dnf_module_enable_def]]) (simp_all add: m tame nul_def)
qed

lemma built_tame: "built c \<Longrightarrow> tame_command c"
  by (induction c rule: built.induct)
    ((simp only: checked_builders, erule command_of_tame, ((simp add: tame nul_def newline_def APT_def APT_LOCK_def split: if_split; fail)+))
     | (simp add: plain_builders tame_command_def plain_def tame nul_def APT_def APT_LOCK_def; fail)
     | (erule special_builders_tame module_stream_tame; assumption))+

lemma privileged_shape:
  assumes "built c" and "privileged c mode = Inr argv"
  shows "(\<exists>wrapper. argv = wrapper @ cm_argv c \<and> (wrapper = [] \<or> last wrapper = ''--'')) \<and>
    (cm_root c \<or> argv = cm_argv c) \<and> (needs_password_line argv \<longleftrightarrow> cm_root c \<and> mode = PASSWORD)"
proof (cases "cm_root c")
  case False
  then show ?thesis
    using assms built_tame [OF assms(1)] by (auto simp: privileged_def needs_password_line_def tame_command_def)
next
  case True
  have sudo: "take 2 (cm_argv c) \<noteq> [''sudo'', ''-S'']" using built_tame [OF assms(1)] by (simp add: tame_command_def)
  obtain as_user where u: "(if cm_user c \<noteq> [] then and_then (matched USER (cm_user c)) (\<lambda>u. Inr [''-u'', u]) else Inr []) = Inr as_user"
    using assms(2) True by (auto simp: privileged_def)
  consider "mode = ROOT" | "mode = NOPASSWD" | "mode = PASSWORD"
    using assms(2) True u by (auto simp: privileged_def split: if_splits)
  then show ?thesis
  proof cases
    case 1
    then have "argv = (if cm_user c \<noteq> [] then [''runuser'', ''-u'', cm_user c, ''--''] @ cm_argv c else cm_argv c)"
      using assms(2) True u by (simp add: privileged_def)
    then show ?thesis using 1 True sudo by (auto simp: needs_password_line_def ROOT_def PASSWORD_def)
  next
    case 2
    then have "argv = ([''sudo'', ''-n'', ''-k''] @ as_user @ [''--'']) @ cm_argv c"
      using assms(2) True u by (simp add: privileged_def ROOT_def NOPASSWD_def)
    then show ?thesis using 2 True by (auto simp: needs_password_line_def NOPASSWD_def PASSWORD_def)
  next
    case 3
    then have "argv = ([''sudo'', ''-S'', ''-p'', [], ''-k''] @ as_user @ [''--'']) @ cm_argv c"
      using assms(2) True u by (simp add: privileged_def ROOT_def NOPASSWD_def PASSWORD_def)
    then show ?thesis using 3 True by (auto simp: needs_password_line_def)
  qed
qed

end
