(* ===== verification/CatalogueProps.thy ===== *)
theory CatalogueProps
  imports CatalogueSafe
begin

text \<open>
  Properties of the relocation catalogue: the commands the builders return, the shape of
  \<^verbatim>\<open>container_run\<close>, the wrapper of \<^verbatim>\<open>privileged\<close>, and what the patterns let through.
\<close>



section \<open>Running a container\<close>

definition run_flags :: "string list" where
  "run_flags = [''--name'', ''--env-file'', ''--publish'', ''--volume'', ''--restart'', ''--network'', ''--user'', ''--workdir'',
     ''--label'', ''--entrypoint'']"

lemma words_pairs:
  "words (concat (map (\<lambda>(f, r). [Inr f, r]) xs)) = Inr ws \<Longrightarrow>
    \<exists>opts. ws = concat (map (\<lambda>(f, v). [f, v]) opts) \<and> map (\<lambda>(f, v). (f, Inr v)) opts = xs"
proof (induction xs arbitrary: ws)
  case (Cons x xs)
  obtain f r where x: "x = (f, r)" by (cases x)
  obtain v ws' where w: "r = Inr v" "words (concat (map (\<lambda>(f, r). [Inr f, r]) xs)) = Inr ws'" "ws = f # v # ws'"
    using Cons.prems by (auto simp: x)
  obtain opts where "ws' = concat (map (\<lambda>(f, v). [f, v]) opts)" "map (\<lambda>(f, v). (f, Inr v)) opts = xs"
    using Cons.IH [OF w(2)] by blast
  then show ?case by (intro exI [of _ "(f, v) # opts"]) (simp add: x w)
qed simp

lemma bare_append: "bare_word a \<Longrightarrow> nul \<notin> set b \<Longrightarrow> bare_word (a @ b)"
  by (auto simp: bare_word_def)

lemma port_word_bare: "port_word p = Inr w \<Longrightarrow> bare_word w"
proof -
  assume p: "port_word p = Inr w"
  have n: "bare_word (text_of_int (po_host_port p))" "bare_word (text_of_int (po_container_port p))"
    using p by (auto simp: port_word_def intro!: text_of_nat_bare split: if_splits)
  have proto: "nul \<notin> set (po_protocol p)" using p by (auto simp: port_word_def PROTOCOLS_def nul_def split: if_splits)
  have ip: "bare_word (po_host_ip p)" if "po_host_ip p \<noteq> []"
  proof -
    have "HOST_IP (po_host_ip p)" using p that by (auto simp: port_word_def split: if_splits)
    then show ?thesis unfolding HOST_IP_def
      by (rule until_dollar_bare, elim between_times_bare) (auto simp: one_of_def nul_def)
  qed
  show "bare_word w"
    using p n proto ip by (auto simp: port_word_def bare_word_def nul_def split: if_splits)
qed

lemma mount_word_bare: "mount_word m = Inr w \<Longrightarrow> bare_word w"
proof -
  assume "mount_word m = Inr w"
  then obtain s d where m: "(if mo_kind m = ''bind'' then path (mo_source m) else matched VOLUME (mo_source m)) = Inr s"
      "path (mo_destination m) = Inr d" "w = s @ '':'' @ d @ (if mo_read_only m then '':ro'' else [])"
    by (auto simp: mount_word_def)
  have "bare_word s" using m(1) path_bare matched_bare(2) by (auto simp: matched_def split: if_splits)
  moreover have "nul \<notin> set d" using path_bare [OF m(2)] by (simp add: bare_word_def)
  ultimately show "bare_word w" unfolding m(3) by (intro bare_append) (auto simp: nul_def)
qed

lemma restart_word_bare: "restart_word spec = Inr w \<Longrightarrow> bare_word w"
  using text_of_nat_bare [of "cs_restart_retries spec"]
  by (auto simp: restart_word_def RESTART_POLICIES_def bare_word_def nul_def split: if_splits)

lemma label_word_bare: "label_word kv = Inr w \<Longrightarrow> bare_word w"
  using matched_bare(10) [of "fst kv"]
  by (auto simp: label_word_def matched_def label_value_def nul_def bare_word_def split: if_splits)

lemma CONTAINER_USER_no_nul: "CONTAINER_USER v \<Longrightarrow> nul \<notin> set v"
proof -
  assume "CONTAINER_USER v"
  then have "\<forall>c \<in> set v. c \<noteq> nul \<or> c = newline" unfolding CONTAINER_USER_def
  proof (rule until_dollar_set)
    fix t :: string
    assume t: "let ps = text_split CHR '':'' t in length ps \<le> 2 \<and> list_all (between_times (\<lambda>c. is_alnum c \<or> one_of ''_.-'' c) 1 64) ps"
    have "set t \<subseteq> {CHR '':''} \<union> \<Union> (set ` set (text_split CHR '':'' t))"
      using set_text_join [of "[CHR '':'']" "text_split CHR '':'' t"] by (simp add: text_join_split)
    then show "list_all (\<lambda>c. c \<noteq> nul) t"
      using t by (fastforce simp: Let_def list_all_iff between_times_def one_of_def nul_def)
  qed
  then show "nul \<notin> set v" by (auto simp: newline_def nul_def)
qed

definition clean_value :: "string result \<Rightarrow> bool" where
  "clean_value r \<longleftrightarrow> (case r of Inr v \<Rightarrow> nul \<notin> set v | Inl e \<Rightarrow> True)"

lemma bare_no_nul: "bare_word w \<Longrightarrow> nul \<notin> set w"
  by (simp add: bare_word_def)

lemma clean_values [simp]:
  "clean_value (path v)" "clean_value (matched CONTAINER v)" "clean_value (matched NETWORK v)" "clean_value (matched IMAGE_REF v)"
  "clean_value (matched CONTAINER_USER v)" "clean_value (port_word p)" "clean_value (mount_word m)" "clean_value (restart_word spec)"
  "clean_value (label_word kv)"
  using path_bare [of v] matched_bare(1,3,4) [of v] CONTAINER_USER_no_nul [of v] port_word_bare [of p] mount_word_bare [of m]
    restart_word_bare [of spec] label_word_bare [of kv]
  by (auto simp: clean_value_def matched_def bare_no_nul split: sum.split)

definition known_option :: "string \<times> string result \<Rightarrow> bool" where
  "known_option opt \<longleftrightarrow> fst opt \<in> set run_flags \<and> (fst opt = ''--entrypoint'' \<or> clean_value (snd opt))"

lemma run_options_known: "list_all known_option (run_options spec)"
  by (cases "cs_entrypoint spec"; cases "the (cs_entrypoint spec)")
    (auto simp: run_options_def list_all_iff known_option_def run_flags_def clean_value_def [of "Inr _"] split: option.splits list.splits)

text \<open>
  the command line that starts a container has a fixed shape. It is the engine, \<^verbatim>\<open>run --detach\<close>, then pairs of a
  known flag and its value, then \<^verbatim>\<open>--\<close>, the image and the arguments of the entrypoint and the command. Every value but the
  entrypoint's is free of NUL, the image is a bare word, and no argument carries a NUL.
\<close>
theorem container_run_shape:
  assumes "container_run spec = Inr c"
  shows "\<exists>opts. cm_argv c = [cs_engine spec, ''run'', ''--detach''] @ concat (map (\<lambda>(f, v). [f, v]) opts) @
      [''--'', cs_image spec] @ run_arguments spec \<and>
    list_all (\<lambda>(f, v). f \<in> set run_flags \<and> (f = ''--entrypoint'' \<or> nul \<notin> set v)) opts \<and>
    bare_word (cs_image spec) \<and> list_all (\<lambda>a. nul \<notin> set a) (run_arguments spec) \<and> \<not> cm_root c"
proof -
  let ?opts = "concat (map (\<lambda>(f, r). [Inr f, r]) (run_options spec))"
  obtain ws where ws: "words ([engine (cs_engine spec)] @ lit [''run'', ''--detach''] @ ?opts @
        [Inr ''--'', matched IMAGE_REF (cs_image spec)] @ map argument (run_arguments spec)) = Inr ws" "c = plain ws"
    using assms by (auto simp: container_run_def command_of_def plain_def)
  then obtain os as where W: "engine (cs_engine spec) = Inr (cs_engine spec)" "words ?opts = Inr os" "IMAGE_REF (cs_image spec)"
      "words (map argument (run_arguments spec)) = Inr as"
      "ws = [cs_engine spec, ''run'', ''--detach''] @ os @ [''--'', cs_image spec] @ as"
    by (auto simp: words_append engine_def matched_def split: if_splits)
  obtain opts where opts: "os = concat (map (\<lambda>(f, v). [f, v]) opts)" "map (\<lambda>(f, v). (f, Inr v)) opts = run_options spec"
    using words_pairs [OF W(2)] by blast
  have args: "words (map argument xs) = Inr ys \<Longrightarrow> ys = xs \<and> list_all (\<lambda>a. nul \<notin> set a) xs" for xs ys
    by (induction xs arbitrary: ys) (auto simp: argument_def split: if_splits)
  have "list_all (\<lambda>(f, v). f \<in> set run_flags \<and> (f = ''--entrypoint'' \<or> nul \<notin> set v)) opts"
    using run_options_known [of spec] unfolding opts(2) [symmetric]
    by (auto simp: list_all_iff known_option_def clean_value_def)
  then show ?thesis
    using W(3,5) args [OF W(4)] opts(1) ws(2) matched_bare(1) by (intro exI [of _ opts]) (simp add: plain_def)
qed

definition demo_spec :: container_spec where
  "demo_spec = \<lparr>cs_engine = ''podman'', cs_name = ''web'', cs_image = ''nginx:1.27'', cs_env_file = [],
     cs_ports = [\<lparr>po_host_ip = ''127.0.0.1'', po_host_port = 81, po_container_port = 80, po_protocol = ''tcp''\<rparr>],
     cs_mounts = [\<lparr>mo_kind = ''bind'', mo_source = ''/srv/site'', mo_destination = ''/usr/share'', mo_read_only = True\<rparr>],
     cs_restart = ''no'', cs_restart_retries = 0, cs_network = [], cs_user = [], cs_workdir = [], cs_entrypoint = None,
     cs_command = Some [''-g'', ''daemon off;''], cs_labels = []\<rparr>"

lemma container_run_shape_witness:
  "\<exists>opts. [''podman'', ''run'', ''--detach'', ''--name'', ''web'', ''--publish'', ''127.0.0.1:81:80/tcp'', ''--volume'',
      ''/srv/site:/usr/share:ro'', ''--restart'', ''no'', ''--'', ''nginx:1.27'', ''-g'', ''daemon off;'']
    = [''podman'', ''run'', ''--detach''] @ concat (map (\<lambda>(f, v). [f, v]) opts) @ [''--'', ''nginx:1.27'', ''-g'', ''daemon off;'']"
proof -
  have c: "container_run demo_spec = Inr (plain [''podman'', ''run'', ''--detach'', ''--name'', ''web'', ''--publish'',
      ''127.0.0.1:81:80/tcp'', ''--volume'', ''/srv/site:/usr/share:ro'', ''--restart'', ''no'', ''--'', ''nginx:1.27'', ''-g'',
      ''daemon off;''])"
    by code_simp
  show ?thesis
    using container_run_shape [OF c] by (rule ex_forward) (simp add: plain_def demo_spec_def run_arguments_def)
qed

section \<open>Running as root\<close>

text \<open>
  \<^verbatim>\<open>privileged\<close> only puts a wrapper in front of the command. The command's own words follow unchanged, the
  wrapper ends with \<^verbatim>\<open>--\<close> so none of them is read as its option, a command that does not need root runs as it is, and
  the password line is asked for exactly when the command needs root and the mode is the one with a password.
\<close>
theorem privileged_wraps:
  assumes "built c" and "privileged c mode = Inr argv"
  shows "(\<exists>wrapper. argv = wrapper @ cm_argv c \<and> (wrapper = [] \<or> last wrapper = ''--'')) \<and>
    (cm_root c \<or> argv = cm_argv c) \<and> (needs_password_line argv \<longleftrightarrow> cm_root c \<and> mode = PASSWORD)"
  by (rule privileged_shape [OF assms])

lemma privileged_wraps_witness:
  "needs_password_line [''sudo'', ''-S'', ''-p'', [], ''-k'', ''--'', ''rm'', ''--'', ''/etc/nginx/old'']"
proof -
  have c: "remove_own_link ''/etc/nginx/old'' = Inr ((plain [''rm'', ''--'', ''/etc/nginx/old''])\<lparr>cm_root := True\<rparr>)" by code_simp
  have p: "privileged ((plain [''rm'', ''--'', ''/etc/nginx/old''])\<lparr>cm_root := True\<rparr>) PASSWORD
      = Inr [''sudo'', ''-S'', ''-p'', [], ''-k'', ''--'', ''rm'', ''--'', ''/etc/nginx/old'']" by code_simp
  show ?thesis using privileged_wraps [OF built_remove_own_link [OF c] p] by (simp add: plain_def)
qed

section \<open>What the patterns let through\<close>

text \<open>
  The anchors of the patterns do not exclude a final newline. A checked value is accepted as it is
  exactly when it matches between the anchors or is such a value with one newline behind it, for every pattern of the catalogue.
\<close>
lemma matched_accepts_final_newline:
  "matched (until_dollar p) v = (if p v \<or> (\<exists>t. v = t @ [newline] \<and> p t) then Inr v else Inl ValueError)"
proof -
  have "until_dollar p v \<longleftrightarrow> p v \<or> (\<exists>t. v = t @ [newline] \<and> p t)"
    unfolding until_dollar_def by (metis append_butlast_last_id last_snoc butlast_snoc snoc_eq_iff_butlast)
  then show ?thesis by (simp add: matched_def)
qed

lemma user_with_newline: "enable_linger (''www'' @ [newline]) = Inr ((plain [''loginctl'', ''enable-linger'', ''www'' @ [newline]])\<lparr>cm_root := True\<rparr>)"
  by code_simp

lemma entrypoint_word_unchecked:
  "container_run (demo_spec\<lparr>cs_entrypoint := Some [[nul]]\<rparr>) = Inr c \<Longrightarrow> [nul] \<in> set (cm_argv c)"
  by (auto simp: container_run_def command_of_def plain_def words_append run_options_def)

end
