(* ===== verification/Privileged.thy ===== *)
theory Privileged
  imports CatalogueSafe
begin

text \<open>
  Running commands as root on a server, \<^verbatim>\<open>src/dbs/manager/relocation/privileged.py\<close>: finding out how root is
  reached, checking the sudo password once, and handing the password only to \<^verbatim>\<open>sudo\<close>. The server is an
  argument \<open>remote\<close> that answers a request given what was asked before; \<open>None\<close> is the gateway raising
  \<^verbatim>\<open>RemoteCommandFailed\<close>. The session keeps the log of requests and answers.
\<close>

section \<open>Requests\<close>

datatype request_kind = Run | Feed string | Stream

record request =
  rq_kind :: request_kind
  rq_argv :: "string list"
  rq_cwd :: "string option"
  rq_env :: "(string \<times> string) list"
  rq_line :: "string option"

record remote_result =
  rr_exit_status :: int
  rr_stdout :: string
  rr_stderr :: string

definition rr_ok :: "remote_result \<Rightarrow> bool" where
  "rr_ok r \<longleftrightarrow> rr_exit_status r = 0"

type_synonym log = "(request \<times> remote_result option) list"
type_synonym remote = "log \<Rightarrow> request \<Rightarrow> remote_result option"

datatype refusal =
    SudoMissing | SudoNeedsTty | SudoPasswordRequired | SudoPasswordWrong
  | PrivilegedCommandFailed string | RemoteCommandFailed | NotAWayToRoot

definition request_of :: "request_kind \<Rightarrow> command \<Rightarrow> string list \<Rightarrow> string option \<Rightarrow> request" where
  "request_of kind c argv line = \<lparr>rq_kind = kind, rq_argv = argv, rq_cwd = cm_cwd c, rq_env = cm_env c, rq_line = line\<rparr>"

definition ask :: "remote \<Rightarrow> request \<Rightarrow> log \<Rightarrow> remote_result option \<times> log" where
  "ask remote rq log = (remote log rq, log @ [(rq, remote log rq)])"

definition quiet_run :: "remote \<Rightarrow> command \<Rightarrow> log \<Rightarrow> remote_result option \<times> log" where
  "quiet_run remote c = ask remote (request_of Run c (cm_argv c) None)"

definition sudo_mode :: "remote \<Rightarrow> log \<Rightarrow> string \<times> log" where
  "sudo_mode remote log =
     (let (found, log) = quiet_run remote user_ids log
      in if (case found of Some r \<Rightarrow> rr_ok r \<and> prefix ''uid=0('' (rr_stdout r) | None \<Rightarrow> False) then (ROOT, log)
      else let (present, log) = quiet_run remote sudo_present log
      in if (case present of None \<Rightarrow> True | Some r \<Rightarrow> rr_exit_status r = 127) then (MISSING, log)
      else let (free, log) = quiet_run remote sudo_without_password log
      in (if (case free of Some r \<Rightarrow> rr_ok r | None \<Rightarrow> False) then NOPASSWD else PASSWORD, log))"

section \<open>What is said when root is refused\<close>

definition WRONG_PASSWORD :: "string list" where
  "WRONG_PASSWORD = [''incorrect password'', ''sorry, try again'', ''authentication failure'']"
definition NEEDS_TTY :: "string list" where "NEEDS_TTY = [''must have a tty'', ''no tty present'']"
definition NO_PASSWORD_ALLOWED :: "string list" where "NO_PASSWORD_ALLOWED = [''a password is required'']"
definition OUTPUT_TAIL :: nat where "OUTPUT_TAIL = 500"

text \<open>\<^verbatim>\<open>text.replace(old, new)\<close> for a non-empty \<open>old\<close>: from the left, without overlap.\<close>

function text_replace :: "string \<Rightarrow> string \<Rightarrow> string \<Rightarrow> string" where
  "text_replace old new s =
     (if s = [] then []
      else if old \<noteq> [] \<and> prefix old s then new @ text_replace old new (drop (length old) s)
      else hd s # text_replace old new (tl s))"
  by pat_completeness auto
termination
  by (relation "measure (\<lambda>(old, new, s). length s)") auto

declare text_replace.simps [simp del]

definition scrubbed :: "string \<Rightarrow> string \<Rightarrow> string" where
  "scrubbed text secret =
     (let stripped = strip_spaces text; tail = drop (length stripped - OUTPUT_TAIL) stripped
      in if secret \<noteq> [] then text_replace secret ''***'' tail else tail)"

definition refusal_of :: "remote_result \<Rightarrow> string \<Rightarrow> refusal" where
  "refusal_of r secret =
     (let output = (if rr_stderr r \<noteq> [] then rr_stderr r else rr_stdout r); said = text_lower output
      in if list_ex (\<lambda>phrase. text_in phrase said) NEEDS_TTY then SudoNeedsTty
         else if list_ex (\<lambda>phrase. text_in phrase said) WRONG_PASSWORD then SudoPasswordWrong
         else if list_ex (\<lambda>phrase. text_in phrase said) NO_PASSWORD_ALLOWED then SudoPasswordRequired
         else PrivilegedCommandFailed (scrubbed output secret))"

section \<open>The session\<close>

record session =
  pv_mode :: string
  pv_password :: string
  pv_verified :: bool
  pv_log :: log

definition pv_open :: "string \<Rightarrow> string \<Rightarrow> log \<Rightarrow> session" where
  "pv_open mode password log =
     \<lparr>pv_mode = mode, pv_password = password, pv_verified = (mode = ROOT \<or> mode = NOPASSWD), pv_log = log\<rparr>"

definition can_escalate :: "session \<Rightarrow> bool" where
  "can_escalate pv \<longleftrightarrow> pv_mode pv \<noteq> MISSING"

definition pv_argv :: "command \<Rightarrow> session \<Rightarrow> refusal + string list" where
  "pv_argv c pv =
     (if cm_root c \<and> pv_mode pv = MISSING then Inl SudoMissing
      else case privileged c (pv_mode pv) of Inl e \<Rightarrow> Inl NotAWayToRoot | Inr argv \<Rightarrow> Inr argv)"

definition pv_line :: "string list \<Rightarrow> session \<Rightarrow> refusal + string option" where
  "pv_line argv pv =
     (if \<not> needs_password_line argv then Inr None
      else if pv_password pv = [] then Inl SudoPasswordRequired
      else Inr (Some (pv_password pv)))"

definition pv_ask :: "remote \<Rightarrow> request \<Rightarrow> session \<Rightarrow> (refusal + remote_result) \<times> session" where
  "pv_ask remote rq pv =
     (let (answer, log) = ask remote rq (pv_log pv)
      in (case answer of None \<Rightarrow> Inl RemoteCommandFailed | Some r \<Rightarrow> Inr r, pv\<lparr>pv_log := log\<rparr>))"

definition pv_verify :: "remote \<Rightarrow> session \<Rightarrow> (refusal + unit) \<times> session" where
  "pv_verify remote pv =
     (if pv_verified pv then (Inr (), pv)
      else if pv_mode pv = MISSING then (Inl SudoMissing, pv)
      else case pv_argv sudo_check pv of
        Inl e \<Rightarrow> (Inl e, pv)
      | Inr argv \<Rightarrow>
          (case pv_line argv pv of
             Inl e \<Rightarrow> (Inl e, pv)
           | Inr line \<Rightarrow>
               (case pv_ask remote \<lparr>rq_kind = Run, rq_argv = argv, rq_cwd = None, rq_env = [], rq_line = line\<rparr> pv of
                  (Inl e, pv) \<Rightarrow> (Inl e, pv)
                | (Inr r, pv) \<Rightarrow>
                    if \<not> rr_ok r then (Inl (refusal_of r (pv_password pv)), pv)
                    else (Inr (), pv\<lparr>pv_verified := True\<rparr>))))"

text \<open>The part \<^verbatim>\<open>run\<close>, \<^verbatim>\<open>feed\<close> and \<^verbatim>\<open>stream\<close> share: argv, the check, the password line, the request.\<close>

definition pv_send :: "remote \<Rightarrow> request_kind \<Rightarrow> command \<Rightarrow> session \<Rightarrow> (refusal + remote_result) \<times> session" where
  "pv_send remote kind c pv =
     (case pv_argv c pv of
        Inl e \<Rightarrow> (Inl e, pv)
      | Inr argv \<Rightarrow>
          (case if cm_root c then pv_verify remote pv else (Inr (), pv) of
             (Inl e, pv) \<Rightarrow> (Inl e, pv)
           | (Inr _, pv) \<Rightarrow>
               (case pv_line argv pv of
                  Inl e \<Rightarrow> (Inl e, pv)
                | Inr line \<Rightarrow> pv_ask remote (request_of kind c argv line) pv)))"

definition pv_checked :: "bool \<Rightarrow> (refusal + remote_result) \<times> session \<Rightarrow> (refusal + remote_result) \<times> session" where
  "pv_checked check outcome =
     (case outcome of
        (Inr r, pv) \<Rightarrow> if check \<and> \<not> rr_ok r then (Inl (refusal_of r (pv_password pv)), pv) else (Inr r, pv)
      | (Inl e, pv) \<Rightarrow> (Inl e, pv))"

definition pv_run :: "remote \<Rightarrow> command \<Rightarrow> bool \<Rightarrow> session \<Rightarrow> (refusal + remote_result) \<times> session" where
  "pv_run remote c check pv = pv_checked check (pv_send remote Run c pv)"

definition pv_feed :: "remote \<Rightarrow> command \<Rightarrow> string \<Rightarrow> bool \<Rightarrow> session \<Rightarrow> (refusal + remote_result) \<times> session" where
  "pv_feed remote c source check pv = pv_checked check (pv_send remote (Feed source) c pv)"

definition pv_stream :: "remote \<Rightarrow> command \<Rightarrow> session \<Rightarrow> (refusal + remote_result) \<times> session" where
  "pv_stream remote c pv = pv_send remote Stream c pv"

definition pv_stdin_for :: "command \<Rightarrow> session \<Rightarrow> refusal + string option" where
  "pv_stdin_for c pv = and_then (pv_argv c pv) (\<lambda>argv. pv_line argv pv)"

definition pv_scrub :: "string \<Rightarrow> session \<Rightarrow> string" where
  "pv_scrub text pv = scrubbed text (pv_password pv)"

section \<open>Histories of a session\<close>

inductive session_run :: "remote \<Rightarrow> session \<Rightarrow> bool" for remote where
  opened: "sudo_mode remote [] = (mode, log) \<Longrightarrow> session_run remote (pv_open mode password log)"
| verify: "session_run remote pv \<Longrightarrow> session_run remote (snd (pv_verify remote pv))"
| run: "session_run remote pv \<Longrightarrow> built c \<Longrightarrow> session_run remote (snd (pv_run remote c check pv))"
| feed: "session_run remote pv \<Longrightarrow> built c \<Longrightarrow> session_run remote (snd (pv_feed remote c source check pv))"
| stream: "session_run remote pv \<Longrightarrow> built c \<Longrightarrow> session_run remote (snd (pv_stream remote c pv))"

definition is_check :: "request \<Rightarrow> bool" where
  "is_check rq \<longleftrightarrow> rq_argv rq = [''sudo'', ''-S'', ''-p'', [], ''-k'', ''--'', ''true'']"

text \<open>Every request that carries the password goes to sudo, and after the check has succeeded unless it is the check.\<close>

fun log_sound :: "string \<Rightarrow> bool \<Rightarrow> log \<Rightarrow> bool" where
  "log_sound password checked [] = True"
| "log_sound password checked ((rq, answer) # log) =
     ((case rq_line rq of
         None \<Rightarrow> \<not> needs_password_line (rq_argv rq)
       | Some line \<Rightarrow> line = password \<and> line \<noteq> [] \<and> needs_password_line (rq_argv rq)) \<and>
      (needs_password_line (rq_argv rq) \<longrightarrow> checked \<or> is_check rq) \<and>
      log_sound password (checked \<or> (is_check rq \<and> (case answer of Some r \<Rightarrow> rr_ok r | None \<Rightarrow> False))) log)"

definition check_passed :: "log \<Rightarrow> bool" where
  "check_passed log \<longleftrightarrow> list_ex (\<lambda>(rq, answer). is_check rq \<and> (case answer of Some r \<Rightarrow> rr_ok r | None \<Rightarrow> False)) log"

definition session_sound :: "session \<Rightarrow> bool" where
  "session_sound pv \<longleftrightarrow> log_sound (pv_password pv) False (pv_log pv) \<and>
     pv_mode pv \<in> {ROOT, NOPASSWD, PASSWORD, MISSING} \<and> (pv_mode pv \<in> {ROOT, NOPASSWD} \<longrightarrow> pv_verified pv) \<and>
     (pv_verified pv \<longrightarrow> pv_mode pv \<noteq> MISSING \<and> (pv_mode pv = PASSWORD \<longrightarrow> check_passed (pv_log pv)))"

lemma log_sound_append:
  "log_sound p b (xs @ ys) \<longleftrightarrow> log_sound p b xs \<and> log_sound p (b \<or> check_passed xs) ys"
proof (induction p b xs rule: log_sound.induct)
  case (2 p b rq answer xs)
  then show ?case by (simp add: check_passed_def)
qed (simp add: check_passed_def)

lemma modes_differ [simp]:
  "ROOT \<noteq> NOPASSWD" "ROOT \<noteq> PASSWORD" "ROOT \<noteq> MISSING" "NOPASSWD \<noteq> PASSWORD" "NOPASSWD \<noteq> MISSING" "PASSWORD \<noteq> MISSING"
  "NOPASSWD \<noteq> ROOT" "PASSWORD \<noteq> ROOT" "MISSING \<noteq> ROOT" "PASSWORD \<noteq> NOPASSWD" "MISSING \<noteq> NOPASSWD" "MISSING \<noteq> PASSWORD"
  by (simp_all add: ROOT_def NOPASSWD_def PASSWORD_def MISSING_def)

lemma pv_ask_sound:
  assumes "session_sound pv"
    and "case rq_line rq of None \<Rightarrow> \<not> needs_password_line (rq_argv rq)
      | Some line \<Rightarrow> line = pv_password pv \<and> line \<noteq> [] \<and> needs_password_line (rq_argv rq)"
    and "needs_password_line (rq_argv rq) \<Longrightarrow> check_passed (pv_log pv) \<or> is_check rq"
  shows "session_sound (snd (pv_ask remote rq pv)) \<and> pv_verified (snd (pv_ask remote rq pv)) = pv_verified pv \<and>
    pv_mode (snd (pv_ask remote rq pv)) = pv_mode pv \<and> pv_password (snd (pv_ask remote rq pv)) = pv_password pv \<and>
    (\<forall>r. fst (pv_ask remote rq pv) = Inr r \<and> rr_ok r \<and> is_check rq \<longrightarrow> check_passed (pv_log (snd (pv_ask remote rq pv))))"
proof -
  have "check_passed (pv_log pv @ [(rq, answer)]) \<longleftrightarrow>
      check_passed (pv_log pv) \<or> (is_check rq \<and> (case answer of Some r \<Rightarrow> rr_ok r | None \<Rightarrow> False))" for answer
    by (simp add: check_passed_def)
  moreover have "log_sound (pv_password pv) False (pv_log pv @ [(rq, remote (pv_log pv) rq)])"
    using assms unfolding log_sound_append by (simp add: session_sound_def)
  ultimately show ?thesis
    using assms(1) by (auto simp: pv_ask_def ask_def session_sound_def split: option.splits)
qed

lemma check_argv:
  assumes "pv_mode pv = PASSWORD"
  shows "pv_argv sudo_check pv = Inr [''sudo'', ''-S'', ''-p'', [], ''-k'', ''--'', ''true'']"
  using assms by (simp add: pv_argv_def privileged_def sudo_check_def plain_def)

lemma pv_verify_sound:
  assumes "session_sound pv"
  shows "session_sound (snd (pv_verify remote pv)) \<and> pv_mode (snd (pv_verify remote pv)) = pv_mode pv \<and>
    pv_password (snd (pv_verify remote pv)) = pv_password pv \<and>
    (fst (pv_verify remote pv) = Inr () \<longrightarrow> pv_verified (snd (pv_verify remote pv)))"
proof (cases "pv_verified pv \<or> pv_mode pv = MISSING \<or> pv_password pv = []")
  case True
  then show ?thesis
    using assms check_argv [of pv]
    by (auto simp: pv_verify_def session_sound_def pv_line_def needs_password_line_def)
next
  case False
  then have m: "pv_mode pv = PASSWORD" using assms by (auto simp: session_sound_def)
  let ?rq = "\<lparr>rq_kind = Run, rq_argv = [''sudo'', ''-S'', ''-p'', [], ''-k'', ''--'', ''true''], rq_cwd = None, rq_env = [],
    rq_line = Some (pv_password pv)\<rparr>"
  obtain answer pv1 where a: "pv_ask remote ?rq pv = (answer, pv1)" by fastforce
  have rq: "needs_password_line (rq_argv ?rq)" "is_check ?rq" by (simp_all add: needs_password_line_def is_check_def)
  have S: "session_sound pv1" "pv_verified pv1 = pv_verified pv" "pv_mode pv1 = pv_mode pv" "pv_password pv1 = pv_password pv"
      "\<forall>r. answer = Inr r \<and> rr_ok r \<longrightarrow> check_passed (pv_log pv1)"
    using pv_ask_sound [OF assms, of ?rq remote] False rq by (simp_all add: a)
  have v: "pv_verify remote pv = (case (answer, pv1) of
        (Inl e, pv) \<Rightarrow> (Inl e, pv)
      | (Inr r, pv) \<Rightarrow> if \<not> rr_ok r then (Inl (refusal_of r (pv_password pv)), pv) else (Inr (), pv\<lparr>pv_verified := True\<rparr>))"
    using False m rq(1) by (simp add: pv_verify_def check_argv [OF m] pv_line_def a)
  show ?thesis
    using S m unfolding v by (auto simp: session_sound_def split: sum.splits)
qed

lemma pv_send_sound:
  assumes "session_sound pv" and "built c"
  shows "session_sound (snd (pv_send remote kind c pv))"
proof (cases "pv_argv c pv")
  case (Inr argv)
  then have p: "privileged c (pv_mode pv) = Inr argv" by (auto simp: pv_argv_def split: if_splits sum.splits)
  have needs: "needs_password_line argv \<longleftrightarrow> cm_root c \<and> pv_mode pv = PASSWORD"
    using privileged_shape [OF assms(2) p] by blast
  obtain ok pv1 where v: "(if cm_root c then pv_verify remote pv else (Inr (), pv)) = (ok, pv1)" by fastforce
  have S: "session_sound pv1" "pv_mode pv1 = pv_mode pv" "pv_password pv1 = pv_password pv"
      "ok = Inr () \<and> cm_root c \<longrightarrow> pv_verified pv1"
    using pv_verify_sound [OF assms(1), of remote] assms(1) v by (auto split: if_splits)
  show ?thesis
  proof (cases "ok = Inr () \<and> (\<exists>line. pv_line argv pv1 = Inr line)")
    case False
    then have "snd (pv_send remote kind c pv) = pv1" using Inr v by (cases ok; cases "pv_line argv pv1") (auto simp: pv_send_def)
    then show ?thesis using S(1) by simp
  next
    case True
    then obtain line where l: "ok = Inr ()" "pv_line argv pv1 = Inr line" by blast
    have line: "case line of None \<Rightarrow> \<not> needs_password_line argv
        | Some l \<Rightarrow> l = pv_password pv1 \<and> l \<noteq> [] \<and> needs_password_line argv"
      using l(2) by (auto simp: pv_line_def split: if_splits)
    have checked: "check_passed (pv_log pv1)" if "needs_password_line argv"
      using S l(1) needs that by (auto simp: session_sound_def)
    have "session_sound (snd (pv_ask remote (request_of kind c argv line) pv1))"
      by (rule conjunct1 [OF pv_ask_sound [OF S(1)]]) (use line checked in \<open>auto simp: request_of_def split: option.splits\<close>)
    moreover have "pv_send remote kind c pv = pv_ask remote (request_of kind c argv line) pv1"
      using Inr v l by (simp add: pv_send_def)
    ultimately show ?thesis by simp
  qed
qed (use assms(1) in \<open>simp add: pv_send_def\<close>)

lemma sudo_mode_sound:
  assumes "sudo_mode remote [] = (mode, log)"
  shows "mode \<in> {ROOT, NOPASSWD, PASSWORD, MISSING} \<and> log_sound password False log"
  using assms
  by (auto simp: sudo_mode_def quiet_run_def ask_def Let_def request_of_def needs_password_line_def user_ids_def sudo_present_def
      sudo_without_password_def plain_def split: if_splits)

lemma pv_checked_session: "snd (pv_checked check outcome) = snd outcome"
  by (cases outcome) (auto simp: pv_checked_def split: sum.splits)

lemma session_run_sound: "session_run remote pv \<Longrightarrow> session_sound pv"
proof (induction rule: session_run.induct)
  case (opened mode log password)
  then show ?case using sudo_mode_sound [OF opened, of password] by (auto simp: session_sound_def pv_open_def)
qed (auto simp: pv_verify_sound pv_send_sound pv_run_def pv_feed_def pv_stream_def pv_checked_session)


definition demo_remote :: remote where
  "demo_remote log rq = Some \<lparr>rr_exit_status = (if rq_argv rq = [''sudo'', ''-n'', ''-k'', ''--'', ''true''] then 1 else 0),
     rr_stdout = ''uid=1000(web)'', rr_stderr = []\<rparr>"


section \<open>Scrubbing\<close>

lemma text_in_iff: "text_in a b \<longleftrightarrow> (\<exists>u v. b = u @ a @ v)"
  unfolding text_in_def list_ex_iff set_suffixes_eq by (auto simp: suffix_def prefix_def)

lemma text_in_Cons: "text_in a (x # b) \<longleftrightarrow> prefix a (x # b) \<or> text_in a b"
  by (simp add: text_in_def) (meson list_ex_iff)

lemma text_replace_step:
  "\<not> (old \<noteq> [] \<and> prefix old (c # t)) \<Longrightarrow> text_replace old new (c # t) = c # text_replace old new t"
  by (subst text_replace.simps) auto

lemma replaced_prefix:
  assumes "CHR ''*'' \<notin> set a" and "prefix a (text_replace old ''***'' s)"
  shows "prefix a s"
  using assms
proof (induction old "''***''" s arbitrary: a rule: text_replace.induct)
  case (1 old s)
  show ?case
  proof (cases "a = [] \<or> s = []")
    case True
    then show ?thesis using "1.prems"(2) by (auto simp: text_replace.simps [of old _ "[]"])
  next
    case False
    then have no: "\<not> (old \<noteq> [] \<and> prefix old s)"
      using "1.prems" by (auto simp: text_replace.simps [of old "''***''" s] prefix_Cons)
    obtain c t where s: "s = c # t" using False by (cases s) auto
    have "prefix a (c # text_replace old ''***'' t)" using "1.prems"(2) text_replace_step [of old c t] no unfolding s by simp
    then obtain b where b: "a = c # b" "prefix b (text_replace old ''***'' t)" using False by (auto simp: prefix_Cons)
    have "prefix b t" using "1.hyps"(2) [OF _ no, of b] b "1.prems"(1) s by auto
    then show ?thesis by (simp add: s b(1))
  qed
qed

lemma replaced_not_in:
  assumes "CHR ''*'' \<notin> set old" and "old \<noteq> []"
  shows "\<not> text_in old (text_replace old ''***'' s)"
  using assms
proof (induction old "''***''" s rule: text_replace.induct)
  case (1 old s)
  show ?case
  proof (cases "s = []")
    case True
    then show ?thesis using "1.prems" by (simp add: text_replace.simps [of old] text_in_def)
  next
    case False
    show ?thesis
    proof (cases "prefix old s")
      case True
      have star: "\<not> prefix old (CHR ''*'' # xs)" for xs using "1.prems" by (cases old) auto
      have "\<not> text_in old (text_replace old ''***'' (drop (length old) s))" using "1.hyps"(1) False True "1.prems" by blast
      then show ?thesis
        using False True "1.prems" star by (simp add: text_replace.simps [of old _ s] text_in_Cons)
    next
      case no: False
      obtain c t where s: "s = c # t" using False by (cases s) auto
      have "\<not> text_in old (text_replace old ''***'' t)" using "1.hyps"(2) False no "1.prems" s by auto
      moreover have "\<not> prefix old (c # text_replace old ''***'' t)"
        using replaced_prefix [of old old s] no "1.prems" text_replace_step [of old c t] unfolding s by auto
      ultimately show ?thesis using no unfolding s by (simp add: text_replace_step text_in_Cons)
    qed
  qed
qed

text \<open>
  what is reported of a refused command does not carry the password. The scrubbed text contains no
  occurrence of the secret, for every secret without a star; it is at most as long as replacing in the last 500 characters makes it.
\<close>
theorem scrubbed_hides_secret:
  assumes "secret \<noteq> []" and "CHR ''*'' \<notin> set secret"
  shows "\<not> text_in secret (scrubbed text secret)"
  using replaced_not_in [OF assms(2,1)] assms(1) by (simp add: scrubbed_def Let_def)

lemma scrubbed_hides_secret_witness: "\<not> text_in ''pw'' (scrubbed ''sudo: pw pwpw was wrong'' ''pw'')"
  by (rule scrubbed_hides_secret) simp_all

lemma starred_secret_survives: "text_in ''a*'' (scrubbed ''aa**'' ''a*'')"
  by code_simp

end
