(* ===== verification/Permissions.thy ===== *)
theory Permissions
  imports PyText
begin

text \<open>
  Roles and capabilities of the manager, \<^verbatim>\<open>src/dbs/manager/permissions.py\<close>. Roles are the strings the database holds,
  capabilities the constants of the class. The table of users is a map from the primary key to the row; a user of a
  request is \<open>None\<close>, or a key and whether the request is authenticated.
\<close>

definition MASTER :: string where "MASTER = ''master''"
definition ADMIN :: string where "ADMIN = ''admin''"
definition OPERATOR :: string where "OPERATOR = ''operator''"
definition VIEWER :: string where "VIEWER = ''viewer''"

definition RANKS :: "string \<rightharpoonup> nat" where
  "RANKS = map_of [(VIEWER, 1), (OPERATOR, 2), (ADMIN, 3), (MASTER, 4)]"

datatype capability =
    ACCOUNTS_MANAGE | SERVERS_MANAGE | SERVERS_CHECK | APPLICATIONS_MANAGE | APPLICATIONS_CHECK | APPLICATIONS_PASSPHRASE
  | BACKUPS_TAKE | BACKUPS_VERIFY | BACKUPS_DOWNLOAD | BACKUPS_UPLOAD | BACKUPS_DELETE | BACKUPS_REHEARSE | BACKUPS_RESTORE
  | PLANS_MANAGE | PLANS_RUN | ENV_PULL | ENV_REVEAL | ENV_PUSH | FILES_DOWNLOAD | FILES_CHANGE | REDEPLOY_REHEARSE
  | REDEPLOY_RUN | RELOCATION_REHEARSE | RELOCATION_RUN | SHELL_OPEN | CONSOLE_RUN

primrec MINIMUM_ROLE :: "capability \<Rightarrow> string" where
  "MINIMUM_ROLE ACCOUNTS_MANAGE = MASTER"
| "MINIMUM_ROLE SERVERS_MANAGE = ADMIN"
| "MINIMUM_ROLE SERVERS_CHECK = OPERATOR"
| "MINIMUM_ROLE APPLICATIONS_MANAGE = ADMIN"
| "MINIMUM_ROLE APPLICATIONS_CHECK = OPERATOR"
| "MINIMUM_ROLE APPLICATIONS_PASSPHRASE = ADMIN"
| "MINIMUM_ROLE BACKUPS_TAKE = OPERATOR"
| "MINIMUM_ROLE BACKUPS_VERIFY = OPERATOR"
| "MINIMUM_ROLE BACKUPS_DOWNLOAD = OPERATOR"
| "MINIMUM_ROLE BACKUPS_UPLOAD = ADMIN"
| "MINIMUM_ROLE BACKUPS_DELETE = ADMIN"
| "MINIMUM_ROLE BACKUPS_REHEARSE = OPERATOR"
| "MINIMUM_ROLE BACKUPS_RESTORE = ADMIN"
| "MINIMUM_ROLE PLANS_MANAGE = ADMIN"
| "MINIMUM_ROLE PLANS_RUN = OPERATOR"
| "MINIMUM_ROLE ENV_PULL = OPERATOR"
| "MINIMUM_ROLE ENV_REVEAL = ADMIN"
| "MINIMUM_ROLE ENV_PUSH = ADMIN"
| "MINIMUM_ROLE FILES_DOWNLOAD = OPERATOR"
| "MINIMUM_ROLE FILES_CHANGE = ADMIN"
| "MINIMUM_ROLE REDEPLOY_REHEARSE = OPERATOR"
| "MINIMUM_ROLE REDEPLOY_RUN = ADMIN"
| "MINIMUM_ROLE RELOCATION_REHEARSE = OPERATOR"
| "MINIMUM_ROLE RELOCATION_RUN = ADMIN"
| "MINIMUM_ROLE SHELL_OPEN = ADMIN"
| "MINIMUM_ROLE CONSOLE_RUN = VIEWER"

definition REHEARSALS :: "capability \<Rightarrow> (string \<times> capability) option" where
  "REHEARSALS = map_of
     [(BACKUPS_RESTORE, (''rehearse'', BACKUPS_REHEARSE)),
      (REDEPLOY_RUN, (''rehearsal'', REDEPLOY_REHEARSE)),
      (RELOCATION_RUN, (''rehearsal'', RELOCATION_REHEARSE))]"

record account =
  ac_password :: string
  ac_role :: "string option"
  ac_active :: bool

record request_user =
  ru_pk :: int
  ru_authenticated :: bool

type_synonym accounts = "int \<rightharpoonup> account"

text \<open>A role is kept as the text of the row; \<open>found[1] or Role.VIEWER\<close> takes the viewer for a missing or an empty one.\<close>

definition role_of :: "accounts \<Rightarrow> request_user option \<Rightarrow> string option" where
  "role_of accounts user =
     (case user of
        None \<Rightarrow> None
      | Some u \<Rightarrow>
          if \<not> ru_authenticated u then None
          else (case accounts (ru_pk u) of
                  None \<Rightarrow> None
                | Some a \<Rightarrow> if \<not> ac_active a then None
                    else Some (case ac_role a of Some r \<Rightarrow> if r = [] then VIEWER else r | None \<Rightarrow> VIEWER)))"

definition rank_or_zero :: "string option \<Rightarrow> nat" where
  "rank_or_zero role = (case RANKS (case role of None \<Rightarrow> [] | Some r \<Rightarrow> r) of None \<Rightarrow> 0 | Some n \<Rightarrow> n)"

definition allows :: "string option \<Rightarrow> capability \<Rightarrow> bool" where
  "allows role c \<longleftrightarrow> rank_or_zero (Some (MINIMUM_ROLE c)) \<le> rank_or_zero role"

definition can :: "accounts \<Rightarrow> request_user option \<Rightarrow> capability \<Rightarrow> bool" where
  "can accounts user c \<longleftrightarrow> user = None \<or> allows (role_of accounts user) c"

datatype refusal_of_role = Role_required string "string option"

definition require :: "accounts \<Rightarrow> request_user option \<Rightarrow> capability \<Rightarrow> refusal_of_role + unit" where
  "require accounts user c =
     (if user = None then Inr ()
      else if \<not> allows (role_of accounts user) c then Inl (Role_required (MINIMUM_ROLE c) (role_of accounts user))
      else Inr ())"

text \<open>The capability that \<open>requires\<close> checks; \<open>given\<close> says whether an argument of the call is true.\<close>

definition needed_capability :: "capability \<Rightarrow> (string \<Rightarrow> bool) \<Rightarrow> capability" where
  "needed_capability c given =
     (case REHEARSALS c of None \<Rightarrow> c | Some (flag, rehearsal) \<Rightarrow> if given flag then rehearsal else c)"

lemmas role_names = MASTER_def ADMIN_def OPERATOR_def VIEWER_def

lemma rank_names [simp]:
  "rank_or_zero (Some VIEWER) = 1" "rank_or_zero (Some OPERATOR) = 2" "rank_or_zero (Some ADMIN) = 3"
  "rank_or_zero (Some MASTER) = 4" "rank_or_zero None = 0"
  by (simp_all add: rank_or_zero_def RANKS_def role_names)

lemma rank_cases: "rank_or_zero role = (if role = Some MASTER then 4 else if role = Some ADMIN then 3
    else if role = Some OPERATOR then 2 else if role = Some VIEWER then 1 else 0)"
  by (auto simp: rank_or_zero_def RANKS_def role_names split: option.splits)

lemma shell_is_for_admins: "allows role SHELL_OPEN \<longleftrightarrow> role = Some ADMIN \<or> role = Some MASTER"
  unfolding allows_def MINIMUM_ROLE.simps rank_names rank_cases [of role] by (auto simp: role_names)

end
