(* ===== verification/OutputBuffer.thy ===== *)
theory OutputBuffer
  imports Prelude "HOL-Library.Sublist"
begin

text \<open>
  The buffer between a terminal on a server and the requests that poll its output, of
  \<^verbatim>\<open>src/dbs/manager/shell/buffer.py\<close>. Its operations run under one condition variable, which is released while an
  \<open>append\<close> waits for room and while a \<open>read\<close> waits for output: an \<open>append\<close> is one atomic step taken when it need not wait,
  a \<open>read\<close> is two, the acknowledgement of its cursor and the taking of a chunk, between which anything may happen.
\<close>

definition READ_MAX :: nat where "READ_MAX = 256 * 1024"

record output_buffer =
  ob_capacity :: nat
  ob_data :: bytes
  ob_start :: nat
  ob_acknowledged :: nat
  ob_closed :: bool

definition new_buffer :: "nat \<Rightarrow> output_buffer" where
  "new_buffer capacity = \<lparr>ob_capacity = capacity, ob_data = [], ob_start = 0, ob_acknowledged = 0, ob_closed = False\<rparr>"

definition buffer_end :: "output_buffer \<Rightarrow> nat" where
  "buffer_end b = ob_start b + length (ob_data b)"

definition append_waits :: "bytes \<Rightarrow> output_buffer \<Rightarrow> bool" where
  "append_waits chunk b \<longleftrightarrow>
     \<not> ob_closed b \<and> ob_acknowledged b < buffer_end b \<and>
     int (ob_capacity b) < int (buffer_end b) - int (ob_acknowledged b) + int (length chunk)"

definition buffer_append :: "bytes \<Rightarrow> output_buffer \<Rightarrow> bool \<times> output_buffer" where
  "buffer_append chunk b = (if ob_closed b then (False, b) else (True, b\<lparr>ob_data := ob_data b @ chunk\<rparr>))"

definition buffer_trim :: "output_buffer \<Rightarrow> output_buffer" where
  "buffer_trim b =
     (let dropped = int (ob_acknowledged b) - int (ob_start b)
      in if 0 < dropped then b\<lparr>ob_data := drop (nat dropped) (ob_data b), ob_start := ob_acknowledged b\<rparr> else b)"

definition read_begin :: "nat \<Rightarrow> output_buffer \<Rightarrow> nat \<times> output_buffer" where
  "read_begin cursor b =
     (let cursor = min cursor (buffer_end b)
      in (cursor, if ob_acknowledged b < cursor then buffer_trim (b\<lparr>ob_acknowledged := cursor\<rparr>) else b))"

definition read_waits :: "nat \<Rightarrow> output_buffer \<Rightarrow> bool" where
  "read_waits cursor b \<longleftrightarrow> buffer_end b \<le> cursor \<and> \<not> ob_closed b"

definition read_take :: "nat \<Rightarrow> output_buffer \<Rightarrow> bytes \<times> nat \<times> bool" where
  "read_take cursor b =
     (let begin_at = max cursor (ob_start b);
          chunk = take READ_MAX (drop (begin_at - ob_start b) (ob_data b))
      in (chunk, begin_at + length chunk, cursor < ob_start b))"

definition buffer_drained :: "nat \<Rightarrow> output_buffer \<Rightarrow> bool" where
  "buffer_drained cursor b \<longleftrightarrow> ob_closed b \<and> buffer_end b \<le> cursor"

definition buffer_close :: "output_buffer \<Rightarrow> output_buffer" where
  "buffer_close b = b\<lparr>ob_closed := True\<rparr>"

section \<open>Threads at the buffer\<close>

text \<open>
  \<open>appended\<close> is everything the buffer ever took, \<open>asked\<close> the cursors that were acknowledged, \<open>waiting\<close> those of the reads
  that have not returned, and \<open>replies\<close> what the others returned, each with the cursor it asked for. A read may return
  although there is nothing for it: its time may have run out.
\<close>

record buffer_run =
  br_buffer :: output_buffer
  br_appended :: bytes
  br_asked :: "nat list"
  br_waiting :: "nat list"
  br_replies :: "(nat \<times> bytes \<times> nat \<times> bool) list"

definition buffer_start :: "nat \<Rightarrow> buffer_run" where
  "buffer_start capacity =
     \<lparr>br_buffer = new_buffer capacity, br_appended = [], br_asked = [], br_waiting = [], br_replies = []\<rparr>"

inductive buffer_step :: "nat \<Rightarrow> buffer_run \<Rightarrow> buffer_run \<Rightarrow> bool" for longest :: nat where
  append: "\<not> append_waits chunk (br_buffer s) \<Longrightarrow> length chunk \<le> longest \<Longrightarrow> buffer_append chunk (br_buffer s) = (taken, b) \<Longrightarrow>
    buffer_step longest s (s\<lparr>br_buffer := b, br_appended := br_appended s @ (if taken then chunk else [])\<rparr>)"
| ask: "read_begin cursor (br_buffer s) = (at, b) \<Longrightarrow>
    buffer_step longest s (s\<lparr>br_buffer := b, br_asked := at # br_asked s, br_waiting := at # br_waiting s\<rparr>)"
| answer: "at \<in> set (br_waiting s) \<Longrightarrow> read_take at (br_buffer s) = reply \<Longrightarrow>
    buffer_step longest s (s\<lparr>br_waiting := remove1 at (br_waiting s), br_replies := (at, reply) # br_replies s\<rparr>)"
| close: "buffer_step longest s (s\<lparr>br_buffer := buffer_close (br_buffer s)\<rparr>)"

definition reply_ok :: "bytes \<Rightarrow> nat list \<Rightarrow> nat \<times> bytes \<times> nat \<times> bool \<Rightarrow> bool" where
  "reply_ok appended asked r \<longleftrightarrow> (case r of (cursor, chunk, following, lost) \<Rightarrow>
     (let from = following - length chunk
      in length chunk \<le> following \<and> chunk = take (length chunk) (drop from appended) \<and> following \<le> length appended \<and>
        cursor \<le> from \<and> (lost \<longleftrightarrow> cursor < from) \<and> (lost \<longrightarrow> list_ex (\<lambda>c. cursor < c) asked)))"

definition buffer_inv :: "nat \<Rightarrow> nat \<Rightarrow> buffer_run \<Rightarrow> bool" where
  "buffer_inv capacity longest s \<longleftrightarrow>
     (let b = br_buffer s in
      ob_capacity b = capacity \<and> ob_acknowledged b = ob_start b \<and> ob_start b \<le> length (br_appended s) \<and>
      ob_data b = drop (ob_start b) (br_appended s) \<and> length (ob_data b) \<le> max capacity longest \<and>
      (0 < ob_start b \<longrightarrow> ob_start b \<in> set (br_asked s)) \<and>
      (\<forall>c \<in> set (br_waiting s). c \<le> length (br_appended s)) \<and>
      (\<forall>r \<in> set (br_replies s). reply_ok (br_appended s) (br_asked s) r))"

lemma reply_ok_grows:
  assumes "reply_ok appended asked r" "set asked \<subseteq> set asked'"
  shows "reply_ok (appended @ rest) asked' r"
proof -
  obtain cursor chunk following lost where r: "r = (cursor, chunk, following, lost)" by (metis prod_cases4)
  show ?thesis using assms unfolding r reply_ok_def Let_def split list_ex_iff
    by (auto simp: take_append drop_append)
qed

lemma inv_start: "buffer_inv capacity longest (buffer_start capacity)"
  by (simp add: buffer_inv_def buffer_start_def new_buffer_def)

lemma buffer_end_inv:
  "buffer_inv capacity longest s \<Longrightarrow> buffer_end (br_buffer s) = length (br_appended s)"
  by (simp add: buffer_inv_def buffer_end_def Let_def)

lemma inv_append:
  assumes "buffer_inv capacity longest s" "\<not> append_waits chunk (br_buffer s)" "length chunk \<le> longest"
    "buffer_append chunk (br_buffer s) = (taken, b)"
  shows "buffer_inv capacity longest (s\<lparr>br_buffer := b, br_appended := br_appended s @ (if taken then chunk else [])\<rparr>)"
proof (cases "ob_closed (br_buffer s)")
  case True
  then have "\<not> taken" "b = br_buffer s" using assms(4) by (simp_all add: buffer_append_def)
  moreover have "s\<lparr>br_buffer := br_buffer s, br_appended := br_appended s\<rparr> = s" by simp
  ultimately show ?thesis using assms(1) by simp
next
  case False
  then have b: "taken" "b = br_buffer s\<lparr>ob_data := ob_data (br_buffer s) @ chunk\<rparr>"
    using assms(4) by (auto simp: buffer_append_def)
  have "length (ob_data (br_buffer s)) + length chunk \<le> max capacity longest"
  proof (cases "ob_data (br_buffer s) = []")
    case True
    then show ?thesis using assms(3) by simp
  next
    case data: False
    then have "ob_acknowledged (br_buffer s) < buffer_end (br_buffer s)"
      using assms(1) by (simp add: buffer_inv_def buffer_end_def Let_def)
    then show ?thesis using assms(1,2) False by (simp add: append_waits_def buffer_inv_def buffer_end_def Let_def)
  qed
  then show ?thesis using assms(1) b
    by (auto simp: buffer_inv_def Let_def intro: reply_ok_grows)
qed

lemma inv_ask:
  assumes "buffer_inv capacity longest s" "read_begin cursor (br_buffer s) = (at, b)"
  shows "buffer_inv capacity longest (s\<lparr>br_buffer := b, br_asked := at # br_asked s, br_waiting := at # br_waiting s\<rparr>)"
proof -
  note E = buffer_end_inv [OF assms(1)]
  have at: "at = min cursor (length (br_appended s))" using assms(2) by (simp add: read_begin_def Let_def E)
  have replies: "reply_ok (br_appended s) (at # br_asked s) r" if "r \<in> set (br_replies s)" for r
    using reply_ok_grows [of "br_appended s" "br_asked s" r "at # br_asked s" "[]"] assms(1) that
    by (auto simp: buffer_inv_def Let_def)
  show ?thesis
  proof (cases "ob_start (br_buffer s) < at")
    case True
    then have "b = (br_buffer s)\<lparr>ob_acknowledged := at, ob_data := drop (at - ob_start (br_buffer s)) (ob_data (br_buffer s)), ob_start := at\<rparr>"
      using assms by (auto simp: read_begin_def buffer_trim_def buffer_inv_def Let_def nat_diff_distrib)
    then show ?thesis using assms(1) at True replies
      by (auto simp: buffer_inv_def Let_def)
  next
    case False
    then have "b = br_buffer s" using assms by (auto simp: read_begin_def buffer_inv_def Let_def split: if_splits)
    then show ?thesis using assms(1) at replies by (auto simp: buffer_inv_def Let_def)
  qed
qed

lemma inv_answer:
  assumes "buffer_inv capacity longest s" "at \<in> set (br_waiting s)" "read_take at (br_buffer s) = reply"
  shows "buffer_inv capacity longest (s\<lparr>br_waiting := remove1 at (br_waiting s), br_replies := (at, reply) # br_replies s\<rparr>)"
proof -
  let ?b = "br_buffer s" and ?from = "max at (ob_start (br_buffer s))"
  let ?chunk = "take READ_MAX (drop (?from - ob_start ?b) (ob_data ?b))"
  have I: "ob_start ?b \<le> length (br_appended s)" "ob_data ?b = drop (ob_start ?b) (br_appended s)" "at \<le> length (br_appended s)"
      "0 < ob_start ?b \<longrightarrow> ob_start ?b \<in> set (br_asked s)"
    using assms(1,2) by (auto simp: buffer_inv_def Let_def)
  have reply: "reply = (?chunk, ?from + length ?chunk, at < ob_start ?b)"
    using assms(3) by (simp add: read_take_def Let_def)
  have data: "drop (?from - ob_start ?b) (ob_data ?b) = drop ?from (br_appended s)" using I(2) by simp
  have "?from + length ?chunk \<le> length (br_appended s)" unfolding data using I(1,3) by auto
  then have "reply_ok (br_appended s) (br_asked s) (at, reply)"
    using I(4) unfolding reply reply_ok_def Let_def split data by (auto simp: list_ex_iff min_def)
  then show ?thesis using assms(1) by (auto simp: buffer_inv_def Let_def dest: notin_set_remove1)
qed

lemma inv_step: "buffer_step longest s s' \<Longrightarrow> buffer_inv capacity longest s \<Longrightarrow> buffer_inv capacity longest s'"
proof (induction rule: buffer_step.induct)
  case (append chunk s taken b)
  then show ?case by (intro inv_append)
next
  case (ask cursor s at b)
  then show ?case by (intro inv_ask)
next
  case (answer at s reply)
  then show ?case by (intro inv_answer)
next
  case (close s)
  then show ?case unfolding buffer_inv_def buffer_close_def Let_def by clarsimp
qed

lemma inv_reachable: "(buffer_step longest)\<^sup>*\<^sup>* (buffer_start capacity) s \<Longrightarrow> buffer_inv capacity longest s"
  by (induction rule: rtranclp_induct) (simp_all add: inv_start inv_step)

section \<open>Properties\<close>

text \<open>
  C26: However the thread that reads a terminal and any number of polling requests interleave, a reply holds exactly the bytes
  of the output that end at the position it names, from the position asked for unless it is marked; it is marked exactly
  when output was dropped, which happens only when another request has acknowledged a later position; and the buffer
  never holds more than its capacity or one chunk.
\<close>

theorem terminal_output_is_faithful:
  assumes "(buffer_step longest)\<^sup>*\<^sup>* (buffer_start capacity) s" and "(cursor, chunk, following, lost) \<in> set (br_replies s)"
  shows "chunk = take (length chunk) (drop (following - length chunk) (br_appended s)) \<and> following \<le> length (br_appended s) \<and>
    (lost \<longleftrightarrow> cursor < following - length chunk) \<and> (\<not> lost \<longrightarrow> following = cursor + length chunk) \<and>
    (lost \<longrightarrow> list_ex (\<lambda>c. cursor < c) (br_asked s)) \<and> length (ob_data (br_buffer s)) \<le> max capacity longest"
proof -
  have "buffer_inv capacity longest s" by (rule inv_reachable [OF assms(1)])
  then have "reply_ok (br_appended s) (br_asked s) (cursor, chunk, following, lost)" "length (ob_data (br_buffer s)) \<le> max capacity longest"
    using assms(2) by (auto simp: buffer_inv_def Let_def)
  then show ?thesis by (auto simp: reply_ok_def Let_def)
qed

theorem terminal_output_is_faithful_witness:
  "\<exists>s. (buffer_step 2)\<^sup>*\<^sup>* (buffer_start 3) s \<and> br_appended s = [1, 2, 3] \<and> br_replies s = [(0, [3], 3, True), (2, [3], 3, False)] \<and>
    list_ex (\<lambda>c. 0 < c) (br_asked s)"
proof -
  define b0 where "b0 = new_buffer 3"
  define b1 where "b1 = b0\<lparr>ob_data := [1, 2]\<rparr>"
  define b2 where "b2 = b1\<lparr>ob_acknowledged := 2, ob_data := [], ob_start := 2\<rparr>"
  define b3 where "b3 = b2\<lparr>ob_data := [3]\<rparr>"
  let ?s = "\<lambda>b all asked waiting replies. \<lparr>br_buffer = b, br_appended = all, br_asked = asked, br_waiting = waiting, br_replies = replies\<rparr>"
  have 1: "buffer_step 2 (buffer_start 3) (?s b1 [1, 2] [] [] [])"
    using buffer_step.append [of "[1, 2]" "buffer_start 3" 2 True b1]
    by (simp add: buffer_start_def b1_def b0_def new_buffer_def append_waits_def buffer_append_def buffer_end_def)
  have 2: "buffer_step 2 (?s b1 [1, 2] [] [] []) (?s b1 [1, 2] [0] [0] [])"
    using buffer_step.ask [of 0 "?s b1 [1, 2] [] [] []" 0 b1 2]
    by (simp add: b1_def b0_def new_buffer_def read_begin_def)
  have 3: "buffer_step 2 (?s b1 [1, 2] [0] [0] []) (?s b2 [1, 2] [2, 0] [2, 0] [])"
    using buffer_step.ask [of 2 "?s b1 [1, 2] [0] [0] []" 2 b2 2]
    by (simp add: b2_def b1_def b0_def new_buffer_def read_begin_def buffer_trim_def buffer_end_def Let_def)
  have 4: "buffer_step 2 (?s b2 [1, 2] [2, 0] [2, 0] []) (?s b3 [1, 2, 3] [2, 0] [2, 0] [])"
    using buffer_step.append [of "[3]" "?s b2 [1, 2] [2, 0] [2, 0] []" 2 True b3]
    by (simp add: b3_def b2_def b1_def b0_def new_buffer_def append_waits_def buffer_append_def buffer_end_def)
  have 5: "buffer_step 2 (?s b3 [1, 2, 3] [2, 0] [2, 0] []) (?s b3 [1, 2, 3] [2, 0] [0] [(2, [3], 3, False)])"
    using buffer_step.answer [of 2 "?s b3 [1, 2, 3] [2, 0] [2, 0] []" "([3], 3, False)" 2]
    by (simp add: b3_def b2_def b1_def b0_def new_buffer_def read_take_def READ_MAX_def)
  have 6: "buffer_step 2 (?s b3 [1, 2, 3] [2, 0] [0] [(2, [3], 3, False)])
      (?s b3 [1, 2, 3] [2, 0] [] [(0, [3], 3, True), (2, [3], 3, False)])"
    using buffer_step.answer [of 0 "?s b3 [1, 2, 3] [2, 0] [0] [(2, [3], 3, False)]" "([3], 3, True)" 2]
    by (simp add: b3_def b2_def b1_def b0_def new_buffer_def read_take_def READ_MAX_def)
  let ?last = "?s b3 [1, 2, 3] [2, 0] [] [(0, [3], 3, True), (2, [3], 3, False)]"
  have reach: "(buffer_step 2)\<^sup>*\<^sup>* (buffer_start 3) ?last"
    using 1 2 3 4 5 6 by (meson converse_rtranclp_into_rtranclp rtranclp.rtrancl_refl)
  have "(0, [3], 3, True) \<in> set (br_replies ?last)" by simp
  from terminal_output_is_faithful [OF reach this] reach show ?thesis by (intro exI [of _ ?last]) simp
qed

end
