(* ===== verification/Terminals.thy ===== *)
theory Terminals
  imports OutputBuffer Permissions "HOL-Library.AList"
begin

text \<open>
  The terminals of the manager: the sessions and their registry of \<^verbatim>\<open>src/dbs/manager/shell/sessions.py\<close> and the requests of
  \<^verbatim>\<open>src/dbs/manager/shell/service.py\<close>. Session objects are shared between threads: \<open>sh_objects\<close> holds every session ever
  made, under its random identifier, and \<open>sh_sessions\<close> the keys of the registry in order. The clock is an argument, the
  channel is what was sent through it, with an argument that says whether \<^verbatim>\<open>sendall\<close> succeeds. Audit rows are left out.
\<close>

definition BUFFER_BYTES :: nat where "BUFFER_BYTES = 1024 * 1024"
definition READ_CHUNK :: nat where "READ_CHUNK = 32 * 1024"
definition MAX_SESSIONS :: nat where "MAX_SESSIONS = 4"
definition MAX_PER_ACCOUNT :: nat where "MAX_PER_ACCOUNT = 2"
definition MAX_WAITERS :: nat where "MAX_WAITERS = 6"
definition IDLE_SECONDS :: int where "IDLE_SECONDS = 900"
definition UNPOLLED_SECONDS :: int where "UNPOLLED_SECONDS = 60"
definition LIFETIME_SECONDS :: int where "LIFETIME_SECONDS = 7200"
definition REMEMBERED_SECONDS :: int where "REMEMBERED_SECONDS = 60"

datatype reason = Exited | Closed | Idle | Unpolled | Lifetime | Revoked | Signed_out | Lost | Stopping

datatype shell_error =
    TerminalOff | TerminalNeedsAccount | TooManyTerminals | TerminalClosed | TerminalNotFound | RoleRequired string
  | RemoteCommandFailed | ValidationError

record shell_owner =
  ow_user :: int
  ow_session_key :: string
  ow_password :: string
  ow_role :: "string option"

record shell_session =
  sn_owner :: shell_owner
  sn_cols :: nat
  sn_rows :: nat
  sn_buffer :: output_buffer
  sn_opened_at :: int
  sn_last_input_at :: int
  sn_last_poll_at :: int
  sn_bytes_in :: nat
  sn_bytes_out :: nat
  sn_last_seq :: int
  sn_waiting :: bool
  sn_ended :: bool
  sn_reason :: "reason option"
  sn_exit_status :: "int option"
  sn_finished :: bool
  sn_sent :: "(int \<times> bytes) list"
  sn_connected :: bool

definition new_session :: "shell_owner \<Rightarrow> nat \<Rightarrow> nat \<Rightarrow> int \<Rightarrow> shell_session" where
  "new_session owner cols rows now =
     \<lparr>sn_owner = owner, sn_cols = cols, sn_rows = rows, sn_buffer = new_buffer BUFFER_BYTES, sn_opened_at = now,
      sn_last_input_at = now, sn_last_poll_at = now, sn_bytes_in = 0, sn_bytes_out = 0, sn_last_seq = -1, sn_waiting = False,
      sn_ended = False, sn_reason = None, sn_exit_status = None, sn_finished = False, sn_sent = [], sn_connected = True\<rparr>"

section \<open>A session\<close>

definition session_end :: "reason \<Rightarrow> shell_session \<Rightarrow> shell_session" where
  "session_end reason s =
     (if sn_ended s then s
      else s\<lparr>sn_reason := Some reason, sn_ended := True, sn_buffer := buffer_close (sn_buffer s)\<rparr>)"

definition session_write :: "int \<Rightarrow> bool \<Rightarrow> int \<Rightarrow> bytes \<Rightarrow> shell_session \<Rightarrow> (shell_error + bool) \<times> shell_session" where
  "session_write now sends seq data s =
     (if sn_ended s then (Inl TerminalClosed, s)
      else if seq \<le> sn_last_seq s then (Inr False, s)
      else if \<not> sends then (Inl TerminalClosed, session_end Lost s)
      else (Inr True, s\<lparr>sn_sent := sn_sent s @ [(seq, data)], sn_last_seq := seq, sn_bytes_in := sn_bytes_in s + length data,
              sn_last_input_at := now\<rparr>))"

definition session_resize :: "nat \<Rightarrow> nat \<Rightarrow> shell_session \<Rightarrow> (shell_error + unit) \<times> shell_session" where
  "session_resize cols rows s =
     (if sn_ended s then (Inl TerminalClosed, s) else (Inr (), s\<lparr>sn_cols := cols, sn_rows := rows\<rparr>))"

definition session_read_begin :: "int \<Rightarrow> nat \<Rightarrow> shell_session \<Rightarrow> nat \<times> shell_session" where
  "session_read_begin now cursor s =
     (case read_begin cursor (sn_buffer s) of (at, b) \<Rightarrow> (at, s\<lparr>sn_last_poll_at := now, sn_buffer := b\<rparr>))"

definition session_read_end :: "int \<Rightarrow> nat \<Rightarrow> shell_session \<Rightarrow> (bytes \<times> nat \<times> bool) \<times> shell_session" where
  "session_read_end now at s = (read_take at (sn_buffer s), s\<lparr>sn_last_poll_at := now\<rparr>)"

definition session_drained :: "nat \<Rightarrow> shell_session \<Rightarrow> bool" where
  "session_drained cursor s \<longleftrightarrow> sn_ended s \<and> buffer_drained cursor (sn_buffer s)"

definition session_release :: "shell_session \<Rightarrow> shell_session" where
  "session_release s = s\<lparr>sn_connected := False\<rparr>"

definition session_seconds :: "int \<Rightarrow> shell_session \<Rightarrow> int" where
  "session_seconds now s = now - sn_opened_at s"

definition overdue :: "int \<Rightarrow> shell_session \<Rightarrow> reason option" where
  "overdue now s =
     (if LIFETIME_SECONDS \<le> now - sn_opened_at s then Some Lifetime
      else if IDLE_SECONDS \<le> now - sn_last_input_at s then Some Idle
      else if \<not> sn_waiting s \<and> UNPOLLED_SECONDS \<le> now - sn_last_poll_at s then Some Unpolled
      else None)"

text \<open>The thread that reads the channel: a chunk counts before it is given to the buffer, which may make it wait.\<close>

definition session_received :: "bytes \<Rightarrow> shell_session \<Rightarrow> shell_session" where
  "session_received data s = s\<lparr>sn_bytes_out := sn_bytes_out s + length data\<rparr>"

definition session_append :: "bytes \<Rightarrow> shell_session \<Rightarrow> bool \<times> shell_session" where
  "session_append data s = (case buffer_append data (sn_buffer s) of (taken, b) \<Rightarrow> (taken, s\<lparr>sn_buffer := b\<rparr>))"

definition reader_ends :: "bool \<Rightarrow> int option \<Rightarrow> shell_session \<Rightarrow> shell_session" where
  "reader_ends lost status s =
     session_end (if lost then Lost else Exited) (case status of None \<Rightarrow> s | Some _ \<Rightarrow> s\<lparr>sn_exit_status := status\<rparr>)"

section \<open>The registry\<close>

record ending =
  en_user :: int
  en_session_key :: string
  en_cursor :: nat
  en_reason :: "reason option"
  en_exit_status :: "int option"
  en_at :: int

record shells =
  sh_objects :: "string \<rightharpoonup> shell_session"
  sh_sessions :: "string list"
  sh_endings :: "(string \<times> ending) list"
  sh_reserved :: "(int \<times> nat) list"
  sh_waiters :: nat

definition new_shells :: shells where
  "new_shells = \<lparr>sh_objects = Map.empty, sh_sessions = [], sh_endings = [], sh_reserved = [], sh_waiters = 0\<rparr>"

definition change_session :: "string \<Rightarrow> (shell_session \<Rightarrow> shell_session) \<Rightarrow> shells \<Rightarrow> shells" where
  "change_session i f sh =
     (case sh_objects sh i of None \<Rightarrow> sh | Some s \<Rightarrow> sh\<lparr>sh_objects := (sh_objects sh)(i \<mapsto> f s)\<rparr>)"

definition session_where :: "(shell_session \<Rightarrow> bool) \<Rightarrow> shells \<Rightarrow> string \<Rightarrow> bool" where
  "session_where P sh i = (case sh_objects sh i of None \<Rightarrow> False | Some s \<Rightarrow> P s)"

definition open_now :: "shells \<Rightarrow> string list" where
  "open_now sh = filter (session_where (\<lambda>s. \<not> sn_finished s) sh) (sh_sessions sh)"

definition owned_by :: "int \<Rightarrow> shells \<Rightarrow> string list" where
  "owned_by user sh = filter (session_where (\<lambda>s. ow_user (sn_owner s) = user \<and> \<not> sn_finished s) sh) (sh_sessions sh)"

definition reserved_for :: "int \<Rightarrow> (int \<times> nat) list \<Rightarrow> nat" where
  "reserved_for user reserved = (case map_of reserved user of None \<Rightarrow> 0 | Some n \<Rightarrow> n)"

definition reserve :: "int \<Rightarrow> shells \<Rightarrow> shell_error + shells" where
  "reserve user sh =
     (let mine = length (filter (session_where (\<lambda>s. ow_user (sn_owner s) = user) sh) (open_now sh));
          pending = sum_list (map snd (sh_reserved sh))
      in if MAX_SESSIONS \<le> length (open_now sh) + pending \<or> MAX_PER_ACCOUNT \<le> mine + reserved_for user (sh_reserved sh)
         then Inl TooManyTerminals
         else Inr (sh\<lparr>sh_reserved := AList.update user (reserved_for user (sh_reserved sh) + 1) (sh_reserved sh)\<rparr>))"

definition unreserve :: "int \<Rightarrow> shells \<Rightarrow> shells" where
  "unreserve user sh =
     (let n = reserved_for user (sh_reserved sh) - 1;
          reserved = AList.update user n (sh_reserved sh)
      in sh\<lparr>sh_reserved := if n = 0 then AList.delete user reserved else reserved\<rparr>)"

definition add_session :: "string \<Rightarrow> shell_session \<Rightarrow> shells \<Rightarrow> shells" where
  "add_session i s sh =
     sh\<lparr>sh_objects := (sh_objects sh)(i \<mapsto> s), sh_sessions := (if i \<in> set (sh_sessions sh) then sh_sessions sh else sh_sessions sh @ [i])\<rparr>"

definition find_session :: "string \<Rightarrow> shells \<Rightarrow> shell_session option" where
  "find_session i sh = (if i \<in> set (sh_sessions sh) then sh_objects sh i else None)"

definition forget :: "int \<Rightarrow> string \<Rightarrow> shell_session \<Rightarrow> shells \<Rightarrow> shells" where
  "forget now i s sh =
     sh\<lparr>sh_sessions := filter (\<lambda>j. j \<noteq> i) (sh_sessions sh),
        sh_endings := AList.update i
          \<lparr>en_user = ow_user (sn_owner s), en_session_key = ow_session_key (sn_owner s), en_cursor = buffer_end (sn_buffer s),
           en_reason = sn_reason s, en_exit_status = sn_exit_status s, en_at = now\<rparr>
          (filter (\<lambda>(_, e). now - en_at e < REMEMBERED_SECONDS) (sh_endings sh))\<rparr>"

definition ending_of :: "int \<Rightarrow> string \<Rightarrow> shells \<Rightarrow> ending option" where
  "ending_of now i sh =
     (case map_of (sh_endings sh) i of
        None \<Rightarrow> None
      | Some e \<Rightarrow> if REMEMBERED_SECONDS \<le> now - en_at e then None else Some e)"

definition wait_begin :: "string \<Rightarrow> shells \<Rightarrow> bool \<times> shells" where
  "wait_begin i sh =
     (if session_where (\<lambda>s. \<not> sn_waiting s) sh i \<and> sh_waiters sh < MAX_WAITERS
      then (True, change_session i (\<lambda>s. s\<lparr>sn_waiting := True\<rparr>) (sh\<lparr>sh_waiters := sh_waiters sh + 1\<rparr>))
      else (False, sh))"

definition wait_end :: "string \<Rightarrow> shells \<Rightarrow> shells" where
  "wait_end i sh = change_session i (\<lambda>s. s\<lparr>sn_waiting := False\<rparr>) (sh\<lparr>sh_waiters := sh_waiters sh - 1\<rparr>)"

section \<open>Who may go on\<close>

definition OFF :: string where "OFF = ''off''"
definition ADMINS :: string where "ADMINS = ''admins''"

definition terminal_policy :: "string \<Rightarrow> string" where
  "terminal_policy setting =
     (let chosen = text_lower (strip_spaces setting) in if chosen \<in> set [ADMINS, MASTER, OFF] then chosen else OFF)"

definition still_allowed :: "accounts \<Rightarrow> string \<Rightarrow> shell_session \<Rightarrow> string option \<Rightarrow> bool" where
  "still_allowed accounts setting s session_key =
     (if session_key \<noteq> None \<and> session_key \<noteq> Some (ow_session_key (sn_owner s)) then False
      else case accounts (ow_user (sn_owner s)) of
        None \<Rightarrow> False
      | Some a \<Rightarrow>
          if \<not> ac_active a \<or> ac_password a \<noteq> ow_password (sn_owner s) then False
          else let role = role_of accounts (Some \<lparr>ru_pk = ow_user (sn_owner s), ru_authenticated = True\<rparr>);
                   policy = terminal_policy setting
               in role = ow_role (sn_owner s) \<and> policy \<noteq> OFF \<and> allows role SHELL_OPEN \<and> (policy \<noteq> MASTER \<or> role = Some MASTER))"

text \<open>\<open>finish\<close> marks a session as finished exactly once; its first half and the rest may be far apart.\<close>

definition finish_begin :: "string \<Rightarrow> reason option \<Rightarrow> shells \<Rightarrow> bool \<times> shells" where
  "finish_begin i reason sh =
     (let sh = (case reason of None \<Rightarrow> sh | Some r \<Rightarrow> change_session i (session_end r) sh)
      in if session_where sn_finished sh i then (False, sh)
         else (True, change_session i (\<lambda>s. s\<lparr>sn_finished := True\<rparr>) sh))"

definition finish_rest :: "int \<Rightarrow> string \<Rightarrow> shells \<Rightarrow> shells" where
  "finish_rest now i sh =
     (let sh = change_session i (\<lambda>s. session_release (session_end Closed s)) sh
      in case sh_objects sh i of None \<Rightarrow> sh | Some s \<Rightarrow> forget now i s sh)"

definition finish :: "int \<Rightarrow> string \<Rightarrow> reason option \<Rightarrow> shells \<Rightarrow> shells" where
  "finish now i reason sh =
     (case finish_begin i reason sh of (True, sh) \<Rightarrow> finish_rest now i sh | (False, sh) \<Rightarrow> sh)"

section \<open>Requests\<close>

definition signed_in :: "request_user option \<Rightarrow> bool" where
  "signed_in user \<longleftrightarrow> (case user of None \<Rightarrow> False | Some u \<Rightarrow> ru_authenticated u)"

definition shell_allowed :: "accounts \<Rightarrow> string \<Rightarrow> request_user option \<Rightarrow> shell_error + string option" where
  "shell_allowed accounts setting user =
     (if \<not> signed_in user then Inl TerminalNeedsAccount
      else let policy = terminal_policy setting; role = role_of accounts user
      in if policy = OFF then Inl TerminalOff
         else if policy = MASTER \<and> role \<noteq> Some MASTER then Inl (RoleRequired MASTER)
         else Inr role)"

definition service_get ::
  "accounts \<Rightarrow> string \<Rightarrow> request_user option \<Rightarrow> string \<Rightarrow> int \<Rightarrow> string \<Rightarrow> shells \<Rightarrow> (shell_error + shell_session) \<times> shells" where
  "service_get accounts setting user key now i sh =
     (case find_session i sh of
        None \<Rightarrow> (Inl TerminalNotFound, sh)
      | Some s \<Rightarrow>
          if sn_finished s \<or> \<not> signed_in user \<or> (case user of None \<Rightarrow> True | Some u \<Rightarrow> ow_user (sn_owner s) \<noteq> ru_pk u)
          then (Inl TerminalNotFound, sh)
          else if \<not> still_allowed accounts setting s (Some key) then (Inl TerminalClosed, finish now i (Some Revoked) sh)
          else (Inr s, sh))"

fun service_list_loop ::
  "accounts \<Rightarrow> string \<Rightarrow> string \<Rightarrow> int \<Rightarrow> string list \<Rightarrow> shells \<Rightarrow> string list \<times> shells" where
  "service_list_loop accounts setting key now [] sh = ([], sh)"
| "service_list_loop accounts setting key now (i # rest) sh =
     (if session_where (\<lambda>s. still_allowed accounts setting s (Some key)) sh i
      then (case service_list_loop accounts setting key now rest sh of (kept, sh) \<Rightarrow> (i # kept, sh))
      else service_list_loop accounts setting key now rest (finish now i (Some Revoked) sh))"

definition service_list ::
  "accounts \<Rightarrow> string \<Rightarrow> request_user option \<Rightarrow> string \<Rightarrow> int \<Rightarrow> shells \<Rightarrow> string list \<times> shells" where
  "service_list accounts setting user key now sh =
     (case user of
        Some u \<Rightarrow> if ru_authenticated u then service_list_loop accounts setting key now (owned_by (ru_pk u) sh) sh else ([], sh)
      | None \<Rightarrow> ([], sh))"

definition INPUT_MAX :: nat where "INPUT_MAX = 64 * 1024"

definition service_input ::
  "accounts \<Rightarrow> string \<Rightarrow> request_user option \<Rightarrow> string \<Rightarrow> int \<Rightarrow> bool \<Rightarrow> string \<Rightarrow> int \<Rightarrow> bytes \<Rightarrow> shells \<Rightarrow> (shell_error + bool) \<times> shells" where
  "service_input accounts setting user key now sends i seq data sh =
     (if INPUT_MAX < length data then (Inl ValidationError, sh)
      else case service_get accounts setting user key now i sh of
        (Inl e, sh) \<Rightarrow> (Inl e, sh)
      | (Inr s, sh) \<Rightarrow> (case session_write now sends seq data s of (r, s) \<Rightarrow> (r, change_session i (\<lambda>_. s) sh)))"

definition service_resize ::
  "accounts \<Rightarrow> string \<Rightarrow> request_user option \<Rightarrow> string \<Rightarrow> int \<Rightarrow> string \<Rightarrow> nat \<Rightarrow> nat \<Rightarrow> shells \<Rightarrow> (shell_error + unit) \<times> shells" where
  "service_resize accounts setting user key now i cols rows sh =
     (case service_get accounts setting user key now i sh of
        (Inl e, sh) \<Rightarrow> (Inl e, sh)
      | (Inr s, sh) \<Rightarrow> (case session_resize cols rows s of (r, s) \<Rightarrow> (r, change_session i (\<lambda>_. s) sh)))"

definition service_close ::
  "accounts \<Rightarrow> string \<Rightarrow> request_user option \<Rightarrow> string \<Rightarrow> int \<Rightarrow> string \<Rightarrow> shells \<Rightarrow> (shell_error + unit) \<times> shells" where
  "service_close accounts setting user key now i sh =
     (case service_get accounts setting user key now i sh of
        (Inl e, sh) \<Rightarrow> (Inl e, sh)
      | (Inr s, sh) \<Rightarrow> (Inr (), finish now i (Some Closed) sh))"

record shell_output =
  so_data :: bytes
  so_cursor :: nat
  so_skipped :: bool
  so_closed :: bool
  so_reason :: "reason option"
  so_exit_status :: "int option"

text \<open>\<open>output\<close> up to the wait, and from the end of the wait: in between \<open>waits\<close> says whether it may wait.\<close>

definition own_ending :: "request_user option \<Rightarrow> string \<Rightarrow> int \<Rightarrow> string \<Rightarrow> shells \<Rightarrow> ending option" where
  "own_ending user key now i sh =
     (case ending_of now i sh of
        None \<Rightarrow> None
      | Some e \<Rightarrow>
          if signed_in user \<and> (case user of None \<Rightarrow> False | Some u \<Rightarrow> en_user e = ru_pk u) \<and> en_session_key e = key
          then Some e else None)"

definition output_begin ::
  "accounts \<Rightarrow> string \<Rightarrow> request_user option \<Rightarrow> string \<Rightarrow> int \<Rightarrow> string \<Rightarrow> nat \<Rightarrow> shells \<Rightarrow>
   (shell_error + (shell_output + (bool \<times> nat))) \<times> shells" where
  "output_begin accounts setting user key now i cursor sh =
     (case own_ending user key now i sh of
        Some e \<Rightarrow>
          (Inr (Inl \<lparr>so_data = [], so_cursor = max cursor (en_cursor e), so_skipped = cursor < en_cursor e, so_closed = True,
             so_reason = en_reason e, so_exit_status = en_exit_status e\<rparr>), sh)
      | None \<Rightarrow>
          (case service_get accounts setting user key now i sh of
             (Inl e, sh) \<Rightarrow> (Inl e, sh)
           | (Inr s, sh) \<Rightarrow> (case wait_begin i sh of (waits, sh) \<Rightarrow>
               (case session_read_begin now cursor (the (sh_objects sh i)) of (at, s) \<Rightarrow>
                 (Inr (Inr (waits, at)), change_session i (\<lambda>_. s) sh)))))"

definition output_end :: "int \<Rightarrow> string \<Rightarrow> bool \<Rightarrow> nat \<Rightarrow> shells \<Rightarrow> shell_output \<times> shells" where
  "output_end now i waits at sh =
     (case session_read_end now at (the (sh_objects sh i)) of ((data, following, skipped), s) \<Rightarrow>
        let sh = change_session i (\<lambda>_. s) sh;
            sh = (if waits then wait_end i sh else sh);
            closed = session_drained following s;
            sh = (if closed then finish now i None sh else sh)
        in (\<lparr>so_data = data, so_cursor = following, so_skipped = skipped, so_closed = closed,
             so_reason = (if closed then sn_reason s else None), so_exit_status = (if closed then sn_exit_status s else None)\<rparr>, sh))"

text \<open>
  \<open>open\<close> up to the reservation of a place, and from the connection on. The role, the password of the account (\<open>confirm\<close>)
  and the place are checked before; the connection is made outside the lock and \<open>connects\<close> says whether it succeeds.
\<close>

definition open_begin ::
  "accounts \<Rightarrow> string \<Rightarrow> request_user option \<Rightarrow> string \<Rightarrow> (shell_error + unit) \<Rightarrow> (shell_error + unit) \<Rightarrow> shells \<Rightarrow>
   shell_error + (string option \<times> shells)" where
  "open_begin accounts setting user password confirm place sh =
     (case require accounts user SHELL_OPEN of
        Inl (Role_required needed _) \<Rightarrow> Inl (RoleRequired needed)
      | Inr () \<Rightarrow>
          and_then (shell_allowed accounts setting user) (\<lambda>role.
          if password = [] then Inl ValidationError
          else and_then confirm (\<lambda>_.
               and_then place (\<lambda>_.
               and_then (reserve (case user of None \<Rightarrow> 0 | Some u \<Rightarrow> ru_pk u) sh) (\<lambda>sh. Inr (role, sh))))))"

definition open_end ::
  "shell_owner \<Rightarrow> bool \<Rightarrow> string \<Rightarrow> nat \<Rightarrow> nat \<Rightarrow> int \<Rightarrow> shells \<Rightarrow> (shell_error + shell_session) \<times> shells" where
  "open_end owner connects i cols rows now sh =
     (if \<not> connects then (Inl RemoteCommandFailed, unreserve (ow_user owner) sh)
      else let s = new_session owner cols rows now in (Inr s, unreserve (ow_user owner) (add_session i s sh)))"

fun sweep_loop :: "accounts \<Rightarrow> string \<Rightarrow> int \<Rightarrow> string list \<Rightarrow> shells \<Rightarrow> nat \<times> shells" where
  "sweep_loop accounts setting now [] sh = (0, sh)"
| "sweep_loop accounts setting now (i # rest) sh =
     (case sh_objects sh i of
        None \<Rightarrow> sweep_loop accounts setting now rest sh
      | Some s \<Rightarrow>
          let reason =
                (if \<not> sn_ended s
                 then (case overdue now s of
                         Some r \<Rightarrow> Some (Some r)
                       | None \<Rightarrow> if still_allowed accounts setting s None then None else Some (Some Revoked))
                 else if UNPOLLED_SECONDS \<le> now - sn_last_poll_at s then Some None else None)
          in case reason of
               None \<Rightarrow> sweep_loop accounts setting now rest sh
             | Some r \<Rightarrow> (case sweep_loop accounts setting now rest (finish now i r sh) of (n, sh) \<Rightarrow> (n + 1, sh)))"

definition sweep_terminals :: "accounts \<Rightarrow> string \<Rightarrow> int \<Rightarrow> shells \<Rightarrow> nat \<times> shells" where
  "sweep_terminals accounts setting now sh = sweep_loop accounts setting now (sh_sessions sh) sh"

definition close_signed_out :: "int \<Rightarrow> string \<Rightarrow> int \<Rightarrow> shells \<Rightarrow> shells" where
  "close_signed_out user key now sh =
     fold (\<lambda>i sh. if session_where (\<lambda>s. ow_session_key (sn_owner s) = key) sh i then finish now i (Some Signed_out) sh else sh)
       (owned_by user sh) sh"

definition stop_terminals :: "int \<Rightarrow> shells \<Rightarrow> nat \<times> shells" where
  "stop_terminals now sh = (length (sh_sessions sh), fold (\<lambda>i sh. finish now i (Some Stopping) sh) (sh_sessions sh) sh)"

section \<open>Threads\<close>

text \<open>
  The requests and the threads that are under way: the places reserved, each with whether its session has been added, the
  requests that wait, and the sessions being finished. Each step is what one thread does under one lock.
\<close>

record terminals =
  tm_shells :: shells
  tm_places :: "(int \<times> bool) list"
  tm_waits :: "string list"
  tm_finishing :: "string list"

definition terminals_start :: terminals where
  "terminals_start = \<lparr>tm_shells = new_shells, tm_places = [], tm_waits = [], tm_finishing = []\<rparr>"

inductive session_step :: "shell_session \<Rightarrow> shell_session \<Rightarrow> bool" where
  writes: "session_write now sends seq data s = (r, s') \<Longrightarrow> session_step s s'"
| resize: "session_resize cols rows s = (r, s') \<Longrightarrow> session_step s s'"
| read_begin: "session_read_begin now cursor s = (at, s') \<Longrightarrow> session_step s s'"
| read_end: "session_read_end now at s = (r, s') \<Longrightarrow> session_step s s'"
| received: "session_step s (session_received data s)"
| append: "\<not> append_waits data (sn_buffer s) \<Longrightarrow> session_append data s = (taken, s') \<Longrightarrow> session_step s s'"
| reader: "session_step s (reader_ends lost status s)"
| ends: "session_step s (session_end reason s)"

inductive terminals_step :: "terminals \<Rightarrow> terminals \<Rightarrow> bool" where
  reserves: "reserve user (tm_shells t) = Inr sh \<Longrightarrow>
    terminals_step t (t\<lparr>tm_shells := sh, tm_places := (user, False) # tm_places t\<rparr>)"
| adds: "(ow_user owner, False) \<in> set (tm_places t) \<Longrightarrow> sh_objects (tm_shells t) i = None \<Longrightarrow>
    terminals_step t (t\<lparr>tm_shells := add_session i (new_session owner cols rows now) (tm_shells t),
      tm_places := (ow_user owner, True) # remove1 (ow_user owner, False) (tm_places t)\<rparr>)"
| unreserves: "(user, added) \<in> set (tm_places t) \<Longrightarrow>
    terminals_step t (t\<lparr>tm_shells := unreserve user (tm_shells t), tm_places := remove1 (user, added) (tm_places t)\<rparr>)"
| waits: "wait_begin i (tm_shells t) = (True, sh) \<Longrightarrow>
    terminals_step t (t\<lparr>tm_shells := sh, tm_waits := i # tm_waits t\<rparr>)"
| wakes: "i \<in> set (tm_waits t) \<Longrightarrow>
    terminals_step t (t\<lparr>tm_shells := wait_end i (tm_shells t), tm_waits := remove1 i (tm_waits t)\<rparr>)"
| works: "sh_objects (tm_shells t) i = Some s \<Longrightarrow> session_step s s' \<Longrightarrow>
    terminals_step t (t\<lparr>tm_shells := change_session i (\<lambda>_. s') (tm_shells t)\<rparr>)"
| finishes: "sh_objects (tm_shells t) i = Some s \<Longrightarrow> finish_begin i reason (tm_shells t) = (first, sh) \<Longrightarrow>
    terminals_step t (t\<lparr>tm_shells := sh, tm_finishing := (if first then i # tm_finishing t else tm_finishing t)\<rparr>)"
| forgets: "i \<in> set (tm_finishing t) \<Longrightarrow>
    terminals_step t (t\<lparr>tm_shells := finish_rest now i (tm_shells t), tm_finishing := remove1 i (tm_finishing t)\<rparr>)"

end
