(* ===== verification/TerminalLimits.thy ===== *)
theory TerminalLimits
  imports Terminals
begin

text \<open>
  What holds of the terminals of the manager whatever the order of requests and threads: the limits on sessions and on
  waiting requests, whom a terminal obeys, and what the sweep leaves open.
\<close>

section \<open>Changing a session\<close>

lemma change_fields [simp]:
  "sh_sessions (change_session i f sh) = sh_sessions sh" "sh_reserved (change_session i f sh) = sh_reserved sh"
  "sh_waiters (change_session i f sh) = sh_waiters sh" "sh_endings (change_session i f sh) = sh_endings sh"
  by (auto simp: change_session_def split: option.splits)

lemma where_change [simp]:
  "session_where P (change_session i f sh) j \<longleftrightarrow> session_where (if j = i then \<lambda>s. P (f s) else P) sh j"
  by (auto simp: session_where_def change_session_def split: option.splits)

lemma objects_change [simp]: "sh_objects (change_session i f sh) j = (if j = i then map_option f (sh_objects sh j) else sh_objects sh j)"
  by (auto simp: change_session_def split: option.splits)

lemma where_update [simp]:
  "session_where P (sh\<lparr>sh_reserved := r\<rparr>) = session_where P sh" "session_where P (sh\<lparr>sh_waiters := n\<rparr>) = session_where P sh"
  "session_where P (sh\<lparr>sh_sessions := ss\<rparr>) = session_where P sh" "session_where P (sh\<lparr>sh_endings := es\<rparr>) = session_where P sh"
  by (simp_all add: session_where_def fun_eq_iff)

lemma change_id: "change_session i id sh = sh"
  by (cases sh) (auto simp: change_session_def fun_upd_idem split: option.splits)

lemma open_now_change:
  "(\<And>s. sn_finished (f s) = sn_finished s) \<Longrightarrow> open_now (change_session i f sh) = open_now sh"
  by (auto simp: open_now_def intro!: filter_cong split: if_splits)

definition same_kind :: "shell_session \<Rightarrow> shell_session \<Rightarrow> bool" where
  "same_kind s s' \<longleftrightarrow> sn_owner s' = sn_owner s \<and> sn_finished s' = sn_finished s \<and> sn_waiting s' = sn_waiting s"

lemma end_same: "same_kind s (session_end reason s)"
  by (simp add: same_kind_def session_end_def)

lemma session_step_same: "session_step s s' \<Longrightarrow> same_kind s s'"
proof (induction rule: session_step.induct)
  case (writes now sends seq data s r s')
  then show ?case using end_same [of s Lost] by (auto simp: session_write_def same_kind_def split: if_splits)
next
  case (reader s lost status)
  then show ?case by (simp add: same_kind_def reader_ends_def session_end_def split: option.splits)
next
  case (ends s reason)
  then show ?case by (rule end_same)
qed (auto simp: session_resize_def session_read_begin_def session_read_end_def session_received_def session_append_def same_kind_def
    split: if_splits prod.splits)

section \<open>The limits\<close>

definition places_of :: "int \<Rightarrow> terminals \<Rightarrow> nat" where
  "places_of user t = length (filter (\<lambda>p. fst p = user) (tm_places t))"

definition sessions_inv :: "terminals \<Rightarrow> bool" where
  "sessions_inv t \<longleftrightarrow> distinct (sh_sessions (tm_shells t)) \<and>
     (\<forall>i \<in> set (sh_sessions (tm_shells t)). sh_objects (tm_shells t) i \<noteq> None) \<and>
     (\<forall>i. session_where (\<lambda>s. \<not> sn_finished s) (tm_shells t) i \<longrightarrow> i \<in> set (sh_sessions (tm_shells t))) \<and>
     (\<forall>i \<in> set (tm_finishing t). session_where sn_finished (tm_shells t) i)"

definition reserved_inv :: "terminals \<Rightarrow> bool" where
  "reserved_inv t \<longleftrightarrow> distinct (map fst (sh_reserved (tm_shells t))) \<and>
     sum_list (map snd (sh_reserved (tm_shells t))) = length (tm_places t) \<and>
     (\<forall>user. reserved_for user (sh_reserved (tm_shells t)) = places_of user t)"

definition open_of :: "int \<Rightarrow> shells \<Rightarrow> string list" where
  "open_of user sh = filter (session_where (\<lambda>s. ow_user (sn_owner s) = user) sh) (open_now sh)"

definition limits_inv :: "terminals \<Rightarrow> bool" where
  "limits_inv t \<longleftrightarrow>
     length (open_now (tm_shells t)) + length (filter (\<lambda>p. \<not> snd p) (tm_places t)) \<le> MAX_SESSIONS \<and>
     (\<forall>user. length (open_of user (tm_shells t)) + length (filter (\<lambda>p. p = (user, False)) (tm_places t)) \<le> MAX_PER_ACCOUNT)"

definition waits_inv :: "terminals \<Rightarrow> bool" where
  "waits_inv t \<longleftrightarrow> sh_waiters (tm_shells t) = length (tm_waits t) \<and> length (tm_waits t) \<le> MAX_WAITERS \<and> distinct (tm_waits t) \<and>
     (\<forall>i. i \<in> set (tm_waits t) \<longleftrightarrow> session_where sn_waiting (tm_shells t) i)"

lemma sum_reserved_update:
  "distinct (map fst al) \<Longrightarrow>
   sum_list (map snd (AList.update u n al)) + reserved_for u al = sum_list (map snd al) + (n :: nat)"
  by (induction al) (auto simp: reserved_for_def dest: map_of_eq_None_iff [THEN iffD2])

lemma update_nonmember: "u \<notin> fst ` set al \<Longrightarrow> AList.update u n al = al @ [(u, n)]"
  by (induction al) auto

lemma sum_delete:
  "distinct (map fst al) \<Longrightarrow> sum_list (map snd (AList.delete u al)) + reserved_for u al = sum_list (map snd (al :: (int \<times> nat) list))"
proof (induction al)
  case (Cons p al)
  then show ?case
    by (cases p) (auto simp: reserved_for_def AList.delete_eq filter_id_conv dest!: map_of_eq_None_iff [THEN iffD2] split: option.splits)
qed (simp add: reserved_for_def)

lemma reserved_for_update [simp]:
  "reserved_for v (AList.update u n al) = (if v = u then n else reserved_for v al)"
  by (simp add: reserved_for_def update_conv')

lemma reserved_for_delete [simp]:
  "reserved_for v (AList.delete u al) = (if v = u then 0 else reserved_for v al)"
  by (simp add: reserved_for_def delete_conv')

lemma length_filter_remove1:
  "x \<in> set xs \<Longrightarrow> length (filter P xs) = length (filter P (remove1 x xs)) + (if P x then 1 else 0)"
  by (induction xs) auto


lemma length_filter_imp: "(\<And>x. P x \<Longrightarrow> Q x) \<Longrightarrow> length (filter P xs) \<le> length (filter Q xs)"
  by (induction xs) auto

definition limited :: "terminals \<Rightarrow> bool" where
  "limited t \<longleftrightarrow> sessions_inv t \<and> reserved_inv t \<and> limits_inv t \<and> waits_inv t"

text \<open>A step that leaves the counts of places and the kind of every session alone.\<close>

lemma limited_change:
  assumes "limited t" and "\<And>s. sh_objects (tm_shells t) i = Some s \<Longrightarrow> same_kind s (f s)"
  shows "limited (t\<lparr>tm_shells := change_session i f (tm_shells t)\<rparr>)"
proof -
  let ?sh = "tm_shells t"
  have same: "session_where P (change_session i f ?sh) j \<longleftrightarrow> session_where P ?sh j"
    if "\<And>s s'. same_kind s s' \<Longrightarrow> P s' \<longleftrightarrow> P s" for P j
    using assms(2) that by (auto simp: session_where_def split: option.splits)
  have "session_where (\<lambda>s. \<not> sn_finished s) (change_session i f ?sh) = session_where (\<lambda>s. \<not> sn_finished s) ?sh"
    "session_where sn_finished (change_session i f ?sh) = session_where sn_finished ?sh"
    "session_where sn_waiting (change_session i f ?sh) = session_where sn_waiting ?sh"
    "session_where (\<lambda>s. ow_user (sn_owner s) = u) (change_session i f ?sh) = session_where (\<lambda>s. ow_user (sn_owner s) = u) ?sh" for u
    by (intro ext same; simp add: same_kind_def)+
  then show ?thesis
    using assms(1) unfolding limited_def sessions_inv_def reserved_inv_def limits_inv_def waits_inv_def places_of_def open_of_def open_now_def
    by (simp del: where_change)
qed

lemma reserve_limited:
  assumes "limited t" "reserve user (tm_shells t) = Inr sh"
  shows "limited (t\<lparr>tm_shells := sh, tm_places := (user, False) # tm_places t\<rparr>)"
proof -
  let ?sh = "tm_shells t"
  have sh: "sh = ?sh\<lparr>sh_reserved := AList.update user (reserved_for user (sh_reserved ?sh) + 1) (sh_reserved ?sh)\<rparr>"
    and free: "length (open_now ?sh) + sum_list (map snd (sh_reserved ?sh)) < MAX_SESSIONS"
      "length (open_of user ?sh) + reserved_for user (sh_reserved ?sh) < MAX_PER_ACCOUNT"
    using assms(2) by (auto simp: reserve_def Let_def open_of_def split: if_splits)
  have R: "reserved_inv t" using assms(1) by (simp add: limited_def)
  have "length (filter (\<lambda>p. p = (user, False)) (tm_places t)) \<le> places_of user t"
    unfolding places_of_def by (rule length_filter_imp) simp
  then have own: "length (open_of user ?sh) + length (filter (\<lambda>p. p = (user, False)) (tm_places t)) < MAX_PER_ACCOUNT"
    using free(2) R by (simp add: reserved_inv_def)
  have all: "length (open_now ?sh) + length (filter (\<lambda>p. \<not> snd p) (tm_places t)) < MAX_SESSIONS"
  proof -
    have "length (filter (\<lambda>p. \<not> snd p) (tm_places t)) \<le> length (tm_places t)" by simp
    then show ?thesis using free(1) R unfolding reserved_inv_def by linarith
  qed
  have opens: "open_now sh = open_now ?sh" "open_of u sh = open_of u ?sh" for u by (simp_all add: sh open_now_def open_of_def)
  have "limits_inv (t\<lparr>tm_shells := sh, tm_places := (user, False) # tm_places t\<rparr>)"
    using assms(1) own all by (simp add: limited_def limits_inv_def opens)
  moreover have "reserved_inv (t\<lparr>tm_shells := sh, tm_places := (user, False) # tm_places t\<rparr>)"
    using R sum_reserved_update [of "sh_reserved ?sh" user "reserved_for user (sh_reserved ?sh) + 1"]
    by (auto simp: reserved_inv_def sh places_of_def distinct_update)
  ultimately show ?thesis using assms(1) by (simp add: limited_def sessions_inv_def waits_inv_def sh)
qed

lemma unreserve_limited:
  assumes "limited t" "(user, added) \<in> set (tm_places t)"
  shows "limited (t\<lparr>tm_shells := unreserve user (tm_shells t), tm_places := remove1 (user, added) (tm_places t)\<rparr>)"
proof -
  let ?sh = "tm_shells t" and ?places = "remove1 (user, added) (tm_places t)"
  have R: "reserved_inv t" using assms(1) by (simp add: limited_def)
  note count = length_filter_remove1 [OF assms(2)]
  have n: "reserved_for user (sh_reserved ?sh) = places_of user t" "0 < places_of user t"
    using R count [of "\<lambda>p. fst p = user"] by (simp_all add: reserved_inv_def places_of_def)
  define r where "r = AList.update user (reserved_for user (sh_reserved ?sh) - 1) (sh_reserved ?sh)"
  have r: "distinct (map fst r)" "Suc (sum_list (map snd r)) = length (tm_places t)"
    using R n sum_reserved_update [of "sh_reserved ?sh" user "reserved_for user (sh_reserved ?sh) - 1"]
    by (auto simp: r_def reserved_inv_def distinct_update)
  define r' where "r' = (if reserved_for user (sh_reserved ?sh) - 1 = 0 then AList.delete user r else r)"
  have r': "distinct (map fst r')" "sum_list (map snd r') = sum_list (map snd r)"
      "reserved_for u r' = (if u = user then places_of user t - 1 else places_of u t)" for u
    using r(1) sum_delete [OF r(1), of user] n R by (auto simp: r'_def r_def reserved_inv_def distinct_delete)
  have places: "places_of u (t\<lparr>tm_shells := sh, tm_places := ?places\<rparr>) = (if u = user then places_of user t - 1 else places_of u t)" for u sh
    using count [of "\<lambda>p. fst p = u"] by (auto simp: places_of_def)
  have sh: "unreserve user ?sh = ?sh\<lparr>sh_reserved := r'\<rparr>" by (simp add: unreserve_def Let_def r_def r'_def)
  have "reserved_inv (t\<lparr>tm_shells := unreserve user ?sh, tm_places := ?places\<rparr>)"
    using r' r(2) assms(2) unfolding reserved_inv_def places by (simp add: sh length_remove1)
  moreover have "limits_inv (t\<lparr>tm_shells := unreserve user ?sh, tm_places := ?places\<rparr>)"
    unfolding limits_inv_def
  proof (intro conjI allI)
    have "open_now (unreserve user ?sh) = open_now ?sh" by (simp add: sh open_now_def)
    then show "length (open_now (tm_shells (t\<lparr>tm_shells := unreserve user ?sh, tm_places := ?places\<rparr>))) +
        length (filter (\<lambda>p. \<not> snd p) (tm_places (t\<lparr>tm_shells := unreserve user ?sh, tm_places := ?places\<rparr>))) \<le> MAX_SESSIONS"
      using assms(1) count [of "\<lambda>p. \<not> snd p"] by (simp add: limited_def limits_inv_def)
    fix u
    have "open_of u (unreserve user ?sh) = open_of u ?sh" by (simp add: sh open_now_def open_of_def)
    then show "length (open_of u (tm_shells (t\<lparr>tm_shells := unreserve user ?sh, tm_places := ?places\<rparr>))) +
        length (filter (\<lambda>p. p = (u, False)) (tm_places (t\<lparr>tm_shells := unreserve user ?sh, tm_places := ?places\<rparr>))) \<le> MAX_PER_ACCOUNT"
      using spec [OF conjunct2 [OF assms(1) [unfolded limited_def limits_inv_def, THEN conjunct2, THEN conjunct2, THEN conjunct1]], of u]
        count [of "\<lambda>p. p = (u, False)"] by simp
  qed
  ultimately show ?thesis using assms(1) by (simp add: limited_def sessions_inv_def waits_inv_def sh)
qed


lemma add_limited:
  assumes "limited t" "(ow_user owner, False) \<in> set (tm_places t)" "sh_objects (tm_shells t) i = None"
  shows "limited (t\<lparr>tm_shells := add_session i (new_session owner cols rows now) (tm_shells t),
    tm_places := (ow_user owner, True) # remove1 (ow_user owner, False) (tm_places t)\<rparr>)"
    (is "limited ?t")
proof -
  let ?sh = "tm_shells t" and ?new = "new_session owner cols rows now" and ?u = "ow_user owner"
  note count = length_filter_remove1 [OF assms(2)]
  have S: "sessions_inv t" "reserved_inv t" "limits_inv t" "waits_inv t" using assms(1) by (simp_all add: limited_def)
  have i: "i \<notin> set (sh_sessions ?sh)" using S(1) assms(3) by (auto simp: sessions_inv_def)
  have sh: "tm_shells ?t = ?sh\<lparr>sh_objects := (sh_objects ?sh)(i \<mapsto> ?new), sh_sessions := sh_sessions ?sh @ [i]\<rparr>"
    using i by (simp add: add_session_def)
  have sw: "session_where P (tm_shells ?t) j \<longleftrightarrow> (if j = i then P ?new else session_where P ?sh j)" for P j
    by (simp add: sh session_where_def)
  define sh' where "sh' = tm_shells ?t"
  have sw': "session_where P sh' j \<longleftrightarrow> (if j = i then P ?new else session_where P ?sh j)" for P j unfolding sh'_def by (rule sw)
  have ss: "sh_sessions sh' = sh_sessions ?sh @ [i]" unfolding sh'_def sh by simp
  have new: "\<not> sn_finished ?new" "sn_owner ?new = owner" by (simp_all add: new_session_def)
  have "open_now sh' = open_now ?sh @ [i]"
    using i by (auto simp: open_now_def ss sw' new intro!: filter_cong split: if_splits)
  moreover have "i \<notin> set (open_now ?sh)" using i by (simp add: open_now_def)
  then have "filter (session_where (\<lambda>s. ow_user (sn_owner s) = u) sh') (open_now ?sh) = open_of u ?sh" for u
    unfolding open_of_def by (auto simp: sw' intro!: filter_cong split: if_splits)
  ultimately have own: "open_of u (tm_shells ?t) = open_of u ?sh @ (if u = ?u then [i] else [])"
      and opens: "open_now (tm_shells ?t) = open_now ?sh @ [i]" for u
    unfolding sh'_def [symmetric] by (auto simp: open_of_def [of u sh'] sw' new)
  have "limits_inv ?t"
    unfolding limits_inv_def opens own
  proof (intro conjI allI)
    show "length (open_now ?sh @ [i]) + length (filter (\<lambda>p. \<not> snd p) (tm_places ?t)) \<le> MAX_SESSIONS"
      using S(3) count [of "\<lambda>p. \<not> snd p"] by (simp add: limits_inv_def)
    show "length (open_of u ?sh @ (if u = ?u then [i] else [])) + length (filter (\<lambda>p. p = (u, False)) (tm_places ?t)) \<le> MAX_PER_ACCOUNT" for u
      using spec [OF conjunct2 [OF S(3) [unfolded limits_inv_def]], of u] count [of "\<lambda>p. p = (u, False)"] by auto
  qed
  moreover have "reserved_inv ?t"
  proof -
    have "places_of u ?t = places_of u t" for u using count [of "\<lambda>p. fst p = u"] by (auto simp: places_of_def)
    moreover have "length (tm_places ?t) = length (tm_places t)"
      using length_pos_if_in_set [OF assms(2)] assms(2) by (simp add: length_remove1)
    ultimately show ?thesis using S(2) unfolding reserved_inv_def by (simp add: sh)
  qed
  moreover have "sessions_inv ?t \<and> waits_inv ?t"
  proof -
    have flds: "sh_sessions (add_session i ?new ?sh) = sh_sessions ?sh @ [i]"
        "sh_objects (add_session i ?new ?sh) = (sh_objects ?sh)(i \<mapsto> ?new)" "sh_waiters (add_session i ?new ?sh) = sh_waiters ?sh"
      using i by (simp_all add: add_session_def)
    have sw2: "session_where P (add_session i ?new ?sh) j \<longleftrightarrow> (if j = i then P ?new else session_where P ?sh j)" for P j
      by (simp add: session_where_def flds)
    have none: "\<not> session_where P ?sh i" for P using assms(3) by (simp add: session_where_def)
    have new: "\<not> sn_finished ?new" "\<not> sn_waiting ?new" by (simp_all add: new_session_def)
    have "i \<notin> set (tm_finishing t)" "i \<notin> set (tm_waits t)"
      using S(1,4) none by (auto simp: sessions_inv_def waits_inv_def)
    then show ?thesis using S(1,4) i new none by (auto simp: sessions_inv_def waits_inv_def sw2 flds)
  qed
  ultimately show ?thesis by (simp add: limited_def)
qed

lemma wait_limited:
  assumes "limited t" "wait_begin i (tm_shells t) = (True, sh)"
  shows "limited (t\<lparr>tm_shells := sh, tm_waits := i # tm_waits t\<rparr>)"
proof -
  let ?sh = "tm_shells t"
  have free: "session_where (\<lambda>s. \<not> sn_waiting s) ?sh i" "sh_waiters ?sh < MAX_WAITERS"
    and sh: "sh = change_session i (\<lambda>s. s\<lparr>sn_waiting := True\<rparr>) (?sh\<lparr>sh_waiters := sh_waiters ?sh + 1\<rparr>)"
    using assms(2) by (auto simp: wait_begin_def split: if_splits)
  have exists: "\<not> session_where sn_waiting ?sh i" "session_where (\<lambda>s. True) ?sh i"
    using free(1) by (auto simp: session_where_def split: option.splits)
  have opens: "open_now sh = open_now ?sh" unfolding sh by (subst open_now_change) (simp_all add: open_now_def)
  have "open_of u sh = open_of u ?sh" for u
    unfolding open_of_def opens by (rule filter_cong) (simp_all add: sh)
  then show ?thesis
    using assms(1) opens exists free(2) unfolding limited_def
    by (auto simp: sessions_inv_def reserved_inv_def limits_inv_def waits_inv_def places_of_def sh split: if_splits)
qed

lemma wake_limited:
  assumes "limited t" "i \<in> set (tm_waits t)"
  shows "limited (t\<lparr>tm_shells := wait_end i (tm_shells t), tm_waits := remove1 i (tm_waits t)\<rparr>)"
proof -
  let ?sh = "tm_shells t" and ?sh' = "wait_end i (tm_shells t)"
  have opens: "open_now ?sh' = open_now ?sh" unfolding wait_end_def by (subst open_now_change) (simp_all add: open_now_def)
  have "open_of u ?sh' = open_of u ?sh" for u
    unfolding open_of_def opens by (rule filter_cong) (simp_all add: wait_end_def)
  then show ?thesis
    using assms opens unfolding limited_def
    by (auto simp: sessions_inv_def reserved_inv_def limits_inv_def waits_inv_def places_of_def wait_end_def length_remove1
        session_where_def comp_def split: if_splits option.splits)
qed


lemma finished_fewer:
  shows "length (open_now (change_session i (\<lambda>s. s\<lparr>sn_finished := True\<rparr>) sh)) \<le> length (open_now sh)"
    and "length (open_of u (change_session i (\<lambda>s. s\<lparr>sn_finished := True\<rparr>) sh)) \<le> length (open_of u sh)"
proof -
  let ?f = "change_session i (\<lambda>s. s\<lparr>sn_finished := True\<rparr>) sh"
  have imp: "session_where (\<lambda>s. \<not> sn_finished s) ?f j \<Longrightarrow> session_where (\<lambda>s. \<not> sn_finished s) sh j" for j
    by (auto simp: session_where_def split: if_splits option.splits)
  show "length (open_now ?f) \<le> length (open_now sh)"
    unfolding open_now_def change_fields by (rule length_filter_imp) (rule imp)
  have user: "session_where (\<lambda>s. ow_user (sn_owner s) = u) ?f j = session_where (\<lambda>s. ow_user (sn_owner s) = u) sh j" for j
    by (auto simp: session_where_def split: option.splits)
  show "length (open_of u ?f) \<le> length (open_of u sh)"
    unfolding open_of_def open_now_def change_fields filter_filter
    by (rule length_filter_imp) (use imp user in blast)
qed

lemma mark_limited:
  assumes "limited t"
  shows "limited (t\<lparr>tm_shells := change_session i (\<lambda>s. s\<lparr>sn_finished := True\<rparr>) (tm_shells t),
    tm_finishing := i # tm_finishing t\<rparr>) \<or> \<not> session_where (\<lambda>s. True) (tm_shells t) i"
proof (cases "session_where (\<lambda>s. True) (tm_shells t) i")
  case True
  let ?sh = "change_session i (\<lambda>s. s\<lparr>sn_finished := True\<rparr>) (tm_shells t)"
  have fewer: "length (open_now ?sh) \<le> length (open_now (tm_shells t))" "length (open_of u ?sh) \<le> length (open_of u (tm_shells t))" for u
    using finished_fewer by simp_all
  have marked: "session_where sn_finished ?sh j = (j = i \<or> session_where sn_finished (tm_shells t) j)"
    "session_where sn_waiting ?sh j = session_where sn_waiting (tm_shells t) j"
    "session_where (\<lambda>s. \<not> sn_finished s) ?sh j \<Longrightarrow> session_where (\<lambda>s. \<not> sn_finished s) (tm_shells t) j" for j
    using True by (auto simp: session_where_def comp_def split: option.splits if_splits)
  have "limits_inv (t\<lparr>tm_shells := ?sh, tm_finishing := i # tm_finishing t\<rparr>)"
    using assms fewer unfolding limited_def limits_inv_def by simp (meson add_le_mono1 order_trans)
  moreover have "sessions_inv (t\<lparr>tm_shells := ?sh, tm_finishing := i # tm_finishing t\<rparr>)"
    using assms marked(1,3) unfolding limited_def sessions_inv_def by (simp del: where_change)
  moreover have "waits_inv (t\<lparr>tm_shells := ?sh, tm_finishing := i # tm_finishing t\<rparr>)"
    using assms marked(2) unfolding limited_def waits_inv_def by (simp del: where_change)
  ultimately show ?thesis using assms by (simp add: limited_def reserved_inv_def places_of_def)
qed simp

lemma finish_limited:
  assumes "limited t" "sh_objects (tm_shells t) i = Some s" "finish_begin i reason (tm_shells t) = (first, sh)"
  shows "limited (t\<lparr>tm_shells := sh, tm_finishing := (if first then i # tm_finishing t else tm_finishing t)\<rparr>)"
proof -
  define f where "f = (case reason of None \<Rightarrow> id | Some r \<Rightarrow> session_end r)"
  define sh1 where "sh1 = change_session i f (tm_shells t)"
  have sh1: "sh1 = (case reason of None \<Rightarrow> tm_shells t | Some r \<Rightarrow> change_session i (session_end r) (tm_shells t))"
    by (cases reason) (simp_all add: sh1_def f_def change_id)
  have "same_kind s (f s)" for s by (cases reason) (simp_all add: f_def end_same, simp add: same_kind_def)
  then have one: "limited (t\<lparr>tm_shells := sh1\<rparr>)" unfolding sh1_def by (intro limited_change [OF assms(1)])
  have exists: "session_where (\<lambda>s. True) sh1 i" using assms(2) by (simp add: sh1_def session_where_def)
  show ?thesis
  proof (cases "session_where sn_finished sh1 i")
    case True
    then have "first = False" "sh = sh1" using assms(3) unfolding finish_begin_def sh1 [symmetric] by simp_all
    then show ?thesis using one by simp
  next
    case False
    then have "first = True" "sh = change_session i (\<lambda>s. s\<lparr>sn_finished := True\<rparr>) sh1"
      using assms(3) unfolding finish_begin_def sh1 [symmetric] by simp_all
    then show ?thesis using mark_limited [OF one, of i] exists by simp
  qed
qed

lemma forget_limited:
  assumes "limited t" "i \<in> set (tm_finishing t)"
  shows "limited (t\<lparr>tm_shells := finish_rest now i (tm_shells t), tm_finishing := remove1 i (tm_finishing t)\<rparr>)"
proof -
  define f where "f = (\<lambda>s. session_release (session_end Closed s))"
  define sh where "sh = change_session i f (tm_shells t)"
  have "same_kind s (f s)" for s by (simp add: f_def same_kind_def session_release_def session_end_def)
  then have one: "limited (t\<lparr>tm_shells := sh\<rparr>)" unfolding sh_def by (intro limited_change [OF assms(1)])
  then have fin: "session_where sn_finished sh i" using assms(2) by (simp add: limited_def sessions_inv_def)
  then obtain s where s: "sh_objects sh i = Some s" by (auto simp: session_where_def split: option.splits)
  have rest: "finish_rest now i (tm_shells t) = forget now i s sh"
    unfolding finish_rest_def Let_def f_def [symmetric] sh_def [symmetric] s by simp
  have notopen: "\<not> session_where (\<lambda>s. \<not> sn_finished s) sh i" using fin by (auto simp: session_where_def split: option.splits)
  then have opens: "open_now (forget now i s sh) = open_now sh"
    by (auto simp: open_now_def forget_def intro: filter_cong)
  have "open_of u (forget now i s sh) = open_of u sh" for u
    unfolding open_of_def opens by (simp add: forget_def)
  then show ?thesis
    using one opens notopen unfolding rest limited_def
    by (auto simp: sessions_inv_def reserved_inv_def limits_inv_def waits_inv_def places_of_def forget_def dest: notin_set_remove1)
qed

lemma limited_start: "limited terminals_start"
  by (simp add: limited_def terminals_start_def new_shells_def sessions_inv_def reserved_inv_def limits_inv_def waits_inv_def
      places_of_def open_now_def open_of_def session_where_def reserved_for_def)

lemma limited_step: "terminals_step t t' \<Longrightarrow> limited t \<Longrightarrow> limited t'"
proof (induction rule: terminals_step.induct)
  case (works t i s s')
  then show ?case using session_step_same [OF works(2)] by (intro limited_change) simp_all
next
  case (finishes t i s reason first sh)
  then show ?case by (intro finish_limited)
qed (auto intro: reserve_limited add_limited unreserve_limited wait_limited wake_limited forget_limited)

lemma limited_reachable: "terminals_step\<^sup>*\<^sup>* terminals_start t \<Longrightarrow> limited t"
  by (induction rule: rtranclp_induct) (simp_all add: limited_start limited_step)

section \<open>What the sweep leaves\<close>

definition kept_by_sweep :: "accounts \<Rightarrow> string \<Rightarrow> int \<Rightarrow> shell_session \<Rightarrow> bool" where
  "kept_by_sweep accounts setting now s \<longleftrightarrow>
     (if sn_ended s then now - sn_last_poll_at s < UNPOLLED_SECONDS
      else now - sn_opened_at s < LIFETIME_SECONDS \<and> now - sn_last_input_at s < IDLE_SECONDS \<and>
        (sn_waiting s \<or> now - sn_last_poll_at s < UNPOLLED_SECONDS) \<and> still_allowed accounts setting s None)"

lemma finish_unfinished:
  assumes "sh_objects sh i = Some s" "\<not> sn_finished s"
  shows "sh_sessions (finish now i reason sh) = filter (\<lambda>j. j \<noteq> i) (sh_sessions sh)"
    and "j \<noteq> i \<Longrightarrow> sh_objects (finish now i reason sh) j = sh_objects sh j"
proof -
  define f where "f = (case reason of None \<Rightarrow> id | Some r \<Rightarrow> session_end r)"
  have f: "(case reason of None \<Rightarrow> sh | Some r \<Rightarrow> change_session i (session_end r) sh) = change_session i f sh"
    by (cases reason) (simp_all add: f_def change_id)
  have fin: "\<not> sn_finished (f s)" by (cases reason) (simp_all add: f_def assms(2) session_end_def)
  have begins: "finish_begin i reason sh = (True, change_session i (\<lambda>s. s\<lparr>sn_finished := True\<rparr>) (change_session i f sh))"
    unfolding finish_begin_def f using assms(1) fin by (simp add: session_where_def)
  show "sh_sessions (finish now i reason sh) = filter (\<lambda>j. j \<noteq> i) (sh_sessions sh)"
    "j \<noteq> i \<Longrightarrow> sh_objects (finish now i reason sh) j = sh_objects sh j"
    using assms(1) by (simp_all add: finish_def begins finish_rest_def Let_def forget_def)
qed

lemma sweep_loop_keeps:
  assumes "distinct ids" and "\<forall>i \<in> set ids. session_where (\<lambda>s. \<not> sn_finished s) sh i"
  shows "fst (sweep_loop accounts setting now ids sh) = length (filter (\<lambda>i. \<not> session_where (kept_by_sweep accounts setting now) sh i) ids) \<and>
    sh_sessions (snd (sweep_loop accounts setting now ids sh)) =
      filter (\<lambda>i. i \<notin> set ids \<or> session_where (kept_by_sweep accounts setting now) sh i) (sh_sessions sh)"
  using assms
proof (induction ids arbitrary: sh)
  case (Cons i ids)
  obtain s where s: "sh_objects sh i = Some s" "\<not> sn_finished s"
    using Cons.prems(2) by (auto simp: session_where_def split: option.splits)
  let ?kept = "kept_by_sweep accounts setting now"
  define why where "why = (if \<not> sn_ended s
                 then (case overdue now s of
                         Some r \<Rightarrow> Some (Some r)
                       | None \<Rightarrow> if still_allowed accounts setting s None then None else Some (Some Revoked))
                 else if UNPOLLED_SECONDS \<le> now - sn_last_poll_at s then Some None else None)"
  have why: "why = None \<longleftrightarrow> ?kept s"
    by (auto simp: why_def kept_by_sweep_def overdue_def)
  have i: "session_where ?kept sh i \<longleftrightarrow> ?kept s" using s(1) by (simp add: session_where_def)
  have step: "sweep_loop accounts setting now (i # ids) sh =
      (case why of None \<Rightarrow> sweep_loop accounts setting now ids sh
       | Some r \<Rightarrow> (case sweep_loop accounts setting now ids (finish now i r sh) of (n, sh) \<Rightarrow> (n + 1, sh)))"
    by (simp only: sweep_loop.simps s(1) option.case Let_def why_def)
  have prems: "distinct ids" "i \<notin> set ids" "\<forall>j \<in> set ids. session_where (\<lambda>s. \<not> sn_finished s) sh j" using Cons.prems by auto
  show ?case
  proof (cases why)
    case None
    then have "?kept s" using why by simp
    then show ?thesis using Cons.IH [OF prems(1,3)] step None i by (auto intro!: filter_cong)
  next
    case (Some r)
    then have nk: "\<not> ?kept s" using why by auto
    let ?sh = "finish now i r sh"
    note F = finish_unfinished(1) [OF s, of now r] finish_unfinished(2) [OF s, where now = now and reason = r]
    have same: "session_where P ?sh j = session_where P sh j" if "j \<in> set ids" for P j
    proof -
      have "j \<noteq> i" using prems(2) that by auto
      then show ?thesis by (simp add: session_where_def F(2))
    qed
    have loop: "fst (sweep_loop accounts setting now ids ?sh) = length (filter (\<lambda>j. \<not> session_where ?kept ?sh j) ids)"
      "sh_sessions (snd (sweep_loop accounts setting now ids ?sh)) =
        filter (\<lambda>j. j \<notin> set ids \<or> session_where ?kept ?sh j) (sh_sessions ?sh)"
      using Cons.IH [OF prems(1), of ?sh] prems(3) same by simp_all
    have count: "filter (\<lambda>j. \<not> session_where ?kept ?sh j) ids = filter (\<lambda>j. \<not> session_where ?kept sh j) ids"
      using same by (intro filter_cong) simp_all
    have rest: "filter (\<lambda>j. j \<notin> set ids \<or> session_where ?kept ?sh j) (sh_sessions ?sh) =
        filter (\<lambda>j. j \<notin> set (i # ids) \<or> session_where ?kept sh j) (sh_sessions sh)"
      unfolding F(1) filter_filter using same i nk by (intro filter_cong) auto
    show ?thesis using step Some loop unfolding count rest using i nk by (simp split: prod.splits)
  qed
qed simp

section \<open>Properties\<close>

text \<open>
  C25: Whatever the order of requests, of the threads that read the terminals and of those that close them, at most four
  terminals are open at a time and at most two per account, including those whose closing has been overtaken by other
  requests; and at most six requests wait for output, at most one per terminal.
\<close>

theorem terminals_stay_within_limits:
  assumes "terminals_step\<^sup>*\<^sup>* terminals_start t"
  shows "card {i. session_where (\<lambda>s. \<not> sn_finished s) (tm_shells t) i} \<le> MAX_SESSIONS \<and>
    card {i. session_where (\<lambda>s. \<not> sn_finished s \<and> ow_user (sn_owner s) = user) (tm_shells t) i} \<le> MAX_PER_ACCOUNT \<and>
    card {i. session_where sn_waiting (tm_shells t) i} = length (tm_waits t) \<and> length (tm_waits t) \<le> MAX_WAITERS"
proof -
  have I: "sessions_inv t" "limits_inv t" "waits_inv t" using limited_reachable [OF assms] by (simp_all add: limited_def)
  have opens: "{i. session_where (\<lambda>s. \<not> sn_finished s) (tm_shells t) i} = set (open_now (tm_shells t))"
    using I(1) by (auto simp: sessions_inv_def open_now_def)
  have mine: "{i. session_where (\<lambda>s. \<not> sn_finished s \<and> ow_user (sn_owner s) = user) (tm_shells t) i} = set (open_of user (tm_shells t))"
    unfolding open_of_def set_filter opens [symmetric] by (auto simp: session_where_def split: option.splits)
  have "card (set (open_now (tm_shells t))) \<le> MAX_SESSIONS"
    using I(2) card_length [of "open_now (tm_shells t)"] by (simp add: limits_inv_def)
  moreover have "card (set (open_of user (tm_shells t))) \<le> MAX_PER_ACCOUNT"
    using spec [OF conjunct2 [OF I(2) [unfolded limits_inv_def]], of user] card_length [of "open_of user (tm_shells t)"] by simp
  moreover have "{i. session_where sn_waiting (tm_shells t) i} = set (tm_waits t)" using I(3) by (auto simp: waits_inv_def)
  ultimately show ?thesis using I(3) unfolding opens mine by (simp add: waits_inv_def distinct_card)
qed

theorem terminals_stay_within_limits_witness:
  "\<exists>t. terminals_step\<^sup>*\<^sup>* terminals_start t \<and> session_where (\<lambda>s. \<not> sn_finished s) (tm_shells t) ''x'' \<and>
    card {i. session_where (\<lambda>s. \<not> sn_finished s) (tm_shells t) i} \<le> MAX_SESSIONS"
proof -
  let ?owner = "\<lparr>ow_user = 7, ow_session_key = ''k'', ow_password = ''p'', ow_role = Some ADMIN\<rparr>"
  let ?t1 = "terminals_start\<lparr>tm_shells := new_shells\<lparr>sh_reserved := [(7, 1)]\<rparr>, tm_places := [(7, False)]\<rparr>"
  have reserved: "reserve 7 (tm_shells terminals_start) = Inr (new_shells\<lparr>sh_reserved := [(7, 1)]\<rparr>)"
    by (simp add: reserve_def terminals_start_def new_shells_def open_now_def reserved_for_def MAX_SESSIONS_def MAX_PER_ACCOUNT_def)
  have 1: "terminals_step terminals_start ?t1"
    using terminals_step.reserves [OF reserved] by (simp add: terminals_start_def)
  have "(ow_user ?owner, False) \<in> set (tm_places ?t1)" "sh_objects (tm_shells ?t1) ''x'' = None" by (simp_all add: new_shells_def)
  note 2 = terminals_step.adds [OF this, of 80 24 0]
  let ?t2 = "?t1\<lparr>tm_shells := add_session ''x'' (new_session ?owner 80 24 0) (tm_shells ?t1),
        tm_places := (ow_user ?owner, True) # remove1 (ow_user ?owner, False) (tm_places ?t1)\<rparr>"
  have reach: "terminals_step\<^sup>*\<^sup>* terminals_start ?t2"
    using 1 2 by (meson converse_rtranclp_into_rtranclp rtranclp.rtrancl_refl)
  have "session_where (\<lambda>s. \<not> sn_finished s) (tm_shells ?t2) ''x''"
    by (simp add: session_where_def add_session_def new_session_def)
  then show ?thesis using reach terminals_stay_within_limits [OF reach, of 7] by blast
qed

text \<open>
  The sweep leaves open exactly the terminals that may stay: those within two hours of opening, fifteen minutes of
  input and a minute of polling (or waiting for output), whose account is active with the password and the role it had when
  they were opened and still may open a terminal; one that has ended stays a minute for its last output. It counts the
  others.
\<close>

theorem sweep_leaves_what_may_stay:
  assumes "distinct (sh_sessions sh)" and "list_all (session_where (\<lambda>s. \<not> sn_finished s) sh) (sh_sessions sh)"
  shows "sh_sessions (snd (sweep_terminals accounts setting now sh)) =
      filter (session_where (kept_by_sweep accounts setting now) sh) (sh_sessions sh) \<and>
    fst (sweep_terminals accounts setting now sh) =
      length (filter (\<lambda>i. \<not> session_where (kept_by_sweep accounts setting now) sh i) (sh_sessions sh))"
  using sweep_loop_keeps [OF assms(1), of sh accounts setting now] assms(2)
  by (auto simp: sweep_terminals_def list_all_iff intro!: filter_cong)

theorem sweep_leaves_what_may_stay_witness:
  "sh_sessions (snd (sweep_terminals (\<lambda>_. None) ''admins'' 0
     (add_session ''x'' (new_session \<lparr>ow_user = 7, ow_session_key = ''k'', ow_password = ''p'', ow_role = Some ADMIN\<rparr> 80 24 0) new_shells))) = []"
proof -
  let ?owner = "\<lparr>ow_user = 7, ow_session_key = ''k'', ow_password = ''p'', ow_role = Some ADMIN\<rparr>"
  let ?sh = "add_session ''x'' (new_session ?owner 80 24 0) new_shells"
  have sessions: "sh_sessions ?sh = [''x'']" by (simp add: add_session_def new_shells_def)
  have ok: "distinct (sh_sessions ?sh)" "list_all (session_where (\<lambda>s. \<not> sn_finished s) ?sh) (sh_sessions ?sh)"
    unfolding sessions by (simp_all add: session_where_def add_session_def new_session_def)
  have "\<not> session_where (kept_by_sweep (\<lambda>_. None) ''admins'' 0) ?sh ''x''"
    by (simp add: session_where_def add_session_def kept_by_sweep_def still_allowed_def new_session_def)
  then show ?thesis using sweep_leaves_what_may_stay [OF ok, of "\<lambda>_. None" "''admins''" 0] by (simp add: sessions)
qed

text \<open>
  Keystrokes reach a terminal only from the person who opened it: when a request to type is accepted, it comes
  authenticated, from the account and the login session that opened the terminal, the account is active with the
  same password and the same role, that role is an admin or the master, and the policy of the manager still allows it.
  Every number of a message is accepted at most once, in rising order.
\<close>

theorem only_the_owner_types:
  assumes "service_input accounts setting user key now sends i seq data sh = (Inr True, sh')"
  shows "\<exists>u s a s'. user = Some u \<and> ru_authenticated u \<and> find_session i sh = Some s \<and> ow_user (sn_owner s) = ru_pk u \<and>
    ow_session_key (sn_owner s) = key \<and> accounts (ru_pk u) = Some a \<and> ac_active a \<and> ac_password a = ow_password (sn_owner s) \<and>
    role_of accounts user = ow_role (sn_owner s) \<and> (ow_role (sn_owner s) = Some ADMIN \<or> ow_role (sn_owner s) = Some MASTER) \<and>
    terminal_policy setting \<noteq> OFF \<and> sn_last_seq s < seq \<and> find_session i sh' = Some s' \<and> sn_last_seq s' = seq \<and>
    sn_sent s' = sn_sent s @ [(seq, data)]"
proof -
  obtain s sh1 s' where g: "service_get accounts setting user key now i sh = (Inr s, sh1)"
      "session_write now sends seq data s = (Inr True, s')" "sh' = change_session i (\<lambda>_. s') sh1"
    using assms by (auto simp: service_input_def split: if_splits prod.splits sum.splits)
  have found: "find_session i sh = Some s" "sh1 = sh" "signed_in user"
      "\<not> (case user of None \<Rightarrow> True | Some u \<Rightarrow> ow_user (sn_owner s) \<noteq> ru_pk u)" "still_allowed accounts setting s (Some key)"
    using g(1) by (auto simp: service_get_def split: option.splits if_splits)
  obtain u where u: "user = Some u" "ru_authenticated u" "ow_user (sn_owner s) = ru_pk u"
    using found(3,4) by (cases user) (auto simp: signed_in_def)
  have self: "\<lparr>ru_pk = ru_pk u, ru_authenticated = True\<rparr> = u" using u(2) by (cases u) simp
  obtain a where a: "ow_session_key (sn_owner s) = key" "accounts (ru_pk u) = Some a" "ac_active a" "ac_password a = ow_password (sn_owner s)"
      "role_of accounts user = ow_role (sn_owner s)" "allows (ow_role (sn_owner s)) SHELL_OPEN" "terminal_policy setting \<noteq> OFF"
    using found(5) unfolding still_allowed_def u self by (auto simp: Let_def split: option.splits if_splits)
  have w: "sn_last_seq s < seq" "sn_last_seq s' = seq" "sn_sent s' = sn_sent s @ [(seq, data)]"
    using g(2) by (auto simp: session_write_def split: if_splits)
  have "find_session i sh' = Some s'"
    using found(1) unfolding g(3) found(2) by (auto simp: find_session_def split: if_splits)
  then show ?thesis using u a w found(1) shell_is_for_admins by blast
qed

theorem only_the_owner_types_witness:
  "\<exists>sh'. service_input (\<lambda>_. Some \<lparr>ac_password = ''p'', ac_role = Some ADMIN, ac_active = True\<rparr>) ''admins''
      (Some \<lparr>ru_pk = 7, ru_authenticated = True\<rparr>) ''k'' 5 True ''x'' 0 [108, 115]
      (add_session ''x'' (new_session \<lparr>ow_user = 7, ow_session_key = ''k'', ow_password = ''p'', ow_role = Some ADMIN\<rparr> 80 24 0) new_shells)
    = (Inr True, sh') \<and> map_option sn_sent (find_session ''x'' sh') = Some [(0, [108, 115])]"
proof -
  let ?owner = "\<lparr>ow_user = 7, ow_session_key = ''k'', ow_password = ''p'', ow_role = Some ADMIN\<rparr>"
  let ?s = "new_session ?owner 80 24 0"
  let ?sh = "add_session ''x'' ?s new_shells"
  let ?accounts = "\<lambda>_ :: int. Some \<lparr>ac_password = ''p'', ac_role = Some ADMIN, ac_active = True\<rparr>"
  let ?user = "Some \<lparr>ru_pk = 7, ru_authenticated = True\<rparr>"
  have found: "find_session ''x'' ?sh = Some ?s" by (simp add: find_session_def add_session_def new_shells_def)
  have own: "sn_owner ?s = ?owner" "\<not> sn_finished ?s" "sn_sent ?s = []" by (simp_all add: new_session_def)
  have policy: "terminal_policy ''admins'' = ADMINS" by code_simp
  have role: "role_of ?accounts ?user = Some ADMIN" by (simp add: role_of_def ADMIN_def)
  have names: "ADMINS \<noteq> OFF" "ADMINS \<noteq> MASTER" by (simp_all add: ADMINS_def OFF_def MASTER_def)
  have "still_allowed ?accounts ''admins'' ?s (Some ''k'')"
    using role names by (simp add: still_allowed_def own policy shell_is_for_admins)
  then have get: "service_get ?accounts ''admins'' ?user ''k'' 5 ''x'' ?sh = (Inr ?s, ?sh)"
    by (simp add: service_get_def found signed_in_def own)
  have "\<exists>s'. session_write 5 True 0 [108, 115] ?s = (Inr True, s')" by (simp add: session_write_def new_session_def)
  then obtain s' where "session_write 5 True 0 [108, 115] ?s = (Inr True, s')" by blast
  then have input: "service_input ?accounts ''admins'' ?user ''k'' 5 True ''x'' 0 [108, 115] ?sh
      = (Inr True, change_session ''x'' (\<lambda>_. s') ?sh)"
    by (simp add: service_input_def get INPUT_MAX_def)
  obtain s1 s2 where "find_session ''x'' ?sh = Some s1" "find_session ''x'' (change_session ''x'' (\<lambda>_. s') ?sh) = Some s2"
      "sn_sent s2 = sn_sent s1 @ [(0, [108, 115])]"
    using only_the_owner_types [OF input] by blast
  then show ?thesis using found own(3) input by simp
qed

end
