(* ===== verification/Packages.thy ===== *)
theory Packages
  imports Catalogue
begin

text \<open>
  What a server runs and what a move has to install on it: \<^verbatim>\<open>src/dbs/manager/relocation/systems.py\<close>
  (reading \<^verbatim>\<open>/etc/os-release\<close>, with \<^verbatim>\<open>shlex.split\<close> of the standard library) and
  \<^verbatim>\<open>src/dbs/manager/relocation/packages.py\<close> (the packages of each need, and \<^verbatim>\<open>resolve\<close>, which plans what is missing).
\<close>

section \<open>Reading os-release\<close>

text \<open>\<^verbatim>\<open>shlex.split\<close>: between words, in a word, in quotes, after a backslash (in a word or in double quotes).\<close>

datatype shlex_state = Between | InWord | InQuote char | EscapedWord | EscapedQuote char

abbreviation backslash :: char where "backslash \<equiv> CHR 0x5C"
abbreviation double_quote :: char where "double_quote \<equiv> CHR 0x22"
abbreviation single_quote :: char where "single_quote \<equiv> CHR 0x27"

definition shlex_space :: "char \<Rightarrow> bool" where
  "shlex_space c \<longleftrightarrow> c = CHR '' '' \<or> c = CHR 0x09 \<or> c = CHR 0x0D \<or> c = newline"

definition shlex_quote :: "char \<Rightarrow> bool" where "shlex_quote c \<longleftrightarrow> c = double_quote \<or> c = single_quote"

fun shlex_scan :: "shlex_state \<Rightarrow> string \<Rightarrow> bool \<Rightarrow> string \<Rightarrow> string list option" where
  "shlex_scan Between token quoted [] = Some (if quoted \<or> token \<noteq> [] then [token] else [])"
| "shlex_scan InWord token quoted [] = Some (if quoted \<or> token \<noteq> [] then [token] else [])"
| "shlex_scan (InQuote q) token quoted [] = None"
| "shlex_scan EscapedWord token quoted [] = None"
| "shlex_scan (EscapedQuote q) token quoted [] = None"
| "shlex_scan Between token quoted (c # cs) =
     (if shlex_space c
      then (if token \<noteq> [] \<or> quoted then map_option ((#) token) (shlex_scan Between [] False cs)
            else shlex_scan Between token quoted cs)
      else if c = backslash then shlex_scan EscapedWord token quoted cs
      else if shlex_quote c then shlex_scan (InQuote c) token quoted cs
      else shlex_scan InWord [c] quoted cs)"
| "shlex_scan InWord token quoted (c # cs) =
     (if shlex_space c
      then (if token \<noteq> [] \<or> quoted then map_option ((#) token) (shlex_scan Between [] False cs)
            else shlex_scan Between token quoted cs)
      else if shlex_quote c then shlex_scan (InQuote c) token quoted cs
      else if c = backslash then shlex_scan EscapedWord token quoted cs
      else shlex_scan InWord (token @ [c]) quoted cs)"
| "shlex_scan (InQuote q) token quoted (c # cs) =
     (if c = q then shlex_scan InWord token True cs
      else if c = backslash \<and> q = double_quote then shlex_scan (EscapedQuote q) token True cs
      else shlex_scan (InQuote q) (token @ [c]) True cs)"
| "shlex_scan EscapedWord token quoted (c # cs) = shlex_scan InWord (token @ [c]) quoted cs"
| "shlex_scan (EscapedQuote q) token quoted (c # cs) =
     shlex_scan (InQuote q) (if c \<noteq> backslash \<and> c \<noteq> q then token @ [backslash, c] else token @ [c]) quoted cs"

definition shlex_split :: "string \<Rightarrow> string list option" where
  "shlex_split s = shlex_scan Between [] False s"

text \<open>\<^verbatim>\<open>str.splitlines\<close> for ASCII: line feed, carriage return (with its line feed), VT, FF and the separators 1C to 1E.\<close>

definition line_end :: "char \<Rightarrow> bool" where
  "line_end c \<longleftrightarrow> (let n = (of_char c :: nat) in (10 \<le> n \<and> n \<le> 13) \<or> (28 \<le> n \<and> n \<le> 30))"

fun split_lines :: "string \<Rightarrow> string \<Rightarrow> string list" where
  "split_lines line [] = (if line = [] then [] else [line])"
| "split_lines line (c # cs) =
     (if c = CHR 0x0D \<and> cs \<noteq> [] \<and> hd cs = newline then line # split_lines [] (tl cs)
      else if line_end c then line # split_lines [] cs
      else split_lines (line @ [c]) cs)"

text \<open>\<^verbatim>\<open>s.partition(sep)\<close> for a one-character separator.\<close>

definition text_partition :: "char \<Rightarrow> string \<Rightarrow> string \<times> bool \<times> string" where
  "text_partition sep s = (let head = takeWhile (\<lambda>c. c \<noteq> sep) s in (head, head \<noteq> s, drop (length head + 1) s))"

definition os_release_line :: "string \<Rightarrow> (string \<rightharpoonup> string) \<Rightarrow> (string \<rightharpoonup> string)" where
  "os_release_line line known =
     (case text_partition CHR ''='' (strip_spaces line) of (key, separator, value) \<Rightarrow>
        if \<not> separator \<or> key = [] \<or> hd key = CHR ''#'' then known
        else case shlex_split value of
               None \<Rightarrow> known
             | Some parts \<Rightarrow> known(key \<mapsto> (case parts of [] \<Rightarrow> [] | part # _ \<Rightarrow> part)))"

definition os_release :: "string \<Rightarrow> (string \<rightharpoonup> string)" where
  "os_release text = fold os_release_line (split_lines [] text) Map.empty"

section \<open>The system\<close>

record system =
  sy_family :: string
  sy_distribution :: string
  sy_version :: string
  sy_major :: nat
  sy_codename :: string
  sy_architecture :: string

definition DEBIAN :: string where "DEBIAN = ''debian''"
definition RHEL :: string where "RHEL = ''rhel''"
definition FEDORA :: string where "FEDORA = ''fedora''"

definition ARCHITECTURES :: "(string \<times> string) list" where
  "ARCHITECTURES = [(''x86_64'', ''amd64''), (''amd64'', ''amd64''), (''aarch64'', ''arm64''), (''arm64'', ''arm64'')]"

definition DEBIAN_MAJORS :: "nat list" where "DEBIAN_MAJORS = [11, 12, 13]"
definition UBUNTU_VERSIONS :: "string list" where "UBUNTU_VERSIONS = [''22.04'', ''24.04'', ''26.04'']"
definition RHEL_DISTRIBUTIONS :: "string list" where
  "RHEL_DISTRIBUTIONS = [''rhel'', ''rocky'', ''almalinux'', ''ol'', ''centos'']"
definition RHEL_MAJORS :: "nat list" where "RHEL_MAJORS = [8, 9, 10]"
definition CENTOS_MAJORS :: "nat list" where "CENTOS_MAJORS = [9, 10]"
definition FEDORA_MINIMUM :: nat where "FEDORA_MINIMUM = 41"

definition CODENAME :: "string \<Rightarrow> bool" where
  "CODENAME = until_dollar (\<lambda>s. s \<noteq> [] \<and> list_all is_lower s)"

definition supported :: "system \<Rightarrow> bool" where
  "supported sys \<longleftrightarrow> sy_family sys \<noteq> [] \<and> sy_architecture sys \<in> set (map snd ARCHITECTURES)"

definition major_of :: "string \<Rightarrow> nat" where
  "major_of version =
     (let head = hd (text_split CHR ''.'' version)
      in if head \<noteq> [] \<and> list_all is_digit head then number_of_digits head else 0)"

definition family_of :: "string \<Rightarrow> string \<Rightarrow> string" where
  "family_of distribution version =
     (let major = major_of version
      in if distribution = ''debian'' \<and> major \<in> set DEBIAN_MAJORS then DEBIAN
         else if distribution = ''ubuntu'' \<and> version \<in> set UBUNTU_VERSIONS then DEBIAN
         else if distribution = ''centos'' then (if major \<in> set CENTOS_MAJORS then RHEL else [])
         else if distribution \<in> set RHEL_DISTRIBUTIONS \<and> major \<in> set RHEL_MAJORS then RHEL
         else if distribution = ''fedora'' \<and> FEDORA_MINIMUM \<le> major then FEDORA
         else [])"

definition field_or :: "(string \<rightharpoonup> string) \<Rightarrow> string \<Rightarrow> string \<Rightarrow> string" where
  "field_or known key other = (case known key of Some v \<Rightarrow> if v \<noteq> [] then v else other | None \<Rightarrow> other)"

definition system_of :: "string \<Rightarrow> string \<Rightarrow> system" where
  "system_of text machine =
     (let known = os_release text;
          distribution = text_lower (field_or known ''ID'' []);
          version = field_or known ''VERSION_ID'' [];
          codename = text_lower (field_or known ''VERSION_CODENAME'' (field_or known ''UBUNTU_CODENAME'' []));
          machine = strip_spaces machine
      in \<lparr>sy_family = family_of distribution version, sy_distribution = distribution, sy_version = version,
          sy_major = major_of version, sy_codename = (if CODENAME codename then codename else []),
          sy_architecture = (case map_of ARCHITECTURES machine of Some a \<Rightarrow> a | None \<Rightarrow> machine)\<rparr>)"

section \<open>Packages\<close>

definition NEEDS :: "string list" where
  "NEEDS = [''basics'', ''docker'', ''podman'', ''git'', ''python'', ''nginx'', ''postgresql'', ''mariadb'', ''mysql'', ''redis'']"

definition DOCKER_DEBIAN_KEY :: string where "DOCKER_DEBIAN_KEY = ''9DC858229FC7DD38854AE2D88D81803C0EBFCD88''"
definition DOCKER_RPM_KEY :: string where "DOCKER_RPM_KEY = ''060A61C51B558A7F742B77AAC52FEB6B621E9F35''"
definition DOCKER_PACKAGES :: "string list" where
  "DOCKER_PACKAGES = [''docker-ce'', ''docker-ce-cli'', ''containerd.io'', ''docker-buildx-plugin'', ''docker-compose-plugin'']"
definition DOCKER_KEYRING :: string where "DOCKER_KEYRING = ''/etc/apt/keyrings/docker.asc''"
definition DOCKER_APT_LIST :: string where "DOCKER_APT_LIST = ''/etc/apt/sources.list.d/docker.list''"
definition DOCKER_RPM_REPO :: string where "DOCKER_RPM_REPO = ''/etc/yum.repos.d/docker-ce.repo''"
definition PODMAN_COMPOSE_MISSING :: "(string \<times> nat) list" where
  "PODMAN_COMPOSE_MISSING = [(''debian'', 11), (''debian'', 12), (''ubuntu'', 22)]"
definition RHEL_PYTHONS :: "nat \<Rightarrow> string list" where
  "RHEL_PYTHONS major = (if major = 8 \<or> major = 9 then [''3.11'', ''3.12''] else if major = 10 then [''3.12''] else [])"
definition POSTGRESQL_STREAM :: string where "POSTGRESQL_STREAM = ''postgresql:16''"

record repository =
  re_need :: string
  re_key_url :: string
  re_fingerprint :: string
  re_path :: string
  re_content :: string

record package_plan =
  pp_repositories :: "repository list"
  pp_modules :: "string list"
  pp_packages :: "string list"
  pp_services :: "string list"
  pp_notes :: "string list"
  pp_blockers :: "string list"

definition empty_plan :: package_plan where
  "empty_plan = \<lparr>pp_repositories = [], pp_modules = [], pp_packages = [], pp_services = [], pp_notes = [], pp_blockers = []\<rparr>"

definition plan_is_empty :: "package_plan \<Rightarrow> bool" where
  "plan_is_empty plan \<longleftrightarrow> pp_repositories plan = [] \<and> pp_modules plan = [] \<and> pp_packages plan = []"

definition docker_channel :: "system \<Rightarrow> string" where
  "docker_channel sys =
     (if sy_family sys = DEBIAN then (if sy_distribution sys = ''ubuntu'' then ''ubuntu'' else ''debian'')
      else if sy_family sys = FEDORA then ''fedora''
      else if sy_distribution sys = ''rhel'' then ''rhel'' else ''centos'')"

definition docker_repository :: "system \<Rightarrow> repository" where
  "docker_repository sys =
     (let base = ''https://download.docker.com/linux/'' @ docker_channel sys
      in if sy_family sys = DEBIAN
         then \<lparr>re_need = ''docker'', re_key_url = base @ ''/gpg'', re_fingerprint = DOCKER_DEBIAN_KEY, re_path = DOCKER_APT_LIST,
               re_content = ''deb [arch='' @ sy_architecture sys @ '' signed-by='' @ DOCKER_KEYRING @ ''] '' @
                 base @ '' '' @ sy_codename sys @ '' stable'' @ [newline]\<rparr>
         else \<lparr>re_need = ''docker'', re_key_url = base @ ''/gpg'', re_fingerprint = DOCKER_RPM_KEY, re_path = DOCKER_RPM_REPO,
               re_content = ''[docker-ce-stable]'' @ [newline] @ ''name=Docker CE Stable'' @ [newline] @
                 ''baseurl='' @ base @ ''/$releasever/$basearch/stable'' @ [newline] @ ''enabled=1'' @ [newline] @
                 ''gpgcheck=1'' @ [newline] @ ''gpgkey='' @ base @ ''/gpg'' @ [newline]\<rparr>)"

definition python_packages :: "system \<Rightarrow> string \<Rightarrow> string list" where
  "python_packages sys wanted =
     (let build = [''gcc'', ''gcc-c++'', ''make'', ''pkgconf-pkg-config'', ''libpq-devel'']
      in if sy_family sys = DEBIAN
         then [''python3'', ''python3-venv'', ''python3-pip'', ''python3-dev'', ''build-essential'', ''pkg-config'', ''libpq-dev'',
               ''default-libmysqlclient-dev'']
         else if sy_family sys = FEDORA
         then [''python3'', ''python3-devel'', ''python3-pip''] @ build @ [''mariadb-connector-c-devel'']
         else let version = (if wanted \<in> set (RHEL_PYTHONS (sy_major sys)) then wanted else [])
              in if version \<noteq> [] then [''python'' @ version, ''python'' @ version @ ''-devel'', ''python'' @ version @ ''-pip''] @ build
                 else [''python3'', ''python3-devel'', ''python3-pip''] @ build)"

definition python_command :: "system \<Rightarrow> string \<Rightarrow> string" where
  "python_command sys wanted =
     (if sy_family sys = RHEL \<and> wanted \<in> set (RHEL_PYTHONS (sy_major sys)) then ''/usr/bin/python'' @ wanted else ''/usr/bin/python3'')"

definition packages_for :: "system \<Rightarrow> string \<Rightarrow> string \<Rightarrow> string list result" where
  "packages_for sys need python =
     (let debian = sy_family sys = DEBIAN; fedora = sy_family sys = FEDORA
      in if need = ''basics'' then Inr [''ca-certificates'', ''curl'', if debian then ''gnupg'' else ''gnupg2'', ''tar'']
         else if need = ''docker'' then Inr DOCKER_PACKAGES
         else if need = ''podman'' then Inr (if debian then [''podman'', ''uidmap'', ''podman-compose''] else [''podman'', ''podman-compose''])
         else if need = ''git'' then Inr [''git'']
         else if need = ''python'' then Inr (python_packages sys python)
         else if need = ''nginx'' then Inr [''nginx'']
         else if need = ''postgresql''
         then Inr (if debian then [''postgresql'', ''postgresql-contrib''] else [''postgresql-server'', ''postgresql-contrib''])
         else if need = ''mariadb'' then Inr [''mariadb-server'']
         else if need = ''mysql''
         then (if sy_distribution sys = ''ubuntu'' \<or> sy_family sys = RHEL then Inr [''mysql-server'']
               else Inr (if fedora then [''community-mysql-server''] else [''mariadb-server'']))
         else if need = ''redis''
         then (if debian then Inr [''redis-server''] else Inr (if fedora \<or> 10 \<le> sy_major sys then [''valkey''] else [''redis'']))
         else Inl ValueError)"

definition service_for :: "system \<Rightarrow> string \<Rightarrow> string" where
  "service_for sys need =
     (let debian = sy_family sys = DEBIAN
      in if need = ''mysql'' then (if debian then (if sy_distribution sys = ''ubuntu'' then ''mysql'' else ''mariadb'') else ''mysqld'')
         else if need = ''redis''
         then (if debian then ''redis-server'' else if sy_family sys = FEDORA \<or> 10 \<le> sy_major sys then ''valkey'' else ''redis'')
         else case map_of [(''docker'', ''docker''), (''postgresql'', ''postgresql''), (''mariadb'', ''mariadb''), (''nginx'', ''nginx'')] need of
                Some service \<Rightarrow> service | None \<Rightarrow> [])"

text \<open>\<^verbatim>\<open>names.append(name)\<close> for every name not in the list yet: the list grows while it is searched.\<close>

definition extend_new :: "string list \<Rightarrow> string list \<Rightarrow> string list" where
  "extend_new owned names = fold (\<lambda>name acc. if name \<in> set acc then acc else acc @ [name]) names owned"

fun asked_loop :: "system \<Rightarrow> string \<Rightarrow> string list \<Rightarrow> string list \<Rightarrow> string list result" where
  "asked_loop sys python names [] = Inr names"
| "asked_loop sys python names (need # needs) =
     and_then (packages_for sys need python) (\<lambda>ps. asked_loop sys python (extend_new names ps) needs)"

definition asked_packages :: "system \<Rightarrow> string list \<Rightarrow> string \<Rightarrow> string list result" where
  "asked_packages sys needs python =
     (if \<not> supported sys then Inr [] else asked_loop sys python [] (''basics'' # needs))"

definition resolve_need :: "system \<Rightarrow> string list \<Rightarrow> string \<Rightarrow> string \<Rightarrow> package_plan \<Rightarrow> package_plan result" where
  "resolve_need sys owned python need plan =
     (if need = ''podman'' \<and> (sy_distribution sys, sy_major sys) \<in> set PODMAN_COMPOSE_MISSING
      then Inr (plan\<lparr>pp_blockers := pp_blockers plan @ [''compose_provider_unavailable'']\<rparr>)
      else if need = ''podman'' \<and> sy_distribution sys = ''rhel''
      then Inr (plan\<lparr>pp_blockers := pp_blockers plan @ [''epel_required'']\<rparr>)
      else
        let plan = (if need = ''mysql'' \<and> sy_family sys = DEBIAN \<and> sy_distribution sys \<noteq> ''ubuntu''
                    then plan\<lparr>pp_notes := pp_notes plan @ [''mysql_replaced_by_mariadb'']\<rparr> else plan)
        in and_then (packages_for sys need python) (\<lambda>names.
        let missing = filter (\<lambda>name. name \<notin> set owned) names;
            plan = (if need = ''docker'' \<and> missing \<noteq> []
                    then plan\<lparr>pp_repositories := pp_repositories plan @ [docker_repository sys]\<rparr> else plan);
            plan = (if need = ''podman'' \<and> missing \<noteq> [] \<and> sy_family sys = RHEL
                    then plan\<lparr>pp_packages := pp_packages plan @ [''epel-release'']\<rparr> else plan);
            plan = (if need = ''postgresql'' \<and> missing \<noteq> [] \<and> sy_family sys = RHEL \<and> (sy_major sys = 8 \<or> sy_major sys = 9)
                    then plan\<lparr>pp_modules := pp_modules plan @ [POSTGRESQL_STREAM]\<rparr> else plan);
            plan = plan\<lparr>pp_packages := extend_new (pp_packages plan) missing\<rparr>;
            service = service_for sys need
        in Inr (if service \<noteq> [] then plan\<lparr>pp_services := pp_services plan @ [service]\<rparr> else plan)))"

fun resolve_needs :: "system \<Rightarrow> string list \<Rightarrow> string \<Rightarrow> string list \<Rightarrow> package_plan \<Rightarrow> package_plan result" where
  "resolve_needs sys owned python [] plan = Inr plan"
| "resolve_needs sys owned python (need # needs) plan =
     and_then (resolve_need sys owned python need plan) (resolve_needs sys owned python needs)"

definition add_basics :: "system \<Rightarrow> string list \<Rightarrow> string list \<Rightarrow> package_plan \<Rightarrow> package_plan result" where
  "add_basics sys owned wanted plan =
     (if pp_packages plan \<noteq> [] \<and> ''basics'' \<notin> set wanted
      then and_then (packages_for sys ''basics'' []) (\<lambda>names.
             Inr (plan\<lparr>pp_packages := filter (\<lambda>name. name \<notin> set owned \<and> name \<notin> set (pp_packages plan)) names @ pp_packages plan\<rparr>))
      else Inr plan)"

definition resolve :: "system \<Rightarrow> string list \<Rightarrow> string list \<Rightarrow> string \<Rightarrow> package_plan result" where
  "resolve sys needs installed python =
     (let wanted = filter (\<lambda>need. need \<in> set needs) NEEDS
      in if \<not> supported sys then Inr (empty_plan\<lparr>pp_blockers := [''os_unsupported'']\<rparr>)
         else and_then (resolve_needs sys installed python wanted empty_plan) (\<lambda>plan.
              and_then (add_basics sys installed wanted plan) (\<lambda>plan.
              if \<not> list_all PACKAGE (pp_packages plan) then Inl ValueError else Inr plan)))"

definition missing_from_dpkg :: "string \<Rightarrow> string list \<Rightarrow> string list" where
  "missing_from_dpkg stdout asked =
     (let rows = map (text_partition CHR 0x09) (split_lines [] stdout);
          installed = map fst (filter (\<lambda>(name, found, status). prefix ''ii'' (strip_spaces status)) rows)
      in filter (\<lambda>name. name \<notin> set installed) asked)"

definition missing_from_rpm :: "string \<Rightarrow> string list \<Rightarrow> string list" where
  "missing_from_rpm stdout asked =
     (let installed = filter PACKAGE (map strip_spaces (split_lines [] stdout))
      in filter (\<lambda>name. name \<notin> set installed) asked)"

section \<open>What a plan promises\<close>

text \<open>Every package name the tables can give, checked against the pattern once.\<close>

definition known_packages :: "string list" where
  "known_packages = DOCKER_PACKAGES @
     [''ca-certificates'', ''curl'', ''gnupg'', ''gnupg2'', ''tar'', ''podman'', ''uidmap'', ''podman-compose'', ''git'', ''nginx'',
      ''postgresql'', ''postgresql-contrib'', ''postgresql-server'', ''mariadb-server'', ''mysql-server'', ''community-mysql-server'',
      ''redis-server'', ''valkey'', ''redis'', ''python3'', ''python3-venv'', ''python3-pip'', ''python3-dev'', ''build-essential'',
      ''pkg-config'', ''libpq-dev'', ''default-libmysqlclient-dev'', ''gcc'', ''gcc-c++'', ''make'', ''pkgconf-pkg-config'',
      ''libpq-devel'', ''python3-devel'', ''mariadb-connector-c-devel'', ''python3.11'', ''python3.11-devel'', ''python3.11-pip'',
      ''python3.12'', ''python3.12-devel'', ''python3.12-pip'']"

lemma known_packages_match: "list_all PACKAGE known_packages" "PACKAGE ''epel-release''"
  by code_simp+

lemma RHEL_PYTHONS_cases:
  "wanted \<in> set (RHEL_PYTHONS major) \<Longrightarrow> wanted = ''3.11'' \<or> wanted = ''3.12''"
  by (auto simp: RHEL_PYTHONS_def split: if_splits)

lemma python_packages_known: "set (python_packages sys python) \<subseteq> set known_packages"
  by (auto simp: python_packages_def known_packages_def Let_def split: if_splits dest!: RHEL_PYTHONS_cases)

lemma packages_for_known:
  assumes "packages_for sys need python = Inr names"
  shows "set names \<subseteq> set known_packages"
proof -
  have "list_all (\<lambda>ps. set ps \<subseteq> set known_packages)
    [DOCKER_PACKAGES, [''ca-certificates'', ''curl'', ''gnupg'', ''tar''], [''ca-certificates'', ''curl'', ''gnupg2'', ''tar''],
     [''podman'', ''uidmap'', ''podman-compose''], [''podman'', ''podman-compose''], [''git''], [''nginx''],
     [''postgresql'', ''postgresql-contrib''], [''postgresql-server'', ''postgresql-contrib''], [''mariadb-server''],
     [''mysql-server''], [''community-mysql-server''], [''redis-server''], [''valkey''], [''redis'']]"
    by code_simp
  then show ?thesis using assms python_packages_known [of sys python]
    by (simp add: packages_for_def Let_def split: if_split_asm; hypsubst; simp)
qed

lemma packages_for_total: "need \<in> set NEEDS \<Longrightarrow> \<exists>names. packages_for sys need python = Inr names"
  by (auto simp: NEEDS_def packages_for_def Let_def)

lemma set_extend_new [simp]: "set (extend_new owned names) = set owned \<union> set names"
  by (induction names arbitrary: owned) (auto simp: extend_new_def)

lemma distinct_extend_new [simp]: "distinct owned \<Longrightarrow> distinct (extend_new owned names)"
  by (induction names arbitrary: owned) (auto simp: extend_new_def)

lemma epel_not_known: "''epel-release'' \<notin> set known_packages"
  by code_simp

text \<open>The state of a plan after the needs \<open>handled\<close>.\<close>

definition served :: "system \<Rightarrow> string list \<Rightarrow> string \<Rightarrow> package_plan \<Rightarrow> string \<Rightarrow> bool" where
  "served sys owned python plan need \<longleftrightarrow>
     need = ''podman'' \<and> pp_blockers plan \<noteq> [] \<or>
     (\<exists>names. packages_for sys need python = Inr names \<and> set names \<subseteq> set owned \<union> set (pp_packages plan))"

definition called_for :: "system \<Rightarrow> string \<Rightarrow> string set \<Rightarrow> string \<Rightarrow> bool" where
  "called_for sys python handled name \<longleftrightarrow>
     name = ''epel-release'' \<and> ''podman'' \<in> handled \<or>
     (\<exists>need \<in> handled. \<exists>names. packages_for sys need python = Inr names \<and> name \<in> set names)"

definition plan_sound :: "system \<Rightarrow> string list \<Rightarrow> string \<Rightarrow> string set \<Rightarrow> package_plan \<Rightarrow> bool" where
  "plan_sound sys owned python handled plan \<longleftrightarrow>
     distinct (pp_packages plan) \<and> set (pp_packages plan) \<inter> set owned \<subseteq> {''epel-release''} \<and>
     (\<forall>name \<in> set (pp_packages plan). called_for sys python handled name) \<and>
     (\<forall>need \<in> handled. served sys owned python plan need)"

lemma called_for_known: "called_for sys python handled name \<Longrightarrow> name = ''epel-release'' \<or> name \<in> set known_packages"
  by (auto simp: called_for_def dest: packages_for_known)

lemma called_for_mono: "called_for sys python handled name \<Longrightarrow> called_for sys python (insert need handled) name"
  by (auto simp: called_for_def)

lemma no_epel_without_podman: "''podman'' \<notin> handled \<Longrightarrow> \<not> called_for sys python handled ''epel-release''"
  using epel_not_known by (auto simp: called_for_def dest!: packages_for_known)

lemma served_mono:
  "served sys owned python plan need \<Longrightarrow> set (pp_packages plan) \<subseteq> set (pp_packages plan') \<Longrightarrow>
   (pp_blockers plan \<noteq> [] \<longrightarrow> pp_blockers plan' \<noteq> []) \<Longrightarrow> served sys owned python plan' need"
  by (auto simp: served_def)

lemma resolve_need_outcome:
  assumes "need \<in> set NEEDS"
  obtains plan' where "resolve_need sys owned python need plan = Inr plan'" "need = ''podman''"
      "pp_packages plan' = pp_packages plan" "pp_blockers plan' \<noteq> []"
    | plan' names where "resolve_need sys owned python need plan = Inr plan'" "packages_for sys need python = Inr names"
      "pp_packages plan' = extend_new (pp_packages plan) (filter (\<lambda>name. name \<notin> set owned) names) \<or>
       need = ''podman'' \<and>
       pp_packages plan' = extend_new (pp_packages plan @ [''epel-release'']) (filter (\<lambda>name. name \<notin> set owned) names)"
      "pp_blockers plan' = pp_blockers plan"
proof -
  obtain names where names: "packages_for sys need python = Inr names" using packages_for_total [OF assms] by blast
  show thesis
  proof (cases "need = ''podman'' \<and> ((sy_distribution sys, sy_major sys) \<in> set PODMAN_COMPOSE_MISSING \<or> sy_distribution sys = ''rhel'')")
    case True
    then have "\<exists>plan'. resolve_need sys owned python need plan = Inr plan' \<and> need = ''podman'' \<and>
        pp_packages plan' = pp_packages plan \<and> pp_blockers plan' \<noteq> []"
      by (auto simp: resolve_need_def)
    then show thesis using that(1) by blast
  next
    case False
    then have "\<exists>plan'. resolve_need sys owned python need plan = Inr plan' \<and>
        (pp_packages plan' = extend_new (pp_packages plan) (filter (\<lambda>name. name \<notin> set owned) names) \<or>
         need = ''podman'' \<and>
         pp_packages plan' = extend_new (pp_packages plan @ [''epel-release'']) (filter (\<lambda>name. name \<notin> set owned) names)) \<and>
        pp_blockers plan' = pp_blockers plan"
      using names by (auto simp: resolve_need_def Let_def)
    then show thesis using that(2) names by blast
  qed
qed

lemma resolve_need_sound:
  assumes sound: "plan_sound sys owned python handled plan" and new: "need \<in> set NEEDS" "need \<notin> handled"
  shows "\<exists>plan'. resolve_need sys owned python need plan = Inr plan' \<and> plan_sound sys owned python (insert need handled) plan'"
  using new(1)
proof (cases rule: resolve_need_outcome [where sys = sys and owned = owned and python = python and plan = plan])
  case (1 plan')
  then show ?thesis using sound
    by (fastforce simp: plan_sound_def called_for_mono served_def)
next
  case (2 plan' names)
  have old: "distinct (pp_packages plan)" "set (pp_packages plan) \<inter> set owned \<subseteq> {''epel-release''}"
      "\<And>name. name \<in> set (pp_packages plan) \<Longrightarrow> called_for sys python handled name"
      "\<And>n. n \<in> handled \<Longrightarrow> served sys owned python plan n"
    using sound unfolding plan_sound_def by blast+
  have set: "set (pp_packages plan') \<subseteq> set (pp_packages plan) \<union> (set names - set owned) \<union> {''epel-release''}"
    and kept: "set (pp_packages plan) \<union> (set names - set owned) \<subseteq> set (pp_packages plan')"
    using 2(3) by (elim disjE conjE; auto)+
  have only: "''epel-release'' \<in> set (pp_packages plan') \<Longrightarrow> ''epel-release'' \<in> set (pp_packages plan) \<or> need = ''podman''"
    using 2(3) epel_not_known packages_for_known [OF 2(2)] by (elim disjE conjE) auto
  have "need = ''podman'' \<Longrightarrow> ''epel-release'' \<notin> set (pp_packages plan)"
    using old(3) new(2) no_epel_without_podman by blast
  then have "distinct (pp_packages plan')" using 2(3) old(1) by (elim disjE conjE) simp_all
  moreover have "set (pp_packages plan') \<inter> set owned \<subseteq> {''epel-release''}"
    using set old(2) by auto
  moreover have "called_for sys python (insert need handled) name" if here: "name \<in> set (pp_packages plan')" for name
  proof -
    consider "name \<in> set (pp_packages plan)" | "name \<in> set names" | "name = ''epel-release''" "need = ''podman''"
      using set only here by blast
    then show ?thesis
    proof cases
      case 1
      then show ?thesis using old(3) called_for_mono by blast
    next
      case 2
      then show ?thesis using \<open>packages_for sys need python = Inr names\<close> by (auto simp: called_for_def)
    qed (auto simp: called_for_def)
  qed
  moreover have "served sys owned python plan' n" if "n \<in> insert need handled" for n
  proof (cases "n = need")
    case True
    then show ?thesis using 2(2) kept by (auto simp: served_def)
  next
    case False
    then have "served sys owned python plan n" using that old(4) by blast
    then show ?thesis by (rule served_mono) (use kept 2(4) in auto)
  qed
  ultimately have "plan_sound sys owned python (insert need handled) plan'" unfolding plan_sound_def by blast
  then show ?thesis using 2(1) by blast
qed

lemma resolve_needs_sound:
  "plan_sound sys owned python handled plan \<Longrightarrow> distinct needs \<Longrightarrow> set needs \<subseteq> set NEEDS \<Longrightarrow> set needs \<inter> handled = {} \<Longrightarrow>
   \<exists>plan'. resolve_needs sys owned python needs plan = Inr plan' \<and> plan_sound sys owned python (set needs \<union> handled) plan'"
proof (induction needs arbitrary: handled plan)
  case (Cons need needs)
  obtain plan' where plan': "resolve_need sys owned python need plan = Inr plan'"
    "plan_sound sys owned python (insert need handled) plan'"
    using resolve_need_sound [of sys owned python handled plan need] Cons.prems by auto
  then show ?case using Cons.IH [OF plan'(2)] Cons.prems by auto
qed simp

lemma distinct_NEEDS: "distinct NEEDS"
  by code_simp

lemma add_basics_sound:
  assumes sound: "plan_sound sys owned python (set wanted) plan" and wanted: "set wanted \<subseteq> set NEEDS"
  shows "\<exists>plan'. add_basics sys owned wanted plan = Inr plan' \<and>
    plan_sound sys owned python (if pp_packages plan' = [] then set wanted else insert ''basics'' (set wanted)) plan'"
proof (cases "pp_packages plan \<noteq> [] \<and> ''basics'' \<notin> set wanted")
  case True
  have old: "distinct (pp_packages plan)" "set (pp_packages plan) \<inter> set owned \<subseteq> {''epel-release''}"
      "\<And>name. name \<in> set (pp_packages plan) \<Longrightarrow> called_for sys python (set wanted) name"
      "\<And>n. n \<in> set wanted \<Longrightarrow> served sys owned python plan n"
    using sound unfolding plan_sound_def by blast+
  obtain names where names: "packages_for sys ''basics'' [] = Inr names" "packages_for sys ''basics'' python = Inr names"
      "distinct names"
    by (auto simp: packages_for_def Let_def)
  define extra where "extra = filter (\<lambda>name. name \<notin> set owned \<and> name \<notin> set (pp_packages plan)) names"
  let ?plan = "plan\<lparr>pp_packages := extra @ pp_packages plan\<rparr>"
  have "add_basics sys owned wanted plan = Inr ?plan"
    using True names(1) by (simp add: add_basics_def extra_def)
  moreover have "distinct (extra @ pp_packages plan)" using old(1) names(3) by (auto simp: extra_def)
  moreover have "set (extra @ pp_packages plan) \<inter> set owned \<subseteq> {''epel-release''}" using old(2) by (auto simp: extra_def)
  moreover have "\<And>name. name \<in> set (extra @ pp_packages plan) \<Longrightarrow> called_for sys python (insert ''basics'' (set wanted)) name"
    using old(3) names(2) called_for_mono by (fastforce simp: extra_def called_for_def)
  moreover have "\<And>n. n \<in> insert ''basics'' (set wanted) \<Longrightarrow> served sys owned python ?plan n"
  proof -
    fix n assume "n \<in> insert ''basics'' (set wanted)"
    then consider "n = ''basics''" | "served sys owned python plan n" using old(4) by blast
    then show "served sys owned python ?plan n"
    proof cases
      case 1
      then show ?thesis using names(2) by (auto simp: served_def extra_def)
    next
      case 2
      then show ?thesis by (rule served_mono) auto
    qed
  qed
  ultimately have "plan_sound sys owned python (insert ''basics'' (set wanted)) ?plan"
    unfolding plan_sound_def by simp
  then show ?thesis using \<open>add_basics sys owned wanted plan = Inr ?plan\<close> True by (intro exI [of _ ?plan]) simp
next
  case False
  then have "add_basics sys owned wanted plan = Inr plan" by (auto simp: add_basics_def)
  moreover have "pp_packages plan \<noteq> [] \<Longrightarrow> insert ''basics'' (set wanted) = set wanted"
    using False by auto
  ultimately show ?thesis using sound by (intro exI [of _ plan]) simp
qed

text \<open>
  For a supported system \<open>resolve\<close> always returns a plan (the check of the package names never fails): its
  packages are distinct valid names, none of them installed already (\<^verbatim>\<open>epel-release\<close> apart, which is asked for
  whenever Podman has to be installed); every package of every need asked for is then installed or planned, unless
  the need is Podman and the plan says what blocks it; and nothing is planned that no need, and not the basics, call for.
\<close>

theorem resolve_plans_what_is_missing:
  assumes "supported sys"
  shows "\<exists>plan. resolve sys needs installed python = Inr plan \<and>
    list_all PACKAGE (pp_packages plan) \<and> distinct (pp_packages plan) \<and>
    set (pp_packages plan) \<inter> set installed \<subseteq> {''epel-release''} \<and>
    (\<forall>need \<in> set needs \<inter> set NEEDS. served sys installed python plan need) \<and>
    (pp_packages plan \<noteq> [] \<longrightarrow> served sys installed python plan ''basics'') \<and>
    (\<forall>name \<in> set (pp_packages plan). called_for sys python (insert ''basics'' (set needs \<inter> set NEEDS)) name)"
proof -
  define wanted where "wanted = filter (\<lambda>need. need \<in> set needs) NEEDS"
  have wanted: "set wanted = set needs \<inter> set NEEDS" "distinct wanted"
    unfolding wanted_def using distinct_NEEDS by auto
  have "plan_sound sys installed python {} empty_plan" by (simp add: plan_sound_def empty_plan_def)
  then obtain p1 where p1: "resolve_needs sys installed python wanted empty_plan = Inr p1"
      "plan_sound sys installed python (set wanted) p1"
    using resolve_needs_sound [of sys installed python "{}" empty_plan wanted] wanted by auto
  obtain p2 where p2: "add_basics sys installed wanted p1 = Inr p2"
      "plan_sound sys installed python (if pp_packages p2 = [] then set wanted else insert ''basics'' (set wanted)) p2"
    using add_basics_sound [OF p1(2)] wanted by auto
  have called: "\<And>name. name \<in> set (pp_packages p2) \<Longrightarrow> called_for sys python (insert ''basics'' (set wanted)) name"
    using p2(2) unfolding plan_sound_def by (auto split: if_splits)
  have served: "\<And>need. need \<in> set wanted \<Longrightarrow> served sys installed python p2 need"
    using p2(2) unfolding plan_sound_def by (auto split: if_splits)
  have "list_all PACKAGE (pp_packages p2)"
    unfolding list_all_iff
  proof
    fix name assume "name \<in> set (pp_packages p2)"
    from called_for_known [OF called [OF this]] show "PACKAGE name"
      using known_packages_match unfolding list_all_iff by blast
  qed
  then have "resolve sys needs installed python = Inr p2"
    using assms p1(1) p2(1) by (simp add: resolve_def wanted_def)
  then show ?thesis
    using \<open>list_all PACKAGE (pp_packages p2)\<close> p2(2) called served unfolding wanted(1) plan_sound_def
    by (intro exI [of _ p2]) (auto split: if_splits)
qed

definition demo_system :: system where
  "demo_system = \<lparr>sy_family = RHEL, sy_distribution = ''rocky'', sy_version = ''9.4'', sy_major = 9, sy_codename = [],
     sy_architecture = ''amd64''\<rparr>"

theorem resolve_plans_what_is_missing_witness:
  "\<exists>plan. resolve demo_system [''git'', ''redis''] [''git'', ''curl''] [] = Inr plan \<and>
     ''redis'' \<in> set (pp_packages plan) \<and> ''git'' \<notin> set (pp_packages plan) \<and> ''tar'' \<in> set (pp_packages plan)"
proof -
  have "supported demo_system" by code_simp
  from resolve_plans_what_is_missing [OF this, of "[''git'', ''redis'']" "[''git'', ''curl'']" "[]"]
  obtain plan where plan: "resolve demo_system [''git'', ''redis''] [''git'', ''curl''] [] = Inr plan"
      "set (pp_packages plan) \<inter> {''git'', ''curl''} \<subseteq> {''epel-release''}"
      "served demo_system [''git'', ''curl''] [] plan ''redis''"
      "pp_packages plan \<noteq> [] \<Longrightarrow> served demo_system [''git'', ''curl''] [] plan ''basics''"
    by (auto simp: NEEDS_def)
  have packages: "packages_for demo_system ''redis'' [] = Inr [''redis'']"
      "packages_for demo_system ''basics'' [] = Inr [''ca-certificates'', ''curl'', ''gnupg2'', ''tar'']"
    by code_simp+
  have "''redis'' \<in> set (pp_packages plan)" using plan(3) packages by (simp add: served_def)
  moreover from this have "''tar'' \<in> set (pp_packages plan)" using plan(4) packages by (cases "pp_packages plan") (simp_all add: served_def)
  ultimately show ?thesis using plan(1,2) by auto
qed

end
