(* ===== verification/Dotenv.thy ===== *)
theory Dotenv
  imports PyText "HOL-Library.AList"
begin

text \<open>
  Reading \<^verbatim>\<open>.env\<close> files, \<^verbatim>\<open>src/dbs/manager/envfiles/dotenv.py\<close>: which names a file assigns, with which values, and how two
  files differ. The content is ASCII text (decoding UTF-8 and removing a byte order mark change nothing there); a position
  in a line is what is left of the line there. A dict is the list of its items in order.
\<close>

definition NAME_MAX_LENGTH :: nat where "NAME_MAX_LENGTH = 255"
definition QUOTES :: string where "QUOTES = [CHR 0x27, CHR 0x22]"
definition backslash :: char where "backslash = CHR 0x5C"
definition double_quote :: char where "double_quote = CHR 0x22"
definition carriage_return :: char where "carriage_return = CHR 0x0D"

definition name_start :: "char \<Rightarrow> bool" where "name_start c \<longleftrightarrow> is_lower c \<or> is_upper c \<or> c = CHR ''_''"
definition name_char :: "char \<Rightarrow> bool" where "name_char c \<longleftrightarrow> is_alnum c \<or> c \<in> set ''_.-''"

text \<open>
  \<^verbatim>\<open>ASSIGNMENT\<close>: the name and the rest of the line. Nothing in it can match in two ways but \<^verbatim>\<open>export\<close>, which may be a
  name: the reading with \<^verbatim>\<open>export\<close> as a word is tried first.
\<close>

definition match_name :: "string \<Rightarrow> (string \<times> string) option" where
  "match_name s =
     (case s of
        [] \<Rightarrow> None
      | c # cs \<Rightarrow>
          if name_start c \<and> length (takeWhile name_char cs) \<le> NAME_MAX_LENGTH - 1
          then (case dropWhile is_space (dropWhile name_char cs) of
                  [] \<Rightarrow> None
                | e # after \<Rightarrow> if e = CHR ''='' then Some (c # takeWhile name_char cs, dropWhile is_space after) else None)
          else None)"

definition match_assignment :: "string \<Rightarrow> (string \<times> string) option" where
  "match_assignment line =
     (let start = dropWhile is_space line;
          word = ''export'';
          exported = drop (length word) start
      in case (if take (length word) start = word \<and> exported \<noteq> [] \<and> is_space (hd exported)
               then match_name (dropWhile is_space exported) else None) of
           Some m \<Rightarrow> Some m
         | None \<Rightarrow> match_name start)"

text \<open>\<^verbatim>\<open>_closing\<close>: what stands before and after the closing quote.\<close>

fun closing :: "char \<Rightarrow> string \<Rightarrow> (string \<times> string) option" where
  "closing q [] = None"
| "closing q [c] =
     (if c = backslash \<and> q = double_quote then None else if c = q then Some ([], []) else None)"
| "closing q (c # d # cs) =
     (if c = backslash \<and> q = double_quote then map_option (\<lambda>(before, after). (c # d # before, after)) (closing q cs)
      else if c = q then Some ([], d # cs)
      else map_option (\<lambda>(before, after). (c # before, after)) (closing q (d # cs)))"

text \<open>\<^verbatim>\<open>_quoted\<close> from the text after the opening quote: the parts, the lines left over and what follows the closing quote.\<close>

fun quoted :: "char \<Rightarrow> string \<Rightarrow> string list \<Rightarrow> (string list \<times> string list \<times> string) option" where
  "quoted q line [] = (case closing q line of None \<Rightarrow> None | Some (before, after) \<Rightarrow> Some ([before], [], after))"
| "quoted q line (following # rest) =
     (case closing q line of
        None \<Rightarrow> map_option (\<lambda>(parts, left, after). (line # parts, left, after)) (quoted q following rest)
      | Some (before, after) \<Rightarrow> Some ([before], following # rest, after))"

fun cut_comment :: "string \<Rightarrow> string" where
  "cut_comment [] = []"
| "cut_comment (c # cs) =
     (if is_space c \<and> dropWhile is_space cs \<noteq> [] \<and> hd (dropWhile is_space cs) = CHR ''#'' then [] else c # cut_comment cs)"

definition unquoted :: "string \<Rightarrow> string" where "unquoted rest = rstrip_spaces (cut_comment rest)"

definition after_quote_ok :: "string \<Rightarrow> bool" where
  "after_quote_ok after \<longleftrightarrow> dropWhile is_space after = [] \<or> hd (dropWhile is_space after) = CHR ''#''"

lemma quoted_shorter: "quoted q line lines = Some (parts, left, after) \<Longrightarrow> length left \<le> length lines"
  by (induction q line lines arbitrary: parts left after rule: quoted.induct) (auto split: option.splits)

function parse_lines :: "string list \<Rightarrow> (string \<times> string) list \<Rightarrow> (string \<times> string) list" where
  "parse_lines [] found = found"
| "parse_lines (line # lines) found =
     (case match_assignment line of
        None \<Rightarrow> parse_lines lines found
      | Some (name, rest) \<Rightarrow>
          if rest \<noteq> [] \<and> hd rest \<in> set QUOTES
          then (case quoted (hd rest) (tl rest) lines of
                  None \<Rightarrow> parse_lines lines found
                | Some (parts, left, after) \<Rightarrow>
                    if \<not> after_quote_ok after then parse_lines left found
                    else parse_lines left (AList.update name (text_join [newline] parts) found))
          else parse_lines lines (AList.update name (unquoted rest) found))"
  by pat_completeness auto
termination
  by (relation "measure (\<lambda>(lines, found). length lines)") (auto dest: quoted_shorter)

definition drop_return :: "string \<Rightarrow> string" where
  "drop_return line = (if line \<noteq> [] \<and> last line = carriage_return then butlast line else line)"

definition parse :: "string \<Rightarrow> (string \<times> string) list" where
  "parse content = parse_lines (map drop_return (text_split newline content)) []"

definition key_names :: "string \<Rightarrow> string list" where "key_names content = map fst (parse content)"

record env_diff =
  df_added :: "string list"
  df_removed :: "string list"
  df_changed :: "string list"

definition diff :: "string \<Rightarrow> string \<Rightarrow> env_diff" where
  "diff old new =
     (let before = parse old; after = parse new
      in \<lparr>df_added = filter (\<lambda>name. map_of before name = None) (map fst after),
          df_removed = filter (\<lambda>name. map_of after name = None) (map fst before),
          df_changed = filter (\<lambda>name. map_of before name \<noteq> None \<and> map_of before name \<noteq> map_of after name) (map fst after)\<rparr>)"

section \<open>Writing assignments\<close>

text \<open>
  A file as a person writes it: comments, and assignments with a bare value, or a quoted one that may run over lines.
\<close>

datatype env_entry =
    Remark string
  | Bare bool string string
  | In_quotes bool char string string

definition valid_name :: "string \<Rightarrow> bool" where
  "valid_name n \<longleftrightarrow> n \<noteq> [] \<and> name_start (hd n) \<and> list_all name_char (tl n) \<and> length n \<le> NAME_MAX_LENGTH"

fun entry_ok :: "env_entry \<Rightarrow> bool" where
  "entry_ok (Remark s) \<longleftrightarrow> newline \<notin> set s \<and> carriage_return \<notin> set s"
| "entry_ok (Bare exported n v) \<longleftrightarrow> valid_name n \<and> list_all (\<lambda>c. \<not> is_space c) v \<and> (v = [] \<or> hd v \<notin> set QUOTES)"
| "entry_ok (In_quotes exported q n v) \<longleftrightarrow>
     valid_name n \<and> q \<in> set QUOTES \<and> q \<notin> set v \<and> (q = double_quote \<longrightarrow> backslash \<notin> set v) \<and> carriage_return \<notin> set v"

definition assigned :: "bool \<Rightarrow> string \<Rightarrow> string" where
  "assigned exported n = (if exported then ''export '' else []) @ n @ ''=''"

fun entry_text :: "env_entry \<Rightarrow> string" where
  "entry_text (Remark s) = CHR ''#'' # s"
| "entry_text (Bare exported n v) = assigned exported n @ v"
| "entry_text (In_quotes exported q n v) = assigned exported n @ q # v @ [q]"

fun assign_entry :: "env_entry \<Rightarrow> (string \<times> string) list \<Rightarrow> (string \<times> string) list" where
  "assign_entry (Remark s) found = found"
| "assign_entry (Bare exported n v) found = AList.update n v found"
| "assign_entry (In_quotes exported q n v) found = AList.update n v found"

lemma name_char_facts:
  "name_start c \<Longrightarrow> name_char c" "name_char c \<Longrightarrow> \<not> is_space c" "\<not> name_char CHR ''=''" "\<not> is_space CHR ''=''"
  "name_char c \<Longrightarrow> c \<noteq> newline \<and> c \<noteq> carriage_return"
  by (auto simp: name_start_def name_char_def is_alnum_def is_digit_def is_lower_def is_upper_def is_space_def newline_def
      carriage_return_def Let_def)

lemma takeWhile_all: "list_all p xs \<Longrightarrow> \<not> p c \<Longrightarrow> takeWhile p (xs @ c # ys) = xs \<and> dropWhile p (xs @ c # ys) = c # ys"
  by (induction xs) auto

lemma match_name_valid:
  assumes "valid_name n"
  shows "match_name (n @ CHR ''='' # rest) = Some (n, dropWhile is_space rest)"
proof -
  obtain c cs where n: "n = c # cs" "name_start c" "list_all name_char cs" "length cs \<le> NAME_MAX_LENGTH - 1"
    using assms by (cases n) (auto simp: valid_name_def NAME_MAX_LENGTH_def)
  show ?thesis
    using n(2,4) takeWhile_all [OF n(3) name_char_facts(3), of rest] by (simp add: match_name_def n(1) name_char_facts(4))
qed

lemma not_export_then_space:
  assumes "valid_name n" "take 6 (n @ CHR ''='' # rest) = ''export''"
  shows "\<not> is_space (hd (drop 6 (n @ CHR ''='' # rest)))"
proof (cases "length n = 6")
  case True
  then show ?thesis by (simp add: name_char_facts(4))
next
  case False
  have all: "list_all name_char n"
    using assms(1) name_char_facts(1) by (cases n) (auto simp: valid_name_def)
  have long: "6 < length n"
  proof (rule ccontr)
    assume "\<not> 6 < length n"
    then have less: "length n < 6" using False by simp
    then have "take 6 (n @ CHR ''='' # rest) ! length n = CHR ''=''" by (simp add: nth_append)
    then have "CHR ''='' \<in> set ''export''"
      using assms(2) less nth_mem [of "length n" "''export''"] by simp
    then show False by simp
  qed
  then have "hd (drop 6 (n @ CHR ''='' # rest)) = n ! 6" by (simp add: hd_drop_conv_nth nth_append)
  then show ?thesis using all long name_char_facts(2) by (simp add: list_all_length)
qed

lemma match_assigned:
  assumes "valid_name n"
  shows "match_assignment (assigned exported n @ rest) = Some (n, dropWhile is_space rest)"
proof -
  have start: "\<not> is_space (hd n)" "n \<noteq> []" using assms name_char_facts(1,2) by (auto simp: valid_name_def)
  then have plain: "dropWhile is_space (n @ CHR ''='' # rest) = n @ CHR ''='' # rest" by (cases n) auto
  show ?thesis
  proof (cases exported)
    case True
    have "dropWhile is_space (''export '' @ n @ CHR ''='' # rest) = ''export '' @ n @ CHR ''='' # rest"
      by (simp add: is_space_def)
    moreover have "is_space CHR '' ''" by (simp add: is_space_def)
    ultimately show ?thesis
      using True plain match_name_valid [OF assms, of rest] by (simp add: match_assignment_def assigned_def Let_def)
  next
    case False
    define t where "t = n @ CHR ''='' # rest"
    have no: "\<not> (take 6 t = ''export'' \<and> drop 6 t \<noteq> [] \<and> is_space (hd (drop 6 t)))"
      using not_export_then_space [OF assms, of rest] unfolding t_def by blast
    have len: "length ''export'' = 6" by simp
    have "match_assignment t = match_name t"
      unfolding match_assignment_def Let_def plain [folded t_def] len if_not_P [OF no] by simp
    then show ?thesis using False match_name_valid [OF assms, of rest] by (simp add: assigned_def t_def)
  qed
qed

lemma split_append: "newline \<notin> set a \<Longrightarrow> text_split newline (a @ newline # b) = a # text_split newline b"
  by (induction a) auto

lemma split_free: "newline \<notin> set a \<Longrightarrow> text_split newline a = [a]"
  by (induction a) auto

lemma closing_free:
  "q \<notin> set v \<Longrightarrow> (q = double_quote \<longrightarrow> backslash \<notin> set v) \<Longrightarrow> closing q v = None \<and> closing q (v @ q # after) = Some (v, after)"
proof (induction v)
  case Nil
  have "double_quote \<noteq> backslash" by (simp add: double_quote_def backslash_def)
  then show ?case by (cases after) auto
next
  case (Cons c cs)
  have IH: "closing q cs = None" "closing q (cs @ q # after) = Some (cs, after)" using Cons by auto
  have c: "\<not> (c = backslash \<and> q = double_quote)" "c \<noteq> q" using Cons.prems by auto
  obtain d ds where ds: "cs @ q # after = d # ds" by (cases cs) auto
  have "closing q (c # cs) = None" using IH(1) c by (cases cs) auto
  moreover have "closing q (c # d # ds) = Some (c # cs, after)" using IH(2) c unfolding ds by auto
  ultimately show ?case using ds by simp
qed

lemma quoted_value:
  assumes "q \<notin> set v" "q = double_quote \<longrightarrow> backslash \<notin> set v" "q \<noteq> newline" "text_split newline (v @ [q]) = l # ls"
  shows "quoted q l (ls @ rest) = Some (text_split newline v, rest, [])"
  using assms
proof (induction v arbitrary: l ls)
  case Nil
  then show ?case using closing_free [of q "[]" "[]"] by (cases rest) auto
next
  case (Cons c v)
  obtain l' ls' where split: "text_split newline (v @ [q]) = l' # ls'" by (cases "text_split newline (v @ [q])") auto
  have IH: "quoted q l' (ls' @ rest) = Some (text_split newline v, rest, [])" using Cons split by simp
  show ?case
  proof (cases "c = newline")
    case True
    then have "l = []" "ls = l' # ls'" using Cons.prems(4) split by auto
    then show ?thesis using IH True by simp
  next
    case False
    then have l: "l = c # l'" "ls = ls'" using Cons.prems(4) split by auto
    have c: "\<not> (c = backslash \<and> q = double_quote)" "c \<noteq> q" using Cons.prems(1,2) by auto
    have close: "closing q (c # l') = map_option (\<lambda>(before, after). (c # before, after)) (closing q l')"
      using c by (cases l') auto
    show ?thesis using IH False unfolding l
      by (cases "ls' @ rest"; cases "closing q l'"; cases "text_split newline v") (auto simp: close split: option.splits)
  qed
qed

lemma no_comment: "list_all (\<lambda>c. \<not> is_space c) v \<Longrightarrow> unquoted v = v"
proof -
  assume v: "list_all (\<lambda>c. \<not> is_space c) v"
  then have "cut_comment v = v" by (induction v) auto
  moreover have "dropWhile is_space (rev v) = rev v" using v by (cases v rule: rev_cases) auto
  ultimately show ?thesis by (simp add: unquoted_def rstrip_spaces_def)
qed

lemma split_append_all: "text_split c (a @ c # b) = text_split c a @ text_split c b"
  by (induction a) (auto split: list.splits)

lemma split_prefix: "c \<notin> set a \<Longrightarrow> text_split c b = l # ls \<Longrightarrow> text_split c (a @ b) = (a @ l) # ls"
  by (induction a) auto

lemma split_letters: "x \<in> set (text_split c s) \<Longrightarrow> set x \<subseteq> set s"
proof (induction s arbitrary: x)
  case (Cons a s)
  obtain y ys where y: "text_split c s = y # ys" by (cases "text_split c s") simp_all
  then have "set z \<subseteq> set s" if "z = y \<or> z \<in> set ys" for z using Cons.IH [of z] that by auto
  then show ?case using Cons.prems y by (fastforce split: if_splits)
qed simp

lemma drop_return_line: "carriage_return \<notin> set s \<Longrightarrow> drop_return s = s"
  by (cases s rule: rev_cases) (auto simp: drop_return_def)

lemma drop_return_free: "carriage_return \<notin> set s \<Longrightarrow> map drop_return (text_split newline s) = text_split newline s"
proof -
  assume "carriage_return \<notin> set s"
  then have "drop_return x = x" if "x \<in> set (text_split newline s)" for x
    using split_letters [OF that] by (cases x rule: rev_cases) (auto simp: drop_return_def)
  then show ?thesis by (simp add: map_idI)
qed

lemma assigned_letters:
  assumes "valid_name n"
  shows "newline \<notin> set (assigned exported n)" "carriage_return \<notin> set (assigned exported n)"
proof -
  have "list_all name_char n" using assms name_char_facts(1) by (cases n) (auto simp: valid_name_def)
  then have "newline \<notin> set n" "carriage_return \<notin> set n" using name_char_facts(5) by (auto simp: list_all_iff)
  then show "newline \<notin> set (assigned exported n)" "carriage_return \<notin> set (assigned exported n)"
    by (auto simp: assigned_def newline_def carriage_return_def)
qed

lemma spaces: "is_space newline" "is_space carriage_return"
  by (simp_all add: is_space_def newline_def carriage_return_def)

lemma remark_ignored: "match_assignment (CHR ''#'' # s) = None"
proof -
  have "\<not> is_space CHR ''#''" "\<not> name_start CHR ''#''" by (simp_all add: is_space_def name_start_def is_lower_def is_upper_def)
  then show ?thesis by (simp add: match_assignment_def match_name_def)
qed

lemma entry_parsed:
  assumes "entry_ok e"
  shows "parse_lines (map drop_return (text_split newline (entry_text e)) @ lines) found = parse_lines lines (assign_entry e found)"
proof (cases e)
  case (Remark s)
  then have free: "newline \<notin> set (CHR ''#'' # s)" "carriage_return \<notin> set (CHR ''#'' # s)"
    using assms by (auto simp: newline_def carriage_return_def)
  then show ?thesis using Remark split_free [OF free(1)] drop_return_line [OF free(2)]
    by (simp only: entry_text.simps list.map append.simps) (simp add: remark_ignored)
next
  case (Bare exported n v)
  have v: "list_all (\<lambda>c. \<not> is_space c) v" "valid_name n" "v = [] \<or> hd v \<notin> set QUOTES" using assms Bare by auto
  then have letters: "newline \<notin> set (assigned exported n @ v)" "carriage_return \<notin> set (assigned exported n @ v)"
    using assigned_letters spaces by (auto simp: list_all_iff)
  have "dropWhile is_space v = v" using v(1) by (cases v) auto
  then show ?thesis
    using v(3) match_assigned [OF v(2), of exported v] no_comment [OF v(1)] Bare
      split_free [OF letters(1)] drop_return_line [OF letters(2)]
    by (simp only: entry_text.simps list.map append.simps) auto
next
  case (In_quotes exported q n v)
  have ok: "valid_name n" "q \<in> set QUOTES" "q \<notin> set v" "q = double_quote \<longrightarrow> backslash \<notin> set v" "carriage_return \<notin> set v"
    using assms In_quotes by auto
  have q: "q \<noteq> newline" "q \<noteq> carriage_return" "\<not> is_space q"
    using ok(2) by (auto simp: QUOTES_def newline_def carriage_return_def is_space_def)
  obtain l ls where split: "text_split newline (v @ [q]) = l # ls" by (cases "text_split newline (v @ [q])") auto
  have whole: "entry_text e = assigned exported n @ q # v @ [q]" using In_quotes by simp
  have "text_split newline (q # v @ [q]) = (q # l) # ls" using split q(1) by simp
  then have lines: "text_split newline (entry_text e) = (assigned exported n @ q # l) # ls"
    unfolding whole by (rule split_prefix [OF assigned_letters(1) [OF ok(1)]])
  have "carriage_return \<notin> set (entry_text e)"
    unfolding whole using assigned_letters(2) [OF ok(1)] ok(5) q(2) by auto
  then have "map drop_return (text_split newline (entry_text e)) @ lines = (assigned exported n @ q # l) # ls @ lines"
    using drop_return_free [of "entry_text e"] by (simp add: lines)
  moreover have "match_assignment (assigned exported n @ q # l) = Some (n, q # l)"
    using match_assigned [OF ok(1), of exported "q # l"] q(3) by simp
  moreover have "quoted q l (ls @ lines) = Some (text_split newline v, lines, [])"
    by (rule quoted_value [OF ok(3,4) q(1) split])
  ultimately show ?thesis using ok(2) In_quotes by (simp add: after_quote_ok_def text_join_split)
qed

section \<open>Properties\<close>

text \<open>
  C28: A file is read as it was meant: comments assign nothing, a bare value and a quoted one (which may run over several
  lines and hold anything but its quote, a carriage return and, in double quotes, a backslash) are read as they
  were written, whether the assignment is exported or not, and the last assignment of a name counts.
\<close>

theorem assignments_read_back:
  assumes "list_all entry_ok entries"
  shows "parse (text_join [newline] (map entry_text entries)) = fold assign_entry entries []"
proof -
  have "parse_lines (map drop_return (text_split newline (text_join [newline] (map entry_text es)))) found = fold assign_entry es found"
    if "list_all entry_ok es" for es found
    using that
  proof (induction es arbitrary: found)
    case Nil
    then show ?case by (simp add: drop_return_def match_assignment_def match_name_def)
  next
    case (Cons e es)
    have e: "parse_lines (map drop_return (text_split newline (entry_text e)) @ lines) found = parse_lines lines (assign_entry e found)" for lines
      using Cons.prems by (intro entry_parsed) simp
    show ?case
    proof (cases es)
      case Nil
      then show ?thesis using e [of "[]"] by simp
    next
      case (Cons e2 es2)
      then have "text_join [newline] (map entry_text (e # es)) = entry_text e @ newline # text_join [newline] (map entry_text es)" by simp
      then show ?thesis using e Cons.IH Cons.prems by (simp only: split_append_all map_append) simp
    qed
  qed
  then show ?thesis using assms by (simp add: parse_def)
qed

theorem assignments_read_back_witness:
  "parse (text_join [newline] (map entry_text [Remark ''PORT=1'', Bare True ''PORT'' ''8000'', In_quotes False CHR 0x27 ''KEY'' (''a # b'' @ [newline] @ ''c''),
     Bare False ''PORT'' ''9000''])) = [(''PORT'', ''9000''), (''KEY'', ''a # b'' @ [newline] @ ''c'')]"
proof -
  have "list_all entry_ok [Remark ''PORT=1'', Bare True ''PORT'' ''8000'', In_quotes False CHR 0x27 ''KEY'' (''a # b'' @ [newline] @ ''c''),
      Bare False ''PORT'' ''9000'']"
    by code_simp
  from assignments_read_back [OF this] show ?thesis by simp
qed

end
