(* ===== verification/Naming.thy ===== *)
theory Naming
  imports PyText "HOL-Library.Char_ord" "HOL-Library.List_Lexorder" "HOL-Library.Product_Lexorder"
begin

text \<open>
  The names of backup files, \<^verbatim>\<open>src/dbs/naming.py\<close>: how a name is built from a prefix and a moment, how a
  name is read back, and how the names of a folder are ordered. A moment is a UTC date and time, as the tuple
  of its year, month, day, hour, minute, second and microsecond; its order is the lexicographic one. Text is
  ASCII, where \<^verbatim>\<open>\d\<close> is \<open>is_digit\<close>.
\<close>

type_synonym moment = "nat \<times> nat \<times> nat \<times> nat \<times> nat \<times> nat \<times> nat"

definition BACKUP_SUFFIX :: string where "BACKUP_SUFFIX = ''.dbs''"
definition DEFAULT_DATABASE :: string where "DEFAULT_DATABASE = ''default''"
definition RESERVATION_ATTEMPTS :: nat where "RESERVATION_ATTEMPTS = 1000"

section \<open>Building a name\<close>

text \<open>\<^verbatim>\<open>strftime\<close> with the format \<^verbatim>\<open>%Y%m%d-%H%M%S\<close>; the year is printed with four digits from 1000 on.\<close>

definition digit_char :: "nat \<Rightarrow> char" where "digit_char n = char_of (48 + n mod 10)"

definition two_digits :: "nat \<Rightarrow> string" where "two_digits n = [digit_char (n div 10), digit_char n]"

definition year_digits :: "nat \<Rightarrow> string" where
  "year_digits y = (if y < 1000 then digits_of y else two_digits (y div 100) @ two_digits y)"

definition timestamp :: "moment \<Rightarrow> string" where
  "timestamp m = (case m of (y, mo, d, h, mi, s, us) \<Rightarrow>
     year_digits y @ two_digits mo @ two_digits d @ ''-'' @ two_digits h @ two_digits mi @ two_digits s)"

definition backup_filename :: "string \<Rightarrow> moment \<Rightarrow> int \<Rightarrow> string" where
  "backup_filename pre moment ordinal =
     (let stamp = timestamp moment;
          suffx = (if ordinal \<le> 1 then [] else ''-'' @ text_of_int ordinal)
      in pre @ ''-'' @ stamp @ ''Z'' @ suffx @ BACKUP_SUFFIX)"

text \<open>\<^verbatim>\<open>_UNSAFE_CHARACTERS.sub("-", s)\<close>: every run of unsafe characters becomes one dash.\<close>

definition safe_char :: "char \<Rightarrow> bool" where "safe_char c \<longleftrightarrow> is_alnum c \<or> c = CHR ''_'' \<or> c = CHR ''.''"

fun dash_unsafe :: "bool \<Rightarrow> string \<Rightarrow> string" where
  "dash_unsafe in_run [] = []"
| "dash_unsafe in_run (c # cs) =
     (if safe_char c then c # dash_unsafe False cs
      else if in_run then dash_unsafe True cs else CHR ''-'' # dash_unsafe True cs)"

definition strip_chars :: "string \<Rightarrow> string \<Rightarrow> string" where
  "strip_chars cs s = rev (dropWhile (one_of cs) (rev (dropWhile (one_of cs) s)))"

definition backup_stem :: "string \<Rightarrow> string \<Rightarrow> string" where
  "backup_stem pre database =
     (if database = [] \<or> database = DEFAULT_DATABASE then pre
      else let stripped = strip_chars ''-.'' (dash_unsafe False database);
               alias = (if stripped \<noteq> [] then stripped else ''database'')
           in pre @ ''-'' @ alias)"

text \<open>
  \<^verbatim>\<open>reserve_backup_name\<close>: the folder is the set of names that exist in it; creating a file with \<^verbatim>\<open>O_EXCL\<close> fails
  when the name exists and adds the name otherwise.
\<close>

fun reserve_loop :: "string list \<Rightarrow> string \<Rightarrow> moment \<Rightarrow> nat list \<Rightarrow> (string \<times> string list) result" where
  "reserve_loop folder stem moment [] = Inl FileExistsError"
| "reserve_loop folder stem moment (ordinal # ordinals) =
     (let name = backup_filename stem moment (int ordinal)
      in if name \<in> set folder then reserve_loop folder stem moment ordinals else Inr (name, name # folder))"

definition reserve_backup_name :: "string list \<Rightarrow> string \<Rightarrow> moment \<Rightarrow> (string \<times> string list) result" where
  "reserve_backup_name folder stem moment = reserve_loop folder stem moment [1..<RESERVATION_ATTEMPTS + 1]"

section \<open>Reading a name\<close>

text \<open>The optional groups \<^verbatim>\<open>(?:-\d+)?\<close> and \<^verbatim>\<open>(?:\.v\d+(?:-\d+)?)?\<close>: what follows decides whether they are there.\<close>

definition skip_ordinal :: "string \<Rightarrow> string" where
  "skip_ordinal s =
     (case s of c # d # t \<Rightarrow> if c = CHR ''-'' \<and> is_digit d then dropWhile is_digit t else s | _ \<Rightarrow> s)"

definition skip_format :: "string \<Rightarrow> string" where
  "skip_format s =
     (if prefix ''.v'' s \<and> drop 2 s \<noteq> [] \<and> is_digit (hd (drop 2 s)) then skip_ordinal (dropWhile is_digit (drop 2 s)) else s)"

text \<open>\<open>name_tail s\<close> is the stamp when all of \<open>s\<close> is what the pattern wants after the prefix.\<close>

definition name_tail :: "string \<Rightarrow> string option" where
  "name_tail s =
     (if 17 \<le> length s \<and> s ! 0 = CHR ''-'' \<and> list_all is_digit (take 8 (drop 1 s)) \<and> s ! 9 = CHR ''-'' \<and>
         list_all is_digit (take 6 (drop 10 s)) \<and> s ! 16 = CHR ''Z'' \<and>
         until_dollar (\<lambda>t. t = BACKUP_SUFFIX) (skip_format (skip_ordinal (drop 17 s)))
      then Some (take 15 (drop 1 s)) else None)"

text \<open>\<^verbatim>\<open>.+\<close> takes as much as it can without a newline: the longest prefix whose rest matches.\<close>

definition name_match :: "string \<Rightarrow> (string \<times> string) option" where
  "name_match s =
     (case find (\<lambda>k. newline \<notin> set (take k s) \<and> name_tail (drop k s) \<noteq> None) (rev [1..<length s + 1]) of
        None \<Rightarrow> None
      | Some k \<Rightarrow> map_option (\<lambda>stamp. (take k s, stamp)) (name_tail (drop k s)))"

definition leap_year :: "nat \<Rightarrow> bool" where
  "leap_year y \<longleftrightarrow> y mod 4 = 0 \<and> (y mod 100 \<noteq> 0 \<or> y mod 400 = 0)"

definition days_in_month :: "nat \<Rightarrow> nat \<Rightarrow> nat" where
  "days_in_month y m = (if m = 2 then (if leap_year y then 29 else 28) else if m \<in> {4, 6, 9, 11} then 30 else 31)"

definition valid_moment :: "moment \<Rightarrow> bool" where
  "valid_moment m = (case m of (y, mo, d, h, mi, s, us) \<Rightarrow>
     1 \<le> y \<and> y \<le> 9999 \<and> 1 \<le> mo \<and> mo \<le> 12 \<and> 1 \<le> d \<and> d \<le> days_in_month y mo \<and> h < 24 \<and> mi < 60 \<and> s < 60 \<and>
     us < 1000000)"

text \<open>\<^verbatim>\<open>strptime\<close> of a stamp of eight digits, a dash and six digits, each field taking its two or four digits.\<close>

definition stamp_field :: "nat \<Rightarrow> nat \<Rightarrow> string \<Rightarrow> nat" where
  "stamp_field from n stamp = number_of_digits (take n (drop from stamp))"

definition strptime_stamp :: "string \<Rightarrow> moment option" where
  "strptime_stamp stamp =
     (let m = (stamp_field 0 4 stamp, stamp_field 4 2 stamp, stamp_field 6 2 stamp, stamp_field 9 2 stamp,
               stamp_field 11 2 stamp, stamp_field 13 2 stamp, 0)
      in if valid_moment m then Some m else None)"

definition parse_backup_moment :: "string \<Rightarrow> moment option" where
  "parse_backup_moment name = (case name_match name of None \<Rightarrow> None | Some (pre, stamp) \<Rightarrow> strptime_stamp stamp)"

definition backup_prefix :: "string \<Rightarrow> string option" where
  "backup_prefix name = map_option fst (name_match name)"

definition is_backup_name :: "string \<Rightarrow> string option \<Rightarrow> bool" where
  "is_backup_name name pre =
     (if parse_backup_moment name = None then False
      else case pre of None \<Rightarrow> True | Some p \<Rightarrow> backup_prefix name = Some p)"

definition sorted_backups :: "string list \<Rightarrow> string option \<Rightarrow> string list" where
  "sorted_backups names pre =
     sort_key (\<lambda>name. (the (parse_backup_moment name), name)) (filter (\<lambda>name. is_backup_name name pre) names)"

section \<open>Names read back\<close>

lemma digit_char_digit [simp]: "is_digit (digit_char n)"
proof -
  have "n mod 10 < 10" by simp
  then show ?thesis by (simp add: is_digit_def digit_char_def take_bit_eq_mod)
qed

lemma digit_value_digit_char [simp]: "digit_value (digit_char n) = n mod 10"
proof -
  have "n mod 10 < 10" by simp
  then have "(48 + n mod 10) mod 256 = 48 + n mod 10" by simp
  then show ?thesis by (simp add: digit_value_def digit_char_def take_bit_eq_mod)
qed

lemma number_two_digits: "n < 100 \<Longrightarrow> number_of_digits (two_digits n) = n"
  by (simp add: number_of_digits_def two_digits_def)

lemma find_rev_upt:
  "P k \<Longrightarrow> a \<le> k \<Longrightarrow> k < n \<Longrightarrow> (\<And>j. k < j \<Longrightarrow> j < n \<Longrightarrow> \<not> P j) \<Longrightarrow> find P (rev [a..<n]) = Some k"
proof (induction n)
  case (Suc n)
  show ?case
  proof (cases "k = n")
    case False
    then have "k < n" "\<not> P n" using Suc.prems by auto
    then show ?thesis using Suc by simp
  qed (use Suc.prems in simp)
qed simp


lemma length_two_digits [simp]: "length (two_digits n) = 2"
  by (simp add: two_digits_def)

lemma digits_two_digits [simp]: "list_all is_digit (two_digits n)"
  by (simp add: two_digits_def)

lemma number_of_digits_append:
  "number_of_digits (a @ b) = number_of_digits a * 10 ^ length b + number_of_digits b"
proof (induction b rule: rev_induct)
  case (snoc x b)
  then show ?case by (simp add: number_of_digits_def algebra_simps)
qed (simp add: number_of_digits_def)

lemma digits_of_digits: "list_all is_digit (digits_of n)"
proof (induction n rule: digits_of.induct)
  case (1 n)
  have "is_digit (char_of (48 + n mod 10))" using digit_char_digit [of n] by (simp add: digit_char_def)
  then show ?case using 1 by (subst digits_of.simps) auto
qed

lemma digits_of_nonempty: "digits_of n \<noteq> []"
  by (subst digits_of.simps) simp

lemma dropWhile_digits: "list_all is_digit a \<Longrightarrow> dropWhile is_digit (a @ b) = dropWhile is_digit b"
  by (induction a) auto

lemma not_digit [simp]: "\<not> is_digit CHR ''.''" "\<not> is_digit CHR ''-''" "\<not> is_digit CHR ''Z''" "\<not> is_digit newline"
  by (simp_all add: is_digit_def newline_def)

text \<open>The two shapes of what a name ends with after its stamp.\<close>

definition ordinal_text :: "int \<Rightarrow> string" where
  "ordinal_text ordinal = (if ordinal \<le> 1 then [] else ''-'' @ text_of_int ordinal)"

lemma skip_ordinal_text: "skip_ordinal (ordinal_text ordinal @ BACKUP_SUFFIX) = BACKUP_SUFFIX"
proof (cases "ordinal \<le> 1")
  case False
  obtain d ds where d: "digits_of (nat ordinal) = d # ds"
    using digits_of_nonempty [of "nat ordinal"] by (cases "digits_of (nat ordinal)") auto
  then have "is_digit d" "list_all is_digit ds" using digits_of_digits [of "nat ordinal"] by auto
  then show ?thesis using False d
    by (simp add: ordinal_text_def text_of_int_def skip_ordinal_def dropWhile_digits) (simp add: BACKUP_SUFFIX_def)
qed (simp add: ordinal_text_def skip_ordinal_def BACKUP_SUFFIX_def)

lemma ordinal_text_no_Z: "CHR ''Z'' \<notin> set (ordinal_text ordinal @ BACKUP_SUFFIX)"
  using digits_of_digits [of "nat ordinal"]
  by (auto simp: ordinal_text_def text_of_int_def BACKUP_SUFFIX_def list_all_iff)

lemma skip_format_suffix: "skip_format BACKUP_SUFFIX = BACKUP_SUFFIX"
  by (simp add: skip_format_def BACKUP_SUFFIX_def)

lemma name_tail_shape:
  assumes "length a = 8" "list_all is_digit a" "length b = 6" "list_all is_digit b"
    and "skip_format (skip_ordinal r) = BACKUP_SUFFIX"
  shows "name_tail (CHR ''-'' # a @ CHR ''-'' # b @ CHR ''Z'' # r) = Some (a @ CHR ''-'' # b)"
  using assms by (simp add: name_tail_def nth_append nth_Cons' until_dollar_def)

lemma name_tail_Z: "name_tail s \<noteq> None \<Longrightarrow> 17 \<le> length s \<and> s ! 16 = CHR ''Z''"
  by (simp add: name_tail_def split: if_split_asm)

lemma name_match_shape:
  assumes a: "length a = 8" "list_all is_digit a" and b: "length b = 6" "list_all is_digit b"
    and r: "skip_format (skip_ordinal r) = BACKUP_SUFFIX" "CHR ''Z'' \<notin> set r"
    and pre: "pre \<noteq> []" "newline \<notin> set pre"
  shows "name_match (pre @ CHR ''-'' # a @ CHR ''-'' # b @ CHR ''Z'' # r) = Some (pre, a @ CHR ''-'' # b)"
proof -
  let ?front = "CHR ''-'' # a @ CHR ''-'' # b @ [CHR ''Z'']"
  let ?s = "pre @ ?front @ r"
  let ?P = "\<lambda>k. newline \<notin> set (take k ?s) \<and> name_tail (drop k ?s) \<noteq> None"
  have tail: "name_tail (?front @ r) = Some (a @ CHR ''-'' # b)" using name_tail_shape [OF a b r(1)] by simp
  have none: "\<not> ?P j" if j: "length pre < j" for j
  proof
    assume "?P j"
    then have Z: "17 \<le> length (drop j ?s)" "drop j ?s ! 16 = CHR ''Z''" using name_tail_Z by blast+
    define i where "i = j - length pre - 1"
    have j: "j = length pre + Suc i" using j by (simp add: i_def)
    have front: "length ?front = 17" using a b by simp
    have long: "i < length r" using Z(1) front unfolding j by simp
    have "drop j (pre @ t) = drop (Suc i) t" for t :: string unfolding j by simp
    then have "drop j ?s ! 16 = drop (Suc i) (?front @ r) ! 16" by (rule arg_cong)
    also have "\<dots> = (?front @ r) ! (17 + i)"
      by (subst nth_drop) (use front long in simp_all)
    also have "\<dots> = r ! i" using front nth_append_length_plus [of ?front r i] by simp
    finally have "r ! i = CHR ''Z''" using Z(2) by simp
    then show False using r(2) nth_mem [OF long] by metis
  qed
  have "find ?P (rev [1..<length ?s + 1]) = Some (length pre)"
    by (rule find_rev_upt) (use pre tail none in \<open>auto simp: Suc_le_eq\<close>)
  then have "name_match ?s = Some (pre, a @ CHR ''-'' # b)" using tail by (simp add: name_match_def)
  then show ?thesis by simp
qed

lemma number_year_digits:
  assumes "1000 \<le> y" "y \<le> 9999"
  shows "number_of_digits (year_digits y) = y"
proof -
  have "y div 100 = y div 10 div 10" by (simp add: div_mult2_eq [of y 10 10, simplified])
  then have "100 * (y div 100) + 10 * (y div 10 mod 10) + y mod 10 = y"
    using div_mult_mod_eq [of "y div 10" 10] div_mult_mod_eq [of y 10] by linarith
  then show ?thesis using assms
    by (simp add: year_digits_def number_of_digits_append number_two_digits) (simp add: two_digits_def number_of_digits_def)
qed

lemma year_digits_shape: "1000 \<le> y \<Longrightarrow> length (year_digits y) = 4 \<and> list_all is_digit (year_digits y)"
  by (simp add: year_digits_def)

lemma strptime_timestamp:
  assumes "valid_moment (y, mo, d, h, mi, s, 0)" "1000 \<le> y"
  shows "strptime_stamp (timestamp (y, mo, d, h, mi, s, us)) = Some (y, mo, d, h, mi, s, 0)"
proof -
  have small: "y \<le> 9999" "mo < 100" "h < 100" "mi < 100" "s < 100" using assms by (auto simp: valid_moment_def)
  have "days_in_month y mo \<le> 31" by (simp add: days_in_month_def)
  then have d: "d < 100" using assms by (auto simp: valid_moment_def)
  obtain y1 y2 y3 y4 where y: "year_digits y = [y1, y2, y3, y4]"
    using year_digits_shape [OF assms(2)] by (auto simp: length_Suc_conv numeral_eq_Suc)
  have fields: "number_of_digits [y1, y2, y3, y4] = y" using number_year_digits [OF assms(2) small(1)] y by simp
  show ?thesis
    using number_two_digits [OF small(2)] number_two_digits [OF d] number_two_digits [OF small(3)]
      number_two_digits [OF small(4)] number_two_digits [OF small(5)] fields assms(1)
    by (simp add: strptime_stamp_def stamp_field_def timestamp_def y two_digits_def)
qed

lemma backup_filename_read:
  assumes "valid_moment (y, mo, d, h, mi, s, us)" "1000 \<le> y" and "pre \<noteq> []" "newline \<notin> set pre"
  shows "name_match (backup_filename pre (y, mo, d, h, mi, s, us) ordinal) = Some (pre, timestamp (y, mo, d, h, mi, s, us))"
proof -
  let ?a = "year_digits y @ two_digits mo @ two_digits d" and ?b = "two_digits h @ two_digits mi @ two_digits s"
  have "skip_format (skip_ordinal (ordinal_text ordinal @ BACKUP_SUFFIX)) = BACKUP_SUFFIX"
    by (simp add: skip_ordinal_text skip_format_suffix)
  then have "name_match (pre @ CHR ''-'' # ?a @ CHR ''-'' # ?b @ CHR ''Z'' # ordinal_text ordinal @ BACKUP_SUFFIX)
      = Some (pre, ?a @ CHR ''-'' # ?b)"
    by (intro name_match_shape) (use year_digits_shape [OF assms(2)] ordinal_text_no_Z assms(3,4) in auto)
  then show ?thesis by (simp add: backup_filename_def timestamp_def ordinal_text_def Let_def)
qed

lemma reserve_loop_fresh:
  "reserve_loop folder stem moment ordinals = Inr (name, folder') \<Longrightarrow>
   name \<notin> set folder \<and> folder' = name # folder \<and> (\<exists>ordinal \<in> set ordinals. name = backup_filename stem moment (int ordinal))"
  by (induction ordinals) (auto simp: Let_def split: if_splits)

text \<open>
  A reserved backup name is fresh in the folder and names what it was reserved for: its moment to the second
  and its prefix are read back from it, whatever dashes, digits or stamps the prefix itself holds.
\<close>

theorem reserved_name_reads_back:
  assumes "reserve_backup_name folder stem (y, mo, d, h, mi, s, us) = Inr (name, folder')"
    and "valid_moment (y, mo, d, h, mi, s, us)" "1000 \<le> y" and "stem \<noteq> []" "newline \<notin> set stem"
  shows "name \<notin> set folder \<and> folder' = name # folder \<and> parse_backup_moment name = Some (y, mo, d, h, mi, s, 0) \<and>
    backup_prefix name = Some stem \<and> is_backup_name name (Some stem)"
proof -
  obtain ordinal where name: "name \<notin> set folder" "folder' = name # folder"
      "name = backup_filename stem (y, mo, d, h, mi, s, us) ordinal"
    using reserve_loop_fresh assms(1) unfolding reserve_backup_name_def by blast
  have "name_match name = Some (stem, timestamp (y, mo, d, h, mi, s, us))"
    unfolding name(3) by (rule backup_filename_read) (use assms in simp_all)
  moreover have "valid_moment (y, mo, d, h, mi, s, 0)" using assms(2) by (simp add: valid_moment_def)
  ultimately show ?thesis using name(1,2) strptime_timestamp [OF _ assms(3)]
    by (simp add: parse_backup_moment_def backup_prefix_def is_backup_name_def)
qed

lemma upt_two: "(2 :: nat) < n \<Longrightarrow> [1..<n] = 1 # 2 # [3..<n]"
  using upt_conv_Cons [of 1 n] upt_conv_Cons [of 2 n] by (simp add: numeral_eq_Suc)

definition demo_moment :: moment where "demo_moment = (2024, 2, 29, 23, 5, 9, 17)"

theorem reserved_name_reads_back_witness:
  "\<exists>folder'. reserve_backup_name [''a-20240101-000000Z-20240229-230509Z.dbs''] ''a-20240101-000000Z'' demo_moment =
      Inr (''a-20240101-000000Z-20240229-230509Z-2.dbs'', folder') \<and>
    parse_backup_moment ''a-20240101-000000Z-20240229-230509Z-2.dbs'' = Some (2024, 2, 29, 23, 5, 9, 0)"
proof -
  let ?folder = "[''a-20240101-000000Z-20240229-230509Z.dbs'']" and ?stem = "''a-20240101-000000Z''"
  let ?name = "''a-20240101-000000Z-20240229-230509Z-2.dbs''"
  have names: "backup_filename ?stem demo_moment 1 = ''a-20240101-000000Z-20240229-230509Z.dbs''"
      "backup_filename ?stem demo_moment 2 = ?name"
    by (simp_all add: backup_filename_def demo_moment_def timestamp_def year_digits_def two_digits_def digit_char_def
        text_of_int_def digits_of.simps BACKUP_SUFFIX_def char_of_def bit_0)
  have "[1..<RESERVATION_ATTEMPTS + 1] = 1 # 2 # [3..<RESERVATION_ATTEMPTS + 1]"
    by (rule upt_two) (simp add: RESERVATION_ATTEMPTS_def)
  then have reserved: "reserve_backup_name ?folder ?stem demo_moment = Inr (?name, ?name # ?folder)"
    unfolding reserve_backup_name_def using names by (simp add: Let_def)
  have "parse_backup_moment ?name = Some (2024, 2, 29, 23, 5, 9, 0)"
    using reserved_name_reads_back [OF reserved [unfolded demo_moment_def]]
    by (simp add: valid_moment_def days_in_month_def leap_year_def newline_def)
  then show ?thesis using reserved by blast
qed

end
