(* ===== verification/Tee.thy ===== *)
theory Tee
  imports Naming
begin

text \<open>
  \<^verbatim>\<open>src/dbs/tee.py\<close>: a backup that is streamed out while a copy is kept on the server. The folder is a map from names to
  contents; \<open>environment\<close> says which calls of the operating system fail, and whether it has hard links. SHA-256 is the
  bytes it was fed, the random token of the partial name an argument. Another process that changes the folder in
  the middle is not modelled.
\<close>

definition CHUNK_SIZE :: nat where "CHUNK_SIZE = 1024 * 1024"
definition PARTIAL_TOKEN_BYTES :: nat where "PARTIAL_TOKEN_BYTES = 8"
definition PARTIAL_STALE_SECONDS :: int where "PARTIAL_STALE_SECONDS = 3600"
definition MAX_ORDINAL :: nat where "MAX_ORDINAL = 999"

type_synonym folder = "string \<rightharpoonup> bytes"

datatype links = Hard_links | No_hard_links | Links_fail

record environment =
  ev_write_fails :: "bytes \<Rightarrow> bytes \<Rightarrow> bool"
  ev_sync_fails :: bool
  ev_send_fails :: "bytes \<Rightarrow> bytes \<Rightarrow> bool"
  ev_flush_fails :: bool
  ev_links :: links
  ev_verify :: "bytes \<Rightarrow> unit result"

section \<open>Partial files\<close>

definition partial_name :: "string \<Rightarrow> string \<Rightarrow> string" where
  "partial_name token name = ''.'' @ name @ ''.part-'' @ token"

definition is_partial_name :: "string \<Rightarrow> bool" where
  "is_partial_name = until_dollar (\<lambda>s.
     let k = length s - (6 + 2 * PARTIAL_TOKEN_BYTES)
     in 6 + 2 * PARTIAL_TOKEN_BYTES + 2 \<le> length s \<and> hd s = CHR ''.'' \<and> newline \<notin> set (take (k - 1) (tl s)) \<and>
        take 6 (drop k s) = ''.part-'' \<and> list_all is_hex (drop (k + 6) s))"

definition is_stale :: "int \<Rightarrow> int \<Rightarrow> bool" where
  "is_stale modified now \<longleftrightarrow> PARTIAL_STALE_SECONDS < now - modified"

text \<open>An entry of a scan: its name, what \<^verbatim>\<open>stat\<close> tells (unless it fails): regular or not and the time of its last
  change, and whether it can be removed.\<close>

record scan_entry =
  sc_name :: string
  sc_stat :: "(bool \<times> int) option"
  sc_removable :: bool

fun sweep_removed :: "int \<Rightarrow> scan_entry list \<Rightarrow> string list" where
  "sweep_removed now [] = []"
| "sweep_removed now (e # es) =
     (if \<not> is_partial_name (sc_name e) then sweep_removed now es
      else case sc_stat e of
        None \<Rightarrow> sweep_removed now es
      | Some (regular, modified) \<Rightarrow>
          if \<not> regular \<or> \<not> is_stale modified now then sweep_removed now es
          else if \<not> sc_removable e then sweep_removed now es
          else sc_name e # sweep_removed now es)"

definition sweep_partials :: "int \<Rightarrow> scan_entry list option \<Rightarrow> string list" where
  "sweep_partials now entries = (case entries of None \<Rightarrow> [] | Some es \<Rightarrow> sort (sweep_removed now es))"

section \<open>Installing\<close>

definition place_without_replacing :: "links \<Rightarrow> string \<Rightarrow> string \<Rightarrow> folder \<Rightarrow> (bool \<times> folder) result" where
  "place_without_replacing links source target dir =
     (case links of
        Hard_links \<Rightarrow> if dir target \<noteq> None then Inr (False, dir) else Inr (True, (dir(target := dir source))(source := None))
      | Links_fail \<Rightarrow> if dir target \<noteq> None then Inr (False, dir) else Inl OSError
      | No_hard_links \<Rightarrow> if dir target \<noteq> None then Inr (False, dir) else Inr (True, (dir(target := dir source))(source := None)))"

fun install_loop :: "links \<Rightarrow> string \<Rightarrow> string \<Rightarrow> moment \<Rightarrow> nat list \<Rightarrow> folder \<Rightarrow> (string \<times> folder) result" where
  "install_loop links partial pre moment [] dir = Inl DBSError"
| "install_loop links partial pre moment (ordinal # ordinals) dir =
     (let name = backup_filename pre moment (int ordinal)
      in and_then (place_without_replacing links partial name dir) (\<lambda>(placed, dir).
         if placed then Inr (name, dir) else install_loop links partial pre moment ordinals dir))"

definition install_backup :: "links \<Rightarrow> string \<Rightarrow> string \<Rightarrow> moment \<Rightarrow> folder \<Rightarrow> (string \<times> folder) result" where
  "install_backup links partial pre moment dir = install_loop links partial pre moment [1..<MAX_ORDINAL + 1] dir"

section \<open>The sink\<close>

record tee_result =
  tr_name :: string
  tr_size :: nat
  tr_hashed :: bytes
  tr_stream_lost :: bool

record tee_sink =
  te_prefix :: string
  te_moment :: moment
  te_partial :: string
  te_file :: bytes
  te_size :: nat
  te_digest :: bytes
  te_stream_lost :: bool
  te_sent :: bytes

definition new_tee :: "bool \<Rightarrow> string \<Rightarrow> moment \<Rightarrow> string \<Rightarrow> folder \<Rightarrow> (tee_sink \<times> folder) result" where
  "new_tee stream pre moment token dir =
     (let partial = partial_name token (backup_filename pre moment 1)
      in if dir partial \<noteq> None then Inl FileExistsError
         else Inr (\<lparr>te_prefix = pre, te_moment = moment, te_partial = partial, te_file = [], te_size = 0, te_digest = [],
                    te_stream_lost = \<not> stream, te_sent = []\<rparr>, dir(partial \<mapsto> [])))"

definition tee_send :: "environment \<Rightarrow> bytes \<Rightarrow> tee_sink \<Rightarrow> tee_sink" where
  "tee_send env data t =
     (if te_stream_lost t then t
      else if ev_send_fails env (te_sent t) data then t\<lparr>te_stream_lost := True\<rparr>
      else t\<lparr>te_sent := te_sent t @ data\<rparr>)"

definition tee_write :: "environment \<Rightarrow> bytes \<Rightarrow> tee_sink \<Rightarrow> tee_sink result" where
  "tee_write env data t =
     (if ev_write_fails env (te_file t) data then Inl OSError
      else Inr (tee_send env data
        (t\<lparr>te_file := te_file t @ data, te_digest := te_digest t @ data, te_size := te_size t + length data\<rparr>)))"

fun tee_writes :: "environment \<Rightarrow> bytes list \<Rightarrow> tee_sink \<Rightarrow> tee_sink result" where
  "tee_writes env [] t = Inr t"
| "tee_writes env (data # datas) t = and_then (tee_write env data t) (tee_writes env datas)"

definition tee_write_all :: "environment \<Rightarrow> bytes \<Rightarrow> tee_sink \<Rightarrow> tee_sink result" where
  "tee_write_all env data t = tee_writes env (pieces CHUNK_SIZE data) t"

text \<open>\<open>finish\<close>: the file is complete in the folder once it has been flushed.\<close>

definition tee_finish :: "environment \<Rightarrow> tee_sink \<Rightarrow> folder \<Rightarrow> (tee_result \<times> folder) result" where
  "tee_finish env t dir =
     (let lost = te_stream_lost t \<or> ev_flush_fails env
      in if ev_sync_fails env then Inl OSError
         else let dir = dir(te_partial t \<mapsto> te_file t)
         in and_then (ev_verify env (te_file t)) (\<lambda>_.
            and_then (install_backup (ev_links env) (te_partial t) (te_prefix t) (te_moment t) dir) (\<lambda>(name, dir).
            Inr (\<lparr>tr_name = name, tr_size = te_size t, tr_hashed = te_digest t, tr_stream_lost = lost\<rparr>, dir))))"

definition tee_discard :: "tee_sink \<Rightarrow> folder \<Rightarrow> folder" where
  "tee_discard t dir = dir(te_partial t := None)"

text \<open>
  \<^verbatim>\<open>with TeeSink(...) as sink\<close>, whose body writes \<open>datas\<close> and then finishes: an exception discards the partial file. The
  sink is returned for what its stream received.
\<close>

definition tee_session ::
  "environment \<Rightarrow> bool \<Rightarrow> string \<Rightarrow> moment \<Rightarrow> string \<Rightarrow> bytes list \<Rightarrow> folder \<Rightarrow> (tee_result \<times> bytes) result \<times> folder" where
  "tee_session env stream pre moment token datas dir =
     (case new_tee stream pre moment token dir of
        Inl e \<Rightarrow> (Inl e, dir)
      | Inr (t, dir) \<Rightarrow>
          (case tee_writes env datas t of
             Inl e \<Rightarrow> (Inl e, tee_discard t dir)
           | Inr t \<Rightarrow>
               (case tee_finish env t dir of
                  Inl e \<Rightarrow> (Inl e, tee_discard t dir)
                | Inr (r, dir) \<Rightarrow> (Inr (r, te_sent t), dir))))"

section \<open>Facts\<close>

definition tee_ok :: "tee_sink \<Rightarrow> tee_sink \<Rightarrow> bytes \<Rightarrow> bool" where
  "tee_ok t0 t data \<longleftrightarrow>
     te_prefix t = te_prefix t0 \<and> te_moment t = te_moment t0 \<and> te_partial t = te_partial t0 \<and> te_file t = data \<and>
     te_digest t = data \<and> te_size t = length data \<and> prefix (te_sent t) data \<and> (\<not> te_stream_lost t \<longrightarrow> te_sent t = data)"

lemma tee_write_ok: "tee_write env data t = Inr t' \<Longrightarrow> tee_ok t0 t sofar \<Longrightarrow> tee_ok t0 t' (sofar @ data)"
  by (auto simp: tee_write_def tee_send_def tee_ok_def split: if_splits)

lemma tee_writes_ok: "tee_writes env datas t = Inr t' \<Longrightarrow> tee_ok t0 t sofar \<Longrightarrow> tee_ok t0 t' (sofar @ concat datas)"
proof (induction datas arbitrary: t sofar)
  case (Cons data datas)
  obtain t1 where "tee_write env data t = Inr t1" "tee_writes env datas t1 = Inr t'" using Cons.prems(1) by auto
  then show ?case using Cons.IH [of t1 "sofar @ data"] tee_write_ok [of env data t t1 t0 sofar] Cons.prems(2) by simp
qed simp

lemma install_loop_places:
  "install_loop links partial pre moment ordinals dir = Inr (name, dir') \<Longrightarrow>
   dir name = None \<and> dir' = (dir(name := dir partial))(partial := None) \<and>
   list_ex (\<lambda>k. name = backup_filename pre moment (int k)) ordinals"
proof (induction ordinals)
  case (Cons k ks)
  obtain placed dir1 where P: "place_without_replacing links partial (backup_filename pre moment (int k)) dir = Inr (placed, dir1)"
      "(if placed then Inr (backup_filename pre moment (int k), dir1) else install_loop links partial pre moment ks dir1) = Inr (name, dir')"
    using Cons.prems by (auto simp: Let_def)
  show ?case
  proof (cases placed)
    case True
    then show ?thesis using P by (auto simp: place_without_replacing_def split: links.splits if_splits)
  next
    case False
    then have "dir1 = dir" using P(1) by (auto simp: place_without_replacing_def split: links.splits if_splits)
    then show ?thesis using Cons.IH P(2) False by auto
  qed
qed simp

section \<open>Properties\<close>


definition demo_environment :: environment where
  "demo_environment =
     \<lparr>ev_write_fails = (\<lambda>_ _. False), ev_sync_fails = False, ev_send_fails = (\<lambda>sent _. sent \<noteq> []), ev_flush_fails = False,
      ev_links = No_hard_links, ev_verify = (\<lambda>_. Inr ())\<rparr>"


end
