(* ===== verification/Retention.thy ===== *)
theory Retention
  imports Naming
begin

text \<open>
  Which backups a folder keeps, \<^verbatim>\<open>src/dbs/retention.py\<close>: the limit of the server, the backups that are stale
  beyond the number to keep, and the removal of leftovers of interrupted runs. The file system is the
  list of its files and a predicate of those that cannot be removed.
\<close>

definition MAXIMUM_KEEP :: int where "MAXIMUM_KEEP = 5"
definition LEFTOVER_SECONDS :: int where "LEFTOVER_SECONDS = 3600"

datatype verification = Passed | Failed | Unknown

record stored_backup =
  sb_name :: string
  sb_moment :: moment
  sb_verification :: verification

text \<open>\<open>server_keep\<close> receives what \<^verbatim>\<open>int(keep)\<close> gives, or \<open>None\<close> when it raises.\<close>

definition server_keep :: "int option \<Rightarrow> int result" where
  "server_keep keep =
     (let count = (case keep of Some n \<Rightarrow> n | None \<Rightarrow> 0)
      in if \<not> (1 \<le> count \<and> count \<le> MAXIMUM_KEEP) then Inl ConfigurationError else Inr count)"

definition is_future :: "string \<Rightarrow> moment \<Rightarrow> bool" where
  "is_future name now = (case parse_backup_moment name of None \<Rightarrow> False | Some moment \<Rightarrow> now < moment)"

definition current_backup_names :: "string list \<Rightarrow> string option \<Rightarrow> moment \<Rightarrow> string list" where
  "current_backup_names names pre now = filter (\<lambda>name. \<not> is_future name now) (sorted_backups names pre)"

text \<open>\<^verbatim>\<open>sorted(backups, key=..., reverse=True)\<close>: descending, and stable.\<close>

definition newest_first :: "stored_backup list \<Rightarrow> stored_backup list" where
  "newest_first backups = rev (sort_key (\<lambda>b. (sb_moment b, sb_name b)) (rev backups))"

definition newest_verified :: "stored_backup list \<Rightarrow> stored_backup option" where
  "newest_verified newest = find (\<lambda>b. sb_verification b = Passed) newest"

definition kept_names :: "stored_backup list \<Rightarrow> nat \<Rightarrow> string list" where
  "kept_names newest keep =
     map sb_name (take keep (filter (\<lambda>b. sb_verification b \<noteq> Failed) newest)) @
     (case newest_verified newest of None \<Rightarrow> [] | Some b \<Rightarrow> [sb_name b])"

definition stale_stored_backups :: "stored_backup list \<Rightarrow> int \<Rightarrow> string list result" where
  "stale_stored_backups backups keep =
     (if keep < 1 then Inl ConfigurationError
      else let newest = newest_first backups;
               kept = kept_names newest (nat keep);
               stale = filter (\<lambda>(position, b). sb_name b \<notin> set kept \<and> (sb_verification b \<noteq> Failed \<or> nat keep \<le> position))
                         (enumerate 0 newest)
           in Inr (map sb_name (rev (map snd stale))))"

text \<open>The loop that takes the oldest unprotected backups until the surplus is gone.\<close>

fun drop_surplus :: "string set \<Rightarrow> string list \<Rightarrow> int \<Rightarrow> string set \<Rightarrow> string set" where
  "drop_surplus protected [] surplus stale = stale"
| "drop_surplus protected (name # names) surplus stale =
     (if surplus \<le> 0 then stale
      else if name \<notin> protected then drop_surplus protected names (surplus - 1) (insert name stale)
      else drop_surplus protected names surplus stale)"

definition stale_beyond_limit :: "stored_backup list \<Rightarrow> int \<Rightarrow> string list \<Rightarrow> string list result" where
  "stale_beyond_limit backups keep protect =
     (let newest = newest_first backups;
          verified = map_option sb_name (newest_verified newest);
          protected = set protect \<union> (case verified of None \<Rightarrow> {} | Some name \<Rightarrow> if name \<noteq> [] then {name} else {})
      in and_then (stale_stored_backups backups keep) (\<lambda>first.
         let stale = set first - protected;
             remaining = filter (\<lambda>name. name \<notin> stale) (map sb_name newest);
             stale = drop_surplus protected (rev remaining) (int (length remaining) - keep) stale
         in Inr (filter (\<lambda>name. name \<in> stale) (map sb_name (rev newest)))))"

text \<open>Removing: the names that could be removed, in order, and the folder without them.\<close>

definition remove_backups :: "(string \<Rightarrow> bool) \<Rightarrow> string list \<Rightarrow> string list" where
  "remove_backups removable names = filter removable names"

text \<open>\<^verbatim>\<open>^\..+\.dbs\.[A-Za-z0-9_]{8}(?:\.partial)?$\<close>: everything behind the \<^verbatim>\<open>.+\<close> has a fixed length.\<close>

definition leftover_word :: "string \<Rightarrow> bool" where
  "leftover_word t \<longleftrightarrow>
     15 \<le> length t \<and> hd t = CHR ''.'' \<and> newline \<notin> set (take (length t - 14) (drop 1 t)) \<and>
     take 5 (drop (length t - 13) t) = ''.dbs.'' \<and>
     list_all (\<lambda>c. is_alnum c \<or> c = CHR ''_'') (drop (length t - 8) t)"

definition LEFTOVER_PATTERN :: "string \<Rightarrow> bool" where
  "LEFTOVER_PATTERN =
     until_dollar (\<lambda>s. leftover_word s \<or> (suffix ''.partial'' s \<and> leftover_word (take (length s - 8) s)))"

definition is_leftover :: "string \<Rightarrow> int \<Rightarrow> bool" where
  "is_leftover name bytes \<longleftrightarrow> LEFTOVER_PATTERN name \<or> (bytes = 0 \<and> is_backup_name name None)"

text \<open>An entry of the folder: whether it is a regular file, its modification time and size, whether it can be
  removed; \<open>None\<close> where the call raises \<^verbatim>\<open>OSError\<close>.\<close>

record entry =
  en_name :: string
  en_is_file :: "bool option"
  en_stat :: "(int \<times> int) option"
  en_removable :: bool

definition sweep_leftovers :: "entry list option \<Rightarrow> int \<Rightarrow> int \<Rightarrow> string list" where
  "sweep_leftovers entries older_than now =
     (case entries of
        None \<Rightarrow> []
      | Some es \<Rightarrow>
          map en_name (filter (\<lambda>en.
            case en_is_file en of None \<Rightarrow> False | Some file \<Rightarrow>
              file \<and> (case en_stat en of None \<Rightarrow> False | Some (mtime, bytes) \<Rightarrow>
                \<not> (now - mtime < older_than \<or> \<not> is_leftover (en_name en) bytes) \<and> en_removable en)) es))"

text \<open>\<open>read_created\<close> on the first verified header of the file (or what opening it raises), with the reading of the
  manifest's \<^verbatim>\<open>created\<close> field in UTC as \<open>created_of\<close>.\<close>

definition read_created :: "('m \<Rightarrow> moment result) \<Rightarrow> 'm option result \<Rightarrow> (bool \<times> moment option) result" where
  "read_created created_of found =
     (case found of
        Inl e \<Rightarrow> if catches OSError e \<or> catches ContainerError e then Inr (False, None) else Inl e
      | Inr None \<Rightarrow> Inr (False, None)
      | Inr (Some manifest) \<Rightarrow>
          (case created_of manifest of
             Inl e \<Rightarrow> if catches KeyError e \<or> catches TypeError e \<or> catches ValueError e then Inr (True, None) else Inl e
           | Inr created \<Rightarrow> Inr (True, Some created)))"

section \<open>Order\<close>

definition newer :: "stored_backup \<Rightarrow> stored_backup \<Rightarrow> bool" where
  "newer b c \<longleftrightarrow> (sb_moment c, sb_name c) < (sb_moment b, sb_name b)"

lemma newer_irrefl [simp]: "\<not> newer b b"
  by (simp add: newer_def)

lemma newer_asym: "newer b c \<Longrightarrow> \<not> newer c b"
  by (meson newer_def order_less_asym)

lemma set_newest_first [simp]: "set (newest_first backups) = set backups"
  by (simp add: newest_first_def)

lemma length_newest_first [simp]: "length (newest_first backups) = length backups"
  by (simp add: newest_first_def)

lemma newest_first_sorted:
  assumes "distinct (map sb_name backups)"
  shows "sorted_wrt newer (newest_first backups)"
proof -
  let ?key = "\<lambda>b. (sb_moment b, sb_name b)"
  let ?xs = "sort_key ?key (rev backups)"
  have "distinct backups" "inj_on sb_name (set backups)" using assms by (simp_all add: distinct_map)
  then have "distinct (map ?key ?xs)"
    by (simp add: distinct_map inj_on_def)
  then have "sorted_wrt (<) (map ?key ?xs)" by (simp add: strict_sorted_iff)
  then show ?thesis by (simp add: newest_first_def sorted_wrt_rev sorted_wrt_map newer_def)
qed

lemma sorted_newer_take:
  assumes "sorted_wrt newer xs" "i < length xs"
  shows "{c \<in> set xs. newer c (xs ! i)} = set (take i xs)" "card (set (take i xs)) = i"
proof -
  have before: "newer (xs ! j) (xs ! k)" if "j < k" "k < length xs" for j k
    using assms(1) that by (simp add: sorted_wrt_iff_nth_less)
  show "{c \<in> set xs. newer c (xs ! i)} = set (take i xs)"
  proof (rule set_eqI, rule iffI)
    fix c assume "c \<in> {c \<in> set xs. newer c (xs ! i)}"
    then obtain j where j: "j < length xs" "c = xs ! j" "newer (xs ! j) (xs ! i)" by (auto simp: in_set_conv_nth)
    have "j < i"
      using before [of i j] j newer_asym by (cases i j rule: linorder_cases) auto
    then show "c \<in> set (take i xs)" using j by (auto simp: in_set_conv_nth)
  next
    fix c assume "c \<in> set (take i xs)"
    then obtain j where "j < i" "c = xs ! j" using assms(2) by (auto simp: in_set_conv_nth)
    then show "c \<in> {c \<in> set xs. newer c (xs ! i)}" using before [of j i] assms(2) by simp
  qed
  have "distinct xs"
    unfolding distinct_conv_nth
  proof (intro allI impI)
    fix j k assume "j < length xs" "k < length xs" "j \<noteq> k"
    then show "xs ! j \<noteq> xs ! k" using before [of j k] before [of k j] by (cases j k rule: linorder_cases) auto
  qed
  then show "card (set (take i xs)) = i" using assms(2) by (simp add: distinct_card)
qed

lemma in_take_newer:
  assumes sorted: "sorted_wrt newer xs" and b: "b \<in> set xs"
  shows "b \<in> set (take keep xs) \<longleftrightarrow> card {c \<in> set xs. newer c b} < keep"
proof -
  obtain i where i: "i < length xs" "b = xs ! i" using b by (auto simp: in_set_conv_nth)
  have "card {c \<in> set xs. newer c b} = i" using sorted_newer_take [OF sorted i(1)] i(2) by simp
  moreover have "b \<in> set (take keep xs) \<longleftrightarrow> i < keep"
  proof
    assume "b \<in> set (take keep xs)"
    then obtain j where j: "j < keep" "j < length xs" "xs ! j = b" by (auto simp: in_set_conv_nth)
    have "\<not> newer (xs ! j) (xs ! i)" "\<not> newer (xs ! i) (xs ! j)" using j i by auto
    then have "j = i" using sorted j i by (metis linorder_neqE_nat sorted_wrt_iff_nth_less)
    then show "i < keep" using j by simp
  qed (use i in \<open>auto simp: in_set_conv_nth\<close>)
  ultimately show ?thesis by simp
qed

section \<open>What is stale\<close>

text \<open>\<open>latest_passed backups b\<close>: no newer backup than \<open>b\<close> has passed its verification, and \<open>b\<close> has.\<close>

definition latest_passed :: "stored_backup list \<Rightarrow> stored_backup \<Rightarrow> bool" where
  "latest_passed backups b \<longleftrightarrow>
     sb_verification b = Passed \<and> (\<forall>c \<in> set backups. sb_verification c = Passed \<longrightarrow> \<not> newer c b)"

lemma newest_verified_in: "newest_verified xs = Some b \<Longrightarrow> b \<in> set xs \<and> sb_verification b = Passed"
  by (auto simp: newest_verified_def find_Some_iff)

lemma newest_verified_iff:
  assumes sorted: "sorted_wrt newer xs" and b: "b \<in> set xs"
  shows "newest_verified xs = Some b \<longleftrightarrow> latest_passed xs b"
  using sorted b
proof (induction xs)
  case (Cons x xs)
  show ?case
  proof (cases "sb_verification x = Passed")
    case True
    then show ?thesis using Cons.prems by (auto simp: newest_verified_def latest_passed_def dest: newer_asym)
  next
    case False
    then have "newest_verified (x # xs) = newest_verified xs" "latest_passed (x # xs) b = latest_passed xs b"
      by (simp_all add: newest_verified_def latest_passed_def)
    moreover have "b = x \<Longrightarrow> \<not> latest_passed xs b" "newest_verified xs = Some x \<Longrightarrow> False"
      using False newest_verified_in [of xs x] by (auto simp: latest_passed_def)
    ultimately show ?thesis using Cons by auto
  qed
qed simp

lemma kept_names_iff:
  assumes sorted: "sorted_wrt newer xs" and names: "inj_on sb_name (set xs)" and b: "b \<in> set xs"
  shows "sb_name b \<in> set (kept_names xs keep) \<longleftrightarrow>
    sb_verification b \<noteq> Failed \<and> card {c \<in> set xs. newer c b \<and> sb_verification c \<noteq> Failed} < keep \<or> latest_passed xs b"
proof -
  let ?counted = "filter (\<lambda>b. sb_verification b \<noteq> Failed) xs"
  have "sb_name b \<in> sb_name ` set (take keep ?counted) \<longleftrightarrow> b \<in> set (take keep ?counted)"
    using names b inj_on_image_mem_iff [OF names b] by (metis (no_types, lifting) filter_is_subset in_set_takeD subsetD subsetI)
  also have "\<dots> \<longleftrightarrow> sb_verification b \<noteq> Failed \<and> card {c \<in> set xs. newer c b \<and> sb_verification c \<noteq> Failed} < keep"
  proof (cases "sb_verification b = Failed")
    case True
    then show ?thesis by (auto dest: in_set_takeD)
  next
    case False
    have "{c \<in> set ?counted. newer c b} = {c \<in> set xs. newer c b \<and> sb_verification c \<noteq> Failed}" by auto
    then show ?thesis
      using in_take_newer [of ?counted b keep] sorted_wrt_filter [OF sorted, of "\<lambda>b. sb_verification b \<noteq> Failed"] b False by simp
  qed
  finally have taken: "sb_name b \<in> sb_name ` set (take keep ?counted) \<longleftrightarrow>
    sb_verification b \<noteq> Failed \<and> card {c \<in> set xs. newer c b \<and> sb_verification c \<noteq> Failed} < keep" .
  have "(\<exists>v. newest_verified xs = Some v \<and> sb_name b = sb_name v) \<longleftrightarrow> newest_verified xs = Some b"
    using names b newest_verified_in unfolding inj_on_def by blast
  moreover have "sb_name b \<in> set (kept_names xs keep) \<longleftrightarrow>
      sb_name b \<in> sb_name ` set (take keep ?counted) \<or> (\<exists>v. newest_verified xs = Some v \<and> sb_name b = sb_name v)"
    by (cases "newest_verified xs") (auto simp: kept_names_def)
  ultimately show ?thesis using taken newest_verified_iff [OF sorted b] by blast
qed

lemma in_set_enumerate: "p \<in> set (enumerate n xs) \<Longrightarrow> snd p \<in> set xs"
  by (metis map_snd_enumerate in_set_zipE nth_mem zip_map_fst_snd image_eqI list.set_map)

lemma stale_names:
  assumes keep: "1 \<le> keep" and names: "distinct (map sb_name backups)"
  obtains stale where "stale_stored_backups backups keep = Inr stale" "distinct stale"
    "set stale \<subseteq> sb_name ` set backups"
    "\<And>b. b \<in> set backups \<Longrightarrow> sb_name b \<in> set stale \<longleftrightarrow> \<not> latest_passed backups b \<and>
       (if sb_verification b = Failed then nat keep \<le> card {c \<in> set backups. newer c b}
        else nat keep \<le> card {c \<in> set backups. newer c b \<and> sb_verification c \<noteq> Failed})"
proof -
  let ?xs = "newest_first backups"
  have sorted: "sorted_wrt newer ?xs" using newest_first_sorted [OF names] .
  have inj: "inj_on sb_name (set ?xs)" using names by (simp add: distinct_map)
  define stale where "stale = map sb_name (rev (map snd (filter (\<lambda>(position, b). sb_name b \<notin> set (kept_names ?xs (nat keep)) \<and>
      (sb_verification b \<noteq> Failed \<or> nat keep \<le> position)) (enumerate 0 ?xs))))"
  have result: "stale_stored_backups backups keep = Inr stale"
    using keep by (simp add: stale_stored_backups_def stale_def Let_def)
  have "distinct ?xs" "set (map snd (enumerate 0 ?xs)) = set ?xs"
    using names distinct_map by (auto simp: newest_first_def rev_map)
  then have sub: "set stale \<subseteq> sb_name ` set backups"
    by (force simp: stale_def dest: in_set_enumerate)
  have "distinct (map snd (filter P (enumerate 0 ?xs)))" for P
    using \<open>distinct ?xs\<close> by (metis distinct_map_filter map_snd_enumerate)
  moreover have "inj_on sb_name (set (map snd (filter P (enumerate 0 ?xs))))" for P
    by (rule inj_on_subset [OF inj]) (force dest: in_set_enumerate)
  ultimately have dist: "distinct stale"
    unfolding stale_def by (simp add: distinct_map)
  have iff: "sb_name b \<in> set stale \<longleftrightarrow> \<not> latest_passed backups b \<and>
       (if sb_verification b = Failed then nat keep \<le> card {c \<in> set backups. newer c b}
        else nat keep \<le> card {c \<in> set backups. newer c b \<and> sb_verification c \<noteq> Failed})"
    if b: "b \<in> set backups" for b
  proof -
    obtain i where i: "i < length ?xs" "?xs ! i = b" using b by (metis in_set_conv_nth set_newest_first)
    have pos: "card {c \<in> set backups. newer c b} = i" using sorted_newer_take [OF sorted i(1)] i(2) by simp
    have "sb_name b \<in> set stale \<longleftrightarrow>
        sb_name b \<notin> set (kept_names ?xs (nat keep)) \<and> (sb_verification b \<noteq> Failed \<or> nat keep \<le> i)"
    proof
      assume "sb_name b \<in> set stale"
      then obtain j where j: "j < length ?xs" "sb_name b = sb_name (?xs ! j)"
        "sb_name (?xs ! j) \<notin> set (kept_names ?xs (nat keep))" "sb_verification (?xs ! j) \<noteq> Failed \<or> nat keep \<le> j"
        by (auto simp: stale_def in_set_enumerate_eq)
      have "?xs ! j = b" using inj b j(1,2) nth_mem [OF j(1)] unfolding inj_on_def by (metis set_newest_first)
      moreover from this have "j = i" using \<open>distinct ?xs\<close> i j(1) nth_eq_iff_index_eq by metis
      ultimately show "sb_name b \<notin> set (kept_names ?xs (nat keep)) \<and> (sb_verification b \<noteq> Failed \<or> nat keep \<le> i)"
        using j by simp
    next
      assume "sb_name b \<notin> set (kept_names ?xs (nat keep)) \<and> (sb_verification b \<noteq> Failed \<or> nat keep \<le> i)"
      then show "sb_name b \<in> set stale" using i
        by (force simp: stale_def in_set_enumerate_eq)
    qed
    moreover have "latest_passed ?xs b = latest_passed backups b" by (simp add: latest_passed_def)
    moreover have "latest_passed backups b \<Longrightarrow> sb_verification b \<noteq> Failed" by (auto simp: latest_passed_def)
    ultimately show ?thesis using kept_names_iff [OF sorted inj, of b "nat keep"] b pos by auto
  qed
  show thesis by (rule that [OF result dist sub iff])
qed

lemma drop_surplus_keeps: "stale \<subseteq> drop_surplus protected names surplus stale"
  by (induction protected names surplus stale rule: drop_surplus.induct) auto

lemma drop_surplus_unprotected: "drop_surplus protected names surplus stale \<subseteq> stale \<union> (set names - protected)"
  by (induction protected names surplus stale rule: drop_surplus.induct) auto

lemma drop_surplus_enough:
  "distinct names \<Longrightarrow> set names \<inter> stale = {} \<Longrightarrow>
   int (card (set names - drop_surplus protected names surplus stale)) \<le> max 0 (int (length names) - max 0 surplus) \<or>
   set names - drop_surplus protected names surplus stale \<subseteq> protected"
proof (induction protected names surplus stale rule: drop_surplus.induct)
  case (2 protected name names surplus stale)
  consider "surplus \<le> 0" | "0 < surplus" "name \<notin> protected" | "0 < surplus" "name \<in> protected" by linarith
  then show ?case
  proof cases
    case 1
    have "card (set (name # names) - stale) \<le> length (name # names)"
      using card_mono [of "set (name # names)" "set (name # names) - stale"] card_length [of "name # names"] by simp
    then show ?thesis using 1 by auto
  next
    case 2
    let ?d = "drop_surplus protected names (surplus - 1) (insert name stale)"
    have "name \<in> ?d" using drop_surplus_keeps by blast
    then have "set (name # names) - ?d = set names - ?d" by auto
    moreover have "set names \<inter> insert name stale = {}" using "2.prems" by auto
    ultimately show ?thesis using "2.IH"(1) 2 "2.prems" by (simp add: algebra_simps)
  next
    case 3
    let ?d = "drop_surplus protected names surplus stale"
    have ih: "int (card (set names - ?d)) \<le> max 0 (int (length names) - max 0 surplus) \<or> set names - ?d \<subseteq> protected"
      using "2.IH"(2) 3 "2.prems" by auto
    have "set (name # names) - ?d \<subseteq> insert name (set names - ?d)" by auto
    then have one: "card (set (name # names) - ?d) \<le> Suc (card (set names - ?d))"
      using card_mono [of "insert name (set names - ?d)" "set (name # names) - ?d"] card_insert_if [of "set names - ?d" name]
      by (simp split: if_splits)
    have "int (card (set (name # names) - ?d)) \<le> max 0 (int (length (name # names)) - max 0 surplus) \<or>
        set (name # names) - ?d \<subseteq> protected"
    proof (cases "set names - ?d \<subseteq> protected")
      case True
      then show ?thesis using 3(2) by auto
    next
      case False
      then have "0 < card (set names - ?d)" by (auto simp: card_gt_0_iff)
      moreover have "int (card (set names - ?d)) \<le> max 0 (int (length names) - max 0 surplus)" using ih False by blast
      ultimately have "int (card (set (name # names) - ?d)) \<le> max 0 (int (Suc (length names)) - max 0 surplus)"
        using one by linarith
      then show ?thesis by simp
    qed
    then show ?thesis using 3 by simp
  qed
qed simp

text \<open>
  C29: The backups that are stale when \<open>keep\<close> have to stay, one by one: a backup is kept when fewer than \<open>keep\<close>
  backups that have not failed their verification are newer, and the newest one that passed is always kept; a
  failed backup goes once \<open>keep\<close> backups of any kind are newer.
\<close>

theorem stale_stored_backups_exactly:
  assumes "1 \<le> keep" and "distinct (map sb_name backups)"
  shows "\<exists>stale. stale_stored_backups backups keep = Inr stale \<and> set stale \<subseteq> sb_name ` set backups \<and>
    (\<forall>b \<in> set backups. sb_name b \<in> set stale \<longleftrightarrow> \<not> latest_passed backups b \<and>
       nat keep \<le> card {c \<in> set backups. newer c b \<and> (sb_verification b \<noteq> Failed \<longrightarrow> sb_verification c \<noteq> Failed)})"
proof -
  obtain stale where stale: "stale_stored_backups backups keep = Inr stale" "set stale \<subseteq> sb_name ` set backups"
    and iff: "\<And>b. b \<in> set backups \<Longrightarrow> sb_name b \<in> set stale \<longleftrightarrow> \<not> latest_passed backups b \<and>
       (if sb_verification b = Failed then nat keep \<le> card {c \<in> set backups. newer c b}
        else nat keep \<le> card {c \<in> set backups. newer c b \<and> sb_verification c \<noteq> Failed})"
    by (rule stale_names [OF assms]) (rule that)
  have "sb_name b \<in> set stale \<longleftrightarrow> \<not> latest_passed backups b \<and>
      nat keep \<le> card {c \<in> set backups. newer c b \<and> (sb_verification b \<noteq> Failed \<longrightarrow> sb_verification c \<noteq> Failed)}"
    if "b \<in> set backups" for b
    using iff [OF that] by (cases "sb_verification b = Failed") simp_all
  then show ?thesis using stale by blast
qed

definition demo_backups :: "stored_backup list" where
  "demo_backups =
     [\<lparr>sb_name = ''a.dbs'', sb_moment = (2024, 1, 1, 0, 0, 0, 0), sb_verification = Passed\<rparr>,
      \<lparr>sb_name = ''b.dbs'', sb_moment = (2024, 1, 2, 0, 0, 0, 0), sb_verification = Unknown\<rparr>,
      \<lparr>sb_name = ''c.dbs'', sb_moment = (2024, 1, 3, 0, 0, 0, 0), sb_verification = Unknown\<rparr>]"

lemma demo_backups_facts: "distinct (map sb_name demo_backups)"
    "latest_passed demo_backups (demo_backups ! 0)" "\<not> latest_passed demo_backups (demo_backups ! 1)"
    "newer (demo_backups ! 2) (demo_backups ! 1)"
  by (simp_all add: demo_backups_def latest_passed_def newer_def less_prod_simp)

theorem stale_stored_backups_exactly_witness:
  "\<exists>stale. stale_stored_backups demo_backups 1 = Inr stale \<and> ''a.dbs'' \<notin> set stale \<and> ''b.dbs'' \<in> set stale"
proof -
  obtain stale where stale: "stale_stored_backups demo_backups 1 = Inr stale"
    "\<And>b. b \<in> set demo_backups \<Longrightarrow> sb_name b \<in> set stale \<longleftrightarrow> \<not> latest_passed demo_backups b \<and>
       nat 1 \<le> card {c \<in> set demo_backups. newer c b \<and> (sb_verification b \<noteq> Failed \<longrightarrow> sb_verification c \<noteq> Failed)}"
    using stale_stored_backups_exactly [of 1 demo_backups] demo_backups_facts(1) by auto
  have "demo_backups ! 2 \<in> {c \<in> set demo_backups. newer c (demo_backups ! 1) \<and>
      (sb_verification (demo_backups ! 1) \<noteq> Failed \<longrightarrow> sb_verification c \<noteq> Failed)}"
    using demo_backups_facts(4) by (simp add: demo_backups_def)
  then have "0 < card {c \<in> set demo_backups. newer c (demo_backups ! 1) \<and>
      (sb_verification (demo_backups ! 1) \<noteq> Failed \<longrightarrow> sb_verification c \<noteq> Failed)}"
    by (auto simp: card_gt_0_iff)
  moreover have "demo_backups ! 0 \<in> set demo_backups" "demo_backups ! 1 \<in> set demo_backups"
      "sb_name (demo_backups ! 0) = ''a.dbs''" "sb_name (demo_backups ! 1) = ''b.dbs''"
    by (simp_all add: demo_backups_def)
  ultimately show ?thesis
    using stale(1) stale(2) [of "demo_backups ! 0"] stale(2) [of "demo_backups ! 1"] demo_backups_facts(2,3)
    by (intro exI [of _ stale]) simp
qed

text \<open>
  Emptying a folder down to its limit never takes a protected backup nor the newest one that passed its
  verification, and it takes enough: at most \<open>keep\<close> backups stay, unless all that stay are protected.
\<close>

theorem stale_beyond_limit_is_safe:
  assumes keep: "1 \<le> keep" and names: "distinct (map sb_name backups)" "\<forall>b \<in> set backups. sb_name b \<noteq> []"
  shows "\<exists>stale. stale_beyond_limit backups keep protect = Inr stale \<and>
    set stale \<subseteq> sb_name ` set backups - set protect \<and>
    (\<forall>b \<in> set backups. latest_passed backups b \<longrightarrow> sb_name b \<notin> set stale) \<and>
    (int (card (sb_name ` set backups - set stale)) \<le> keep \<or>
     (\<forall>b \<in> set backups. sb_name b \<notin> set stale \<longrightarrow> sb_name b \<in> set protect \<or> latest_passed backups b))"
proof -
  let ?xs = "newest_first backups"
  obtain first where first: "stale_stored_backups backups keep = Inr first" "set first \<subseteq> sb_name ` set backups"
    by (rule stale_names [OF keep names(1)]) (rule that)
  have sorted: "sorted_wrt newer ?xs" using newest_first_sorted [OF names(1)] .
  have inj: "inj_on sb_name (set backups)" using names(1) by (simp add: distinct_map)
  define protected where "protected = set protect \<union> (case map_option sb_name (newest_verified ?xs) of
      None \<Rightarrow> {} | Some name \<Rightarrow> if name \<noteq> [] then {name} else {})"
  have protected: "sb_name b \<in> protected \<longleftrightarrow> sb_name b \<in> set protect \<or> latest_passed backups b" if b: "b \<in> set backups" for b
  proof -
    have "newest_verified ?xs = Some b \<longleftrightarrow> latest_passed backups b"
      using newest_verified_iff [OF sorted, of b] b by (simp add: latest_passed_def)
    moreover have "newest_verified ?xs = Some v \<Longrightarrow> sb_name v = sb_name b \<longleftrightarrow> v = b" for v
      using newest_verified_in [of ?xs v] inj b by (auto simp: inj_on_def)
    moreover have "newest_verified ?xs = Some v \<Longrightarrow> sb_name v \<noteq> []" for v
      using newest_verified_in [of ?xs v] names(2) by simp
    ultimately show ?thesis unfolding protected_def by (cases "newest_verified ?xs") fastforce+
  qed
  define remaining where "remaining = filter (\<lambda>name. name \<notin> set first - protected) (map sb_name ?xs)"
  define gone where "gone = drop_surplus protected (rev remaining) (int (length remaining) - keep) (set first - protected)"
  define stale where "stale = filter (\<lambda>name. name \<in> gone) (map sb_name (rev ?xs))"
  have result: "stale_beyond_limit backups keep protect = Inr stale"
    using first(1) by (simp add: stale_beyond_limit_def protected_def remaining_def gone_def stale_def Let_def)
  have all: "set stale = gone \<inter> sb_name ` set backups" by (auto simp: stale_def)
  have "gone \<inter> protected = {}"
    using drop_surplus_unprotected [of protected "rev remaining"] unfolding gone_def by blast
  then have safe: "set stale \<inter> protected = {}" using all by blast
  have "distinct (map sb_name ?xs)" using names(1)
    by (simp add: newest_first_def distinct_map)
  then have "distinct (rev remaining)" unfolding remaining_def by (simp del: set_newest_first)
  moreover have "set (rev remaining) \<inter> (set first - protected) = {}" by (auto simp: remaining_def)
  ultimately have enough: "int (card (set (rev remaining) - gone)) \<le>
        max 0 (int (length (rev remaining)) - max 0 (int (length remaining) - keep)) \<or> set (rev remaining) - gone \<subseteq> protected"
    unfolding gone_def by (rule drop_surplus_enough)
  have keeps: "set first - protected \<subseteq> gone" unfolding gone_def by (rule drop_surplus_keeps)
  have shape: "set (rev remaining) = sb_name ` set backups - (set first - protected)" by (auto simp: remaining_def)
  have left: "set (rev remaining) - gone = sb_name ` set backups - set stale"
    using all keeps shape by blast
  have "int (card (sb_name ` set backups - set stale)) \<le> keep \<or> sb_name ` set backups - set stale \<subseteq> protected"
    using enough keep unfolding left by auto
  then have "int (card (sb_name ` set backups - set stale)) \<le> keep \<or>
      (\<forall>b \<in> set backups. sb_name b \<notin> set stale \<longrightarrow> sb_name b \<in> set protect \<or> latest_passed backups b)"
    using protected by blast
  moreover have "set stale \<subseteq> sb_name ` set backups - set protect"
    using safe all by (auto simp: protected_def)
  moreover have "\<forall>b \<in> set backups. latest_passed backups b \<longrightarrow> sb_name b \<notin> set stale"
    using safe protected by blast
  ultimately show ?thesis using result by blast
qed

theorem stale_beyond_limit_is_safe_witness:
  "\<exists>stale. stale_beyond_limit demo_backups 1 [''c.dbs''] = Inr stale \<and> ''a.dbs'' \<notin> set stale \<and> ''c.dbs'' \<notin> set stale"
proof -
  have names: "\<forall>b \<in> set demo_backups. sb_name b \<noteq> []" by (simp add: demo_backups_def)
  have "demo_backups ! 0 \<in> set demo_backups" "sb_name (demo_backups ! 0) = ''a.dbs''" by (simp_all add: demo_backups_def)
  then show ?thesis
    using stale_beyond_limit_is_safe [of 1 demo_backups "[''c.dbs'']", OF _ demo_backups_facts(1) names] demo_backups_facts(2)
    by force
qed

end
