(* ===== verification/Pipeline.thy ===== *)
theory Pipeline
  imports Errors
begin

text \<open>
  The threads of \<^verbatim>\<open>src/dbs/engine/pipeline.py\<close>: bounded channels between the stages of a backup, and the
  pipeline that starts the stages, stops them all when one fails and joins them. Every channel operation holds the
  lock of its channel, so it is one step of the relation below; a \<^verbatim>\<open>while ...: wait()\<close> loop is a step that is not
  enabled while its condition holds (every change of a channel, and \<^verbatim>\<open>stop\<close>, notifies all who wait, so no wakeup is
  lost). What a stage computes between two channel operations is its own and is part of the step that received
  the item. The stages themselves are parameters: \<open>feed\<close> is what a stage does with one item, \<open>finish\<close> what it does
  when its channel has ended; both give the items to put and possibly the exception raised after them.
\<close>

section \<open>Channels\<close>

text \<open>What a channel carries: an item or \<^verbatim>\<open>_END\<close>. \<open>Fail\<close> only stands in the list of what a stage has still to do.\<close>

datatype 'd msg = Item 'd | End | Fail exn

record 'd channel =
  ch_items :: "'d msg list"
  ch_bytes :: nat

definition empty_channel :: "'d channel" where "empty_channel = \<lparr>ch_items = [], ch_bytes = 0\<rparr>"

definition put_waits :: "nat \<Rightarrow> bool \<Rightarrow> nat \<Rightarrow> 'd channel \<Rightarrow> bool" where
  "put_waits capacity stopped n ch \<longleftrightarrow> ch_items ch \<noteq> [] \<and> capacity < ch_bytes ch + n \<and> \<not> stopped"

definition channel_append :: "bool \<Rightarrow> 'd msg \<Rightarrow> nat \<Rightarrow> 'd channel \<Rightarrow> 'd channel result" where
  "channel_append stopped item n ch =
     (if stopped then Inl Stopped
      else Inr \<lparr>ch_items = ch_items ch @ [item], ch_bytes = ch_bytes ch + n\<rparr>)"

definition channel_close :: "bool \<Rightarrow> 'd channel \<Rightarrow> 'd channel result" where
  "channel_close stopped ch = channel_append stopped End 0 ch"

definition get_waits :: "bool \<Rightarrow> 'd channel \<Rightarrow> bool" where
  "get_waits stopped ch \<longleftrightarrow> ch_items ch = [] \<and> \<not> stopped"

definition channel_get :: "('d \<Rightarrow> nat) \<Rightarrow> bool \<Rightarrow> 'd channel \<Rightarrow> ('d msg \<times> 'd channel) result" where
  "channel_get len stopped ch =
     (if stopped then Inl Stopped
      else Inr (hd (ch_items ch),
        \<lparr>ch_items = tl (ch_items ch),
         ch_bytes = (case hd (ch_items ch) of Item d \<Rightarrow> ch_bytes ch - len d | _ \<Rightarrow> ch_bytes ch)\<rparr>))"

section \<open>Stages\<close>

text \<open>
  A thread: it reads its channel (\<open>Reading\<close>), its channel has ended and it does its last puts (\<open>Ending\<close>), or its
  function has returned (\<open>Finished\<close>). \<open>ce_out\<close> is what it has to put before it reads again, \<open>ce_channel\<close> the channel
  it puts to. The first thread is the caller, which only puts; the last one is the sink, which only reads.
\<close>

datatype thread_mode = Reading | Ending | Finished

record ('w, 'd) thread_cell =
  ce_mode :: thread_mode
  ce_work :: 'w
  ce_out :: "'d msg list"
  ce_channel :: "'d channel"

type_synonym ('w, 'd) feeder = "'w \<Rightarrow> 'd \<Rightarrow> 'w \<times> 'd list \<times> exn option"
type_synonym ('w, 'd) finisher = "'w \<Rightarrow> 'w \<times> 'd list \<times> exn option"

definition after_feed :: "'d list \<Rightarrow> exn option \<Rightarrow> 'd msg list" where
  "after_feed ds e = map Item ds @ (case e of None \<Rightarrow> [] | Some e \<Rightarrow> [Fail e])"

definition after_end :: "bool \<Rightarrow> 'd list \<Rightarrow> exn option \<Rightarrow> 'd msg list" where
  "after_end sink ds e = map Item ds @ (case e of None \<Rightarrow> if sink then [] else [End] | Some e \<Rightarrow> [Fail e])"

text \<open>A step of one thread while the pipeline is not stopped; \<open>deeper\<close> is a step further down the line.\<close>

inductive stage_move ::
  "('w, 'd) feeder \<Rightarrow> ('w, 'd) finisher \<Rightarrow> ('d \<Rightarrow> nat) \<Rightarrow> nat \<Rightarrow> ('w, 'd) thread_cell list \<Rightarrow> ('w, 'd) thread_cell list \<Rightarrow> bool"
  for feed finish len capacity where
  move_put: "ce_mode c \<noteq> Finished \<Longrightarrow> ce_out c = Item d # out \<Longrightarrow> \<not> put_waits capacity False (len d) (ce_channel c) \<Longrightarrow>
    channel_append False (Item d) (len d) (ce_channel c) = Inr ch \<Longrightarrow>
    stage_move feed finish len capacity (c # n # cs) (c\<lparr>ce_out := out, ce_channel := ch\<rparr> # n # cs)"
| move_close: "ce_mode c \<noteq> Finished \<Longrightarrow> ce_out c = End # out \<Longrightarrow> channel_close False (ce_channel c) = Inr ch \<Longrightarrow>
    stage_move feed finish len capacity (c # n # cs) (c\<lparr>ce_out := out, ce_channel := ch\<rparr> # n # cs)"
| move_get: "ce_mode n = Reading \<Longrightarrow> ce_out n = [] \<Longrightarrow> \<not> get_waits False (ce_channel c) \<Longrightarrow>
    channel_get len False (ce_channel c) = Inr (Item d, ch) \<Longrightarrow> feed (ce_work n) d = (w, ds, e) \<Longrightarrow>
    stage_move feed finish len capacity (c # n # cs)
      (c\<lparr>ce_channel := ch\<rparr> # n\<lparr>ce_work := w, ce_out := after_feed ds e\<rparr> # cs)"
| move_end: "ce_mode n = Reading \<Longrightarrow> ce_out n = [] \<Longrightarrow> \<not> get_waits False (ce_channel c) \<Longrightarrow>
    channel_get len False (ce_channel c) = Inr (End, ch) \<Longrightarrow> finish (ce_work n) = (w, ds, e) \<Longrightarrow>
    stage_move feed finish len capacity (c # n # cs)
      (c\<lparr>ce_channel := ch\<rparr> # n\<lparr>ce_mode := Ending, ce_work := w, ce_out := after_end (cs = []) ds e\<rparr> # cs)"
| move_done: "ce_mode c = Ending \<Longrightarrow> ce_out c = [] \<Longrightarrow>
    stage_move feed finish len capacity (c # cs) (c\<lparr>ce_mode := Finished\<rparr> # cs)"
| deeper: "stage_move feed finish len capacity cs cs' \<Longrightarrow> stage_move feed finish len capacity (c # cs) (c # cs')"

section \<open>The pipeline\<close>

record ('w, 'd) pipeline =
  pl_cells :: "('w, 'd) thread_cell list"
  pl_stopped :: bool
  pl_failure :: "exn option"
  pl_raised :: "exn option"

text \<open>\<open>pl_raised\<close> is the exception that leaves the body of the \<^verbatim>\<open>with\<close> statement of the caller.\<close>

definition pipeline_fail :: "exn \<Rightarrow> ('w, 'd) pipeline \<Rightarrow> ('w, 'd) pipeline" where
  "pipeline_fail e p =
     p\<lparr>pl_failure := (if pl_failure p = None then Some e else pl_failure p), pl_stopped := True\<rparr>"

definition finish_cell :: "nat \<Rightarrow> ('w, 'd) pipeline \<Rightarrow> ('w, 'd) pipeline" where
  "finish_cell i p = p\<lparr>pl_cells := (pl_cells p)[i := (pl_cells p ! i)\<lparr>ce_mode := Finished\<rparr>]\<rparr>"

text \<open>\<open>_run\<close> of a stage whose function raised \<open>e\<close>, and the caller whose body raised \<open>e\<close>.\<close>

definition thread_raises :: "nat \<Rightarrow> exn \<Rightarrow> ('w, 'd) pipeline \<Rightarrow> ('w, 'd) pipeline" where
  "thread_raises i e p =
     (let p = finish_cell i p
      in if i = 0 then p\<lparr>pl_raised := Some e, pl_stopped := True\<rparr>
         else if e = Stopped then p else pipeline_fail e p)"

inductive pipeline_step ::
  "('w, 'd) feeder \<Rightarrow> ('w, 'd) finisher \<Rightarrow> ('d \<Rightarrow> nat) \<Rightarrow> nat \<Rightarrow> ('w, 'd) pipeline \<Rightarrow> ('w, 'd) pipeline \<Rightarrow> bool"
  for feed finish len capacity where
  step_work: "\<not> pl_stopped p \<Longrightarrow> stage_move feed finish len capacity (pl_cells p) cells \<Longrightarrow>
    pipeline_step feed finish len capacity p (p\<lparr>pl_cells := cells\<rparr>)"
| step_raise: "i < length (pl_cells p) \<Longrightarrow> ce_mode (pl_cells p ! i) \<noteq> Finished \<Longrightarrow> ce_out (pl_cells p ! i) = Fail e # out \<Longrightarrow>
    pipeline_step feed finish len capacity p (thread_raises i e p)"
| step_stopped: "pl_stopped p \<Longrightarrow> i < length (pl_cells p) \<Longrightarrow> ce_mode (pl_cells p ! i) \<noteq> Finished \<Longrightarrow>
    (\<forall>e out. ce_out (pl_cells p ! i) \<noteq> Fail e # out) \<Longrightarrow> \<not> (ce_mode (pl_cells p ! i) = Ending \<and> ce_out (pl_cells p ! i) = []) \<Longrightarrow>
    pipeline_step feed finish len capacity p (thread_raises i Stopped p)"
| step_return: "pl_stopped p \<Longrightarrow> i < length (pl_cells p) \<Longrightarrow> ce_mode (pl_cells p ! i) = Ending \<Longrightarrow> ce_out (pl_cells p ! i) = [] \<Longrightarrow>
    pipeline_step feed finish len capacity p (finish_cell i p)"

text \<open>\<^verbatim>\<open>__exit__\<close> after the join: the caller's own exception, or the first failure of a stage.\<close>

definition pipeline_exit :: "('w, 'd) pipeline \<Rightarrow> unit result" where
  "pipeline_exit p =
     (case pl_failure p of
        Some failure \<Rightarrow> (case pl_raised p of
           None \<Rightarrow> Inl failure
         | Some e \<Rightarrow> if e = Stopped then Inl failure else Inl e)
      | None \<Rightarrow> (case pl_raised p of None \<Rightarrow> Inr () | Some e \<Rightarrow> Inl e))"

section \<open>Every run ends\<close>

fun load :: "('w, 'd) thread_cell list \<Rightarrow> nat list" where
  "load [] = []"
| "load (c # cs) = length (ce_out c) # length (ch_items (ce_channel c)) # load cs"

definition unfinished :: "('w, 'd) thread_cell list \<Rightarrow> nat" where
  "unfinished cs = length (filter (\<lambda>c. ce_mode c \<noteq> Finished) cs)"

definition smaller :: "(('w, 'd) thread_cell list \<times> ('w, 'd) thread_cell list) set" where
  "smaller = inv_image (less_than <*lex*> lex less_than) (\<lambda>cs. (unfinished cs, load cs))"

lemma wf_smaller: "wf smaller"
  unfolding smaller_def by (intro wf_inv_image wf_lex_prod wf_less_than wf_lex)

lemma length_load [simp]: "length (load cs) = 2 * length cs"
  by (induction cs) auto

lemma stage_move_length: "stage_move feed finish len capacity cs cs' \<Longrightarrow> length cs' = length cs"
  by (induction rule: stage_move.induct) auto

lemma stage_move_smaller: "stage_move feed finish len capacity cs cs' \<Longrightarrow>
  unfinished cs' < unfinished cs \<or> unfinished cs' = unfinished cs \<and> (load cs', load cs) \<in> lex less_than"
proof (induction rule: stage_move.induct)
  case (deeper cs cs' c)
  then show ?case using stage_move_length [OF deeper.hyps] by (auto simp: unfinished_def)
next
  case (move_end n c ch w ds e cs)
  then show ?case
    by (cases "ch_items (ce_channel c)") (auto simp: unfinished_def channel_get_def get_waits_def)
next
  case (move_get n c d ch w ds e cs)
  then show ?case
    by (cases "ch_items (ce_channel c)") (auto simp: unfinished_def channel_get_def get_waits_def)
qed (auto simp: unfinished_def channel_append_def channel_close_def)

lemma unfinished_update:
  "i < length cs \<Longrightarrow> ce_mode (cs ! i) \<noteq> Finished \<Longrightarrow> unfinished (cs[i := (cs ! i)\<lparr>ce_mode := Finished\<rparr>]) < unfinished cs"
proof (induction cs arbitrary: i)
  case (Cons c cs)
  then show ?case by (cases i) (auto simp: unfinished_def)
qed simp

lemma pl_cells_raise [simp]: "pl_cells (thread_raises i e p) = (pl_cells p)[i := (pl_cells p ! i)\<lparr>ce_mode := Finished\<rparr>]"
  by (simp add: thread_raises_def finish_cell_def pipeline_fail_def Let_def)

lemma pipeline_step_smaller: "pipeline_step feed finish len capacity p p' \<Longrightarrow> (pl_cells p', pl_cells p) \<in> smaller"
  by (induction rule: pipeline_step.induct)
    (auto simp: smaller_def finish_cell_def dest: stage_move_smaller unfinished_update)

lemma runs_end: "wf {(p', p). pipeline_step feed finish len capacity p p'}"
  by (rule wf_subset [OF wf_inv_image [OF wf_smaller, of pl_cells]]) (auto dest: pipeline_step_smaller)

section \<open>The sequential reading of a line of stages\<close>

text \<open>What a stage puts in all when it receives \<open>msgs\<close>, and the state it ends in.\<close>

fun stage_run :: "('w, 'd) feeder \<Rightarrow> ('w, 'd) finisher \<Rightarrow> 'w \<Rightarrow> 'd msg list \<Rightarrow> 'w \<times> 'd msg list" where
  "stage_run feed finish w [] = (w, [])"
| "stage_run feed finish w (Item d # msgs) =
     (case feed w d of (w', ds, e) \<Rightarrow>
        (case e of
           Some _ \<Rightarrow> (w', after_feed ds e)
         | None \<Rightarrow> (case stage_run feed finish w' msgs of (w'', out) \<Rightarrow> (w'', after_feed ds e @ out))))"
| "stage_run feed finish w (End # msgs) = (case finish w of (w', ds, e) \<Rightarrow> (w', after_end False ds e))"
| "stage_run feed finish w (Fail e # msgs) = (w, [])"

fun failure_in :: "'d msg list \<Rightarrow> exn option" where
  "failure_in [] = None"
| "failure_in (Fail e # msgs) = Some e"
| "failure_in (m # msgs) = failure_in msgs"

text \<open>The state of the last stage when every stage is run after the one before it, or the first failure.\<close>

fun flow :: "('w, 'd) feeder \<Rightarrow> ('w, 'd) finisher \<Rightarrow> 'd msg list \<Rightarrow> ('w, 'd) thread_cell list \<Rightarrow> 'w result" where
  "flow feed finish coming [] = Inl RuntimeError"
| "flow feed finish coming (c # cs) =
     (case (if ce_mode c = Reading then stage_run feed finish (ce_work c) coming else (ce_work c, [])) of (w, out) \<Rightarrow>
        (case failure_in (ce_out c @ out) of
           Some e \<Rightarrow> Inl e
         | None \<Rightarrow> if cs = [] then Inr w else flow feed finish (ch_items (ce_channel c) @ ce_out c @ out) cs))"

lemma failure_in_append: "failure_in (a @ b) = (case failure_in a of Some e \<Rightarrow> Some e | None \<Rightarrow> failure_in b)"
  by (induction a rule: failure_in.induct) auto

lemma failure_in_items [simp]: "failure_in (map Item ds) = None"
  by (induction ds) auto

lemma failure_in_after [simp]: "failure_in (after_feed ds e) = e" "failure_in (after_end sink ds e) = e"
  by (auto simp: after_feed_def after_end_def failure_in_append split: option.splits)

lemma failure_in_Cons: "failure_in (m # msgs) = (case m of Fail e \<Rightarrow> Some e | _ \<Rightarrow> failure_in msgs)"
  by (cases m) auto

lemma channel_getD:
  assumes "channel_get len False ch = Inr (m, ch')" "\<not> get_waits False ch"
  shows "ch_items ch = m # ch_items ch'"
  using assms by (cases "ch_items ch") (auto simp: channel_get_def get_waits_def)

lemma stage_move_flow: "stage_move feed finish len capacity cs cs' \<Longrightarrow> flow feed finish coming cs' = flow feed finish coming cs"
proof (induction arbitrary: coming rule: stage_move.induct)
  case (move_put c d out ch n cs)
  have ch: "ch_items ch = ch_items (ce_channel c) @ [Item d]" using move_put by (auto simp: channel_append_def)
  show ?case unfolding flow.simps(2) [of _ _ coming] using move_put(2)
    by (simp add: ch failure_in_Cons del: flow.simps split: prod.split option.split)
next
  case (move_close c out ch n cs)
  have ch: "ch_items ch = ch_items (ce_channel c) @ [End]"
    using move_close by (auto simp: channel_append_def channel_close_def)
  show ?case unfolding flow.simps(2) [of _ _ coming] using move_close(2)
    by (simp add: ch failure_in_Cons del: flow.simps split: prod.split option.split)
next
  case (move_get n c d ch w ds e cs)
  have items: "ch_items (ce_channel c) = Item d # ch_items ch" using channel_getD move_get by blast
  show ?case using move_get(1,2,5)
    by (cases e) (auto simp: items failure_in_append split: prod.splits option.splits)
next
  case (move_end n c ch w ds e cs)
  have items: "ch_items (ce_channel c) = End # ch_items ch" using channel_getD move_end by blast
  show ?case using move_end(1,2,5)
    by (cases e; cases "cs = []") (auto simp: items failure_in_append after_end_def split: prod.splits option.splits)
next
  case (deeper cs cs' c)
  have "cs = [] \<longleftrightarrow> cs' = []" using stage_move_length [OF deeper.hyps] by auto
  then show ?case by (auto simp: deeper.IH split: prod.splits option.splits)
qed auto

section \<open>No deadlock\<close>

text \<open>
  What holds of every thread and of every two neighbours while nothing is stopped: a thread that reads has put no
  end; one that does not read any more has its end (or its failure) still under way unless its successor got it.
\<close>

definition cell_shape :: "('w \<Rightarrow> bool) \<Rightarrow> bool \<Rightarrow> ('w, 'd) thread_cell \<Rightarrow> bool" where
  "cell_shape quiet sink c \<longleftrightarrow>
     (ce_mode c = Finished \<longrightarrow> ce_out c = []) \<and> (sink \<longrightarrow> quiet (ce_work c)) \<and>
     (\<exists>ds t. ce_out c = map Item ds @ t \<and> (sink \<longrightarrow> ds = []) \<and>
        (t = [] \<or> (t = [End] \<and> ce_mode c = Ending \<and> \<not> sink) \<or> (\<exists>e. t = [Fail e] \<and> e \<noteq> Stopped)))"

definition under_way :: "'d msg list \<Rightarrow> 'd msg list \<Rightarrow> bool" where
  "under_way items out \<longleftrightarrow>
     (\<exists>ds. items @ out = map Item ds @ [End]) \<or> (\<exists>ds es e. items = map Item ds \<and> out = map Item es @ [Fail e])"

definition cells_linked :: "('w, 'd) thread_cell \<Rightarrow> ('w, 'd) thread_cell \<Rightarrow> bool" where
  "cells_linked c n \<longleftrightarrow>
     (if ce_mode n = Reading
      then (if ce_mode c = Reading then \<exists>ds. ch_items (ce_channel c) = map Item ds
            else under_way (ch_items (ce_channel c)) (ce_out c))
      else ce_mode c \<noteq> Reading \<and> ch_items (ce_channel c) = [] \<and> ce_out c = [])"

fun cells_ok :: "('w \<Rightarrow> bool) \<Rightarrow> ('w, 'd) thread_cell list \<Rightarrow> bool" where
  "cells_ok quiet [] \<longleftrightarrow> True"
| "cells_ok quiet [c] \<longleftrightarrow> cell_shape quiet True c"
| "cells_ok quiet (c # n # cs) \<longleftrightarrow> cell_shape quiet False c \<and> cells_linked c n \<and> cells_ok quiet (n # cs)"

lemma cells_ok_Cons:
  "cells_ok quiet (c # cs) \<longleftrightarrow> cell_shape quiet (cs = []) c \<and> (cs \<noteq> [] \<longrightarrow> cells_linked c (hd cs)) \<and> cells_ok quiet cs"
  by (cases cs) auto

lemma Item_append_Cons: "Item d # out = map Item ds @ t \<longleftrightarrow>
    (\<exists>ds'. ds = d # ds' \<and> out = map Item ds' @ t) \<or> (ds = [] \<and> t = Item d # out)"
  by (cases ds) auto

lemma under_way_put: "under_way items (Item d # out) \<Longrightarrow> under_way (items @ [Item d]) out"
  unfolding under_way_def
proof (elim disjE exE conjE)
  fix ds es e assume "items = map Item ds" "Item d # out = map Item es @ [Fail e]"
  then have "items @ [Item d] = map Item (ds @ [d]) \<and> out = map Item (tl es) @ [Fail e]"
    by (cases es) auto
  then show "(\<exists>ds. (items @ [Item d]) @ out = map Item ds @ [End]) \<or>
      (\<exists>ds es e. items @ [Item d] = map Item ds \<and> out = map Item es @ [Fail e])"
    by blast
qed auto

lemma under_way_close: "under_way items (End # out) \<Longrightarrow> under_way (items @ [End]) out"
  unfolding under_way_def by (auto simp: Cons_eq_append_conv)

lemma under_way_get: "under_way (Item d # items) out \<Longrightarrow> under_way items out"
  unfolding under_way_def by (auto simp: Cons_eq_append_conv Cons_eq_map_conv)

lemma under_way_end: "under_way (End # items) out \<Longrightarrow> items = [] \<and> out = []"
  unfolding under_way_def by (auto simp: Cons_eq_append_conv Cons_eq_map_conv)

lemma under_way_not_Nil: "under_way items out \<Longrightarrow> items \<noteq> [] \<or> out \<noteq> []"
  unfolding under_way_def by auto

lemma under_way_items: "under_way items out \<Longrightarrow> Fail e \<notin> set items"
  unfolding under_way_def by (auto simp: append_eq_append_conv2 append_eq_Cons_conv append_eq_map_conv)

lemma under_way_new: "under_way (map Item ds) (map Item es @ [End])" "under_way (map Item ds) (map Item es @ [Fail e])"
  unfolding under_way_def by (auto intro: exI [of _ "ds @ es"])

lemma stage_move_head:
  "stage_move feed finish len capacity cs cs' \<Longrightarrow> cs \<noteq> [] \<and> cs' \<noteq> [] \<and> (ce_mode (hd cs') = Reading \<longleftrightarrow> ce_mode (hd cs) = Reading)"
  by (induction rule: stage_move.induct) auto

lemma cells_linked_hd:
  "(ce_mode n' = Reading \<longleftrightarrow> ce_mode n = Reading) \<Longrightarrow> cells_linked c n' = cells_linked c n"
  by (simp add: cells_linked_def)

definition can_raise :: "('w, 'd) thread_cell list \<Rightarrow> bool" where
  "can_raise cs \<longleftrightarrow> (\<exists>c \<in> set cs. ce_mode c \<noteq> Finished \<and> (\<exists>e out. ce_out c = Fail e # out))"

lemma can_raise_deeper: "can_raise cs \<Longrightarrow> can_raise (c # cs)"
  by (auto simp: can_raise_def)

lemma progress_get:
  assumes n: "ce_mode n = Reading" "ce_out n = []" and items: "ch_items (ce_channel c) \<noteq> []"
    and no: "\<And>e. Fail e \<notin> set (ch_items (ce_channel c))"
  shows "\<exists>cs'. stage_move feed finish len capacity (c # n # cs) cs'"
proof -
  obtain m ms where m: "ch_items (ce_channel c) = m # ms" using items by (cases "ch_items (ce_channel c)") auto
  have wait: "\<not> get_waits False (ce_channel c)" using items by (simp add: get_waits_def)
  obtain ch where ch: "channel_get len False (ce_channel c) = Inr (m, ch)" by (simp add: channel_get_def m)
  show ?thesis
  proof (cases m)
    case (Item d)
    obtain w ds e where "feed (ce_work n) d = (w, ds, e)" by (cases "feed (ce_work n) d") auto
    then show ?thesis using move_get [OF n wait] ch Item by blast
  next
    case End
    obtain w ds e where "finish (ce_work n) = (w, ds, e)" by (cases "finish (ce_work n)") auto
    then show ?thesis using move_end [OF n wait] ch End by blast
  next
    case (Fail e)
    then show ?thesis using no [of e] m by simp
  qed
qed

text \<open>What the stages promise: the last one puts nothing, and none raises \<^verbatim>\<open>Stopped\<close> by itself.\<close>

locale pipeline_stages =
  fixes feed :: "('w, 'd) feeder" and finish :: "('w, 'd) finisher" and quiet :: "'w \<Rightarrow> bool"
  assumes feed_quiet: "feed w d = (w', ds, e) \<Longrightarrow> quiet w \<Longrightarrow> ds = [] \<and> quiet w'"
    and finish_quiet: "finish w = (w', ds, e) \<Longrightarrow> quiet w \<Longrightarrow> ds = [] \<and> quiet w'"
    and feed_not_stopped: "feed w d = (w', ds, e) \<Longrightarrow> e \<noteq> Some Stopped"
    and finish_not_stopped: "finish w = (w', ds, e) \<Longrightarrow> e \<noteq> Some Stopped"
begin

lemma move_keeps_ok:
  "stage_move feed finish len capacity cs cs' \<Longrightarrow> cells_ok quiet cs \<Longrightarrow> cells_ok quiet cs'"
proof (induction rule: stage_move.induct)
  case (move_put c d out ch n cs)
  let ?c = "c\<lparr>ce_out := out, ce_channel := ch\<rparr>"
  have ch: "ch_items ch = ch_items (ce_channel c) @ [Item d]" using move_put by (auto simp: channel_append_def)
  obtain ds t where ds: "Item d # out = map Item ds @ t"
      "t = [] \<or> (t = [End] \<and> ce_mode c = Ending) \<or> (\<exists>e. t = [Fail e] \<and> e \<noteq> Stopped)"
    using move_put.prems move_put(2) by (auto simp: cell_shape_def)
  then have "out = map Item (tl ds) @ t" by (cases ds) auto
  then have "cell_shape quiet False ?c" using ds(2) move_put(1) by (auto simp: cell_shape_def)
  moreover have "cells_linked ?c n"
  proof -
    have link: "cells_linked c n" using move_put.prems by simp
    then have n: "ce_mode n = Reading" using move_put(2) by (auto simp: cells_linked_def split: if_splits)
    show ?thesis
    proof (cases "ce_mode c = Reading")
      case True
      then obtain ds where "ch_items (ce_channel c) = map Item ds" using link n by (auto simp: cells_linked_def)
      then have "ch_items ch = map Item (ds @ [d])" by (simp add: ch)
      then show ?thesis using True n by (auto simp: cells_linked_def intro: exI [of _ "ds @ [d]"])
    next
      case False
      then show ?thesis using link n move_put(2) under_way_put by (simp add: cells_linked_def ch)
    qed
  qed
  ultimately show ?case using move_put.prems by (simp add: cells_ok_Cons)
next
  case (move_close c out ch n cs)
  let ?c = "c\<lparr>ce_out := out, ce_channel := ch\<rparr>"
  have ch: "ch_items ch = ch_items (ce_channel c) @ [End]" using move_close by (auto simp: channel_append_def channel_close_def)
  have mode: "ce_mode c = Ending" "out = []" using move_close
    by (auto simp: cell_shape_def Cons_eq_append_conv)
  have "cell_shape quiet False ?c" using mode by (auto simp: cell_shape_def)
  moreover have "cells_linked ?c n"
    using move_close ch mode under_way_close by (fastforce simp: cells_linked_def split: if_splits)
  ultimately show ?case using move_close.prems by (simp add: cells_ok_Cons)
next
  case (move_get n c d ch w ds e cs)
  let ?c = "c\<lparr>ce_channel := ch\<rparr>" and ?n = "n\<lparr>ce_work := w, ce_out := after_feed ds e\<rparr>"
  have items: "ch_items (ce_channel c) = Item d # ch_items ch" using channel_getD move_get by blast
  have "cell_shape quiet False ?c" using move_get.prems by (simp add: cell_shape_def)
  moreover have "cells_linked ?c ?n"
    using move_get.prems move_get(1) under_way_get unfolding cells_ok.simps
    by (fastforce simp: cells_linked_def items Cons_eq_map_conv split: if_splits)
  moreover have "cell_shape quiet (cs = []) ?n"
    using move_get.prems move_get(1) feed_quiet [OF move_get(5)] feed_not_stopped [OF move_get(5)]
    by (cases e) (auto simp: cell_shape_def cells_ok_Cons after_feed_def)
  moreover have "cs \<noteq> [] \<Longrightarrow> cells_linked ?n (hd cs)"
    using move_get.prems move_get(1) by (auto simp: cells_linked_def cells_ok_Cons split: if_splits)
  ultimately show ?case using move_get.prems by (simp add: cells_ok_Cons)
next
  case (move_end n c ch w ds e cs)
  let ?c = "c\<lparr>ce_channel := ch\<rparr>" and ?n = "n\<lparr>ce_mode := Ending, ce_work := w, ce_out := after_end (cs = []) ds e\<rparr>"
  have items: "ch_items (ce_channel c) = End # ch_items ch" using channel_getD move_end by blast
  have "cells_linked c n" using move_end.prems by simp
  then have c: "ce_mode c \<noteq> Reading" "ch_items ch = []" "ce_out c = []"
    using move_end(1) under_way_end by (auto simp: cells_linked_def items split: if_splits)
  have "cell_shape quiet False ?c" using move_end.prems by (simp add: cell_shape_def)
  moreover have "cells_linked ?c ?n" using c by (simp add: cells_linked_def)
  moreover have "cell_shape quiet (cs = []) ?n"
    using move_end.prems move_end(1) finish_quiet [OF move_end(5)] finish_not_stopped [OF move_end(5)]
    by (cases e; cases "cs = []") (auto simp: cell_shape_def cells_ok_Cons after_end_def)
  moreover have "cells_linked ?n (hd cs)" if "cs \<noteq> []"
  proof -
    have "cells_linked n (hd cs)" using move_end.prems that by (simp add: cells_ok_Cons)
    then obtain es where "ce_mode (hd cs) = Reading" "ch_items (ce_channel n) = map Item es"
      using move_end(1) by (auto simp: cells_linked_def split: if_splits)
    then show ?thesis using that under_way_new [of es ds] by (auto simp: cells_linked_def after_end_def split: option.splits)
  qed
  ultimately show ?case using move_end.prems by (simp add: cells_ok_Cons)
next
  case (move_done c cs)
  then show ?case by (auto simp: cells_ok_Cons cell_shape_def cells_linked_def)
next
  case (deeper cs cs' c)
  then show ?case using stage_move_head [OF deeper.hyps] cells_linked_hd [of "hd cs'" "hd cs" c]
    by (auto simp: cells_ok_Cons)
qed

lemma progress_out:
  "cells_ok quiet (c # cs) \<Longrightarrow> ce_mode c \<noteq> Finished \<Longrightarrow> ce_out c \<noteq> [] \<Longrightarrow>
   (\<exists>cs'. stage_move feed finish len capacity (c # cs) cs') \<or> can_raise (c # cs)"
proof (induction cs arbitrary: c)
  case Nil
  then show ?case by (auto simp: cell_shape_def can_raise_def)
next
  case (Cons n cs)
  obtain m out where out: "ce_out c = m # out" using Cons.prems(3) by (cases "ce_out c") auto
  show ?case
  proof (cases m)
    case (Fail e)
    then show ?thesis using out Cons.prems(2) by (auto simp: can_raise_def)
  next
    case End
    have "channel_close False (ce_channel c) = Inr \<lparr>ch_items = ch_items (ce_channel c) @ [End], ch_bytes = ch_bytes (ce_channel c)\<rparr>"
      by (simp add: channel_close_def channel_append_def)
    then show ?thesis using move_close [OF Cons.prems(2)] out End by blast
  next
    case (Item d)
    show ?thesis
    proof (cases "put_waits capacity False (len d) (ce_channel c)")
      case False
      have "channel_append False (Item d) (len d) (ce_channel c) =
          Inr \<lparr>ch_items = ch_items (ce_channel c) @ [Item d], ch_bytes = ch_bytes (ce_channel c) + len d\<rparr>"
        by (simp add: channel_append_def)
      then show ?thesis using move_put [OF Cons.prems(2)] out Item False by blast
    next
      case True
      then have items: "ch_items (ce_channel c) \<noteq> []" by (simp add: put_waits_def)
      have link: "cells_linked c n" using Cons.prems(1) by simp
      then have n: "ce_mode n = Reading" using items by (auto simp: cells_linked_def split: if_splits)
      show ?thesis
      proof (cases "ce_out n = []")
        case True
        have "Fail e \<notin> set (ch_items (ce_channel c))" for e
          using link n under_way_items by (auto simp: cells_linked_def split: if_splits)
        then show ?thesis using progress_get [OF n True items] by blast
      next
        case False
        then have "(\<exists>cs'. stage_move feed finish len capacity (n # cs) cs') \<or> can_raise (n # cs)"
          using Cons.IH [of n] Cons.prems(1) n by simp
        then show ?thesis using can_raise_deeper stage_move.deeper by blast
      qed
    qed
  qed
qed

lemma progress:
  "cells_ok quiet (c # cs) \<Longrightarrow> ce_mode c \<noteq> Reading \<Longrightarrow>
   (\<forall>x \<in> set (c # cs). ce_mode x = Finished) \<or> (\<exists>cs'. stage_move feed finish len capacity (c # cs) cs') \<or> can_raise (c # cs)"
proof (induction cs arbitrary: c)
  case Nil
  show ?case
  proof (cases "ce_mode c = Finished \<or> ce_out c \<noteq> []")
    case True
    then show ?thesis using progress_out [OF Nil(1)] by auto
  next
    case False
    then have "ce_mode c = Ending" "ce_out c = []" using Nil(2) by (cases "ce_mode c"; auto)+
    then show ?thesis using move_done by blast
  qed
next
  case (Cons n cs)
  consider "ce_mode c \<noteq> Finished" "ce_out c \<noteq> []" | "ce_mode c = Ending" "ce_out c = []" | "ce_mode c = Finished" "ce_out c = []"
    using Cons.prems by (cases "ce_mode c") (auto simp: cell_shape_def)
  then show ?case
  proof cases
    case 1
    then show ?thesis using progress_out [OF Cons.prems(1)] by blast
  next
    case 2
    then show ?thesis using move_done by blast
  next
    case 3
    have link: "cells_linked c n" and ok: "cells_ok quiet (n # cs)" using Cons.prems(1) by simp_all
    have up: "(\<exists>cs'. stage_move feed finish len capacity (n # cs) cs') \<or> can_raise (n # cs) \<Longrightarrow> ?thesis"
      using can_raise_deeper stage_move.deeper by blast
    show ?thesis
    proof (cases "ce_mode n = Reading")
      case True
      then have way: "under_way (ch_items (ce_channel c)) []" using link 3 by (simp add: cells_linked_def)
      show ?thesis
      proof (cases "ce_out n = []")
        case empty: True
        have "ch_items (ce_channel c) \<noteq> []" using under_way_not_Nil [OF way] by simp
        then show ?thesis using progress_get [OF True empty] under_way_items [OF way] by blast
      next
        case False
        then show ?thesis using progress_out [OF ok] True up by simp
      qed
    next
      case False
      then show ?thesis using Cons.IH [OF ok] up 3 by auto
    qed
  qed
qed

text \<open>The invariant of a run that has not been stopped, and what stops one.\<close>

definition running :: "('w, 'd) thread_cell list \<Rightarrow> ('w, 'd) pipeline \<Rightarrow> bool" where
  "running cells0 p \<longleftrightarrow> length (pl_cells p) = length cells0 \<and>
     (if pl_stopped p then pl_failure p \<noteq> None \<or> pl_raised p \<noteq> None
      else pl_failure p = None \<and> pl_raised p = None \<and> pl_cells p \<noteq> [] \<and> cells_ok quiet (pl_cells p) \<and>
        ce_mode (hd (pl_cells p)) \<noteq> Reading \<and> flow feed finish [] (pl_cells p) = flow feed finish [] cells0)"

lemma cells_ok_nth: "cells_ok quiet cs \<Longrightarrow> i < length cs \<Longrightarrow> \<exists>sink. cell_shape quiet sink (cs ! i)"
proof (induction cs arbitrary: i)
  case (Cons c cs)
  then show ?case by (cases i) (auto simp: cells_ok_Cons)
qed simp

lemma step_running:
  assumes "pipeline_step feed finish len capacity p p'" "running cells0 p"
  shows "running cells0 p'"
  using assms
proof (cases rule: pipeline_step.cases)
  case (step_work cells)
  then show ?thesis
    using assms(2) stage_move_head [OF step_work(3)] stage_move_flow [OF step_work(3)] move_keeps_ok [OF step_work(3)]
      stage_move_length [OF step_work(3)]
    by (simp add: running_def)
next
  case (step_raise i e out)
  have "i \<noteq> 0 \<Longrightarrow> \<not> pl_stopped p \<Longrightarrow> e \<noteq> Stopped"
    using assms(2) step_raise(2,4) cells_ok_nth [of "pl_cells p" i]
    by (auto simp: running_def cell_shape_def Cons_eq_append_conv)
  then show ?thesis using assms(2) step_raise(1)
    by (auto simp: running_def thread_raises_def finish_cell_def pipeline_fail_def Let_def)
next
  case (step_stopped i)
  then show ?thesis using assms(2)
    by (auto simp: running_def thread_raises_def finish_cell_def pipeline_fail_def Let_def)
next
  case (step_return i)
  then show ?thesis using assms(2) by (auto simp: running_def finish_cell_def)
qed

lemma runs_running:
  "(pipeline_step feed finish len capacity)\<^sup>*\<^sup>* p p' \<Longrightarrow> running cells0 p \<Longrightarrow> running cells0 p'"
  by (induction rule: rtranclp_induct) (auto intro: step_running)

lemma stuck_finished:
  assumes "running cells0 p" and stuck: "\<And>p'. \<not> pipeline_step feed finish len capacity p p'"
  shows "\<forall>c \<in> set (pl_cells p). ce_mode c = Finished"
proof (cases "pl_stopped p")
  case True
  show ?thesis
  proof (rule ccontr)
    assume "\<not> ?thesis"
    then obtain i where i: "i < length (pl_cells p)" "ce_mode (pl_cells p ! i) \<noteq> Finished" by (auto simp: in_set_conv_nth)
    consider e out where "ce_out (pl_cells p ! i) = Fail e # out"
      | "ce_mode (pl_cells p ! i) = Ending \<and> ce_out (pl_cells p ! i) = []"
      | "\<forall>e out. ce_out (pl_cells p ! i) \<noteq> Fail e # out" "\<not> (ce_mode (pl_cells p ! i) = Ending \<and> ce_out (pl_cells p ! i) = [])"
      by blast
    then show False
    proof cases
      case 1
      then show ?thesis using step_raise [OF i, of e out feed finish len capacity] stuck by blast
    next
      case 2
      then show ?thesis using step_return [OF True i(1), of feed finish len capacity] stuck by blast
    next
      case 3
      then show ?thesis using step_stopped [OF True i, of feed finish len capacity] stuck by blast
    qed
  qed
next
  case False
  then obtain c cs where cells: "pl_cells p = c # cs" and ok: "cells_ok quiet (c # cs)" "ce_mode c \<noteq> Reading"
    using assms(1) by (cases "pl_cells p") (auto simp: running_def)
  have "\<not> stage_move feed finish len capacity (c # cs) cs'" for cs'
    using stuck step_work [of p feed finish len capacity cs'] False cells by auto
  moreover have "\<not> can_raise (c # cs)"
  proof
    assume "can_raise (c # cs)"
    then obtain x e out where x: "x \<in> set (pl_cells p)" "ce_mode x \<noteq> Finished" "ce_out x = Fail e # out"
      unfolding can_raise_def cells [symmetric] by blast
    then obtain i where i: "i < length (pl_cells p)" "ce_mode (pl_cells p ! i) \<noteq> Finished"
        "ce_out (pl_cells p ! i) = Fail e # out"
      unfolding in_set_conv_nth by blast
    show False using step_raise [OF i, of feed finish len capacity] stuck by blast
  qed
  ultimately show ?thesis using progress [OF ok] cells by metis
qed

lemma flow_finished:
  "cells_ok quiet cs \<Longrightarrow> cs \<noteq> [] \<Longrightarrow> (\<forall>c \<in> set cs. ce_mode c = Finished) \<Longrightarrow>
   flow feed finish coming cs = Inr (ce_work (last cs))"
proof (induction cs arbitrary: coming)
  case (Cons c cs)
  then show ?case by (auto simp: cells_ok_Cons cell_shape_def)
qed simp

lemma flow_no_failure:
  "flow feed finish coming cs = Inr w \<Longrightarrow> c \<in> set cs \<Longrightarrow> failure_in (ce_out c) = None"
proof (induction cs arbitrary: coming)
  case (Cons x cs)
  then show ?case by (auto simp: failure_in_append split: prod.splits option.splits if_splits)
qed simp

lemma never_stopped:
  assumes "flow feed finish [] cells0 = Inr w" and "running cells0 p" "\<not> pl_stopped p"
    and "pipeline_step feed finish len capacity p p'"
  shows "\<not> pl_stopped p'"
  using assms(4)
proof (cases rule: pipeline_step.cases)
  case (step_raise i e out)
  have "flow feed finish [] (pl_cells p) = Inr w" using assms(1-3) by (simp add: running_def)
  then have "failure_in (ce_out (pl_cells p ! i)) = None"
    using step_raise(2) nth_mem by (blast intro: flow_no_failure)
  then show ?thesis using step_raise(4) by simp
qed (use assms(3) in \<open>simp_all add: finish_cell_def\<close>)

lemma run_outcome:
  assumes start: "running cells0 p0" "\<not> pl_stopped p0"
    and run: "(pipeline_step feed finish len capacity)\<^sup>*\<^sup>* p0 p" and stuck: "\<And>p'. \<not> pipeline_step feed finish len capacity p p'"
  shows "(\<forall>c \<in> set (pl_cells p). ce_mode c = Finished) \<and>
    (case flow feed finish [] cells0 of
       Inr w \<Rightarrow> pipeline_exit p = Inr () \<and> ce_work (last (pl_cells p)) = w
     | Inl _ \<Rightarrow> \<exists>e. pipeline_exit p = Inl e)"
proof -
  have p: "running cells0 p" by (rule runs_running [OF run start(1)])
  have all: "\<forall>c \<in> set (pl_cells p). ce_mode c = Finished" by (rule stuck_finished [OF p stuck])
  have unstopped: "\<not> pl_stopped p" if w: "flow feed finish [] cells0 = Inr w" for w
    using run
  proof (induction rule: rtranclp_induct)
    case (step y z)
    then show ?case using never_stopped [OF w] runs_running [OF step(1) start(1)] by blast
  qed (rule start(2))
  show ?thesis
  proof (cases "pl_stopped p")
    case True
    then have "pl_failure p \<noteq> None \<or> pl_raised p \<noteq> None" using p by (simp add: running_def)
    then have "\<exists>e. pipeline_exit p = Inl e"
      by (cases "pl_failure p"; cases "pl_raised p") (simp_all add: pipeline_exit_def)
    moreover have "\<exists>e. flow feed finish [] cells0 = Inl e"
      using unstopped True by (cases "flow feed finish [] cells0") auto
    ultimately show ?thesis using all by auto
  next
    case False
    then have "flow feed finish [] cells0 = Inr (ce_work (last (pl_cells p)))" "pipeline_exit p = Inr ()"
      using p flow_finished [of "pl_cells p" "[]"] all by (auto simp: running_def pipeline_exit_def)
    then show ?thesis using all by simp
  qed
qed

end

end
