(* ===== verification/PipelineStages.thy ===== *)
theory PipelineStages
  imports Pipeline WriterCorrect "HOL-Library.Sublist"
begin

text \<open>
  The stages of a backup in \<^verbatim>\<open>src/dbs/engine/pipeline.py\<close>: the caller that writes frames, compression (or none), the
  container writer and the sink, on the pipeline of theory \<open>Pipeline\<close>. \<^verbatim>\<open>zlib\<close> is the parameter \<open>deflate\<close>; the output
  file is the bytes written so far, with parameters that say
  which write and which flush raises \<^verbatim>\<open>OSError\<close>. A \<^verbatim>\<open>Segment\<close> is the bytes its future
  gives and the length it announces: the worker pool only computes them elsewhere.
\<close>

definition CHANNEL_BYTES :: nat where "CHANNEL_BYTES = 2 * 1024 * 1024"
definition SEGMENT_BYTES :: nat where "SEGMENT_BYTES = 1024 * 1024"

record piece =
  pi_content :: bytes
  pi_size :: nat

definition plain_piece :: "bytes \<Rightarrow> piece" where "plain_piece bs = \<lparr>pi_content = bs, pi_size = length bs\<rparr>"

definition segment :: "(bytes \<Rightarrow> bytes) \<Rightarrow> bytes \<Rightarrow> piece" where
  "segment deflate bs = \<lparr>pi_content = deflate bs, pi_size = length bs\<rparr>"

text \<open>\<^verbatim>\<open>PayloadStream\<close>: what its SHA-256 state was fed, and the number of bytes.\<close>

record payload_stream =
  ps_digest :: bytes
  ps_payload_bytes :: nat

definition stream_update :: "bytes \<Rightarrow> payload_stream \<Rightarrow> payload_stream" where
  "stream_update data t = t\<lparr>ps_digest := ps_digest t @ data, ps_payload_bytes := ps_payload_bytes t + length data\<rparr>"

text \<open>The inner loop of \<open>_compress\<close>, on what is left of the view and the pending segment.\<close>

function compress_loop :: "(bytes \<Rightarrow> bytes) \<Rightarrow> bytes \<Rightarrow> bytes \<Rightarrow> piece list \<times> bytes" where
  "compress_loop deflate view pending =
     (if view = [] then ([], pending)
      else let taken = take (SEGMENT_BYTES - length pending) view;
               pending = pending @ taken;
               view = drop (length taken) view
           in if SEGMENT_BYTES \<le> length pending
              then (case compress_loop deflate view [] of (out, left) \<Rightarrow> (segment deflate pending # out, left))
              else compress_loop deflate view pending)"
  by pat_completeness auto
termination
proof (relation "measures [\<lambda>(deflate, view, pending). length view, \<lambda>(deflate, view, pending). length pending]", goal_cases)
  case (2 deflate view pending taken p v)
  then show ?case by (cases "taken = []") (auto simp: SEGMENT_BYTES_def)
next
  case (3 deflate view pending taken p v)
  then have "taken \<noteq> []" by auto
  then show ?case using 3 by auto
qed simp

declare compress_loop.simps [simp del]

section \<open>What the writer emits\<close>

text \<open>
  The writes \<^verbatim>\<open>_emit\<close> makes during \<^verbatim>\<open>write\<close>, slot by slot, and during \<^verbatim>\<open>close\<close>: slots, the trailer twice and the header.
\<close>

definition written_since :: "stream_writer \<Rightarrow> stream_writer \<Rightarrow> bytes" where
  "written_since w w' = drop (length (sw_sink w)) (sw_sink w')"

definition slot_writes :: "stream_writer \<Rightarrow> bytes \<Rightarrow> piece list" where
  "slot_writes w data = map plain_piece (pieces (slot_size (sw_layout w)) data)"

definition closing_writes :: "stream_writer \<Rightarrow> bytes \<Rightarrow> piece list" where
  "closing_writes w data =
     (let k = length data - (2 * TRAILER_SIZE + HEADER_SIZE)
      in slot_writes w (take k data) @
         map plain_piece [take TRAILER_SIZE (drop k data), take TRAILER_SIZE (drop (k + TRAILER_SIZE) data),
           drop (k + 2 * TRAILER_SIZE) data])"

section \<open>The stages\<close>

datatype stage_work =
    Caller
  | Passing payload_stream
  | Compressing payload_stream bytes
  | Encoding stream_writer
  | Sinking bytes

fun stage_feed ::
  "primitives \<Rightarrow> (bytes \<Rightarrow> bytes) \<Rightarrow> (bytes \<Rightarrow> bytes \<Rightarrow> bool) \<Rightarrow> (stage_work, piece) feeder" where
  "stage_feed prim deflate write_fails Caller item = (Caller, [], None)"
| "stage_feed prim deflate write_fails (Passing t) item = (Passing (stream_update (pi_content item) t), [item], None)"
| "stage_feed prim deflate write_fails (Compressing t pending) item =
     (case compress_loop deflate (pi_content item) pending of (out, pending) \<Rightarrow>
        (Compressing (stream_update (pi_content item) t) pending, out, None))"
| "stage_feed prim deflate write_fails (Encoding w) item =
     (case writer_write prim (pi_content item) w of
        Inl e \<Rightarrow> (Encoding (writer_abort w), [], Some e)
      | Inr (_, w') \<Rightarrow> (Encoding w', slot_writes w (written_since w w'), None))"
| "stage_feed prim deflate write_fails (Sinking out) item =
     (if write_fails out (pi_content item) then (Sinking out, [], Some OSError)
      else (Sinking (out @ pi_content item), [], None))"

fun stage_finish ::
  "primitives \<Rightarrow> (bytes \<Rightarrow> bytes) \<Rightarrow> (bytes \<Rightarrow> bool) \<Rightarrow> (stage_work, piece) finisher" where
  "stage_finish prim deflate flush_fails Caller = (Caller, [], None)"
| "stage_finish prim deflate flush_fails (Passing t) = (Passing t, [], None)"
| "stage_finish prim deflate flush_fails (Compressing t pending) =
     (Compressing t [], if pending \<noteq> [] then [segment deflate pending] else [], None)"
| "stage_finish prim deflate flush_fails (Encoding w) =
     (case writer_close prim w of
        (Inl e, w') \<Rightarrow> (Encoding w', [], Some e)
      | (Inr summary, w') \<Rightarrow> (Encoding w', closing_writes w (written_since w w'), None))"
| "stage_finish prim deflate flush_fails (Sinking out) = (Sinking out, [], if flush_fails out then Some OSError else None)"

text \<open>
  \<^verbatim>\<open>encoding\<close>: the writer has put its header into the last channel; the body of the \<^verbatim>\<open>with\<close> statement writes \<open>frames\<close>
  and may then raise.
\<close>

definition encoding_start :: "bool \<Rightarrow> stream_writer \<Rightarrow> bytes list \<Rightarrow> exn option \<Rightarrow> (stage_work, piece) pipeline" where
  "encoding_start compress w frames body_raises =
     \<lparr>pl_cells =
        [\<lparr>ce_mode = Ending, ce_work = Caller,
          ce_out = map Item (map plain_piece frames) @ [case body_raises of None \<Rightarrow> End | Some e \<Rightarrow> Fail e],
          ce_channel = empty_channel\<rparr>,
         \<lparr>ce_mode = Reading,
          ce_work = (let t = \<lparr>ps_digest = [], ps_payload_bytes = 0\<rparr> in if compress then Compressing t [] else Passing t),
          ce_out = [], ce_channel = empty_channel\<rparr>,
         \<lparr>ce_mode = Reading, ce_work = Encoding w, ce_out = [],
          ce_channel = \<lparr>ch_items = [Item (plain_piece (sw_sink w))], ch_bytes = length (sw_sink w)\<rparr>\<rparr>,
         \<lparr>ce_mode = Reading, ce_work = Sinking [], ce_out = [], ce_channel = empty_channel\<rparr>],
      pl_stopped = False, pl_failure = None, pl_raised = None\<rparr>"

section \<open>The writer only adds to its sink and never raises Stopped\<close>

definition grows :: "stream_writer \<Rightarrow> stream_writer result \<Rightarrow> bool" where
  "grows w r \<longleftrightarrow> (case r of Inl e \<Rightarrow> e \<noteq> Stopped | Inr w' \<Rightarrow> prefix (sw_sink w) (sw_sink w') \<and> sw_header w' = sw_header w)"

definition unstopped_result :: "'a result \<Rightarrow> bool" where
  "unstopped_result r \<longleftrightarrow> r \<noteq> Inl Stopped"

lemma unstopped_and_then:
  "unstopped_result r \<Longrightarrow> (\<And>x. r = Inr x \<Longrightarrow> unstopped_result (f x)) \<Longrightarrow> unstopped_result (and_then r f)"
  by (cases r) (auto simp: unstopped_result_def)

lemma unstopped_Inr [simp]: "unstopped_result (Inr x)"
  by (simp add: unstopped_result_def)

lemma encode_blocks_unstopped: "unstopped_result (encode_blocks prim cipher bs final_index jobs)"
proof (induction jobs)
  case (Cons job jobs)
  have "unstopped_result (chunk_seal enc cipher i chunk final)" for enc i chunk final
    by (auto simp: unstopped_result_def chunk_seal_def chunk_nonce_def and_then_def split: sum.splits option.splits if_splits)
  then show ?case using Cons
    by (cases job) (auto simp: Let_def intro!: unstopped_and_then split: option.splits, auto simp: unstopped_result_def)
qed simp

lemma writer_encode_unstopped: "unstopped_result (writer_encode prim w final_index jobs)"
  unfolding writer_encode_def
  by (intro unstopped_and_then encode_blocks_unstopped unstopped_Inr)
    (simp add: ChunkCipher_def unstopped_result_def)

lemma encode_groups_unstopped: "unstopped_result (encode_groups prim w final_index groups)"
  by (induction groups) (auto intro!: unstopped_and_then writer_encode_unstopped)

lemma emit_grows [simp]: "sw_sink (writer_emit data w) = sw_sink w @ data" "sw_header (writer_emit data w) = sw_header w"
  by (simp_all add: writer_emit_def)

lemma place_grows: "prefix (sw_sink w) (sw_sink (writer_place slot w)) \<and> sw_header (writer_place slot w) = sw_header w"
  by (simp add: writer_place_def Let_def)

lemma fold_place_grows:
  "prefix (sw_sink w) (sw_sink (fold writer_place slots w)) \<and> sw_header (fold writer_place slots w) = sw_header w"
proof (induction slots arbitrary: w)
  case (Cons slot slots)
  then show ?case using place_grows [of w slot] prefix_order.trans by fastforce
qed simp

lemma fold_emit_grows:
  "prefix (sw_sink w) (sw_sink (fold writer_emit ds w)) \<and> sw_header (fold writer_emit ds w) = sw_header w"
proof (induction ds arbitrary: w)
  case (Cons d ds)
  then show ?case using prefix_order.trans [of "sw_sink w" "sw_sink w @ d"] by (metis emit_grows fold_simps(2) prefixI)
qed simp

lemma grows_and_then:
  "grows w r \<Longrightarrow> (\<And>w'. r = Inr w' \<Longrightarrow> grows w' (f w')) \<Longrightarrow> grows w (and_then r f)"
  by (cases r) (auto simp: grows_def split: sum.splits intro: prefix_order.trans)

lemma grows_update: "sw_sink v = sw_sink w \<Longrightarrow> sw_header v = sw_header w \<Longrightarrow> grows v r \<Longrightarrow> grows w r"
  by (simp add: grows_def split: sum.splits)

lemma flush_grows: "grows w (writer_flush prim final w)"
proof -
  define w1 where "w1 = w\<lparr>sw_batch := [], sw_next_index := sw_next_index w + length (sw_batch w)\<rparr>"
  have w1: "sw_sink w1 = sw_sink w" "sw_header w1 = sw_header w" by (simp_all add: w1_def)
  define r where "r = encode_groups prim w1 (if final then Some (sw_next_index w + length (sw_batch w) - 1) else None)
      (pieces BATCH_BLOCKS (map (\<lambda>(offset, chunk). (sw_next_index w + offset, chunk)) (enumerate 0 (sw_batch w))))"
  have "writer_flush prim final w =
      (if sw_batch w = [] then Inr w
       else if MAX_BLOCKS < sw_next_index w + length (sw_batch w) then Inl ContainerError
       else and_then r (\<lambda>groups. Inr (fold writer_place (concat groups) w1)))"
    by (simp add: writer_flush_def r_def w1_def Let_def)
  moreover have "unstopped_result r" unfolding r_def by (rule encode_groups_unstopped)
  moreover have "grows w (Inr (fold writer_place slots w1))" for slots
    using fold_place_grows [of w1 slots] w1 by (simp add: grows_def)
  ultimately show ?thesis by (cases r) (auto simp: grows_def unstopped_result_def)
qed

lemma queue_grows: "grows w (writer_queue prim chunk w)"
  unfolding writer_queue_def Let_def
  by (auto intro: grows_update [OF _ _ flush_grows]) (simp add: grows_def)

lemma write_loop_grows:
  "case write_loop prim view w of Inl e \<Rightarrow> e \<noteq> Stopped | Inr (_, w') \<Rightarrow> prefix (sw_sink w) (sw_sink w') \<and> sw_header w' = sw_header w"
proof (induction prim view w rule: write_loop.induct)
  case (1 prim view w)
  let ?c = "chunk_capacity (sw_layout w)"
  show ?case
  proof (cases "0 < ?c \<and> ?c < length view")
    case True
    have q: "grows w (writer_queue prim (take ?c view) w)" by (rule queue_grows)
    show ?thesis
    proof (cases "writer_queue prim (take ?c view) w")
      case (Inl e)
      then show ?thesis using True q by (simp add: write_loop.simps [of prim view w] Let_def grows_def)
    next
      case (Inr w')
      then have "prefix (sw_sink w) (sw_sink w')" "sw_header w' = sw_header w" using q by (simp_all add: grows_def)
      moreover have "write_loop prim view w = write_loop prim (drop ?c view) w'"
        using True Inr by (subst write_loop.simps) (simp add: Let_def)
      ultimately show ?thesis using "1.IH" [OF refl True Inr] by (auto split: sum.splits intro: prefix_order.trans)
    qed
  next
    case False
    then have "write_loop prim view w = Inr (view, w)" by (subst write_loop.simps) (auto simp: Let_def)
    then show ?thesis by simp
  qed
qed

lemma write_grows:
  "case writer_write prim data w of Inl e \<Rightarrow> e \<noteq> Stopped | Inr (n, w') \<Rightarrow> prefix (sw_sink w) (sw_sink w') \<and> sw_header w' = sw_header w"
proof (cases "sw_closed w")
  case False
  define start where "start = (if sw_pending w \<noteq> [] \<and> data \<noteq> []
      then let room = chunk_capacity (sw_layout w) - length (sw_pending w); pending = sw_pending w @ take room data
           in if room < length data
              then and_then (writer_queue prim pending (w\<lparr>sw_pending := pending\<rparr>)) (\<lambda>w. Inr (drop room data, w\<lparr>sw_pending := []\<rparr>))
              else Inr ([], w\<lparr>sw_pending := pending\<rparr>)
      else Inr (data, w))"
  have start: "case start of Inl e \<Rightarrow> e \<noteq> Stopped | Inr (view, w') \<Rightarrow> prefix (sw_sink w) (sw_sink w') \<and> sw_header w' = sw_header w"
  proof -
    let ?p = "sw_pending w @ take (chunk_capacity (sw_layout w) - length (sw_pending w)) data"
    have "grows w (writer_queue prim ?p (w\<lparr>sw_pending := ?p\<rparr>))"
      by (rule grows_update [OF _ _ queue_grows]) simp_all
    then show ?thesis unfolding start_def Let_def
      by (cases "writer_queue prim ?p (w\<lparr>sw_pending := ?p\<rparr>)") (simp_all add: grows_def)
  qed
  have "writer_write prim data w = and_then start (\<lambda>(view, w). and_then (write_loop prim view w) (\<lambda>(view, w). Inr (length data,
      w\<lparr>sw_pending := sw_pending w @ view, sw_plaintext_bytes := sw_plaintext_bytes w + length data\<rparr>)))"
    using False by (simp add: writer_write_def start_def Let_def)
  then show ?thesis
  proof (cases start)
    case (Inr vw)
    obtain view w1 where vw: "vw = (view, w1)" by (cases vw)
    have "prefix (sw_sink w) (sw_sink w1)" "sw_header w1 = sw_header w" using start Inr vw by simp_all
    then show ?thesis
      using \<open>writer_write prim data w = _\<close> Inr vw write_loop_grows [of w1 prim view]
      by (auto split: sum.splits intro: prefix_order.trans)
  qed (use start in simp)
qed (simp add: writer_write_def)

lemma finish_grows: "grows w (writer_finish prim w)"
proof -
  let ?w = "w\<lparr>sw_pending := [], sw_final_chunk_len := length (sw_pending w) + TAG_LENGTH, sw_batch := sw_batch w @ [sw_pending w]\<rparr>"
  have "grows w (writer_flush prim True ?w)" by (rule grows_update [OF _ _ flush_grows]) simp_all
  moreover have "grows v (let u = (fold writer_emit (sw_window v) v)\<lparr>sw_window := []\<rparr> in and_then (trailer_seal h t)
      (\<lambda>trailer. Inr (writer_emit (sw_sealed_header u) (writer_emit trailer (writer_emit trailer u)))))" for v h t
    using fold_emit_grows [of v "sw_window v"] prefix_order.trans [of "sw_sink v"]
    by (auto simp: grows_def trailer_seal_def Let_def and_then_def split: option.splits)
  ultimately show ?thesis unfolding writer_finish_def Let_def by (intro grows_and_then) auto
qed

lemma close_grows:
  assumes "writer_close prim w = (r, w')" shows "r \<noteq> Inl Stopped" and "prefix (sw_sink w) (sw_sink w')" "sw_header w' = sw_header w"
proof -
  have g: "grows w (writer_finish prim w)" by (rule finish_grows)
  have "r \<noteq> Inl Stopped \<and> prefix (sw_sink w) (sw_sink w') \<and> sw_header w' = sw_header w"
  proof (cases "sw_summary w")
    case None
    then show ?thesis using assms g
      by (cases "writer_finish prim w")
        (auto simp: writer_close_def grows_def writer_abort_def Let_def split: if_splits)
  qed (use assms in \<open>auto simp: writer_close_def\<close>)
  then show "r \<noteq> Inl Stopped" "prefix (sw_sink w) (sw_sink w')" "sw_header w' = sw_header w" by simp_all
qed

interpretation backup: pipeline_stages "stage_feed prim deflate write_fails" "stage_finish prim deflate flush_fails"
  "\<lambda>w. \<exists>out. w = Sinking out" for prim deflate write_fails flush_fails
proof
  fix w d w' ds e assume feed: "stage_feed prim deflate write_fails w d = (w', ds, e)"
  show "\<exists>out. w = Sinking out \<Longrightarrow> ds = [] \<and> (\<exists>out. w' = Sinking out)" using feed by (auto split: if_splits)
  show "e \<noteq> Some Stopped"
  proof (cases w)
    case (Encoding v)
    then show ?thesis using feed write_grows [of v prim "pi_content d"]
      by (cases "writer_write prim (pi_content d) v") auto
  qed (use feed in \<open>auto split: prod.splits if_splits\<close>)
next
  fix w w' ds e assume finish: "stage_finish prim deflate flush_fails w = (w', ds, e)"
  show "\<exists>out. w = Sinking out \<Longrightarrow> ds = [] \<and> (\<exists>out. w' = Sinking out)" using finish by auto
  show "e \<noteq> Some Stopped"
    using finish close_grows(1)
    by (cases w) (auto split: prod.splits sum.splits if_splits)
qed

section \<open>The sequential reading of a backup\<close>

lemma slot_writes_concat [simp]: "concat (map pi_content (slot_writes w data)) = data"
  by (simp add: slot_writes_def plain_piece_def comp_def concat_pieces slot_size_def SLOT_TAG_SIZE_def)

lemma three_cuts: "take k ds @ take n (drop k ds) @ take n (drop (k + n) ds) @ drop (k + 2 * n) ds = (ds :: 'a list)"
proof -
  have "take n (drop (k + n) ds) @ drop (k + 2 * n) ds = drop (k + n) ds"
    using append_take_drop_id [of n "drop (k + n) ds"] unfolding drop_drop mult_2 by (simp only: ac_simps)
  moreover have "take n (drop k ds) @ drop (k + n) ds = drop k ds"
    using append_take_drop_id [of n "drop k ds"] by (simp add: add.commute)
  ultimately show ?thesis by simp
qed

lemma closing_writes_concat [simp]: "concat (map pi_content (closing_writes w data)) = data"
proof -
  define k where "k = length data - (2 * TRAILER_SIZE + HEADER_SIZE)"
  show ?thesis using three_cuts [of k data TRAILER_SIZE] by (simp add: closing_writes_def k_def Let_def plain_piece_def)
qed

lemma write_all_grows: "write_all prim ps w = Inr w' \<Longrightarrow> prefix (sw_sink w) (sw_sink w') \<and> sw_header w' = sw_header w"
proof (induction ps arbitrary: w)
  case (Cons piece ps)
  then show ?case using write_grows [of w prim piece] by (auto intro: prefix_order.trans)
qed simp

lemma written_since_trans:
  "prefix (sw_sink a) (sw_sink b) \<Longrightarrow> prefix (sw_sink b) (sw_sink c) \<Longrightarrow> written_since a c = written_since a b @ written_since b c"
  by (auto simp: written_since_def prefix_def)

lemma run_encoding:
  "write_all prim (map pi_content ds) w = Inr w1 \<Longrightarrow> writer_close prim w1 = (Inr s, w2) \<Longrightarrow>
   \<exists>out. stage_run (stage_feed prim deflate write_fails) (stage_finish prim deflate flush_fails) (Encoding w) (map Item ds @ [End])
      = (Encoding w2, map Item out @ [End]) \<and> concat (map pi_content out) = written_since w w2"
proof (induction ds arbitrary: w)
  case Nil
  then show ?case by (intro exI [of _ "closing_writes w (written_since w w2)"]) (simp add: after_end_def)
next
  case (Cons d ds)
  obtain n w' where w': "writer_write prim (pi_content d) w = Inr (n, w')" "write_all prim (map pi_content ds) w' = Inr w1"
    using Cons.prems(1) by auto
  obtain out where out: "stage_run (stage_feed prim deflate write_fails) (stage_finish prim deflate flush_fails) (Encoding w')
      (map Item ds @ [End]) = (Encoding w2, map Item out @ [End])" "concat (map pi_content out) = written_since w' w2"
    using Cons.IH [OF w'(2) Cons.prems(2)] by auto
  have "prefix (sw_sink w) (sw_sink w')" using write_grows [of w prim "pi_content d"] w'(1) by simp
  moreover have "prefix (sw_sink w') (sw_sink w2)"
    using write_all_grows [OF w'(2)] close_grows(2) [OF Cons.prems(2)] prefix_order.trans by blast
  ultimately have "written_since w w2 = written_since w w' @ written_since w' w2" by (rule written_since_trans)
  then show ?case using w'(1) out
    by (intro exI [of _ "slot_writes w (written_since w w') @ out"]) (simp add: after_feed_def)
qed

lemma run_sinking:
  "stage_run (stage_feed prim deflate (\<lambda>_ _. False)) (stage_finish prim deflate (\<lambda>_. False)) (Sinking out) (map Item ds @ [End])
    = (Sinking (out @ concat (map pi_content ds)), [End])"
  by (induction ds arbitrary: out) (simp_all add: after_end_def after_feed_def)

lemma run_passing:
  "\<exists>t'. stage_run (stage_feed prim deflate write_fails) (stage_finish prim deflate flush_fails) (Passing t) (map Item ds @ [End])
    = (Passing t', map Item ds @ [End])"
proof (induction ds arbitrary: t)
  case (Cons d ds)
  then obtain t' where "stage_run (stage_feed prim deflate write_fails) (stage_finish prim deflate flush_fails)
      (Passing (stream_update (pi_content d) t)) (map Item ds @ [End]) = (Passing t', map Item ds @ [End])" by blast
  then show ?case by (simp add: after_feed_def)
qed (simp add: after_end_def)

lemma compress_loop_pieces:
  "length pending < SEGMENT_BYTES \<Longrightarrow> compress_loop deflate view pending = (out, left) \<Longrightarrow>
   length left < SEGMENT_BYTES \<and> (\<exists>full. out = map (segment deflate) full \<and>
     (\<forall>rest. pieces SEGMENT_BYTES (pending @ view @ rest) = full @ pieces SEGMENT_BYTES (left @ rest)))"
proof (induction deflate view pending arbitrary: out left rule: compress_loop.induct)
  case (1 deflate view pending)
  have pos: "0 < SEGMENT_BYTES" by (simp add: SEGMENT_BYTES_def)
  define taken where "taken = take (SEGMENT_BYTES - length pending) view"
  show ?case
  proof (cases "view = []")
    case True
    then show ?thesis using "1.prems" by (auto simp: compress_loop.simps [of deflate "[]" pending])
  next
    case False
    have split: "view = taken @ drop (length taken) view" by (metis append_eq_conv_conj taken_def append_take_drop_id length_take min.commute take_take)
    show ?thesis
    proof (cases "SEGMENT_BYTES \<le> length (pending @ taken)")
      case True
      have full: "length (pending @ taken) = SEGMENT_BYTES" using True "1.prems"(1) by (auto simp: taken_def)
      obtain out1 where out1: "compress_loop deflate (drop (length taken) view) [] = (out1, left)"
          "out = segment deflate (pending @ taken) # out1"
        using "1.prems"(2) False True
        by (subst (asm) compress_loop.simps) (auto simp: Let_def taken_def split: prod.splits if_splits)
      obtain fs where fs: "out1 = map (segment deflate) fs" "length left < SEGMENT_BYTES"
          "\<forall>rest. pieces SEGMENT_BYTES (drop (length taken) view @ rest) = fs @ pieces SEGMENT_BYTES (left @ rest)"
        using "1.IH"(1) [OF False taken_def refl refl True _ out1(1)] pos by auto
      have "pieces SEGMENT_BYTES (pending @ view @ rest) = (pending @ taken) # fs @ pieces SEGMENT_BYTES (left @ rest)" for rest
        using pieces_append [OF pos full, of "drop (length taken) view @ rest"] fs(3) split by (metis append.assoc)
      then show ?thesis using fs(1,2) out1(2) by (intro conjI exI [of _ "(pending @ taken) # fs"]) auto
    next
      case less: False
      have "compress_loop deflate (drop (length taken) view) (pending @ taken) = (out, left)"
        using "1.prems"(2) False less
        by (subst (asm) compress_loop.simps) (auto simp: Let_def taken_def split: prod.splits if_splits)
      then have "length left < SEGMENT_BYTES \<and> (\<exists>full. out = map (segment deflate) full \<and>
          (\<forall>rest. pieces SEGMENT_BYTES ((pending @ taken) @ drop (length taken) view @ rest) = full @ pieces SEGMENT_BYTES (left @ rest)))"
        using "1.IH"(2) [OF False taken_def refl refl less] less by simp
      then show ?thesis using split by (metis append.assoc)
    qed
  qed
qed

definition payload_of :: "bool \<Rightarrow> (bytes \<Rightarrow> bytes) \<Rightarrow> bytes list \<Rightarrow> bytes" where
  "payload_of compress deflate frames =
     (if compress then concat (map deflate (pieces SEGMENT_BYTES (concat frames))) else concat frames)"

lemma pieces_short: "xs \<noteq> [] \<Longrightarrow> length xs < n \<Longrightarrow> pieces n xs = [xs]"
  by (cases "0 < n") (simp_all add: pieces_unfold)

lemma run_compressing:
  "length pending < SEGMENT_BYTES \<Longrightarrow>
   \<exists>w out. stage_run (stage_feed prim deflate write_fails) (stage_finish prim deflate flush_fails) (Compressing t pending) (map Item ds @ [End])
     = (w, map Item out @ [End]) \<and>
     map pi_content out = map deflate (pieces SEGMENT_BYTES (pending @ concat (map pi_content ds)))"
proof (induction ds arbitrary: t pending)
  case Nil
  then show ?case
    by (intro exI [of _ "Compressing t []"] exI [of _ "if pending \<noteq> [] then [segment deflate pending] else []"])
      (auto simp: after_end_def segment_def pieces_short)
next
  case (Cons d ds)
  obtain out left where loop: "compress_loop deflate (pi_content d) pending = (out, left)" by fastforce
  obtain full where full: "length left < SEGMENT_BYTES" "out = map (segment deflate) full"
      "\<forall>rest. pieces SEGMENT_BYTES (pending @ pi_content d @ rest) = full @ pieces SEGMENT_BYTES (left @ rest)"
    using compress_loop_pieces [OF Cons.prems loop] by blast
  obtain w out' where "stage_run (stage_feed prim deflate write_fails) (stage_finish prim deflate flush_fails)
      (Compressing (stream_update (pi_content d) t) left) (map Item ds @ [End]) = (w, map Item out' @ [End])"
      "map pi_content out' = map deflate (pieces SEGMENT_BYTES (left @ concat (map pi_content ds)))"
    using Cons.IH [OF full(1)] by blast
  then show ?case using loop full(2,3)
    by (intro exI [of _ w] exI [of _ "out @ out'"]) (simp add: after_feed_def segment_def comp_def)
qed

lemma plain_contents [simp]: "map pi_content (map plain_piece frames) = frames"
  by (simp add: plain_piece_def comp_def)

lemma run_second_stage:
  "\<exists>w out. stage_run (stage_feed prim deflate write_fails) (stage_finish prim deflate flush_fails)
       (let t = \<lparr>ps_digest = [], ps_payload_bytes = 0\<rparr> in if compress then Compressing t [] else Passing t)
       (map Item (map plain_piece frames) @ [End]) = (w, map Item out @ [End]) \<and>
     concat (map pi_content out) = payload_of compress deflate frames"
proof (cases compress)
  case True
  have "length ([] :: bytes) < SEGMENT_BYTES" by (simp add: SEGMENT_BYTES_def)
  from run_compressing [OF this, of prim deflate write_fails flush_fails _ "map plain_piece frames"]
  show ?thesis using True by (fastforce simp: payload_of_def simp del: map_map)
next
  case False
  then show ?thesis using run_passing [of prim deflate write_fails flush_fails _ "map plain_piece frames"]
    by (fastforce simp: payload_of_def simp del: map_map)
qed

lemma failure_in_end [simp]: "failure_in (map Item ds @ [End]) = None"
  by (simp add: failure_in_append)

lemma flow_encoding:
  assumes enc: "\<And>ps. concat ps = payload_of compress deflate frames \<Longrightarrow>
      \<exists>w s w'. write_all prim ps w0 = Inr w \<and> writer_close prim w = (Inr s, w') \<and> sw_sink w' = written"
  shows "flow (stage_feed prim deflate (\<lambda>_ _. False)) (stage_finish prim deflate (\<lambda>_. False)) []
      (pl_cells (encoding_start compress w0 frames None)) = Inr (Sinking written)"
proof -
  let ?F = "stage_feed prim deflate (\<lambda>_ _. False)" and ?G = "stage_finish prim deflate (\<lambda>_. False)"
  obtain v out where second: "stage_run ?F ?G
       (let t = \<lparr>ps_digest = [], ps_payload_bytes = 0\<rparr> in if compress then Compressing t [] else Passing t)
       (map Item (map plain_piece frames) @ [End]) = (v, map Item out @ [End])"
      "concat (map pi_content out) = payload_of compress deflate frames"
    using run_second_stage [of prim deflate "\<lambda>_ _. False" "\<lambda>_. False" compress frames] by blast
  obtain w s w' where w: "write_all prim (map pi_content out) w0 = Inr w" "writer_close prim w = (Inr s, w')" "sw_sink w' = written"
    using enc [OF second(2)] by blast
  obtain out' where third: "stage_run ?F ?G (Encoding w0) (map Item out @ [End]) = (Encoding w', map Item out' @ [End])"
      "concat (map pi_content out') = written_since w0 w'"
    using run_encoding [OF w(1,2)] by blast
  have "prefix (sw_sink w0) (sw_sink w')"
    using write_all_grows [OF w(1)] close_grows(2) [OF w(2)] prefix_order.trans by blast
  then have whole: "sw_sink w0 @ written_since w0 w' = written"
    unfolding w(3) [symmetric] by (auto simp: written_since_def prefix_def)
  have "stage_run ?F ?G (Sinking []) (map Item (plain_piece (sw_sink w0) # out') @ [End]) =
      (Sinking (concat (map pi_content (plain_piece (sw_sink w0) # out'))), [End])"
    using run_sinking [of prim deflate "[]" "plain_piece (sw_sink w0) # out'"] by simp
  then have fourth: "stage_run ?F ?G (Sinking []) (Item (plain_piece (sw_sink w0)) # map Item out' @ [End]) = (Sinking written, [End])"
    using third(2) whole by (simp add: plain_piece_def)
  show ?thesis
    using second(1) third(1) fourth
    by (simp add: encoding_start_def empty_channel_def failure_in_append del: stage_run.simps map_map)
qed

section \<open>Properties\<close>

abbreviation backup_step ::
  "primitives \<Rightarrow> (bytes \<Rightarrow> bytes) \<Rightarrow> (bytes \<Rightarrow> bytes \<Rightarrow> bool) \<Rightarrow> (bytes \<Rightarrow> bool) \<Rightarrow>
   (stage_work, piece) pipeline \<Rightarrow> (stage_work, piece) pipeline \<Rightarrow> bool" where
  "backup_step prim deflate write_fails flush_fails \<equiv>
     pipeline_step (stage_feed prim deflate write_fails) (stage_finish prim deflate flush_fails) pi_size CHANNEL_BYTES"

lemma encoding_start_running:
  assumes "body_raises \<noteq> Some Stopped"
  shows "backup.running prim deflate write_fails flush_fails (pl_cells (encoding_start compress w0 frames body_raises))
    (encoding_start compress w0 frames body_raises)"
proof -
  have "under_way [] (map Item ps @ [case body_raises of None \<Rightarrow> End | Some e \<Rightarrow> Fail e])" for ps :: "piece list"
    using under_way_new [of "[]" ps] by (cases body_raises) auto
  then show ?thesis using assms
    unfolding backup.running_def encoding_start_def
    by (cases body_raises)
      (auto simp: cell_shape_def cells_linked_def empty_channel_def Let_def simp del: map_map
        intro: exI [of _ "[_]"])
qed

lemma terminal_exists:
  "\<exists>p'. (backup_step prim deflate write_fails flush_fails)\<^sup>*\<^sup>* p p' \<and>
     \<not> (\<exists>q. backup_step prim deflate write_fails flush_fails p' q)"
proof (induction p rule: wf_induct_rule [OF runs_end [of "stage_feed prim deflate write_fails" "stage_finish prim deflate flush_fails" pi_size CHANNEL_BYTES]])
  case (1 p)
  show ?case
  proof (cases "\<exists>q. backup_step prim deflate write_fails flush_fails p q")
    case True
    then obtain q where q: "backup_step prim deflate write_fails flush_fails p q" by blast
    then obtain p' where p': "(backup_step prim deflate write_fails flush_fails)\<^sup>*\<^sup>* q p'"
        "\<not> (\<exists>r. backup_step prim deflate write_fails flush_fails p' r)"
      using 1 [of q] by auto
    from q p'(1) have "(backup_step prim deflate write_fails flush_fails)\<^sup>*\<^sup>* p p'"
      by (rule converse_rtranclp_into_rtranclp)
    then show ?thesis using p'(2) by blast
  qed blast
qed

text \<open>
  C13: The threads of a backup cannot run forever: from any state of the pipeline, whatever the stages compute and
  whichever of them fail, there is no endless sequence of channel operations.
\<close>

theorem backup_threads_terminate:
  "\<not> (\<exists>run. \<forall>n. backup_step prim deflate write_fails flush_fails (run n) (run (Suc n)))"
  using runs_end [of "stage_feed prim deflate write_fails" "stage_finish prim deflate flush_fails" pi_size CHANNEL_BYTES]
  by (simp add: wf_iff_no_infinite_down_chain)

text \<open>
  C12: The threads of a backup never block each other: when none of them can move any more, all of them have
  finished, whatever failed (the body of the caller, the writer, or a write to the output); and the exit
  raises no exception exactly when the same stages run one after the other do not fail, in which case the output has
  received exactly what that sequential run writes. A failed backup is never taken for a complete one.
\<close>

theorem backup_threads_finish:
  assumes "body_raises \<noteq> Some Stopped"
    and "(backup_step prim deflate write_fails flush_fails)\<^sup>*\<^sup>* (encoding_start compress w0 frames body_raises) p"
    and "\<not> (\<exists>q. backup_step prim deflate write_fails flush_fails p q)"
  shows "(\<forall>c \<in> set (pl_cells p). ce_mode c = Finished) \<and>
    (case flow (stage_feed prim deflate write_fails) (stage_finish prim deflate flush_fails) []
        (pl_cells (encoding_start compress w0 frames body_raises)) of
       Inr w \<Rightarrow> pipeline_exit p = Inr () \<and> ce_work (last (pl_cells p)) = w
     | Inl _ \<Rightarrow> \<exists>e. pipeline_exit p = Inl e)"
proof (rule backup.run_outcome [OF encoding_start_running [OF assms(1)] _ assms(2)])
  show "\<not> pl_stopped (encoding_start compress w0 frames body_raises)" by (simp add: encoding_start_def)
qed (use assms(3) in blast)

theorem backup_threads_finish_witness:
  "\<exists>p. (backup_step demo_primitives id (\<lambda>_ _. False) (\<lambda>_. False))\<^sup>*\<^sup>* (encoding_start True demo_w0 [[7]] (Some OSError)) p \<and>
    \<not> list_ex (\<lambda>c. ce_mode c \<noteq> Finished) (pl_cells p) \<and> (\<exists>e. pipeline_exit p = Inl e)"
proof -
  obtain p where p: "(backup_step demo_primitives id (\<lambda>_ _. False) (\<lambda>_. False))\<^sup>*\<^sup>* (encoding_start True demo_w0 [[7]] (Some OSError)) p"
      "\<not> (\<exists>q. backup_step demo_primitives id (\<lambda>_ _. False) (\<lambda>_. False) p q)"
    using terminal_exists by blast
  have "flow (stage_feed demo_primitives id (\<lambda>_ _. False)) (stage_finish demo_primitives id (\<lambda>_. False)) []
      (pl_cells (encoding_start True demo_w0 [[7]] (Some OSError))) = Inl OSError"
    by (simp add: encoding_start_def)
  then show ?thesis using backup_threads_finish [OF _ p] p(1) by (auto simp: list_ex_iff)
qed

lemma threads_write_image:
  assumes "aead_scheme (prim_enc prim) (prim_dec prim)" and "randomness_ok rnd"
    and "writer_init prim rnd passphrase kdf bs ns il workers flags = Inr w0"
    and "length (chunks_of (chunk_capacity (sw_layout w0)) (payload_of compress deflate frames)) \<le> MAX_BLOCKS"
    and "(backup_step prim deflate (\<lambda>_ _. False) (\<lambda>_. False))\<^sup>*\<^sup>* (encoding_start compress w0 frames None) p"
    and "\<not> (\<exists>q. backup_step prim deflate (\<lambda>_ _. False) (\<lambda>_. False) p q)"
  shows "pipeline_exit p = Inr () \<and> (\<exists>trailer.
    trailer_seal (prim_h16 prim) (container_trailer prim (sw_header w0) (rnd_data_key rnd) (sw_sealed_header w0)
      (payload_of compress deflate frames)) = Inr trailer \<and>
    ce_work (last (pl_cells p)) = Sinking (container_image prim (sw_header w0) (rnd_data_key rnd) (sw_sealed_header w0) trailer
      (payload_of compress deflate frames)))"
proof -
  let ?D = "payload_of compress deflate frames"
  obtain trailer where trailer: "trailer_seal (prim_h16 prim) (container_trailer prim (sw_header w0) (rnd_data_key rnd)
      (sw_sealed_header w0) ?D) = Inr trailer"
    using stream_setting.written_container [OF writer_init_ok [OF assms(1-3)], of "[?D]"] assms(4) by auto
  let ?image = "container_image prim (sw_header w0) (rnd_data_key rnd) (sw_sealed_header w0) trailer ?D"
  have "\<exists>w s w'. write_all prim ps w0 = Inr w \<and> writer_close prim w = (Inr s, w') \<and> sw_sink w' = ?image"
    if "concat ps = ?D" for ps
    using stream_setting.written_container [OF writer_init_ok [OF assms(1-3)], of ps] assms(4) trailer that by auto
  then have "flow (stage_feed prim deflate (\<lambda>_ _. False)) (stage_finish prim deflate (\<lambda>_. False)) []
      (pl_cells (encoding_start compress w0 frames None)) = Inr (Sinking ?image)"
    by (rule flow_encoding)
  moreover have "\<not> pl_stopped (encoding_start compress w0 frames None)" by (simp add: encoding_start_def)
  ultimately show ?thesis
    using backup.run_outcome [OF encoding_start_running [of None] _ assms(5)] assms(6) trailer by simp
qed

text \<open>
  C11: However the threads of a backup interleave, they write the container of theory \<open>WriterCorrect\<close>: with an
  accepted configuration, an output that takes every write and a body that does not raise, every run that cannot
  continue has ended without an exception and the output holds the container of the (compressed) frames, byte for byte.
\<close>

theorem backup_threads_write_the_container:
  assumes "aead_scheme (prim_enc prim) (prim_dec prim)" and "randomness_ok rnd"
    and "writer_init prim rnd passphrase kdf bs ns il workers flags = Inr w0"
    and "length (chunks_of (chunk_capacity (sw_layout w0)) (payload_of compress deflate frames)) \<le> MAX_BLOCKS"
    and "(backup_step prim deflate (\<lambda>_ _. False) (\<lambda>_. False))\<^sup>*\<^sup>* (encoding_start compress w0 frames None) p"
    and "\<not> (\<exists>q. backup_step prim deflate (\<lambda>_ _. False) (\<lambda>_. False) p q)"
  shows "pipeline_exit p = Inr () \<and> (\<exists>trailer.
    trailer_seal (prim_h16 prim) (container_trailer prim (sw_header w0) (rnd_data_key rnd) (sw_sealed_header w0)
      (payload_of compress deflate frames)) = Inr trailer \<and>
    ce_work (last (pl_cells p)) = Sinking (container_image prim (sw_header w0) (rnd_data_key rnd) (sw_sealed_header w0) trailer
      (payload_of compress deflate frames)))"
  by (rule threads_write_image [OF assms])

theorem backup_threads_write_the_container_witness:
  "\<exists>p trailer. (backup_step demo_primitives id (\<lambda>_ _. False) (\<lambda>_. False))\<^sup>*\<^sup>* (encoding_start False demo_w0 [[7], [8, 9]] None) p \<and>
    pipeline_exit p = Inr () \<and>
    ce_work (last (pl_cells p)) = Sinking (container_image demo_primitives (sw_header demo_w0) (rnd_data_key demo_randomness)
      (sw_sealed_header demo_w0) trailer [7, 8, 9])"
proof -
  obtain p where p: "(backup_step demo_primitives id (\<lambda>_ _. False) (\<lambda>_. False))\<^sup>*\<^sup>* (encoding_start False demo_w0 [[7], [8, 9]] None) p"
      "\<not> (\<exists>q. backup_step demo_primitives id (\<lambda>_ _. False) (\<lambda>_. False) p q)"
    using terminal_exists by blast
  obtain w0 where w0: "writer_init demo_primitives demo_randomness [1] None 512 16 4 None 0 = Inr w0"
      "sw_layout w0 = \<lparr>block_size = 512, nsym = 16, interleave = 4\<rparr>"
    by (rule demo_writer)
  have "w0 = demo_w0" using w0(1) demo_w0_init by simp
  then have "length (chunks_of (chunk_capacity (sw_layout demo_w0)) (payload_of False id [[7], [8, 9]])) \<le> MAX_BLOCKS"
    using w0(2) by (simp add: payload_of_def chunk_capacity_def chunks_of_short MAX_BLOCKS_def MAX_CHUNKS_def)
  from backup_threads_write_the_container [OF demo_aead demo_randomness_ok demo_w0_init this p]
  show ?thesis using p(1) by (auto simp: payload_of_def)
qed

end
