(* ===== verification/Decoding.thy ===== *)
theory Decoding
  imports PipelineStages StreamRoundtrip PayloadProperties
begin

text \<open>
  The way back in \<^verbatim>\<open>src/dbs/engine/pipeline.py\<close>: the source that reads ahead of the reader, and the inflation of a
  compressed payload. \<^verbatim>\<open>zlib.decompressobj\<close> is a parameter with the attributes the code reads; what it is relied on for
  is \<open>zlib_ok\<close>. An exception of \<^verbatim>\<open>zlib\<close> itself, on data that no compressor wrote, is not modelled.
\<close>

definition PIECE_BYTES :: nat where "PIECE_BYTES = 1024 * 1024"
definition PAYLOAD_COMPRESSED :: nat where "PAYLOAD_COMPRESSED = 1"

section \<open>Reading ahead\<close>

text \<open>
  The file is its bytes and \<open>read_at\<close> (theory \<open>ContainerFormat\<close>). The thread that reads ahead puts the pieces of a range into
  a channel; the iterator over the channel is the list of the pieces it has still to give.
\<close>

record prefetching_source =
  pf_data :: bytes
  pf_pieces :: "bytes list option"
  pf_position :: nat
  pf_pending :: bytes

function read_ahead :: "bytes \<Rightarrow> nat \<Rightarrow> nat \<Rightarrow> bytes list" where
  "read_ahead data offset stop =
     (if stop \<le> offset then []
      else let piece = read_at data (int offset) (int (min PIECE_BYTES (stop - offset)))
           in if piece = [] then [] else piece # read_ahead data (offset + length piece) stop)"
  by pat_completeness auto
termination
proof (relation "measure (\<lambda>(data, offset, stop). stop - offset)", goal_cases)
  case (2 data offset stop piece)
  have "0 < length piece" using 2(3) unfolding length_greater_0_conv .
  then have "stop - (offset + length piece) < stop - offset" using 2(1) by linarith
  then show ?case by simp
qed simp

declare read_ahead.simps [simp del]

definition prefetch :: "nat \<Rightarrow> nat \<Rightarrow> prefetching_source \<Rightarrow> prefetching_source" where
  "prefetch start stop pf =
     pf\<lparr>pf_pieces := Some (read_ahead (pf_data pf) start (min stop (length (pf_data pf)))), pf_position := start\<rparr>"

function take_loop :: "nat \<Rightarrow> bytes list \<Rightarrow> bytes \<Rightarrow> bytes list \<times> bytes list option \<times> bytes" where
  "take_loop needed ahead pending =
     (if needed = 0 then ([], Some ahead, pending)
      else if pending = []
      then (case ahead of
              [] \<Rightarrow> ([], None, [])
            | piece # rest \<Rightarrow>
                if piece = [] then ([], None, [])
                else (case take_loop (needed - length (take needed piece)) rest (drop needed piece) of
                        (parts, left, pending) \<Rightarrow> (take needed piece # parts, left, pending)))
      else (case take_loop (needed - length (take needed pending)) ahead (drop needed pending) of
              (parts, left, pending') \<Rightarrow> (take needed pending # parts, left, pending')))"
  by pat_completeness auto
termination by (relation "measure fst") auto

declare take_loop.simps [simp del]

definition pf_take :: "nat \<Rightarrow> bytes list \<Rightarrow> prefetching_source \<Rightarrow> bytes \<times> prefetching_source" where
  "pf_take len ahead pf =
     (case take_loop len ahead (pf_pending pf) of
        (parts, left, pending) \<Rightarrow>
          (concat parts, pf\<lparr>pf_pieces := left, pf_pending := pending, pf_position := pf_position pf + length (concat parts)\<rparr>))"

definition pf_read_at :: "int \<Rightarrow> int \<Rightarrow> prefetching_source \<Rightarrow> bytes \<times> prefetching_source" where
  "pf_read_at offset len pf =
     (case pf_pieces pf of
        Some ahead \<Rightarrow>
          if offset = int (pf_position pf) \<and> 0 < len then pf_take (nat len) ahead pf
          else (read_at (pf_data pf) offset len, pf)
      | None \<Rightarrow> (read_at (pf_data pf) offset len, pf))"

section \<open>Inflating\<close>

record 'z zlib =
  z_new :: 'z
  z_decompress :: "'z \<Rightarrow> bytes \<Rightarrow> nat \<Rightarrow> bytes \<times> 'z"
  z_eof :: "'z \<Rightarrow> bool"
  z_unused :: "'z \<Rightarrow> bytes"
  z_tail :: "'z \<Rightarrow> bytes"

record 'z inflater =
  in_member :: 'z
  in_started :: bool

definition new_inflater :: "'z zlib \<Rightarrow> 'z inflater" where
  "new_inflater z = \<lparr>in_member = z_new z, in_started = False\<rparr>"

partial_function (option) inflater_drain :: "'z zlib \<Rightarrow> 'z \<Rightarrow> (bytes list \<times> 'z) option" where
  "inflater_drain z m =
     (case z_decompress z m [] PIECE_BYTES of
        (out, m) \<Rightarrow>
          if out = [] then Some ([], m)
          else Option.bind (inflater_drain z m) (\<lambda>(outs, m). Some (out # outs, m)))"

partial_function (option) inflater_feed :: "'z zlib \<Rightarrow> bytes \<Rightarrow> 'z inflater \<Rightarrow> (bytes list \<times> 'z inflater) option" where
  "inflater_feed z data st =
     (if data = [] then Some ([], st)
      else case z_decompress z (in_member st) data PIECE_BYTES of
        (out, m) \<Rightarrow>
          if z_eof z m
          then Option.bind (inflater_feed z (z_unused z m) \<lparr>in_member = z_new z, in_started = False\<rparr>)
                 (\<lambda>(outs, st). Some ((if out = [] then [] else [out]) @ outs, st))
          else if z_tail z m = []
          then Option.bind (inflater_drain z m)
                 (\<lambda>(outs, m). Some ((if out = [] then [] else [out]) @ outs, \<lparr>in_member = m, in_started = True\<rparr>))
          else Option.bind (inflater_feed z (z_tail z m) \<lparr>in_member = m, in_started = True\<rparr>)
                 (\<lambda>(outs, st). Some ((if out = [] then [] else [out]) @ outs, st)))"

definition inflater_finish :: "'z zlib \<Rightarrow> 'z inflater \<Rightarrow> unit result" where
  "inflater_finish z st = (if in_started st \<and> \<not> z_eof z (in_member st) then Inl CorruptionError else Inr ())"

fun inflate_chunks :: "'z zlib \<Rightarrow> bytes list \<Rightarrow> 'z inflater \<Rightarrow> (bytes list \<times> 'z inflater) option" where
  "inflate_chunks z [] st = Some ([], st)"
| "inflate_chunks z (chunk # chunks) st =
     Option.bind (inflater_feed z chunk st) (\<lambda>(out, st).
     Option.bind (inflate_chunks z chunks st) (\<lambda>(outs, st). Some (out @ outs, st)))"

text \<open>\<open>_decode\<close>: the pieces put into the channel of the caller, or the exception that fails the pipeline; \<open>None\<close> when it
  does not end.\<close>

definition decode_pieces :: "'z zlib \<Rightarrow> primitives \<Rightarrow> codec \<Rightarrow> stream_reader \<Rightarrow> bool \<Rightarrow> bytes list result option" where
  "decode_pieces z prim codec r check_spares =
     (case reader_chunks prim codec r check_spares of
        Inl (e, _, chunks) \<Rightarrow>
          if odd (sh_flags (rd_header r) div PAYLOAD_COMPRESSED)
          then Option.bind (inflate_chunks z chunks (new_inflater z)) (\<lambda>_. Some (Inl e)) else Some (Inl e)
      | Inr (_, chunks) \<Rightarrow>
          if odd (sh_flags (rd_header r) div PAYLOAD_COMPRESSED)
          then Option.bind (inflate_chunks z chunks (new_inflater z)) (\<lambda>(pieces, st).
                 Some (and_then (inflater_finish z st) (\<lambda>_. Inr pieces)))
          else Some (Inr chunks))"

section \<open>Reading ahead changes nothing\<close>

text \<open>
  While the range \<open>[position, stop)\<close> is being read ahead: what is pending and what the channel still gives is the file
  from the position to the end of the range.
\<close>

definition ahead_ok :: "nat \<Rightarrow> prefetching_source \<Rightarrow> bool" where
  "ahead_ok stop pf \<longleftrightarrow>
     (case pf_pieces pf of
        None \<Rightarrow> True
      | Some ahead \<Rightarrow> [] \<notin> set ahead \<and> pf_position pf \<le> stop \<and> stop \<le> length (pf_data pf) \<and>
          pf_pending pf @ concat ahead = drop (pf_position pf) (take stop (pf_data pf)))"

lemma PIECE_BYTES_pos: "0 < PIECE_BYTES"
  by (simp add: PIECE_BYTES_def)

lemma read_ahead_ok:
  "stop \<le> length data \<Longrightarrow> concat (read_ahead data offset stop) = drop offset (take stop data) \<and> [] \<notin> set (read_ahead data offset stop)"
proof (induction data offset stop rule: read_ahead.induct)
  case (1 data offset stop)
  show ?case
  proof (cases "stop \<le> offset")
    case True
    then show ?thesis by (simp add: read_ahead.simps)
  next
    case False
    define n where "n = min PIECE_BYTES (stop - offset)"
    have n: "0 < n" "offset + n \<le> stop" using False PIECE_BYTES_pos by (auto simp: n_def)
    have piece: "read_at data (int offset) (int n) = take n (drop offset data)" by (simp add: py_slice_def)
    have len: "length (take n (drop offset data)) = n" using n(2) "1.prems" by simp
    then have ne: "take n (drop offset data) \<noteq> []" using n(1) by (metis length_greater_0_conv)
    have step: "read_ahead data offset stop = take n (drop offset data) # read_ahead data (offset + n) stop"
      using False ne len piece by (subst read_ahead.simps) (simp add: Let_def n_def [symmetric])
    have ih: "concat (read_ahead data (offset + n) stop) = drop (offset + n) (take stop data) \<and> [] \<notin> set (read_ahead data (offset + n) stop)"
      using "1.IH" [OF False refl] ne len piece "1.prems" unfolding n_def [symmetric] by simp
    have "take n (drop offset data) @ drop (offset + n) (take stop data) = drop offset (take stop data)"
    proof -
      have "take n (drop offset (take stop data)) = take n (drop offset data)" using n(2) by (simp add: drop_take min_def)
      moreover have "drop (offset + n) (take stop data) = drop n (drop offset (take stop data))" by (simp add: add.commute)
      ultimately show ?thesis by (metis append_take_drop_id)
    qed
    then show ?thesis using step ih ne by simp
  qed
qed

lemma take_loop_ok:
  assumes "take_loop needed ahead pending = (parts, left, pending')" and "[] \<notin> set ahead"
  shows "concat parts = take needed (pending @ concat ahead) \<and>
    (case left of None \<Rightarrow> True | Some rest \<Rightarrow> [] \<notin> set rest \<and> pending' @ concat rest = drop needed (pending @ concat ahead))"
  using assms
proof (induction needed ahead pending arbitrary: parts left pending' rule: take_loop.induct)
  case (1 needed ahead pending)
  consider "needed = 0" | "needed \<noteq> 0" "pending = []" "ahead = []"
    | piece rest where "needed \<noteq> 0" "pending = []" "ahead = piece # rest" "piece \<noteq> []" | "needed \<noteq> 0" "pending \<noteq> []"
    using "1.prems"(2) by (cases ahead) auto
  then show ?case
  proof cases
    case 1
    then show ?thesis using "1.prems" by (auto simp: take_loop.simps)
  next
    case 2
    then show ?thesis using "1.prems" by (auto simp: take_loop.simps)
  next
    case (3 piece rest)
    obtain ps where ps: "take_loop (needed - length (take needed piece)) rest (drop needed piece) = (ps, left, pending')"
        "parts = take needed piece # ps"
      using "1.prems"(1) 3 by (subst (asm) take_loop.simps) (auto split: prod.splits)
    have "concat ps = take (needed - length (take needed piece)) (drop needed piece @ concat rest) \<and>
      (case left of None \<Rightarrow> True | Some r \<Rightarrow> [] \<notin> set r \<and> pending' @ concat r = drop (needed - length (take needed piece)) (drop needed piece @ concat rest))"
      using "1.IH"(1) [OF 3(1,2,3,4) ps(1)] "1.prems"(2) 3 by simp
    then show ?thesis using ps(2) 3 by (cases "length piece \<le> needed") (simp_all split: option.splits)
  next
    case 4
    obtain ps where ps: "take_loop (needed - length (take needed pending)) ahead (drop needed pending) = (ps, left, pending')"
        "parts = take needed pending # ps"
      using "1.prems"(1) 4 by (subst (asm) take_loop.simps) (auto split: prod.splits)
    have "concat ps = take (needed - length (take needed pending)) (drop needed pending @ concat ahead) \<and>
      (case left of None \<Rightarrow> True | Some r \<Rightarrow> [] \<notin> set r \<and> pending' @ concat r = drop (needed - length (take needed pending)) (drop needed pending @ concat ahead))"
      using "1.IH"(2) [OF 4(1,2) ps(1)] "1.prems"(2) by simp
    then show ?thesis using ps(2) by (cases "length pending \<le> needed") (simp_all split: option.splits)
  qed
qed

text \<open>A read that does not run over the end of the range read ahead, unless that is the end of the file.\<close>

definition read_inside :: "nat \<Rightarrow> bytes \<Rightarrow> int \<times> int \<Rightarrow> bool" where
  "read_inside stop data rd \<longleftrightarrow> (case rd of (offset, len) \<Rightarrow>
     len \<le> 0 \<or> offset + len \<le> int stop \<or> int stop < offset \<or> length data \<le> stop)"

lemma pf_read_at_ok:
  assumes ok: "ahead_ok (min stop (length (pf_data pf))) pf" and inside: "read_inside stop (pf_data pf) (offset, len)"
  shows "fst (pf_read_at offset len pf) = read_at (pf_data pf) offset len \<and>
    pf_data (snd (pf_read_at offset len pf)) = pf_data pf \<and> ahead_ok (min stop (length (pf_data pf))) (snd (pf_read_at offset len pf))"
proof (cases "pf_pieces pf")
  case None
  then show ?thesis using ok by (simp add: pf_read_at_def)
next
  case (Some ahead)
  let ?stop = "min stop (length (pf_data pf))" and ?pos = "pf_position pf"
  show ?thesis
  proof (cases "offset = int ?pos \<and> 0 < len")
    case False
    then show ?thesis using ok Some by (auto simp: pf_read_at_def)
  next
    case True
    define n where "n = nat len"
    have n: "len = int n" "0 < n" using True by (auto simp: n_def)
    have A: "[] \<notin> set ahead" "?pos \<le> ?stop" "pf_pending pf @ concat ahead = drop ?pos (take ?stop (pf_data pf))"
      using ok Some by (auto simp: ahead_ok_def)
    obtain parts left pending where loop: "take_loop n ahead (pf_pending pf) = (parts, left, pending)" by (metis prod_cases3)
    have L: "concat parts = take n (drop ?pos (take ?stop (pf_data pf)))"
        "\<And>rest. left = Some rest \<Longrightarrow> [] \<notin> set rest \<and> pending @ concat rest = drop n (drop ?pos (take ?stop (pf_data pf)))"
      using take_loop_ok [OF loop A(1)] unfolding A(3) by auto
    have read: "read_at (pf_data pf) offset len = take n (drop ?pos (pf_data pf))"
      using True n by (simp add: py_slice_def)
    have short: "take n (drop ?pos (take ?stop (pf_data pf))) = take n (drop ?pos (pf_data pf))"
      using inside True n A(2) by (auto simp: read_inside_def drop_take min_def)
    have "left = Some rest \<Longrightarrow> ?pos + length (concat parts) = min (?pos + n) ?stop" for rest
    proof -
      have "length (concat parts) = min n (?stop - ?pos)" unfolding L(1) using A(2) by (simp add: min.commute)
      then show ?thesis using A(2) by linarith
    qed
    moreover have "drop n (drop ?pos (take ?stop (pf_data pf))) = drop (min (?pos + n) ?stop) (take ?stop (pf_data pf))"
      using A(2) by (simp add: min_def add.commute)
    ultimately have "ahead_ok ?stop (snd (pf_take n ahead pf))"
      using loop L by (auto simp: pf_take_def ahead_ok_def split: option.splits)
    then show ?thesis using True Some loop L(1) read short n by (simp add: pf_read_at_def pf_take_def)
  qed
qed

section \<open>What zlib is relied on for\<close>

text \<open>
  \<open>owes m rest out\<close>: the object \<open>m\<close> still needs the input \<open>rest\<close> to complete its member and will then have given
  \<open>out\<close>. It takes input in order, gives at most what it is asked for, leaves input over only when it could not give
  more, reports the end of the member with what follows it, and has nothing to give only when it needs more input.
\<close>

definition zlib_ok :: "'z zlib \<Rightarrow> (bytes \<Rightarrow> bytes) \<Rightarrow> ('z \<Rightarrow> bytes \<Rightarrow> bytes \<Rightarrow> bool) \<Rightarrow> bool" where
  "zlib_ok z deflate owes \<longleftrightarrow>
     (\<forall>d. deflate d \<noteq> [] \<and> owes (z_new z) (deflate d) d) \<and> \<not> z_eof z (z_new z) \<and>
     (\<forall>m data n. z_eof z m \<longrightarrow> fst (z_decompress z m data n) = [] \<and>
        z_eof z (snd (z_decompress z m data n)) \<and> z_unused z (snd (z_decompress z m data n)) = z_unused z m @ data) \<and>
     (\<forall>m rest out data n o1 m1. owes m rest out \<longrightarrow> \<not> z_eof z m \<longrightarrow> prefix data rest \<or> prefix rest data \<longrightarrow> 0 < n \<longrightarrow>
        z_decompress z m data n = (o1, m1) \<longrightarrow>
        (\<exists>out1. out = o1 @ out1 \<and>
          (if z_eof z m1 then out1 = [] \<and> data = rest @ z_unused z m1
           else \<exists>used rest1. data = used @ z_tail z m1 \<and> rest = used @ rest1 \<and> owes m1 rest1 out1 \<and>
             (o1 = [] \<longrightarrow> z_tail z m1 = [] \<and> rest1 \<noteq> []))))"

text \<open>
  Between two calls of \<open>feed\<close>: no member is begun, the last one has ended, or the one at work needs more input.
  \<open>S\<close> is the input still to come and \<open>out\<close> what is still to be given.
\<close>

definition inflater_state ::
  "'z zlib \<Rightarrow> (bytes \<Rightarrow> bytes) \<Rightarrow> ('z \<Rightarrow> bytes \<Rightarrow> bytes \<Rightarrow> bool) \<Rightarrow> 'z inflater \<Rightarrow> bytes \<Rightarrow> bytes \<Rightarrow> bool" where
  "inflater_state z deflate owes st S out \<longleftrightarrow>
     (if in_started st
      then if z_eof z (in_member st)
           then z_unused z (in_member st) = [] \<and> (\<exists>ds. S = concat (map deflate ds) \<and> out = concat ds)
           else \<exists>rest out1 ds. rest \<noteq> [] \<and> owes (in_member st) rest out1 \<and> S = rest @ concat (map deflate ds) \<and> out = out1 @ concat ds
      else in_member st = z_new z \<and> (\<exists>ds. S = concat (map deflate ds) \<and> out = concat ds))"

text \<open>Inside the loop of \<open>feed\<close>, with input left.\<close>

definition feeding ::
  "'z zlib \<Rightarrow> (bytes \<Rightarrow> bytes) \<Rightarrow> ('z \<Rightarrow> bytes \<Rightarrow> bytes \<Rightarrow> bool) \<Rightarrow> 'z inflater \<Rightarrow> bytes \<Rightarrow> bytes \<Rightarrow> bool" where
  "feeding z deflate owes st S out \<longleftrightarrow>
     (if z_eof z (in_member st)
      then in_started st \<and> z_unused z (in_member st) = [] \<and> (\<exists>ds. S = concat (map deflate ds) \<and> out = concat ds)
      else \<exists>rest out1 ds. (\<not> in_started st \<longrightarrow> rest \<noteq> []) \<and> owes (in_member st) rest out1 \<and>
        S = rest @ concat (map deflate ds) \<and> out = out1 @ concat ds)"

locale zlib_stream =
  fixes z :: "'z zlib" and deflate :: "bytes \<Rightarrow> bytes" and owes :: "'z \<Rightarrow> bytes \<Rightarrow> bytes \<Rightarrow> bool"
  assumes ok: "zlib_ok z deflate owes"
begin

lemma fresh: "deflate d \<noteq> []" "owes (z_new z) (deflate d) d" "\<not> z_eof z (z_new z)"
  using ok unfolding zlib_ok_def by blast+

lemma z_ended:
  "z_eof z m \<Longrightarrow> z_decompress z m data n = (o1, m1) \<Longrightarrow> o1 = [] \<and> z_eof z m1 \<and> z_unused z m1 = z_unused z m @ data"
  using ok unfolding zlib_ok_def by (metis fst_conv snd_conv)

lemma stepped:
  assumes "owes m rest out" "\<not> z_eof z m" "prefix data rest \<or> prefix rest data" "z_decompress z m data PIECE_BYTES = (o1, m1)"
  obtains (ended) "out = o1" "z_eof z m1" "data = rest @ z_unused z m1"
    | (more) out1 used rest1 where "out = o1 @ out1" "\<not> z_eof z m1" "data = used @ z_tail z m1" "rest = used @ rest1"
      "owes m1 rest1 out1" "o1 = [] \<longrightarrow> z_tail z m1 = [] \<and> rest1 \<noteq> []"
proof -
  have step: "\<exists>out1. out = o1 @ out1 \<and>
          (if z_eof z m1 then out1 = [] \<and> data = rest @ z_unused z m1
           else \<exists>used rest1. data = used @ z_tail z m1 \<and> rest = used @ rest1 \<and> owes m1 rest1 out1 \<and>
             (o1 = [] \<longrightarrow> z_tail z m1 = [] \<and> rest1 \<noteq> []))"
    using ok assms PIECE_BYTES_pos unfolding zlib_ok_def by blast
  then obtain out1 where out1: "out = o1 @ out1"
      "if z_eof z m1 then out1 = [] \<and> data = rest @ z_unused z m1
       else \<exists>used rest1. data = used @ z_tail z m1 \<and> rest = used @ rest1 \<and> owes m1 rest1 out1 \<and>
         (o1 = [] \<longrightarrow> z_tail z m1 = [] \<and> rest1 \<noteq> [])" by blast
  show thesis
  proof (cases "z_eof z m1")
    case True
    then show thesis using out1 that(1) by simp
  next
    case False
    then obtain used rest1 where "data = used @ z_tail z m1" "rest = used @ rest1" "owes m1 rest1 out1"
        "o1 = [] \<longrightarrow> z_tail z m1 = [] \<and> rest1 \<noteq> []"
      using out1(2) unfolding if_not_P [OF False] by blast
    then show thesis using that(2) out1(1) False by blast
  qed
qed

lemma drained:
  "owes m rest out \<Longrightarrow> \<not> z_eof z m \<Longrightarrow>
   \<exists>outs m1 out1. inflater_drain z m = Some (outs, m1) \<and> out = concat outs @ out1 \<and>
     (if z_eof z m1 then rest = [] \<and> out1 = [] \<and> z_unused z m1 = [] else rest \<noteq> [] \<and> owes m1 rest out1)"
proof (induction "length out" arbitrary: m out rule: less_induct)
  case less
  obtain o1 m1 where d: "z_decompress z m [] PIECE_BYTES = (o1, m1)" by fastforce
  have start: "prefix [] rest \<or> prefix rest []" by simp
  show ?case
  proof (cases rule: stepped [OF less.prems(1,2) start d])
    case 1
    obtain o2 m2 where d2: "z_decompress z m1 [] PIECE_BYTES = (o2, m2)" by fastforce
    have e2: "o2 = []" "z_eof z m2" "z_unused z m2 = z_unused z m1" using 1(2) d2 z_ended by auto
    show ?thesis
    proof (cases "o1 = []")
      case True
      then have "inflater_drain z m = Some ([], m1)" using d by (subst inflater_drain.simps) simp
      then show ?thesis using 1 True by auto
    next
      case False
      have "inflater_drain z m1 = Some ([], m2)" using d2 e2 by (subst inflater_drain.simps) simp
      then have "inflater_drain z m = Some ([o1], m2)" using d False by (subst inflater_drain.simps) simp
      then show ?thesis using 1 e2 by auto
    qed
  next
    case (2 out1 used rest1)
    then have r: "rest1 = rest" by simp
    show ?thesis
    proof (cases "o1 = []")
      case True
      then have "inflater_drain z m = Some ([], m1)" using d by (subst inflater_drain.simps) simp
      then show ?thesis using 2 r True by auto
    next
      case False
      then have "length out1 < length out" using 2(1) by simp
      moreover have "owes m1 rest out1" using 2(5) unfolding r .
      ultimately obtain outs m2 out2 where IH: "inflater_drain z m1 = Some (outs, m2)"
          "out1 = concat outs @ out2"
          "if z_eof z m2 then rest = [] \<and> out2 = [] \<and> z_unused z m2 = [] else rest \<noteq> [] \<and> owes m2 rest out2"
        using less.hyps [of out1 m1] 2(2) by blast
      have "inflater_drain z m = Some (o1 # outs, m2)" using d False IH(1) by (subst inflater_drain.simps) simp
      then show ?thesis using IH(2,3) 2(1) by (intro exI [of _ "o1 # outs"] exI [of _ m2] exI [of _ out2]) simp
    qed
  qed
qed

lemma no_input_left: "concat (map deflate ds) = [] \<Longrightarrow> ds = []"
  using fresh(1) by (cases ds) auto

lemma state_feeding:
  assumes "inflater_state z deflate owes st (data @ S) out" "data \<noteq> []"
  shows "feeding z deflate owes st (data @ S) out"
proof (cases "in_started st")
  case True
  then show ?thesis using assms by (auto simp: inflater_state_def feeding_def split: if_splits)
next
  case False
  then obtain ds where ds: "in_member st = z_new z" "data @ S = concat (map deflate ds)" "out = concat ds"
    using assms(1) by (auto simp: inflater_state_def)
  then obtain d ds' where "ds = d # ds'" using assms(2) by (cases ds) auto
  then show ?thesis using ds fresh by (auto simp: feeding_def)
qed

lemma state_new: "inflater_state z deflate owes \<lparr>in_member = z_new z, in_started = False\<rparr> (concat (map deflate ds)) (concat ds)"
  by (auto simp: inflater_state_def)

lemma feed_ok:
  "data \<noteq> [] \<Longrightarrow> feeding z deflate owes st (data @ S) out \<Longrightarrow>
   \<exists>outs st1 out1. inflater_feed z data st = Some (outs, st1) \<and> out = concat outs @ out1 \<and> inflater_state z deflate owes st1 S out1"
proof (induction "2 * (length data + length out) + (if in_started st then 1 else 0)" arbitrary: data st out rule: less_induct)
  case less
  define m where "m = in_member st"
  obtain o1 m1 where d: "z_decompress z m data PIECE_BYTES = (o1, m1)" by fastforce
  let ?new = "\<lparr>in_member = z_new z, in_started = False\<rparr>" and ?put = "if o1 = [] then [] else [o1]"
  have put: "concat ?put = o1" by simp
  have ended_here: "\<exists>outs st1 out1. inflater_feed z data st = Some (outs, st1) \<and> out = concat outs @ out1 \<and>
      inflater_state z deflate owes st1 S out1"
    if eof: "z_eof z m1" and split: "z_unused z m1 @ S = concat (map deflate ds)" "out = o1 @ concat ds"
      and small: "length (z_unused z m1) < length data \<or> (length (z_unused z m1) = length data \<and> in_started st)" for ds
  proof -
    have feed: "inflater_feed z data st = Option.bind (inflater_feed z (z_unused z m1) ?new) (\<lambda>(outs, st). Some (?put @ outs, st))"
      using less.prems(1) d eof by (subst inflater_feed.simps) (simp add: m_def)
    show ?thesis
    proof (cases "z_unused z m1 = []")
      case True
      then have "inflater_feed z (z_unused z m1) ?new = Some ([], ?new)" by (subst inflater_feed.simps) simp
      then have "inflater_feed z data st = Some (?put, ?new)" using feed by simp
      moreover have "inflater_state z deflate owes ?new S (concat ds)" using split(1) True state_new [of ds] by simp
      ultimately show ?thesis using split(2) put
        by (intro exI [of _ ?put] exI [of _ ?new] exI [of _ "concat ds"]) simp
    next
      case False
      have "inflater_state z deflate owes ?new (z_unused z m1 @ S) (concat ds)" using split(1) state_new [of ds] by simp
      then have "feeding z deflate owes ?new (z_unused z m1 @ S) (concat ds)" using False by (rule state_feeding)
      moreover have "2 * (length (z_unused z m1) + length (concat ds)) + (if in_started ?new then 1 else 0)
          < 2 * (length data + length out) + (if in_started st then 1 else 0)"
        using small split(2) by auto
      ultimately obtain outs st1 out1 where "inflater_feed z (z_unused z m1) ?new = Some (outs, st1)" "concat ds = concat outs @ out1"
          "inflater_state z deflate owes st1 S out1"
        using less.hyps False by blast
      then show ?thesis using feed split(2) put
        by (intro exI [of _ "?put @ outs"] exI [of _ st1] exI [of _ out1]) (simp del: if_splits)
    qed
  qed
  show ?case
  proof (cases "z_eof z m")
    case True
    then have st: "in_started st" "z_unused z m = []" and "\<exists>ds. data @ S = concat (map deflate ds) \<and> out = concat ds"
      using less.prems(2) by (auto simp: feeding_def m_def)
    moreover have "o1 = []" "z_eof z m1" "z_unused z m1 = data" using z_ended [OF True d] st(2) by auto
    ultimately show ?thesis using ended_here by auto
  next
    case False
    then obtain rest out1 ds where S: "\<not> in_started st \<longrightarrow> rest \<noteq> []" "owes m rest out1"
        "data @ S = rest @ concat (map deflate ds)" "out = out1 @ concat ds"
      using less.prems(2) by (auto simp: feeding_def m_def)
    have cmp: "prefix data rest \<or> prefix rest data" using S(3) by (metis prefixI prefix_same_cases)
    show ?thesis
    proof (cases rule: stepped [OF S(2) False cmp d])
      case 1
      then have "z_unused z m1 @ S = concat (map deflate ds)" using S(3) by simp
      moreover have "length (z_unused z m1) < length data \<or> (length (z_unused z m1) = length data \<and> in_started st)"
        using 1(3) S(1) by (cases "rest = []") auto
      ultimately show ?thesis using ended_here [OF 1(2)] 1(1) S(4) by simp
    next
      case (2 out2 used rest1)
      have rem: "z_tail z m1 @ S = rest1 @ concat (map deflate ds)" using S(3) unfolding 2(3,4) by simp
      show ?thesis
      proof (cases "z_tail z m1 = []")
        case True
        obtain outs m2 out3 where drain: "inflater_drain z m1 = Some (outs, m2)" "out2 = concat outs @ out3"
            "if z_eof z m2 then rest1 = [] \<and> out3 = [] \<and> z_unused z m2 = [] else rest1 \<noteq> [] \<and> owes m2 rest1 out3"
          using drained [OF 2(5,2)] by blast
        let ?st = "\<lparr>in_member = m2, in_started = True\<rparr>"
        have feed: "inflater_feed z data st = Some (?put @ outs, ?st)"
          using less.prems(1) d 2(2) True drain(1) by (subst inflater_feed.simps) (simp add: m_def)
        have "inflater_state z deflate owes ?st S (out3 @ concat ds)"
          using drain(3) rem True by (cases "z_eof z m2") (auto simp: inflater_state_def)
        moreover have "out = concat (?put @ outs) @ (out3 @ concat ds)" using S(4) 2(1) drain(2) by simp
        ultimately show ?thesis using feed by blast
      next
        case tail: False
        then have o1: "o1 \<noteq> []" using 2(6) by blast
        let ?st = "\<lparr>in_member = m1, in_started = True\<rparr>"
        have "feeding z deflate owes ?st (z_tail z m1 @ S) (out2 @ concat ds)"
          using 2(2,5) rem by (auto simp: feeding_def)
        moreover have "2 * (length (z_tail z m1) + length (out2 @ concat ds)) + (if in_started ?st then 1 else 0)
            < 2 * (length data + length out) + (if in_started st then 1 else 0)"
          using o1 2(1,3) S(4) by (cases o1) auto
        ultimately obtain outs st1 out4 where "inflater_feed z (z_tail z m1) ?st = Some (outs, st1)"
            "out2 @ concat ds = concat outs @ out4" "inflater_state z deflate owes st1 S out4"
          using less.hyps tail by blast
        moreover have "inflater_feed z data st = Option.bind (inflater_feed z (z_tail z m1) ?st) (\<lambda>(outs, st). Some (?put @ outs, st))"
          using less.prems(1) d 2(2) tail by (subst inflater_feed.simps) (simp add: m_def)
        ultimately show ?thesis using S(4) 2(1) o1
          by (intro exI [of _ "?put @ outs"] exI [of _ st1] exI [of _ out4]) simp
      qed
    qed
  qed
qed

lemma feed_state:
  assumes "inflater_state z deflate owes st (data @ S) out"
  shows "\<exists>outs st1 out1. inflater_feed z data st = Some (outs, st1) \<and> out = concat outs @ out1 \<and> inflater_state z deflate owes st1 S out1"
proof (cases "data = []")
  case True
  then have "inflater_feed z data st = Some ([], st)" by (subst inflater_feed.simps) simp
  then show ?thesis using assms True by (intro exI [of _ "[]"] exI [of _ st] exI [of _ out]) simp
qed (use feed_ok [OF _ state_feeding [OF assms]] in simp)

lemma chunks_state:
  "inflater_state z deflate owes st (concat chunks @ S) out \<Longrightarrow>
   \<exists>outs st1 out1. inflate_chunks z chunks st = Some (outs, st1) \<and> out = concat outs @ out1 \<and> inflater_state z deflate owes st1 S out1"
proof (induction chunks arbitrary: st out)
  case (Cons chunk chunks)
  obtain outs st1 out1 where f: "inflater_feed z chunk st = Some (outs, st1)" "out = concat outs @ out1"
      "inflater_state z deflate owes st1 (concat chunks @ S) out1"
    using feed_state [of st chunk "concat chunks @ S" out] Cons.prems by auto
  obtain outs2 st2 out2 where "inflate_chunks z chunks st1 = Some (outs2, st2)" "out1 = concat outs2 @ out2"
      "inflater_state z deflate owes st2 S out2"
    using Cons.IH [OF f(3)] by blast
  then show ?case using f(1,2) by (intro exI [of _ "outs @ outs2"] exI [of _ st2] exI [of _ out2]) simp
qed auto

lemma inflated_all:
  assumes "concat chunks = concat (map deflate ds)"
  shows "\<exists>outs st. inflate_chunks z chunks (new_inflater z) = Some (outs, st) \<and> concat outs = concat ds \<and> inflater_finish z st = Inr ()"
proof -
  have "inflater_state z deflate owes (new_inflater z) (concat chunks @ []) (concat ds)"
    using state_new [of ds] assms by (simp add: new_inflater_def)
  then obtain outs st out where c: "inflate_chunks z chunks (new_inflater z) = Some (outs, st)" "concat ds = concat outs @ out"
      "inflater_state z deflate owes st [] out"
    using chunks_state by blast
  have "out = [] \<and> inflater_finish z st = Inr ()"
  proof (cases "in_started st \<and> \<not> z_eof z (in_member st)")
    case True
    then show ?thesis using c(3) by (auto simp: inflater_state_def)
  next
    case False
    then have "\<exists>ds. [] = concat (map deflate ds) \<and> out = concat ds"
      using c(3) unfolding inflater_state_def by (cases "in_started st") simp_all
    then obtain es where es: "concat (map deflate es) = []" "out = concat es" by metis
    then show ?thesis using False no_input_left [OF es(1)] by (auto simp: inflater_finish_def)
  qed
  then show ?thesis using c by auto
qed

end

section \<open>A format with end marks\<close>

text \<open>
  What \<open>zlib_ok\<close> asks for can hold: each byte preceded by a mark, and an end mark. The decoder is given its input in any
  pieces and gives at most the number of bytes it is asked for.
\<close>

datatype marked_phase = Mark | Content | Complete

record marked =
  mk_phase :: marked_phase
  mk_unused :: bytes
  mk_tail :: bytes

fun marked_deflate :: "bytes \<Rightarrow> bytes" where
  "marked_deflate [] = [0]"
| "marked_deflate (b # bs) = 1 # b # marked_deflate bs"

fun marked_loop :: "marked_phase \<Rightarrow> bytes \<Rightarrow> nat \<Rightarrow> bytes \<times> marked_phase \<times> bytes" where
  "marked_loop Complete data n = ([], Complete, data)"
| "marked_loop Mark [] n = ([], Mark, [])"
| "marked_loop Content [] n = ([], Content, [])"
| "marked_loop Mark (b # data) n = (if b = 0 then ([], Complete, data) else marked_loop Content data n)"
| "marked_loop Content (b # data) 0 = ([], Content, b # data)"
| "marked_loop Content (b # data) (Suc n) = (case marked_loop Mark data n of (out, ph, left) \<Rightarrow> (b # out, ph, left))"

definition marked_decompress :: "marked \<Rightarrow> bytes \<Rightarrow> nat \<Rightarrow> bytes \<times> marked" where
  "marked_decompress m data n =
     (case marked_loop (mk_phase m) data n of
        (out, ph, left) \<Rightarrow>
          (out, if ph = Complete then \<lparr>mk_phase = ph, mk_unused = mk_unused m @ left, mk_tail = []\<rparr>
                else \<lparr>mk_phase = ph, mk_unused = [], mk_tail = left\<rparr>))"

definition marked_zlib :: "marked zlib" where
  "marked_zlib =
     \<lparr>z_new = \<lparr>mk_phase = Mark, mk_unused = [], mk_tail = []\<rparr>, z_decompress = marked_decompress,
      z_eof = (\<lambda>m. mk_phase m = Complete), z_unused = mk_unused, z_tail = mk_tail\<rparr>"

fun phase_owes :: "marked_phase \<Rightarrow> bytes \<Rightarrow> bytes \<Rightarrow> bool" where
  "phase_owes Mark rest out \<longleftrightarrow> rest = marked_deflate out"
| "phase_owes Content rest out \<longleftrightarrow> (\<exists>b out1. out = b # out1 \<and> rest = b # marked_deflate out1)"
| "phase_owes Complete rest out \<longleftrightarrow> False"

definition marked_owes :: "marked \<Rightarrow> bytes \<Rightarrow> bytes \<Rightarrow> bool" where
  "marked_owes m rest out \<longleftrightarrow> mk_unused m = [] \<and> phase_owes (mk_phase m) rest out"

lemma phase_owes_rest: "phase_owes ph rest out \<Longrightarrow> rest \<noteq> []"
  by (cases ph; cases out) auto

lemma marked_loop_ok:
  "phase_owes ph rest out \<Longrightarrow> prefix data rest \<or> prefix rest data \<Longrightarrow> marked_loop ph data n = (o1, ph1, left) \<Longrightarrow>
   \<exists>out1. out = o1 @ out1 \<and>
     (if ph1 = Complete then out1 = [] \<and> data = rest @ left
      else \<exists>used rest1. data = used @ left \<and> rest = used @ rest1 \<and> phase_owes ph1 rest1 out1 \<and> (left \<noteq> [] \<longrightarrow> length o1 = n))"
proof (induction ph data n arbitrary: rest out o1 ph1 left rule: marked_loop.induct)
  case (2 n)
  then show ?case by (intro exI [of _ out]) auto
next
  case (3 n)
  then show ?case by (intro exI [of _ out]) auto
next
  case (4 b data n)
  show ?case
  proof (cases out)
    case Nil
    then show ?thesis using 4 by auto
  next
    case (Cons c cs)
    then have r: "rest = 1 # c # marked_deflate cs" "b \<noteq> 0" using 4(2,3) by auto
    have "phase_owes Content (c # marked_deflate cs) out" using Cons by simp
    moreover have "prefix data (c # marked_deflate cs) \<or> prefix (c # marked_deflate cs) data" using 4(3) r by auto
    moreover have "marked_loop Content data n = (o1, ph1, left)" using 4(4) r(2) by simp
    ultimately obtain out1 where o: "out = o1 @ out1"
        "if ph1 = Complete then out1 = [] \<and> data = (c # marked_deflate cs) @ left
         else \<exists>used rest1. data = used @ left \<and> c # marked_deflate cs = used @ rest1 \<and> phase_owes ph1 rest1 out1 \<and> (left \<noteq> [] \<longrightarrow> length o1 = n)"
      using 4(1) [OF r(2)] by blast
    have b: "b = 1" using 4(3) r by auto
    show ?thesis
    proof (cases "ph1 = Complete")
      case True
      then show ?thesis using o r b by simp
    next
      case False
      then obtain used rest1 where "data = used @ left" "c # marked_deflate cs = used @ rest1" "phase_owes ph1 rest1 out1"
          "left \<noteq> [] \<longrightarrow> length o1 = n" using o(2) by auto
      then show ?thesis using False o(1) r b by (intro exI [of _ out1]) (auto intro!: exI [of _ "1 # used"])
    qed
  qed
next
  case (5 b data)
  then show ?case by (intro exI [of _ out]) auto
next
  case (6 b data n)
  obtain cs where cs: "out = b # cs" "rest = b # marked_deflate cs" using 6(2,3) by auto
  obtain o2 where o2: "marked_loop Mark data n = (o2, ph1, left)" "o1 = b # o2"
    using 6(4) by (auto split: prod.splits)
  have "phase_owes Mark (marked_deflate cs) cs" by simp
  moreover have "prefix data (marked_deflate cs) \<or> prefix (marked_deflate cs) data" using 6(3) cs by auto
  ultimately obtain out1 where o: "cs = o2 @ out1"
      "if ph1 = Complete then out1 = [] \<and> data = marked_deflate cs @ left
       else \<exists>used rest1. data = used @ left \<and> marked_deflate cs = used @ rest1 \<and> phase_owes ph1 rest1 out1 \<and> (left \<noteq> [] \<longrightarrow> length o2 = n)"
    using 6(1) o2(1) by blast
  show ?case
  proof (cases "ph1 = Complete")
    case True
    then show ?thesis using o o2 cs by simp
  next
    case False
    then obtain used rest1 where "data = used @ left" "marked_deflate cs = used @ rest1" "phase_owes ph1 rest1 out1"
        "left \<noteq> [] \<longrightarrow> length o2 = n" using o(2) by auto
    then show ?thesis using False o(1) o2(2) cs by (intro exI [of _ out1]) (auto intro!: exI [of _ "b # used"])
  qed
qed auto

lemma marked_step:
  assumes "marked_owes m rest out" "prefix data rest \<or> prefix rest data" "0 < n" "marked_decompress m data n = (o1, m1)"
  shows "\<exists>out1. out = o1 @ out1 \<and>
    (if mk_phase m1 = Complete then out1 = [] \<and> data = rest @ mk_unused m1
     else \<exists>used rest1. data = used @ mk_tail m1 \<and> rest = used @ rest1 \<and> marked_owes m1 rest1 out1 \<and>
       (o1 = [] \<longrightarrow> mk_tail m1 = [] \<and> rest1 \<noteq> []))"
proof -
  obtain ph left where loop: "marked_loop (mk_phase m) data n = (o1, ph, left)"
      "m1 = (if ph = Complete then \<lparr>mk_phase = ph, mk_unused = mk_unused m @ left, mk_tail = []\<rparr>
             else \<lparr>mk_phase = ph, mk_unused = [], mk_tail = left\<rparr>)"
    using assms(4) by (auto simp: marked_decompress_def split: prod.splits)
  have m: "mk_unused m = []" "phase_owes (mk_phase m) rest out" using assms(1) by (simp_all add: marked_owes_def)
  obtain out1 where out1: "out = o1 @ out1"
      "if ph = Complete then out1 = [] \<and> data = rest @ left
       else \<exists>used rest1. data = used @ left \<and> rest = used @ rest1 \<and> phase_owes ph rest1 out1 \<and> (left \<noteq> [] \<longrightarrow> length o1 = n)"
    using marked_loop_ok [OF m(2) assms(2) loop(1)] by blast
  show ?thesis
  proof (cases "ph = Complete")
    case True
    then show ?thesis using out1 loop(2) m(1) by simp
  next
    case False
    then obtain used rest1 where u: "data = used @ left" "rest = used @ rest1" "phase_owes ph rest1 out1"
        "left \<noteq> [] \<longrightarrow> length o1 = n" using out1(2) by auto
    moreover have "rest1 \<noteq> []" by (rule phase_owes_rest [OF u(3)])
    moreover have "o1 = [] \<longrightarrow> left = []" using u(4) assms(3) by auto
    moreover have "mk_phase m1 \<noteq> Complete" "mk_tail m1 = left" "marked_owes m1 rest1 out1"
      using loop(2) False u(3) by (simp_all add: marked_owes_def)
    ultimately have "\<exists>used rest1. data = used @ mk_tail m1 \<and> rest = used @ rest1 \<and> marked_owes m1 rest1 out1 \<and>
        (o1 = [] \<longrightarrow> mk_tail m1 = [] \<and> rest1 \<noteq> [])"
      by blast
    then show ?thesis using out1(1) \<open>mk_phase m1 \<noteq> Complete\<close> by (intro exI [of _ out1]) simp
  qed
qed

lemma marked_fields:
  "z_new marked_zlib = \<lparr>mk_phase = Mark, mk_unused = [], mk_tail = []\<rparr>" "z_decompress marked_zlib = marked_decompress"
  "z_eof marked_zlib m \<longleftrightarrow> mk_phase m = Complete" "z_unused marked_zlib = mk_unused" "z_tail marked_zlib = mk_tail"
  by (simp_all add: marked_zlib_def)

lemma marked_zlib_ok: "zlib_ok marked_zlib marked_deflate marked_owes"
  unfolding zlib_ok_def marked_fields
proof (intro conjI allI impI)
  show "marked_deflate d \<noteq> []" for d by (cases d) simp_all
  show "marked_owes \<lparr>mk_phase = Mark, mk_unused = [], mk_tail = []\<rparr> (marked_deflate d) d" for d by (simp add: marked_owes_def)
qed (use marked_step in \<open>simp_all add: marked_decompress_def\<close>)

interpretation marked: zlib_stream marked_zlib marked_deflate marked_owes
  by unfold_locales (rule marked_zlib_ok)

section \<open>Properties\<close>

fun pf_reads :: "(int \<times> int) list \<Rightarrow> prefetching_source \<Rightarrow> bytes list" where
  "pf_reads [] pf = []"
| "pf_reads ((offset, len) # rds) pf = (case pf_read_at offset len pf of (bs, pf) \<Rightarrow> bs # pf_reads rds pf)"

lemma pf_reads_ok:
  "ahead_ok (min stop (length (pf_data pf))) pf \<Longrightarrow> list_all (read_inside stop (pf_data pf)) rds \<Longrightarrow>
   pf_reads rds pf = map (\<lambda>(offset, len). read_at (pf_data pf) offset len) rds"
proof (induction rds arbitrary: pf)
  case (Cons rd rds)
  obtain offset len where rd: "rd = (offset, len)" by (cases rd)
  obtain bs pf1 where r: "pf_read_at offset len pf = (bs, pf1)" by fastforce
  have "read_inside stop (pf_data pf) (offset, len)" using Cons.prems(2) rd by simp
  from pf_read_at_ok [OF Cons.prems(1) this] r
  have "bs = read_at (pf_data pf) offset len" "pf_data pf1 = pf_data pf" "ahead_ok (min stop (length (pf_data pf))) pf1" by simp_all
  then show ?case using Cons.IH [of pf1] Cons.prems(2) rd r by simp
qed simp

definition new_source :: "bytes \<Rightarrow> prefetching_source" where
  "new_source data = \<lparr>pf_data = data, pf_pieces = None, pf_position = 0, pf_pending = []\<rparr>"

text \<open>
  Reading ahead changes nothing: while a range of the file is being read ahead, any sequence of reads that do not
  run over the end of that range, wherever they are, gives what the same reads of the file give.
\<close>

theorem reading_ahead_changes_nothing:
  assumes "start \<le> stop" and "start \<le> length data" and "list_all (read_inside stop data) rds"
  shows "pf_reads rds (prefetch start stop (new_source data)) = map (\<lambda>(offset, len). read_at data offset len) rds"
proof -
  let ?pf = "prefetch start stop (new_source data)"
  have data: "pf_data ?pf = data" by (simp add: prefetch_def new_source_def)
  have "ahead_ok (min stop (length (pf_data ?pf))) ?pf"
    using assms(1,2) read_ahead_ok [of "min stop (length data)" data start] unfolding data
    by (simp add: ahead_ok_def prefetch_def new_source_def)
  from pf_reads_ok [OF this, of rds] assms(3) show ?thesis unfolding data by simp
qed

lemma writer_init_flags:
  assumes "writer_init prim rnd passphrase kdf bs ns il workers flags = Inr w0"
  shows "sh_flags (sw_header w0) = nat flags"
  using assms unfolding writer_init_def Let_def and_then_def
  by (auto simp: writer_emit_def split: if_splits sum.splits prod.splits)

lemma payload_is_decoded:
  assumes "read_all prim codec r = Inr (payload_of compress deflate frames)"
    and "sh_flags (rd_header r) = (if compress then 1 else 0)" and "compress \<longrightarrow> zlib_ok z deflate owes"
  shows "\<exists>ps. decode_pieces z prim codec r False = Some (Inr ps) \<and> concat ps = concat frames"
proof -
  obtain report chunks where chunks: "reader_chunks prim codec r False = Inr (report, chunks)"
      "concat chunks = payload_of compress deflate frames"
    using assms(1) by (auto simp: read_all_def split: sum.splits prod.splits)
  show ?thesis
  proof (cases compress)
    case False
    then show ?thesis using chunks assms(2) by (simp add: decode_pieces_def PAYLOAD_COMPRESSED_def payload_of_def)
  next
    case True
    then have zs: "zlib_stream z deflate owes" using assms(3) by (simp add: zlib_stream_def)
    obtain ps st where "inflate_chunks z chunks (new_inflater z) = Some (ps, st)"
        "concat ps = concat (pieces SEGMENT_BYTES (concat frames))" "inflater_finish z st = Inr ()"
      using zlib_stream.inflated_all [OF zs, of chunks "pieces SEGMENT_BYTES (concat frames)"] chunks(2) True by (auto simp: payload_of_def)
    moreover have "concat (pieces SEGMENT_BYTES (concat frames)) = concat frames"
      by (rule concat_pieces) (simp add: SEGMENT_BYTES_def)
    ultimately show ?thesis using chunks(1) assms(2) True by (simp add: decode_pieces_def PAYLOAD_COMPRESSED_def)
  qed
qed

text \<open>
  C1: A backup is restored. Take a backup that produces its frames without an error, compressed or not, and let its
  threads write the container in whatever order they run. Whatever then happens to the file, as long as of each header,
  trailer and block one copy is intact and the checksums notice the damage to the others: with the passphrase the container
  opens, its payload is inflated, and the payload reader accepts it with every file, every record and the statistics of
  the backup.
\<close>

theorem backup_is_restored:
  assumes "produce js about listed_skipped sources allow models = Inr (frames, stats)"
    and "source_ok js about sources models"
    and "json_exact js (written_values js about sources models (trailer_of listed_skipped sources models))"
    and "aead_scheme (prim_enc prim) (prim_dec prim)" and "randomness_ok rnd"
    and "writer_init prim rnd passphrase kdf bs ns il workers (if compress then 1 else 0) = Inr w0"
    and "compress \<longrightarrow> zlib_ok z deflate owes"
    and "payload_blocks w0 (payload_of compress deflate frames) \<le> MAX_BLOCKS"
    and "(backup_step prim deflate (\<lambda>_ _. False) (\<lambda>_. False))\<^sup>*\<^sup>* (encoding_start compress w0 frames None) p"
    and "\<not> (\<exists>q. backup_step prim deflate (\<lambda>_ _. False) (\<lambda>_. False) p q)"
    and "ce_work (last (pl_cells p)) = Sinking file"
    and "survivable (prim_h16 prim) (sw_header w0) (payload_blocks w0 (payload_of compress deflate frames)) file src"
  shows "\<exists>r ps. open_reader prim codec src (Some passphrase) = Inr r \<and> decode_pieces z prim codec r False = Some (Inr ps) \<and>
    read_payload js ps = Inr (stats, map (source_outcome js) sources,
      map (\<lambda>b. Some (batch_records js b)) (concat (map snd models)))"
proof -
  let ?D = "payload_of compress deflate frames"
  obtain w s w' where w: "write_all prim [?D] w0 = Inr w" "writer_close prim w = (Inr s, w')" "sw_sink w' = file"
  proof -
    obtain w s w' trailer where W: "write_all prim [?D] w0 = Inr w" "writer_close prim w = (Inr s, w')"
        "trailer_seal (prim_h16 prim) (container_trailer prim (sw_header w0) (rnd_data_key rnd) (sw_sealed_header w0) ?D) = Inr trailer"
        "sw_sink w' = container_image prim (sw_header w0) (rnd_data_key rnd) (sw_sealed_header w0) trailer ?D"
      using stream_setting.written_container [OF writer_init_ok [OF assms(4-6)], of "[?D]"] assms(8) by auto
    have "sw_sink w' = file"
      using threads_write_image [OF assms(4-6,8-10)] W(3,4) assms(11) by auto
    then show thesis using that W(1,2) by blast
  qed
  have room: "payload_blocks w0 (concat [?D]) \<le> MAX_BLOCKS" using assms(8) by simp
  have src: "survivable (prim_h16 prim) (sw_header w0) (payload_blocks w0 (concat [?D])) (sw_sink w') src" using assms(12) w(3) by simp
  obtain r where r: "open_reader prim codec src (Some passphrase) = Inr r" "rd_header r = sw_header w0"
      "read_all prim codec r = Inr ?D"
    using reader_of_written [OF assms(4-6) room w(1,2) src, of codec] by auto
  have "sh_flags (rd_header r) = (if compress then 1 else 0)" using writer_init_flags [OF assms(6)] r(2) by simp
  then obtain ps where ps: "decode_pieces z prim codec r False = Some (Inr ps)" "concat ps = concat frames"
    using payload_is_decoded [OF r(3) _ assms(7)] by blast
  show ?thesis using r(1) ps(1) produced_is_read_back [OF assms(1) ps(2) assms(2,3)] by blast
qed

lemma length_chunks_of: "length (chunks_of cap data) \<le> Suc (length data)"
proof (induction cap data rule: chunks_of.induct)
  case (1 cap data)
  then show ?case by (cases "0 < cap \<and> cap < length data") (subst chunks_of.simps; auto)+
qed

lemma demo_frames_short: "length (concat (fst demo_output)) \<le> 1000"
proof -
  have "\<exists>x. produce demo_codec [(''created'', PStr ''2026-01-01'')] [] demo_sources True demo_models = Inr x \<and>
      length (concat (fst x)) \<le> 1000"
    unfolding produce_def demo_frames(1)
    by (simp add: json_frame_def frame_small demo_models_def demo_frames(2) demo_sources_def file_data_frame_def FILE_INDEX_def
        file_end_frame_def Let_def MAX_FILES_def frame_bytes_def PAYLOAD_MAGIC_def)
  then show ?thesis using demo_produced(1) by auto
qed

lemma length_marked [simp]: "length (marked_deflate d) = Suc (2 * length d)"
  by (induction d rule: marked_deflate.induct) simp_all

lemma demo_payload_short: "length (payload_of True marked_deflate (fst demo_output)) \<le> 2001"
proof (cases "concat (fst demo_output) = []")
  case False
  have "length (concat (fst demo_output)) < SEGMENT_BYTES" using demo_frames_short by (simp add: SEGMENT_BYTES_def)
  then have "payload_of True marked_deflate (fst demo_output) = marked_deflate (concat (fst demo_output))"
    using pieces_short [OF False] by (simp add: payload_of_def)
  then show ?thesis using demo_frames_short by simp
next
  case True
  then have "payload_of True marked_deflate (fst demo_output) = []"
    unfolding payload_of_def True by (simp add: pieces_unfold)
  then show ?thesis by simp
qed

lemma demo_compressing_writer:
  obtains w0 where "writer_init demo_primitives demo_randomness [1] None 512 16 4 None (if True then 1 else 0) = Inr w0"
proof -
  have "validate_untrusted (kdf_or_default None) = Inr ()"
    by (simp add: kdf_or_default_def default_kdf_params_def validate_untrusted_def kdf_validate_def KEY_LENGTH_def
        MAX_TIME_COST_def MAX_MEMORY_COST_def MAX_PARALLELISM_def MIN_KEY_LENGTH_def MAX_KEY_LENGTH_def
        UNTRUSTED_MAX_TIME_COST_def UNTRUSTED_MAX_MEMORY_COST_def UNTRUSTED_MAX_PARALLELISM_def)
  then show ?thesis
    using writer_init_total [OF demo_aead demo_randomness_ok demo_layout, of 1 None None "[1]"] that by auto
qed

theorem backup_is_restored_witness:
  "\<exists>w0 p file r ps.
    (backup_step demo_primitives marked_deflate (\<lambda>_ _. False) (\<lambda>_. False))\<^sup>*\<^sup>* (encoding_start True w0 (fst demo_output) None) p \<and>
    ce_work (last (pl_cells p)) = Sinking file \<and>
    open_reader demo_primitives nearest_codec (replicate 9 0 @ drop 9 file) (Some [1]) = Inr r \<and>
    decode_pieces marked_zlib demo_primitives nearest_codec r False = Some (Inr ps) \<and>
    read_payload demo_codec ps = Inr (snd demo_output, map (source_outcome demo_codec) demo_sources,
      [Some (batch_records demo_codec ([[7], [7]], 1))])"
proof -
  let ?D = "payload_of True marked_deflate (fst demo_output)"
  obtain w0 where w0: "writer_init demo_primitives demo_randomness [1] None 512 16 4 None (if True then 1 else 0) = Inr w0"
    by (rule demo_compressing_writer)
  note set = writer_init_ok [OF demo_aead demo_randomness_ok w0]
  have room: "payload_blocks w0 ?D \<le> MAX_BLOCKS"
    using length_chunks_of [of "chunk_capacity (sw_layout w0)" ?D] demo_payload_short by (simp add: MAX_BLOCKS_def MAX_CHUNKS_def)
  obtain p where p: "(backup_step demo_primitives marked_deflate (\<lambda>_ _. False) (\<lambda>_. False))\<^sup>*\<^sup>* (encoding_start True w0 (fst demo_output) None) p"
      "\<not> (\<exists>q. backup_step demo_primitives marked_deflate (\<lambda>_ _. False) (\<lambda>_. False) p q)"
    using terminal_exists by blast
  obtain trailer where t: "trailer_seal (prim_h16 demo_primitives) (container_trailer demo_primitives (sw_header w0) (rnd_data_key demo_randomness)
        (sw_sealed_header w0) ?D) = Inr trailer"
      "ce_work (last (pl_cells p)) = Sinking (container_image demo_primitives (sw_header w0) (rnd_data_key demo_randomness)
        (sw_sealed_header w0) trailer ?D)"
    using threads_write_image [OF demo_aead demo_randomness_ok w0 room p] by blast
  let ?file = "container_image demo_primitives (sw_header w0) (rnd_data_key demo_randomness) (sw_sealed_header w0) trailer ?D"
  have "length trailer = 100"
    by (rule trailer_seal_total [OF stream_setting.container_trailer_ok [OF set(1) room], of "prim_h16 demo_primitives"]) (use t(1) in simp)
  then have len: "length ?file = container_size (sw_layout w0) (payload_blocks w0 ?D)"
    by (rule stream_setting.container_image_length [OF set(1)])
  have src: "survivable (prim_h16 demo_primitives) (sw_header w0) (payload_blocks w0 ?D) ?file (replicate 9 0 @ drop 9 ?file)"
    by (rule wiped_front(4) [OF len]) simp_all
  have zlib: "True \<longrightarrow> zlib_ok marked_zlib marked_deflate marked_owes" by (simp add: marked_zlib_ok)
  obtain r ps where r: "open_reader demo_primitives nearest_codec (replicate 9 0 @ drop 9 ?file) (Some [1]) = Inr r"
      "decode_pieces marked_zlib demo_primitives nearest_codec r False = Some (Inr ps)"
      "read_payload demo_codec ps = Inr (snd demo_output, map (source_outcome demo_codec) demo_sources,
        map (\<lambda>b. Some (batch_records demo_codec b)) (concat (map snd demo_models)))"
    using backup_is_restored [OF demo_produced_pair demo_produced(2,3) demo_aead demo_randomness_ok w0 zlib room p t(2) src,
        of nearest_codec] by blast
  have "concat (map snd demo_models) = [([[7], [7]], 1)]" by (simp add: demo_models_def)
  then have "read_payload demo_codec ps = Inr (snd demo_output, map (source_outcome demo_codec) demo_sources,
      [Some (batch_records demo_codec ([[7], [7]], 1))])"
    using r(3) by simp
  then show ?thesis using p(1) t(2) r(1,2) by blast
qed

theorem reading_ahead_changes_nothing_witness:
  "pf_reads [(4, 2), (0, 3), (6, 0)] (prefetch 4 7 (new_source [1, 2, 3, 4, 5, 6, 7])) = [[5, 6], [1, 2, 3], []]"
proof -
  have "list_all (read_inside 7 [1, 2, 3, 4, 5, 6, 7 :: byte]) [(4, 2), (0, 3), (6, 0)]" by (simp add: read_inside_def)
  from reading_ahead_changes_nothing [OF _ _ this, of 4]
  have "pf_reads [(4, 2), (0, 3), (6, 0)] (prefetch 4 7 (new_source [1, 2, 3, 4, 5, 6, 7 :: byte])) =
      map (\<lambda>(offset, len). read_at [1, 2, 3, 4, 5, 6, 7] offset len) [(4, 2), (0, 3), (6, 0)]" by simp
  moreover have "map (\<lambda>(offset, len). read_at [1, 2, 3, 4, 5, 6, 7 :: byte] offset len) [(4, 2), (0, 3), (6, 0)] = [[5, 6], [1, 2, 3], []]"
    by code_simp
  ultimately show ?thesis by simp
qed

end
