(* ===== verification/RowBatches.thy ===== *)
theory RowBatches
  imports Frames "HOL-Library.AList"
begin

text \<open>
  How rows become batches of records, \<^verbatim>\<open>serialize_batches\<close> of \<^verbatim>\<open>src/dbs/serialize.py\<close>: pages of rows are read by key,
  each in a size that follows how large the rows turn out, and the encoded rows are collected into batches that fit a frame.
  A record is the list of its pieces. A query is a function: \<open>fetch last n\<close> are the first \<open>n\<close> rows whose key is above
  \<open>last\<close>; \<open>encode\<close> is what the serializer makes of a page.
\<close>

definition RECORD_BATCH_ROWS :: nat where "RECORD_BATCH_ROWS = 500"
definition RECORD_BATCH_BYTES :: nat where "RECORD_BATCH_BYTES = 8 * 1024 * 1024"
definition FETCH_BYTES_TARGET :: nat where "FETCH_BYTES_TARGET = 16 * 1024 * 1024"
definition SPLICED_VALUE_BYTES :: nat where "SPLICED_VALUE_BYTES = 1024 * 1024"

type_synonym encoded = "bytes list"

definition record_size :: "encoded \<Rightarrow> nat" where
  "record_size ps = sum_list (map length ps)"

section \<open>Framing a batch\<close>

fun splice_pieces :: "encoded \<Rightarrow> bytes list \<times> bytes \<Rightarrow> bytes list \<times> bytes" where
  "splice_pieces [] (ps, small) = (ps, small)"
| "splice_pieces (piece # rest) (ps, small) =
     (if length piece < SPLICED_VALUE_BYTES then splice_pieces rest (ps, small @ piece)
      else splice_pieces rest (ps @ [small, piece], []))"

fun splice_records :: "nat \<Rightarrow> encoded list \<Rightarrow> bytes list \<times> bytes \<Rightarrow> bytes list \<times> bytes" where
  "splice_records index [] st = st"
| "splice_records index (r # rest) (ps, small) =
     splice_records (index + 1) rest (splice_pieces r (ps, if index = 0 then small else small @ [44]))"

definition framed_records :: "encoded list \<Rightarrow> bytes list" where
  "framed_records batch =
     (let (ps, small) = splice_records 0 batch ([], [91])
      in filter (\<lambda>piece. piece \<noteq> []) (ps @ [small @ [93]]))"

text \<open>The bytes of a batch: the records between brackets, with commas.\<close>

fun with_commas :: "bytes list \<Rightarrow> bytes" where
  "with_commas [] = []"
| "with_commas [b] = b"
| "with_commas (b # bs) = b @ [44] @ with_commas bs"

lemma splice_pieces_concat:
  "splice_pieces r (ps, small) = (ps', small') \<Longrightarrow> concat ps' @ small' = concat ps @ small @ concat r"
  by (induction r "(ps, small)" arbitrary: ps small rule: splice_pieces.induct) (auto split: if_splits)

lemma splice_records_concat:
  "splice_records index rs (ps, small) = (ps', small') \<Longrightarrow>
   concat ps' @ small' = concat ps @ small @ (if rs = [] \<or> index = 0 then [] else [44]) @ with_commas (map concat rs)"
proof (induction rs arbitrary: index ps small)
  case (Cons r rs)
  obtain ps1 small1 where one: "splice_pieces r (ps, if index = 0 then small else small @ [44]) = (ps1, small1)" by fastforce
  note IH = Cons.IH [of "index + 1" ps1 small1] Cons.prems one splice_pieces_concat [OF one]
  show ?case using IH by (cases rs) (auto split: if_splits)
qed simp

lemma concat_filter_nonempty: "concat (filter (\<lambda>b. b \<noteq> []) bs) = concat bs"
  by (induction bs) auto

lemma framed_records_concat: "concat (framed_records batch) = [91] @ with_commas (map concat batch) @ [93]"
proof -
  obtain ps small where s: "splice_records 0 batch ([], [91]) = (ps, small)" by fastforce
  show ?thesis using splice_records_concat [OF s]
    by (simp add: framed_records_def s concat_filter_nonempty)
qed

lemma length_with_commas: "bs \<noteq> [] \<Longrightarrow> length (with_commas bs) = sum_list (map length bs) + length bs - 1"
  by (induction bs rule: with_commas.induct) auto

lemma length_framed_records:
  assumes "batch \<noteq> []"
  shows "length (concat (framed_records batch)) = sum_list (map record_size batch) + length batch + 1"
proof -
  have sizes: "map length (map concat batch) = map record_size batch" by (simp add: record_size_def length_concat)
  have "length (with_commas (map concat batch)) = sum_list (map record_size batch) + length batch - 1"
    using assms length_with_commas [of "map concat batch"] unfolding sizes by simp
  then show ?thesis using assms by (cases batch) (simp_all add: framed_records_concat)
qed

section \<open>Pages\<close>

record page_state =
  pg_max_rows :: nat
  pg_size :: nat

definition new_pages :: "bool \<Rightarrow> nat \<Rightarrow> page_state" where
  "new_pages heavy max_rows = \<lparr>pg_max_rows = max_rows, pg_size = (if heavy then 1 else max_rows)\<rparr>"

definition measured :: "nat \<Rightarrow> nat \<Rightarrow> page_state \<Rightarrow> page_state" where
  "measured encoded_bytes count pg =
     (let mean = max 1 (encoded_bytes div max 1 count)
      in pg\<lparr>pg_size := max 1 (min (pg_max_rows pg) (min (pg_size pg * 2) (FETCH_BYTES_TARGET div mean)))\<rparr>)"

section \<open>Batches\<close>

type_synonym batch_state = "encoded list \<times> nat"

fun batch_rows :: "nat option \<Rightarrow> nat \<Rightarrow> nat \<Rightarrow> encoded list \<Rightarrow> batch_state \<Rightarrow> ((bytes list \<times> nat) list \<times> batch_state) result" where
  "batch_rows limit most max_rows [] st = Inr ([], st)"
| "batch_rows limit most max_rows (ps # rest) (batch, so_far) =
     (let len = record_size ps
      in if (case limit of None \<Rightarrow> False | Some l \<Rightarrow> l < len + 2) then Inl BackupError
         else if batch \<noteq> [] \<and> (most < so_far + len + length batch + 2 \<or> max_rows \<le> length batch)
         then and_then (batch_rows limit most max_rows rest ([ps], len)) (\<lambda>(out, st).
                Inr ((framed_records batch, length batch) # out, st))
         else batch_rows limit most max_rows rest (batch @ [ps], so_far + len))"

text \<open>One page: it is encoded and measured, then its rows go into batches.\<close>

definition take_page ::
  "('r list \<Rightarrow> encoded list) \<Rightarrow> nat option \<Rightarrow> nat \<Rightarrow> 'r list \<Rightarrow> page_state \<Rightarrow> batch_state \<Rightarrow>
   page_state \<times> ((bytes list \<times> nat) list \<times> batch_state) result" where
  "take_page encode limit most chunk pg st =
     (measured (sum_list (map record_size (encode chunk))) (length chunk) pg,
      batch_rows limit most (pg_max_rows pg) (encode chunk) st)"

partial_function (option) keyset_loop ::
  "('k option \<Rightarrow> nat \<Rightarrow> 'r list) \<Rightarrow> ('r \<Rightarrow> 'k) \<Rightarrow> ('r list \<Rightarrow> encoded list) \<Rightarrow> nat option \<Rightarrow> nat \<Rightarrow>
   'k option \<Rightarrow> page_state \<Rightarrow> batch_state \<Rightarrow> ((bytes list \<times> nat) list \<times> batch_state) result option" where
  "keyset_loop fetch key encode limit most prev pg st =
     (let chunk = fetch prev (pg_size pg)
      in if chunk = [] then Some (Inr ([], st))
         else case take_page encode limit most chunk pg st of
           (pg', Inl e) \<Rightarrow> Some (Inl e)
         | (pg', Inr (out, st')) \<Rightarrow>
             if length chunk < pg_size pg then Some (Inr (out, st'))
             else Option.bind (keyset_loop fetch key encode limit most (Some (key (last chunk))) pg' st')
                    (\<lambda>r. Some (and_then r (\<lambda>(out', st'). Inr (out @ out', st')))))"

text \<open>A query that is sliced is iterated; a page is what has come when it is as long as the page size of the moment.\<close>

fun iterated_loop ::
  "('r list \<Rightarrow> encoded list) \<Rightarrow> nat option \<Rightarrow> nat \<Rightarrow> 'r list \<Rightarrow> 'r list \<Rightarrow> page_state \<Rightarrow> batch_state \<Rightarrow>
   ((bytes list \<times> nat) list \<times> batch_state) result" where
  "iterated_loop encode limit most [] chunk pg st =
     (if chunk = [] then Inr ([], st) else snd (take_page encode limit most chunk pg st))"
| "iterated_loop encode limit most (r # rs) chunk pg st =
     (if pg_size pg \<le> length (chunk @ [r])
      then (case take_page encode limit most (chunk @ [r]) pg st of (pg, res) \<Rightarrow>
              and_then res (\<lambda>(out, st). and_then (iterated_loop encode limit most rs [] pg st) (\<lambda>(out', st). Inr (out @ out', st))))
      else iterated_loop encode limit most rs (chunk @ [r]) pg st)"

datatype ('k, 'r) queryset = Keyset "'k option \<Rightarrow> nat \<Rightarrow> 'r list" "'r \<Rightarrow> 'k" | Sliced "'r list"

definition serialize_batches ::
  "('r list \<Rightarrow> encoded list) \<Rightarrow> bool \<Rightarrow> nat \<Rightarrow> nat option \<Rightarrow> nat \<Rightarrow> ('k, 'r) queryset \<Rightarrow> (bytes list \<times> nat) list result option" where
  "serialize_batches encode heavy max_rows limit budget q =
     (let most = (case limit of None \<Rightarrow> budget | Some l \<Rightarrow> min budget l);
          pg = new_pages heavy max_rows;
          finish = (\<lambda>r. and_then r (\<lambda>(out, batch, so_far). Inr (out @ (if batch = [] then [] else [(framed_records batch, length batch)]))))
      in case q of
           Keyset fetch key \<Rightarrow> map_option finish (keyset_loop fetch key encode limit most None pg ([], 0))
         | Sliced rs \<Rightarrow> Some (finish (iterated_loop encode limit most rs [] pg ([], 0))))"


section \<open>What a batch is\<close>

text \<open>A batch is not empty, has at most the rows it may have, and fits, unless it is a single row.\<close>

definition good_batch :: "nat \<Rightarrow> nat \<Rightarrow> encoded list \<Rightarrow> bool" where
  "good_batch most max_rows g \<longleftrightarrow>
     g \<noteq> [] \<and> length g \<le> max_rows \<and> (length g = 1 \<or> length (concat (framed_records g)) \<le> most)"

definition batch_state_ok :: "nat \<Rightarrow> nat \<Rightarrow> batch_state \<Rightarrow> bool" where
  "batch_state_ok most max_rows st \<longleftrightarrow>
     snd st = sum_list (map record_size (fst st)) \<and> (fst st = [] \<or> good_batch most max_rows (fst st))"

definition framed_groups :: "encoded list list \<Rightarrow> (bytes list \<times> nat) list" where
  "framed_groups gs = map (\<lambda>g. (framed_records g, length g)) gs"

definition rows_fit :: "nat option \<Rightarrow> encoded list \<Rightarrow> bool" where
  "rows_fit limit encs \<longleftrightarrow> (case limit of None \<Rightarrow> True | Some l \<Rightarrow> list_all (\<lambda>ps. record_size ps + 2 \<le> l) encs)"

lemma rows_fit_append [simp]: "rows_fit limit (xs @ ys) \<longleftrightarrow> rows_fit limit xs \<and> rows_fit limit ys"
  by (auto simp: rows_fit_def split: option.split)

lemma batch_rows_ok:
  assumes "batch_rows limit most max_rows encs st = Inr (out, st')" "batch_state_ok most max_rows st" "1 \<le> max_rows"
  shows "\<exists>gs. out = framed_groups gs \<and> concat gs @ fst st' = fst st @ encs \<and> list_all (good_batch most max_rows) gs \<and>
    batch_state_ok most max_rows st' \<and> rows_fit limit encs"
  using assms
proof (induction limit most max_rows encs st arbitrary: out st' rule: batch_rows.induct)
  case (1 limit most max_rows st)
  then show ?case by (intro exI [of _ "[]"]) (auto simp: framed_groups_def rows_fit_def split: option.split)
next
  case (2 limit most max_rows ps rest batch so_far)
  let ?len = "record_size ps"
  have fits: "\<not> (case limit of None \<Rightarrow> False | Some l \<Rightarrow> l < ?len + 2)" using 2(3) by (auto simp: Let_def)
  have so_far: "so_far = sum_list (map record_size batch)" using 2(4) by (simp add: batch_state_ok_def)
  have w: "rows_fit limit [ps]" using fits by (auto simp: rows_fit_def split: option.splits)
  have single: "batch_state_ok most max_rows ([ps], ?len)" using 2(5) by (simp add: batch_state_ok_def good_batch_def)
  show ?case
  proof (cases "batch \<noteq> [] \<and> (most < so_far + ?len + length batch + 2 \<or> max_rows \<le> length batch)")
    case True
    then obtain out1 where run: "batch_rows limit most max_rows rest ([ps], ?len) = Inr (out1, st')"
        "out = (framed_records batch, length batch) # out1"
      using 2(3) fits by (auto simp: Let_def)
    obtain gs where gs: "out1 = framed_groups gs" "concat gs @ fst st' = [ps] @ rest" "list_all (good_batch most max_rows) gs"
        "batch_state_ok most max_rows st'" "rows_fit limit rest"
      using 2(1) [OF refl fits True run(1) single 2(5)] by auto
    have "good_batch most max_rows batch" using 2(4) True by (auto simp: batch_state_ok_def)
    then show ?thesis using gs run(2) w rows_fit_append [of limit "[ps]" rest]
      by (intro exI [of _ "batch # gs"]) (simp add: framed_groups_def)
  next
    case False
    have run: "batch_rows limit most max_rows rest (batch @ [ps], so_far + ?len) = Inr (out, st')"
      using 2(3) unfolding batch_rows.simps Let_def if_not_P [OF fits] if_not_P [OF False] .
    have "length (concat (framed_records (batch @ [ps]))) = so_far + ?len + length batch + 2"
      using length_framed_records [of "batch @ [ps]"] so_far by simp
    then have "batch_state_ok most max_rows (batch @ [ps], so_far + ?len)"
      using False 2(5) so_far by (cases "batch = []") (auto simp: batch_state_ok_def good_batch_def)
    from 2(2) [OF refl fits False run this 2(5)] obtain gs where gs: "out = framed_groups gs"
        "concat gs @ fst st' = (batch @ [ps]) @ rest" "list_all (good_batch most max_rows) gs" "batch_state_ok most max_rows st'"
        "rows_fit limit rest" by auto
    then show ?thesis using w rows_fit_append [of limit "[ps]" rest] by (intro exI [of _ gs]) simp
  qed
qed


section \<open>The pages do not matter\<close>

lemma batch_rows_append:
  "batch_rows limit most max_rows (xs @ ys) st =
     and_then (batch_rows limit most max_rows xs st) (\<lambda>(out, st). and_then (batch_rows limit most max_rows ys st) (\<lambda>(out', st). Inr (out @ out', st)))"
proof (induction limit most max_rows xs st rule: batch_rows.induct)
  case (1 limit most max_rows st)
  then show ?case by (cases "batch_rows limit most max_rows ys st") auto
next
  case (2 limit most max_rows ps rest batch so_far)
  then show ?case by (auto simp: Let_def and_then_def split: sum.split prod.split)
qed

lemma measured_size [simp]: "1 \<le> pg_size (measured b n pg)" "pg_max_rows (measured b n pg) = pg_max_rows pg"
  by (simp_all add: measured_def Let_def)

definition rows_above :: "('r \<Rightarrow> 'k :: linorder) \<Rightarrow> 'r list \<Rightarrow> 'k option \<Rightarrow> 'r list" where
  "rows_above key rs prev = filter (\<lambda>r. case prev of None \<Rightarrow> True | Some k \<Rightarrow> k < key r) rs"

text \<open>What is promised of a query: its rows have a strict order, and a slice of it starts after a key.\<close>

locale keyset_query =
  fixes fetch :: "'k :: linorder option \<Rightarrow> nat \<Rightarrow> 'r list" and key :: "'r \<Rightarrow> 'k" and rs :: "'r list"
  assumes in_order: "sorted_wrt (\<lambda>a b. key a < key b) rs"
    and fetched: "fetch prev n = take n (rows_above key rs prev)"
begin

lemma rows_above_sorted: "sorted_wrt (\<lambda>a b. key a < key b) (rows_above key rs prev)"
  unfolding rows_above_def by (rule sorted_wrt_filter [OF in_order])

lemma rows_above_last:
  assumes "rows_above key rs prev = xs @ ys" "xs \<noteq> []"
  shows "rows_above key rs (Some (key (last xs))) = ys"
proof -
  let ?k = "key (last xs)"
  have sorted: "sorted_wrt (\<lambda>a b. key a < key b) (xs @ ys)" using rows_above_sorted [of prev] assms(1) by simp
  obtain zs where zs: "xs = zs @ [last xs]" by (metis append_butlast_last_id assms(2))
  have "sorted_wrt (\<lambda>a b. key a < key b) (zs @ [last xs])" using sorted zs by (metis sorted_wrt_append)
  then have "\<forall>r \<in> set zs. key r < ?k" by (simp add: sorted_wrt_append)
  then have low: "\<forall>r \<in> set xs. \<not> ?k < key r" using arg_cong [OF zs, of set] by auto
  have high: "\<forall>r \<in> set ys. ?k < key r" using sorted assms(2) by (auto simp: sorted_wrt_append)
  have "filter (\<lambda>r. ?k < key r) rs = filter (\<lambda>r. ?k < key r) (rows_above key rs prev)"
  proof (cases prev)
    case (Some k)
    have "last xs \<in> set (rows_above key rs prev)" using assms by simp
    then have "k < ?k" by (simp add: rows_above_def Some)
    then show ?thesis unfolding rows_above_def Some by (auto intro: filter_cong simp: filter_filter)
  qed (simp add: rows_above_def)
  also have "\<dots> = ys" unfolding assms(1) using low high by (simp add: filter_empty_conv filter_id_conv)
  finally show ?thesis by (simp add: rows_above_def)
qed

theorem paging_is_transparent:
  assumes "\<And>chunk. encode chunk = map enc chunk" "1 \<le> pg_size pg"
  shows "keyset_loop fetch key encode limit most prev pg st = Some (batch_rows limit most (pg_max_rows pg) (map enc (rows_above key rs prev)) st)"
  using assms(2)
proof (induction "length (rows_above key rs prev)" arbitrary: prev pg st rule: less_induct)
  case less
  let ?rest = "rows_above key rs prev" and ?n = "pg_size pg"
  let ?chunk = "take ?n ?rest"
  show ?case
  proof (cases "?rest = []")
    case True
    then show ?thesis by (subst keyset_loop.simps) (simp add: fetched)
  next
    case False
    then have ne: "?chunk \<noteq> []" using less.prems by auto
    have split: "map enc ?rest = map enc ?chunk @ map enc (drop ?n ?rest)" by (metis append_take_drop_id map_append)
    let ?pg = "measured (sum_list (map record_size (map enc ?chunk))) (length ?chunk) pg"
    show ?thesis
    proof (cases "batch_rows limit most (pg_max_rows pg) (map enc ?chunk) st")
      case (Inl e)
      then show ?thesis unfolding split batch_rows_append Inl
        using ne Inl by (subst keyset_loop.simps) (simp add: fetched Let_def take_page_def assms(1))
    next
      case (Inr res)
      obtain out st' where res: "res = (out, st')" by (cases res)
      show ?thesis
      proof (cases "length ?chunk < ?n")
        case True
        then have all: "?chunk = ?rest" by simp
        then have "drop ?n ?rest = []" by simp
        then show ?thesis unfolding split batch_rows_append Inr res
          using ne True Inr res by (subst keyset_loop.simps) (simp add: fetched Let_def take_page_def assms(1))
      next
        case full: False
        have next_rows: "rows_above key rs (Some (key (last ?chunk))) = drop ?n ?rest"
          by (rule rows_above_last [where prev = prev]) (use False less.prems in auto)
        have "length (drop ?n ?rest) < length ?rest" using less.prems False by (cases ?rest) auto
        then have IH: "keyset_loop fetch key encode limit most (Some (key (last ?chunk))) ?pg st' =
            Some (batch_rows limit most (pg_max_rows pg) (map enc (drop ?n ?rest)) st')"
          using less.hyps [of "Some (key (last ?chunk))" ?pg st'] by (simp only: next_rows measured_size)
        show ?thesis unfolding split batch_rows_append Inr res
          using ne full Inr res IH by (subst keyset_loop.simps) (simp add: fetched Let_def take_page_def assms(1))
      qed
    qed
  qed
qed

end


lemma iterated_loop_map:
  "iterated_loop (map enc) limit most rs chunk pg st = batch_rows limit most (pg_max_rows pg) (map enc (chunk @ rs)) st"
proof (induction rs arbitrary: chunk pg st)
  case Nil
  then show ?case by (cases st) (simp add: take_page_def)
next
  case (Cons r rs)
  show ?case
  proof (cases "pg_size pg \<le> length (chunk @ [r])")
    case True
    have split: "map enc (chunk @ r # rs) = map enc (chunk @ [r]) @ map enc rs" by simp
    show ?thesis unfolding split batch_rows_append using True by (simp add: take_page_def Cons.IH)
  next
    case False
    then show ?thesis by (simp add: Cons.IH)
  qed
qed

lemma iterated_loop_eq:
  assumes "\<And>chunk. encode chunk = map enc chunk"
  shows "iterated_loop encode limit most rs chunk pg st = batch_rows limit most (pg_max_rows pg) (map enc (chunk @ rs)) st"
proof -
  have "encode = map enc" using assms by (rule ext)
  then show ?thesis by (simp only: iterated_loop_map)
qed

section \<open>A table read by key\<close>

definition queryset_rows :: "('k :: linorder \<times> 'v) list \<Rightarrow> ('k \<times> 'v) list" where
  "queryset_rows table = sort_key fst (AList.clearjunk table)"

definition table_fetch :: "('k :: linorder \<times> 'v) list \<Rightarrow> 'k option \<Rightarrow> nat \<Rightarrow> ('k \<times> 'v) list" where
  "table_fetch table prev n = take n (rows_above fst (queryset_rows table) prev)"

interpretation by_key: keyset_query "table_fetch table" fst "queryset_rows table"
  for table :: "('k :: linorder \<times> 'v) list"
proof
  have "sorted (map fst (queryset_rows table))" by (simp add: queryset_rows_def)
  moreover have "distinct (map fst (queryset_rows table))"
    using distinct_clearjunk [of table] by (simp add: queryset_rows_def distinct_map)
  ultimately have "sorted_wrt (<) (map fst (queryset_rows table))" by (simp add: strict_sorted_iff)
  then show "sorted_wrt (\<lambda>a b. fst a < fst b) (queryset_rows table)" by (simp add: sorted_wrt_map)
qed (simp add: table_fetch_def)

lemma batch_rows_result:
  "case batch_rows limit most max_rows encs st of Inl e \<Rightarrow> e = BackupError \<and> \<not> rows_fit limit encs | Inr _ \<Rightarrow> rows_fit limit encs"
proof (induction limit most max_rows encs st rule: batch_rows.induct)
  case (1 limit most max_rows st)
  then show ?case by (simp add: rows_fit_def split: option.split)
next
  case (2 limit most max_rows ps rest batch so_far)
  show ?case
  proof (cases "case limit of None \<Rightarrow> False | Some l \<Rightarrow> l < record_size ps + 2")
    case True
    then show ?thesis by (auto simp: rows_fit_def Let_def split: option.splits)
  next
    case False
    have fit: "rows_fit limit (ps # rest) \<longleftrightarrow> rows_fit limit rest" using False by (auto simp: rows_fit_def split: option.splits)
    show ?thesis
    proof (cases "batch \<noteq> [] \<and> (most < so_far + record_size ps + length batch + 2 \<or> max_rows \<le> length batch)")
      case True
      from 2(1) [OF refl False True] show ?thesis
        unfolding fit batch_rows.simps Let_def if_not_P [OF False] if_P [OF True]
        by (auto simp: and_then_def split: sum.splits)
    next
      case not_full: False
      from 2(2) [OF refl False not_full] show ?thesis
        unfolding fit batch_rows.simps Let_def if_not_P [OF False] if_not_P [OF not_full] .
    qed
  qed
qed

definition batch_limit :: "nat option \<Rightarrow> nat \<Rightarrow> nat" where
  "batch_limit limit budget = (case limit of None \<Rightarrow> budget | Some l \<Rightarrow> min budget l)"

text \<open>Whatever the query, batches are made from its rows alone.\<close>

lemma serialize_batches_eq:
  assumes "\<And>chunk. encode chunk = map enc chunk" "1 \<le> max_rows"
  shows "serialize_batches encode heavy max_rows limit budget (Keyset (table_fetch table) fst) =
    serialize_batches encode heavy' max_rows limit budget (Sliced (queryset_rows table) :: ('k :: linorder, 'k \<times> 'v) queryset)"
  using by_key.paging_is_transparent [OF assms(1), where pg = "new_pages heavy max_rows" and prev = None and table = table and limit = limit
      and most = "batch_limit limit budget" and st = "([], 0)"]
    iterated_loop_eq [OF assms(1), where limit = limit and most = "batch_limit limit budget" and rs = "queryset_rows table" and chunk = "[]"
      and pg = "new_pages heavy' max_rows" and st = "([], 0)"] assms(2)
  by (simp add: serialize_batches_def new_pages_def batch_limit_def rows_above_def Let_def)

text \<open>
  C9: every row is saved once, in the order of its key, in batches that fit. For a query read by key, page by page, with
  page sizes that follow the sizes of the rows, serialize_batches ends; unless a single row is above the limit, when it
  raises BackupError, the records of its batches are exactly the rows of the query in the order of their keys, each batch
  is one array of records, has at least one row and at most the rows allowed, stays within the limit, and stays within the
  budget unless it is a single row.
\<close>
theorem batches_carry_every_row:
  assumes "\<And>chunk. encode chunk = map enc chunk" and "1 \<le> max_rows"
  shows "\<exists>r. serialize_batches encode heavy max_rows limit budget (Keyset (table_fetch table) fst) = Some r \<and>
    (if rows_fit limit (map enc (queryset_rows table))
     then \<exists>gs. r = Inr (framed_groups gs) \<and> concat gs = map enc (queryset_rows table) \<and>
       list_all (\<lambda>g. g \<noteq> [] \<and> length g \<le> max_rows \<and> (length g = 1 \<or> length (concat (framed_records g)) \<le> budget) \<and>
         (case limit of None \<Rightarrow> True | Some l \<Rightarrow> length (concat (framed_records g)) \<le> l)) gs
     else r = Inl BackupError)"
proof -
  let ?most = "batch_limit limit budget" and ?encs = "map enc (queryset_rows table)"
  let ?r = "and_then (batch_rows limit ?most max_rows ?encs ([], 0))
      (\<lambda>(out, batch, so_far). Inr (out @ (if batch = [] then [] else [(framed_records batch, length batch)])))"
  have run: "serialize_batches encode heavy max_rows limit budget (Keyset (table_fetch table) fst) = Some ?r"
    using by_key.paging_is_transparent [OF assms(1), where pg = "new_pages heavy max_rows" and prev = None and table = table and limit = limit
      and most = "batch_limit limit budget" and st = "([], 0)"] assms(2)
    by (simp add: serialize_batches_def new_pages_def batch_limit_def rows_above_def Let_def)
  show ?thesis
  proof (cases "batch_rows limit ?most max_rows ?encs ([], 0)")
    case (Inl e)
    then show ?thesis using run batch_rows_result [where limit = limit and most = ?most and max_rows = max_rows and encs = ?encs and st = "([], 0)"] by simp
  next
    case (Inr res)
    obtain out batch so_far where res: "res = (out, batch, so_far)" by (metis prod_cases3)
    have start: "batch_state_ok ?most max_rows ([], 0)" by (simp add: batch_state_ok_def)
    obtain gs where gs: "out = framed_groups gs" "concat gs @ batch = ?encs" "list_all (good_batch ?most max_rows) gs"
        "batch_state_ok ?most max_rows (batch, so_far)" "rows_fit limit ?encs"
      using batch_rows_ok [OF Inr [unfolded res] start assms(2)] by auto
    let ?gs = "gs @ (if batch = [] then [] else [batch])"
    have all: "concat ?gs = ?encs" using gs(2) by (cases "batch = []") auto
    have good: "list_all (good_batch ?most max_rows) ?gs" using gs(3,4) by (auto simp: batch_state_ok_def)
    have fits: "case limit of None \<Rightarrow> True | Some l \<Rightarrow> length (concat (framed_records g)) \<le> l" if "g \<in> set ?gs" for g
    proof (cases limit)
      case (Some l)
      have g: "good_batch ?most max_rows g" using good that unfolding list_all_iff by blast
      show ?thesis
      proof (cases "length g = 1")
        case True
        then obtain ps where ps: "g = [ps]" by (auto simp: length_Suc_conv)
        then have "ps \<in> set (concat ?gs)" using that unfolding set_concat by (metis UN_I list.set_intros(1))
        then have "record_size ps + 2 \<le> l" using gs(5) unfolding all rows_fit_def Some by (auto simp: list_all_iff)
        then show ?thesis using length_framed_records [of g] by (simp add: Some ps)
      next
        case False
        then show ?thesis using g by (simp add: good_batch_def batch_limit_def Some)
      qed
    qed simp
    have "list_all (\<lambda>g. g \<noteq> [] \<and> length g \<le> max_rows \<and> (length g = 1 \<or> length (concat (framed_records g)) \<le> budget) \<and>
         (case limit of None \<Rightarrow> True | Some l \<Rightarrow> length (concat (framed_records g)) \<le> l)) ?gs"
      using good fits unfolding list_all_iff good_batch_def batch_limit_def by (fastforce split: option.splits)
    moreover have "?r = Inr (framed_groups ?gs)" by (simp add: Inr res gs(1) framed_groups_def)
    ultimately show ?thesis using run all gs(5) by (simp only: if_True) blast
  qed
qed


text \<open>Three rows, not in order; five bytes are room for the large one or for the two small ones.\<close>

definition demo_table :: "(nat \<times> nat) list" where
  "demo_table = [(7, 1), (2, 3), (5, 1)]"

definition demo_encode :: "nat \<times> nat \<Rightarrow> encoded" where
  "demo_encode row = [replicate (snd row) (of_nat (fst row))]"

lemma batches_carry_every_row_witness:
  "\<exists>r. serialize_batches (map demo_encode) True 2 None 5 (Keyset (table_fetch demo_table) fst) = Some r \<and>
    (\<exists>gs. r = Inr (framed_groups gs) \<and> concat gs = map demo_encode (queryset_rows demo_table))"
proof -
  have "rows_fit None (map demo_encode (queryset_rows demo_table))" by (simp add: rows_fit_def)
  then show ?thesis
    using batches_carry_every_row [of "map demo_encode" demo_encode 2 True None 5 demo_table] by auto
qed

end
