(* ===== verification/ModelOrder.thy ===== *)
theory ModelOrder
  imports PyText "HOL-Library.Multiset" "HOL-Library.AList"
begin

text \<open>
  The order in which models are saved and restored, \<^verbatim>\<open>topological_order\<close> of \<^verbatim>\<open>src/dbs/introspect.py\<close>. What Django knows
  of a model is the record \<open>schema\<close>: \<^verbatim>\<open>get_parent_list\<close> (all ancestors of multi-table inheritance) and the models that
  its own relational fields refer to.
\<close>

record 'm schema =
  sc_ancestors :: "'m \<Rightarrow> 'm list"
  sc_related :: "'m \<Rightarrow> 'm list"

definition ancestors_among :: "'m schema \<Rightarrow> 'm list \<Rightarrow> 'm \<Rightarrow> 'm list" where
  "ancestors_among sc models m = filter (\<lambda>p. p \<in> set models) (sc_ancestors sc m)"

definition deps_among :: "'m schema \<Rightarrow> 'm list \<Rightarrow> 'm \<Rightarrow> 'm list" where
  "deps_among sc models m = ancestors_among sc models m @ filter (\<lambda>r. r \<in> set models \<and> r \<noteq> m) (sc_related sc m)"

text \<open>One pass over a copy of what remains; \<open>ordered\<close> is also the set \<^verbatim>\<open>resolved\<close>.\<close>

fun order_pass :: "('m \<Rightarrow> 'm list) \<Rightarrow> 'm list \<Rightarrow> 'm list \<Rightarrow> 'm list \<Rightarrow> bool \<Rightarrow> 'm list \<times> 'm list \<times> bool" where
  "order_pass deps [] remaining ordered progressed = (remaining, ordered, progressed)"
| "order_pass deps (m # ms) remaining ordered progressed =
     (if set (deps m) \<subseteq> set ordered then order_pass deps ms (remove1 m remaining) (ordered @ [m]) True
      else order_pass deps ms remaining ordered progressed)"

definition cycle_breaker :: "('m \<Rightarrow> 'm list) \<Rightarrow> 'm list \<Rightarrow> 'm list \<Rightarrow> 'm" where
  "cycle_breaker ancestors remaining ordered =
     (case filter (\<lambda>m. set (ancestors m) \<subseteq> set ordered) remaining of m # _ \<Rightarrow> m | [] \<Rightarrow> hd remaining)"

lemma cycle_breaker_in: "remaining \<noteq> [] \<Longrightarrow> cycle_breaker ancestors remaining ordered \<in> set remaining"
proof -
  assume "remaining \<noteq> []"
  moreover have "m \<in> set remaining" if "filter P remaining = m # ms" for P m ms
    using that by (metis filter_is_subset list.set_intros(1) subsetD)
  ultimately show ?thesis unfolding cycle_breaker_def by (auto split: list.split)
qed

lemma order_pass_mset:
  assumes "order_pass deps ms remaining ordered progressed = (remaining', ordered', progressed')" "mset ms \<subseteq># mset remaining"
  shows "mset ordered' + mset remaining' = mset ordered + mset remaining \<and>
    (progressed' \<longrightarrow> progressed \<or> length remaining' < length remaining) \<and> length remaining' \<le> length remaining"
  using assms
proof (induction deps ms remaining ordered progressed rule: order_pass.induct)
  case (2 deps m ms remaining ordered progressed)
  have m: "m \<in> set remaining" "mset ms \<subseteq># mset (remove1 m remaining)" "mset ms \<subseteq># mset remaining"
    using 2(4) by (auto simp: insert_subset_eq_iff intro: subset_mset.order_trans [OF _ diff_subset_eq_self])
  show ?case
  proof (cases "set (deps m) \<subseteq> set ordered")
    case True
    have shorter: "length (remove1 m remaining) < length remaining" using m(1) by (auto simp: length_remove1 dest: length_pos_if_in_set)
    show ?thesis using 2(1) [OF True _ m(2)] 2(3) True m(1) shorter by auto
  next
    case False
    then show ?thesis using 2(2) [OF False _ m(3)] 2(3) by auto
  qed
qed simp

lemma order_pass_less: "(remaining', ordered', True) = order_pass deps remaining remaining ordered False \<Longrightarrow> length remaining' < length remaining"
  and order_pass_shorter: "(remaining', ordered', progressed) = order_pass deps remaining remaining ordered False \<Longrightarrow> length remaining' \<le> length remaining"
  using order_pass_mset [of deps remaining remaining ordered False] by (metis subset_mset.order_refl)+

lemma breaker_removed: "remaining \<noteq> [] \<Longrightarrow> length (remove1 (cycle_breaker ancestors remaining ordered) remaining) < length remaining"
  using cycle_breaker_in [of remaining ancestors ordered] by (auto simp: length_remove1 dest: length_pos_if_in_set)

function order_loop :: "('m \<Rightarrow> 'm list) \<Rightarrow> ('m \<Rightarrow> 'm list) \<Rightarrow> 'm list \<Rightarrow> 'm list \<Rightarrow> 'm list" where
  "order_loop ancestors deps remaining ordered =
     (if remaining = [] then ordered
      else case order_pass deps remaining remaining ordered False of
        (remaining', ordered', progressed) \<Rightarrow>
          if progressed then order_loop ancestors deps remaining' ordered'
          else let breaker = cycle_breaker ancestors remaining' ordered'
               in if remaining' = [] then ordered'
                  else order_loop ancestors deps (remove1 breaker remaining') (ordered' @ [breaker]))"
  by pat_completeness auto
termination
  by (relation "measure (\<lambda>(ancestors, deps, remaining, ordered). length remaining)")
    (auto dest: order_pass_less order_pass_shorter intro: less_le_trans [OF breaker_removed])

declare order_loop.simps [simp del]

definition topological_order :: "'m schema \<Rightarrow> 'm list \<Rightarrow> 'm list" where
  "topological_order sc models = order_loop (ancestors_among sc models) (deps_among sc models) models []"

section \<open>What the order promises\<close>

text \<open>Everything in \<open>D m\<close> comes before \<open>m\<close>.\<close>

definition comes_after :: "('m \<Rightarrow> 'm list) \<Rightarrow> 'm list \<Rightarrow> bool" where
  "comes_after D xs \<longleftrightarrow> list_all (\<lambda>i. set (D (xs ! i)) \<subseteq> set (take i xs)) [0..<length xs]"

lemma comes_after_Nil [simp]: "comes_after D []" by (simp add: comes_after_def)

lemma comes_after_snoc [simp]: "comes_after D (xs @ [x]) \<longleftrightarrow> comes_after D xs \<and> set (D x) \<subseteq> set xs"
  by (auto simp: comes_after_def list_all_iff nth_append)


lemma order_pass_after:
  assumes "order_pass deps ms remaining ordered progressed = (remaining', ordered', progressed')"
    and "\<And>m. set (E m) \<subseteq> set (deps m)" and "comes_after E ordered"
  shows "comes_after E ordered'"
  using assms
proof (induction deps ms remaining ordered progressed rule: order_pass.induct)
  case (2 deps m ms remaining ordered progressed)
  have m: "set (E m) \<subseteq> set (deps m)" by (rule 2(4))
  show ?case
  proof (cases "set (deps m) \<subseteq> set ordered")
    case True
    have "comes_after E (ordered @ [m])" using 2(5) m True by auto
    then show ?thesis using 2(1) [OF True _ 2(4)] 2(3) True by simp
  qed (use 2 in simp)
qed simp

lemma order_pass_subset:
  "order_pass deps ms remaining ordered progressed = (remaining', ordered', progressed') \<Longrightarrow> set remaining' \<subseteq> set remaining"
proof (induction ms arbitrary: remaining ordered progressed)
  case (Cons m ms)
  then show ?case using set_remove1_subset [of m remaining] by (fastforce split: if_splits)
qed simp

lemma order_pass_stuck:
  assumes "order_pass deps ms remaining ordered progressed = (remaining', ordered', False)"
  shows "remaining' = remaining \<and> ordered' = ordered \<and> \<not> progressed \<and> (\<forall>m \<in> set ms. \<not> set (deps m) \<subseteq> set ordered)"
proof -
  have keeps: "order_pass deps ms remaining ordered True = (remaining', ordered', p) \<Longrightarrow> p"
    for deps :: "'a \<Rightarrow> 'a list" and ms remaining ordered remaining' ordered' p
    by (induction ms arbitrary: remaining ordered) (auto split: if_splits)
  show ?thesis using assms
  proof (induction ms arbitrary: remaining ordered)
    case (Cons m ms)
    have "\<not> set (deps m) \<subseteq> set ordered" using Cons.prems keeps [of deps ms _ _ remaining' ordered' False] by (auto split: if_splits)
    then show ?case using Cons.IH [of remaining ordered] Cons.prems by auto
  qed simp
qed

text \<open>In what remains there is always one whose \<open>E\<close> is all done, when \<open>E\<close> has no cycles.\<close>

lemma lowest_is_free:
  fixes rank :: "'m \<Rightarrow> nat"
  assumes "remaining \<noteq> []" "\<And>m p. m \<in> set remaining \<Longrightarrow> p \<in> set (E m) \<Longrightarrow> p \<in> set ordered \<union> set remaining \<and> rank p < rank m"
  shows "\<exists>m \<in> set remaining. set (E m) \<subseteq> set ordered"
proof -
  define m where "m = arg_min_list rank remaining"
  have m: "m \<in> set remaining" "\<And>p. p \<in> set remaining \<Longrightarrow> rank m \<le> rank p"
    using assms(1) by (auto simp: m_def arg_min_list_in f_arg_min_list_f Min_le_iff)
  have "set (E m) \<subseteq> set ordered"
  proof
    fix p assume "p \<in> set (E m)"
    then have "p \<in> set ordered \<union> set remaining" "rank p < rank m" using assms(2) m(1) by auto
    then show "p \<in> set ordered" using m(2) by fastforce
  qed
  then show ?thesis using m(1) by blast
qed

lemma order_loop_ok:
  assumes "E = ancestors \<or> E = deps" "\<And>m. set (E m) \<subseteq> set (deps m)" "comes_after E ordered"
    and "\<And>m p. m \<in> set remaining \<Longrightarrow> p \<in> set (E m) \<Longrightarrow> p \<in> set ordered \<union> set remaining \<and> (rank p :: nat) < rank m"
  shows "mset (order_loop ancestors deps remaining ordered) = mset ordered + mset remaining \<and>
    comes_after E (order_loop ancestors deps remaining ordered)"
  using assms
proof (induction "length remaining" arbitrary: remaining ordered rule: less_induct)
  case less
  show ?case
  proof (cases "remaining = []")
    case True
    then show ?thesis using less.prems(3) by (simp add: order_loop.simps [of ancestors])
  next
    case False
    obtain remaining' ordered' progressed where P: "order_pass deps remaining remaining ordered False = (remaining', ordered', progressed)"
      by (metis prod_cases3)
    note M = order_pass_mset [OF P subset_mset.order_refl]
    have sets: "set ordered' \<union> set remaining' = set ordered \<union> set remaining"
      using arg_cong [OF conjunct1 [OF M], of set_mset] by simp
    have after: "comes_after E ordered'" by (rule order_pass_after [OF P less.prems(2,3)])
    show ?thesis
    proof (cases progressed)
      case True
      then have rest: "order_loop ancestors deps remaining ordered = order_loop ancestors deps remaining' ordered'"
        using False P by (simp add: order_loop.simps [of ancestors deps remaining])
      have ranked: "\<And>m p. m \<in> set remaining' \<Longrightarrow> p \<in> set (E m) \<Longrightarrow> p \<in> set ordered' \<union> set remaining' \<and> rank p < rank m"
        using less.prems(4) order_pass_subset [OF P] sets by blast
      show ?thesis
        unfolding rest using less.hyps [OF _ less.prems(1,2) after ranked] M True by simp
    next
      case stuck: False
      have P': "order_pass deps remaining remaining ordered False = (remaining', ordered', False)" using P stuck by simp
      have same: "remaining' = remaining" "ordered' = ordered" and none: "\<forall>m \<in> set remaining. \<not> set (deps m) \<subseteq> set ordered"
        using order_pass_stuck [OF P'] by auto
      let ?b = "cycle_breaker ancestors remaining ordered"
      have rest: "order_loop ancestors deps remaining ordered = order_loop ancestors deps (remove1 ?b remaining) (ordered @ [?b])"
        using False P stuck same by (simp add: order_loop.simps [of ancestors deps remaining] Let_def)
      obtain m where m: "m \<in> set remaining" "set (E m) \<subseteq> set ordered" using lowest_is_free [OF False less.prems(4)] by blast
      then have "E = ancestors" using less.prems(1) none by auto
      then have "filter (\<lambda>m. set (ancestors m) \<subseteq> set ordered) remaining \<noteq> []" using m by (auto simp: filter_empty_conv)
      then have b: "set (E ?b) \<subseteq> set ordered"
        unfolding \<open>E = ancestors\<close> cycle_breaker_def by (auto split: list.split dest: filter_eq_ConsD)
      have in_b: "?b \<in> set remaining" by (rule cycle_breaker_in [OF False])
      have ranked: "\<And>m p. m \<in> set (remove1 ?b remaining) \<Longrightarrow> p \<in> set (E m) \<Longrightarrow>
          p \<in> set (ordered @ [?b]) \<union> set (remove1 ?b remaining) \<and> rank p < rank m"
        using less.prems(4) in_b by (metis (no_types, lifting) Un_iff in_set_remove1 list.set_intros(1) notin_set_remove1 set_append)
      have after': "comes_after E (ordered @ [?b])" using less.prems(3) b by simp
      have "mset (ordered @ [?b]) + mset (remove1 ?b remaining) = mset ordered + mset remaining" using in_b by simp
      then show ?thesis
        unfolding rest using less.hyps [OF breaker_removed [OF False] less.prems(1,2) after' ranked] by simp
    qed
  qed
qed


section \<open>The plan of a backup\<close>

text \<open>
  The models that are chosen, with the parents whose rows they need. A configuration is the one registered for a model
  (\<open>Own\<close>) or \<^verbatim>\<open>ParentRows\<close>, with the children, by name, and the links through which their rows select the rows of the
  parent. Configurations are shared objects in the code, so a child is looked up when its rows are.
\<close>

datatype ('m, 'c) config = Own 'c | Parent_rows "('m \<times> string) list"

record model_facts =
  mf_label :: string
  mf_managed :: bool
  mf_proxy :: bool
  mf_abstract :: bool

definition DEFAULT_EXCLUDES :: "string list" where
  "DEFAULT_EXCLUDES = [''contenttypes.contenttype'', ''auth.permission'', ''admin.logentry'', ''sessions.session'', ''dbs.backuprecord'',
    ''dbs.auditevent'', ''dbs.sessionevent'', ''dbs.anomalyevent'', ''dbs.lockout'', ''dbs.lease'', ''dbs.backupschedule'']"

definition configured_exclusions :: "string list option \<Rightarrow> string list" where
  "configured_exclusions setting = map text_lower (case setting of Some labels \<Rightarrow> labels | None \<Rightarrow> [])"

definition excluded_labels :: "string list option \<Rightarrow> string list" where
  "excluded_labels setting =
     fold (\<lambda>label excluded. if prefix ''-'' label then removeAll (tl label) excluded else List.insert label excluded)
       (configured_exclusions setting) DEFAULT_EXCLUDES"

definition reincluded_labels :: "string list option \<Rightarrow> string list" where
  "reincluded_labels setting = map tl (filter (prefix ''-'') (configured_exclusions setting))"

definition unmanaged_models_left_out :: "string list option \<Rightarrow> model_facts list \<Rightarrow> model_facts list" where
  "unmanaged_models_left_out setting models =
     filter (\<lambda>m. \<not> mf_managed m \<and> \<not> mf_proxy m \<and> mf_label m \<notin> set (reincluded_labels setting)) models"

definition discovered_models :: "string list option \<Rightarrow> model_facts list \<Rightarrow> model_facts list" where
  "discovered_models setting models =
     filter (\<lambda>m. \<not> mf_proxy m \<and> \<not> mf_abstract m \<and> m \<notin> set (unmanaged_models_left_out setting models) \<and>
       mf_label m \<notin> set (excluded_labels setting)) models"


type_synonym ('m, 'c) configs = "('m \<times> ('m, 'c) config) list"

definition config_for :: "('m \<times> 'c) list \<Rightarrow> 'c \<Rightarrow> 'm \<Rightarrow> ('m, 'c) config" where
  "config_for registry plain m = Own (case map_of registry m of Some c \<Rightarrow> c | None \<Rightarrow> plain)"

fun add_parents :: "'m \<Rightarrow> ('m \<times> string) list \<Rightarrow> ('m, 'c) configs \<Rightarrow> 'm list \<Rightarrow> ('m, 'c) configs \<times> 'm list" where
  "add_parents child [] configs pending = (configs, pending)"
| "add_parents child ((parent, link) # links) configs pending =
     (case map_of configs parent of
        None \<Rightarrow> add_parents child links (configs @ [(parent, Parent_rows [(child, link)])]) (pending @ [parent])
      | Some (Parent_rows children) \<Rightarrow> add_parents child links (AList.update parent (Parent_rows (children @ [(child, link)])) configs) pending
      | Some (Own c) \<Rightarrow> add_parents child links configs pending)"

partial_function (option) plan_loop :: "('m \<Rightarrow> ('m \<times> string) list) \<Rightarrow> ('m, 'c) configs \<Rightarrow> 'm list \<Rightarrow> ('m, 'c) configs option" where
  "plan_loop parent_links configs pending =
     (case pending of [] \<Rightarrow> Some configs
      | child # rest \<Rightarrow> (case add_parents child (parent_links child) configs rest of (configs, pending) \<Rightarrow> plan_loop parent_links configs pending))"

definition chosen_models :: "('m \<times> 'c) list \<Rightarrow> 'm list \<Rightarrow> 'm list \<Rightarrow> 'm list" where
  "chosen_models registry models discovered =
     (if models \<noteq> [] then models else if registry = [] then discovered else map fst registry)"

definition backup_plan ::
  "'m schema \<Rightarrow> ('m \<Rightarrow> ('m \<times> string) list) \<Rightarrow> ('m \<times> 'c) list \<Rightarrow> 'c \<Rightarrow> 'm list \<Rightarrow> 'm list \<Rightarrow> ('m, 'c) configs option" where
  "backup_plan sc parent_links registry plain models discovered =
     (let chosen = chosen_models registry models discovered;
          configs = fold (\<lambda>m. AList.update m (config_for registry plain m)) chosen []
      in map_option (\<lambda>configs. map (\<lambda>m. (m, the (map_of configs m))) (topological_order sc (map fst configs)))
           (plan_loop parent_links configs chosen))"

section \<open>The plan has the parents of every model\<close>

text \<open>The parents of \<open>child\<close> are in, and the ones whose rows are selected name it.\<close>

definition parents_in :: "('m \<Rightarrow> ('m \<times> string) list) \<Rightarrow> ('m, 'c) configs \<Rightarrow> 'm \<Rightarrow> bool" where
  "parents_in parent_links configs child \<longleftrightarrow>
     list_all (\<lambda>(parent, link). case map_of configs parent of
       None \<Rightarrow> False | Some (Own c) \<Rightarrow> True | Some (Parent_rows children) \<Rightarrow> (child, link) \<in> set children) (parent_links child)"

text \<open>Configurations only grow.\<close>

definition grows_to :: "('m, 'c) configs \<Rightarrow> ('m, 'c) configs \<Rightarrow> bool" where
  "grows_to configs configs' \<longleftrightarrow> (\<forall>m. case map_of configs m of
     None \<Rightarrow> True | Some (Own c) \<Rightarrow> map_of configs' m = Some (Own c)
   | Some (Parent_rows cs) \<Rightarrow> (\<exists>cs'. map_of configs' m = Some (Parent_rows (cs @ cs'))))"

lemma grows_refl [simp]: "grows_to configs configs"
  by (auto simp: grows_to_def split: option.split config.split)

lemma grows_trans: "grows_to a b \<Longrightarrow> grows_to b c \<Longrightarrow> grows_to a c"
  unfolding grows_to_def
proof (rule allI)
  fix m
  assume ab: "\<forall>m. case map_of a m of None \<Rightarrow> True | Some (Own c) \<Rightarrow> map_of b m = Some (Own c)
      | Some (Parent_rows cs) \<Rightarrow> (\<exists>cs'. map_of b m = Some (Parent_rows (cs @ cs')))"
    and bc: "\<forall>m. case map_of b m of None \<Rightarrow> True | Some (Own d) \<Rightarrow> map_of c m = Some (Own d)
      | Some (Parent_rows cs) \<Rightarrow> (\<exists>cs'. map_of c m = Some (Parent_rows (cs @ cs')))"
  show "case map_of a m of None \<Rightarrow> True | Some (Own d) \<Rightarrow> map_of c m = Some (Own d)
      | Some (Parent_rows cs) \<Rightarrow> (\<exists>cs'. map_of c m = Some (Parent_rows (cs @ cs')))"
    using ab [rule_format, of m] bc [rule_format, of m] by (auto split: option.splits config.splits)
qed

lemma parents_in_grows:
  assumes "parents_in links a m" "grows_to a b"
  shows "parents_in links b m"
proof -
  have "case map_of b p of None \<Rightarrow> False | Some (Own c) \<Rightarrow> True | Some (Parent_rows cs) \<Rightarrow> (m, l) \<in> set cs"
    if "(p, l) \<in> set (links m)" for p l
  proof -
    have "case map_of a p of None \<Rightarrow> False | Some (Own c) \<Rightarrow> True | Some (Parent_rows cs) \<Rightarrow> (m, l) \<in> set cs"
      using assms(1) that by (auto simp: parents_in_def list_all_iff)
    then show ?thesis using assms(2) [unfolded grows_to_def, rule_format, of p] by (auto split: option.splits config.splits)
  qed
  then show ?thesis by (auto simp: parents_in_def list_all_iff)
qed


lemma parents_in_Cons:
  "parents_in (\<lambda>_. (p, l) # ls) configs m \<longleftrightarrow>
     (case map_of configs p of None \<Rightarrow> False | Some (Own c) \<Rightarrow> True | Some (Parent_rows cs) \<Rightarrow> (m, l) \<in> set cs) \<and> parents_in (\<lambda>_. ls) configs m"
  by (simp add: parents_in_def)

lemma grows_keeps:
  assumes "grows_to a b" "case map_of a p of None \<Rightarrow> False | Some (Own c) \<Rightarrow> True | Some (Parent_rows cs) \<Rightarrow> x \<in> set cs"
  shows "case map_of b p of None \<Rightarrow> False | Some (Own c) \<Rightarrow> True | Some (Parent_rows cs) \<Rightarrow> x \<in> set cs"
  using assms(1) [unfolded grows_to_def, rule_format, of p] assms(2) by (auto split: option.splits config.splits)

lemma grows_append: "map_of a p = None \<Longrightarrow> grows_to a (a @ [(p, c)])"
  by (auto simp: grows_to_def map_add_def map_of_append split: option.split config.split)

lemma configs_update_grow: "map_of a p = Some (Parent_rows cs) \<Longrightarrow> grows_to a (AList.update p (Parent_rows (cs @ cs')) a)"
  by (auto simp: grows_to_def update_conv' split: option.split config.split)

lemma add_parents_ok:
  assumes "add_parents child links configs pending = (configs', pending')" "distinct (map fst configs)"
  shows "grows_to configs configs' \<and> parents_in (\<lambda>_. links) configs' child \<and> distinct (map fst configs') \<and>
    set (map fst configs') = set (map fst configs) \<union> set (map fst links) \<and>
    set pending' = set pending \<union> (set (map fst configs') - set (map fst configs)) \<and>
    length pending' + length configs = length pending + length configs'"
  using assms
proof (induction child links configs pending rule: add_parents.induct)
  case (1 child configs pending)
  then show ?case by (simp add: parents_in_def)
next
  case (2 child parent link links configs pending)
  have fresh: "parent \<notin> fst ` set configs" if "map_of configs parent = None" using that by (simp add: map_of_eq_None_iff)
  have known: "parent \<in> fst ` set configs" if "map_of configs parent = Some c" for c using that by (force dest: map_of_SomeD)
  show ?case
  proof (cases "map_of configs parent")
    case None
    let ?c = "configs @ [(parent, Parent_rows [(child, link)])]"
    have run: "add_parents child links ?c (pending @ [parent]) = (configs', pending')" using 2(4) None by simp
    have d: "distinct (map fst ?c)" using 2(5) fresh None by simp
    note IH = 2(1) [OF None run d]
    have "case map_of ?c parent of None \<Rightarrow> False | Some (Own c) \<Rightarrow> True | Some (Parent_rows cs) \<Rightarrow> (child, link) \<in> set cs"
      using None by (simp add: map_add_def)
    from grows_keeps [OF conjunct1 [OF IH] this] show ?thesis
      using IH grows_trans [OF grows_append [OF None] conjunct1 [OF IH]] fresh [OF None]
      by (simp add: parents_in_Cons insert_Diff_if) blast
  next
    case (Some c)
    show ?thesis
    proof (cases c)
      case (Own d)
      have run: "add_parents child links configs pending = (configs', pending')" using 2(4) Some Own by simp
      note IH = 2(2) [OF Some Own run 2(5)]
      have "case map_of configs parent of None \<Rightarrow> False | Some (Own c) \<Rightarrow> True | Some (Parent_rows cs) \<Rightarrow> (child, link) \<in> set cs"
        using Some Own by simp
      from grows_keeps [OF conjunct1 [OF IH] this] show ?thesis using IH known [OF Some] by (auto simp: parents_in_Cons)
    next
      case (Parent_rows cs)
      let ?c = "AList.update parent (Parent_rows (cs @ [(child, link)])) configs"
      have run: "add_parents child links ?c pending = (configs', pending')" using 2(4) Some Parent_rows by simp
      have keys: "map fst ?c = map fst configs" "length ?c = length configs"
        using known [OF Some] by (simp_all add: update_keys) (metis length_map update_keys image_set)
      have d: "distinct (map fst ?c)" using 2(5) by (simp only: keys)
      note IH = 2(3) [OF Some Parent_rows run d]
      have "case map_of ?c parent of None \<Rightarrow> False | Some (Own c) \<Rightarrow> True | Some (Parent_rows cs) \<Rightarrow> (child, link) \<in> set cs"
        by (simp add: update_conv')
      from grows_keeps [OF conjunct1 [OF IH] this] show ?thesis
        using IH known [OF Some] grows_trans [OF configs_update_grow [of configs parent cs "[(child, link)]"] conjunct1 [OF IH]] Some Parent_rows
        unfolding keys by (auto simp: parents_in_Cons)
    qed
  qed
qed


text \<open>Every model that is out of the queue has its parents in.\<close>

definition settled :: "('m \<Rightarrow> ('m \<times> string) list) \<Rightarrow> ('m, 'c) configs \<Rightarrow> 'm list \<Rightarrow> bool" where
  "settled links configs pending \<longleftrightarrow>
     distinct (map fst configs) \<and> set pending \<subseteq> set (map fst configs) \<and>
     (\<forall>m \<in> set (map fst configs). m \<in> set pending \<or> parents_in links configs m)"

lemma settled_step:
  assumes "settled links configs (child # rest)" "add_parents child (links child) configs rest = (configs', pending')"
  shows "settled links configs' pending' \<and> grows_to configs configs'"
proof -
  note A = add_parents_ok [OF assms(2)]
  have S: "distinct (map fst configs)" "set (child # rest) \<subseteq> set (map fst configs)"
      "\<And>m. m \<in> set (map fst configs) \<Longrightarrow> m \<in> set (child # rest) \<or> parents_in links configs m"
    using assms(1) unfolding settled_def by blast+
  have A': "grows_to configs configs'" "parents_in (\<lambda>_. links child) configs' child" "distinct (map fst configs')"
      "set (map fst configs') = set (map fst configs) \<union> set (map fst (links child))"
      "set pending' = set rest \<union> (set (map fst configs') - set (map fst configs))"
    using A [OF S(1)] by blast+
  have child: "parents_in links configs' child" using A'(2) by (simp add: parents_in_def)
  have "m \<in> set pending' \<or> parents_in links configs' m" if "m \<in> set (map fst configs')" for m
  proof (cases "m \<in> set (map fst configs)")
    case True
    then show ?thesis using S(3) [OF True] A'(5) child parents_in_grows [OF _ A'(1)] by auto
  qed (use that A'(5) in blast)
  then show ?thesis using A' S(2) unfolding settled_def by auto
qed

lemma plan_loop_ok:
  assumes "settled links configs pending" "finite U" "set (map fst configs) \<subseteq> U"
    and "\<And>m. m \<in> U \<Longrightarrow> set (map fst (links m)) \<subseteq> U"
  shows "\<exists>configs'. plan_loop links configs pending = Some configs' \<and> settled links configs' [] \<and> grows_to configs configs' \<and>
    set (map fst configs') \<subseteq> U"
  using assms(1,3)
proof (induction "2 * (card U - length configs) + length pending" arbitrary: configs pending rule: less_induct)
  case less
  show ?case
  proof (cases pending)
    case Nil
    then show ?thesis using less.prems by (simp add: plan_loop.simps [of links])
  next
    case (Cons child rest)
    obtain configs' pending' where step: "add_parents child (links child) configs rest = (configs', pending')" by fastforce
    note S = settled_step [OF less.prems(1) [unfolded Cons] step]
    have d: "distinct (map fst configs)" using less.prems(1) by (simp add: settled_def)
    note A = add_parents_ok [OF step d]
    have "child \<in> U" using less.prems by (auto simp: settled_def Cons)
    then have in_U: "set (map fst configs') \<subseteq> U" using A less.prems(2) assms(4) by blast
    have "card (set (map fst configs')) \<le> card U" by (rule card_mono [OF assms(2) in_U])
    then have "length configs' \<le> card U" using A by (metis distinct_card length_map)
    moreover have "length configs \<le> length configs'"
    proof -
      have "set (map fst configs) \<subseteq> set (map fst configs')" using A by blast
      then have "card (set (map fst configs)) \<le> card (set (map fst configs'))" by (rule card_mono [OF finite_set])
      moreover have "length configs = card (set (map fst configs))" "length configs' = card (set (map fst configs'))"
        using d A by (metis distinct_card length_map)+
      ultimately show ?thesis by simp
    qed
    moreover have "length pending' + length configs = length rest + length configs'" using A by blast
    ultimately have "2 * (card U - length configs') + length pending' < 2 * (card U - length configs) + length pending"
      using Cons by simp
    from less.hyps [OF this conjunct1 [OF S] in_U] show ?thesis
      using Cons step grows_trans [OF conjunct2 [OF S]] by (auto simp: plan_loop.simps [of links configs])
  qed
qed


lemma order_loop_mset: "mset (order_loop ancestors deps remaining ordered) = mset ordered + mset remaining"
proof (induction "length remaining" arbitrary: remaining ordered rule: less_induct)
  case less
  show ?case
  proof (cases "remaining = []")
    case True
    then show ?thesis by (simp add: order_loop.simps [of ancestors])
  next
    case False
    obtain remaining' ordered' progressed where P: "order_pass deps remaining remaining ordered False = (remaining', ordered', progressed)"
      by (metis prod_cases3)
    note M = order_pass_mset [OF P subset_mset.order_refl]
    let ?b = "cycle_breaker ancestors remaining' ordered'"
    show ?thesis
    proof (cases "progressed \<or> remaining' = []")
      case True
      then show ?thesis
        using False P M less.hyps [of remaining' ordered']
        by (cases progressed) (auto simp: order_loop.simps [of ancestors deps remaining])
    next
      case stuck: False
      have "length (remove1 ?b remaining') < length remaining" using breaker_removed [of remaining' ancestors ordered'] stuck M by simp
      note IH = less.hyps [OF this, of "ordered' @ [?b]"]
      have "?b \<in> set remaining'" using cycle_breaker_in stuck by auto
      then have "mset (ordered' @ [?b]) + mset (remove1 ?b remaining') = mset ordered' + mset remaining'" by simp
      moreover have "order_loop ancestors deps remaining ordered = order_loop ancestors deps (remove1 ?b remaining') (ordered' @ [?b])"
        using False P stuck by (simp add: order_loop.simps [of ancestors deps remaining] Let_def)
      ultimately show ?thesis using IH conjunct1 [OF M] by (simp only:)
    qed
  qed
qed

lemma topological_order_mset [simp]: "mset (topological_order sc models) = mset models"
  by (simp add: topological_order_def order_loop_mset)

lemma topological_order_set [simp]: "set (topological_order sc models) = set models"
  by (metis set_mset_mset topological_order_mset)

section \<open>The two properties\<close>

text \<open>
  C10: models are restored after what they need. \<^verbatim>\<open>topological_order\<close> puts out every model it is given exactly
  once. As inheritance has no cycles, no model comes before one of its parents, however the relational fields refer to each
  other in circles; and when these have no cycles either, every model comes after all the models it refers to.
\<close>
theorem models_come_after_what_they_need:
  fixes rank :: "'m \<Rightarrow> nat"
  assumes "\<And>m p. m \<in> set models \<Longrightarrow> p \<in> set (ancestors_among sc models m) \<Longrightarrow> rank p < rank m"
  shows "mset (topological_order sc models) = mset models \<and>
    comes_after (ancestors_among sc models) (topological_order sc models) \<and>
    (list_all (\<lambda>m. list_all (\<lambda>p. rank p < rank m) (deps_among sc models m)) models \<longrightarrow>
      comes_after (deps_among sc models) (topological_order sc models))"
proof (intro conjI impI)
  have in_models: "p \<in> set (ancestors_among sc models m) \<Longrightarrow> p \<in> set models" "p \<in> set (deps_among sc models m) \<Longrightarrow> p \<in> set models" for m p
    by (auto simp: ancestors_among_def deps_among_def)
  have loop: "comes_after E (order_loop (ancestors_among sc models) (deps_among sc models) models [])"
    if "E = ancestors_among sc models \<or> E = deps_among sc models" "\<And>m p. m \<in> set models \<Longrightarrow> p \<in> set (E m) \<Longrightarrow> rank p < rank m" for E
  proof -
    have sub: "set (E m) \<subseteq> set (deps_among sc models m)" for m using that(1) by (auto simp: deps_among_def)
    have ranked: "p \<in> set [] \<union> set models \<and> rank p < rank m" if "m \<in> set models" "p \<in> set (E m)" for m p
      using that \<open>E = _ \<or> E = _\<close> in_models \<open>\<And>m p. m \<in> set models \<Longrightarrow> p \<in> set (E m) \<Longrightarrow> rank p < rank m\<close> by auto
    show ?thesis by (rule conjunct2 [OF order_loop_ok [OF that(1) sub comes_after_Nil ranked]])
  qed
  show "comes_after (ancestors_among sc models) (topological_order sc models)"
    unfolding topological_order_def by (rule loop) (use assms in auto)
  show "comes_after (deps_among sc models) (topological_order sc models)"
    if "list_all (\<lambda>m. list_all (\<lambda>p. rank p < rank m) (deps_among sc models m)) models"
    unfolding topological_order_def by (rule loop) (use that in \<open>auto simp: list_all_iff\<close>)
qed simp

text \<open>Two models that refer to each other, a child of one of them, and one that refers to the child.\<close>

definition demo_schema :: "nat schema" where
  "demo_schema = \<lparr>sc_ancestors = (\<lambda>m. if m = 2 then [1] else []), sc_related = (\<lambda>m. if m = 0 then [1] else if m = 1 then [0] else if m = 3 then [2] else [])\<rparr>"

lemma models_come_after_what_they_need_witness:
  "topological_order demo_schema [3, 2, 1, 0] = [3, 1, 2, 0] \<and>
   comes_after (ancestors_among demo_schema [3, 2, 1, 0]) (topological_order demo_schema [3, 2, 1, 0])"
proof
  show "topological_order demo_schema [3, 2, 1, 0] = [3, 1, 2, 0]" by code_simp
  have "p \<in> set (ancestors_among demo_schema [3, 2, 1, 0] m) \<Longrightarrow> (if p = 2 then 1 else 0) < (if m = 2 then 1 else (0 :: nat))" for m p :: nat
    by (auto simp: ancestors_among_def demo_schema_def split: if_splits)
  then show "comes_after (ancestors_among demo_schema [3, 2, 1, 0]) (topological_order demo_schema [3, 2, 1, 0])"
    using models_come_after_what_they_need [of "[3, 2, 1, 0]" demo_schema "\<lambda>m. if m = 2 then 1 else 0"] by blast
qed

text \<open>
  the plan of a backup is complete. When the models of the project are finitely many and their parents
  among them, \<^verbatim>\<open>backup_plan\<close> ends; every model that was chosen is in the plan, and so is, for every model in it, each of
  its parents: with the configuration registered for the parent, or with rows selected through that very model and link.
\<close>
theorem plan_has_every_parent:
  assumes "finite U" and "set (chosen_models registry models discovered) \<subseteq> U"
    and "\<And>m. m \<in> U \<Longrightarrow> set (map fst (links m)) \<subseteq> U"
  shows "\<exists>plan. backup_plan sc links registry plain models discovered = Some plan \<and> distinct (map fst plan) \<and>
    set (chosen_models registry models discovered) \<subseteq> set (map fst plan) \<and>
    list_all (\<lambda>(m, _). parents_in links plan m) plan"
proof -
  let ?chosen = "chosen_models registry models discovered"
  let ?start = "fold (\<lambda>m. AList.update m (config_for registry plain m)) ?chosen ([] :: ('a, 'b) configs)"
  have start: "distinct (map fst (fold (\<lambda>m. AList.update m (config_for registry plain m)) ms c)) \<and>
      set (map fst (fold (\<lambda>m. AList.update m (config_for registry plain m)) ms c)) = set (map fst c) \<union> set ms"
    if "distinct (map fst c)" for ms and c :: "('a, 'b) configs"
    using that by (induction ms arbitrary: c) (auto simp: distinct_update dom_update image_iff simp del: set_map simp add: update_keys)
  have settled: "settled links ?start ?chosen" "set (map fst ?start) \<subseteq> U"
    using start [of "[]" ?chosen] assms(2) by (simp_all add: settled_def)
  obtain configs where C: "plan_loop links ?start ?chosen = Some configs" "settled links configs []" "grows_to ?start configs"
    using plan_loop_ok [OF settled(1) assms(1) settled(2) assms(3)] by blast
  let ?plan = "map (\<lambda>m. (m, the (map_of configs m))) (topological_order sc (map fst configs))"
  have d: "distinct (map fst configs)" "\<And>m. m \<in> set (map fst configs) \<Longrightarrow> parents_in links configs m"
    using C(2) by (auto simp: settled_def)
  have keys: "map fst ?plan = topological_order sc (map fst configs)" by (simp add: comp_def)
  have distinct_plan: "distinct (map fst ?plan)" unfolding keys using d(1) by (metis topological_order_mset mset_eq_imp_distinct_iff)
  have same: "map_of ?plan m = map_of configs m" for m
  proof (cases "map_of configs m")
    case None
    then have "m \<notin> fst ` set configs" by (simp add: map_of_eq_None_iff)
    then show ?thesis using None by (simp add: map_of_map_restrict restrict_map_def)
  next
    case (Some c)
    then have "m \<in> fst ` set configs" by (force dest: map_of_SomeD)
    then show ?thesis using Some by (simp add: map_of_map_restrict restrict_map_def)
  qed
  have chosen_in: "set ?chosen \<subseteq> set (map fst configs)"
  proof
    fix m assume "m \<in> set ?chosen"
    then have "m \<in> set (map fst ?start)" using start [of "[]" ?chosen] by simp
    then obtain c where "map_of ?start m = Some c" by (metis map_of_eq_None_iff not_None_eq set_map)
    then have "map_of configs m \<noteq> None" using C(3) [unfolded grows_to_def, rule_format, of m] by (auto split: config.splits)
    then show "m \<in> set (map fst configs)" by (simp add: map_of_eq_None_iff)
  qed
  have "list_all (\<lambda>(m, _). parents_in links ?plan m) ?plan"
    using d(2) unfolding list_all_iff parents_in_def same by fastforce
  moreover have "backup_plan sc links registry plain models discovered = Some ?plan"
    using C(1) by (simp add: backup_plan_def Let_def)
  moreover have "set (map fst ?plan) = set (map fst configs)" unfolding keys by (rule topological_order_set)
  ultimately show ?thesis using distinct_plan chosen_in by blast
qed


definition demo_links :: "nat \<Rightarrow> (nat \<times> string) list" where
  "demo_links m = (if m = 2 then [(1, ''parent_ptr'')] else [])"

lemma plan_has_every_parent_witness:
  "\<exists>plan. backup_plan demo_schema demo_links [] () [2] [] = Some plan \<and> distinct (map fst plan) \<and>
    set (chosen_models ([] :: (nat \<times> unit) list) [2] []) \<subseteq> set (map fst plan) \<and> list_all (\<lambda>(m, _). parents_in demo_links plan m) plan"
  by (rule plan_has_every_parent [of "{1, 2}"]) (auto simp: chosen_models_def demo_links_def split: if_splits)

end
