(* ===== verification/StagedFiles.thy ===== *)
theory StagedFiles
  imports AbsPath Payload "HOL-Library.AList"
begin

text \<open>
  The files of a restore in \<^verbatim>\<open>src/dbs/files.py\<close>: where an entry goes, and the staging of its content beside its target until
  the rows are committed. The disk is a map from paths to contents and the list of directories; \<open>faults\<close> says which
  calls fail. \<^verbatim>\<open>realpath\<close> and the check for obstacles are arguments, files kept by a storage class of Django are left
  to an argument (\<open>place_storage\<close>) and not staged here; modes are left out.
\<close>

section \<open>Paths\<close>

definition path_components_of :: "string \<Rightarrow> string list" where
  "path_components_of p = filter (\<lambda>c. c \<noteq> [] \<and> c \<noteq> ''.'') (text_split slash p)"

fun common_start :: "string list \<Rightarrow> string list \<Rightarrow> string list" where
  "common_start (x # xs) (y # ys) = (if x = y then x # common_start xs ys else [])"
| "common_start _ _ = []"

definition is_absolute :: "string \<Rightarrow> bool" where "is_absolute p \<longleftrightarrow> prefix ''/'' p"

definition commonpath :: "string \<Rightarrow> string \<Rightarrow> string option" where
  "commonpath p q =
     (if is_absolute p \<noteq> is_absolute q then None
      else Some ((if is_absolute p then ''/'' else []) @ text_join ''/'' (common_start (path_components_of p) (path_components_of q))))"

definition is_inside :: "string \<Rightarrow> string \<Rightarrow> bool" where
  "is_inside path folder_root \<longleftrightarrow> commonpath path folder_root = Some folder_root"

definition path_join :: "string \<Rightarrow> string \<Rightarrow> string" where
  "path_join a b = (if is_absolute b then b else if a = [] \<or> last a = slash then a @ b else a @ ''/'' @ b)"

definition relpath :: "string \<Rightarrow> string \<Rightarrow> string \<Rightarrow> string" where
  "relpath cwd path start =
     (let parts = (\<lambda>p. filter (\<lambda>c. c \<noteq> []) (text_split slash (normpath (if is_absolute p then p else path_join cwd p))));
          i = length (common_start (parts start) (parts path));
          rel = replicate (length (parts start) - i) dot_dot @ drop i (parts path)
      in if rel = [] then ''.'' else text_join ''/'' rel)"

definition map_path :: "string \<Rightarrow> string \<Rightarrow> (string \<times> string) list \<Rightarrow> string" where
  "map_path cwd path path_map =
     (let normalized = normpath path
      in case filter (is_inside normalized) (map fst path_map) of
           [] \<Rightarrow> path
         | m # ms \<Rightarrow>
             let old = longest m ms; relative = relpath cwd normalized old; new = the (map_of path_map old)
             in if relative = ''.'' then new else path_join new relative)"

section \<open>Placements\<close>

datatype refusal = Outside_own_root | Outside_roots | Obstacle string | Unknown_kind | Storage_refused

record placement =
  pm_entry :: file_entry
  pm_target :: string
  pm_moved_to :: string
  pm_problem :: "refusal option"

definition new_placement :: "file_entry \<Rightarrow> placement" where
  "new_placement e = \<lparr>pm_entry = e, pm_target = [], pm_moved_to = [], pm_problem = None\<rparr>"

definition refuse :: "refusal \<Rightarrow> placement \<Rightarrow> placement" where
  "refuse why pm = pm\<lparr>pm_problem := Some why\<rparr>"

record placing =
  pg_cwd :: string
  pg_real :: "string \<Rightarrow> string"
  pg_obstacle :: "string \<Rightarrow> string"
  pg_roots :: "string list"
  pg_path_map :: "(string \<times> string) list"
  pg_storage :: "placement \<Rightarrow> placement"

definition place_local :: "placing \<Rightarrow> placement \<Rightarrow> string \<Rightarrow> string option \<Rightarrow> placement" where
  "place_local pg pm path own_root =
     (let target = pg_real pg path
      in if (case own_root of None \<Rightarrow> False | Some folder_root \<Rightarrow> \<not> is_inside target (pg_real pg folder_root)) then refuse Outside_own_root pm
         else if \<not> list_ex (is_inside target) (pg_roots pg) then refuse Outside_roots pm
         else if pg_obstacle pg target \<noteq> [] then refuse (Obstacle (pg_obstacle pg target)) pm
         else pm\<lparr>pm_target := target\<rparr>)"

definition place_entry :: "placing \<Rightarrow> file_entry \<Rightarrow> placement" where
  "place_entry pg e =
     (let pm = new_placement e
      in if fe_kind e = ''storage'' then pg_storage pg pm
         else if fe_kind e = ''path''
         then (let mapped = map_path (pg_cwd pg) (fe_name e) (pg_path_map pg)
               in place_local pg (if mapped \<noteq> fe_name e then pm\<lparr>pm_moved_to := mapped\<rparr> else pm) mapped None)
         else if fe_kind e = ''root''
         then (let folder_root = map_path (pg_cwd pg) (py_text (fe_root e)) (pg_path_map pg)
               in place_local pg pm (path_join folder_root (fe_name e)) (Some folder_root))
         else refuse Unknown_kind pm)"

definition plan_entries :: "placing \<Rightarrow> file_entry list \<Rightarrow> placement list" where
  "plan_entries pg es = map (place_entry pg) es"

text \<open>The roots, from the settings (\<open>None\<close> when one is not set) and what models declare; the map of paths, and the placement
  of files that are at hand (version 1), whose digest is checked first.\<close>

definition restore_roots :: "(string \<Rightarrow> string) \<Rightarrow> string list option \<Rightarrow> string list option \<Rightarrow> string list \<Rightarrow> string list" where
  "restore_roots realpath restore_setting file_setting declared =
     fold (\<lambda>folder_root roots. if realpath folder_root \<in> set roots then roots else roots @ [realpath folder_root])
       ((case restore_setting of Some configured \<Rightarrow> configured
         | None \<Rightarrow> (case file_setting of Some configured \<Rightarrow> configured | None \<Rightarrow> [])) @ declared) []"

definition restore_path_map :: "(string \<times> string) list \<Rightarrow> (string \<times> string) list result" where
  "restore_path_map configured =
     (if list_ex (\<lambda>(old, new). old = [] \<or> new = []) configured then Inl ConfigurationError
      else Inr (fold (\<lambda>(old, new). AList.update (normpath old) (normpath new)) configured []))"

definition place_file :: "codec_of_json \<Rightarrow> placing \<Rightarrow> file_entry \<Rightarrow> bytes \<Rightarrow> placement result" where
  "place_file js pg e data = (if sha256 js data \<noteq> fe_sha256 e then Inl CorruptionError else Inr (place_entry pg e))"

fun plan_restore :: "codec_of_json \<Rightarrow> placing \<Rightarrow> (file_entry \<times> bytes) list \<Rightarrow> placement list result" where
  "plan_restore js pg [] = Inr []"
| "plan_restore js pg ((e, data) # files) =
     and_then (place_file js pg e data) (\<lambda>pm. and_then (plan_restore js pg files) (\<lambda>pms. Inr (pm # pms)))"

text \<open>A file that is not kept by a storage and not refused lies in one of the roots, with its symbolic links resolved.\<close>

lemma place_local_inside:
  "pm_problem (place_local pg pm path own_root) = None \<Longrightarrow> list_ex (is_inside (pm_target (place_local pg pm path own_root))) (pg_roots pg)"
  by (auto simp: place_local_def Let_def refuse_def split: if_splits)

lemma place_entry_inside:
  "pm_problem (place_entry pg e) = None \<Longrightarrow> fe_kind e \<noteq> ''storage'' \<Longrightarrow> list_ex (is_inside (pm_target (place_entry pg e))) (pg_roots pg)"
  using place_local_inside unfolding place_entry_def Let_def by (auto simp: refuse_def split: if_splits)

section \<open>Staging\<close>

record disk =
  dk_files :: "string \<rightharpoonup> bytes"
  dk_dirs :: "string list"

record faults =
  fl_mkdir :: "string \<Rightarrow> bool"
  fl_open :: "string \<Rightarrow> bool"
  fl_write :: "string \<Rightarrow> bytes \<Rightarrow> bool"
  fl_seal :: "string \<Rightarrow> bool"
  fl_replace :: "string \<Rightarrow> bool"
  fl_sync :: "string \<Rightarrow> bool"

record staged_files =
  sg_pending :: "(string \<times> placement) list"
  sg_created :: "string list"
  sg_published :: nat

definition no_staged_files :: staged_files where
  "no_staged_files = \<lparr>sg_pending = [], sg_created = [], sg_published = 0\<rparr>"

definition path_exists :: "disk \<Rightarrow> string \<Rightarrow> bool" where
  "path_exists dk p \<longleftrightarrow> p \<in> set (dk_dirs dk) \<or> dk_files dk p \<noteq> None"

lemma dirname_shorter: "posix_dirname p \<noteq> p \<Longrightarrow> length (posix_dirname p) < length p"
proof -
  assume ne: "posix_dirname p \<noteq> p"
  let ?head = "rev (dropWhile (\<lambda>c. c \<noteq> slash) (rev p))"
  have head: "prefix ?head p" by (metis suffix_dropWhile suffix_to_prefix rev_rev_ident)
  have strip: "prefix (text_rstrip slash s) s" for s
    unfolding text_rstrip_def by (metis suffix_dropWhile suffix_to_prefix rev_rev_ident)
  have "prefix (posix_dirname p) p"
    unfolding posix_dirname_def Let_def using head strip [of ?head] by (auto intro: prefix_order.trans)
  then show ?thesis using ne by (metis prefix_length_le le_neq_implies_less prefix_def append_eq_append_conv append_Nil2)
qed

function missing_directories :: "disk \<Rightarrow> string \<Rightarrow> string list" where
  "missing_directories dk probe =
     (if path_exists dk probe then []
      else if posix_dirname probe = probe then [probe]
      else probe # missing_directories dk (posix_dirname probe))"
  by pat_completeness auto
termination by (relation "measure (\<lambda>(dk, probe). length probe)") (auto dest: dirname_shorter)

declare missing_directories.simps [simp del]

fun make_directories :: "faults \<Rightarrow> string list \<Rightarrow> staged_files \<times> disk \<Rightarrow> unit result \<times> staged_files \<times> disk" where
  "make_directories fl [] w = (Inr (), w)"
| "make_directories fl (p # ps) (sg, dk) =
     (if path_exists dk p then make_directories fl ps (sg, dk)
      else if fl_mkdir fl p then (Inl OSError, sg, dk)
      else make_directories fl ps (sg\<lparr>sg_created := sg_created sg @ [p]\<rparr>, dk\<lparr>dk_dirs := p # dk_dirs dk\<rparr>))"

definition staging_suffix :: string where "staging_suffix = ''.dbs-restore''"

definition staging_path :: "string \<Rightarrow> string \<Rightarrow> string" where
  "staging_path token target =
     path_join (posix_dirname target) (''.'' @ posix_basename target @ ''.'' @ token @ staging_suffix)"

definition staging_begin :: "faults \<Rightarrow> string \<Rightarrow> placement \<Rightarrow> staged_files \<times> disk \<Rightarrow> string result \<times> staged_files \<times> disk" where
  "staging_begin fl token pm w =
     (case make_directories fl (rev (missing_directories (snd w) (posix_dirname (pm_target pm)))) w of
        (Inl e, w) \<Rightarrow> (Inl e, w)
      | (Inr _, sg, dk) \<Rightarrow>
          let path = staging_path token (pm_target pm)
          in if path_exists dk path then (Inl FileExistsError, sg, dk)
             else if fl_open fl path then (Inl OSError, sg, dk)
             else (Inr path, sg, dk\<lparr>dk_files := (dk_files dk)(path \<mapsto> [])\<rparr>))"

definition staging_write :: "faults \<Rightarrow> string \<Rightarrow> bytes \<Rightarrow> disk \<Rightarrow> unit result \<times> disk" where
  "staging_write fl path chunk dk =
     (if fl_write fl path chunk then (Inl OSError, dk)
      else (Inr (), dk\<lparr>dk_files := (dk_files dk)(path := map_option (\<lambda>c. c @ chunk) (dk_files dk path))\<rparr>))"

definition staging_abort :: "string \<Rightarrow> disk \<Rightarrow> disk" where
  "staging_abort path dk = dk\<lparr>dk_files := (dk_files dk)(path := None)\<rparr>"

definition staging_finish :: "faults \<Rightarrow> string \<Rightarrow> placement \<Rightarrow> staged_files \<times> disk \<Rightarrow> unit result \<times> staged_files \<times> disk" where
  "staging_finish fl path pm w =
     (case w of (sg, dk) \<Rightarrow>
        if fl_seal fl path then (Inl OSError, sg, staging_abort path dk)
        else (Inr (), sg\<lparr>sg_pending := sg_pending sg @ [(path, pm)]\<rparr>, dk))"

text \<open>\<open>publish\<close>: every file is tried; the ones that could not be moved are discarded and reported at the end.\<close>

fun publish_loop :: "faults \<Rightarrow> (string \<times> placement) list \<Rightarrow> nat \<Rightarrow> bool \<Rightarrow> disk \<Rightarrow> nat \<times> bool \<times> disk" where
  "publish_loop fl [] published failed dk = (published, failed, dk)"
| "publish_loop fl ((path, pm) # rest) published failed dk =
     (if fl_replace fl (pm_target pm) then publish_loop fl rest published True (staging_abort path dk)
      else let dk = dk\<lparr>dk_files := (dk_files dk)(pm_target pm := dk_files dk path, path := None)\<rparr>
      in if fl_sync fl (pm_target pm) then publish_loop fl rest published True (staging_abort path dk)
         else publish_loop fl rest (published + 1) failed dk)"

definition publish :: "faults \<Rightarrow> staged_files \<times> disk \<Rightarrow> unit result \<times> staged_files \<times> disk" where
  "publish fl w =
     (case w of (sg, dk) \<Rightarrow>
        case publish_loop fl (sg_pending sg) (sg_published sg) False dk of (published, failed, dk) \<Rightarrow>
          (if failed then Inl RestoreError else Inr (), sg\<lparr>sg_pending := [], sg_published := published\<rparr>, dk))"

definition directory_empty :: "disk \<Rightarrow> string \<Rightarrow> (string \<Rightarrow> bool) \<Rightarrow> bool" where
  "directory_empty dk d occupied \<longleftrightarrow> \<not> occupied d \<and> \<not> list_ex (\<lambda>p. p \<noteq> d \<and> posix_dirname p = d) (dk_dirs dk)"

text \<open>\<open>discard\<close>: the staged files, then the directories that were made, the last one first; \<open>occupied\<close> says which of
  them hold a file, so that \<^verbatim>\<open>rmdir\<close> fails.\<close>

definition discard :: "(string \<Rightarrow> bool) \<Rightarrow> staged_files \<times> disk \<Rightarrow> staged_files \<times> disk" where
  "discard occupied w =
     (case w of (sg, dk) \<Rightarrow>
        let dk = fold (\<lambda>(path, pm). staging_abort path) (sg_pending sg) dk;
            dk = fold (\<lambda>d dk. if directory_empty dk d occupied then dk\<lparr>dk_dirs := filter (\<lambda>p. p \<noteq> d) (dk_dirs dk)\<rparr> else dk)
                   (rev (sg_created sg)) dk
        in (sg\<lparr>sg_pending := [], sg_created := []\<rparr>, dk))"

section \<open>What staging does to the files\<close>

lemma staging_path_suffix: "suffix staging_suffix (staging_path token target)"
  unfolding staging_path_def path_join_def is_absolute_def by (auto simp: suffix_def)

lemma make_directories_files: "dk_files (snd (snd (make_directories fl ps w))) = dk_files (snd w) \<and>
    sg_pending (fst (snd (make_directories fl ps w))) = sg_pending (fst w)"
  by (induction fl ps w rule: make_directories.induct) auto

lemma staging_begin_files:
  assumes "staging_begin fl token pm (sg, dk) = (r, sg', dk')"
  shows "sg_pending sg' = sg_pending sg \<and>
    (case r of Inl e \<Rightarrow> dk_files dk' = dk_files dk
     | Inr path \<Rightarrow> dk_files dk path = None \<and> dk_files dk' = (dk_files dk)(path \<mapsto> []) \<and> suffix staging_suffix path)"
proof -
  obtain r1 sg1 dk1 where m: "make_directories fl (rev (missing_directories dk (posix_dirname (pm_target pm)))) (sg, dk) = (r1, sg1, dk1)"
    by (metis prod_cases3)
  have same: "dk_files dk1 = dk_files dk" "sg_pending sg1 = sg_pending sg"
    using make_directories_files [of fl "rev (missing_directories dk (posix_dirname (pm_target pm)))" "(sg, dk)"] m by simp_all
  show ?thesis using assms same staging_path_suffix
    by (cases r1) (auto simp: staging_begin_def m Let_def path_exists_def split: if_splits)
qed

lemma staging_write_files:
  assumes "staging_write fl path chunk dk = (r, dk')" "dk_files dk path = Some c"
  shows "dk_files dk' = (if r = Inr () then (dk_files dk)(path \<mapsto> c @ chunk) else dk_files dk)"
  using assms by (auto simp: staging_write_def split: if_splits)

lemma discard_files:
  "dk_files (snd (discard occupied (sg, dk))) = fold (\<lambda>(path, pm) m. m(path := None)) (sg_pending sg) (dk_files dk)"
proof -
  have dirs: "dk_files (fold (\<lambda>d dk. if directory_empty dk d occupied then dk\<lparr>dk_dirs := filter (\<lambda>p. p \<noteq> d) (dk_dirs dk)\<rparr> else dk) ds dk)
      = dk_files dk" for ds dk
    by (induction ds arbitrary: dk) auto
  have files: "dk_files (fold (\<lambda>(path, pm). staging_abort path) ps dk) = fold (\<lambda>(path, pm) m. m(path := None)) ps (dk_files dk)" for ps :: "(string \<times> placement) list" and dk
    by (induction ps arbitrary: dk) (auto simp: staging_abort_def)
  show ?thesis by (simp add: discard_def Let_def dirs files)
qed

text \<open>The pending files hold \<open>contents\<close> under names that were free, and nothing else has changed.\<close>

definition staged_ok :: "(string \<rightharpoonup> bytes) \<Rightarrow> (string \<times> placement) list \<Rightarrow> bytes list \<Rightarrow> (string \<rightharpoonup> bytes) \<Rightarrow> bool" where
  "staged_ok files0 pending contents files \<longleftrightarrow>
     length contents = length pending \<and> distinct (map fst pending) \<and>
     (\<forall>p \<in> set (map fst pending). files0 p = None \<and> suffix staging_suffix p) \<and>
     files = files0 ++ map_of (zip (map fst pending) contents)"

lemma staged_ok_Nil [simp]: "staged_ok files0 [] contents files \<longleftrightarrow> contents = [] \<and> files = files0"
  by (auto simp: staged_ok_def)

lemma staged_ok_snoc:
  assumes "staged_ok files0 pending contents files" "files path = None" "suffix staging_suffix path"
  shows "staged_ok files0 (pending @ [(path, pm)]) (contents @ [c]) (files(path \<mapsto> c))"
proof -
  have len: "length contents = length pending" and files: "files = files0 ++ map_of (zip (map fst pending) contents)"
    using assms(1) by (simp_all add: staged_ok_def)
  have none: "map_of (zip (map fst pending) contents) path = None" "files0 path = None"
    using assms(2) unfolding files by (auto simp: map_add_def split: option.splits)
  then have fresh: "path \<notin> fst ` set pending" using len by (auto simp: map_of_zip_is_None)
  have z: "zip (map fst pending @ [path]) (contents @ [c]) = zip (map fst pending) contents @ [(path, c)]" using len by simp
  have "map_of (zip (map fst pending @ [path]) (contents @ [c])) = (map_of (zip (map fst pending) contents))(path \<mapsto> c)"
    unfolding z by (rule ext) (simp add: map_of_append map_add_def none(1) split: option.split)
  then show ?thesis using assms(1,3) none(2) fresh unfolding staged_ok_def by (auto simp: files map_add_upd)
qed

lemma discard_staged:
  assumes "staged_ok files0 (sg_pending sg) contents (dk_files dk)"
  shows "dk_files (snd (discard occupied (sg, dk))) = files0"
proof -
  have "fold (\<lambda>(path, pm) m. m(path := None)) ps m = (\<lambda>p. if p \<in> fst ` set ps then None else m p)"
    for ps :: "(string \<times> placement) list" and m :: "string \<rightharpoonup> bytes"
    by (induction ps arbitrary: m) (auto simp: fun_eq_iff)
  moreover have "length contents = length (sg_pending sg)" using assms by (simp add: staged_ok_def)
  then have "p \<notin> fst ` set (sg_pending sg) \<Longrightarrow> map_of (zip (map fst (sg_pending sg)) contents) p = None" for p
    by (simp add: map_of_zip_is_None)
  ultimately show ?thesis using assms
    unfolding discard_files by (auto simp: staged_ok_def fun_eq_iff map_add_def split: option.splits)
qed

section \<open>What publishing does\<close>

definition put_files :: "(placement \<times> bytes) list \<Rightarrow> (string \<rightharpoonup> bytes) \<Rightarrow> (string \<rightharpoonup> bytes)" where
  "put_files new files = fold (\<lambda>(pm, c) m. m(pm_target pm \<mapsto> c)) new files"

lemma publish_one:
  assumes "staged_ok files0 ((path, pm) # pending) (c # contents) files" "\<not> suffix staging_suffix (pm_target pm)"
  shows "staged_ok (files0(pm_target pm \<mapsto> c)) pending contents (files(pm_target pm := files path, path := None))"
    and "staged_ok files0 pending contents (files(path := None))" and "files path = Some c"
proof -
  let ?t = "pm_target pm" and ?M = "map_of (zip (map fst pending) contents)"
  have I: "length contents = length pending" "distinct (map fst pending)" "path \<notin> set (map fst pending)" "files0 path = None"
      "suffix staging_suffix path" "\<forall>p \<in> set (map fst pending). files0 p = None \<and> suffix staging_suffix p"
      "files = files0 ++ (map_of ((path, c) # zip (map fst pending) contents))"
    using assms(1) by (auto simp: staged_ok_def)
  have M: "?M path = None" "?M ?t = None"
    using I(1,3,6) assms(2) by (auto simp: map_of_zip_is_None)
  have t: "?t \<noteq> path" using I(5) assms(2) by auto
  show fp: "files path = Some c" using M(1) by (simp add: I(7))
  have "files(?t := files path, path := None) = files0(?t \<mapsto> c) ++ ?M"
    using M t I(4) unfolding fp by (auto simp: fun_eq_iff I(7) map_add_def split: option.splits)
  moreover have "files(path := None) = files0 ++ ?M"
    using M I(4) by (auto simp: fun_eq_iff I(7) map_add_def split: option.splits)
  ultimately show "staged_ok (files0(?t \<mapsto> c)) pending contents (files(?t := files path, path := None))"
    "staged_ok files0 pending contents (files(path := None))"
    using I(1,2,6) assms(2) by (auto simp: staged_ok_def)
qed

lemma publish_loop_files:
  assumes "staged_ok files0 pending contents (dk_files dk)" "\<forall>(path, pm) \<in> set pending. \<not> suffix staging_suffix (pm_target pm)"
    and "publish_loop fl pending published failed dk = (n, failed', dk')"
  shows "(\<not> failed' \<longrightarrow> \<not> failed \<and> n = published + length pending \<and> dk_files dk' = put_files (zip (map snd pending) contents) files0) \<and>
    (\<forall>p. dk_files dk' p = files0 p \<or> list_ex (\<lambda>(pm, c). pm_target pm = p \<and> dk_files dk' p = Some c) (zip (map snd pending) contents))"
  using assms
proof (induction pending arbitrary: contents files0 published failed dk)
  case Nil
  then show ?case by (auto simp: put_files_def)
next
  case (Cons pp pending)
  obtain path pm where pp: "pp = (path, pm)" by (cases pp)
  obtain c cs where contents: "contents = c # cs" using Cons.prems(1) by (cases contents) (auto simp: staged_ok_def)
  have t: "\<not> suffix staging_suffix (pm_target pm)" "\<forall>(path, pm) \<in> set pending. \<not> suffix staging_suffix (pm_target pm)"
    using Cons.prems(2) pp by auto
  note one = publish_one [OF Cons.prems(1) [unfolded pp contents] t(1)]
  have t_path: "pm_target pm \<noteq> path" using Cons.prems(1) t(1) pp by (auto simp: staged_ok_def)
  let ?z = "zip (map snd pending) cs"
  show ?case
  proof (cases "fl_replace fl (pm_target pm)")
    case True
    then have run: "publish_loop fl pending published True (staging_abort path dk) = (n, failed', dk')" using Cons.prems(3) pp by simp
    have "staged_ok files0 pending cs (dk_files (staging_abort path dk))" using one(2) by (simp add: staging_abort_def)
    from Cons.IH [OF this t(2) run] show ?thesis by (auto simp: pp contents)
  next
    case False
    let ?dk = "dk\<lparr>dk_files := (dk_files dk)(pm_target pm := dk_files dk path, path := None)\<rparr>"
    have moved: "staged_ok (files0(pm_target pm \<mapsto> c)) pending cs (dk_files ?dk)" using one(1) by simp
    have "staging_abort path ?dk = ?dk" by (simp add: staging_abort_def)
    then obtain m f where run: "publish_loop fl pending m f ?dk = (n, failed', dk')"
        "\<not> f \<longrightarrow> \<not> failed \<and> m = published + 1"
      using Cons.prems(3) False pp by (cases "fl_sync fl (pm_target pm)") (auto simp: Let_def)
    note IH = Cons.IH [OF moved t(2) run(1)]
    show ?thesis
    proof (intro conjI impI allI)
      assume "\<not> failed'"
      then show "\<not> failed" "n = published + length (pp # pending)" "dk_files dk' = put_files (zip (map snd (pp # pending)) contents) files0"
        using conjunct1 [OF IH, rule_format, OF \<open>\<not> failed'\<close>] run(2) by (simp_all add: pp contents put_files_def)
    next
      fix p
      show "dk_files dk' p = files0 p \<or>
          list_ex (\<lambda>(pm, c). pm_target pm = p \<and> dk_files dk' p = Some c) (zip (map snd (pp # pending)) contents)"
        using spec [OF conjunct2 [OF IH], of p] by (cases "p = pm_target pm") (auto simp: pp contents)
    qed
  qed
qed

end
