(* ===== verification/Restore.thy ===== *)
theory Restore
  imports StagedFiles "HOL-Library.Char_ord" "HOL-Library.List_Lexorder"
begin

text \<open>
  Restoring a version 2 backup, \<^verbatim>\<open>src/dbs/engine/restore.py\<close> (\<^verbatim>\<open>_restore_stream\<close>): the payload is read once, from its
  pieces; files are staged as they arrive, rows are loaded in one transaction, and the staged files are moved into place when
  it has committed. The database is a state with the operations of \<open>rows\<close>: what loads a batch (\<^verbatim>\<open>NaturalKeyResolver\<close> and
  \<^verbatim>\<open>RowLoader\<close> of \<^verbatim>\<open>serialize.py\<close>), what flushes tables, and the commit are its arguments. A transaction that fails
  leaves the state it began with. Log messages and the report of the container are left out.
\<close>

record 'd rows =
  ro_known :: "string \<Rightarrow> bool"
  ro_exist :: "string \<Rightarrow> 'd \<Rightarrow> bool"
  ro_flush :: "string list \<Rightarrow> 'd \<Rightarrow> (nat \<times> 'd) result"
  ro_decode :: "py list \<Rightarrow> py list result"
  ro_save :: "py list \<Rightarrow> 'd \<Rightarrow> 'd result"
  ro_finish :: "bool \<Rightarrow> 'd \<Rightarrow> (nat \<times> 'd) result"
  ro_commit :: "'d \<Rightarrow> 'd result"

record translation =
  tr_labels :: "string list \<Rightarrow> string list"
  tr_records :: "py \<Rightarrow> py list"

definition UNTRANSLATED :: translation where
  "UNTRANSLATED = \<lparr>tr_labels = (\<lambda>order. order), tr_records = (\<lambda>record. [record])\<rparr>"

record restore_options =
  op_load_data :: bool
  op_write_files :: bool
  op_dry_run :: bool
  op_flush :: bool

record restore_result =
  rs_loaded :: nat
  rs_files_written :: nat
  rs_models :: py
  rs_would_load :: nat
  rs_would_write :: nat
  rs_flushed :: nat
  rs_preexisting :: "string list"
  rs_refused :: "refusal list"

section \<open>Rows that name moved files\<close>

text \<open>\<open>str_of\<close> is \<^verbatim>\<open>str\<close> of a value of JSON.\<close>

type_synonym moved_files = "((py \<times> string \<times> py) \<times> string) list"

definition moved_files :: "(py \<Rightarrow> string) \<Rightarrow> placement list \<Rightarrow> moved_files" where
  "moved_files str_of placements =
     rev (map (\<lambda>pm. ((fe_model (pm_entry pm), str_of (fe_pk (pm_entry pm)), fe_field (pm_entry pm)), pm_moved_to pm))
       (filter (\<lambda>pm. pm_moved_to pm \<noteq> [] \<and> pm_problem pm = None) placements))"

definition point_row :: "(py \<Rightarrow> string) \<Rightarrow> moved_files \<Rightarrow> py \<Rightarrow> py" where
  "point_row str_of moved r =
     (let found = (\<lambda>name. map_of moved (py_get r ''model'', str_of (py_get r ''pk''), PStr name))
      in case (r, py_get r ''fields'') of
           (PDict items, PDict fs) \<Rightarrow>
             if list_ex (\<lambda>(name, v). found name \<noteq> None) fs
             then PDict (AList.update ''fields'' (PDict (map (\<lambda>(name, v). (name, case found name of Some path \<Rightarrow> PStr path | None \<Rightarrow> v)) fs)) items)
             else r
         | _ \<Rightarrow> r)"

definition point_rows :: "(py \<Rightarrow> string) \<Rightarrow> moved_files \<Rightarrow> py list \<Rightarrow> py list" where
  "point_rows str_of moved rs = (if moved = [] then rs else map (point_row str_of moved) rs)"

section \<open>Staging the files of a payload\<close>

function stage_chunks ::
  "codec_of_json \<Rightarrow> faults \<Rightarrow> nat \<Rightarrow> string \<Rightarrow> payload_reader \<Rightarrow> bytes list \<Rightarrow> disk \<Rightarrow> (file_outcome \<times> payload_reader) result \<times> disk" where
  "stage_chunks js fl index path pr chunks dk =
     (case pop_frame pr of
        Inl e \<Rightarrow> (Inl e, dk)
      | Inr ((kind, body), pr1) \<Rightarrow>
          if kind = FILE_DATA
          then (if length body < struct_size FILE_INDEX \<or> be_nat (take (struct_size FILE_INDEX) body) \<noteq> index then (malformed, dk)
                else case staging_write fl path (drop (struct_size FILE_INDEX) body) dk of
                  (Inl e, dk) \<Rightarrow> (Inl e, dk)
                | (Inr _, dk) \<Rightarrow> stage_chunks js fl index path pr1 (chunks @ [drop (struct_size FILE_INDEX) body]) dk)
          else if kind \<noteq> FILE_END then (malformed, dk)
          else (and_then (parsed js body) (\<lambda>ending.
               and_then (file_finish js index ending chunks) (\<lambda>out.
                 Inr (out, if fo_skipped out = []
                           then pr1\<lparr>pr_entries := (pr_entries pr1)
                                  [index := (pr_entries pr1 ! index)\<lparr>fe_sha256 := fo_sha256 out\<rparr>]\<rparr>
                           else pr1))), dk))"
  by pat_completeness auto
termination
  by (relation "measure (\<lambda>(js, fl, index, path, pr, chunks, dk). left_to_read pr)") (auto dest: pop_frame_less)

declare stage_chunks.simps [simp del]

definition stage_file ::
  "codec_of_json \<Rightarrow> faults \<Rightarrow> (nat \<Rightarrow> string) \<Rightarrow> placement list \<Rightarrow> nat \<Rightarrow> payload_reader \<Rightarrow> staged_files \<times> disk \<Rightarrow>
   payload_reader result \<times> staged_files \<times> disk" where
  "stage_file js fl tokens placements index pr w =
     (if placements = [] then (and_then (file_chunks js index pr []) (\<lambda>(_, pr). Inr pr), w)
      else case staging_begin fl (tokens index) (placements ! index) w of
        (Inl e, w) \<Rightarrow> (Inl e, w)
      | (Inr path, sg, dk) \<Rightarrow>
          (case stage_chunks js fl index path pr [] dk of
             (Inl e, dk) \<Rightarrow> (Inl e, sg, staging_abort path dk)
           | (Inr (out, pr), dk) \<Rightarrow>
               if fo_skipped out \<noteq> [] then (Inr pr, sg, staging_abort path dk)
               else (case staging_finish fl path (placements ! index) (sg, dk) of
                       (Inl e, w) \<Rightarrow> (Inl e, w)
                     | (Inr _, w) \<Rightarrow> (Inr pr, w))))"

fun stage_loop ::
  "codec_of_json \<Rightarrow> faults \<Rightarrow> (nat \<Rightarrow> string) \<Rightarrow> placement list \<Rightarrow> nat list \<Rightarrow> payload_reader \<Rightarrow> staged_files \<times> disk \<Rightarrow>
   payload_reader result \<times> staged_files \<times> disk" where
  "stage_loop js fl tokens placements [] pr w = (Inr pr, w)"
| "stage_loop js fl tokens placements (index # rest) pr w =
     (case stage_file js fl tokens placements index pr w of
        (Inl e, w) \<Rightarrow> (Inl e, w)
      | (Inr pr, w) \<Rightarrow> stage_loop js fl tokens placements rest pr w)"

definition stage_files ::
  "codec_of_json \<Rightarrow> faults \<Rightarrow> (nat \<Rightarrow> string) \<Rightarrow> placement list \<Rightarrow> payload_reader \<Rightarrow> staged_files \<times> disk \<Rightarrow>
   payload_reader result \<times> staged_files \<times> disk" where
  "stage_files js fl tokens placements pr w =
     (case expect_phase PhFiles pr of
        Inl e \<Rightarrow> (Inl e, w)
      | Inr _ \<Rightarrow>
          (case stage_loop js fl tokens placements [0..<length (pr_entries pr)] pr w of
             (Inl e, w) \<Rightarrow> (Inl e, w)
           | (Inr pr, w) \<Rightarrow> (Inr (pr\<lparr>pr_phase := PhRecords\<rparr>), w)))"

definition drain_files :: "codec_of_json \<Rightarrow> payload_reader \<Rightarrow> payload_reader result" where
  "drain_files js pr = and_then (read_files js pr) (\<lambda>(_, pr). Inr pr)"

section \<open>Loading rows\<close>

text \<open>\<open>_StreamedRows.load\<close>: each batch is loaded as it arrives.\<close>

definition load_batch :: "'d rows \<Rightarrow> translation \<Rightarrow> (py \<Rightarrow> string) \<Rightarrow> moved_files \<Rightarrow> py list \<Rightarrow> 'd \<Rightarrow> 'd result" where
  "load_batch ro tr str_of moved batch db =
     and_then (ro_decode ro batch) (\<lambda>batch. ro_save ro (point_rows str_of moved (concat (map (tr_records tr) batch))) db)"

function load_loop ::
  "codec_of_json \<Rightarrow> 'd rows \<Rightarrow> translation \<Rightarrow> (py \<Rightarrow> string) \<Rightarrow> moved_files \<Rightarrow> payload_reader \<Rightarrow> 'd \<Rightarrow> ('d \<times> payload_reader) result" where
  "load_loop js ro tr str_of moved pr db =
     (case peek_frame pr of
        Inl e \<Rightarrow> Inl e
      | Inr ((kind, _), pr1) \<Rightarrow>
          if kind \<noteq> RECORDS then Inr (db, pr1)
          else (case pop_frame pr1 of
                  Inl e \<Rightarrow> Inl e
                | Inr ((_, body), pr2) \<Rightarrow>
                    (case read_batch js True body pr2 of
                       Inl e \<Rightarrow> Inl e
                     | Inr (batch, pr3) \<Rightarrow>
                         (case load_batch ro tr str_of moved (the batch) db of
                            Inl e \<Rightarrow> Inl e
                          | Inr db \<Rightarrow> load_loop js ro tr str_of moved pr3 db))))"
  by pat_completeness auto
termination
  by (relation "measure (\<lambda>(js, ro, tr, str_of, moved, pr, db). left_to_read pr)") (auto dest: read_batch_less)

declare load_loop.simps [simp del]

definition load_rows ::
  "codec_of_json \<Rightarrow> 'd rows \<Rightarrow> translation \<Rightarrow> (py \<Rightarrow> string) \<Rightarrow> moved_files \<Rightarrow> payload_reader \<Rightarrow> 'd \<Rightarrow> ('d \<times> payload_reader) result" where
  "load_rows js ro tr str_of moved pr db =
     and_then (expect_phase PhRecords pr) (\<lambda>_.
     and_then (load_loop js ro tr str_of moved pr db) (\<lambda>(db, pr). Inr (db, pr\<lparr>pr_phase := PhTrailer\<rparr>)))"

definition finish_stream :: "codec_of_json \<Rightarrow> bool \<Rightarrow> payload_reader \<Rightarrow> py result" where
  "finish_stream js records pr =
     and_then (if records then Inr pr else and_then (record_batches js False pr) (\<lambda>(_, pr). Inr pr)) (\<lambda>pr.
     and_then (read_trailer js pr) (\<lambda>(_, pr).
     and_then (payload_finish pr) (\<lambda>pr.
     Inr (case py_get (payload_stats pr) ''models'' of PNone \<Rightarrow> PList [] | v \<Rightarrow> v))))"

text \<open>The body of the transaction, of \<open>_load_stream\<close> and of \<open>_rehearse_stream\<close>.\<close>

definition load_body ::
  "codec_of_json \<Rightarrow> 'd rows \<Rightarrow> translation \<Rightarrow> (py \<Rightarrow> string) \<Rightarrow> moved_files \<Rightarrow> string list \<Rightarrow> bool \<Rightarrow> bool \<Rightarrow> payload_reader \<Rightarrow> 'd \<Rightarrow>
   (nat \<times> nat \<times> py \<times> 'd) result" where
  "load_body js ro tr str_of moved models flush adjust pr db =
     and_then (if flush then ro_flush ro models db else Inr (0, db)) (\<lambda>(flushed, db).
     and_then (load_rows js ro tr str_of moved pr db) (\<lambda>(db, pr).
     and_then (finish_stream js True pr) (\<lambda>stats.
     and_then (ro_finish ro adjust db) (\<lambda>(loaded, db).
     Inr (flushed, loaded, stats, db)))))"

definition load_stream ::
  "codec_of_json \<Rightarrow> 'd rows \<Rightarrow> translation \<Rightarrow> (py \<Rightarrow> string) \<Rightarrow> moved_files \<Rightarrow> string list \<Rightarrow> bool \<Rightarrow> payload_reader \<Rightarrow> 'd \<Rightarrow>
   (nat \<times> nat \<times> py \<times> 'd) result" where
  "load_stream js ro tr str_of moved models flush pr db =
     and_then (load_body js ro tr str_of moved models flush True pr db) (\<lambda>(flushed, loaded, stats, db).
     and_then (ro_commit ro db) (\<lambda>db. Inr (flushed, loaded, stats, db)))"

section \<open>The restore\<close>

definition payload_start :: "codec_of_json \<Rightarrow> bytes list \<Rightarrow> (py \<times> file_entry list \<times> payload_reader) result" where
  "payload_start js ps =
     and_then (open_payload ps) (\<lambda>pr.
     and_then (read_header js pr) (\<lambda>(header, pr).
     and_then (read_manifest js pr) (\<lambda>(entries, pr). Inr (header, entries, pr))))"

definition models_named :: "'d rows \<Rightarrow> string list \<Rightarrow> string list" where
  "models_named ro labels = filter (ro_known ro) (sort (remdups labels))"

record 'd restoring =
  rg_rows :: "'d rows"
  rg_translation :: translation
  rg_str :: "py \<Rightarrow> string"
  rg_placing :: placing
  rg_faults :: faults
  rg_tokens :: "nat \<Rightarrow> string"
  rg_occupied :: "string \<Rightarrow> bool"

definition rehearse ::
  "codec_of_json \<Rightarrow> 'd restoring \<Rightarrow> restore_options \<Rightarrow> string list \<Rightarrow> placement list \<Rightarrow> restore_result \<Rightarrow> payload_reader \<Rightarrow> 'd \<Rightarrow> restore_result result" where
  "rehearse js rg opts models placements out pr db =
     and_then (drain_files js pr) (\<lambda>pr.
     let out = out\<lparr>rs_would_write := length placements - length (rs_refused out)\<rparr>
     in if op_load_data opts
        then and_then (load_body js (rg_rows rg) (rg_translation rg) (rg_str rg) (moved_files (rg_str rg) placements) models (op_flush opts) False pr db)
               (\<lambda>(flushed, loaded, stats, _). Inr (out\<lparr>rs_flushed := flushed, rs_would_load := loaded, rs_models := stats\<rparr>))
        else and_then (finish_stream js False pr) (\<lambda>stats. Inr (out\<lparr>rs_models := stats\<rparr>)))"

text \<open>What follows the staging of the files: the rows, or reading past them.\<close>

definition rows_of_restore ::
  "codec_of_json \<Rightarrow> 'd restoring \<Rightarrow> restore_options \<Rightarrow> string list \<Rightarrow> placement list \<Rightarrow> payload_reader \<Rightarrow> 'd \<Rightarrow> (nat \<times> nat \<times> py \<times> 'd) result" where
  "rows_of_restore js rg opts models placements pr db =
     (if op_load_data opts
      then load_stream js (rg_rows rg) (rg_translation rg) (rg_str rg) (moved_files (rg_str rg) placements) models (op_flush opts) pr db
      else and_then (finish_stream js False pr) (\<lambda>stats. Inr (0, 0, stats, db)))"

definition restore_files_and_rows ::
  "codec_of_json \<Rightarrow> 'd restoring \<Rightarrow> restore_options \<Rightarrow> string list \<Rightarrow> placement list \<Rightarrow> restore_result \<Rightarrow> payload_reader \<Rightarrow> 'd \<Rightarrow> disk \<Rightarrow>
   restore_result result \<times> 'd \<times> disk" where
  "restore_files_and_rows js rg opts models placements out pr db dk =
     (let fl = rg_faults rg; undo = (\<lambda>w. snd (discard (rg_occupied rg) w))
      in case stage_files js fl (rg_tokens rg) placements pr (no_staged_files, dk) of
           (Inl e, w) \<Rightarrow> (Inl e, db, undo w)
         | (Inr pr, w) \<Rightarrow>
             (case rows_of_restore js rg opts models placements pr db of
                Inl e \<Rightarrow> (Inl e, db, undo w)
              | Inr (flushed, loaded, stats, db) \<Rightarrow>
                  (case publish fl w of
                     (Inl e, w) \<Rightarrow> (Inl e, db, undo w)
                   | (Inr _, sg, dk) \<Rightarrow>
                       (Inr (out\<lparr>rs_flushed := flushed, rs_loaded := loaded, rs_models := stats, rs_files_written := sg_published sg\<rparr>), db, dk))))"

definition restore_stream ::
  "codec_of_json \<Rightarrow> 'd restoring \<Rightarrow> restore_options \<Rightarrow> bytes list \<Rightarrow> 'd \<Rightarrow> disk \<Rightarrow> restore_result result \<times> 'd \<times> disk" where
  "restore_stream js rg opts ps db dk =
     (case payload_start js ps of
        Inl e \<Rightarrow> (Inl e, db, dk)
      | Inr (header, entries, pr) \<Rightarrow>
          let order = tr_labels (rg_translation rg) (map py_text (py_items (py_get header ''order'')));
              models = models_named (rg_rows rg) order;
              placements = (if op_write_files opts then plan_entries (rg_placing rg) entries else []);
              refused = List.map_filter pm_problem placements;
              out = \<lparr>rs_loaded = 0, rs_files_written = 0, rs_models = PList [], rs_would_load = 0, rs_would_write = 0, rs_flushed = 0,
                     rs_preexisting = filter (\<lambda>m. ro_exist (rg_rows rg) m db) models, rs_refused = refused\<rparr>
          in if op_dry_run opts then (rehearse js rg opts models placements out pr db, db, dk)
             else if refused \<noteq> [] then (Inl RestoreError, db, dk)
             else restore_files_and_rows js rg opts models placements out pr db dk)"

section \<open>Staging reads what reading reads\<close>

lemma file_finish_chunks: "file_finish js index ending chunks = Inr out \<Longrightarrow> fo_chunks out = chunks"
  by (auto simp: file_finish_def Let_def split: if_splits)

lemma stage_chunks_ok:
  "stage_chunks js fl index path pr chunks dk = (r, dk') \<Longrightarrow> dk_files dk path = Some (concat chunks) \<Longrightarrow>
   (\<exists>c. dk_files dk' = (dk_files dk)(path \<mapsto> c)) \<and>
   (case r of Inl e \<Rightarrow> True
    | Inr (out, pr') \<Rightarrow> file_chunks js index pr chunks = Inr (out, pr') \<and> dk_files dk' = (dk_files dk)(path \<mapsto> concat (fo_chunks out)))"
proof (induction js fl index path pr chunks dk arbitrary: r dk' rule: stage_chunks.induct)
  case (1 js fl index path pr chunks dk)
  have same: "\<exists>c. dk_files dk = (dk_files dk)(path \<mapsto> c)" using fun_upd_idem [of "dk_files dk" path, OF "1.prems"(2)] by metis
  show ?case
  proof (cases "pop_frame pr")
    case (Inl e)
    then have "r = Inl e" "dk' = dk" using "1.prems"(1) by (auto simp: stage_chunks.simps [of js fl index path pr])
    then show ?thesis using same by (simp only: sum.case simp_thms)
  next
    case (Inr f)
    obtain kind body pr1 where f: "f = ((kind, body), pr1)" by (metis prod.collapse)
    let ?chunk = "drop (struct_size FILE_INDEX) body"
    let ?bad = "length body < struct_size FILE_INDEX \<or> be_nat (take (struct_size FILE_INDEX) body) \<noteq> index"
    consider "kind = FILE_DATA" "\<not> ?bad" | "kind = FILE_DATA" ?bad | "kind \<noteq> FILE_DATA" by blast
    then show ?thesis
    proof cases
      case 1
      obtain w dk1 where w: "staging_write fl path ?chunk dk = (w, dk1)" by fastforce
      note files = staging_write_files [OF w "1.prems"(2)]
      have step: "stage_chunks js fl index path pr chunks dk =
          (case w of Inl e \<Rightarrow> (Inl e, dk1) | Inr _ \<Rightarrow> stage_chunks js fl index path pr1 (chunks @ [?chunk]) dk1)"
        using Inr f 1 w by (subst stage_chunks.simps) (auto split: sum.splits)
      show ?thesis
      proof (cases w)
        case Inl_w: (Inl e)
        then have "r = Inl e" "dk_files dk' = dk_files dk" using "1.prems"(1) step files by simp_all
        then show ?thesis using same by (simp only: sum.case simp_thms)
      next
        case Inr_w: (Inr u)
        have dk1: "dk_files dk1 path = Some (concat (chunks @ [?chunk]))" "dk_files dk1 = (dk_files dk)(path \<mapsto> concat chunks @ ?chunk)"
          using files Inr_w by simp_all
        have run: "stage_chunks js fl index path pr1 (chunks @ [?chunk]) dk1 = (r, dk')" using "1.prems"(1) step Inr_w by simp
        have fc: "file_chunks js index pr chunks = file_chunks js index pr1 (chunks @ [?chunk])"
          using Inr f 1 by (subst file_chunks.simps) simp
        have "(\<exists>c. dk_files dk' = (dk_files dk1)(path \<mapsto> c)) \<and>
            (case r of Inl e \<Rightarrow> True
             | Inr (out, pr') \<Rightarrow> file_chunks js index pr1 (chunks @ [?chunk]) = Inr (out, pr') \<and>
                 dk_files dk' = (dk_files dk1)(path \<mapsto> concat (fo_chunks out)))"
          using "1.IH" [OF Inr f [symmetric] refl 1(1) 1(2) w [symmetric] Inr_w run dk1(1)] .
        then show ?thesis unfolding fc dk1(2) fun_upd_upd .
      qed
    next
      case 2
      then have "stage_chunks js fl index path pr chunks dk = (malformed, dk)" using Inr f by (subst stage_chunks.simps) simp
      then have "r = malformed" "dk' = dk" using "1.prems"(1) by simp_all
      then show ?thesis using same by (simp only: sum.case simp_thms)
    next
      case 3
      have fc: "file_chunks js index pr chunks = r" and dk': "dk' = dk"
        using "1.prems"(1) Inr f 3
        by (auto simp: stage_chunks.simps [of js fl index path pr] file_chunks.simps [of js index pr] split: if_splits)
      show ?thesis
      proof (cases r)
        case (Inl e)
        then show ?thesis using same dk' by (simp only: sum.case simp_thms)
      next
        case r: (Inr res)
        obtain out pr' where res: "res = (out, pr')" by (cases res)
        have "fo_chunks out = chunks"
          using fc r res Inr f 3 by (auto simp: file_chunks.simps [of js index pr] file_finish_chunks split: if_splits)
        then have "dk_files dk = (dk_files dk)(path \<mapsto> concat (fo_chunks out))"
          using fun_upd_idem [of "dk_files dk" path, OF "1.prems"(2)] by (simp only:)
        then show ?thesis using same dk' fc r res by (simp only: sum.case prod.case simp_thms)
      qed
    qed
  qed
qed


text \<open>What becomes of the files that were staged, and what the payload gave for them.\<close>

definition new_files :: "placement list \<Rightarrow> nat list \<Rightarrow> file_outcome list \<Rightarrow> (placement \<times> bytes) list" where
  "new_files placements indices outs =
     map (\<lambda>(i, out). (placements ! i, concat (fo_chunks out))) (filter (\<lambda>(i, out). fo_skipped out = []) (zip indices outs))"

lemma stage_file_ok:
  assumes "stage_file js fl tokens placements index pr (sg, dk) = (r, sg', dk')" "placements \<noteq> []"
    and "staged_ok files0 (sg_pending sg) contents (dk_files dk)"
  shows "case r of
      Inl e \<Rightarrow> staged_ok files0 (sg_pending sg') contents (dk_files dk')
    | Inr pr' \<Rightarrow> \<exists>out contents'. file_chunks js index pr [] = Inr (out, pr') \<and>
        staged_ok files0 (sg_pending sg') contents' (dk_files dk') \<and>
        map snd (sg_pending sg') = map snd (sg_pending sg) @ map fst (new_files placements [index] [out]) \<and>
        contents' = contents @ map snd (new_files placements [index] [out])"
proof -
  obtain rb sg1 dk1 where begins: "staging_begin fl (tokens index) (placements ! index) (sg, dk) = (rb, sg1, dk1)"
    by (metis prod_cases3)
  note B = staging_begin_files [OF begins]
  show ?thesis
  proof (cases rb)
    case (Inl e)
    then have "r = Inl e" "sg' = sg1" "dk' = dk1" using assms(1,2) begins by (simp_all add: stage_file_def)
    then show ?thesis using B Inl assms(3) by simp
  next
    case (Inr path)
    have b: "dk_files dk path = None" "dk_files dk1 = (dk_files dk)(path \<mapsto> [])" "suffix staging_suffix path" "sg_pending sg1 = sg_pending sg"
      using B Inr by simp_all
    obtain rc dk2 where chunks: "stage_chunks js fl index path pr [] dk1 = (rc, dk2)" by fastforce
    have at: "dk_files dk1 path = Some (concat [])" by (simp add: b(2))
    note C = stage_chunks_ok [OF chunks at]
    obtain c where c: "dk_files dk2 = (dk_files dk)(path \<mapsto> c)" using C unfolding b(2) fun_upd_upd by blast
    have aborted: "dk_files (staging_abort path dk2) = dk_files dk"
      using b(1) unfolding staging_abort_def by (simp add: c fun_upd_idem)
    have step: "stage_file js fl tokens placements index pr (sg, dk) =
        (case rc of
           Inl e \<Rightarrow> (Inl e, sg1, staging_abort path dk2)
         | Inr (out, pr) \<Rightarrow>
             if fo_skipped out \<noteq> [] then (Inr pr, sg1, staging_abort path dk2)
             else (case staging_finish fl path (placements ! index) (sg1, dk2) of
                     (Inl e, w) \<Rightarrow> (Inl e, w)
                   | (Inr _, w) \<Rightarrow> (Inr pr, w)))"
      using assms(2) begins Inr chunks by (simp add: stage_file_def split: sum.splits)
    show ?thesis
    proof (cases rc)
      case Inl_rc: (Inl e)
      then have "r = Inl e" "sg' = sg1" "dk' = staging_abort path dk2" using assms(1) step by simp_all
      then show ?thesis using assms(3) aborted b(4) by simp
    next
      case Inr_rc: (Inr res)
      obtain out pr' where res: "res = (out, pr')" by (cases res)
      have out: "file_chunks js index pr [] = Inr (out, pr')" "dk_files dk2 = (dk_files dk)(path \<mapsto> concat (fo_chunks out))"
        using C unfolding b(2) fun_upd_upd Inr_rc res by simp_all
      show ?thesis
      proof (cases "fo_skipped out = []")
        case False
        then have "r = Inr pr'" "sg' = sg1" "dk' = staging_abort path dk2" using assms(1) step Inr_rc res by simp_all
        then show ?thesis using assms(3) aborted b(4) out(1) False by (simp add: new_files_def)
      next
        case True
        show ?thesis
        proof (cases "fl_seal fl path")
          case sealed: True
          then have "r = Inl OSError" "sg' = sg1" "dk' = staging_abort path dk2"
            using assms(1) step Inr_rc res True by (simp_all add: staging_finish_def)
          then show ?thesis using assms(3) aborted b(4) by simp
        next
          case False
          then have e: "r = Inr pr'" "sg' = sg1\<lparr>sg_pending := sg_pending sg1 @ [(path, placements ! index)]\<rparr>" "dk' = dk2"
            using assms(1) step Inr_rc res True by (simp_all add: staging_finish_def)
          have "staged_ok files0 (sg_pending sg @ [(path, placements ! index)]) (contents @ [concat (fo_chunks out)]) (dk_files dk2)"
            unfolding out(2) by (rule staged_ok_snoc [OF assms(3) b(1,3)])
          then show ?thesis using e out(1) True b(4) by (simp add: new_files_def)
        qed
      qed
    qed
  qed
qed

lemma stage_loop_ok:
  assumes "stage_loop js fl tokens placements indices pr (sg, dk) = (r, sg', dk')" "placements \<noteq> []"
    and "staged_ok files0 (sg_pending sg) contents (dk_files dk)"
  shows "case r of
      Inl e \<Rightarrow> \<exists>contents'. staged_ok files0 (sg_pending sg') contents' (dk_files dk')
    | Inr pr' \<Rightarrow> \<exists>outs contents'. files_loop js indices pr = Inr (outs, pr') \<and>
        staged_ok files0 (sg_pending sg') contents' (dk_files dk') \<and>
        map snd (sg_pending sg') = map snd (sg_pending sg) @ map fst (new_files placements indices outs) \<and>
        contents' = contents @ map snd (new_files placements indices outs)"
  using assms
proof (induction indices arbitrary: pr sg dk contents)
  case Nil
  then show ?case by (auto simp: new_files_def)
next
  case (Cons index indices)
  obtain r1 sg1 dk1 where one: "stage_file js fl tokens placements index pr (sg, dk) = (r1, sg1, dk1)" by (metis prod_cases3)
  note F = stage_file_ok [OF one Cons.prems(2,3)]
  show ?case
  proof (cases r1)
    case (Inl e)
    then have "r = Inl e" "sg' = sg1" "dk' = dk1" using Cons.prems(1) one by simp_all
    then show ?thesis using F Inl by auto
  next
    case (Inr pr1)
    obtain out contents1 where f: "file_chunks js index pr [] = Inr (out, pr1)" "staged_ok files0 (sg_pending sg1) contents1 (dk_files dk1)"
        "map snd (sg_pending sg1) = map snd (sg_pending sg) @ map fst (new_files placements [index] [out])"
        "contents1 = contents @ map snd (new_files placements [index] [out])"
      using F unfolding Inr sum.case by blast
    have rest: "stage_loop js fl tokens placements indices pr1 (sg1, dk1) = (r, sg', dk')" using Cons.prems(1) one Inr by simp
    have cons: "new_files placements (index # indices) (out # outs) = new_files placements [index] [out] @ new_files placements indices outs" for outs
      by (simp add: new_files_def)
    note IH = Cons.IH [OF rest Cons.prems(2) f(2)]
    show ?thesis
    proof (cases r)
      case Inl_r: (Inl e)
      then show ?thesis using IH by simp
    next
      case Inr_r: (Inr pr')
      then obtain outs contents' where "files_loop js indices pr1 = Inr (outs, pr')" "staged_ok files0 (sg_pending sg') contents' (dk_files dk')"
          "map snd (sg_pending sg') = map snd (sg_pending sg1) @ map fst (new_files placements indices outs)"
          "contents' = contents1 @ map snd (new_files placements indices outs)"
        using IH unfolding Inr_r sum.case by blast
      then show ?thesis unfolding Inr_r sum.case
        by (intro exI [of _ "out # outs"] exI [of _ contents']) (simp add: f(1,3,4) cons)
    qed
  qed
qed

lemma drain_loop_ok: "stage_loop js fl tokens [] indices pr w = (case files_loop js indices pr of Inl e \<Rightarrow> (Inl e, w) | Inr (outs, pr') \<Rightarrow> (Inr pr', w))"
proof (induction indices arbitrary: pr)
  case (Cons index indices)
  then show ?case by (auto simp: stage_file_def and_then_def split: sum.splits prod.splits)
qed simp


section \<open>What a restore leaves\<close>

text \<open>The placements of the files that the backup carries, with their contents.\<close>

definition restored_files :: "placement list \<Rightarrow> file_outcome list \<Rightarrow> (placement \<times> bytes) list" where
  "restored_files placements outs =
     map (\<lambda>(pm, out). (pm, concat (fo_chunks out))) (filter (\<lambda>(pm, out). fo_skipped out = []) (zip placements outs))"

lemma new_files_restored: "new_files placements [0..<length placements] outs = restored_files placements outs"
proof -
  have z: "zip placements outs = map (\<lambda>(i, out). (placements ! i, out)) (zip [0..<length placements] outs)"
    by (rule nth_equalityI) auto
  show ?thesis unfolding new_files_def restored_files_def z filter_map by (auto simp: comp_def split_def)
qed

lemma make_directories_published: "sg_published (fst (snd (make_directories fl ps w))) = sg_published (fst w)"
  by (induction fl ps w rule: make_directories.induct) auto

lemma stage_file_published:
  assumes "stage_file js fl tokens placements index pr w = (r, sg', dk')"
  shows "sg_published sg' = sg_published (fst w)"
proof -
  have begins: "sg_published (fst (snd (staging_begin fl token pm w))) = sg_published (fst w)" for token pm
    using make_directories_published [of fl "rev (missing_directories (snd w) (posix_dirname (pm_target pm)))" w]
    by (auto simp: staging_begin_def Let_def split: sum.split prod.split)
  obtain rb sg1 dk1 where b: "staging_begin fl (tokens index) (placements ! index) w = (rb, sg1, dk1)" by (metis prod_cases3)
  have "sg_published sg1 = sg_published (fst w)" using begins [of "tokens index" "placements ! index"] b by simp
  then show ?thesis using assms
    by (auto simp: stage_file_def b staging_finish_def split: if_splits sum.splits prod.splits)
qed

lemma stage_loop_published:
  "stage_loop js fl tokens placements indices pr w = (r, sg', dk') \<Longrightarrow> sg_published sg' = sg_published (fst w)"
proof (induction indices arbitrary: pr w)
  case (Cons index indices)
  obtain r1 sg1 dk1 where one: "stage_file js fl tokens placements index pr w = (r1, sg1, dk1)" by (metis prod_cases3)
  then have "sg_published sg1 = sg_published (fst w)" by (rule stage_file_published)
  then show ?case using Cons one by (cases r1) auto
qed simp

lemma stage_files_ok:
  assumes "stage_files js fl tokens placements pr (no_staged_files, dk) = (r, sg, dk1)"
    and "placements = [] \<or> length placements = length (pr_entries pr)"
  shows "sg_published sg = 0 \<and>
    (case r of
      Inl e \<Rightarrow> \<exists>contents. staged_ok (dk_files dk) (sg_pending sg) contents (dk_files dk1)
    | Inr pr' \<Rightarrow> \<exists>outs. read_files js pr = Inr (outs, pr') \<and>
        staged_ok (dk_files dk) (sg_pending sg) (map snd (restored_files placements outs)) (dk_files dk1) \<and>
        map snd (sg_pending sg) = map fst (restored_files placements outs))"
proof (cases "expect_phase PhFiles pr")
  case (Inl e)
  then show ?thesis using assms(1) by (auto simp: stage_files_def no_staged_files_def)
next
  case (Inr u)
  let ?is = "[0..<length (pr_entries pr)]"
  obtain r1 sg1 dk2 where loop: "stage_loop js fl tokens placements ?is pr (no_staged_files, dk) = (r1, sg1, dk2)" by (metis prod_cases3)
  have out: "sg = sg1" "dk1 = dk2" "r = (case r1 of Inl e \<Rightarrow> Inl e | Inr pr' \<Rightarrow> Inr (pr'\<lparr>pr_phase := PhRecords\<rparr>))"
    using assms(1) Inr loop by (auto simp: stage_files_def split: sum.splits)
  have pub: "sg_published sg = 0" using stage_loop_published [OF loop] out by (simp add: no_staged_files_def)
  have reads: "read_files js pr = and_then (files_loop js ?is pr) (\<lambda>(outs, pr). Inr (outs, pr\<lparr>pr_phase := PhRecords\<rparr>))"
    using Inr by (simp add: read_files_def)
  show ?thesis
  proof (cases "placements = []")
    case True
    have "(r1, sg1, dk2) = (case files_loop js ?is pr of Inl e \<Rightarrow> (Inl e, no_staged_files, dk) | Inr (outs, pr') \<Rightarrow> (Inr pr', no_staged_files, dk))"
      using loop by (simp add: True drain_loop_ok split: sum.split prod.split)
    then show ?thesis using pub True out reads
      by (cases "files_loop js ?is pr") (auto simp: no_staged_files_def restored_files_def split: prod.splits)
  next
    case False
    then have len: "length (pr_entries pr) = length placements" using assms(2) by simp
    have "staged_ok (dk_files dk) (sg_pending no_staged_files) [] (dk_files dk)" by (simp add: no_staged_files_def)
    note L = stage_loop_ok [OF loop False this]
    show ?thesis
    proof (cases r1)
      case (Inl e)
      then show ?thesis using L pub out by simp
    next
      case Inr_r: (Inr pr')
      obtain outs contents' where o: "files_loop js ?is pr = Inr (outs, pr')" "staged_ok (dk_files dk) (sg_pending sg1) contents' (dk_files dk2)"
          "map snd (sg_pending sg1) = map snd (sg_pending no_staged_files) @ map fst (new_files placements ?is outs)"
          "contents' = [] @ map snd (new_files placements ?is outs)"
        using L unfolding Inr_r sum.case by blast
      show ?thesis using pub out Inr_r o reads
        by (simp add: len new_files_restored no_staged_files_def)
    qed
  qed
qed


text \<open>No entry of the backup is placed on a name that staging uses.\<close>

definition targets_apart :: "codec_of_json \<Rightarrow> 'd restoring \<Rightarrow> bytes list \<Rightarrow> bool" where
  "targets_apart js rg ps =
     (case payload_start js ps of
        Inl e \<Rightarrow> True
      | Inr (header, entries, pr) \<Rightarrow>
          list_all (\<lambda>pm. \<not> suffix staging_suffix (pm_target pm)) (plan_entries (rg_placing rg) entries))"

lemma payload_start_entries: "payload_start js ps = Inr (header, entries, pr) \<Longrightarrow> pr_entries pr = entries"
  by (auto simp: payload_start_def read_manifest_def and_then_def split: sum.splits prod.splits)

lemma restored_placements: "set (map fst (restored_files placements outs)) \<subseteq> set placements"
  by (auto simp: restored_files_def dest: set_zip_leftD)

lemma zip_fst_snd: "map fst ps = map fst qs \<Longrightarrow> zip (map fst ps) (map snd qs) = qs"
  by (metis zip_map_fst_snd)

lemma files_and_rows:
  assumes "restore_files_and_rows js rg opts models placements out pr db dk = (r, db', dk')"
    and "placements = [] \<or> length placements = length (pr_entries pr)"
    and "\<And>pm. pm \<in> set placements \<Longrightarrow> \<not> suffix staging_suffix (pm_target pm)"
  shows "case r of
      Inr out' \<Rightarrow> \<exists>outs pr' flushed loaded stats. read_files js pr = Inr (outs, pr') \<and>
        rows_of_restore js rg opts models placements pr' db = Inr (flushed, loaded, stats, db') \<and>
        dk_files dk' = put_files (restored_files placements outs) (dk_files dk) \<and>
        out' = out\<lparr>rs_flushed := flushed, rs_loaded := loaded, rs_models := stats, rs_files_written := length (restored_files placements outs)\<rparr>
    | Inl e \<Rightarrow> db' = db \<and> dk_files dk' = dk_files dk \<or>
        e = RestoreError \<and>
        (\<exists>outs pr' flushed loaded stats. read_files js pr = Inr (outs, pr') \<and>
          rows_of_restore js rg opts models placements pr' db = Inr (flushed, loaded, stats, db') \<and>
          (\<forall>p. dk_files dk' p = dk_files dk p \<or>
             list_ex (\<lambda>(pm, c). pm_target pm = p \<and> dk_files dk' p = Some c) (restored_files placements outs)))"
proof -
  let ?fl = "rg_faults rg"
  obtain rs sg dk1 where st: "stage_files js ?fl (rg_tokens rg) placements pr (no_staged_files, dk) = (rs, sg, dk1)" by (metis prod_cases3)
  note S = stage_files_ok [OF st assms(2)]
  show ?thesis
  proof (cases rs)
    case (Inl e)
    then have o: "r = Inl e" "db' = db" "dk' = snd (discard (rg_occupied rg) (sg, dk1))"
      using assms(1) st by (auto simp: restore_files_and_rows_def Let_def)
    obtain contents where "staged_ok (dk_files dk) (sg_pending sg) contents (dk_files dk1)" using S Inl by auto
    from discard_staged [OF this] show ?thesis using o by simp
  next
    case (Inr pr')
    obtain outs where outs: "read_files js pr = Inr (outs, pr')"
        "staged_ok (dk_files dk) (sg_pending sg) (map snd (restored_files placements outs)) (dk_files dk1)"
        "map snd (sg_pending sg) = map fst (restored_files placements outs)"
      using S Inr by auto
    let ?new = "restored_files placements outs"
    have run: "restore_files_and_rows js rg opts models placements out pr db dk =
        (case rows_of_restore js rg opts models placements pr' db of
           Inl e \<Rightarrow> (Inl e, db, snd (discard (rg_occupied rg) (sg, dk1)))
         | Inr (flushed, loaded, stats, db) \<Rightarrow>
             (case publish ?fl (sg, dk1) of
                (Inl e, w) \<Rightarrow> (Inl e, db, snd (discard (rg_occupied rg) w))
              | (Inr _, sg, dk) \<Rightarrow>
                  (Inr (out\<lparr>rs_flushed := flushed, rs_loaded := loaded, rs_models := stats, rs_files_written := sg_published sg\<rparr>), db, dk)))"
      using st Inr by (simp add: restore_files_and_rows_def Let_def)
    show ?thesis
    proof (cases "rows_of_restore js rg opts models placements pr' db")
      case (Inl e)
      then have "r = Inl e" "db' = db" "dk' = snd (discard (rg_occupied rg) (sg, dk1))" using assms(1) run by auto
      then show ?thesis using discard_staged [OF outs(2)] by simp
    next
      case Inr_rows: (Inr res)
      obtain flushed loaded stats db1 where res: "res = (flushed, loaded, stats, db1)" by (metis prod_cases4)
      obtain n failed dk2 where loop: "publish_loop ?fl (sg_pending sg) (sg_published sg) False dk1 = (n, failed, dk2)" by (metis prod_cases3)
      have z: "zip (map snd (sg_pending sg)) (map snd ?new) = ?new" unfolding outs(3) by (rule zip_fst_snd) simp
      have "\<forall>(path, pm) \<in> set (sg_pending sg). \<not> suffix staging_suffix (pm_target pm)"
      proof clarify
        fix path pm assume in_sg: "(path, pm) \<in> set (sg_pending sg)" and suf: "suffix staging_suffix (pm_target pm)"
        have "pm \<in> set (map snd (sg_pending sg))" using in_sg by force
        then have "pm \<in> set placements" unfolding outs(3) using restored_placements [of placements outs] by blast
        then show False using assms(3) suf by blast
      qed
      note P = publish_loop_files [OF outs(2) this loop, unfolded z]
      have len: "length (sg_pending sg) = length ?new" using arg_cong [OF outs(3), of length] by simp
      have pub: "publish ?fl (sg, dk1) = (if failed then Inl RestoreError else Inr (), sg\<lparr>sg_pending := [], sg_published := n\<rparr>, dk2)"
        by (simp add: publish_def loop)
      show ?thesis
      proof (cases failed)
        case True
        let ?w = "(sg\<lparr>sg_pending := [], sg_published := n\<rparr>, dk2)"
        have "r = Inl RestoreError" "db' = db1" "dk_files dk' = dk_files dk2"
          using assms(1) run Inr_rows res pub True by (auto simp: discard_files)
        then show ?thesis using conjunct2 [OF P] outs(1) Inr_rows res by simp
      next
        case False
        have "r = Inr (out\<lparr>rs_flushed := flushed, rs_loaded := loaded, rs_models := stats, rs_files_written := n\<rparr>)" "db' = db1" "dk' = dk2"
          using assms(1) run Inr_rows res pub False by auto
        then show ?thesis using conjunct1 [OF P] False outs(1) Inr_rows res len conjunct1 [OF S] by simp
      qed
    qed
  qed
qed

end
