(* ===== verification/RestoreProps.thy ===== *)
theory RestoreProps
  imports Restore PayloadProperties
begin

text \<open>
  The properties of a restore: it happens as a whole or leaves the rows and files as they were, and what it brings back is
  what the backup was made from.
\<close>

section \<open>Rows are loaded batch by batch\<close>

primrec load_all :: "'d rows \<Rightarrow> translation \<Rightarrow> (py \<Rightarrow> string) \<Rightarrow> moved_files \<Rightarrow> py list list \<Rightarrow> 'd \<Rightarrow> 'd result" where
  "load_all ro tr str_of moved [] db = Inr db"
| "load_all ro tr str_of moved (b # bs) db = and_then (load_batch ro tr str_of moved b db) (load_all ro tr str_of moved bs)"

lemma load_loop_batches:
  assumes "batches_loop js True pr acc = Inr (bs, pr')"
  shows "\<exists>ms. bs = acc @ map Some ms \<and>
    (\<forall>db. load_loop js ro tr str_of moved pr db = and_then (load_all ro tr str_of moved ms db) (\<lambda>db. Inr (db, pr')))"
  using assms
proof (induction js "True" pr acc rule: batches_loop.induct)
  case (1 js pr acc)
  obtain kind body0 pr1 where P: "peek_frame pr = Inr ((kind, body0), pr1)"
    using 1(2) by (auto simp: batches_loop.simps [of js True pr] split: sum.splits)
  show ?case
  proof (cases "kind = RECORDS")
    case False
    then have "bs = acc" "pr' = pr1" using 1(2) P by (auto simp: batches_loop.simps [of js True pr])
    then show ?thesis using P False by (intro exI [of _ "[]"]) (simp add: load_loop.simps [of js])
  next
    case True
    obtain kind2 body pr2 where Q: "pop_frame pr1 = Inr ((kind2, body), pr2)"
      using 1(2) P True by (auto simp: batches_loop.simps [of js True pr] split: sum.splits)
    obtain batch pr3 where R: "read_batch js True body pr2 = Inr (batch, pr3)"
      using 1(2) P True Q by (auto simp: batches_loop.simps [of js True pr] split: sum.splits)
    obtain rs where b: "batch = Some rs" using R by (auto simp: read_batch_def and_then_def split: sum.splits prod.splits)
    have step: "batches_loop js True pr3 (acc @ [batch]) = Inr (bs, pr')"
      using 1(2) P True Q R by (simp add: batches_loop.simps [of js True pr])
    have IH: "\<exists>ms. bs = (acc @ [batch]) @ map Some ms \<and>
        (\<forall>db. load_loop js ro tr str_of moved pr3 db = and_then (load_all ro tr str_of moved ms db) (\<lambda>db. Inr (db, pr')))"
      by (rule 1(1) [OF P refl refl _ Q refl refl R refl step]) (use True in simp)
    then obtain ms where ms: "bs = (acc @ [batch]) @ map Some ms"
        "\<And>db. load_loop js ro tr str_of moved pr3 db = and_then (load_all ro tr str_of moved ms db) (\<lambda>db. Inr (db, pr'))"
      by blast
    have "load_loop js ro tr str_of moved pr db =
        and_then (load_all ro tr str_of moved (rs # ms) db) (\<lambda>db. Inr (db, pr'))" for db
      using P True Q R by (subst load_loop.simps) (simp add: b ms(2) and_then_def split: sum.split)
    then show ?thesis using ms(1) b by (intro exI [of _ "rs # ms"]) simp
  qed
qed

lemma load_rows_batches:
  assumes "record_batches js True pr = Inr (map Some ms, pr')"
  shows "load_rows js ro tr str_of moved pr db = and_then (load_all ro tr str_of moved ms db) (\<lambda>db. Inr (db, pr'))"
proof -
  obtain pr1 where L: "expect_phase PhRecords pr = Inr ()" "batches_loop js True pr [] = Inr (map Some ms, pr1)"
      "pr' = pr1\<lparr>pr_phase := PhTrailer\<rparr>"
    using assms by (cases "expect_phase PhRecords pr"; cases "batches_loop js True pr []") (auto simp: record_batches_def)
  obtain ms' where "map Some ms = [] @ map Some ms'"
      "load_loop js ro tr str_of moved pr db = and_then (load_all ro tr str_of moved ms' db) (\<lambda>db. Inr (db, pr1))"
    using load_loop_batches [OF L(2), where ro = ro and tr = tr and str_of = str_of and moved = moved] by auto
  moreover from this have "ms' = ms" using inj_map_eq_map [OF inj_Some, of ms' ms] by simp
  ultimately show ?thesis using L by (simp add: load_rows_def and_then_def split: sum.split)
qed

section \<open>Whole, or as it was\<close>

definition placements_of :: "'d restoring \<Rightarrow> restore_options \<Rightarrow> file_entry list \<Rightarrow> placement list" where
  "placements_of rg opts entries = (if op_write_files opts then plan_entries (rg_placing rg) entries else [])"

definition models_of :: "'d restoring \<Rightarrow> py \<Rightarrow> string list" where
  "models_of rg header = models_named (rg_rows rg) (tr_labels (rg_translation rg) (map py_text (py_items (py_get header ''order''))))"

lemma restore_stream_cases:
  assumes "restore_stream js rg opts ps db dk = (r, db', dk')" and "targets_apart js rg ps" and "\<not> op_dry_run opts"
    and "payload_start js ps = Inr (header, entries, pr)"
  shows "(\<exists>e. r = Inl e \<and> db' = db \<and> dk' = dk) \<or>
    (\<exists>out. restore_files_and_rows js rg opts (models_of rg header) (placements_of rg opts entries) out pr db dk = (r, db', dk')) \<and>
    (placements_of rg opts entries = [] \<or> length (placements_of rg opts entries) = length (pr_entries pr)) \<and>
    (\<forall>pm \<in> set (placements_of rg opts entries). \<not> suffix staging_suffix (pm_target pm)) \<and>
    List.map_filter pm_problem (placements_of rg opts entries) = []"
  using assms payload_start_entries [OF assms(4)]
  by (auto simp: restore_stream_def Let_def placements_of_def models_of_def targets_apart_def plan_entries_def list_all_iff
      split: if_splits)

lemma restore_succeeds_wholly:
  assumes "restore_stream js rg opts ps db dk = (Inr out, db', dk')" "\<not> op_dry_run opts" "targets_apart js rg ps"
    and "payload_start js ps = Inr (header, entries, pr)"
  shows "\<exists>outs pr' flushed loaded stats. read_files js pr = Inr (outs, pr') \<and>
    rows_of_restore js rg opts (models_of rg header) (placements_of rg opts entries) pr' db = Inr (flushed, loaded, stats, db') \<and>
    dk_files dk' = put_files (restored_files (placements_of rg opts entries) outs) (dk_files dk) \<and>
    rs_flushed out = flushed \<and> rs_loaded out = loaded \<and> rs_models out = stats \<and>
    rs_files_written out = length (restored_files (placements_of rg opts entries) outs)"
proof -
  obtain o1 where R: "restore_files_and_rows js rg opts (models_of rg header) (placements_of rg opts entries) o1 pr db dk = (Inr out, db', dk')"
      "placements_of rg opts entries = [] \<or> length (placements_of rg opts entries) = length (pr_entries pr)"
      "\<And>pm. pm \<in> set (placements_of rg opts entries) \<Longrightarrow> \<not> suffix staging_suffix (pm_target pm)"
    using restore_stream_cases [OF assms(1,3,2,4)] by auto
  show ?thesis using files_and_rows [OF R] by auto
qed


lemma changed_is_placed:
  assumes "restore_stream js rg opts ps db dk = (r, db', dk')" and "targets_apart js rg ps"
    and "dk_files dk' p \<noteq> dk_files dk p"
  shows "\<exists>header entries pr. payload_start js ps = Inr (header, entries, pr) \<and>
    (\<exists>e \<in> set entries. pm_target (place_entry (rg_placing rg) e) = p \<and> pm_problem (place_entry (rg_placing rg) e) = None)"
proof (cases "payload_start js ps")
  case (Inl e')
  then show ?thesis using assms by (simp add: restore_stream_def)
next
  case (Inr res)
  obtain header entries pr where res: "payload_start js ps = Inr (header, entries, pr)" using Inr by (metis prod_cases3)
  let ?pms = "placements_of rg opts entries"
  have "\<not> op_dry_run opts" using assms(1,3) res by (auto simp: restore_stream_def Let_def)
  then obtain out where R: "restore_files_and_rows js rg opts (models_of rg header) ?pms out pr db dk = (r, db', dk')"
      "?pms = [] \<or> length ?pms = length (pr_entries pr)"
      "\<And>pm. pm \<in> set ?pms \<Longrightarrow> \<not> suffix staging_suffix (pm_target pm)" and free: "List.map_filter pm_problem ?pms = []"
    using restore_stream_cases [OF assms(1,2) _ res] assms(3) by auto
  have put: "put_files new m p = m p \<or> p \<in> pm_target ` fst ` set new" for new and m :: "string \<rightharpoonup> bytes"
    unfolding put_files_def by (induction new arbitrary: m) (auto split: if_splits)
  have "\<exists>outs. p \<in> pm_target ` fst ` set (restored_files ?pms outs)"
  proof (cases r)
    case (Inl e)
    have "dk_files dk' = dk_files dk \<or> (\<exists>outs. dk_files dk' p = dk_files dk p \<or>
        list_ex (\<lambda>(pm, c). pm_target pm = p \<and> dk_files dk' p = Some c) (restored_files ?pms outs))"
      using files_and_rows [OF R] Inl by auto
    then obtain outs where "list_ex (\<lambda>(pm, c). pm_target pm = p \<and> dk_files dk' p = Some c) (restored_files ?pms outs)"
      using assms(3) by auto
    then show ?thesis by (force simp: list_ex_iff)
  next
    case (Inr out')
    then obtain outs where "dk_files dk' = put_files (restored_files ?pms outs) (dk_files dk)" using files_and_rows [OF R] by auto
    then show ?thesis using put [of "restored_files ?pms outs" "dk_files dk"] assms(3) by auto
  qed
  then obtain pm where pm: "pm \<in> set ?pms" "pm_target pm = p" using restored_placements by fastforce
  have "pm_problem pm = None" using free pm(1) by (auto simp: map_filter_def filter_empty_conv)
  then show ?thesis using res pm by (auto simp: placements_of_def plan_entries_def split: if_splits)
qed

section \<open>What a backup carried is what a restore brings back\<close>

text \<open>Where the files of a backup go, with their contents; a file that the backup had to skip is left alone.\<close>

definition sources_placed :: "placing \<Rightarrow> source_file list \<Rightarrow> (placement \<times> bytes) list" where
  "sources_placed pg sources =
     map (\<lambda>s. (place_entry pg (listed_entry (sf_entry s)), concat (sf_chunks s))) (filter (\<lambda>s. sf_skipped s = None) sources)"

lemma restored_sources:
  assumes "reasons_given sources"
  shows "restored_files (plan_entries pg (map (listed_entry \<circ> sf_entry) sources)) (map (source_outcome js) sources) = sources_placed pg sources"
proof -
  have z: "zip (map f xs) (map g xs) = map (\<lambda>x. (f x, g x)) xs" for f :: "source_file \<Rightarrow> placement" and g :: "source_file \<Rightarrow> file_outcome" and xs
    by (induction xs) simp_all
  have chunks: "fo_chunks (source_outcome js s) = sf_chunks s" for s by (simp add: source_outcome_def split: option.split)
  have skipped: "fo_skipped (source_outcome js s) = [] \<longleftrightarrow> sf_skipped s = None" if "s \<in> set sources" for s
    using assms that by (auto simp: source_outcome_def reasons_given_def split: option.splits)
  show ?thesis
    unfolding restored_files_def plan_entries_def map_map z filter_map
    by (simp add: sources_placed_def comp_def chunks skipped cong: filter_cong)
qed

lemma header_labels:
  assumes "''order'' \<notin> fst ` set about"
  shows "map py_text (py_items (py_get (header_of about models) ''order'')) = map fst models"
proof -
  have "map_of (about @ [(''order'', PList (map (\<lambda>(label, _). PStr label) models))]) ''order''
      = Some (PList (map (\<lambda>(label, _). PStr label) models))"
    using assms by (simp add: map_add_Some_iff map_of_eq_None_iff)
  then have "py_get (header_of about models) ''order'' = PList (map (\<lambda>(label, _). PStr label) models)"
    by (simp add: header_of_def py_get_def)
  then show ?thesis by (simp add: py_items_def py_text_def comp_def case_prod_beta)
qed

end
