(* ===== verification/RestoreRuns.thy ===== *)
theory RestoreRuns
  imports RestoreProps
begin

text \<open>A restore that meets no fault goes through: staging reads what reading reads, as long as nothing fails.\<close>

definition no_faults :: faults where
  "no_faults = \<lparr>fl_mkdir = (\<lambda>_. False), fl_open = (\<lambda>_. False), fl_write = (\<lambda>_ _. False), fl_seal = (\<lambda>_. False),
                fl_replace = (\<lambda>_. False), fl_sync = (\<lambda>_. False)\<rparr>"

definition stages_freely :: "faults \<Rightarrow> bool" where
  "stages_freely fl \<longleftrightarrow> fl_open fl = (\<lambda>_. False) \<and> fl_write fl = (\<lambda>_ _. False) \<and> fl_seal fl = (\<lambda>_. False)"

lemma stage_chunks_total:
  assumes "stages_freely fl"
  shows "fst (stage_chunks js fl index path pr chunks dk) = file_chunks js index pr chunks \<and>
    dk_dirs (snd (stage_chunks js fl index path pr chunks dk)) = dk_dirs dk"
  using assms
proof (induction js fl index path pr chunks dk rule: stage_chunks.induct)
  case (1 js fl index path pr chunks dk)
  show ?case
  proof (cases "pop_frame pr")
    case (Inl e)
    then show ?thesis by (simp add: stage_chunks.simps [of js] file_chunks.simps [of js])
  next
    case (Inr f)
    obtain kind body pr1 where f: "f = ((kind, body), pr1)" by (metis prod.collapse)
    let ?chunk = "drop (struct_size FILE_INDEX) body"
    let ?bad = "length body < struct_size FILE_INDEX \<or> be_nat (take (struct_size FILE_INDEX) body) \<noteq> index"
    obtain dk1 where w: "staging_write fl path ?chunk dk = (Inr (), dk1)" "dk_dirs dk1 = dk_dirs dk"
      using 1(2) by (simp add: staging_write_def stages_freely_def)
    show ?thesis
    proof (cases "kind = FILE_DATA \<and> \<not> ?bad")
      case True
      note IH = "1.IH" [OF Inr f [symmetric] refl conjunct1 [OF True] conjunct2 [OF True] w(1) [symmetric] refl 1(2)]
      show ?thesis using IH Inr f True w by (simp add: stage_chunks.simps [of js fl index path pr] file_chunks.simps [of js index pr])
    next
      case False
      then show ?thesis using Inr f
        by (auto simp: stage_chunks.simps [of js fl index path pr] file_chunks.simps [of js index pr])
    qed
  qed
qed

text \<open>The names under which the files are staged.\<close>

definition staging_names :: "(nat \<Rightarrow> string) \<Rightarrow> placement list \<Rightarrow> nat list \<Rightarrow> string list" where
  "staging_names tokens placements indices = map (\<lambda>i. staging_path (tokens i) (pm_target (placements ! i))) indices"

definition room_for :: "disk \<Rightarrow> (nat \<Rightarrow> string) \<Rightarrow> placement list \<Rightarrow> nat list \<Rightarrow> bool" where
  "room_for dk tokens placements indices \<longleftrightarrow>
     distinct (staging_names tokens placements indices) \<and>
     list_all (\<lambda>p. \<not> path_exists dk p) (staging_names tokens placements indices) \<and>
     list_all (\<lambda>i. posix_dirname (pm_target (placements ! i)) \<in> set (dk_dirs dk)) indices"

lemma stage_file_total:
  assumes "stages_freely fl" "placements \<noteq> []" "room_for dk tokens placements [index]"
    and "file_chunks js index pr [] = Inr (out, pr')"
  shows "\<exists>sg' dk'. stage_file js fl tokens placements index pr (sg, dk) = (Inr pr', sg', dk') \<and> dk_dirs dk' = dk_dirs dk \<and>
    (\<forall>p. p \<noteq> staging_path (tokens index) (pm_target (placements ! index)) \<longrightarrow> dk_files dk' p = dk_files dk p)"
proof -
  let ?path = "staging_path (tokens index) (pm_target (placements ! index))"
  let ?dk1 = "dk\<lparr>dk_files := (dk_files dk)(?path \<mapsto> [])\<rparr>"
  have r: "\<not> path_exists dk ?path" "posix_dirname (pm_target (placements ! index)) \<in> set (dk_dirs dk)"
    using assms(3) by (simp_all add: room_for_def staging_names_def)
  then have "missing_directories dk (posix_dirname (pm_target (placements ! index))) = []"
    by (simp add: missing_directories.simps [of dk] path_exists_def)
  then have b: "staging_begin fl (tokens index) (placements ! index) (sg, dk) = (Inr ?path, sg, ?dk1)"
    using r(1) assms(1) by (simp add: staging_begin_def stages_freely_def Let_def)
  obtain rc dk2 where c: "stage_chunks js fl index ?path pr [] ?dk1 = (rc, dk2)" by fastforce
  have rc: "rc = Inr (out, pr')" and dirs: "dk_dirs dk2 = dk_dirs dk"
    using stage_chunks_total [OF assms(1), of js index ?path pr "[]" ?dk1] c assms(4) by simp_all
  obtain d where "dk_files dk2 = (dk_files ?dk1)(?path \<mapsto> d)"
    using stage_chunks_ok [OF c] by auto
  then have files: "dk_files dk2 p = dk_files dk p" if "p \<noteq> ?path" for p using that by simp
  show ?thesis using assms(1,2) b c rc dirs files
    by (auto simp: stage_file_def staging_finish_def staging_abort_def stages_freely_def)
qed

lemma stage_loop_total:
  assumes "stages_freely fl" "placements \<noteq> []" "room_for dk tokens placements indices"
    and "files_loop js indices pr = Inr (outs, pr')"
  shows "\<exists>w'. stage_loop js fl tokens placements indices pr (sg, dk) = (Inr pr', w')"
  using assms(3,4)
proof (induction indices arbitrary: pr sg dk outs)
  case (Cons index indices)
  obtain out pr1 outs1 where F: "file_chunks js index pr [] = Inr (out, pr1)" "files_loop js indices pr1 = Inr (outs1, pr')"
    using Cons.prems(2) by (auto simp: and_then_def split: sum.splits prod.splits)
  have room: "room_for dk tokens placements [index]" using Cons.prems(1) by (simp add: room_for_def staging_names_def)
  obtain sg' dk' where S: "stage_file js fl tokens placements index pr (sg, dk) = (Inr pr1, sg', dk')" "dk_dirs dk' = dk_dirs dk"
      "\<And>p. p \<noteq> staging_path (tokens index) (pm_target (placements ! index)) \<Longrightarrow> dk_files dk' p = dk_files dk p"
    using stage_file_total [OF assms(1,2) room F(1)] by blast
  have "room_for dk' tokens placements indices"
    using Cons.prems(1) S(2,3) by (auto simp: room_for_def staging_names_def path_exists_def list_all_iff image_iff)
  from Cons.IH [OF this F(2)] show ?case using S(1) by simp
qed simp

lemma stage_files_total:
  assumes "stages_freely fl" "room_for dk tokens placements [0..<length (pr_entries pr)]"
    and "read_files js pr = Inr (outs, pr')"
  shows "\<exists>w'. stage_files js fl tokens placements pr (no_staged_files, dk) = (Inr pr', w')"
proof -
  obtain pr1 where F: "expect_phase PhFiles pr = Inr ()" "files_loop js [0..<length (pr_entries pr)] pr = Inr (outs, pr1)"
      "pr' = pr1\<lparr>pr_phase := PhRecords\<rparr>"
    using assms(3) by (cases "expect_phase PhFiles pr"; cases "files_loop js [0..<length (pr_entries pr)] pr") (auto simp: read_files_def)
  show ?thesis
  proof (cases "placements = []")
    case True
    then show ?thesis using F by (simp add: stage_files_def drain_loop_ok)
  next
    case False
    from stage_loop_total [OF assms(1) this assms(2) F(2), of no_staged_files]
    obtain w' where "stage_loop js fl tokens placements [0..<length (pr_entries pr)] pr (no_staged_files, dk) = (Inr pr1, w')" by blast
    then show ?thesis using F by (cases w') (simp add: stage_files_def)
  qed
qed


lemma publish_loop_free:
  assumes "fl_replace fl = (\<lambda>_. False)" "fl_sync fl = (\<lambda>_. False)"
  shows "fst (snd (publish_loop fl pending n failed dk)) = failed"
  using assms by (induction fl pending n failed dk rule: publish_loop.induct) (simp_all add: Let_def)

text \<open>The rows take what the backup holds.\<close>

definition rows_take ::
  "codec_of_json \<Rightarrow> 'd restoring \<Rightarrow> restore_options \<Rightarrow> source_file list \<Rightarrow> (string \<times> (bytes list \<times> nat) list) list \<Rightarrow> 'd \<Rightarrow> 'd result" where
  "rows_take js rg opts sources models db =
     (let ro = rg_rows rg; tr = rg_translation rg
      in and_then (if op_flush opts then ro_flush ro (models_named ro (tr_labels tr (map fst models))) db else Inr (0, db)) (\<lambda>(_, db).
         and_then (load_all ro tr (rg_str rg)
             (moved_files (rg_str rg) (plan_entries (rg_placing rg) (map (listed_entry \<circ> sf_entry) sources)))
             (map (batch_records js) (concat (map snd models))) db) (\<lambda>db.
         and_then (ro_finish ro True db) (\<lambda>(_, db). ro_commit ro db))))"

lemma restore_runs:
  assumes "produce js about listed_skipped sources allow models = Inr (out, stats)" and "concat ps = concat out"
    and "source_ok js about sources models"
    and "json_exact js (written_values js about sources models (trailer_of listed_skipped sources models))"
    and "op_load_data opts" and "op_write_files opts" and "\<not> op_dry_run opts"
    and "list_all (\<lambda>s. pm_problem (place_entry (rg_placing rg) (listed_entry (sf_entry s))) = None) sources"
    and "stages_freely (rg_faults rg)"
    and "room_for dk (rg_tokens rg) (plan_entries (rg_placing rg) (map (listed_entry \<circ> sf_entry) sources)) [0..<length sources]"
    and "rows_take js rg opts sources models db = Inr db'"
  shows "\<exists>sg dk1 f. map snd (sg_pending sg) = map fst (sources_placed (rg_placing rg) sources) \<and>
    restore_stream js rg opts ps db dk =
      (case publish (rg_faults rg) (sg, dk1) of
         (Inl e, w) \<Rightarrow> (Inl e, db', snd (discard (rg_occupied rg) w))
       | (Inr _, sg, dk) \<Rightarrow> (Inr (f sg), db', dk))"
proof -
  have ok: "reasons_given sources" "''order'' \<notin> fst ` set about"
    using assms(3) by (auto simp: source_ok_def list_all_iff reasons_given_def)
  let ?t = "trailer_of listed_skipped sources models" and ?es = "map (listed_entry \<circ> sf_entry) sources"
  let ?pms = "plan_entries (rg_placing rg) ?es" and ?ms = "map (batch_records js) (concat (map snd models))"
  obtain pr pr1 pr2 pr3 pr4 pr5 pr6 where R: "open_payload ps = Inr pr" "read_header js pr = Inr (header_of about models, pr1)"
      "read_manifest js pr1 = Inr (?es, pr2)" "read_files js pr2 = Inr (map (source_outcome js) sources, pr3)"
      "record_batches js True pr3 = Inr (map (\<lambda>b. Some (batch_records js b)) (concat (map snd models)), pr4)"
      "read_trailer js pr4 = Inr (?t, pr5)" "payload_finish pr5 = Inr pr6" "payload_stats pr6 = stats"
    using produced_is_read [OF assms(1-4)] by blast
  have start: "payload_start js ps = Inr (header_of about models, ?es, pr2)" by (simp add: payload_start_def R(1-3))
  have entries: "pr_entries pr2 = ?es" by (rule payload_start_entries [OF start])
  have refused: "List.map_filter pm_problem ?pms = []"
    using assms(8) by (auto simp: map_filter_def plan_entries_def filter_empty_conv list_all_iff)
  obtain sg dk1 where S: "stage_files js (rg_faults rg) (rg_tokens rg) ?pms pr2 (no_staged_files, dk) = (Inr pr3, sg, dk1)"
    using stage_files_total [OF assms(9) _ R(4), of dk "rg_tokens rg" ?pms] assms(10) by (auto simp: entries)
  have pending: "map snd (sg_pending sg) = map fst (sources_placed (rg_placing rg) sources)"
  proof -
    have len: "length ?pms = length (pr_entries pr2)" by (simp add: entries plan_entries_def)
    obtain outs where "read_files js pr2 = Inr (outs, pr3)" "map snd (sg_pending sg) = map fst (restored_files ?pms outs)"
      using stage_files_ok [OF S disjI2 [OF len]] by auto
    then show ?thesis using R(4) restored_sources [OF ok(1), of "rg_placing rg" js] by simp
  qed
  have batches: "record_batches js True pr3 = Inr (map Some ?ms, pr4)" by (simp add: R(5) comp_def)
  have loads: "load_rows js ro tr str_of moved pr3 d = and_then (load_all ro tr str_of moved ?ms d) (\<lambda>d. Inr (d, pr4))"
    for ro :: "'a rows" and tr str_of moved d by (rule load_rows_batches [OF batches])
  obtain st where finish: "finish_stream js True pr4 = Inr st" by (simp add: finish_stream_def R(6-8))
  obtain flushed loaded where rows: "rows_of_restore js rg opts (models_named (rg_rows rg) (tr_labels (rg_translation rg) (map fst models))) ?pms pr3 db
      = Inr (flushed, loaded, st, db')"
    using assms(5,11) finish unfolding rows_of_restore_def load_stream_def load_body_def loads rows_take_def Let_def
    by (auto simp: and_then_def split: sum.splits)
  let ?out = "\<lparr>rs_loaded = 0, rs_files_written = 0, rs_models = PList [], rs_would_load = 0, rs_would_write = 0, rs_flushed = 0,
      rs_preexisting = filter (\<lambda>m. ro_exist (rg_rows rg) m db) (models_named (rg_rows rg) (tr_labels (rg_translation rg) (map fst models))),
      rs_refused = []\<rparr>"
  have "restore_stream js rg opts ps db dk =
      (case publish (rg_faults rg) (sg, dk1) of
         (Inl e, w) \<Rightarrow> (Inl e, db', snd (discard (rg_occupied rg) w))
       | (Inr _, sg, dk) \<Rightarrow> (Inr (?out\<lparr>rs_flushed := flushed, rs_loaded := loaded, rs_models := st, rs_files_written := sg_published sg\<rparr>), db', dk))"
    by (simp add: restore_stream_def start Let_def header_labels [OF ok(2)] assms(6,7) refused restore_files_and_rows_def S rows)
  then show ?thesis using pending
    by (intro exI [of _ sg] exI [of _ dk1] exI [of _ "\<lambda>sg. ?out\<lparr>rs_flushed := flushed, rs_loaded := loaded, rs_models := st,
      rs_files_written := sg_published sg\<rparr>"] conjI)
qed

lemma restore_ends:
  assumes "produce js about listed_skipped sources allow models = Inr (out, stats)" and "concat ps = concat out"
    and "source_ok js about sources models"
    and "json_exact js (written_values js about sources models (trailer_of listed_skipped sources models))"
    and "op_load_data opts" and "op_write_files opts" and "\<not> op_dry_run opts"
    and "list_all (\<lambda>s. pm_problem (place_entry (rg_placing rg) (listed_entry (sf_entry s))) = None) sources"
    and "rg_faults rg = no_faults"
    and "room_for dk (rg_tokens rg) (plan_entries (rg_placing rg) (map (listed_entry \<circ> sf_entry) sources)) [0..<length sources]"
    and "rows_take js rg opts sources models db = Inr db'"
  shows "\<exists>res dk'. restore_stream js rg opts ps db dk = (Inr res, db', dk')"
proof -
  have free: "stages_freely (rg_faults rg)" by (simp add: assms(9) stages_freely_def no_faults_def)
  obtain sg dk1 f where run: "restore_stream js rg opts ps db dk =
      (case publish (rg_faults rg) (sg, dk1) of
         (Inl e, w) \<Rightarrow> (Inl e, db', snd (discard (rg_occupied rg) w))
       | (Inr _, sg, dk) \<Rightarrow> (Inr (f sg), db', dk))"
    using restore_runs [OF assms(1-8) free assms(10,11)] by blast
  have "\<not> fst (snd (publish_loop (rg_faults rg) (sg_pending sg) (sg_published sg) False dk1))"
    by (subst publish_loop_free) (simp_all add: assms(9) no_faults_def)
  then show ?thesis unfolding run by (auto simp: publish_def split: prod.split)
qed


text \<open>
  C4: a restore that meets no fault goes through. If the payload is one that \<^verbatim>\<open>_produce\<close> wrote, no file of it
  is refused a place, the directories exist and the names for staging are free, nothing fails on the disk and the rows take
  what the backup holds, then the restore returns a result and the rows are those that it loaded.
\<close>
theorem restore_completes:
  assumes "produce js about listed_skipped sources allow models = Inr (out, stats)" and "concat ps = concat out"
    and "source_ok js about sources models"
    and "json_exact js (written_values js about sources models (trailer_of listed_skipped sources models))"
    and "op_load_data opts" and "op_write_files opts" and "\<not> op_dry_run opts"
    and "list_all (\<lambda>s. pm_problem (place_entry (rg_placing rg) (listed_entry (sf_entry s))) = None) sources"
    and "rg_faults rg = no_faults"
    and "room_for dk (rg_tokens rg) (plan_entries (rg_placing rg) (map (listed_entry \<circ> sf_entry) sources)) [0..<length sources]"
    and "rows_take js rg opts sources models db = Inr db'"
  shows "\<exists>res dk'. restore_stream js rg opts ps db dk = (Inr res, db', dk')"
  by (rule restore_ends [OF assms])

text \<open>
  C3: a restore that fails leaves nothing half done. Whatever goes wrong (a damaged or malformed payload, a
  directory, file or disk that fails, a row that is refused, a commit that fails), the rows are those from before and so is the
  content of every path. The one exception is a failure of the moves after the rows were committed: then the error is a
  RestoreError, the whole payload was read, the rows are those of the backup, and each path holds what it held or exactly
  what the backup carries for it: nothing is torn, and no staged file stays.
\<close>
theorem failed_restore_leaves_no_halves:
  assumes "restore_stream js rg opts ps db dk = (Inl e, db', dk')" and "targets_apart js rg ps"
  shows "db' = db \<and> dk_files dk' = dk_files dk \<or>
    e = RestoreError \<and> (\<exists>header entries pr outs pr' flushed loaded stats.
      payload_start js ps = Inr (header, entries, pr) \<and> read_files js pr = Inr (outs, pr') \<and>
      rows_of_restore js rg opts (models_of rg header) (placements_of rg opts entries) pr' db = Inr (flushed, loaded, stats, db') \<and>
      (\<forall>p. dk_files dk' p = dk_files dk p \<or>
        list_ex (\<lambda>(pm, c). pm_target pm = p \<and> dk_files dk' p = Some c) (restored_files (placements_of rg opts entries) outs)))"
proof (cases "payload_start js ps")
  case (Inl e')
  then show ?thesis using assms(1) by (simp add: restore_stream_def)
next
  case (Inr res)
  obtain header entries pr where res: "payload_start js ps = Inr (header, entries, pr)" using Inr by (metis prod_cases3)
  show ?thesis
  proof (cases "op_dry_run opts")
    case True
    then show ?thesis using assms(1) res by (simp add: restore_stream_def Let_def)
  next
    case False
    from restore_stream_cases [OF assms False res] show ?thesis
    proof
      assume "\<exists>e'. Inl e = (Inl e' :: restore_result result) \<and> db' = db \<and> dk' = dk"
      then show ?thesis by simp
    next
      assume "(\<exists>out. restore_files_and_rows js rg opts (models_of rg header) (placements_of rg opts entries) out pr db dk = (Inl e, db', dk')) \<and>
        (placements_of rg opts entries = [] \<or> length (placements_of rg opts entries) = length (pr_entries pr)) \<and>
        (\<forall>pm \<in> set (placements_of rg opts entries). \<not> suffix staging_suffix (pm_target pm)) \<and>
        List.map_filter pm_problem (placements_of rg opts entries) = []"
      then obtain out where R: "restore_files_and_rows js rg opts (models_of rg header) (placements_of rg opts entries) out pr db dk = (Inl e, db', dk')"
          "placements_of rg opts entries = [] \<or> length (placements_of rg opts entries) = length (pr_entries pr)"
          "\<And>pm. pm \<in> set (placements_of rg opts entries) \<Longrightarrow> \<not> suffix staging_suffix (pm_target pm)"
        by blast
      have F: "db' = db \<and> dk_files dk' = dk_files dk \<or>
        e = RestoreError \<and> (\<exists>outs pr' flushed loaded stats. read_files js pr = Inr (outs, pr') \<and>
          rows_of_restore js rg opts (models_of rg header) (placements_of rg opts entries) pr' db = Inr (flushed, loaded, stats, db') \<and>
          (\<forall>p. dk_files dk' p = dk_files dk p \<or>
             list_ex (\<lambda>(pm, c). pm_target pm = p \<and> dk_files dk' p = Some c) (restored_files (placements_of rg opts entries) outs)))"
        using files_and_rows [OF R(1,2)] R(3) by simp
      from F show ?thesis
      proof
        assume "e = RestoreError \<and> (\<exists>outs pr' flushed loaded stats. read_files js pr = Inr (outs, pr') \<and>
          rows_of_restore js rg opts (models_of rg header) (placements_of rg opts entries) pr' db = Inr (flushed, loaded, stats, db') \<and>
          (\<forall>p. dk_files dk' p = dk_files dk p \<or>
             list_ex (\<lambda>(pm, c). pm_target pm = p \<and> dk_files dk' p = Some c) (restored_files (placements_of rg opts entries) outs)))"
        then show ?thesis using res by blast
      qed (rule disjI1)
    qed
  qed
qed

text \<open>
  C5: a restore writes nowhere else. Every path whose content a restore changes lies inside one of the
  restore roots, once its symbolic links are resolved, or is the place that a storage of the project gives to an entry of
  the backup; so a backup cannot write outside by the names it carries, whether the restore succeeds or fails.
\<close>
theorem restore_stays_inside_roots:
  assumes "restore_stream js rg opts ps db dk = (r, db', dk')" and "targets_apart js rg ps"
  shows "dk_files dk' p = dk_files dk p \<or> list_ex (is_inside p) (pg_roots (rg_placing rg)) \<or>
    (\<exists>header entries pr. payload_start js ps = Inr (header, entries, pr) \<and>
      list_ex (\<lambda>e. fe_kind e = ''storage'' \<and> pm_target (pg_storage (rg_placing rg) (new_placement e)) = p) entries)"
proof (rule disjCI)
  assume other: "\<not> (list_ex (is_inside p) (pg_roots (rg_placing rg)) \<or>
    (\<exists>header entries pr. payload_start js ps = Inr (header, entries, pr) \<and>
      list_ex (\<lambda>e. fe_kind e = ''storage'' \<and> pm_target (pg_storage (rg_placing rg) (new_placement e)) = p) entries))"
  show "dk_files dk' p = dk_files dk p"
  proof (rule ccontr)
    assume "dk_files dk' p \<noteq> dk_files dk p"
    from changed_is_placed [OF assms this] obtain header entries pr e where E: "payload_start js ps = Inr (header, entries, pr)"
        "e \<in> set entries" "pm_target (place_entry (rg_placing rg) e) = p" "pm_problem (place_entry (rg_placing rg) e) = None"
      by blast
    have storage: "place_entry (rg_placing rg) e = pg_storage (rg_placing rg) (new_placement e)" if "fe_kind e = ''storage''"
      using that by (simp add: place_entry_def)
    show False
    proof (cases "fe_kind e = ''storage''")
      case True
      then have "list_ex (\<lambda>e. fe_kind e = ''storage'' \<and> pm_target (pg_storage (rg_placing rg) (new_placement e)) = p) entries"
        using E(2,3) storage by (auto simp: list_ex_iff)
      then show False using other E(1) by blast
    next
      case False
      then show False using other place_entry_inside [OF E(4)] E(3) by simp
    qed
  qed
qed

text \<open>
  C2: what is restored is what was backed up. Take a payload that \<^verbatim>\<open>_produce\<close> wrote, cut into pieces of any
  sizes, and a restore of it that succeeds. Then every file of the backup that was not skipped is at the place planned for
  it with the content that was read from its source, no other path has changed, and the rows are those that loading the
  batches of the backup, in their order and in one transaction, gives; the statistics are those of the backup.
\<close>
theorem restored_is_what_was_backed_up:
  assumes "produce js about listed_skipped sources allow models = Inr (out, stats)" and "concat ps = concat out"
    and "source_ok js about sources models"
    and "json_exact js (written_values js about sources models (trailer_of listed_skipped sources models))"
    and "restore_stream js rg opts ps db dk = (Inr res, db', dk')" and "targets_apart js rg ps"
    and "op_load_data opts" and "op_write_files opts" and "\<not> op_dry_run opts"
  shows "dk_files dk' = put_files (sources_placed (rg_placing rg) sources) (dk_files dk) \<and>
    rs_files_written res = length (sources_placed (rg_placing rg) sources) \<and>
    rs_models res = py_get stats ''models'' \<and>
    (\<exists>db1 db2 db3.
      (if op_flush opts then ro_flush (rg_rows rg) (models_named (rg_rows rg) (tr_labels (rg_translation rg) (map fst models))) db
       else Inr (0, db)) = Inr (rs_flushed res, db1) \<and>
      load_all (rg_rows rg) (rg_translation rg) (rg_str rg)
        (moved_files (rg_str rg) (plan_entries (rg_placing rg) (map (listed_entry \<circ> sf_entry) sources)))
        (map (batch_records js) (concat (map snd models))) db1 = Inr db2 \<and>
      ro_finish (rg_rows rg) True db2 = Inr (rs_loaded res, db3) \<and> ro_commit (rg_rows rg) db3 = Inr db')"
proof -
  have ok: "reasons_given sources" "''order'' \<notin> fst ` set about"
    using assms(3) by (auto simp: source_ok_def list_all_iff reasons_given_def)
  let ?t = "trailer_of listed_skipped sources models" and ?es = "map (listed_entry \<circ> sf_entry) sources"
  let ?ms = "map (batch_records js) (concat (map snd models))"
  obtain pr pr1 pr2 pr3 pr4 pr5 pr6 where R: "open_payload ps = Inr pr" "read_header js pr = Inr (header_of about models, pr1)"
      "read_manifest js pr1 = Inr (?es, pr2)" "read_files js pr2 = Inr (map (source_outcome js) sources, pr3)"
      "record_batches js True pr3 = Inr (map (\<lambda>b. Some (batch_records js b)) (concat (map snd models)), pr4)"
      "read_trailer js pr4 = Inr (?t, pr5)" "payload_finish pr5 = Inr pr6" "payload_stats pr6 = stats" "pr_trailer pr6 = ?t"
    using produced_is_read [OF assms(1-4)] by blast
  have start: "payload_start js ps = Inr (header_of about models, ?es, pr2)" by (simp add: payload_start_def R(1-3))
  have placed: "placements_of rg opts ?es = plan_entries (rg_placing rg) ?es" by (simp add: placements_of_def assms(8))
  let ?moved = "moved_files (rg_str rg) (plan_entries (rg_placing rg) ?es)"
  have batches: "record_batches js True pr3 = Inr (map Some ?ms, pr4)" by (simp add: R(5) comp_def)
  have loads: "load_rows js ro tr str_of moved pr3 d = and_then (load_all ro tr str_of moved ?ms d) (\<lambda>d. Inr (d, pr4))"
    for ro :: "'a rows" and tr str_of moved d by (rule load_rows_batches [OF batches])
  have models: "\<exists>l. py_get stats ''models'' = PList l"
    unfolding R(8) [symmetric] payload_stats_def R(9) by (simp add: trailer_of_def payload_trailer_def py_get_def)
  have finish: "finish_stream js True pr4 = Inr (py_get stats ''models'')"
    using models by (auto simp: finish_stream_def R(6-8))
  obtain flushed loaded stats' where D:
      "rows_of_restore js rg opts (models_of rg (header_of about models)) (placements_of rg opts ?es) pr3 db = Inr (flushed, loaded, stats', db')"
      "dk_files dk' = put_files (restored_files (placements_of rg opts ?es) (map (source_outcome js) sources)) (dk_files dk)"
      "rs_flushed res = flushed" "rs_loaded res = loaded" "rs_models res = stats'"
      "rs_files_written res = length (restored_files (placements_of rg opts ?es) (map (source_outcome js) sources))"
    using restore_succeeds_wholly [OF assms(5,9,6) start] R(4) by auto
  have rows: "load_stream js (rg_rows rg) (rg_translation rg) (rg_str rg) ?moved
      (models_named (rg_rows rg) (tr_labels (rg_translation rg) (map fst models))) (op_flush opts) pr3 db = Inr (flushed, loaded, stats', db')"
    using D(1) assms(7) by (simp add: rows_of_restore_def models_of_def header_labels [OF ok(2)] placed)
  then have "stats' = py_get stats ''models'' \<and> (\<exists>db1 db2 db3.
      (if op_flush opts then ro_flush (rg_rows rg) (models_named (rg_rows rg) (tr_labels (rg_translation rg) (map fst models))) db
       else Inr (0, db)) = Inr (flushed, db1) \<and>
      load_all (rg_rows rg) (rg_translation rg) (rg_str rg) ?moved ?ms db1 = Inr db2 \<and>
      ro_finish (rg_rows rg) True db2 = Inr (loaded, db3) \<and> ro_commit (rg_rows rg) db3 = Inr db')"
    unfolding load_stream_def load_body_def loads
    by (auto simp: and_then_def finish split: sum.splits)
  then show ?thesis using D restored_sources [OF ok(1)] placed by simp
qed

section \<open>A restore of two files and a row\<close>

text \<open>The rows are a list of records; the backup has the file \<^verbatim>\<open>/srv/f\<close>, and skipped \<^verbatim>\<open>/srv/g\<close>.\<close>

definition demo_rows :: "py list rows" where
  "demo_rows =
     \<lparr>ro_known = (\<lambda>_. True), ro_exist = (\<lambda>_ db. db \<noteq> []), ro_flush = (\<lambda>_ db. Inr (length db, [])), ro_decode = Inr,
      ro_save = (\<lambda>rs db. Inr (db @ rs)), ro_finish = (\<lambda>_ db. Inr (length db, db)), ro_commit = Inr\<rparr>"

definition demo_placing :: placing where
  "demo_placing =
     \<lparr>pg_cwd = ''/'', pg_real = (\<lambda>p. p), pg_obstacle = (\<lambda>_. []), pg_roots = [''/srv''], pg_path_map = [],
      pg_storage = refuse Storage_refused\<rparr>"

definition demo_restoring :: "faults \<Rightarrow> py list restoring" where
  "demo_restoring fl =
     \<lparr>rg_rows = demo_rows, rg_translation = UNTRANSLATED, rg_str = (\<lambda>_. ''5''), rg_placing = demo_placing, rg_faults = fl,
      rg_tokens = (\<lambda>i. replicate (i + 1) (CHR ''a'')), rg_occupied = (\<lambda>_. True)\<rparr>"

definition demo_options :: restore_options where
  "demo_options = \<lparr>op_load_data = True, op_write_files = True, op_dry_run = False, op_flush = True\<rparr>"

definition demo_disk :: disk where
  "demo_disk = \<lparr>dk_files = [''/srv/f'' \<mapsto> [9], ''/srv/x'' \<mapsto> [8]], dk_dirs = [''/'', ''/srv'']\<rparr>"

definition demo_record :: py where
  "demo_record = PDict [(''model'', PStr ''a.C''), (''pk'', PInt 5), (''fields'', PDict [])]"

abbreviation demo_stream :: "bytes list" where
  "demo_stream \<equiv> map (\<lambda>b. [b]) (concat (fst demo_output))"

abbreviation demo_plan :: "placement list" where
  "demo_plan \<equiv> plan_entries demo_placing (map (listed_entry \<circ> sf_entry) demo_sources)"

lemma demo_planned:
  "list_all (\<lambda>s. pm_problem (place_entry demo_placing (listed_entry (sf_entry s))) = None) demo_sources"
  "map pm_target demo_plan = [''/srv/f'', ''/srv/g'']"
  "room_for demo_disk (\<lambda>i. replicate (i + 1) (CHR ''a'')) demo_plan [0..<length demo_sources]"
  by code_simp+

lemma demo_rows_take: "rows_take demo_codec (demo_restoring fl) demo_options demo_sources demo_models [PNone] = Inr [demo_record]"
  unfolding demo_restoring_def by code_simp


lemma produced_start:
  assumes "produce js about listed_skipped sources allow models = Inr (out, stats)" and "concat ps = concat out"
    and "source_ok js about sources models"
    and "json_exact js (written_values js about sources models (trailer_of listed_skipped sources models))"
  shows "\<exists>pr. payload_start js ps = Inr (header_of about models, map (listed_entry \<circ> sf_entry) sources, pr)"
proof -
  obtain pr pr1 pr2 where "open_payload ps = Inr pr" "read_header js pr = Inr (header_of about models, pr1)"
      "read_manifest js pr1 = Inr (map (listed_entry \<circ> sf_entry) sources, pr2)"
    using produced_is_read [OF assms] by blast
  then show ?thesis by (simp add: payload_start_def)
qed

lemmas demo_start = produced_start [OF demo_produced_pair demo_pieces demo_produced(2,3)]

lemma demo_apart: "targets_apart demo_codec (demo_restoring fl) demo_stream"
proof -
  have "list_all (\<lambda>t. \<not> suffix staging_suffix t) (map pm_target demo_plan)" unfolding demo_planned(2) by code_simp
  then show ?thesis using demo_start by (auto simp: targets_apart_def demo_restoring_def list_all_iff)
qed

lemma demo_options_simps [simp]: "op_load_data demo_options" "op_write_files demo_options" "\<not> op_dry_run demo_options"
  by (simp_all add: demo_options_def)

lemma demo_restoring_simps [simp]:
  "rg_placing (demo_restoring fl) = demo_placing" "rg_faults (demo_restoring fl) = fl"
  "rg_tokens (demo_restoring fl) = (\<lambda>i. replicate (i + 1) (CHR ''a''))"
  by (simp_all add: demo_restoring_def)

lemma restore_completes_witness:
  "\<exists>res dk'. restore_stream demo_codec (demo_restoring no_faults) demo_options demo_stream [PNone] demo_disk = (Inr res, [demo_record], dk')"
  by (rule restore_completes [OF demo_produced_pair demo_pieces demo_produced(2,3)])
    (simp_all only: demo_options_simps demo_restoring_simps demo_planned demo_rows_take not_False_eq_True)

lemma demo_restored:
  "\<exists>res dk'. restore_stream demo_codec (demo_restoring no_faults) demo_options demo_stream [PNone] demo_disk = (Inr res, [demo_record], dk')"
  by (rule restore_ends [OF demo_produced_pair demo_pieces demo_produced(2,3)])
    (simp_all only: demo_options_simps demo_restoring_simps demo_planned demo_rows_take not_False_eq_True)

lemma demo_sources_placed: "map (\<lambda>(pm, c). (pm_target pm, c)) (sources_placed demo_placing demo_sources) = [(''/srv/f'', [1, 2, 3])]"
  by code_simp

lemma restored_is_what_was_backed_up_witness:
  "\<exists>res dk'. restore_stream demo_codec (demo_restoring no_faults) demo_options demo_stream [PNone] demo_disk = (Inr res, [demo_record], dk') \<and>
    dk_files dk' = (dk_files demo_disk)(''/srv/f'' \<mapsto> [1, 2, 3])"
proof -
  obtain res dk' where run: "restore_stream demo_codec (demo_restoring no_faults) demo_options demo_stream [PNone] demo_disk = (Inr res, [demo_record], dk')"
    using demo_restored by blast
  obtain pm where pm: "sources_placed demo_placing demo_sources = [(pm, [1, 2, 3])]" "pm_target pm = ''/srv/f''"
    using demo_sources_placed by (auto simp: map_eq_Cons_conv)
  have "dk_files dk' = put_files (sources_placed demo_placing demo_sources) (dk_files demo_disk)"
    using restored_is_what_was_backed_up [OF demo_produced_pair demo_pieces demo_produced(2,3) run demo_apart demo_options_simps]
    by simp
  then have "dk_files dk' = (dk_files demo_disk)(''/srv/f'' \<mapsto> [1, 2, 3])" unfolding pm(1) put_files_def by (simp add: pm(2))
  then show ?thesis using run by blast
qed

text \<open>The file cannot be moved: the rows are committed, and the other file is left alone.\<close>

definition stuck_moves :: faults where
  "stuck_moves = no_faults\<lparr>fl_replace := (\<lambda>_. True)\<rparr>"

lemma demo_stuck: "\<exists>dk'. restore_stream demo_codec (demo_restoring stuck_moves) demo_options demo_stream [PNone] demo_disk = (Inl RestoreError, [demo_record], dk')"
proof -
  have free: "stages_freely (rg_faults (demo_restoring stuck_moves))" by (simp add: stages_freely_def stuck_moves_def no_faults_def)
  obtain sg dk1 f where run: "map snd (sg_pending sg) = map fst (sources_placed demo_placing demo_sources)"
      "restore_stream demo_codec (demo_restoring stuck_moves) demo_options demo_stream [PNone] demo_disk =
      (case publish stuck_moves (sg, dk1) of
         (Inl e, w) \<Rightarrow> (Inl e, [demo_record], snd (discard (rg_occupied (demo_restoring stuck_moves)) w))
       | (Inr _, sg, dk) \<Rightarrow> (Inr (f sg), [demo_record], dk))"
    using restore_runs [OF demo_produced_pair demo_pieces demo_produced(2,3) demo_options_simps _ free _ demo_rows_take, of demo_disk]
    by (simp only: demo_options_simps demo_restoring_simps demo_planned simp_thms) blast
  have "length (sg_pending sg) = 1" using arg_cong [OF run(1), of length] arg_cong [OF demo_sources_placed, of length] by simp
  then obtain path pm where "sg_pending sg = [(path, pm)]" by (auto simp: length_Suc_conv)
  then show ?thesis unfolding run(2) by (simp add: publish_def stuck_moves_def)
qed

lemma failed_restore_leaves_no_halves_witness:
  "\<exists>dk'. restore_stream demo_codec (demo_restoring stuck_moves) demo_options demo_stream [PNone] demo_disk
      = (Inl RestoreError, [demo_record], dk') \<and> dk_files dk' ''/srv/x'' = Some [8]"
proof -
  obtain dk' where run: "restore_stream demo_codec (demo_restoring stuck_moves) demo_options demo_stream [PNone] demo_disk
      = (Inl RestoreError, [demo_record], dk')" using demo_stuck by blast
  have other: "[demo_record] \<noteq> [PNone]" by (simp add: demo_record_def)
  obtain header entries pr outs where R: "payload_start demo_codec demo_stream = Inr (header, entries, pr)"
      "dk_files dk' ''/srv/x'' = dk_files demo_disk ''/srv/x'' \<or>
        list_ex (\<lambda>(pm, c). pm_target pm = ''/srv/x'' \<and> dk_files dk' ''/srv/x'' = Some c)
          (restored_files (placements_of (demo_restoring stuck_moves) demo_options entries) outs)"
    using failed_restore_leaves_no_halves [OF run demo_apart] other by blast
  have es: "entries = map (listed_entry \<circ> sf_entry) demo_sources" using R(1) demo_start by auto
  have plan: "placements_of (demo_restoring stuck_moves) demo_options entries = demo_plan" by (simp add: placements_of_def es)
  have x: "''/srv/x'' \<notin> set (map pm_target demo_plan)" unfolding demo_planned(2) by simp
  have "\<not> list_ex (\<lambda>(pm, c). pm_target pm = ''/srv/x'' \<and> dk_files dk' ''/srv/x'' = Some c) (restored_files demo_plan outs)"
  proof
    assume "list_ex (\<lambda>(pm, c). pm_target pm = ''/srv/x'' \<and> dk_files dk' ''/srv/x'' = Some c) (restored_files demo_plan outs)"
    then obtain q where q: "q \<in> set (restored_files demo_plan outs)" "case q of (pm, c) \<Rightarrow> pm_target pm = ''/srv/x'' \<and> dk_files dk' ''/srv/x'' = Some c"
      unfolding list_ex_iff by (elim bexE)
    have "fst q \<in> set demo_plan" using q(1) restored_placements [of demo_plan outs] unfolding set_map by blast
    then have "pm_target (fst q) \<in> set (map pm_target demo_plan)" unfolding set_map by (rule imageI)
    then show False using q(2) x by (simp only: split_def) 
  qed
  then have "dk_files dk' ''/srv/x'' = dk_files demo_disk ''/srv/x''" using R(2) unfolding plan by blast
  then show ?thesis using run by (simp add: demo_disk_def)
qed

lemma restore_stays_inside_roots_witness:
  "dk_files (snd (snd (restore_stream demo_codec (demo_restoring no_faults) demo_options demo_stream [PNone] demo_disk))) ''/etc/x'' = None"
proof -
  obtain r db' dk' where run: "restore_stream demo_codec (demo_restoring no_faults) demo_options demo_stream [PNone] demo_disk = (r, db', dk')"
    by (metis prod_cases3)
  have outside: "\<not> list_ex (is_inside ''/etc/x'') (pg_roots (rg_placing (demo_restoring no_faults)))"
    "\<not> list_ex (\<lambda>e. fe_kind e = ''storage'' \<and> Q e) (map (listed_entry \<circ> sf_entry) demo_sources)" for Q
    unfolding demo_restoring_simps(1) by code_simp (simp add: demo_sources_def listed_entry_def)
  have "dk_files dk' ''/etc/x'' = dk_files demo_disk ''/etc/x''"
    using restore_stays_inside_roots [OF run demo_apart, of "''/etc/x''"] outside demo_start by (auto simp: demo_restoring_simps(1))
  then show ?thesis unfolding run by (simp add: demo_disk_def)
qed

end
