(* ===== verification/Leases.thy ===== *)
theory Leases
  imports PyText
begin

text \<open>
  The leases of \<^verbatim>\<open>src/dbs/leases.py\<close>: rows of a database table by which processes agree who may run a job. The
  table is a map from the unique name of a lease to its row; a statement of the database (\<^verbatim>\<open>get_or_create\<close>, an
  \<^verbatim>\<open>update\<close> of the rows a filter selects, a \<^verbatim>\<open>delete\<close>) is one atomic step and takes the clock reading of the process
  that sends it. Moments are integers.
\<close>

record lease =
  le_owner :: string
  le_expires_at :: int
  le_renewed_at :: int

type_synonym leases = "string \<rightharpoonup> lease"

section \<open>The statements\<close>

datatype statement =
    Get_or_create string int
  | Update_taken string string int int
  | Update_renewed string string int int
  | Update_released string string int
  | Delete_owned string string

text \<open>What a statement does, with the number of rows it changed.\<close>

fun execute :: "statement \<Rightarrow> leases \<Rightarrow> nat \<times> leases" where
  "execute (Get_or_create name now) ls =
     (case ls name of
        Some _ \<Rightarrow> (0, ls)
      | None \<Rightarrow> (1, ls(name \<mapsto> \<lparr>le_owner = [], le_expires_at = now, le_renewed_at = now\<rparr>)))"
| "execute (Update_taken name owner now ttl) ls =
     (case ls name of
        Some l \<Rightarrow> if le_expires_at l \<le> now \<or> le_owner l = owner
                  then (1, ls(name \<mapsto> \<lparr>le_owner = owner, le_expires_at = now + ttl, le_renewed_at = now\<rparr>)) else (0, ls)
      | None \<Rightarrow> (0, ls))"
| "execute (Update_renewed name owner now ttl) ls =
     (case ls name of
        Some l \<Rightarrow> if le_owner l = owner
                  then (1, ls(name \<mapsto> l\<lparr>le_expires_at := now + ttl, le_renewed_at := now\<rparr>)) else (0, ls)
      | None \<Rightarrow> (0, ls))"
| "execute (Update_released name owner now) ls =
     (case ls name of
        Some l \<Rightarrow> if le_owner l = owner then (1, ls(name \<mapsto> l\<lparr>le_owner := [], le_expires_at := now\<rparr>)) else (0, ls)
      | None \<Rightarrow> (0, ls))"
| "execute (Delete_owned name owner) ls =
     (case ls name of
        Some l \<Rightarrow> if le_owner l = owner then (1, ls(name := None)) else (0, ls)
      | None \<Rightarrow> (0, ls))"

section \<open>The operations\<close>

definition acquire :: "string \<Rightarrow> string \<Rightarrow> int \<Rightarrow> int \<Rightarrow> leases \<Rightarrow> bool \<times> leases" where
  "acquire name owner ttl now ls =
     (let (_, ls) = execute (Get_or_create name now) ls;
          (taken, ls) = execute (Update_taken name owner now ttl) ls
      in (taken = 1, ls))"

definition renew :: "string \<Rightarrow> string \<Rightarrow> int \<Rightarrow> int \<Rightarrow> leases \<Rightarrow> bool \<times> leases" where
  "renew name owner ttl now ls = (let (renewed, ls) = execute (Update_renewed name owner now ttl) ls in (renewed = 1, ls))"

definition release :: "string \<Rightarrow> string \<Rightarrow> int \<Rightarrow> leases \<Rightarrow> leases" where
  "release name owner now ls = snd (execute (Update_released name owner now) ls)"

definition drop_lease :: "string \<Rightarrow> string \<Rightarrow> leases \<Rightarrow> leases" where
  "drop_lease name owner ls = snd (execute (Delete_owned name owner) ls)"

definition holder :: "string \<Rightarrow> int \<Rightarrow> leases \<Rightarrow> lease option" where
  "holder name now ls =
     (case ls name of
        Some l \<Rightarrow> if now < le_expires_at l \<and> le_owner l \<noteq> [] then Some l else None
      | None \<Rightarrow> None)"

definition last_renewed :: "string \<Rightarrow> leases \<Rightarrow> int option" where
  "last_renewed name ls = map_option le_renewed_at (ls name)"

text \<open>One beat of the heartbeat: every lease is renewed, a \<^verbatim>\<open>DatabaseError\<close> (where \<open>unreachable\<close> says so) is passed
  over, and \<open>lost\<close> is set when a lease is not held any more.\<close>

fun beat :: "(string \<Rightarrow> bool) \<Rightarrow> string list \<Rightarrow> string \<Rightarrow> int \<Rightarrow> int \<Rightarrow> bool \<Rightarrow> leases \<Rightarrow> bool \<times> leases" where
  "beat unreachable [] owner ttl now lost ls = (lost, ls)"
| "beat unreachable (name # names) owner ttl now lost ls =
     (if unreachable name then beat unreachable names owner ttl now lost ls
      else let (renewed, ls) = renew name owner ttl now ls
           in beat unreachable names owner ttl now (if renewed then lost else True) ls)"

section \<open>Mutual exclusion\<close>

fun statement_owner :: "statement \<Rightarrow> string option" where
  "statement_owner (Get_or_create name now) = None"
| "statement_owner (Update_taken name owner now ttl) = Some owner"
| "statement_owner (Update_renewed name owner now ttl) = Some owner"
| "statement_owner (Update_released name owner now) = Some owner"
| "statement_owner (Delete_owned name owner) = Some owner"

fun statement_time :: "statement \<Rightarrow> int option" where
  "statement_time (Get_or_create name now) = Some now"
| "statement_time (Update_taken name owner now ttl) = Some now"
| "statement_time (Update_renewed name owner now ttl) = Some now"
| "statement_time (Update_released name owner now) = Some now"
| "statement_time (Delete_owned name owner) = None"

definition by_others :: "string \<Rightarrow> int \<Rightarrow> statement \<Rightarrow> bool" where
  "by_others owner limit s \<longleftrightarrow>
     statement_owner s \<noteq> Some owner \<and> (case statement_time s of None \<Rightarrow> True | Some now \<Rightarrow> now < limit)"

definition execute_all :: "statement list \<Rightarrow> leases \<Rightarrow> leases" where
  "execute_all ss ls = fold (\<lambda>s ls. snd (execute s ls)) ss ls"

lemma execute_by_others:
  assumes "ls name = Some l" "le_owner l = owner" "le_expires_at l = limit" "by_others owner limit s"
  shows "snd (execute s ls) name = Some l"
  using assms by (cases s) (auto simp: by_others_def split: option.splits)

lemma execute_all_by_others:
  "ls name = Some l \<Longrightarrow> le_owner l = owner \<Longrightarrow> le_expires_at l = limit \<Longrightarrow> list_all (by_others owner limit) ss \<Longrightarrow>
   execute_all ss ls name = Some l"
  by (induction ss arbitrary: ls) (auto simp: execute_all_def execute_by_others)

lemma acquire_row:
  assumes "acquire name owner ttl now ls = (True, ls')"
  shows "ls' name = Some \<lparr>le_owner = owner, le_expires_at = now + ttl, le_renewed_at = now\<rparr>"
  using assms by (auto simp: acquire_def split: option.splits if_splits)

lemma acquire_free:
  "(case ls name of None \<Rightarrow> True | Some l \<Rightarrow> le_expires_at l \<le> now) \<Longrightarrow> fst (acquire name owner ttl now ls)"
  by (auto simp: acquire_def split: option.splits)

text \<open>
  C30: A lease excludes every other owner until it expires: after an owner has acquired it, whatever statements of
  other owners are executed in whatever order with clock readings before the expiry, the owner is still its holder
  and no other owner can acquire it; once it has expired anybody can, so a holder that died blocks nobody.
\<close>

theorem lease_excludes_others:
  assumes "acquire name owner ttl now ls = (True, ls')" and "list_all (by_others owner (now + ttl)) ss"
    and "owner \<noteq> []" and "other \<noteq> owner"
  shows "(\<forall>t. t < now + ttl \<longrightarrow>
      holder name t (execute_all ss ls') = Some \<lparr>le_owner = owner, le_expires_at = now + ttl, le_renewed_at = now\<rparr> \<and>
      \<not> fst (acquire name other ttl' t (execute_all ss ls'))) \<and>
    (\<forall>t. now + ttl \<le> t \<longrightarrow> fst (acquire name other ttl' t (execute_all ss ls')))"
proof -
  have row: "execute_all ss ls' name = Some \<lparr>le_owner = owner, le_expires_at = now + ttl, le_renewed_at = now\<rparr>"
    using execute_all_by_others [of ls' name "\<lparr>le_owner = owner, le_expires_at = now + ttl, le_renewed_at = now\<rparr>"]
      acquire_row [OF assms(1)] assms(2) by simp
  then show ?thesis using assms(3,4) by (auto simp: holder_def acquire_def)
qed

theorem lease_excludes_others_witness:
  "\<exists>ls'. acquire ''run'' ''a'' 120 1000 Map.empty = (True, ls') \<and>
    \<not> fst (acquire ''run'' ''b'' 120 1119
      (execute_all [Get_or_create ''run'' 1001, Update_taken ''run'' ''b'' 1001 120, Delete_owned ''run'' ''c''] ls'))"
proof -
  obtain ls' where ls': "acquire ''run'' ''a'' 120 1000 Map.empty = (True, ls')" by (simp add: acquire_def)
  show ?thesis
    using lease_excludes_others [OF ls', of "[Get_or_create ''run'' 1001, Update_taken ''run'' ''b'' 1001 120, Delete_owned ''run'' ''c'']" "''b''" 120] ls'
    by (auto simp: by_others_def)
qed

end
