(* ===== verification/Schedule.thy ===== *)
theory Schedule
  imports Leases
begin

text \<open>
  Scheduled backups: \<^verbatim>\<open>parse_interval\<close> and \<^verbatim>\<open>run_schedule\<close> of \<^verbatim>\<open>src/dbs/scheduling.py\<close>, the row \<^verbatim>\<open>BackupSchedule\<close> of
  \<^verbatim>\<open>src/dbs/models.py\<close>, and the decisions of \<^verbatim>\<open>src/dbs/schedule_runner.py\<close>: when a scheduled backup is due, and what
  happens after one that stopped with its process. The backup itself is a parameter that says how it went;
  moments and intervals are in seconds.
\<close>

section \<open>Intervals\<close>

definition MULTIPLIERS :: "(string \<times> int) list" where
  "MULTIPLIERS = [([], 1), (''s'', 1), (''m'', 60), (''h'', 3600), (''d'', 86400)]"

text \<open>\<^verbatim>\<open>^(\d+)([smhd]?)$\<close> on the stripped, lower-cased text, which cannot end in a newline.\<close>

definition parse_interval :: "string \<Rightarrow> int result" where
  "parse_interval spec =
     (let s = text_lower (strip_spaces spec);
          digits = takeWhile is_digit s;
          unit = dropWhile is_digit s
      in if digits = [] then Inl ConfigurationError
         else case map_of MULTIPLIERS unit of
                None \<Rightarrow> Inl ConfigurationError
              | Some factor \<Rightarrow>
                  let seconds = int (number_of_digits digits) * factor
                  in if seconds \<le> 0 then Inl ConfigurationError else Inr seconds)"

text \<open>
  \<^verbatim>\<open>run_schedule\<close>: every pass sees whether \<^verbatim>\<open>stop\<close> is set, whether the action raises, and whether \<^verbatim>\<open>stop\<close> was set
  during the wait; the list says so for the passes there would be. The count of failures is the result.
\<close>

fun run_schedule :: "bool \<Rightarrow> (bool \<times> bool \<times> bool) list \<Rightarrow> nat \<Rightarrow> nat option" where
  "run_schedule once [] failures = None"
| "run_schedule once ((stopped, raises, stopped_later) # passes) failures =
     (if stopped then Some failures
      else let failures = (if raises then failures + 1 else failures)
           in if once then Some failures
              else if stopped_later then Some failures
              else run_schedule once passes failures)"

section \<open>The schedule\<close>

datatype run_status = Never | Running | Retrying | Interrupted | Succeeded | Failed_run

record backup_schedule =
  sc_enabled :: bool
  sc_interval :: string
  sc_keep :: nat
  sc_database :: string
  sc_next_run_at :: "int option"
  sc_last_run_at :: "int option"
  sc_last_status :: run_status
  sc_last_error :: string

definition seed_keep :: "int option \<Rightarrow> int" where
  "seed_keep value = (case value of None \<Rightarrow> 5 | Some keep \<Rightarrow> min (max keep 1) 5)"

definition interval_seconds :: "backup_schedule \<Rightarrow> int result" where
  "interval_seconds sc = parse_interval (sc_interval sc)"

definition INTERRUPTED_ONCE :: string where
  "INTERRUPTED_ONCE = ''The last scheduled backup stopped before it finished; it is taken again now.''"
definition INTERRUPTED_TWICE :: string where
  "INTERRUPTED_TWICE = ''Two scheduled backups in a row stopped before they finished; the next one runs '' @
     ''at the usual time.''"

definition is_due :: "backup_schedule \<Rightarrow> int \<Rightarrow> bool" where
  "is_due sc now \<longleftrightarrow> (case sc_next_run_at sc of None \<Rightarrow> True | Some t \<Rightarrow> t \<le> now)"

definition resume :: "int \<Rightarrow> backup_schedule \<Rightarrow> (bool \<times> backup_schedule) result" where
  "resume now sc =
     (if sc_last_status sc = Running
      then Inr (True, sc\<lparr>sc_last_status := Interrupted, sc_last_error := INTERRUPTED_ONCE\<rparr>)
      else if sc_last_status sc = Retrying
      then and_then (interval_seconds sc) (\<lambda>seconds.
             Inr (False, sc\<lparr>sc_last_status := Failed_run, sc_last_error := INTERRUPTED_TWICE, sc_next_run_at := Some (now + seconds)\<rparr>))
      else Inr (True, sc))"

text \<open>How the backup went: it returned the path it wrote, raised an exception, or its process ended under it.\<close>

datatype cycle = Wrote string | Raised exn string | Died

datatype run_outcome = Returned "string option" | Raises exn | Process_ended

record attempt =
  at_passphrase :: "string option"
  at_cycle :: cycle
  at_started :: int
  at_ended :: int

text \<open>\<^verbatim>\<open>_run\<close>: a missing passphrase is a \<^verbatim>\<open>ScheduleError\<close> like any other failure of the cycle.\<close>

definition run_attempt :: "int \<Rightarrow> attempt \<Rightarrow> backup_schedule \<Rightarrow> run_outcome \<times> backup_schedule" where
  "run_attempt now at sc =
     (case interval_seconds sc of
        Inl e \<Rightarrow> (Raises e, sc)
      | Inr seconds \<Rightarrow>
          let status = (if sc_last_status sc = Interrupted then Retrying else Running);
              following = now + seconds;
              sc = sc\<lparr>sc_last_status := status, sc_last_run_at := Some (at_started at)\<rparr>
          in (case (if at_passphrase at = None then Raised ScheduleError ''Scheduled backups have no passphrase'' else at_cycle at) of
                Died \<Rightarrow> (Process_ended, sc)
              | Raised e message \<Rightarrow>
                  (Raises e, sc\<lparr>sc_last_run_at := Some (at_ended at), sc_last_status := Failed_run,
                    sc_last_error := take 4000 message, sc_next_run_at := Some following\<rparr>)
              | Wrote output \<Rightarrow>
                  (Returned (Some output), sc\<lparr>sc_last_run_at := Some (at_ended at), sc_last_status := Succeeded,
                    sc_last_error := [], sc_next_run_at := Some following\<rparr>)))"

text \<open>
  \<^verbatim>\<open>run_due\<close>: \<open>loaded\<close> is the row read at first, \<open>sc\<close> the row read again once the lease of the runner is held;
  \<open>taken\<close> says whether the lease could be had.
\<close>

definition run_due :: "bool \<Rightarrow> int \<Rightarrow> backup_schedule \<Rightarrow> bool \<Rightarrow> attempt \<Rightarrow> backup_schedule \<Rightarrow> run_outcome \<times> backup_schedule" where
  "run_due force now loaded taken at sc =
     (if \<not> sc_enabled loaded \<and> \<not> force then (Returned None, sc)
      else if \<not> force \<and> \<not> is_due loaded now then (Returned None, sc)
      else if \<not> taken then (Returned None, sc)
      else case resume now sc of
             Inl e \<Rightarrow> (Raises e, sc)
           | Inr (go_on, sc) \<Rightarrow>
               if \<not> go_on \<and> \<not> force then (Returned None, sc)
               else if \<not> force \<and> \<not> is_due sc now then (Returned None, sc)
               else run_attempt now at sc)"

section \<open>Attempts\<close>

text \<open>One call of the loop of the scheduler, and the moments at which a backup was started by a series of them.\<close>

record due_call =
  ca_now :: int
  ca_loaded :: backup_schedule
  ca_taken :: bool
  ca_attempt :: attempt

fun started_at :: "backup_schedule \<Rightarrow> due_call list \<Rightarrow> int list" where
  "started_at sc [] = []"
| "started_at sc (c # cs) =
     (case run_due False (ca_now c) (ca_loaded c) (ca_taken c) (ca_attempt c) sc of
        (outcome, sc') \<Rightarrow> (if outcome = Returned None then [] else [ca_now c]) @ started_at sc' cs)"

fun spaced :: "int \<Rightarrow> int list \<Rightarrow> bool" where
  "spaced gap (a # b # c # ts) \<longleftrightarrow> a + gap \<le> c \<and> spaced gap (b # c # ts)"
| "spaced gap ts \<longleftrightarrow> True"

text \<open>What is known of the row after the last (up to two) starts \<open>hist\<close>.\<close>

definition after_starts :: "int \<Rightarrow> int list \<Rightarrow> backup_schedule \<Rightarrow> bool" where
  "after_starts gap hist sc \<longleftrightarrow>
     interval_seconds sc = Inr gap \<and>
     (case hist of
        [] \<Rightarrow> True
      | [t] \<Rightarrow> sc_last_status sc \<notin> {Running, Interrupted, Retrying} \<longrightarrow>
                 (case sc_next_run_at sc of None \<Rightarrow> False | Some x \<Rightarrow> t + gap \<le> x)
      | u # t # _ \<Rightarrow>
          u \<le> t \<and> (sc_last_status sc \<in> {Running, Interrupted} \<longrightarrow> u + gap \<le> t) \<and>
          (sc_last_status sc \<notin> {Running, Interrupted, Retrying} \<longrightarrow>
             (case sc_next_run_at sc of None \<Rightarrow> False | Some x \<Rightarrow> t + gap \<le> x)))"

lemma interval_positive: "interval_seconds sc = Inr gap \<Longrightarrow> 0 < gap"
  by (auto simp: interval_seconds_def parse_interval_def Let_def split: option.splits if_splits)

lemma interval_same: "sc_interval sc' = sc_interval sc \<Longrightarrow> interval_seconds sc' = interval_seconds sc"
  by (simp add: interval_seconds_def)

lemma run_attempt_after:
  assumes "interval_seconds sc = Inr gap" "run_attempt now at sc = (outcome, sc')"
  shows "outcome \<noteq> Returned None \<and> interval_seconds sc' = Inr gap \<and>
    (sc_last_status sc' \<in> {Running, Interrupted, Retrying} \<and> sc_last_status sc' = (if sc_last_status sc = Interrupted then Retrying else Running) \<or>
     sc_last_status sc' \<notin> {Running, Interrupted, Retrying} \<and> sc_next_run_at sc' = Some (now + gap))"
  using assms
  by (auto simp: run_attempt_def Let_def interval_seconds_def split: cycle.splits if_splits)

definition next_hist :: "int list \<Rightarrow> int \<Rightarrow> int list" where
  "next_hist hist now = (case hist of [] \<Rightarrow> [now] | [t] \<Rightarrow> [t, now] | u # t # _ \<Rightarrow> [t, now])"

lemma attempt_after_starts:
  assumes inv: "after_starts gap hist sc" and at: "run_attempt now at sc = (outcome, sc')"
    and status: "sc_last_status sc \<notin> {Running, Retrying}"
    and due: "sc_last_status sc \<noteq> Interrupted \<Longrightarrow> is_due sc now" and order: "hist \<noteq> [] \<Longrightarrow> last hist \<le> now"
    and short: "length hist \<le> 2"
  shows "after_starts gap (next_hist hist now) sc' \<and> (length hist = 2 \<longrightarrow> hd hist + gap \<le> now)"
proof -
  have gap: "interval_seconds sc = Inr gap" using inv by (simp add: after_starts_def)
  note after = run_attempt_after [OF gap at]
  have late: "t + gap \<le> now" if "hist \<noteq> []" "t = last hist" "sc_last_status sc \<noteq> Interrupted" for t
    using inv that due status short
    by (cases hist; cases "tl hist"; cases "sc_last_status sc") (auto simp: after_starts_def is_due_def split: option.splits)
  have pos: "0 < gap" using interval_positive [OF gap] .
  have spread: "u + gap \<le> now" if two: "hist = [u, t]" for u t
  proof (cases "sc_last_status sc = Interrupted")
    case True
    then have "u + gap \<le> t" using inv unfolding two after_starts_def by simp
    moreover have "t \<le> now" using order unfolding two by simp
    ultimately show ?thesis by linarith
  next
    case False
    have "t + gap \<le> now" using late [OF _ _ False, of t] unfolding two by simp
    moreover have "u \<le> t" using inv unfolding two after_starts_def by simp
    ultimately show ?thesis by linarith
  qed
  have shape: "next_hist hist now = [now] \<or> (\<exists>t. next_hist hist now = [t, now] \<and> last hist = t \<and> hist \<noteq> [])"
    using short by (cases hist; cases "tl hist") (auto simp: next_hist_def)
  have gap': "interval_seconds sc' = Inr gap" using after by blast
  have "after_starts gap (next_hist hist now) sc'"
    using after
  proof (elim conjE disjE)
    assume died: "sc_last_status sc' = (if sc_last_status sc = Interrupted then Retrying else Running)"
    show ?thesis
    proof (cases "sc_last_status sc = Interrupted")
      case True
      then have "sc_last_status sc' = Retrying" using died by simp
      then show ?thesis using shape gap' order by (auto simp: after_starts_def)
    next
      case False
      then have "sc_last_status sc' = Running" using died by simp
      then show ?thesis using shape gap' late [OF _ refl False] pos by (fastforce simp: after_starts_def)
    qed
  next
    assume returned: "sc_last_status sc' \<notin> {Running, Interrupted, Retrying}" "sc_next_run_at sc' = Some (now + gap)"
    then show ?thesis using shape gap' order by (auto simp: after_starts_def)
  qed
  moreover have "hd hist + gap \<le> now" if two: "length hist = 2"
  proof -
    obtain u t where "hist = [u, t]" using two by (cases hist; cases "tl hist") auto
    then show ?thesis using spread by simp
  qed
  ultimately show ?thesis by blast
qed

lemma resume_after_starts:
  assumes inv: "after_starts gap hist sc" and order: "hist \<noteq> [] \<Longrightarrow> last hist \<le> now" and short: "length hist \<le> 2"
  shows "\<exists>go_on sc'. resume now sc = Inr (go_on, sc') \<and> after_starts gap hist sc' \<and>
    (go_on \<longrightarrow> sc_last_status sc' \<notin> {Running, Retrying})"
proof (cases "sc_last_status sc = Retrying")
  case True
  have gap: "interval_seconds sc = Inr gap" using inv by (simp add: after_starts_def)
  let ?sc = "sc\<lparr>sc_last_status := Failed_run, sc_last_error := INTERRUPTED_TWICE, sc_next_run_at := Some (now + gap)\<rparr>"
  have "resume now sc = Inr (False, ?sc)" using True gap by (simp add: resume_def)
  moreover have "after_starts gap hist ?sc"
    using inv order short by (cases hist; cases "tl hist") (auto simp: after_starts_def interval_seconds_def)
  ultimately show ?thesis by blast
next
  case False
  then show ?thesis using inv
    by (cases hist; cases "tl hist") (auto simp: resume_def after_starts_def interval_seconds_def)
qed

lemma started_at_spaced:
  "after_starts gap hist sc \<Longrightarrow> length hist \<le> 2 \<Longrightarrow> sorted (hist @ map ca_now calls) \<Longrightarrow> spaced gap (hist @ started_at sc calls)"
proof (induction calls arbitrary: hist sc)
  case Nil
  then show ?case by (cases hist; cases "tl hist") auto
next
  case (Cons c calls)
  obtain outcome sc' where run: "run_due False (ca_now c) (ca_loaded c) (ca_taken c) (ca_attempt c) sc = (outcome, sc')"
    by fastforce
  have order: "hist \<noteq> [] \<Longrightarrow> last hist \<le> ca_now c" using Cons.prems(3) by (simp add: sorted_append)
  obtain go_on sc1 where sc1: "resume (ca_now c) sc = Inr (go_on, sc1)" "after_starts gap hist sc1"
      "go_on \<longrightarrow> sc_last_status sc1 \<notin> {Running, Retrying}"
    using resume_after_starts [OF Cons.prems(1) order Cons.prems(2)] by blast
  consider "outcome = Returned None" "sc' = sc \<or> sc' = sc1"
    | "go_on" "is_due sc1 (ca_now c)" "run_attempt (ca_now c) (ca_attempt c) sc1 = (outcome, sc')"
    using run sc1(1) by (auto simp: run_due_def split: if_splits)
  then show ?case
  proof cases
    case 1
    then have "after_starts gap hist sc'" using Cons.prems(1) sc1(2) by blast
    then show ?thesis using Cons.IH [of hist sc'] Cons.prems(2,3) run 1(1) by (simp add: sorted_append)
  next
    case 2
    have "outcome \<noteq> Returned None"
      using run_attempt_after [OF _ 2(3), of gap] sc1(2) by (simp add: after_starts_def)
    then have starts: "started_at sc (c # calls) = ca_now c # started_at sc' calls" using run by simp
    have later: "after_starts gap (next_hist hist (ca_now c)) sc'" "length hist = 2 \<longrightarrow> hd hist + gap \<le> ca_now c"
      using attempt_after_starts [OF sc1(2) 2(3) _ _ order Cons.prems(2)] sc1(3) 2(1,2) by blast+
    have "sorted (next_hist hist (ca_now c) @ map ca_now calls)" "length (next_hist hist (ca_now c)) \<le> 2"
      using Cons.prems(2,3) by (auto simp: next_hist_def split: list.splits)
    then have "spaced gap (next_hist hist (ca_now c) @ started_at sc' calls)" using Cons.IH later(1) by blast
    then show ?thesis using later(2) Cons.prems(2) unfolding starts
      by (cases hist; cases "tl hist") (auto simp: next_hist_def)
  qed
qed

lemma spaced_nth: "spaced gap ts \<Longrightarrow> i + 2 < length ts \<Longrightarrow> ts ! i + gap \<le> ts ! (i + 2)"
proof (induction gap ts arbitrary: i rule: spaced.induct)
  case (1 gap a b c ts)
  then show ?case by (cases i) auto
qed auto

text \<open>
  C31: A scheduled backup that keeps taking its process down does not run in a loop: of the backups that the
  scheduler starts, any three in a row span at least the interval, whatever the row held at first, however often the
  process ended under a backup, whatever stale row was read before the lease was taken.
\<close>

theorem at_most_two_attempts_per_interval:
  assumes "interval_seconds sc = Inr gap" and "sorted (map ca_now calls)" and "i + 2 < length (started_at sc calls)"
  shows "started_at sc calls ! i + gap \<le> started_at sc calls ! (i + 2)"
proof (rule spaced_nth [OF _ assms(3)])
  have "after_starts gap [] sc" using assms(1) by (simp add: after_starts_def)
  from started_at_spaced [OF this] show "spaced gap (started_at sc calls)" using assms(2) by simp
qed

definition demo_schedule :: backup_schedule where
  "demo_schedule = \<lparr>sc_enabled = True, sc_interval = ''1h'', sc_keep = 5, sc_database = ''default'', sc_next_run_at = None,
     sc_last_run_at = None, sc_last_status = Never, sc_last_error = []\<rparr>"

definition demo_call :: "int \<Rightarrow> due_call" where
  "demo_call now = \<lparr>ca_now = now, ca_loaded = demo_schedule, ca_taken = True,
     ca_attempt = \<lparr>at_passphrase = Some ''p'', at_cycle = Died, at_started = now, at_ended = now\<rparr>\<rparr>"

theorem at_most_two_attempts_per_interval_witness:
  "started_at demo_schedule (map demo_call [0, 60, 120, 180, 3720]) = [0, 60, 3720] \<and> (0 :: int) + 3600 \<le> 3720"
proof -
  have gap: "interval_seconds demo_schedule = Inr 3600" by code_simp
  have starts: "started_at demo_schedule (map demo_call [0, 60, 120, 180, 3720]) = [0, 60, 3720]" by code_simp
  show ?thesis
    using at_most_two_attempts_per_interval [OF gap, of "map demo_call [0, 60, 120, 180, 3720]" 0] unfolding starts
    by (simp add: demo_call_def)
qed

end
