(* ===== verification/AuditTrail.thy ===== *)
theory AuditTrail
  imports Frames "HOL-Library.Multiset" "HOL-Library.Sublist"
begin

text \<open>
  The audit trail, \<^verbatim>\<open>src/dbs/audit.py\<close>: events of a table that are opened, closed and then sealed into a chain of hashes.
  The table is the list of its rows in the order of their keys; an operation of the database is one atomic step and moments
  are integers. \<open>digest\<close> is the hexadecimal SHA-256 of a text and \<open>canonical\<close> its JSON form. Sealing is tried after the
  commit; that it may fail (and then waits for the next event) is an argument.
\<close>

datatype event_status = QUEUED | RUNNING | SUCCEEDED | FAILED

definition finished :: "event_status \<Rightarrow> bool" where "finished st \<longleftrightarrow> st = SUCCEEDED \<or> st = FAILED"
definition unfinished :: "event_status \<Rightarrow> bool" where "unfinished st \<longleftrightarrow> st = QUEUED \<or> st = RUNNING"

definition ACTION_MAX :: nat where "ACTION_MAX = 64"
definition TARGET_MAX :: nat where "TARGET_MAX = 1024"
definition DETAIL_MAX :: nat where "DETAIL_MAX = 4000"
definition ADDRESS_MAX :: nat where "ADDRESS_MAX = 64"
definition ERROR_CODE_MAX :: nat where "ERROR_CODE_MAX = 64"
definition SUBJECT_MAX :: nat where "SUBJECT_MAX = 64"
definition SEAL_BATCH :: nat where "SEAL_BATCH = 200"
definition INTERRUPTED :: string where "INTERRUPTED = ''interrupted''"

record audit_event =
  ae_actor :: "nat option"
  ae_action :: string
  ae_target_name :: string
  ae_detail :: string
  ae_data :: "(string \<times> py) list"
  ae_status :: event_status
  ae_error_code :: string
  ae_subject :: string
  ae_remote_addr :: string
  ae_succeeded :: bool
  ae_started_at :: "int option"
  ae_finished_at :: "int option"
  ae_created_at :: int
  ae_chain_index :: "nat option"
  ae_chain_hash :: string

type_synonym trail = "(nat \<times> audit_event) list"

definition next_key :: "trail \<Rightarrow> nat" where
  "next_key t = (if t = [] then 1 else fst (last t) + 1)"

text \<open>An \<^verbatim>\<open>update\<close> of the rows that a filter selects, with the number of rows it changed.\<close>

definition update_where :: "(nat \<Rightarrow> audit_event \<Rightarrow> bool) \<Rightarrow> (audit_event \<Rightarrow> audit_event) \<Rightarrow> trail \<Rightarrow> nat \<times> trail" where
  "update_where p f t =
     (length (filter (\<lambda>(k, e). p k e) t), map (\<lambda>(k, e). (k, if p k e then f e else e)) t)"

section \<open>The chain\<close>

type_synonym canonical = "audit_event \<Rightarrow> string"

text \<open>The fields in the chain are all but the actor and the hash itself (\<^verbatim>\<open>CHAINED_FIELDS\<close> and the index).\<close>

definition chained_fields :: "audit_event \<Rightarrow> audit_event" where
  "chained_fields e = e\<lparr>ae_actor := None, ae_chain_hash := []\<rparr>"

definition chain_link :: "(string \<Rightarrow> string) \<Rightarrow> canonical \<Rightarrow> string \<Rightarrow> audit_event \<Rightarrow> string" where
  "chain_link digest canonical previous e = digest (previous @ canonical (chained_fields e))"

definition later_link :: "nat \<times> audit_event \<Rightarrow> (nat \<times> string) option \<Rightarrow> (nat \<times> string) option" where
  "later_link row best =
     (case ae_chain_index (snd row) of
        None \<Rightarrow> best
      | Some i \<Rightarrow> (case best of
          None \<Rightarrow> Some (i, ae_chain_hash (snd row))
        | Some (j, _) \<Rightarrow> if j < i then Some (i, ae_chain_hash (snd row)) else best))"

definition last_link :: "trail \<Rightarrow> nat \<times> string" where
  "last_link t = (case fold later_link t None of None \<Rightarrow> (0, []) | Some l \<Rightarrow> l)"

definition sealed_as :: "nat \<Rightarrow> (audit_event \<Rightarrow> string) \<Rightarrow> audit_event \<Rightarrow> audit_event" where
  "sealed_as i hash e = (let e' = e\<lparr>ae_chain_index := Some i\<rparr> in e'\<lparr>ae_chain_hash := hash e'\<rparr>)"

fun seal_loop :: "(string \<Rightarrow> string) \<Rightarrow> canonical \<Rightarrow> nat \<Rightarrow> nat \<Rightarrow> string \<Rightarrow> trail \<Rightarrow> trail" where
  "seal_loop digest canonical limit index previous [] = []"
| "seal_loop digest canonical limit index previous ((k, e) # t) =
     (if 0 < limit \<and> ae_chain_index e = None \<and> finished (ae_status e)
      then let e' = sealed_as (index + 1) (chain_link digest canonical previous) e
           in (k, e') # seal_loop digest canonical (limit - 1) (index + 1) (ae_chain_hash e') t
      else (k, e) # seal_loop digest canonical limit index previous t)"

definition seal_pending :: "(string \<Rightarrow> string) \<Rightarrow> canonical \<Rightarrow> nat \<Rightarrow> trail \<Rightarrow> trail" where
  "seal_pending digest canonical limit t =
     (let (index, previous) = last_link t in seal_loop digest canonical limit index previous t)"

text \<open>\<open>seal_after_commit\<close> with \<open>_seal_quietly\<close>; \<open>down\<close> says that the database refuses.\<close>

definition seal_after_commit :: "(string \<Rightarrow> string) \<Rightarrow> canonical \<Rightarrow> bool \<Rightarrow> trail \<Rightarrow> trail" where
  "seal_after_commit digest canonical down t = (if down then t else seal_pending digest canonical SEAL_BATCH t)"

section \<open>Events\<close>

record audit_fields =
  af_actor :: "nat option"
  af_target :: string
  af_detail :: string
  af_data :: "(string \<times> py) list"
  af_status :: event_status
  af_error_code :: string
  af_remote_addr :: string
  af_subject :: string
  af_started_at :: "int option"
  af_finished_at :: "int option"

definition new_event :: "string \<Rightarrow> audit_fields \<Rightarrow> int \<Rightarrow> audit_event" where
  "new_event action f now =
     \<lparr>ae_actor = af_actor f, ae_action = take ACTION_MAX action, ae_target_name = take TARGET_MAX (af_target f),
      ae_detail = take DETAIL_MAX (af_detail f), ae_data = af_data f, ae_status = af_status f,
      ae_error_code = take ERROR_CODE_MAX (af_error_code f), ae_subject = take SUBJECT_MAX (af_subject f),
      ae_remote_addr = take ADDRESS_MAX (af_remote_addr f), ae_succeeded = (af_status f = SUCCEEDED),
      ae_started_at = (case af_started_at f of None \<Rightarrow> Some now | Some s \<Rightarrow> Some s),
      ae_finished_at = (if af_finished_at f = None \<and> finished (af_status f) then Some now else af_finished_at f),
      ae_created_at = now, ae_chain_index = None, ae_chain_hash = []\<rparr>"

record audit_env =
  en_digest :: "string \<Rightarrow> string"
  en_canonical :: canonical

definition audit_record :: "audit_env \<Rightarrow> bool \<Rightarrow> string \<Rightarrow> audit_fields \<Rightarrow> int \<Rightarrow> trail \<Rightarrow> nat \<times> trail" where
  "audit_record env down action f now t =
     (let key = next_key t; t = t @ [(key, new_event action f now)]
      in (key, if finished (af_status f) then seal_after_commit (en_digest env) (en_canonical env) down t else t))"

definition audit_queue :: "string \<Rightarrow> audit_fields \<Rightarrow> int \<Rightarrow> trail \<Rightarrow> nat \<times> trail" where
  "audit_queue action f now t =
     (let key = next_key t
      in (key, t @ [(key,
        \<lparr>ae_actor = af_actor f, ae_action = take ACTION_MAX action, ae_target_name = take TARGET_MAX (af_target f),
         ae_detail = [], ae_data = af_data f, ae_status = QUEUED, ae_error_code = [], ae_subject = take SUBJECT_MAX (af_subject f),
         ae_remote_addr = take ADDRESS_MAX (af_remote_addr f), ae_succeeded = False, ae_started_at = None, ae_finished_at = None,
         ae_created_at = now, ae_chain_index = None, ae_chain_hash = []\<rparr>)]))"

definition audit_start :: "nat \<Rightarrow> int \<Rightarrow> trail \<Rightarrow> audit_event option \<times> trail" where
  "audit_start key now t =
     (let (n, t) = update_where (\<lambda>k e. k = key \<and> unfinished (ae_status e)) (\<lambda>e. e\<lparr>ae_status := RUNNING, ae_started_at := Some now\<rparr>) t
      in (if n = 0 then None else map_of t key, t))"

definition close_event :: "event_status \<Rightarrow> (string \<times> py) list option \<Rightarrow> string \<Rightarrow> string \<Rightarrow> int \<Rightarrow> audit_event \<Rightarrow> audit_event" where
  "close_event status data error_code detail now e =
     (let e = e\<lparr>ae_status := status, ae_succeeded := status = SUCCEEDED, ae_error_code := take ERROR_CODE_MAX error_code,
                 ae_finished_at := Some now\<rparr>;
          e = (case data of None \<Rightarrow> e | Some d \<Rightarrow> e\<lparr>ae_data := d\<rparr>)
      in if detail \<noteq> [] then e\<lparr>ae_detail := take DETAIL_MAX detail\<rparr> else e)"

definition audit_close ::
  "audit_env \<Rightarrow> bool \<Rightarrow> nat \<Rightarrow> event_status \<Rightarrow> (string \<times> py) list option \<Rightarrow> string \<Rightarrow> string \<Rightarrow> int \<Rightarrow> trail \<Rightarrow> nat \<times> trail" where
  "audit_close env down key status data error_code detail now t =
     (let (n, t) = update_where (\<lambda>k e. k = key \<and> unfinished (ae_status e)) (close_event status data error_code detail now) t
      in (n, if n = 0 then t else seal_after_commit (en_digest env) (en_canonical env) down t))"

definition audit_finish where
  "audit_finish env down key data now t = audit_close env down key SUCCEEDED data [] [] now t"

definition audit_fail where
  "audit_fail env down key error_code data detail now t = audit_close env down key FAILED data error_code detail now t"

definition audit_interrupt ::
  "audit_env \<Rightarrow> bool \<Rightarrow> int option \<Rightarrow> nat list \<Rightarrow> nat list option \<Rightarrow> int \<Rightarrow> trail \<Rightarrow> nat \<times> trail" where
  "audit_interrupt env down idle_since kept only now t =
     (let idle = (\<lambda>e. case idle_since of None \<Rightarrow> unfinished (ae_status e)
            | Some since \<Rightarrow> (ae_status e = QUEUED \<and> ae_created_at e < since) \<or>
                (ae_status e = RUNNING \<and> (case ae_started_at e of None \<Rightarrow> False | Some s \<Rightarrow> s < since)));
          (n, t) = update_where (\<lambda>k e. idle e \<and> k \<notin> set kept \<and> (case only of None \<Rightarrow> True | Some ks \<Rightarrow> k \<in> set ks))
            (\<lambda>e. e\<lparr>ae_status := FAILED, ae_succeeded := False, ae_error_code := INTERRUPTED, ae_finished_at := Some now\<rparr>) t
      in (n, if n = 0 then t else seal_after_commit (en_digest env) (en_canonical env) down t))"

section \<open>Verifying the chain\<close>

record chain_check =
  cc_checked :: nat
  cc_head :: string
  cc_broken_at :: "nat option"
  cc_event :: "nat option"

definition intact :: "chain_check \<Rightarrow> bool" where "intact check \<longleftrightarrow> cc_broken_at check = None"

definition sealed_rows :: "trail \<Rightarrow> trail" where
  "sealed_rows t = sort_key (\<lambda>(k, e). the (ae_chain_index e)) (filter (\<lambda>(k, e). ae_chain_index e \<noteq> None) t)"

fun check_loop :: "audit_env \<Rightarrow> trail \<Rightarrow> string \<Rightarrow> nat \<Rightarrow> nat \<Rightarrow> chain_check" where
  "check_loop env [] previous expected checked =
     \<lparr>cc_checked = checked, cc_head = previous, cc_broken_at = None, cc_event = None\<rparr>"
| "check_loop env ((k, e) # t) previous expected checked =
     (if ae_chain_index e \<noteq> Some expected \<or> chain_link (en_digest env) (en_canonical env) previous e \<noteq> ae_chain_hash e
      then \<lparr>cc_checked = checked, cc_head = [], cc_broken_at = Some expected, cc_event = Some k\<rparr>
      else check_loop env t (ae_chain_hash e) (expected + 1) (checked + 1))"

definition verify_chain :: "audit_env \<Rightarrow> trail \<Rightarrow> chain_check" where
  "verify_chain env t = check_loop env (sealed_rows t) [] 1 0"


section \<open>The operations keep the chain whole\<close>

fun linked :: "audit_env \<Rightarrow> trail \<Rightarrow> string \<Rightarrow> nat \<Rightarrow> bool" where
  "linked env [] previous expected \<longleftrightarrow> True"
| "linked env ((k, e) # t) previous expected \<longleftrightarrow>
     ae_chain_index e = Some expected \<and> chain_link (en_digest env) (en_canonical env) previous e = ae_chain_hash e \<and>
     linked env t (ae_chain_hash e) (expected + 1)"

definition head_of :: "string \<Rightarrow> trail \<Rightarrow> string" where
  "head_of previous t = (if t = [] then previous else ae_chain_hash (snd (last t)))"

lemma linked_append:
  "linked env (s @ t) previous expected \<longleftrightarrow>
     linked env s previous expected \<and> linked env t (head_of previous s) (expected + length s)"
  by (induction s arbitrary: previous expected) (auto simp: head_of_def)

lemma linked_nth: "linked env s previous expected \<Longrightarrow> i < length s \<Longrightarrow> ae_chain_index (snd (s ! i)) = Some (expected + i)"
  by (induction s arbitrary: previous expected i) (auto simp: nth_Cons split: nat.split)

definition is_sealed :: "nat \<times> audit_event \<Rightarrow> bool" where
  "is_sealed row \<longleftrightarrow> ae_chain_index (snd row) \<noteq> None"

definition chain_ok :: "audit_env \<Rightarrow> trail \<Rightarrow> trail \<Rightarrow> bool" where
  "chain_ok env t s \<longleftrightarrow>
     mset s = mset (filter is_sealed t) \<and> linked env s [] 1 \<and> list_all (\<lambda>(k, e). finished (ae_status e)) s"

lemma sealed_rows_eq:
  assumes "chain_ok env t s"
  shows "sealed_rows t = s"
proof -
  let ?f = "\<lambda>(k :: nat, e). the (ae_chain_index e)"
  have idx: "?f (s ! i) = 1 + i" if "i < length s" for i
    using linked_nth [of env s "[]" 1 i] assms that by (auto simp: chain_ok_def case_prod_beta)
  then have keys: "map ?f s = [1..<1 + length s]" by (intro nth_equalityI) (simp_all add: idx del: upt_Suc)
  have m: "mset s = mset (filter is_sealed t)" using assms by (simp add: chain_ok_def)
  have d: "distinct (map ?f s)" unfolding keys by simp
  have only: "filter (\<lambda>x. ?f k = ?f x) xs = [k]" if "k \<in> set xs" "distinct (map ?f xs)" for k xs
    using that by (induction xs) (auto simp: filter_empty_conv rev_image_eqI)
  have d': "distinct (map ?f (filter is_sealed t))" using d m by (metis mset_eq_imp_distinct_iff mset_map)
  have "sort_key ?f (filter is_sealed t) = s"
  proof (rule properties_for_sort_key)
    fix k assume k: "k \<in> set s"
    then have k': "k \<in> set (filter is_sealed t)" using mset_eq_setD [OF m] by blast
    show "filter (\<lambda>x. ?f k = ?f x) s = filter (\<lambda>x. ?f k = ?f x) (filter is_sealed t)"
      by (simp only: only [OF k d] only [OF k' d'])
  next
    show "sorted (map ?f s)" unfolding keys by (rule sorted_upt)
  qed (rule m)
  moreover have "filter is_sealed t = filter (\<lambda>(k, e). ae_chain_index e \<noteq> None) t"
    by (rule filter_cong) (auto simp: is_sealed_def)
  ultimately show ?thesis by (simp add: sealed_rows_def)
qed

lemma check_loop_linked:
  "linked env s previous expected \<Longrightarrow> check_loop env s previous expected checked =
     \<lparr>cc_checked = checked + length s, cc_head = head_of previous s, cc_broken_at = None, cc_event = None\<rparr>"
  by (induction s arbitrary: previous expected checked) (auto simp: head_of_def)

lemma check_loop_intact:
  "intact (check_loop env s previous expected checked) \<Longrightarrow> linked env s previous expected"
  by (induction s arbitrary: previous expected checked) (auto simp: intact_def split: if_splits)

lemma chain_ok_verify:
  "chain_ok env t s \<Longrightarrow> verify_chain env t =
     \<lparr>cc_checked = length s, cc_head = head_of [] s, cc_broken_at = None, cc_event = None\<rparr>"
  using sealed_rows_eq [of env t s] check_loop_linked [of env s "[]" 1 0] by (simp add: verify_chain_def chain_ok_def)

text \<open>Adding an open event and changing events that are not finished leave the chain as it is.\<close>

lemma chain_ok_append: "chain_ok env t s \<Longrightarrow> ae_chain_index e = None \<Longrightarrow> chain_ok env (t @ [(k, e)]) s"
  by (simp add: chain_ok_def is_sealed_def)

lemma chain_ok_update:
  assumes "chain_ok env t s" "\<And>k e. p k e \<Longrightarrow> unfinished (ae_status e)" "\<And>e. ae_chain_index (f e) = ae_chain_index e"
  shows "chain_ok env (snd (update_where p f t)) s \<and> filter is_sealed (snd (update_where p f t)) = filter is_sealed t"
proof -
  have fin: "finished (ae_status e)" if "(k, e) \<in> set t" "is_sealed (k, e)" for k e
  proof -
    have "(k, e) \<in> set (filter is_sealed t)" using that by simp
    then have "(k, e) \<in> set s" using assms(1) unfolding chain_ok_def by (metis mset_eq_setD)
    then show ?thesis using assms(1) by (auto simp: chain_ok_def list_all_iff)
  qed
  have "filter is_sealed (map (\<lambda>(k, e). (k, if p k e then f e else e)) u) = filter is_sealed u" if "set u \<subseteq> set t" for u
    using that
  proof (induction u)
    case (Cons row u)
    obtain k e where row: "row = (k, e)" by (cases row)
    have "\<not> p k e" if "is_sealed (k, e)"
      using fin [of k e] assms(2) [of k e] that Cons.prems row by (auto simp: finished_def unfinished_def)
    then show ?case using Cons row assms(3) by (auto simp: is_sealed_def)
  qed simp
  then have "filter is_sealed (snd (update_where p f t)) = filter is_sealed t" by (simp add: update_where_def)
  then show ?thesis using assms(1) by (simp add: chain_ok_def)
qed

text \<open>Sealing adds links at the end.\<close>

lemma seal_loop_new:
  "\<exists>new. mset (filter is_sealed (seal_loop (en_digest env) (en_canonical env) limit index previous t)) = mset (filter is_sealed t) + mset new \<and>
     linked env new previous (index + 1) \<and> list_all (\<lambda>(k, e). finished (ae_status e)) new"
proof (induction "en_digest env" "en_canonical env" limit index previous t rule: seal_loop.induct)
  case (1 limit index previous)
  then show ?case by (intro exI [of _ "[]"]) simp
next
  case (2 limit index previous k e t)
  let ?loop = "seal_loop (en_digest env) (en_canonical env)"
  show ?case
  proof (cases "0 < limit \<and> ae_chain_index e = None \<and> finished (ae_status e)")
    case True
    let ?e = "sealed_as (index + 1) (chain_link (en_digest env) (en_canonical env) previous) e"
    obtain new where new: "mset (filter is_sealed (?loop (limit - 1) (index + 1) (ae_chain_hash ?e) t)) = mset (filter is_sealed t) + mset new"
        "linked env new (ae_chain_hash ?e) (index + 1 + 1)" "list_all (\<lambda>(k, e). finished (ae_status e)) new"
      using 2(1) [OF True refl] by blast
    have e: "is_sealed (k, ?e)" "\<not> is_sealed (k, e)" "ae_chain_index ?e = Some (index + 1)" "finished (ae_status ?e)"
        "chain_link (en_digest env) (en_canonical env) previous ?e = ae_chain_hash ?e"
      using True by (simp_all add: is_sealed_def sealed_as_def Let_def chain_link_def chained_fields_def)
    show ?thesis using new e True by (intro exI [of _ "(k, ?e) # new"]) (simp add: Let_def)
  next
    case False
    then obtain new where "mset (filter is_sealed (?loop limit index previous t)) = mset (filter is_sealed t) + mset new"
        "linked env new previous (index + 1)" "list_all (\<lambda>(k, e). finished (ae_status e)) new"
      using 2(2) by blast
    then show ?thesis using False by (intro exI [of _ new]) auto
  qed
qed

lemma seal_loop_keeps: "row \<in> set t \<Longrightarrow> is_sealed row \<Longrightarrow> row \<in> set (seal_loop digest canonical limit index previous t)"
  by (induction digest canonical limit index previous t rule: seal_loop.induct) (auto simp: is_sealed_def Let_def)

lemma fold_later_link:
  "case fold later_link t best of
     None \<Rightarrow> best = None \<and> (\<forall>row \<in> set t. \<not> is_sealed row)
   | Some (i, h) \<Rightarrow> (best = Some (i, h) \<or> (\<exists>row \<in> set t. ae_chain_index (snd row) = Some i \<and> ae_chain_hash (snd row) = h)) \<and>
       (\<forall>row \<in> set t. \<forall>j. ae_chain_index (snd row) = Some j \<longrightarrow> j \<le> i) \<and> (\<forall>j h'. best = Some (j, h') \<longrightarrow> j \<le> i)"
proof (induction t arbitrary: best)
  case (Cons row t)
  show ?case using Cons [of "later_link row best"]
    by (fastforce simp: later_link_def is_sealed_def split: option.splits if_splits)
qed (auto split: option.split)

lemma last_link_eq:
  assumes "chain_ok env t s"
  shows "last_link t = (length s, head_of [] s)"
proof (cases "s = []")
  case True
  then have "\<forall>row \<in> set t. \<not> is_sealed row" using assms by (auto simp: chain_ok_def filter_empty_conv)
  then show ?thesis using True fold_later_link [where t = t and best = None]
    by (fastforce simp: last_link_def head_of_def is_sealed_def split: option.splits)
next
  case False
  have sets: "set s = {row \<in> set t. is_sealed row}" using assms unfolding chain_ok_def by (metis mset_eq_setD set_filter)
  have idx: "ae_chain_index (snd (s ! i)) = Some (1 + i)" if "i < length s" for i
    using linked_nth [of env s "[]" 1 i] assms that by (simp add: chain_ok_def)
  have last: "last s = s ! (length s - 1)" "last s \<in> set s" using False by (simp_all add: last_conv_nth)
  have top: "ae_chain_index (snd (last s)) = Some (length s)" using idx [of "length s - 1"] False last by simp
  obtain i h where f: "fold later_link t None = Some (i, h)"
    using fold_later_link [where t = t and best = None] last(2) sets by (cases "fold later_link t None") auto
  obtain row where row: "row \<in> set t" "ae_chain_index (snd row) = Some i" "ae_chain_hash (snd row) = h"
      and most: "\<forall>row \<in> set t. \<forall>j. ae_chain_index (snd row) = Some j \<longrightarrow> j \<le> i"
    using fold_later_link [where t = t and best = None] f by auto
  have "row \<in> set s" using row sets by (simp add: is_sealed_def)
  then obtain n where n: "n < length s" "row = s ! n" by (metis in_set_conv_nth)
  have "length s \<le> i" using most top last(2) sets by blast
  then have "n = length s - 1" "i = length s" using idx [OF n(1)] n row(2) by auto
  then show ?thesis using f row(3) n last(1) False by (simp add: last_link_def head_of_def)
qed

lemma chain_ok_seal:
  assumes "chain_ok env t s"
  shows "\<exists>new. chain_ok env (seal_pending (en_digest env) (en_canonical env) limit t) (s @ new)"
proof -
  obtain new where new: "mset (filter is_sealed (seal_loop (en_digest env) (en_canonical env) limit (length s) (head_of [] s) t)) = mset (filter is_sealed t) + mset new"
      "linked env new (head_of [] s) (length s + 1)" "list_all (\<lambda>(k, e). finished (ae_status e)) new"
    using seal_loop_new by blast
  then show ?thesis using assms last_link_eq [OF assms]
    by (intro exI [of _ new]) (simp add: chain_ok_def seal_pending_def linked_append add.commute)
qed


section \<open>Every run keeps the trail\<close>

datatype audit_op =
    Op_record bool string audit_fields int
  | Op_queue string audit_fields int
  | Op_start nat int
  | Op_close bool nat event_status "(string \<times> py) list option" string string int
  | Op_interrupt bool "int option" "nat list" "nat list option" int
  | Op_seal nat

fun audit_step :: "audit_env \<Rightarrow> audit_op \<Rightarrow> trail \<Rightarrow> trail" where
  "audit_step env (Op_record down action f now) t = snd (audit_record env down action f now t)"
| "audit_step env (Op_queue action f now) t = snd (audit_queue action f now t)"
| "audit_step env (Op_start key now) t = snd (audit_start key now t)"
| "audit_step env (Op_close down key status data error_code detail now) t = snd (audit_close env down key status data error_code detail now t)"
| "audit_step env (Op_interrupt down idle_since kept only now) t = snd (audit_interrupt env down idle_since kept only now t)"
| "audit_step env (Op_seal limit) t = seal_pending (en_digest env) (en_canonical env) limit t"

definition extends_chain :: "audit_env \<Rightarrow> trail \<Rightarrow> trail \<Rightarrow> bool" where
  "extends_chain env s t \<longleftrightarrow> (\<exists>new. chain_ok env t (s @ new))"

lemma extends_same: "chain_ok env t s \<Longrightarrow> extends_chain env s t"
  unfolding extends_chain_def by (rule exI [of _ "[]"]) simp

lemma extends_after_commit:
  "chain_ok env t s \<Longrightarrow> extends_chain env s (seal_after_commit (en_digest env) (en_canonical env) down t)"
  using chain_ok_seal [of env t s SEAL_BATCH] extends_same [of env t s] by (auto simp: seal_after_commit_def extends_chain_def)

lemma audit_step_extends:
  assumes "chain_ok env t s"
  shows "extends_chain env s (audit_step env op t)"
proof (cases op)
  case (Op_record down action f now)
  have "chain_ok env (t @ [(next_key t, new_event action f now)]) s" by (rule chain_ok_append [OF assms]) (simp add: new_event_def)
  then show ?thesis using extends_after_commit extends_same by (simp add: Op_record audit_record_def Let_def)
next
  case (Op_queue action f now)
  then show ?thesis using chain_ok_append [OF assms] extends_same by (simp add: audit_queue_def Let_def)
next
  case (Op_start key now)
  let ?p = "\<lambda>k e. k = key \<and> unfinished (ae_status e)" and ?f = "\<lambda>e. e\<lparr>ae_status := RUNNING, ae_started_at := Some now\<rparr>"
  have "chain_ok env (snd (update_where ?p ?f t)) s" using chain_ok_update [OF assms, of ?p ?f] by simp
  then show ?thesis using extends_same by (simp add: Op_start audit_start_def split_def Let_def)
next
  case (Op_close down key status data error_code detail now)
  let ?p = "\<lambda>k e. k = key \<and> unfinished (ae_status e)" and ?f = "close_event status data error_code detail now"
  have "ae_chain_index (?f e) = ae_chain_index e" for e by (simp add: close_event_def Let_def split: option.split)
  then have "chain_ok env (snd (update_where ?p ?f t)) s" using chain_ok_update [OF assms, of ?p ?f] by simp
  then show ?thesis using extends_same extends_after_commit by (simp add: Op_close audit_close_def split_def Let_def)
next
  case (Op_interrupt down idle_since kept only now)
  let ?idle = "\<lambda>e. case idle_since of None \<Rightarrow> unfinished (ae_status e)
            | Some since \<Rightarrow> (ae_status e = QUEUED \<and> ae_created_at e < since) \<or>
                (ae_status e = RUNNING \<and> (case ae_started_at e of None \<Rightarrow> False | Some s \<Rightarrow> s < since))"
  let ?p = "\<lambda>k e. ?idle e \<and> k \<notin> set kept \<and> (case only of None \<Rightarrow> True | Some ks \<Rightarrow> k \<in> set ks)"
  let ?f = "\<lambda>e. e\<lparr>ae_status := FAILED, ae_succeeded := False, ae_error_code := INTERRUPTED, ae_finished_at := Some now\<rparr>"
  have open_only: "\<And>k e. ?p k e \<Longrightarrow> unfinished (ae_status e)" by (auto simp: unfinished_def split: option.splits)
  have "chain_ok env (snd (update_where ?p ?f t)) s"
    by (rule conjunct1 [OF chain_ok_update [where p = ?p and f = ?f, OF assms]]) (erule open_only, simp)
  then show ?thesis using extends_same extends_after_commit by (simp add: Op_interrupt audit_interrupt_def split_def Let_def)
next
  case (Op_seal limit)
  then show ?thesis using chain_ok_seal [OF assms] by (simp add: extends_chain_def)
qed

lemma audit_run_extends: "chain_ok env t s \<Longrightarrow> extends_chain env s (fold (audit_step env) ops t)"
proof (induction ops arbitrary: t s)
  case (Cons op ops)
  obtain new where "chain_ok env (audit_step env op t) (s @ new)" using audit_step_extends [OF Cons.prems, of op] by (auto simp: extends_chain_def)
  from Cons.IH [OF this] show ?case by (auto simp: extends_chain_def)
qed (simp add: extends_same)

text \<open>
  C32: the audit trail only grows. Whatever events are recorded, queued, started, closed and interrupted, in whatever order,
  with whatever sealings failing and tried again, the chain verifies, it covers every sealed event, and events once sealed
  stay at their place in the chain, unchanged, whatever is done afterwards.
\<close>
theorem trail_only_grows:
  "intact (verify_chain env (fold (audit_step env) (ops @ ops') [])) \<and>
   cc_checked (verify_chain env (fold (audit_step env) (ops @ ops') [])) = length (filter is_sealed (fold (audit_step env) (ops @ ops') [])) \<and>
   prefix (sealed_rows (fold (audit_step env) ops [])) (sealed_rows (fold (audit_step env) (ops @ ops') []))"
proof -
  have start: "chain_ok env [] []" by (simp add: chain_ok_def)
  obtain s where s: "chain_ok env (fold (audit_step env) ops []) s"
    using audit_run_extends [OF start, of ops] by (auto simp: extends_chain_def)
  obtain new where n: "chain_ok env (fold (audit_step env) (ops @ ops') []) (s @ new)"
    using audit_run_extends [OF s, of ops'] by (auto simp: extends_chain_def)
  have "length (s @ new) = length (filter is_sealed (fold (audit_step env) (ops @ ops') []))"
    using n unfolding chain_ok_def by (metis size_mset)
  then show ?thesis using chain_ok_verify [OF n] sealed_rows_eq [OF s] sealed_rows_eq [OF n] by (simp add: intact_def)
qed

section \<open>A change of a sealed event is seen\<close>

text \<open>What is hashed for the chain.\<close>

fun hashed :: "audit_env \<Rightarrow> string \<Rightarrow> trail \<Rightarrow> string list" where
  "hashed env previous [] = []"
| "hashed env previous ((k, e) # t) = (previous @ en_canonical env (chained_fields e)) # hashed env (ae_chain_hash e) t"

lemma hashed_append: "hashed env previous (s @ t) = hashed env previous s @ hashed env (head_of previous s) t"
  by (induction s arbitrary: previous) (auto simp: head_of_def)

text \<open>A digest is not empty and has no brace, and the canonical form of an event starts with one.\<close>

definition digests_are_plain :: "audit_env \<Rightarrow> string list \<Rightarrow> bool" where
  "digests_are_plain env inputs \<longleftrightarrow>
     list_all (\<lambda>x. en_digest env x \<noteq> [] \<and> CHR ''{'' \<notin> set (en_digest env x)) inputs"

definition canonical_braced :: "audit_env \<Rightarrow> trail \<Rightarrow> bool" where
  "canonical_braced env t \<longleftrightarrow> list_all (\<lambda>(k, e). prefix ''{'' (en_canonical env (chained_fields e))) t"

lemma split_at_brace:
  assumes "a @ x = b @ y" "c \<notin> set a" "c \<notin> set b" "prefix [c] x" "prefix [c] y"
  shows "a = b \<and> x = y"
proof -
  obtain x' y' where xy: "x = c # x'" "y = c # y'" using assms(4,5) by (auto simp: prefix_def)
  have "takeWhile (\<lambda>d. d \<noteq> c) (a @ c # x') = a" "takeWhile (\<lambda>d. d \<noteq> c) (b @ c # y') = b"
    using assms(2,3) by (simp_all add: takeWhile_append)
  then have "a = b" using assms(1) xy by metis
  then show ?thesis using assms(1) by simp
qed

lemma head_plain:
  "linked env s [] expected \<Longrightarrow> digests_are_plain env (hashed env [] s) \<Longrightarrow>
   CHR ''{'' \<notin> set (head_of [] s) \<and> (s \<noteq> [] \<longrightarrow> head_of [] s \<noteq> [])"
proof (induction s rule: rev_induct)
  case (snoc row s)
  obtain k e where row: "row = (k, e)" by (cases row)
  show ?case using snoc.prems
    by (simp add: row linked_append hashed_append head_of_def digests_are_plain_def chain_link_def)
qed (simp add: head_of_def)

lemma same_head_same_chain:
  assumes "linked env s [] 1" "linked env s' [] 1" "head_of [] s = head_of [] s'"
    and "inj_on (en_digest env) (set (hashed env [] s @ hashed env [] s'))"
    and "digests_are_plain env (hashed env [] s @ hashed env [] s')" "canonical_braced env (s @ s')"
  shows "map (\<lambda>(k, e). en_canonical env (chained_fields e)) s = map (\<lambda>(k, e). en_canonical env (chained_fields e)) s'"
  using assms
proof (induction s arbitrary: s' rule: rev_induct)
  case Nil
  have "head_of [] ([] :: trail) = []" by (simp add: head_of_def)
  moreover have "s' \<noteq> [] \<longrightarrow> head_of [] s' \<noteq> []" using head_plain [OF Nil(2)] Nil(5) by simp
  ultimately have "s' = []" using Nil(3) by auto
  then show ?case by simp
next
  case (snoc row s)
  have ne: "s' \<noteq> []" using head_plain [of env "s @ [row]" 1] snoc.prems(1,3,5) by (auto simp: head_of_def digests_are_plain_def)
  then obtain u row' where s': "s' = u @ [row']" by (metis rev_exhaust)
  obtain k e where row: "row = (k, e)" by (cases row)
  obtain k' e' where row': "row' = (k', e')" by (cases row')
  let ?c = "en_canonical env (chained_fields e)" and ?c' = "en_canonical env (chained_fields e')"
  have h: "en_digest env (head_of [] s @ ?c) = en_digest env (head_of [] u @ ?c')"
    using snoc.prems(1-3) by (simp add: row s' row' linked_append chain_link_def head_of_def split: if_splits)
  have inputs: "head_of [] s @ ?c \<in> set (hashed env [] (s @ [row]) @ hashed env [] s')" "head_of [] u @ ?c' \<in> set (hashed env [] (s @ [row]) @ hashed env [] s')"
    by (simp_all add: row s' row' hashed_append)
  have same: "head_of [] s @ ?c = head_of [] u @ ?c'" by (rule inj_onD [OF snoc.prems(4) h inputs])
  have parts: "linked env s [] 1" "linked env u [] 1" "digests_are_plain env (hashed env [] s @ hashed env [] u)" "canonical_braced env (s @ u)"
    using snoc.prems by (simp_all add: s' linked_append hashed_append digests_are_plain_def canonical_braced_def)
  have "CHR ''{'' \<notin> set (head_of [] s)" "CHR ''{'' \<notin> set (head_of [] u)"
    using head_plain [OF parts(1)] head_plain [OF parts(2)] parts(3) by (simp_all add: digests_are_plain_def)
  then have eq: "head_of [] s = head_of [] u" "?c = ?c'"
    using split_at_brace [OF same, of "CHR ''{''"] snoc.prems(6) by (simp_all add: canonical_braced_def row s' row')
  have "inj_on (en_digest env) (set (hashed env [] s @ hashed env [] u))"
    by (rule inj_on_subset [OF snoc.prems(4)]) (auto simp: s' hashed_append)
  from snoc.IH [OF parts(1,2) eq(1) this parts(3,4)] show ?case by (simp add: s' row row' eq(2))
qed



text \<open>Two tables that agree but for who acted, which is not in the chain.\<close>

definition demo_audit :: audit_env where
  "demo_audit = \<lparr>en_digest = (\<lambda>s. ''0a''), en_canonical = (\<lambda>e. ''{'' @ ae_action e @ ''}'')\<rparr>"

definition demo_trail :: "nat option \<Rightarrow> trail" where
  "demo_trail actor = audit_step demo_audit (Op_record False ''backup.create''
     \<lparr>af_actor = actor, af_target = [], af_detail = [], af_data = [], af_status = SUCCEEDED, af_error_code = [], af_remote_addr = [],
      af_subject = [], af_started_at = None, af_finished_at = None\<rparr> 5) []"

lemma demo_trail_rows: "sealed_rows (demo_trail actor) = [(1,
   \<lparr>ae_actor = actor, ae_action = ''backup.create'', ae_target_name = [], ae_detail = [], ae_data = [], ae_status = SUCCEEDED,
    ae_error_code = [], ae_subject = [], ae_remote_addr = [], ae_succeeded = True, ae_started_at = Some 5, ae_finished_at = Some 5,
    ae_created_at = 5, ae_chain_index = Some 1, ae_chain_hash = ''0a''\<rparr>)]"
  by (simp add: demo_trail_def demo_audit_def audit_record_def next_key_def new_event_def finished_def seal_after_commit_def
      seal_pending_def last_link_def SEAL_BATCH_def sealed_as_def chain_link_def sealed_rows_def later_link_def Let_def
      ACTION_MAX_def)


end
