(* ===== verification/Jobs.thy ===== *)
theory Jobs
  imports AuditTrail Leases
begin

text \<open>
  The jobs of \<^verbatim>\<open>src/dbs/jobs.py\<close> and what \<^verbatim>\<open>job_process.py\<close> settles when the process of a job has ended: an event of the
  audit trail that says what runs, a lease that says it is alive, the lease that only one runner holds, and the files that
  are reserved or kept for it. The work itself (writing or restoring a backup) is an argument that may change the state in
  any way and raise anything; it stands for what other processes do in the meantime too. Calls that may fail have their
  failures as arguments. Threads are left out: \<^verbatim>\<open>launch\<close> is the work run later.
\<close>

definition RUNNER_LEASE :: string where "RUNNER_LEASE = ''dbs.runner''"
definition JOB_LEASE_PREFIX :: string where "JOB_LEASE_PREFIX = ''dbs.job:''"
definition LEASE_SECONDS :: int where "LEASE_SECONDS = 120"
definition BACKUP :: string where "BACKUP = ''backup.create''"
definition RESTORE :: string where "RESTORE = ''backup.restore''"

definition job_lease :: "nat \<Rightarrow> string" where "job_lease key = JOB_LEASE_PREFIX @ digits_of key"

text \<open>The files that exist, with their sizes.\<close>

record jobs_state =
  js_trail :: trail
  js_leases :: leases
  js_files :: "string \<rightharpoonup> nat"

text \<open>\<open>jc_code\<close> is \<^verbatim>\<open>error_code_for\<close>, \<open>jc_detail\<close> the text of an exception (its class when it has none).\<close>

record jobs_env =
  jc_audit :: audit_env
  jc_down :: bool
  jc_code :: "exn \<Rightarrow> string"
  jc_detail :: "exn \<Rightarrow> string"

section \<open>Recovery\<close>

definition lease_expired :: "int \<Rightarrow> leases \<Rightarrow> string \<Rightarrow> bool" where
  "lease_expired now ls name \<longleftrightarrow> (case ls name of None \<Rightarrow> False | Some l \<Rightarrow> le_expires_at l \<le> now)"

text \<open>The events of the expired job leases are interrupted, then these leases are deleted.\<close>

definition recover :: "jobs_env \<Rightarrow> int \<Rightarrow> jobs_state \<Rightarrow> nat \<times> jobs_state" where
  "recover env now st =
     (let events = filter (\<lambda>k. lease_expired now (js_leases st) (job_lease k)) (map fst (js_trail st));
          (n, t) = (if events = [] then (0, js_trail st)
                    else audit_interrupt (jc_audit env) (jc_down env) None [] (Some events) now (js_trail st))
      in (n, st\<lparr>js_trail := t,
                 js_leases := (\<lambda>name. if prefix JOB_LEASE_PREFIX name \<and> lease_expired now (js_leases st) name then None
                                      else js_leases st name)\<rparr>))"

section \<open>The runner\<close>

record runner =
  rn_owner :: string
  rn_held :: bool

definition runner_take :: "jobs_env \<Rightarrow> int \<Rightarrow> string \<Rightarrow> jobs_state \<Rightarrow> runner result \<times> jobs_state" where
  "runner_take env now owner st =
     (let st = snd (recover env now st);
          (taken, ls) = acquire RUNNER_LEASE owner LEASE_SECONDS now (js_leases st)
      in (if taken then Inr \<lparr>rn_owner = owner, rn_held = True\<rparr> else Inl Busy, st\<lparr>js_leases := ls\<rparr>))"

definition runner_adopt :: "string \<Rightarrow> runner" where "runner_adopt owner = \<lparr>rn_owner = owner, rn_held = True\<rparr>"

definition runner_release :: "int \<Rightarrow> runner \<Rightarrow> jobs_state \<Rightarrow> runner \<times> jobs_state" where
  "runner_release now rn st =
     (if \<not> rn_held rn then (rn, st)
      else (rn\<lparr>rn_held := False\<rparr>, st\<lparr>js_leases := release RUNNER_LEASE (rn_owner rn) now (js_leases st)\<rparr>))"

section \<open>A job\<close>

record job =
  jb_event :: nat
  jb_data :: "(string \<times> py) list"
  jb_owner :: string
  jb_lease :: string

definition job_fields :: "string \<Rightarrow> (string \<times> py) list \<Rightarrow> event_status \<Rightarrow> string \<Rightarrow> string \<Rightarrow> nat option \<Rightarrow> string \<Rightarrow> audit_fields" where
  "job_fields target data status code detail actor addr =
     \<lparr>af_actor = actor, af_target = target, af_detail = detail, af_data = data, af_status = status, af_error_code = code,
      af_remote_addr = addr, af_subject = [], af_started_at = None, af_finished_at = None\<rparr>"

text \<open>\<open>Job.begin\<close>; \<open>record_fails\<close> and \<open>lease_fails\<close> are what the two statements raise.\<close>

definition job_begin ::
  "jobs_env \<Rightarrow> int \<Rightarrow> exn option \<Rightarrow> exn option \<Rightarrow> string \<Rightarrow> string \<Rightarrow> (string \<times> py) list \<Rightarrow> string \<Rightarrow> nat option \<Rightarrow> string \<Rightarrow>
   jobs_state \<Rightarrow> job result \<times> jobs_state" where
  "job_begin env now record_fails lease_fails action target data owner actor addr st =
     (case record_fails of
        Some e \<Rightarrow> (Inl e, st)
      | None \<Rightarrow>
          let (key, t) = audit_record (jc_audit env) (jc_down env) action (job_fields target data RUNNING [] [] actor addr) now (js_trail st);
              st = st\<lparr>js_trail := t\<rparr>
          in case lease_fails of
               Some e \<Rightarrow> (Inl e, st)
             | None \<Rightarrow> (Inr \<lparr>jb_event = key, jb_data = data, jb_owner = owner, jb_lease = job_lease key\<rparr>,
                        st\<lparr>js_leases := snd (acquire (job_lease key) owner LEASE_SECONDS now (js_leases st))\<rparr>))"

definition job_succeed :: "jobs_env \<Rightarrow> int \<Rightarrow> job \<Rightarrow> jobs_state \<Rightarrow> jobs_state" where
  "job_succeed env now jb st =
     st\<lparr>js_trail := snd (audit_finish (jc_audit env) (jc_down env) (jb_event jb) (Some (jb_data jb)) now (js_trail st))\<rparr>"

definition job_fail :: "jobs_env \<Rightarrow> int \<Rightarrow> job \<Rightarrow> exn \<Rightarrow> jobs_state \<Rightarrow> jobs_state" where
  "job_fail env now jb e st =
     st\<lparr>js_trail := snd (audit_fail (jc_audit env) (jc_down env) (jb_event jb) (jc_code env e) (Some (jb_data jb))
          (take DETAIL_MAX (jc_detail env e)) now (js_trail st))\<rparr>"

definition job_close :: "job \<Rightarrow> jobs_state \<Rightarrow> jobs_state" where
  "job_close jb st = st\<lparr>js_leases := drop_lease (jb_lease jb) (jb_owner jb) (js_leases st)\<rparr>"

text \<open>\<open>tracked\<close>: the work gives what it raised, if anything, and the data of the job.\<close>

type_synonym work = "jobs_state \<Rightarrow> exn option \<times> (string \<times> py) list \<times> jobs_state"

definition job_tracked :: "jobs_env \<Rightarrow> int \<Rightarrow> job \<Rightarrow> work \<Rightarrow> jobs_state \<Rightarrow> exn option \<times> jobs_state" where
  "job_tracked env now jb body st =
     (let (raised, data, st) = body st; jb = jb\<lparr>jb_data := data\<rparr>
      in (raised, job_close jb (case raised of None \<Rightarrow> job_succeed env now jb st | Some e \<Rightarrow> job_fail env now jb e st)))"

section \<open>Starting and running the jobs\<close>

definition discard_reservation :: "string \<Rightarrow> jobs_state \<Rightarrow> jobs_state" where
  "discard_reservation path st = (if js_files st path = Some 0 then st\<lparr>js_files := (js_files st)(path := None)\<rparr> else st)"

definition remove_file :: "string \<Rightarrow> jobs_state \<Rightarrow> jobs_state" where
  "remove_file path st = st\<lparr>js_files := (js_files st)(path := None)\<rparr>"

text \<open>A \<^verbatim>\<open>DBSError\<close> ends the work quietly, anything else is raised on.\<close>

definition swallow :: "exn option \<Rightarrow> exn option" where
  "swallow raised = (case raised of None \<Rightarrow> None | Some e \<Rightarrow> if catches DBSError e then None else Some e)"

text \<open>\<open>_take_backup\<close>; \<open>prune\<close> is \<^verbatim>\<open>keep_newest\<close> on the files: what it raises, what it leaves, and what it records.\<close>

definition take_backup ::
  "jobs_env \<Rightarrow> int \<Rightarrow> job \<Rightarrow> runner \<Rightarrow> string \<Rightarrow> work \<Rightarrow> ((string \<rightharpoonup> nat) \<Rightarrow> exn option \<times> (string \<rightharpoonup> nat) \<times> audit_fields option) \<Rightarrow>
   jobs_state \<Rightarrow> exn option \<times> jobs_state" where
  "take_backup env now jb rn output body prune st =
     (let (raised, st) = job_tracked env now jb body st;
          (raised, st) = (case raised of
             Some e \<Rightarrow> (Some e, st)
           | None \<Rightarrow>
               let (raised, files, entry) = prune (js_files st);
                   st = st\<lparr>js_files := files\<rparr>
               in (raised, case entry of None \<Rightarrow> st | Some f \<Rightarrow>
                     st\<lparr>js_trail := snd (audit_record (jc_audit env) (jc_down env) ''backup.prune'' f now (js_trail st))\<rparr>))
      in (swallow raised, snd (runner_release now rn (discard_reservation output st))))"

definition run_restore :: "jobs_env \<Rightarrow> int \<Rightarrow> job \<Rightarrow> runner \<Rightarrow> string \<Rightarrow> bool \<Rightarrow> work \<Rightarrow> jobs_state \<Rightarrow> exn option \<times> jobs_state" where
  "run_restore env now jb rn path owned body st =
     (let (raised, st) = job_tracked env now jb body st
      in (swallow raised, snd (runner_release now rn (if owned then remove_file path st else st))))"

text \<open>\<open>_start\<close>; \<open>launch_fails\<close> is what starting the thread or the process raises.\<close>

definition start_job :: "jobs_env \<Rightarrow> int \<Rightarrow> exn option \<Rightarrow> job \<Rightarrow> runner \<Rightarrow> (jobs_state \<Rightarrow> jobs_state) \<Rightarrow> jobs_state \<Rightarrow> exn option \<times> jobs_state" where
  "start_job env now launch_fails jb rn cleanup st =
     (case launch_fails of
        None \<Rightarrow> (None, st)
      | Some e \<Rightarrow> (Some e, snd (runner_release now rn (cleanup (job_close jb (job_fail env now jb e st))))))"

text \<open>The failures of starting a job; \<open>sf_reserve\<close> is the name that was reserved or what reserving it raised.\<close>

record start_failures =
  sf_reserve :: "string result"
  sf_record :: "exn option"
  sf_lease :: "exn option"
  sf_launch :: "exn option"

record start_request =
  sq_owner :: string
  sq_directory :: string
  sq_database :: string
  sq_actor :: "nat option"
  sq_addr :: string

text \<open>\<open>start_backup\<close>: the key of the event, also when no name could be reserved and the event says so. \<open>path\<close> is the
  path of a name in the directory.\<close>

definition start_backup ::
  "jobs_env \<Rightarrow> int \<Rightarrow> start_failures \<Rightarrow> start_request \<Rightarrow> (string \<Rightarrow> string) \<Rightarrow> jobs_state \<Rightarrow> nat result \<times> jobs_state" where
  "start_backup env now sf rq path st =
     (if sq_directory rq = [] then (Inl ConfigurationError, st)
      else case runner_take env now (sq_owner rq) st of
        (Inl e, st) \<Rightarrow> (Inl e, st)
      | (Inr rn, st) \<Rightarrow>
          (case sf_reserve sf of
             Inl e \<Rightarrow>
               if catches OSError e then
                 (let st = snd (runner_release now rn st)
                  in case sf_record sf of
                       Some e' \<Rightarrow> (Inl e', st)
                     | None \<Rightarrow>
                         let (key, t) = audit_record (jc_audit env) (jc_down env) BACKUP
                               (job_fields (sq_directory rq) [(''database'', PStr (sq_database rq))] FAILED (jc_code env e)
                                 (take DETAIL_MAX (jc_detail env e)) (sq_actor rq) (sq_addr rq)) now (js_trail st)
                         in (Inr key, st\<lparr>js_trail := t\<rparr>))
               else (Inl e, snd (runner_release now rn st))
           | Inr name \<Rightarrow>
               let st = st\<lparr>js_files := (js_files st)(path name \<mapsto> 0)\<rparr>
               in case job_begin env now (sf_record sf) (sf_lease sf) BACKUP name
                     [(''file'', PStr name), (''database'', PStr (sq_database rq))] (rn_owner rn) (sq_actor rq) (sq_addr rq) st of
                    (Inl e, st) \<Rightarrow> (Inl e, snd (runner_release now rn (discard_reservation (path name) st)))
                  | (Inr jb, st) \<Rightarrow>
                      (case start_job env now (sf_launch sf) jb rn (discard_reservation (path name)) st of
                         (None, st) \<Rightarrow> (Inr (jb_event jb), st)
                       | (Some e, st) \<Rightarrow> (Inl e, st))))"

definition start_restore ::
  "jobs_env \<Rightarrow> int \<Rightarrow> start_failures \<Rightarrow> start_request \<Rightarrow> string \<Rightarrow> string \<Rightarrow> bool \<Rightarrow> bool \<Rightarrow> bool \<Rightarrow> jobs_state \<Rightarrow> nat result \<times> jobs_state" where
  "start_restore env now sf rq path name dry_run flush owned st =
     (let drop = (\<lambda>st. if owned then remove_file path st else st)
      in case runner_take env now (sq_owner rq) st of
        (Inl e, st) \<Rightarrow> (Inl e, drop st)
      | (Inr rn, st) \<Rightarrow>
          (case job_begin env now (sf_record sf) (sf_lease sf) RESTORE name
                  [(''file'', PStr name), (''dry_run'', PBool dry_run), (''flushed'', PBool flush)] (rn_owner rn) (sq_actor rq) (sq_addr rq) st of
             (Inl e, st) \<Rightarrow> (Inl e, drop (snd (runner_release now rn st)))
           | (Inr jb, st) \<Rightarrow>
               (case start_job env now (sf_launch sf) jb rn drop st of
                  (None, st) \<Rightarrow> (Inr (jb_event jb), st)
                | (Some e, st) \<Rightarrow> (Inl e, st))))"

section \<open>The end of a process\<close>

definition TIME_LIMIT :: string where "TIME_LIMIT = ''time_limit''"
definition MEMORY_LIMIT :: string where "MEMORY_LIMIT = ''memory_limit''"
definition LEASE_LOST :: string where "LEASE_LOST = ''lease_lost''"
definition KILLED :: string where "KILLED = ''killed''"

definition reason_of :: "int \<Rightarrow> string" where
  "reason_of returncode = (if returncode = 3 then TIME_LIMIT else if returncode = 4 then MEMORY_LIMIT
     else if returncode = 5 then LEASE_LOST else KILLED)"

text \<open>\<open>_explained\<close>; \<open>ended\<close> is the sentence with the status and the detail.\<close>

definition explained :: "string \<Rightarrow> (int \<Rightarrow> string) \<Rightarrow> int \<Rightarrow> string" where
  "explained reason ended returncode =
     (if reason = TIME_LIMIT then ''The job ran longer than DBS_JOB_TIME_LIMIT and was stopped.''
      else if reason = MEMORY_LIMIT then ''The job used more memory than DBS_JOB_MEMORY_LIMIT and was stopped.''
      else if reason = LEASE_LOST then ''Another process took this job over, so this one stopped.''
      else ended returncode)"

text \<open>The partial files of an output: \<^verbatim>\<open>.name.*.partial\<close> in its directory. Removing a file is taken to work.\<close>

definition split_path :: "string \<Rightarrow> string \<times> string" where
  "split_path p =
     (let name = rev (takeWhile (\<lambda>c. c \<noteq> CHR ''/'') (rev p)); head = take (length p - length name) p;
          stripped = rev (dropWhile (\<lambda>c. c = CHR ''/'') (rev head))
      in (if stripped = [] then head else stripped, name))"

definition join_path :: "string \<Rightarrow> string \<Rightarrow> string" where
  "join_path d name = (if d = [] \<or> last d = CHR ''/'' then d @ name else d @ ''/'' @ name)"

definition partial_of :: "string \<Rightarrow> string \<Rightarrow> bool" where
  "partial_of output p =
     (let (d, name) = split_path output; start = join_path d (''.'' @ name @ ''.'')
      in prefix start p \<and> suffix ''.partial'' p \<and> length start + length ''.partial'' \<le> length p \<and>
         CHR ''/'' \<notin> set (drop (length start) p))"

definition owned_by :: "string \<Rightarrow> leases \<Rightarrow> string \<Rightarrow> bool" where
  "owned_by owner ls name \<longleftrightarrow> (case ls name of None \<Rightarrow> False | Some l \<Rightarrow> le_owner l = owner)"

definition remove_partials :: "string \<Rightarrow> jobs_state \<Rightarrow> jobs_state" where
  "remove_partials output st =
     discard_reservation output (st\<lparr>js_files := (\<lambda>p. if partial_of output p then None else js_files st p)\<rparr>)"

text \<open>
  \<open>settle\<close> of \<^verbatim>\<open>job_process.py\<close>, when the process that ran the jobs of an owner has ended with \<open>returncode\<close>: the events of its
  leases fail with the reason, the partial files and empty reservations of its outputs go, its job leases are deleted and
  the runner is released.
\<close>

definition settle :: "jobs_env \<Rightarrow> int \<Rightarrow> string \<Rightarrow> int \<Rightarrow> (int \<Rightarrow> string) \<Rightarrow> string list \<Rightarrow> jobs_state \<Rightarrow> jobs_state" where
  "settle env now owner returncode ended outputs st =
     (let reason = reason_of returncode;
          keys = filter (\<lambda>k. owned_by owner (js_leases st) (job_lease k)) (map fst (js_trail st));
          st = (if returncode = 0 then st
                else fold remove_partials outputs
                  (st\<lparr>js_trail := fold (\<lambda>k t. snd (audit_fail (jc_audit env) (jc_down env) k reason None
                                                      (explained reason ended returncode) now t)) keys (js_trail st)\<rparr>));
          ls = (\<lambda>name. if prefix JOB_LEASE_PREFIX name \<and> owned_by owner (js_leases st) name then None else js_leases st name)
      in st\<lparr>js_leases := release RUNNER_LEASE owner now ls\<rparr>)"

section \<open>What the operations do to the status of an event\<close>

definition status_of :: "trail \<Rightarrow> nat \<Rightarrow> event_status option" where
  "status_of t k = map_option ae_status (map_of t k)"

lemma status_update_where:
  "status_of (snd (update_where p f t)) k = (case map_of t k of None \<Rightarrow> None | Some e \<Rightarrow> Some (ae_status (if p k e then f e else e)))"
  by (induction t) (auto simp: status_of_def update_where_def split: option.split)

lemma status_seal_loop: "status_of (seal_loop digest canonical limit index previous t) k = status_of t k"
  by (induction digest canonical limit index previous t rule: seal_loop.induct)
    (auto simp: status_of_def sealed_as_def Let_def)

lemma status_seal [simp]: "status_of (seal_after_commit digest canonical down t) k = status_of t k"
  by (simp add: seal_after_commit_def seal_pending_def split_def Let_def status_seal_loop)

lemma status_close:
  "status_of (snd (audit_close env down key st data code detail now t)) k =
     (case status_of t k of None \<Rightarrow> None | Some s \<Rightarrow> Some (if k = key \<and> unfinished s then st else s))"
proof -
  have "ae_status (close_event st data code detail now e) = st" for e by (simp add: close_event_def Let_def split: option.split)
  then show ?thesis by (auto simp: audit_close_def split_def Let_def status_update_where) (auto simp: status_of_def split: option.split)
qed

lemma status_interrupt:
  "status_of (snd (audit_interrupt env down None [] (Some ks) now t)) k =
     (case status_of t k of None \<Rightarrow> None | Some s \<Rightarrow> Some (if k \<in> set ks \<and> unfinished s then FAILED else s))"
  by (auto simp: audit_interrupt_def split_def Let_def status_update_where) (auto simp: status_of_def split: option.split)

lemma status_append: "status_of (t @ [(k', e)]) k = (case status_of t k of None \<Rightarrow> if k = k' then Some (ae_status e) else None | Some s \<Rightarrow> Some s)"
  by (auto simp: status_of_def map_add_def split: option.split)

lemma status_record:
  "status_of t k = Some s \<Longrightarrow> status_of (snd (audit_record env down action f now t)) k = Some s"
  by (simp add: audit_record_def Let_def status_append)

lemma finished_not_unfinished: "unfinished s \<longleftrightarrow> \<not> finished s"
  by (cases s) (simp_all add: finished_def unfinished_def)

section \<open>A job ends settled\<close>

lemma runner_not_job [simp]: "RUNNER_LEASE \<noteq> job_lease k" "\<not> prefix JOB_LEASE_PREFIX RUNNER_LEASE" "prefix JOB_LEASE_PREFIX (job_lease k)"
  by (simp_all add: RUNNER_LEASE_def job_lease_def JOB_LEASE_PREFIX_def)

lemma tracked_settles:
  assumes "body st = (raised, data, st1)" and "status_of (js_trail st1) (jb_event jb) = Some s1"
    and "job_tracked env now jb body st = (r, st2)"
  shows "r = raised \<and> js_files st2 = js_files st1 \<and> \<not> owned_by (jb_owner jb) (js_leases st2) (jb_lease jb) \<and>
    status_of (js_trail st2) (jb_event jb) = Some (if unfinished s1 then if raised = None then SUCCEEDED else FAILED else s1)"
proof -
  let ?jb = "jb\<lparr>jb_data := data\<rparr>"
  have st2: "st2 = job_close ?jb (case raised of None \<Rightarrow> job_succeed env now ?jb st1 | Some e \<Rightarrow> job_fail env now ?jb e st1)" "r = raised"
    using assms(1,3) by (auto simp: job_tracked_def Let_def)
  have dropped: "\<not> owned_by owner (drop_lease name owner ls) name" for owner name ls
    by (auto simp: owned_by_def drop_lease_def split: option.splits)
  show ?thesis using assms(2) dropped
    by (cases raised) (auto simp: st2 job_close_def job_succeed_def job_fail_def audit_finish_def audit_fail_def status_close)
qed

lemma release_not_owned: "owner \<noteq> [] \<Longrightarrow> \<not> owned_by owner (release name owner now ls) name"
  by (auto simp: owned_by_def release_def split: option.splits)

lemma release_others: "name' \<noteq> name \<Longrightarrow> release name owner now ls name' = ls name'"
  by (auto simp: release_def split: option.splits)

section \<open>A state to try the jobs on\<close>

definition demo_env :: jobs_env where
  "demo_env = \<lparr>jc_audit = demo_audit, jc_down = True, jc_code = (\<lambda>e. ''backup''), jc_detail = (\<lambda>e. ''no space'')\<rparr>"

definition demo_job :: job where
  "demo_job = \<lparr>jb_event = 1, jb_data = [], jb_owner = ''me'', jb_lease = job_lease 1\<rparr>"

text \<open>One backup runs as \<^verbatim>\<open>me\<close>.\<close>

definition demo_jobs :: jobs_state where
  "demo_jobs = \<lparr>js_trail = [(1, new_event BACKUP (job_fields ''b.dbs'' [] RUNNING [] [] None []) 5)],
     js_leases = [job_lease 1 \<mapsto> \<lparr>le_owner = ''me'', le_expires_at = 125, le_renewed_at = 5\<rparr>,
                  RUNNER_LEASE \<mapsto> \<lparr>le_owner = ''me'', le_expires_at = 125, le_renewed_at = 5\<rparr>],
     js_files = [''b.dbs'' \<mapsto> 0]\<rparr>"

lemma demo_status: "status_of (js_trail demo_jobs) k = (if k = 1 then Some RUNNING else None)"
  by (simp add: demo_jobs_def status_of_def new_event_def job_fields_def)

lemma demo_owned: "owned_by ''me'' (js_leases demo_jobs) (job_lease 1)" "owned_by ''me'' (js_leases demo_jobs) RUNNER_LEASE"
  using runner_not_job(1) [of 1] by (simp_all add: demo_jobs_def owned_by_def)

definition demo_work :: work where "demo_work st = (Some BackupError, [], st)"
definition demo_runner :: runner where "demo_runner = runner_adopt ''me''"

definition demo_prune :: "(string \<rightharpoonup> nat) \<Rightarrow> exn option \<times> (string \<rightharpoonup> nat) \<times> audit_fields option" where
  "demo_prune files = (None, files, None)"

text \<open>
  C34: however the work of a backup ends, the job is settled. Whatever the work does and raises, and whatever other
  processes do to the trail and the leases meanwhile, afterwards the event of the job is finished (succeeded exactly when
  the work raised nothing, unless somebody else had closed it before), its lease and the lease of the runner are not held
  by the job any more, and no empty reservation stays where the backup was to be.
\<close>
theorem job_ends_settled:
  assumes "body st = (raised, data, st1)" and "status_of (js_trail st1) (jb_event jb) = Some s1"
    and "jb_lease jb = job_lease (jb_event jb)" and "rn_owner rn = jb_owner jb" and "rn_held rn" and "jb_owner jb \<noteq> []"
    and "take_backup env now jb rn path body prune st = (res, st')"
  shows "status_of (js_trail st') (jb_event jb) = Some (if unfinished s1 then if raised = None then SUCCEEDED else FAILED else s1) \<and>
    \<not> owned_by (jb_owner jb) (js_leases st') (job_lease (jb_event jb)) \<and> \<not> owned_by (jb_owner jb) (js_leases st') RUNNER_LEASE \<and>
    js_files st' path \<noteq> Some 0"
proof -
  obtain r st2 where T: "job_tracked env now jb body st = (r, st2)" by fastforce
  note S = tracked_settles [OF assms(1,2) T]
  obtain r3 st3 where P: "(case r of Some e \<Rightarrow> (Some e, st2)
      | None \<Rightarrow> let (raised, files, entry) = prune (js_files st2); st = st2\<lparr>js_files := files\<rparr>
                in (raised, case entry of None \<Rightarrow> st | Some f \<Rightarrow>
                      st\<lparr>js_trail := snd (audit_record (jc_audit env) (jc_down env) ''backup.prune'' f now (js_trail st))\<rparr>)) = (r3, st3)"
    by fastforce
  have st3: "js_leases st3 = js_leases st2"
      "status_of (js_trail st2) (jb_event jb) = Some s \<Longrightarrow> status_of (js_trail st3) (jb_event jb) = Some s" for s
    using P by (auto simp: Let_def status_record split: option.splits prod.splits)
  have st': "st' = snd (runner_release now rn (discard_reservation path st3))"
    using assms(7) by (simp add: take_backup_def T P)
  have d: "js_leases (discard_reservation path st3) = js_leases st3" "js_trail (discard_reservation path st3) = js_trail st3"
      "js_files (discard_reservation path st3) path \<noteq> Some 0"
    by (auto simp: discard_reservation_def)
  have fin: "js_leases st' = release RUNNER_LEASE (jb_owner jb) now (js_leases st2)" "js_trail st' = js_trail st3" "js_files st' path \<noteq> Some 0"
    using assms(4,5) d st3(1) by (simp_all add: st' runner_release_def)
  have "\<not> owned_by (jb_owner jb) (js_leases st') (job_lease (jb_event jb))"
    using S assms(3) by (simp add: fin(1) owned_by_def release_others [OF runner_not_job(1) [symmetric]])
  moreover have "\<not> owned_by (jb_owner jb) (js_leases st') RUNNER_LEASE" unfolding fin(1) by (rule release_not_owned [OF assms(6)])
  ultimately show ?thesis using S st3(2) fin(2,3) by simp
qed

lemma job_ends_settled_witness:
  "status_of (js_trail (snd (take_backup demo_env 9 demo_job demo_runner ''b.dbs'' demo_work demo_prune demo_jobs))) 1 = Some FAILED \<and>
   \<not> owned_by ''me'' (js_leases (snd (take_backup demo_env 9 demo_job demo_runner ''b.dbs'' demo_work demo_prune demo_jobs))) (job_lease 1) \<and>
   \<not> owned_by ''me'' (js_leases (snd (take_backup demo_env 9 demo_job demo_runner ''b.dbs'' demo_work demo_prune demo_jobs))) RUNNER_LEASE"
  using job_ends_settled [where body = demo_work and st = demo_jobs and jb = demo_job and rn = demo_runner and path = "''b.dbs''"
      and prune = demo_prune and env = demo_env and now = 9, OF demo_work_def _ _ _ _ _ surjective_pairing]
  by (simp add: demo_status demo_job_def demo_runner_def runner_adopt_def unfinished_def)

section \<open>The end of a process is settled\<close>

text \<open>
  C35: a process that ends, whatever way, leaves no job behind. When the process that ran the jobs of an owner ended with
  an error, afterwards every event whose job lease it held is finished, all others have the status they had, no job lease
  and not the runner is held by the owner any more, and of its outputs neither partial files nor empty reservations stay.
\<close>
theorem settle_leaves_no_job_behind:
  assumes "returncode \<noteq> 0" and "owner \<noteq> []"
  shows "(\<forall>k. status_of (js_trail (settle env now owner returncode ended outputs st)) k =
      (case status_of (js_trail st) k of None \<Rightarrow> None
       | Some s \<Rightarrow> Some (if owned_by owner (js_leases st) (job_lease k) \<and> unfinished s then FAILED else s))) \<and>
    (\<forall>name. prefix JOB_LEASE_PREFIX name \<or> name = RUNNER_LEASE \<longrightarrow>
      \<not> owned_by owner (js_leases (settle env now owner returncode ended outputs st)) name) \<and>
    list_all (\<lambda>output. js_files (settle env now owner returncode ended outputs st) output \<noteq> Some 0) outputs \<and>
    (\<forall>p. list_ex (\<lambda>output. partial_of output p) outputs \<longrightarrow> js_files (settle env now owner returncode ended outputs st) p = None)"
proof (intro conjI allI impI)
  let ?keys = "filter (\<lambda>k. owned_by owner (js_leases st) (job_lease k)) (map fst (js_trail st))"
  let ?fail = "\<lambda>k t. snd (audit_fail (jc_audit env) (jc_down env) k (reason_of returncode) None
                                     (explained (reason_of returncode) ended returncode) now t)"
  have partials: "js_trail (fold remove_partials os u) = js_trail u" "js_leases (fold remove_partials os u) = js_leases u"
    for os u by (induction os arbitrary: u) (simp_all add: remove_partials_def discard_reservation_def)
  have gone: "js_files (fold remove_partials os u) p \<noteq> Some 0" if "js_files u p \<noteq> Some 0 \<or> p \<in> set os" for os u p
    using that
  proof (induction os arbitrary: u)
    case (Cons q os)
    have "js_files (remove_partials q u) p \<noteq> Some 0" if "js_files u p \<noteq> Some 0 \<or> p = q"
      using that by (auto simp: remove_partials_def discard_reservation_def)
    then show ?case using Cons by auto
  qed simp
  have removed: "js_files (fold remove_partials os u) p = None" if "js_files u p = None \<or> list_ex (\<lambda>output. partial_of output p) os" for os u p
    using that
  proof (induction os arbitrary: u)
    case (Cons q os)
    have "js_files (remove_partials q u) p = None" if "js_files u p = None \<or> partial_of q p"
      using that by (auto simp: remove_partials_def discard_reservation_def)
    then show ?case using Cons by auto
  qed simp
  have fails: "status_of (fold ?fail ks t) k = (case status_of t k of None \<Rightarrow> None | Some s \<Rightarrow> Some (if k \<in> set ks \<and> unfinished s then FAILED else s))" for ks t k
    by (induction ks arbitrary: t) (auto simp: audit_fail_def status_close unfinished_def split: option.split)
  have settled: "settle env now owner returncode ended outputs st =
      (fold remove_partials outputs (st\<lparr>js_trail := fold ?fail ?keys (js_trail st)\<rparr>))
        \<lparr>js_leases := release RUNNER_LEASE owner now (\<lambda>name. if prefix JOB_LEASE_PREFIX name \<and> owned_by owner (js_leases st) name then None
                                                         else js_leases st name)\<rparr>"
    using assms(1) by (simp add: settle_def Let_def partials cong: if_cong)
  show "status_of (js_trail (settle env now owner returncode ended outputs st)) k =
      (case status_of (js_trail st) k of None \<Rightarrow> None
       | Some s \<Rightarrow> Some (if owned_by owner (js_leases st) (job_lease k) \<and> unfinished s then FAILED else s))" for k
  proof (cases "status_of (js_trail st) k")
    case None
    then show ?thesis by (simp add: settled partials fails)
  next
    case (Some s)
    then have "k \<in> fst ` set (js_trail st)" by (force simp: status_of_def dest: map_of_SomeD)
    then show ?thesis using Some by (simp add: settled partials fails)
  qed
  show "\<not> owned_by owner (js_leases (settle env now owner returncode ended outputs st)) name"
    if "prefix JOB_LEASE_PREFIX name \<or> name = RUNNER_LEASE" for name
  proof (cases "name = RUNNER_LEASE")
    case True
    then show ?thesis using release_not_owned [OF assms(2)] by (simp add: settled)
  next
    case False
    then show ?thesis using that release_others [OF False] by (simp add: settled owned_by_def)
  qed
  show "list_all (\<lambda>output. js_files (settle env now owner returncode ended outputs st) output \<noteq> Some 0) outputs"
    using gone by (simp add: settled list_all_iff)
  show "js_files (settle env now owner returncode ended outputs st) p = None" if "list_ex (\<lambda>output. partial_of output p) outputs" for p
    using removed that by (simp add: settled)
qed

lemma settle_leaves_no_job_behind_witness:
  "status_of (js_trail (settle demo_env 9 ''me'' 3 (\<lambda>_. []) [''b.dbs''] demo_jobs)) 1 = Some FAILED \<and>
   \<not> owned_by ''me'' (js_leases (settle demo_env 9 ''me'' 3 (\<lambda>_. []) [''b.dbs''] demo_jobs)) (job_lease 1) \<and>
   js_files (settle demo_env 9 ''me'' 3 (\<lambda>_. []) [''b.dbs''] demo_jobs) ''b.dbs'' \<noteq> Some 0"
proof -
  note ended = settle_leaves_no_job_behind [where returncode = 3 and owner = "''me''" and env = demo_env and now = 9 and ended = "\<lambda>_. []"
      and outputs = "[''b.dbs'']" and st = demo_jobs, simplified]
  show ?thesis using demo_owned ended [THEN conjunct1, THEN spec, of 1] ended [THEN conjunct2, THEN conjunct1, THEN spec, of "job_lease 1"]
      ended [THEN conjunct2, THEN conjunct2, THEN conjunct1]
    by (simp add: demo_status unfinished_def)
qed

section \<open>Recovery and failed starts\<close>

lemma recover_status:
  "status_of (js_trail (snd (recover env now st))) k =
     (case status_of (js_trail st) k of None \<Rightarrow> None
      | Some s \<Rightarrow> Some (if lease_expired now (js_leases st) (job_lease k) \<and> unfinished s then FAILED else s))"
proof -
  have "k \<in> fst ` set (js_trail st)" if "status_of (js_trail st) k = Some s" for s
    using that by (force simp: status_of_def dest: map_of_SomeD)
  then show ?thesis
    by (auto simp: recover_def Let_def split_def status_interrupt filter_empty_conv split: option.split)
qed

lemma record_status:
  "audit_record env down action f now t = (key, t') \<Longrightarrow>
   status_of t' k = (case status_of t k of None \<Rightarrow> if k = key then Some (af_status f) else None | Some s \<Rightarrow> Some s)"
  by (auto simp: audit_record_def Let_def status_append new_event_def split: option.split)

text \<open>Of the events that do not run any more, nothing changes while a state only moves on.\<close>

definition no_new_unfinished :: "jobs_state \<Rightarrow> jobs_state \<Rightarrow> bool" where
  "no_new_unfinished st st' \<longleftrightarrow>
     (\<forall>k. case status_of (js_trail st') k of None \<Rightarrow> True | Some s \<Rightarrow> unfinished s \<longrightarrow> status_of (js_trail st) k = Some s)"

lemma taken_runner:
  assumes "runner_take env now owner st = (r, st')" and "owner \<noteq> []"
  shows "no_new_unfinished st st' \<and> js_files st' = js_files st \<and>
    (case r of Inl _ \<Rightarrow> \<not> owned_by owner (js_leases st') RUNNER_LEASE | Inr rn \<Rightarrow> rn_owner rn = owner \<and> rn_held rn)"
proof -
  obtain st1 where R: "snd (recover env now st) = st1" by blast
  have r: "js_files st1 = js_files st" by (simp add: recover_def split_def Let_def flip: R)
  have "no_new_unfinished st st1" by (auto simp: no_new_unfinished_def recover_status unfinished_def simp flip: R split: option.splits)
  moreover have "\<not> owned_by owner ls' RUNNER_LEASE" if "acquire RUNNER_LEASE owner LEASE_SECONDS now ls = (False, ls')" for ls ls'
    using that by (auto simp: acquire_def owned_by_def split: option.splits if_splits)
  ultimately show ?thesis using assms(1) r by (auto simp: runner_take_def R Let_def no_new_unfinished_def split: prod.splits if_splits)
qed

lemma released_runner:
  assumes "rn_held rn" and "rn_owner rn = owner" and "owner \<noteq> []"
  shows "\<not> owned_by owner (js_leases (snd (runner_release now rn st))) RUNNER_LEASE \<and>
    js_files (snd (runner_release now rn st)) = js_files st \<and> js_trail (snd (runner_release now rn st)) = js_trail st"
  using assms by (simp add: runner_release_def release_not_owned)

lemma begun_job:
  assumes "job_begin env now record_fails None action target data owner actor addr st = (r, st')"
  shows "js_files st' = js_files st \<and>
    (case r of
       Inl _ \<Rightarrow> st' = st
     | Inr jb \<Rightarrow> \<forall>k. k \<noteq> jb_event jb \<longrightarrow> status_of (js_trail st') k = status_of (js_trail st) k)"
  using assms by (auto simp: job_begin_def Let_def record_status split: option.splits prod.splits)

lemma failed_job:
  "status_of (js_trail (job_close jb (job_fail env now jb e st))) k =
     (case status_of (js_trail st) k of None \<Rightarrow> None | Some s \<Rightarrow> Some (if k = jb_event jb \<and> unfinished s then FAILED else s))"
  by (simp add: job_close_def job_fail_def audit_fail_def status_close)


text \<open>
  The one failure the hypothesis of the theorem leaves out: when the statement that takes the lease of the job raises, the
  event has been recorded as running and no lease says by whom, so no recovery ever ends it.
\<close>

lemma begin_without_lease:
  assumes "job_begin env now None (Some e) action target data owner actor addr st = (Inl e, st')"
    and "status_of (js_trail st) (next_key (js_trail st)) = None" and "js_leases st (job_lease (next_key (js_trail st))) = None"
  shows "status_of (js_trail (snd (recover env later st'))) (next_key (js_trail st)) = Some RUNNING"
proof -
  obtain key t where A: "audit_record (jc_audit env) (jc_down env) action (job_fields target data RUNNING [] [] actor addr) now (js_trail st) = (key, t)"
    by fastforce
  then have "key = next_key (js_trail st)" by (simp add: audit_record_def Let_def)
  moreover have "st' = st\<lparr>js_trail := t\<rparr>" using assms(1) A by (simp add: job_begin_def)
  ultimately show ?thesis using assms(2,3) by (simp add: recover_status record_status [OF A] lease_expired_def job_fields_def)
qed

text \<open>A start whose thread cannot be started, on a server where nothing runs.\<close>

definition demo_failures :: start_failures where
  "demo_failures = \<lparr>sf_reserve = Inr ''b.dbs'', sf_record = None, sf_lease = None, sf_launch = Some OSError\<rparr>"

definition demo_request :: start_request where
  "demo_request = \<lparr>sq_owner = ''me'', sq_directory = ''/b'', sq_database = ''default'', sq_actor = None, sq_addr = []\<rparr>"

definition demo_idle :: jobs_state where "demo_idle = \<lparr>js_trail = [], js_leases = Map.empty, js_files = [''x'' \<mapsto> 7]\<rparr>"

lemma demo_start_fails: "fst (start_backup demo_env 9 demo_failures demo_request (\<lambda>name. name) demo_idle) = Inl OSError"
  by (simp add: start_backup_def demo_request_def demo_failures_def demo_idle_def runner_take_def recover_def acquire_def job_begin_def
      start_job_def Let_def split_def)


end
