(* ===== verification/Moves.thy ===== *)
theory Moves
  imports Packages
begin

text \<open>
  A move of applications to another server, \<^verbatim>\<open>src/dbs/manager/relocation/steps.py\<close>: the steps that are planned for it, the
  engine that runs the phases (\<open>Move.run\<close>, \<open>Move.run_phase\<close>), and the steps that change the plan itself. What the other
  steps do to the two servers is an argument: they change the world, and give an outcome or fail. Saving the progress
  and renewing the lease of the job are left out.
\<close>

section \<open>Steps, phases and plans\<close>

datatype step_status = PENDING | RUNNING | SUCCEEDED | FAILED | SKIPPED

record move_step =
  ms_step :: string
  ms_key :: string
  ms_bytes :: "int option"
  ms_status :: step_status
  ms_done_before :: bool
  ms_warning :: "string option"

record move_phase =
  mp_phase :: string
  mp_application :: string
  mp_name :: string
  mp_target_name :: string
  mp_status :: step_status
  mp_steps :: "move_step list"
  mp_backup :: "string option"
  mp_target_application :: "string option"

type_synonym step_id = "string \<times> string \<times> string"

definition PLAN_STEPS :: "string list" where "PLAN_STEPS = [''connect'', ''inventory'', ''evaluate'']"

definition PREPARE_STEPS :: "string list" where
  "PREPARE_STEPS = [''sudo_check'', ''repositories'', ''packages'', ''engine_setup'', ''services'', ''users'', ''recheck'']"

definition RESUMED_BLOCKERS :: "string list" where
  "RESUMED_BLOCKERS = [''target_folder_not_empty'', ''file_exists_on_target'', ''image_exists_on_target'', ''volume_exists_on_target'',
     ''unit_exists_on_target'', ''site_exists_on_target'', ''container_exists_on_target'', ''name_taken'', ''port_in_use'']"

definition step_of :: "string \<Rightarrow> string \<Rightarrow> int option \<Rightarrow> step_status \<Rightarrow> move_step" where
  "step_of name key bytes st =
     \<lparr>ms_step = name, ms_key = key, ms_bytes = bytes, ms_status = st, ms_done_before = False, ms_warning = None\<rparr>"

definition planned :: "string list \<Rightarrow> move_step list" where
  "planned steps = map (\<lambda>s. step_of s [] None PENDING) steps"

definition plan_phase :: move_phase where
  "plan_phase = \<lparr>mp_phase = ''plan'', mp_application = [], mp_name = [], mp_target_name = [], mp_status = PENDING,
     mp_steps = planned PLAN_STEPS, mp_backup = None, mp_target_application = None\<rparr>"

definition step_key :: "move_phase \<Rightarrow> move_step \<Rightarrow> step_id" where
  "step_key ph st = (if mp_application ph \<noteq> [] then mp_application ph else mp_phase ph, ms_step st, ms_key st)"

text \<open>What the inventory says of one application; keys are the targets, references and names the steps are keyed by.\<close>

datatype app_kind = HOST | COMPOSE | CONTAINER

record app_plan =
  pl_kind :: app_kind
  pl_application :: string
  pl_name :: string
  pl_target_name :: string
  pl_folder_path :: string
  pl_folder_target :: string
  pl_folder_bytes :: "int option"
  pl_extras :: "(string \<times> int option) list"
  pl_binds :: "(string \<times> int option \<times> bool) list"
  pl_images :: "(string \<times> int option \<times> bool) list"
  pl_volumes :: "(string \<times> int option \<times> bool) list"
  pl_env_rewrite :: string
  pl_backup_dir_create :: bool
  pl_backup_dir :: string
  pl_database_placement :: string
  pl_database_action :: string
  pl_networks :: "string list"
  pl_units :: "string list"
  pl_sites :: "string list"
  pl_users :: "string list"
  pl_copy_plans :: bool
  pl_blockers :: "string list"

record inventory =
  in_applications :: "app_plan list"
  in_needs :: "string list"
  in_packages :: package_plan
  in_sudo_source :: bool
  in_sudo_target :: bool
  in_blockers :: "string list"

definition keyed :: "string \<Rightarrow> string \<times> int option \<Rightarrow> move_step" where
  "keyed name item = step_of name (fst item) (snd item) PENDING"

definition application_steps :: "app_plan \<Rightarrow> move_step list" where
  "application_steps plan =
     (let plain = (\<lambda>name. step_of name [] None PENDING);
          on = (\<lambda>name wanted. if wanted then [plain name] else []);
          shared = (if pl_database_action plan = ''shared'' then SKIPPED else PENDING)
      in [plain ''source_backup''] @
         (if pl_folder_path plan \<noteq> [] then [keyed ''carry_folder'' (pl_folder_target plan, pl_folder_bytes plan)] else []) @
         map (keyed ''carry_extra'') (pl_extras plan) @
         map (\<lambda>(target, bytes, selected). keyed ''carry_bind'' (target, bytes)) (filter (\<lambda>(_, _, selected). selected) (pl_binds plan)) @
         map (\<lambda>(ref, bytes, on_target). keyed ''carry_image'' (ref, bytes)) (filter (\<lambda>(_, _, on_target). \<not> on_target) (pl_images plan)) @
         map (\<lambda>(name, bytes, selected). keyed ''carry_volume'' (name, bytes)) (filter (\<lambda>(_, _, selected). selected) (pl_volumes plan)) @
         (if pl_env_rewrite plan \<noteq> [] then [keyed ''rewrite_env'' (pl_env_rewrite plan, None)] else []) @
         (if pl_backup_dir_create plan then [keyed ''backup_dir'' (pl_backup_dir plan, None)] else []) @
         on ''python'' (pl_kind plan = HOST) @
         on ''database_create'' (pl_kind plan = HOST \<and> pl_database_placement plan = ''host_package'') @
         on ''networks'' (pl_kind plan = CONTAINER \<and> pl_networks plan \<noteq> []) @
         on ''start'' (pl_kind plan \<noteq> HOST) @
         [plain ''register'', step_of ''migrate'' [] None shared, step_of ''restore'' [] None shared] @
         on ''install_units'' (pl_kind plan = HOST \<and> pl_units plan \<noteq> []) @
         on ''install_sites'' (pl_kind plan = HOST \<and> pl_sites plan \<noteq> []) @
         [plain ''final_check'', step_of ''copy_plans'' [] None (if pl_copy_plans plan then PENDING else SKIPPED)])"

definition prepare_runs :: "inventory \<Rightarrow> string \<Rightarrow> bool" where
  "prepare_runs iv step =
     (let p = in_packages iv
      in if step = ''sudo_check'' then in_sudo_target iv \<or> in_sudo_source iv
         else if step = ''repositories'' then pp_repositories p \<noteq> []
         else if step = ''packages'' then pp_packages p \<noteq> [] \<or> pp_modules p \<noteq> []
         else if step = ''engine_setup'' then ''docker'' \<in> set (in_needs iv) \<or> ''podman'' \<in> set (in_needs iv)
         else if step = ''services'' then pp_services p \<noteq> []
         else if step = ''users'' then list_ex (\<lambda>plan. pl_users plan \<noteq> []) (in_applications iv)
         else step = ''recheck'' \<and> pp_packages p \<noteq> [])"

definition prepare_steps :: "inventory \<Rightarrow> move_step list" where
  "prepare_steps iv = map (\<lambda>s. step_of s [] None (if prepare_runs iv s then PENDING else SKIPPED)) PREPARE_STEPS"

definition blocked :: "inventory \<Rightarrow> string list" where
  "blocked iv = in_blockers iv @ concat (map pl_blockers (in_applications iv))"

definition still_blocking :: "string \<Rightarrow> step_id list \<Rightarrow> bool" where
  "still_blocking code finished = (if code \<notin> set RESUMED_BLOCKERS then True else finished = [])"

section \<open>The job\<close>

record move =
  mv_rehearsal :: bool
  mv_phases :: "move_phase list"
  mv_inventory :: "inventory option"
  mv_done_before :: "step_id list"
  mv_previous :: "move_phase list"
  mv_blockers :: "string list"
  mv_current :: "(string \<times> string \<times> string) option"
  mv_failed_step :: "(string \<times> string \<times> string) option"
  mv_created :: "(string \<times> string) list"

datatype failure = MoveBlocked | StepFailed string

text \<open>The outcome of a step: \<open>None\<close> when it had nothing to do, else the warning it gives, if any.\<close>

type_synonym outcome = "string option option"

text \<open>
  What the steps do: the survey of the servers, the backup of an application, finding the moved application and
  registering it, and all other steps. \<open>rs_entries\<close> is the log of \<open>ActivityService.track\<close>: the steps that were worked on,
  in order, with whether they ended without an exception.
\<close>

record 'w works =
  wk_survey :: "'w \<Rightarrow> (failure + inventory) \<times> 'w"
  wk_back_up :: "move_phase \<Rightarrow> 'w \<Rightarrow> (failure + string) \<times> 'w"
  wk_register :: "move_phase \<Rightarrow> 'w \<Rightarrow> (failure + string) \<times> 'w"
  wk_other :: "move_phase \<Rightarrow> move_step \<Rightarrow> 'w \<Rightarrow> (failure + outcome) \<times> 'w"

record 'w run_state =
  rs_move :: move
  rs_world :: 'w
  rs_entries :: "(step_id \<times> bool) list"

text \<open>\<open>earlier\<close> is the last of the previous phases under the application's key, as in the dictionary of the code.\<close>

definition phase_id :: "move_phase \<Rightarrow> string" where
  "phase_id ph = (if mp_application ph \<noteq> [] then mp_application ph else mp_phase ph)"

definition application_phase :: "move_phase list \<Rightarrow> app_plan \<Rightarrow> move_phase" where
  "application_phase previous plan =
     (let earlier = find (\<lambda>ph. phase_id ph = pl_application plan) (rev previous)
      in \<lparr>mp_phase = ''application'', mp_application = pl_application plan, mp_name = pl_name plan,
          mp_target_name = pl_target_name plan, mp_status = PENDING, mp_steps = application_steps plan,
          mp_backup = Option.bind earlier mp_backup, mp_target_application = Option.bind earlier mp_target_application\<rparr>)"

definition prepare_phase :: "inventory \<Rightarrow> move_phase" where
  "prepare_phase iv = \<lparr>mp_phase = ''prepare'', mp_application = [], mp_name = [], mp_target_name = [], mp_status = PENDING,
     mp_steps = prepare_steps iv, mp_backup = None, mp_target_application = None\<rparr>"

definition step_inventory :: "inventory \<Rightarrow> move \<Rightarrow> move" where
  "step_inventory found mv =
     mv\<lparr>mv_inventory := Some found,
        mv_phases := hd (mv_phases mv) # prepare_phase found # map (application_phase (mv_previous mv)) (in_applications found)\<rparr>"

definition step_evaluate :: "move \<Rightarrow> (failure + outcome) \<times> move" where
  "step_evaluate mv =
     (let blockers = filter (\<lambda>code. still_blocking code (mv_done_before mv))
            (case mv_inventory mv of None \<Rightarrow> [] | Some iv \<Rightarrow> blocked iv);
          mv = mv\<lparr>mv_blockers := blockers\<rparr>
      in (if blockers = [] then Inr (Some None) else Inl MoveBlocked, mv))"

definition set_phase :: "nat \<Rightarrow> (move_phase \<Rightarrow> move_phase) \<Rightarrow> move \<Rightarrow> move" where
  "set_phase i f mv = mv\<lparr>mv_phases := (mv_phases mv)[i := f (mv_phases mv ! i)]\<rparr>"

definition set_step :: "nat \<Rightarrow> nat \<Rightarrow> (move_step \<Rightarrow> move_step) \<Rightarrow> move \<Rightarrow> move" where
  "set_step i j f = set_phase i (\<lambda>ph. ph\<lparr>mp_steps := (mp_steps ph)[j := f (mp_steps ph ! j)]\<rparr>)"

text \<open>\<open>Move.work\<close>: the handler of the step.\<close>

definition step_work :: "'w works \<Rightarrow> nat \<Rightarrow> move_phase \<Rightarrow> move_step \<Rightarrow> move \<Rightarrow> 'w \<Rightarrow> (failure + outcome) \<times> move \<times> 'w" where
  "step_work wk i ph st mv w =
     (if ms_step st = ''inventory'' then
        (case wk_survey wk w of
           (Inl e, w) \<Rightarrow> (Inl e, mv, w)
         | (Inr found, w) \<Rightarrow> (Inr (Some None), step_inventory found mv, w))
      else if ms_step st = ''evaluate'' then (let (r, mv) = step_evaluate mv in (r, mv, w))
      else if ms_step st = ''source_backup'' then
        (case wk_back_up wk ph w of
           (Inl e, w) \<Rightarrow> (Inl e, mv, w)
         | (Inr file, w) \<Rightarrow> (Inr (Some None), set_phase i (\<lambda>ph. ph\<lparr>mp_backup := Some file\<rparr>) mv, w))
      else if ms_step st = ''register'' then
        (if mp_target_application ph \<noteq> None then (Inr (Some None), mv, w)
         else case wk_register wk ph w of
           (Inl e, w) \<Rightarrow> (Inl e, mv, w)
         | (Inr created, w) \<Rightarrow>
             (Inr (Some None), (set_phase i (\<lambda>ph. ph\<lparr>mp_target_application := Some created\<rparr>) mv)
                \<lparr>mv_created := mv_created mv @ [(mp_application ph, created)]\<rparr>, w))
      else (let (r, w) = wk_other wk ph st w in (r, mv, w)))"

section \<open>Running the phases\<close>

definition place_of :: "move_phase \<Rightarrow> move_step \<Rightarrow> string \<times> string \<times> string" where
  "place_of ph st = (if mp_name ph \<noteq> [] then mp_name ph else mp_phase ph, ms_step st, ms_key st)"

definition skip_pending :: "move_phase \<Rightarrow> move_phase" where
  "skip_pending ph = ph\<lparr>mp_steps := map (\<lambda>st. if ms_status st = PENDING then st\<lparr>ms_status := SKIPPED\<rparr> else st) (mp_steps ph)\<rparr>"

definition step_fails :: "nat \<Rightarrow> nat \<Rightarrow> move_phase \<Rightarrow> move_step \<Rightarrow> move \<Rightarrow> move" where
  "step_fails i j ph st mv =
     (let mv = set_step i j (\<lambda>st. st\<lparr>ms_status := FAILED\<rparr>) mv;
          mv = set_phase i (\<lambda>ph. ph\<lparr>mp_status := FAILED\<rparr>) mv
      in mv\<lparr>mv_failed_step := Some (place_of ph st), mv_phases := map skip_pending (mv_phases mv), mv_current := None\<rparr>)"

definition step_ends :: "nat \<Rightarrow> nat \<Rightarrow> outcome \<Rightarrow> move \<Rightarrow> move" where
  "step_ends i j out = set_step i j (\<lambda>st. st\<lparr>ms_status := (if out = None then SKIPPED else SUCCEEDED),
     ms_warning := (case out of Some (Some w) \<Rightarrow> if w \<noteq> [] then Some w else ms_warning st | _ \<Rightarrow> ms_warning st)\<rparr>)"

definition run_step :: "'w works \<Rightarrow> nat \<Rightarrow> nat \<Rightarrow> 'w run_state \<Rightarrow> failure option \<times> 'w run_state" where
  "run_step wk i j s =
     (let mv = rs_move s; ph = mv_phases mv ! i; st = mp_steps ph ! j
      in if ms_status st = SKIPPED then (None, s)
         else if step_key ph st \<in> set (mv_done_before mv)
         then (None, s\<lparr>rs_move := set_step i j (\<lambda>st. st\<lparr>ms_status := SKIPPED, ms_done_before := True\<rparr>) mv\<rparr>)
         else
           let mv = set_step i j (\<lambda>st. st\<lparr>ms_status := RUNNING\<rparr>) mv;
               mv = mv\<lparr>mv_current := Some (place_of ph st)\<rparr>
           in case step_work wk i ph st mv (rs_world s) of
                (Inl e, mv, w) \<Rightarrow> (Some e, \<lparr>rs_move = step_fails i j ph st mv, rs_world = w, rs_entries = rs_entries s @ [(step_key ph st, False)]\<rparr>)
              | (Inr out, mv, w) \<Rightarrow> (None, \<lparr>rs_move = step_ends i j out mv, rs_world = w, rs_entries = rs_entries s @ [(step_key ph st, True)]\<rparr>))"

fun run_steps :: "'w works \<Rightarrow> nat \<Rightarrow> nat list \<Rightarrow> 'w run_state \<Rightarrow> failure option \<times> 'w run_state" where
  "run_steps wk i [] s = (None, s)"
| "run_steps wk i (j # js) s = (case run_step wk i j s of (Some e, s) \<Rightarrow> (Some e, s) | (None, s) \<Rightarrow> run_steps wk i js s)"

definition run_phase :: "'w works \<Rightarrow> nat \<Rightarrow> 'w run_state \<Rightarrow> failure option \<times> 'w run_state" where
  "run_phase wk i s =
     (let s = s\<lparr>rs_move := set_phase i (\<lambda>ph. ph\<lparr>mp_status := RUNNING\<rparr>) (rs_move s)\<rparr>
      in case run_steps wk i [0..<length (mp_steps (mv_phases (rs_move s) ! i))] s of
           (Some e, s) \<Rightarrow> (Some e, s)
         | (None, s) \<Rightarrow> (None, s\<lparr>rs_move := (set_phase i (\<lambda>ph. ph\<lparr>mp_status := SUCCEEDED\<rparr>) (rs_move s))\<lparr>mv_current := None\<rparr>\<rparr>))"

text \<open>\<open>Move.run\<close>, a loop over the phases as they are by then.\<close>

partial_function (option) run_from :: "'w works \<Rightarrow> nat \<Rightarrow> 'w run_state \<Rightarrow> (failure option \<times> 'w run_state) option" where
  "run_from wk i s =
     (if length (mv_phases (rs_move s)) \<le> i then Some (None, s)
      else if mv_rehearsal (rs_move s) \<and> mp_phase (mv_phases (rs_move s) ! i) \<noteq> ''plan'' then Some (None, s)
      else case run_phase wk i s of
        (Some e, s) \<Rightarrow> Some (Some e, s)
      | (None, s) \<Rightarrow> run_from wk (Suc i) s)"

declare run_from.simps [code]

definition run_move :: "'w works \<Rightarrow> move \<Rightarrow> 'w \<Rightarrow> (failure option \<times> 'w run_state) option" where
  "run_move wk mv w = run_from wk 0 \<lparr>rs_move = mv, rs_world = w, rs_entries = []\<rparr>"

section \<open>Starting a move and resuming one\<close>

definition resume_done :: "move_phase list \<Rightarrow> step_id list" where
  "resume_done phases = concat (map (\<lambda>ph. if mp_phase ph = ''plan'' then []
     else map (step_key ph) (filter (\<lambda>st. ms_status st = SUCCEEDED \<or> ms_done_before st) (mp_steps ph))) phases)"

definition new_move :: "bool \<Rightarrow> move" where
  "new_move rehearsal = \<lparr>mv_rehearsal = rehearsal, mv_phases = [plan_phase], mv_inventory = None, mv_done_before = [],
     mv_previous = [], mv_blockers = [], mv_current = None, mv_failed_step = None, mv_created = []\<rparr>"

definition resumed_move :: "bool \<Rightarrow> move \<Rightarrow> move" where
  "resumed_move rehearsal earlier = (new_move rehearsal)\<lparr>mv_previous := mv_phases earlier,
     mv_done_before := resume_done (mv_phases earlier), mv_created := mv_created earlier\<rparr>"

section \<open>The walk over the steps\<close>

definition later_phases :: "move_phase list \<Rightarrow> inventory option \<Rightarrow> move_phase list" where
  "later_phases previous found = (case found of None \<Rightarrow> []
     | Some iv \<Rightarrow> prepare_phase iv # map (application_phase previous) (in_applications iv))"

definition same_phase :: "move_phase \<Rightarrow> move_phase \<Rightarrow> bool" where
  "same_phase ph ph' \<longleftrightarrow> mp_phase ph' = mp_phase ph \<and> mp_application ph' = mp_application ph"

definition same_job :: "move \<Rightarrow> move \<Rightarrow> bool" where
  "same_job mv mv' \<longleftrightarrow> mv_rehearsal mv' = mv_rehearsal mv \<and> mv_done_before mv' = mv_done_before mv \<and> mv_previous mv' = mv_previous mv"

lemma step_key_same: "same_phase ph ph' \<Longrightarrow> step_key ph' = step_key ph"
  by (rule ext) (simp add: same_phase_def step_key_def)

text \<open>The phases of a move that works on the phase after \<open>P1\<close>, and what a step may do to the phases behind.\<close>

definition behind :: "move \<Rightarrow> move_phase list \<Rightarrow> bool" where
  "behind mv P2 \<longleftrightarrow> P2 = later_phases (mv_previous mv) (mv_inventory mv)"

lemma set_phase_at:
  "mv_phases mv = P1 @ ph # P2 \<Longrightarrow> set_phase (length P1) f mv = mv\<lparr>mv_phases := P1 @ f ph # P2\<rparr>"
  by (simp add: set_phase_def)

lemma set_step_at:
  "mv_phases mv = P1 @ ph # P2 \<Longrightarrow> mp_steps ph = S1 @ st # S2 \<Longrightarrow>
   set_step (length P1) (length S1) f mv = mv\<lparr>mv_phases := P1 @ ph\<lparr>mp_steps := S1 @ f st # S2\<rparr> # P2\<rparr>"
  by (simp add: set_step_def set_phase_at)

lemma step_work_phases:
  assumes "mv_phases mv = P1 @ ph # P2" and "step_work wk (length P1) ph0 st mv w = (r, mv', w')"
    and "P1 = [] \<and> behind mv P2 \<or> ms_step st \<noteq> ''inventory''"
  obtains ph' P2' where "mv_phases mv' = P1 @ ph' # P2'" and "same_phase ph ph'" and "mp_steps ph' = mp_steps ph" and "same_job mv mv'"
    and "ms_step st \<noteq> ''inventory'' \<Longrightarrow> P2' = P2 \<and> mv_inventory mv' = mv_inventory mv" and "behind mv P2 \<Longrightarrow> behind mv' P2'"
proof (cases "ms_step st = ''inventory''")
  case True
  then have P1: "P1 = []" "behind mv P2" using assms(3) by simp_all
  obtain x w1 where x: "wk_survey wk w = (x, w1)" by fastforce
  show ?thesis
  proof (cases x)
    case (Inl e)
    then have "mv' = mv" using assms(2) True x by (simp add: step_work_def)
    then show ?thesis using that [of ph P2] assms(1) by (simp add: same_phase_def same_job_def)
  next
    case (Inr found)
    then have "mv' = step_inventory found mv" using assms(2) True x by (simp add: step_work_def)
    then show ?thesis using that [of ph "later_phases (mv_previous mv) (Some found)"] assms(1) P1(1) True
      by (simp add: same_phase_def same_job_def step_inventory_def later_phases_def behind_def)
  qed
next
  case False
  consider "mv' = mv" | "mv' = snd (step_evaluate mv)" | bk where "mv' = set_phase (length P1) (\<lambda>ph. ph\<lparr>mp_backup := Some bk\<rparr>) mv"
    | created where "mv' = (set_phase (length P1) (\<lambda>ph. ph\<lparr>mp_target_application := Some created\<rparr>) mv)
                \<lparr>mv_created := mv_created mv @ [(mp_application ph0, created)]\<rparr>"
    using assms(2) False unfolding step_work_def by (auto simp: split_def Let_def split: sum.splits prod.splits if_splits)
  then show ?thesis
  proof cases
    case 1
    then show ?thesis using that [of ph P2] assms(1) by (simp add: same_phase_def same_job_def)
  next
    case 2
    then show ?thesis using that [of ph P2] assms(1) by (simp add: same_phase_def same_job_def step_evaluate_def Let_def behind_def)
  next
    case (3 bk)
    then show ?thesis using that [of "ph\<lparr>mp_backup := Some bk\<rparr>" P2]
      by (simp add: set_phase_at [OF assms(1)] same_phase_def same_job_def behind_def)
  next
    case (4 created)
    then show ?thesis using that [of "ph\<lparr>mp_target_application := Some created\<rparr>" P2]
      by (simp add: set_phase_at [OF assms(1)] same_phase_def same_job_def behind_def)
  qed
qed

text \<open>Whether a step is worked on, the steps that are, and a step that has ended without a failure.\<close>

definition executed :: "step_id list \<Rightarrow> move_phase \<Rightarrow> move_step \<Rightarrow> bool" where
  "executed finished ph st \<longleftrightarrow> ms_status st \<noteq> SKIPPED \<and> step_key ph st \<notin> set finished"

definition todo :: "step_id list \<Rightarrow> move_phase \<Rightarrow> move_step list \<Rightarrow> step_id list" where
  "todo finished ph sts = map (step_key ph) (filter (executed finished ph) sts)"

definition productive :: "'w works \<Rightarrow> bool" where
  "productive wk \<longleftrightarrow> (\<forall>ph st w. fst (wk_other wk ph st w) \<noteq> Inr None)"

definition ended :: "'w works \<Rightarrow> step_id list \<Rightarrow> move_phase \<Rightarrow> move_step \<Rightarrow> move_step \<Rightarrow> bool" where
  "ended wk finished ph st st' \<longleftrightarrow> ms_step st' = ms_step st \<and> ms_key st' = ms_key st \<and>
     (if ms_status st = SKIPPED then st' = st
      else if step_key ph st \<in> set finished then ms_status st' = SKIPPED \<and> ms_done_before st'
      else (ms_status st' = SUCCEEDED \<or> \<not> productive wk \<and> ms_status st' = SKIPPED) \<and> ms_done_before st' = ms_done_before st)"

abbreviation succeeded :: "step_id list \<Rightarrow> (step_id \<times> bool) list" where
  "succeeded ks \<equiv> map (\<lambda>k. (k, True)) ks"

lemma productive_work:
  assumes "productive wk" and "step_work wk i ph st mv w = (Inr out, mv', w')"
  shows "out \<noteq> None"
proof -
  have "out = Some None \<or> fst (wk_other wk ph st w) = Inr out"
    using assms(2) by (auto simp: step_work_def step_evaluate_def split_def Let_def split: sum.splits if_splits)
  then show ?thesis using assms(1) by (cases out) (auto simp: productive_def)
qed

lemma run_step_ends:
  assumes at: "mv_phases (rs_move s) = P1 @ ph # P2" "mp_steps ph = S1 @ st # S2"
    and ok: "P1 = [] \<and> behind (rs_move s) P2 \<or> ms_step st \<noteq> ''inventory''"
    and run: "run_step wk (length P1) (length S1) s = (None, s')"
  obtains ph' st' P2' where "mv_phases (rs_move s') = P1 @ ph' # P2'" and "same_phase ph ph'" and "mp_steps ph' = S1 @ st' # S2"
    and "ended wk (mv_done_before (rs_move s)) ph st st'" and "same_job (rs_move s) (rs_move s')"
    and "rs_entries s' = rs_entries s @ succeeded (todo (mv_done_before (rs_move s)) ph [st])"
    and "ms_step st \<noteq> ''inventory'' \<Longrightarrow> P2' = P2 \<and> mv_inventory (rs_move s') = mv_inventory (rs_move s)"
    and "behind (rs_move s) P2 \<Longrightarrow> behind (rs_move s') P2'"
proof -
  let ?mv = "rs_move s"
  consider (skipped) "ms_status st = SKIPPED" | (before) "ms_status st \<noteq> SKIPPED" "step_key ph st \<in> set (mv_done_before ?mv)"
    | (work) "executed (mv_done_before ?mv) ph st" by (auto simp: executed_def)
  then show ?thesis
  proof cases
    case skipped
    then have "s' = s" using run at by (simp add: run_step_def)
    then show ?thesis using that [of ph P2 st] at skipped by (simp add: same_phase_def same_job_def ended_def todo_def executed_def)
  next
    case before
    then have "s' = s\<lparr>rs_move := set_step (length P1) (length S1) (\<lambda>st. st\<lparr>ms_status := SKIPPED, ms_done_before := True\<rparr>) ?mv\<rparr>"
      using run at by (simp add: run_step_def Let_def)
    then show ?thesis
      using that [of "ph\<lparr>mp_steps := S1 @ st\<lparr>ms_status := SKIPPED, ms_done_before := True\<rparr> # S2\<rparr>" P2
          "st\<lparr>ms_status := SKIPPED, ms_done_before := True\<rparr>"] before
      by (simp add: set_step_at [OF at] same_phase_def same_job_def ended_def todo_def executed_def behind_def)
  next
    case work
    let ?run = "st\<lparr>ms_status := RUNNING\<rparr>" and ?ph = "ph\<lparr>mp_steps := S1 @ st\<lparr>ms_status := RUNNING\<rparr> # S2\<rparr>"
    let ?mv1 = "?mv\<lparr>mv_phases := P1 @ ?ph # P2, mv_current := Some (place_of ph st)\<rparr>"
    obtain r mv2 w where W: "step_work wk (length P1) ph st ?mv1 (rs_world s) = (r, mv2, w)" by (cases "step_work wk (length P1) ph st ?mv1 (rs_world s)")
    obtain out where r: "r = Inr out"
      using run at work W by (cases r) (auto simp: run_step_def Let_def executed_def set_step_at [OF at])
    then have s': "s' = \<lparr>rs_move = step_ends (length P1) (length S1) out mv2, rs_world = w, rs_entries = rs_entries s @ [(step_key ph st, True)]\<rparr>"
      using run at work W by (auto simp: run_step_def Let_def executed_def set_step_at [OF at])
    have at1: "mv_phases ?mv1 = P1 @ ?ph # P2" by simp
    have "P1 = [] \<and> behind ?mv1 P2 \<or> ms_step st \<noteq> ''inventory''" using ok by (auto simp: behind_def)
    then obtain ph2 P2' where W2: "mv_phases mv2 = P1 @ ph2 # P2'" "same_phase ?ph ph2" "mp_steps ph2 = mp_steps ?ph" "same_job ?mv1 mv2"
        "ms_step st \<noteq> ''inventory'' \<Longrightarrow> P2' = P2 \<and> mv_inventory mv2 = mv_inventory ?mv1" "behind ?mv1 P2 \<Longrightarrow> behind mv2 P2'"
      using step_work_phases [OF at1 W] by blast
    let ?fin = "\<lambda>st. st\<lparr>ms_status := (if out = None then SKIPPED else SUCCEEDED),
      ms_warning := (case out of Some (Some w) \<Rightarrow> if w \<noteq> [] then Some w else ms_warning st | _ \<Rightarrow> ms_warning st)\<rparr>"
    have "step_ends (length P1) (length S1) out mv2 = mv2\<lparr>mv_phases := P1 @ ph2\<lparr>mp_steps := S1 @ ?fin ?run # S2\<rparr> # P2'\<rparr>"
      unfolding step_ends_def by (rule set_step_at [OF W2(1)]) (simp add: W2(3))
    moreover have "out = None \<Longrightarrow> \<not> productive wk" using productive_work [of wk] W r by blast
    ultimately show ?thesis
      using that [of "ph2\<lparr>mp_steps := S1 @ ?fin ?run # S2\<rparr>" P2' "?fin ?run"] W2(2,4-6) work s'
      by (auto simp: same_phase_def same_job_def ended_def todo_def executed_def behind_def)
  qed
qed

definition step_skipped :: "move_step \<Rightarrow> move_step" where
  "step_skipped st = (if ms_status st = PENDING then st\<lparr>ms_status := SKIPPED\<rparr> else st)"

lemma skip_pending_steps [simp]: "mp_steps (skip_pending ph) = map step_skipped (mp_steps ph)"
  by (simp add: skip_pending_def step_skipped_def cong: map_cong)

lemma skip_pending_same [simp]: "same_phase ph (skip_pending ph') = same_phase ph ph'" "mp_phase (skip_pending ph) = mp_phase ph"
    "mp_application (skip_pending ph) = mp_application ph"
  by (simp_all add: same_phase_def skip_pending_def)

lemma run_step_fails:
  assumes at: "mv_phases (rs_move s) = P1 @ ph # P2" "mp_steps ph = S1 @ st # S2"
    and ok: "P1 = [] \<and> behind (rs_move s) P2 \<or> ms_step st \<noteq> ''inventory''"
    and run: "run_step wk (length P1) (length S1) s = (Some e, s')"
  obtains ph' st' P2' where "mv_phases (rs_move s') = map skip_pending (P1 @ ph' # P2')" and "same_phase ph ph'"
    and "mp_steps ph' = S1 @ st' # S2" and "ms_status st' = FAILED" and "ms_done_before st' = ms_done_before st"
    and "executed (mv_done_before (rs_move s)) ph st" and "same_job (rs_move s) (rs_move s')"
    and "rs_entries s' = rs_entries s @ [(step_key ph st, False)]"
    and "ms_step st \<noteq> ''inventory'' \<Longrightarrow> P2' = P2 \<and> mv_inventory (rs_move s') = mv_inventory (rs_move s)"
    and "behind (rs_move s) P2 \<Longrightarrow> behind (rs_move s') P2'"
    and "mv_failed_step (rs_move s') = Some (place_of ph st)"
proof -
  let ?mv = "rs_move s"
  have work: "executed (mv_done_before ?mv) ph st" using run at by (auto simp: run_step_def executed_def Let_def split: if_splits)
  let ?run = "st\<lparr>ms_status := RUNNING\<rparr>" and ?ph = "ph\<lparr>mp_steps := S1 @ st\<lparr>ms_status := RUNNING\<rparr> # S2\<rparr>"
  let ?mv1 = "?mv\<lparr>mv_phases := P1 @ ?ph # P2, mv_current := Some (place_of ph st)\<rparr>"
  obtain r mv2 w where W: "step_work wk (length P1) ph st ?mv1 (rs_world s) = (r, mv2, w)" by (cases "step_work wk (length P1) ph st ?mv1 (rs_world s)")
  have "r = Inl e" using run at work W by (cases r) (auto simp: run_step_def Let_def executed_def set_step_at [OF at])
  then have s': "s' = \<lparr>rs_move = step_fails (length P1) (length S1) ph st mv2, rs_world = w, rs_entries = rs_entries s @ [(step_key ph st, False)]\<rparr>"
    using run at work W by (auto simp: run_step_def Let_def executed_def set_step_at [OF at])
  have at1: "mv_phases ?mv1 = P1 @ ?ph # P2" by simp
  have "P1 = [] \<and> behind ?mv1 P2 \<or> ms_step st \<noteq> ''inventory''" using ok by (auto simp: behind_def)
  then obtain ph2 P2' where W2: "mv_phases mv2 = P1 @ ph2 # P2'" "same_phase ?ph ph2" "mp_steps ph2 = mp_steps ?ph" "same_job ?mv1 mv2"
      "ms_step st \<noteq> ''inventory'' \<Longrightarrow> P2' = P2 \<and> mv_inventory mv2 = mv_inventory ?mv1" "behind ?mv1 P2 \<Longrightarrow> behind mv2 P2'"
    using step_work_phases [OF at1 W] by blast
  let ?ph' = "ph2\<lparr>mp_steps := S1 @ ?run\<lparr>ms_status := FAILED\<rparr> # S2, mp_status := FAILED\<rparr>"
  have "set_step (length P1) (length S1) (\<lambda>st. st\<lparr>ms_status := FAILED\<rparr>) mv2 =
      mv2\<lparr>mv_phases := P1 @ ph2\<lparr>mp_steps := S1 @ ?run\<lparr>ms_status := FAILED\<rparr> # S2\<rparr> # P2'\<rparr>"
    by (rule set_step_at [OF W2(1)]) (simp add: W2(3))
  then have "step_fails (length P1) (length S1) ph st mv2 =
      mv2\<lparr>mv_failed_step := Some (place_of ph st), mv_phases := map skip_pending (P1 @ ?ph' # P2'), mv_current := None\<rparr>"
    by (simp add: step_fails_def Let_def set_phase_def)
  then show ?thesis
    using that [of ?ph' P2' "?run\<lparr>ms_status := FAILED\<rparr>"] W2(2,4-6) work s' by (auto simp: same_phase_def same_job_def behind_def)
qed

lemma same_phase_trans: "same_phase ph ph' \<Longrightarrow> same_phase ph' ph'' \<Longrightarrow> same_phase ph ph''"
  by (simp add: same_phase_def)

lemma same_job_trans: "same_job a b \<Longrightarrow> same_job b c \<Longrightarrow> same_job a c"
  by (simp add: same_job_def)

lemma executed_same: "same_phase ph ph' \<Longrightarrow> executed finished ph' = executed finished ph"
  by (simp add: fun_eq_iff executed_def step_key_same)

lemma todo_same: "same_phase ph ph' \<Longrightarrow> todo finished ph' = todo finished ph"
  by (simp add: fun_eq_iff todo_def step_key_same executed_same)

lemma ended_same: "same_phase ph ph' \<Longrightarrow> ended wk finished ph' = ended wk finished ph"
  by (simp add: fun_eq_iff ended_def step_key_same)

lemma todo_append: "todo finished ph (xs @ ys) = todo finished ph xs @ todo finished ph ys"
  by (simp add: todo_def)

text \<open>
  What holds after steps of a phase: the steps \<open>S2\<close> behind \<open>S1\<close> became \<open>S2'\<close>, the phases behind may have been planned anew.
\<close>

definition walked :: "'w run_state \<Rightarrow> move_phase \<Rightarrow> move_phase list \<Rightarrow> move_step list \<Rightarrow> 'w run_state \<Rightarrow> move_phase \<Rightarrow> move_phase list \<Rightarrow> bool" where
  "walked s ph P2 S2 s' ph' P2' \<longleftrightarrow> same_phase ph ph' \<and> same_job (rs_move s) (rs_move s') \<and>
     (list_all (\<lambda>st. ms_step st \<noteq> ''inventory'') S2 \<longrightarrow> P2' = P2 \<and> mv_inventory (rs_move s') = mv_inventory (rs_move s)) \<and>
     (behind (rs_move s) P2 \<longrightarrow> behind (rs_move s') P2')"

lemma run_steps_end:
  assumes "mv_phases (rs_move s) = P1 @ ph # P2" and "mp_steps ph = S1 @ S2"
    and "P1 = [] \<and> behind (rs_move s) P2 \<or> list_all (\<lambda>st. ms_step st \<noteq> ''inventory'') S2"
    and "run_steps wk (length P1) [length S1..<length S1 + length S2] s = (None, s')"
  shows "\<exists>ph' S2' P2'. mv_phases (rs_move s') = P1 @ ph' # P2' \<and> mp_steps ph' = S1 @ S2' \<and>
    list_all2 (ended wk (mv_done_before (rs_move s)) ph) S2 S2' \<and> walked s ph P2 S2 s' ph' P2' \<and>
    rs_entries s' = rs_entries s @ succeeded (todo (mv_done_before (rs_move s)) ph S2)"
  using assms
proof (induction S2 arbitrary: s ph S1 P2)
  case Nil
  then show ?case by (auto simp: walked_def same_phase_def same_job_def todo_def)
next
  case (Cons st S2)
  obtain x s1 where x: "run_step wk (length P1) (length S1) s = (x, s1)" by fastforce
  have idx: "[length S1..<length S1 + length (st # S2)] = length S1 # [length (S1 @ [z])..<length (S1 @ [z]) + length S2]" for z :: move_step
    by (simp add: upt_rec)
  have none: "x = None" and rest: "run_steps wk (length P1) [length (S1 @ [z])..<length (S1 @ [z]) + length S2] s1 = (None, s')" for z
    using Cons.prems(4) x unfolding idx [of z] by (auto split: option.splits)
  have ok: "P1 = [] \<and> behind (rs_move s) P2 \<or> ms_step st \<noteq> ''inventory''" using Cons.prems(3) by auto
  obtain ph1 st1 P21 where one: "mv_phases (rs_move s1) = P1 @ ph1 # P21" "same_phase ph ph1" "mp_steps ph1 = S1 @ st1 # S2"
      "ended wk (mv_done_before (rs_move s)) ph st st1" "same_job (rs_move s) (rs_move s1)"
      "rs_entries s1 = rs_entries s @ succeeded (todo (mv_done_before (rs_move s)) ph [st])"
      "ms_step st \<noteq> ''inventory'' \<Longrightarrow> P21 = P2 \<and> mv_inventory (rs_move s1) = mv_inventory (rs_move s)"
      "behind (rs_move s) P2 \<Longrightarrow> behind (rs_move s1) P21"
    using run_step_ends [OF Cons.prems(1,2) ok x [unfolded none]] by blast
  have steps1: "mp_steps ph1 = (S1 @ [st1]) @ S2" using one(3) by simp
  have ok1: "P1 = [] \<and> behind (rs_move s1) P21 \<or> list_all (\<lambda>st. ms_step st \<noteq> ''inventory'') S2" using Cons.prems(3) one(8) by auto
  have kept: "mv_done_before (rs_move s1) = mv_done_before (rs_move s)" using one(5) by (simp add: same_job_def)
  from Cons.IH [OF one(1) steps1 ok1 rest] obtain ph' S2' P2' where two: "mv_phases (rs_move s') = P1 @ ph' # P2'" "mp_steps ph' = (S1 @ [st1]) @ S2'"
      "list_all2 (ended wk (mv_done_before (rs_move s)) ph) S2 S2'" "walked s1 ph1 P21 S2 s' ph' P2'"
      "rs_entries s' = rs_entries s1 @ succeeded (todo (mv_done_before (rs_move s)) ph S2)"
    unfolding kept ended_same [OF one(2)] todo_same [OF one(2)] by blast
  have "walked s ph P2 (st # S2) s' ph' P2'"
    using one(2,5,7,8) two(4) by (auto simp: walked_def intro: same_phase_trans same_job_trans)
  moreover have "rs_entries s' = rs_entries s @ succeeded (todo (mv_done_before (rs_move s)) ph (st # S2))"
    using one(6) two(5) by (simp add: todo_def)
  ultimately show ?case using two(1,2,3) one(4) by (intro exI [of _ ph'] exI [of _ "st1 # S2'"] exI [of _ P2']) simp
qed

lemma run_steps_fail:
  assumes "mv_phases (rs_move s) = P1 @ ph # P2" and "mp_steps ph = S1 @ S2"
    and "P1 = [] \<and> behind (rs_move s) P2 \<or> list_all (\<lambda>st. ms_step st \<noteq> ''inventory'') S2"
    and "run_steps wk (length P1) [length S1..<length S1 + length S2] s = (Some e, s')"
  shows "\<exists>ph' A A' st st' B P2'. S2 = A @ st # B \<and> mv_phases (rs_move s') = map skip_pending (P1 @ ph' # P2') \<and>
    mp_steps ph' = S1 @ A' @ st' # B \<and> list_all2 (ended wk (mv_done_before (rs_move s)) ph) A A' \<and>
    ms_status st' = FAILED \<and> ms_done_before st' = ms_done_before st \<and> executed (mv_done_before (rs_move s)) ph st \<and>
    walked s ph P2 S2 s' ph' P2' \<and>
    rs_entries s' = rs_entries s @ succeeded (todo (mv_done_before (rs_move s)) ph A) @ [(step_key ph st, False)]"
  using assms
proof (induction S2 arbitrary: s ph S1 P2)
  case Nil
  then show ?case by simp
next
  case (Cons st S2)
  obtain x s1 where x: "run_step wk (length P1) (length S1) s = (x, s1)" by fastforce
  have idx: "[length S1..<length S1 + length (st # S2)] = length S1 # [length (S1 @ [z])..<length (S1 @ [z]) + length S2]" for z :: move_step
    by (simp add: upt_rec)
  have ok: "P1 = [] \<and> behind (rs_move s) P2 \<or> ms_step st \<noteq> ''inventory''" using Cons.prems(3) by auto
  show ?case
  proof (cases x)
    case (Some e')
    then have "s' = s1" using Cons.prems(4) x unfolding idx [of st] by simp
    then obtain ph' st' P2' where "mv_phases (rs_move s') = map skip_pending (P1 @ ph' # P2')" "same_phase ph ph'"
        "mp_steps ph' = S1 @ st' # S2" "ms_status st' = FAILED" "ms_done_before st' = ms_done_before st"
        "executed (mv_done_before (rs_move s)) ph st" "same_job (rs_move s) (rs_move s')"
        "rs_entries s' = rs_entries s @ [(step_key ph st, False)]"
        "ms_step st \<noteq> ''inventory'' \<Longrightarrow> P2' = P2 \<and> mv_inventory (rs_move s') = mv_inventory (rs_move s)"
        "behind (rs_move s) P2 \<Longrightarrow> behind (rs_move s') P2'"
      using run_step_fails [OF Cons.prems(1,2) ok x [unfolded Some]] by blast
    then show ?thesis
      by (intro exI [of _ ph'] exI [of _ "[]"] exI [of _ "[]"] exI [of _ st] exI [of _ st'] exI [of _ S2] exI [of _ P2'])
        (simp add: walked_def todo_def)
  next
    case None
    then have rest: "run_steps wk (length P1) [length (S1 @ [z])..<length (S1 @ [z]) + length S2] s1 = (Some e, s')" for z
      using Cons.prems(4) x unfolding idx [of z] by simp
    obtain ph1 st1 P21 where one: "mv_phases (rs_move s1) = P1 @ ph1 # P21" "same_phase ph ph1" "mp_steps ph1 = S1 @ st1 # S2"
        "ended wk (mv_done_before (rs_move s)) ph st st1" "same_job (rs_move s) (rs_move s1)"
        "rs_entries s1 = rs_entries s @ succeeded (todo (mv_done_before (rs_move s)) ph [st])"
        "ms_step st \<noteq> ''inventory'' \<Longrightarrow> P21 = P2 \<and> mv_inventory (rs_move s1) = mv_inventory (rs_move s)"
        "behind (rs_move s) P2 \<Longrightarrow> behind (rs_move s1) P21"
      using run_step_ends [OF Cons.prems(1,2) ok x [unfolded None]] by blast
    have steps1: "mp_steps ph1 = (S1 @ [st1]) @ S2" using one(3) by simp
    have ok1: "P1 = [] \<and> behind (rs_move s1) P21 \<or> list_all (\<lambda>st. ms_step st \<noteq> ''inventory'') S2" using Cons.prems(3) one(8) by auto
    have kept: "mv_done_before (rs_move s1) = mv_done_before (rs_move s)" using one(5) by (simp add: same_job_def)
    from Cons.IH [OF one(1) steps1 ok1 rest] obtain ph' A A' stf stf' B P2' where two: "S2 = A @ stf # B"
        "mv_phases (rs_move s') = map skip_pending (P1 @ ph' # P2')" "mp_steps ph' = (S1 @ [st1]) @ A' @ stf' # B"
        "list_all2 (ended wk (mv_done_before (rs_move s)) ph) A A'" "ms_status stf' = FAILED" "ms_done_before stf' = ms_done_before stf"
        "executed (mv_done_before (rs_move s)) ph stf" "walked s1 ph1 P21 S2 s' ph' P2'"
        "rs_entries s' = rs_entries s1 @ succeeded (todo (mv_done_before (rs_move s)) ph A) @ [(step_key ph stf, False)]"
      unfolding kept ended_same [OF one(2)] todo_same [OF one(2)] executed_same [OF one(2)] step_key_same [OF one(2)] by blast
    have "walked s ph P2 (st # S2) s' ph' P2'"
      using one(2,5,7,8) two(8) by (auto simp: walked_def intro: same_phase_trans same_job_trans)
    moreover have "rs_entries s' = rs_entries s @ succeeded (todo (mv_done_before (rs_move s)) ph (st # A)) @ [(step_key ph stf, False)]"
      using one(6) two(9) by (simp add: todo_def)
    ultimately show ?thesis using two(1-7) one(4)
      by (intro exI [of _ ph'] exI [of _ "st # A"] exI [of _ "st1 # A'"] exI [of _ stf] exI [of _ stf'] exI [of _ B] exI [of _ P2']) simp
  qed
qed

definition phase_ended :: "'w works \<Rightarrow> step_id list \<Rightarrow> move_phase \<Rightarrow> move_phase \<Rightarrow> bool" where
  "phase_ended wk finished ph ph' \<longleftrightarrow> same_phase ph ph' \<and> mp_status ph' = SUCCEEDED \<and> list_all2 (ended wk finished ph) (mp_steps ph) (mp_steps ph')"

definition phase_failed :: "'w works \<Rightarrow> step_id list \<Rightarrow> move_phase \<Rightarrow> move_phase \<Rightarrow> move_step list \<Rightarrow> move_step \<Rightarrow> bool" where
  "phase_failed wk finished ph ph' A st \<longleftrightarrow> (\<exists>A' st' B. same_phase ph ph' \<and> mp_steps ph = A @ st # B \<and> mp_steps ph' = A' @ st' # B \<and>
     list_all2 (ended wk finished ph) A A' \<and> ms_status st' = FAILED \<and> ms_done_before st' = ms_done_before st \<and> executed finished ph st)"

definition no_inventory :: "move_phase \<Rightarrow> bool" where
  "no_inventory ph \<longleftrightarrow> list_all (\<lambda>st. ms_step st \<noteq> ''inventory'') (mp_steps ph)"

lemma run_phase_walk:
  assumes "mv_phases (rs_move s) = P1 @ ph # P2" and "P1 = [] \<and> behind (rs_move s) P2 \<or> no_inventory ph"
    and "run_phase wk (length P1) s = (r, s')"
  shows "\<exists>ph' P2'. walked s ph P2 (mp_steps ph) s' ph' P2' \<and>
    (case r of
       None \<Rightarrow> mv_phases (rs_move s') = P1 @ ph' # P2' \<and> phase_ended wk (mv_done_before (rs_move s)) ph ph' \<and>
         rs_entries s' = rs_entries s @ succeeded (todo (mv_done_before (rs_move s)) ph (mp_steps ph))
     | Some e \<Rightarrow> \<exists>A st. mv_phases (rs_move s') = map skip_pending (P1 @ ph' # P2') \<and>
         phase_failed wk (mv_done_before (rs_move s)) ph ph' A st \<and>
         rs_entries s' = rs_entries s @ succeeded (todo (mv_done_before (rs_move s)) ph A) @ [(step_key ph st, False)])"
proof -
  let ?ph = "ph\<lparr>mp_status := RUNNING\<rparr>" and ?s = "s\<lparr>rs_move := set_phase (length P1) (\<lambda>ph. ph\<lparr>mp_status := RUNNING\<rparr>) (rs_move s)\<rparr>"
  have at: "mv_phases (rs_move ?s) = P1 @ ?ph # P2" "mp_steps ?ph = [] @ mp_steps ph" by (simp_all add: set_phase_at [OF assms(1)])
  have same: "same_phase ph ?ph" by (simp add: same_phase_def)
  note keys = todo_same [OF same] ended_same [OF same] executed_same [OF same] step_key_same [OF same]
  have kept: "mv_done_before (rs_move ?s) = mv_done_before (rs_move s)" "behind (rs_move ?s) P2 = behind (rs_move s) P2"
    by (simp_all add: set_phase_at [OF assms(1)] behind_def)
  have ok: "P1 = [] \<and> behind (rs_move ?s) P2 \<or> list_all (\<lambda>st. ms_step st \<noteq> ''inventory'') (mp_steps ph)"
    using assms(2) kept(2) by (auto simp: no_inventory_def)
  have walk: "walked s ph P2 (mp_steps ph) s2 ph2 P22" if "walked ?s ?ph P2 (mp_steps ph) s1 ph1 P22" "same_phase ph1 ph2"
      "same_job (rs_move s1) (rs_move s2)" "mv_inventory (rs_move s2) = mv_inventory (rs_move s1)" for s1 ph1 s2 ph2 P22
    using that by (auto simp: walked_def same_phase_def same_job_def set_phase_at [OF assms(1)] behind_def)
  obtain x s1 where x: "run_steps wk (length P1) [length ([] :: move_step list)..<length ([] :: move_step list) + length (mp_steps ph)] ?s = (x, s1)" by fastforce
  show ?thesis
  proof (cases x)
    case None
    from run_steps_end [OF at ok x [unfolded None]] obtain ph' S2' P2' where E: "mv_phases (rs_move s1) = P1 @ ph' # P2'" "mp_steps ph' = S2'"
        "list_all2 (ended wk (mv_done_before (rs_move s)) ph) (mp_steps ph) S2'" "walked ?s ?ph P2 (mp_steps ph) s1 ph' P2'"
        "rs_entries s1 = rs_entries s @ succeeded (todo (mv_done_before (rs_move s)) ph (mp_steps ph))"
      unfolding kept keys by auto
    have s': "r = None" "s' = s1\<lparr>rs_move := (set_phase (length P1) (\<lambda>ph. ph\<lparr>mp_status := SUCCEEDED\<rparr>) (rs_move s1))\<lparr>mv_current := None\<rparr>\<rparr>"
      using assms(3) x None at(1) by (simp_all add: run_phase_def Let_def)
    have "walked s ph P2 (mp_steps ph) s' (ph'\<lparr>mp_status := SUCCEEDED\<rparr>) P2'"
      by (rule walk [OF E(4)]) (simp_all add: s' set_phase_at [OF E(1)] same_phase_def same_job_def)
    moreover have "phase_ended wk (mv_done_before (rs_move s)) ph (ph'\<lparr>mp_status := SUCCEEDED\<rparr>)"
      using E(2-4) by (simp add: phase_ended_def walked_def same_phase_def)
    ultimately show ?thesis using E(1,5) by (intro exI [of _ "ph'\<lparr>mp_status := SUCCEEDED\<rparr>"] exI [of _ P2']) (simp add: s' set_phase_at [OF E(1)])
  next
    case (Some e)
    from run_steps_fail [OF at ok x [unfolded Some]] obtain ph' A A' st st' B P2' where E: "mp_steps ph = A @ st # B"
        "mv_phases (rs_move s1) = map skip_pending (P1 @ ph' # P2')" "mp_steps ph' = A' @ st' # B"
        "list_all2 (ended wk (mv_done_before (rs_move s)) ph) A A'" "ms_status st' = FAILED" "ms_done_before st' = ms_done_before st"
        "executed (mv_done_before (rs_move s)) ph st" "walked ?s ?ph P2 (mp_steps ph) s1 ph' P2'"
        "rs_entries s1 = rs_entries s @ succeeded (todo (mv_done_before (rs_move s)) ph A) @ [(step_key ph st, False)]"
      unfolding kept keys by auto
    have s': "r = Some e" "s' = s1" using assms(3) x Some at(1) by (simp_all add: run_phase_def Let_def)
    have "walked s ph P2 (mp_steps ph) s' ph' P2'" by (rule walk [OF E(8)]) (simp_all add: s' same_phase_def same_job_def)
    moreover have "phase_failed wk (mv_done_before (rs_move s)) ph ph' A st"
      using E by (auto simp: phase_failed_def walked_def same_phase_def)
    ultimately show ?thesis using E(2,9) s' by (intro exI [of _ ph'] exI [of _ P2']) auto
  qed
qed

definition all_todo :: "step_id list \<Rightarrow> move_phase list \<Rightarrow> step_id list" where
  "all_todo finished phases = concat (map (\<lambda>ph. todo finished ph (mp_steps ph)) phases)"

text \<open>The phases after a failure, and what was worked on until then.\<close>

definition run_failed :: "'w works \<Rightarrow> step_id list \<Rightarrow> move_phase list \<Rightarrow> move_phase list \<Rightarrow> (step_id \<times> bool) list \<Rightarrow> bool" where
  "run_failed wk finished P Q entries \<longleftrightarrow> (\<exists>A A' ph ph' B SA st. P = A @ ph # B \<and> Q = A' @ ph' # B \<and>
     list_all2 (phase_ended wk finished) A A' \<and> phase_failed wk finished ph ph' SA st \<and>
     entries = succeeded (all_todo finished A @ todo finished ph SA) @ [(step_key ph st, False)])"

lemma run_failed_here:
  assumes "phase_failed wk finished ph ph' A st"
  shows "run_failed wk finished (ph # B) (ph' # B) (succeeded (todo finished ph A) @ [(step_key ph st, False)])"
  unfolding run_failed_def using assms by (intro exI [of _ "[]"] exI [of _ ph] exI [of _ ph'] exI [of _ B] exI [of _ A] exI [of _ st]) (simp add: all_todo_def)

lemma run_failed_later:
  assumes "phase_ended wk finished ph ph'" and "run_failed wk finished P Q es"
  shows "run_failed wk finished (ph # P) (ph' # Q) (succeeded (todo finished ph (mp_steps ph)) @ es)"
proof -
  obtain A A' ph2 ph2' B SA st where F: "P = A @ ph2 # B" "Q = A' @ ph2' # B" "list_all2 (phase_ended wk finished) A A'"
      "phase_failed wk finished ph2 ph2' SA st" "es = succeeded (all_todo finished A @ todo finished ph2 SA) @ [(step_key ph2 st, False)]"
    using assms(2) by (auto simp: run_failed_def)
  then show ?thesis unfolding run_failed_def using assms(1)
    by (intro exI [of _ "ph # A"] exI [of _ "ph' # A'"] exI [of _ ph2] exI [of _ ph2'] exI [of _ B] exI [of _ SA] exI [of _ st]) (simp add: all_todo_def)
qed

lemma run_from_walk:
  assumes "mv_phases (rs_move s) = P1 @ P2" and "list_all no_inventory P2" and "\<not> mv_rehearsal (rs_move s)"
  shows "\<exists>r s' Q es. run_from wk (length P1) s = Some (r, s') \<and> same_job (rs_move s) (rs_move s') \<and>
    mv_inventory (rs_move s') = mv_inventory (rs_move s) \<and> rs_entries s' = rs_entries s @ es \<and>
    (case r of
       None \<Rightarrow> mv_phases (rs_move s') = P1 @ Q \<and> list_all2 (phase_ended wk (mv_done_before (rs_move s))) P2 Q \<and>
         es = succeeded (all_todo (mv_done_before (rs_move s)) P2)
     | Some e \<Rightarrow> mv_phases (rs_move s') = map skip_pending (P1 @ Q) \<and> run_failed wk (mv_done_before (rs_move s)) P2 Q es)"
  using assms
proof (induction P2 arbitrary: s P1)
  case Nil
  then show ?case by (simp add: run_from.simps same_job_def all_todo_def)
next
  case (Cons ph P2)
  let ?finished = "mv_done_before (rs_move s)"
  obtain x s1 where x: "run_phase wk (length P1) s = (x, s1)" by fastforce
  have ok: "P1 = [] \<and> behind (rs_move s) P2 \<or> no_inventory ph" using Cons.prems(2) by simp
  from run_phase_walk [OF Cons.prems(1) ok x] obtain ph' P2' where W: "walked s ph P2 (mp_steps ph) s1 ph' P2'"
    and E: "case x of
       None \<Rightarrow> mv_phases (rs_move s1) = P1 @ ph' # P2' \<and> phase_ended wk ?finished ph ph' \<and>
         rs_entries s1 = rs_entries s @ succeeded (todo ?finished ph (mp_steps ph))
     | Some e \<Rightarrow> \<exists>A st. mv_phases (rs_move s1) = map skip_pending (P1 @ ph' # P2') \<and> phase_failed wk ?finished ph ph' A st \<and>
         rs_entries s1 = rs_entries s @ succeeded (todo ?finished ph A) @ [(step_key ph st, False)]" by blast
  have P2': "P2' = P2" "mv_inventory (rs_move s1) = mv_inventory (rs_move s)" "same_job (rs_move s) (rs_move s1)"
    using W Cons.prems(2) by (auto simp: walked_def no_inventory_def)
  have go: "run_from wk (length P1) s = (case x of Some e \<Rightarrow> Some (Some e, s1) | None \<Rightarrow> run_from wk (Suc (length P1)) s1)"
    using Cons.prems(1,3) x by (subst run_from.simps) (simp split: option.split)
  show ?case
  proof (cases x)
    case (Some e)
    then obtain A st where F: "mv_phases (rs_move s1) = map skip_pending (P1 @ ph' # P2)" "phase_failed wk ?finished ph ph' A st"
        "rs_entries s1 = rs_entries s @ succeeded (todo ?finished ph A) @ [(step_key ph st, False)]"
      using E P2' by auto
    then show ?thesis unfolding go Some using P2' run_failed_here [OF F(2), of P2]
      by (intro exI [of _ "Some e"] exI [of _ s1] exI [of _ "ph' # P2"] exI [of _ "succeeded (todo ?finished ph A) @ [(step_key ph st, False)]"]) simp
  next
    case None
    then have N: "mv_phases (rs_move s1) = (P1 @ [ph']) @ P2" "phase_ended wk ?finished ph ph'"
        "rs_entries s1 = rs_entries s @ succeeded (todo ?finished ph (mp_steps ph))"
      using E P2' by auto
    have kept: "mv_done_before (rs_move s1) = ?finished" "\<not> mv_rehearsal (rs_move s1)"
      using P2'(3) Cons.prems(3) by (simp_all add: same_job_def)
    have "list_all no_inventory P2" using Cons.prems(2) by simp
    from Cons.IH [OF N(1) this kept(2)] obtain r s' Q es where R: "run_from wk (length (P1 @ [ph'])) s1 = Some (r, s')"
      "same_job (rs_move s1) (rs_move s')" "mv_inventory (rs_move s') = mv_inventory (rs_move s1)" "rs_entries s' = rs_entries s1 @ es"
      and C: "case r of
       None \<Rightarrow> mv_phases (rs_move s') = (P1 @ [ph']) @ Q \<and> list_all2 (phase_ended wk ?finished) P2 Q \<and> es = succeeded (all_todo ?finished P2)
     | Some e \<Rightarrow> mv_phases (rs_move s') = map skip_pending ((P1 @ [ph']) @ Q) \<and> run_failed wk ?finished P2 Q es"
      unfolding kept by blast
    have run: "run_from wk (length P1) s = Some (r, s')" using R(1) by (simp add: go None)
    have job: "same_job (rs_move s) (rs_move s')" "mv_inventory (rs_move s') = mv_inventory (rs_move s)"
      "rs_entries s' = rs_entries s @ succeeded (todo ?finished ph (mp_steps ph)) @ es"
      using R(2-4) P2'(2,3) N(3) by (auto intro: same_job_trans)
    have "case r of
       None \<Rightarrow> mv_phases (rs_move s') = P1 @ ph' # Q \<and> list_all2 (phase_ended wk ?finished) (ph # P2) (ph' # Q) \<and>
         succeeded (todo ?finished ph (mp_steps ph)) @ es = succeeded (all_todo ?finished (ph # P2))
     | Some e \<Rightarrow> mv_phases (rs_move s') = map skip_pending (P1 @ ph' # Q) \<and>
         run_failed wk ?finished (ph # P2) (ph' # Q) (succeeded (todo ?finished ph (mp_steps ph)) @ es)"
      using C N(2) run_failed_later [OF N(2)] by (cases r) (simp_all add: all_todo_def)
    then show ?thesis using run job by blast
  qed
qed

section \<open>The whole move\<close>

definition fresh_step :: "move_step \<Rightarrow> bool" where
  "fresh_step st \<longleftrightarrow> ms_step st \<noteq> ''inventory'' \<and> (ms_status st = PENDING \<or> ms_status st = SKIPPED) \<and> \<not> ms_done_before st"

lemma application_steps_all:
  assumes "\<And>name key bytes. name \<notin> {''migrate'', ''restore'', ''inventory''} \<Longrightarrow> P (step_of name key bytes PENDING)"
    and "P (step_of ''copy_plans'' [] None SKIPPED)"
    and "\<And>name. name \<in> {''migrate'', ''restore''} \<Longrightarrow>
      P (step_of name [] None (if pl_database_action plan = ''shared'' then SKIPPED else PENDING))"
  shows "list_all P (application_steps plan)"
  using assms(2) assms(1) assms(3) [of "''migrate''"] assms(3) [of "''restore''"]
  by (simp add: application_steps_def Let_def if_distrib [of "list_all P"] keyed_def list_all_iff [of _ "map _ _"] split_def
      del: if_split cong: if_cong)

lemma application_steps_fresh: "list_all fresh_step (application_steps plan)"
  by (rule application_steps_all) (auto simp: fresh_step_def step_of_def)

lemma prepare_steps_fresh: "list_all fresh_step (prepare_steps iv)"
  by (simp add: prepare_steps_def PREPARE_STEPS_def fresh_step_def step_of_def)

lemma later_fresh: "list_all (\<lambda>ph. list_all fresh_step (mp_steps ph)) (later_phases previous found)"
  by (cases found) (simp_all add: later_phases_def list_all_iff prepare_phase_def application_phase_def Let_def
      prepare_steps_fresh [unfolded list_all_iff] application_steps_fresh [unfolded list_all_iff])

lemma later_no_inventory: "list_all no_inventory (later_phases previous found)"
  using later_fresh [of previous found] by (auto simp: list_all_iff no_inventory_def fresh_step_def)

text \<open>A move that is about to start: only the plan phase, no inventory yet.\<close>

definition starting :: "move \<Rightarrow> bool" where
  "starting mv \<longleftrightarrow> mv_phases mv = [plan_phase] \<and> mv_inventory mv = None"

definition planned_phases :: "move \<Rightarrow> move \<Rightarrow> move_phase list" where
  "planned_phases mv mv' = plan_phase # later_phases (mv_previous mv) (mv_inventory mv')"

definition move_result :: "'w works \<Rightarrow> move \<Rightarrow> failure option \<Rightarrow> 'w run_state \<Rightarrow> move_phase list \<Rightarrow> bool" where
  "move_result wk mv r s' Q \<longleftrightarrow>
     (case r of
       None \<Rightarrow> mv_phases (rs_move s') = Q \<and>
         (if mv_rehearsal mv
          then (\<exists>ph'. Q = ph' # later_phases (mv_previous mv) (mv_inventory (rs_move s')) \<and> phase_ended wk (mv_done_before mv) plan_phase ph') \<and>
            rs_entries s' = succeeded (all_todo (mv_done_before mv) [plan_phase])
          else list_all2 (phase_ended wk (mv_done_before mv)) (planned_phases mv (rs_move s')) Q \<and>
            rs_entries s' = succeeded (all_todo (mv_done_before mv) (planned_phases mv (rs_move s'))))
     | Some e \<Rightarrow> mv_phases (rs_move s') = map skip_pending Q \<and>
         run_failed wk (mv_done_before mv) (planned_phases mv (rs_move s')) Q (rs_entries s') \<and>
         (mv_rehearsal mv \<longrightarrow> (\<exists>A st. phase_failed wk (mv_done_before mv) plan_phase (hd Q) A st \<and>
            rs_entries s' = succeeded (todo (mv_done_before mv) plan_phase A) @ [(step_key plan_phase st, False)])))"

lemma run_move_walk:
  assumes "starting mv"
  shows "\<exists>r s' Q. run_move wk mv w = Some (r, s') \<and> same_job mv (rs_move s') \<and> move_result wk mv r s' Q"
proof -
  let ?s = "\<lparr>rs_move = mv, rs_world = w, rs_entries = []\<rparr>" and ?finished = "mv_done_before mv"
  have at: "mv_phases (rs_move ?s) = [] @ plan_phase # []" and b: "behind (rs_move ?s) []"
    using assms by (simp_all add: starting_def behind_def later_phases_def)
  then have ok: "[] = [] \<and> behind (rs_move ?s) [] \<or> no_inventory plan_phase" by simp
  obtain x s1 where x: "run_phase wk (length ([] :: move_phase list)) ?s = (x, s1)" by fastforce
  from run_phase_walk [OF at ok x] obtain ph' P2' where W: "walked ?s plan_phase [] (mp_steps plan_phase) s1 ph' P2'"
    and E: "case x of
       None \<Rightarrow> mv_phases (rs_move s1) = ph' # P2' \<and> phase_ended wk ?finished plan_phase ph' \<and>
         rs_entries s1 = succeeded (todo ?finished plan_phase (mp_steps plan_phase))
     | Some e \<Rightarrow> \<exists>A st. mv_phases (rs_move s1) = map skip_pending (ph' # P2') \<and> phase_failed wk ?finished plan_phase ph' A st \<and>
         rs_entries s1 = succeeded (todo ?finished plan_phase A) @ [(step_key plan_phase st, False)]"
    unfolding append_Nil run_state.select_convs by blast
  have job: "same_job mv (rs_move s1)" and later: "P2' = later_phases (mv_previous mv) (mv_inventory (rs_move s1))"
    using W b by (auto simp: walked_def behind_def same_job_def)
  have go: "run_move wk mv w = (case x of Some e \<Rightarrow> Some (Some e, s1) | None \<Rightarrow> run_from wk 1 s1)"
    using at x unfolding run_move_def by (subst run_from.simps) (simp add: plan_phase_def split: option.split)
  show ?thesis
  proof (cases x)
    case (Some e)
    then obtain A st where F: "mv_phases (rs_move s1) = map skip_pending (ph' # P2')" "phase_failed wk ?finished plan_phase ph' A st"
         "rs_entries s1 = succeeded (todo ?finished plan_phase A) @ [(step_key plan_phase st, False)]"
      using E by auto
    then show ?thesis unfolding go Some using job later run_failed_here [OF F(2), of P2']
      by (intro exI [of _ "Some e"] exI [of _ s1] exI [of _ "ph' # P2'"]) (auto simp: planned_phases_def move_result_def)
  next
    case None
    then have N: "mv_phases (rs_move s1) = [ph'] @ P2'" "phase_ended wk ?finished plan_phase ph'"
         "rs_entries s1 = succeeded (todo ?finished plan_phase (mp_steps plan_phase))" using E by auto
    have kept: "mv_done_before (rs_move s1) = ?finished" "mv_rehearsal (rs_move s1) = mv_rehearsal mv" using job by (simp_all add: same_job_def)
    show ?thesis
    proof (cases "mv_rehearsal mv")
      case True
      have "run_from wk 1 s1 = Some (None, s1)"
      proof (cases P2')
        case Nil
        then show ?thesis using N(1) by (simp add: run_from.simps)
      next
        case (Cons p P)
        then have "mp_phase p \<noteq> ''plan''"
          unfolding later by (cases "mv_inventory (rs_move s1)") (auto simp: later_phases_def prepare_phase_def)
        then show ?thesis using N(1) Cons True kept(2) by (simp add: run_from.simps)
      qed
      then show ?thesis unfolding go None using job N True later
        by (intro exI [of _ None] exI [of _ s1] exI [of _ "ph' # P2'"]) (simp add: all_todo_def move_result_def)
    next
      case False
      have clean: "list_all no_inventory P2'" "\<not> mv_rehearsal (rs_move s1)" using False kept(2) by (simp_all add: later later_no_inventory)
      from run_from_walk [OF N(1) clean] obtain r s' Q es where R: "run_from wk 1 s1 = Some (r, s')" "same_job (rs_move s1) (rs_move s')"
          "mv_inventory (rs_move s') = mv_inventory (rs_move s1)" "rs_entries s' = rs_entries s1 @ es"
        and C: "case r of
           None \<Rightarrow> mv_phases (rs_move s') = ph' # Q \<and> list_all2 (phase_ended wk ?finished) P2' Q \<and> es = succeeded (all_todo ?finished P2')
         | Some e \<Rightarrow> mv_phases (rs_move s') = map skip_pending (ph' # Q) \<and> run_failed wk ?finished P2' Q es"
        unfolding kept length_Cons list.size(3) One_nat_def append.simps by blast
      have "same_job mv (rs_move s')" using job R(2) by (rule same_job_trans)
      moreover have "planned_phases mv (rs_move s') = plan_phase # P2'" by (simp add: planned_phases_def later R(3))
      ultimately show ?thesis unfolding go None using R(1,4) C N(2,3) False run_failed_later [OF N(2)]
        by (intro exI [of _ r] exI [of _ s'] exI [of _ "ph' # Q"]) (cases r; simp add: all_todo_def move_result_def)
    qed
  qed
qed

lemma run_move_result:
  assumes "starting mv" and "run_move wk mv w = Some (r, s')"
  obtains Q where "same_job mv (rs_move s')" and "move_result wk mv r s' Q"
  using run_move_walk [OF assms(1), of wk w] assms(2) by auto

end
