(* ===== verification/MoveProps.thy ===== *)
theory MoveProps
  imports Moves
begin

text \<open>
  What a move promises: it works on the planned steps in order and stops at the first failure, it ends with every step
  settled, a rehearsal stays with the plan, a database that is shared is left alone, and a resumed move does the rest of
  the steps and nothing twice.
\<close>

section \<open>A move to try it on\<close>

text \<open>One application of a host with a shared database; making its virtual environment fails, or does not.\<close>

definition demo_app :: app_plan where
  "demo_app = \<lparr>pl_kind = HOST, pl_application = ''a'', pl_name = ''shop'', pl_target_name = ''shop'', pl_folder_path = [],
     pl_folder_target = [], pl_folder_bytes = None, pl_extras = [], pl_binds = [], pl_images = [], pl_volumes = [], pl_env_rewrite = [],
     pl_backup_dir_create = False, pl_backup_dir = [], pl_database_placement = [], pl_database_action = ''shared'', pl_networks = [],
     pl_units = [], pl_sites = [], pl_users = [], pl_copy_plans = False, pl_blockers = []\<rparr>"

definition demo_inventory :: inventory where
  "demo_inventory = \<lparr>in_applications = [demo_app], in_needs = [], in_packages = empty_plan, in_sudo_source = False,
     in_sudo_target = False, in_blockers = []\<rparr>"

definition demo_works :: "bool \<Rightarrow> unit works" where
  "demo_works fails = \<lparr>wk_survey = (\<lambda>w. (Inr demo_inventory, w)), wk_back_up = (\<lambda>ph w. (Inr ''b1'', w)),
     wk_register = (\<lambda>ph w. (Inr ''t1'', w)),
     wk_other = (\<lambda>ph st w. (if fails \<and> ms_step st = ''python'' then Inl (StepFailed ''pip'') else Inr (Some None), w))\<rparr>"

definition demo_run :: "bool \<Rightarrow> move \<Rightarrow> failure option \<times> unit run_state" where
  "demo_run fails mv = the (run_move (demo_works fails) mv ())"

lemma demo_run: "starting mv \<Longrightarrow> run_move (demo_works fails) mv () = Some (fst (demo_run fails mv), snd (demo_run fails mv))"
  using run_move_walk [of mv "demo_works fails" "()"] by (auto simp: demo_run_def)

lemma demo_productive: "productive (demo_works fails)"
  by (simp add: productive_def demo_works_def)

lemma demo_facts: "fst (demo_run True (new_move False)) = Some (StepFailed ''pip'')"
    "((''a'', ''source_backup'', []), True) \<in> set (rs_entries (snd (demo_run True (new_move False))))"
    "mv_inventory (rs_move (snd (demo_run False (new_move False)))) = Some demo_inventory"
  by code_simp+

section \<open>What was worked on\<close>

lemma phase_failed_todo:
  assumes "phase_failed wk finished ph ph' A st"
  shows "\<exists>rest. todo finished ph (mp_steps ph) = todo finished ph A @ step_key ph st # rest"
proof -
  obtain B where "mp_steps ph = A @ st # B" "executed finished ph st" using assms by (auto simp: phase_failed_def)
  then show ?thesis by (simp add: todo_def)
qed

lemma run_failed_prefix:
  assumes "run_failed wk finished P Q es"
  shows "\<exists>n<length (all_todo finished P). es = succeeded (take n (all_todo finished P)) @ [(all_todo finished P ! n, False)]"
proof -
  obtain A A' ph ph' B SA st where F: "P = A @ ph # B" "phase_failed wk finished ph ph' SA st"
      "es = succeeded (all_todo finished A @ todo finished ph SA) @ [(step_key ph st, False)]"
    using assms by (auto simp: run_failed_def)
  obtain rest where "todo finished ph (mp_steps ph) = todo finished ph SA @ step_key ph st # rest" using phase_failed_todo [OF F(2)] by blast
  then have "all_todo finished P = (all_todo finished A @ todo finished ph SA) @ step_key ph st # rest @ all_todo finished B"
    by (simp add: F(1) all_todo_def)
  then show ?thesis unfolding F(3)
    by (intro exI [of _ "length (all_todo finished A @ todo finished ph SA)"]) (simp add: nth_append)
qed

text \<open>
  C37: a move works on the planned steps, in order, and stops at the first that fails. It always ends, whatever the steps
  do; the activities it records are those of the steps that are neither skipped nor done before, one after the other:
  all of them when it succeeds (those of the plan for a rehearsal), or a part of them from the start and the step that
  failed, after which nothing else is worked on.
\<close>
theorem move_walks_the_plan:
  assumes "starting mv"
  shows "\<exists>r s'. run_move wk mv w = Some (r, s') \<and>
    (let steps = all_todo (mv_done_before mv) (planned_phases mv (rs_move s'))
     in case r of
          None \<Rightarrow> rs_entries s' = succeeded (if mv_rehearsal mv then all_todo (mv_done_before mv) [plan_phase] else steps)
        | Some e \<Rightarrow> \<exists>n<length steps. rs_entries s' = succeeded (take n steps) @ [(steps ! n, False)])"
proof -
  from run_move_walk [OF assms, of wk w] obtain r s' Q where R: "run_move wk mv w = Some (r, s')" and C: "move_result wk mv r s' Q" by blast
  show ?thesis
  proof (cases r)
    case None
    then show ?thesis using R C by (intro exI [of _ r] exI [of _ s']) (simp add: move_result_def split: if_splits)
  next
    case (Some e)
    then show ?thesis using R C by (intro exI [of _ r] exI [of _ s']) (auto simp: move_result_def Let_def intro: run_failed_prefix)
  qed
qed

lemma move_walks_the_plan_witness: "\<exists>r s'. run_move (demo_works True) (new_move False) () = Some (r, s')"
  using move_walks_the_plan [of "new_move False" "demo_works True" "()"] by (auto simp: starting_def new_move_def)

section \<open>How the steps end\<close>

definition unstarted :: "move_step \<Rightarrow> bool" where
  "unstarted st \<longleftrightarrow> (ms_status st = PENDING \<or> ms_status st = SKIPPED) \<and> \<not> ms_done_before st"

definition all_unstarted :: "move_phase list \<Rightarrow> bool" where
  "all_unstarted P \<longleftrightarrow> list_all (\<lambda>ph. list_all unstarted (mp_steps ph)) P"

lemma planned_unstarted: "all_unstarted (planned_phases mv mv')"
proof -
  have "list_all unstarted sts" if "list_all fresh_step sts" for sts
    using that by (auto simp: list_all_iff fresh_step_def unstarted_def)
  then have "list_all (\<lambda>ph. list_all unstarted (mp_steps ph)) (later_phases (mv_previous mv) (mv_inventory mv'))"
    using later_fresh [of "mv_previous mv" "mv_inventory mv'"] by (auto simp: list_all_iff)
  then show ?thesis
    by (simp add: all_unstarted_def planned_phases_def) (simp add: plan_phase_def planned_def PLAN_STEPS_def step_of_def unstarted_def)
qed

definition resumable :: "move_step \<Rightarrow> bool" where
  "resumable st \<longleftrightarrow> ms_status st = SUCCEEDED \<or> ms_done_before st"

definition closed :: "move_step \<Rightarrow> bool" where
  "closed st \<longleftrightarrow> ms_status st = SUCCEEDED \<or> ms_status st = SKIPPED"

lemma ended_closed: "unstarted st \<Longrightarrow> ended wk finished ph st st' \<Longrightarrow> closed st'"
  by (auto simp: ended_def closed_def unstarted_def split: if_splits)

lemma all_ended_closed: "list_all unstarted S \<Longrightarrow> list_all2 (ended wk finished ph) S S' \<Longrightarrow> list_all closed S'"
  unfolding list_all2_conv_all_nth list_all_length using ended_closed by metis

lemma unstarted_closed: "unstarted st \<Longrightarrow> closed (step_skipped st)"
  by (auto simp: unstarted_def closed_def step_skipped_def)

lemma closed_skipped: "closed st \<Longrightarrow> step_skipped st = st"
  by (auto simp: closed_def step_skipped_def)

definition all_closed :: "move_phase list \<Rightarrow> bool" where
  "all_closed Q \<longleftrightarrow> list_all (\<lambda>ph. list_all closed (mp_steps ph)) Q"

lemma phases_ended_closed: "all_unstarted P \<Longrightarrow> list_all2 (phase_ended wk finished) P Q \<Longrightarrow> all_closed Q"
  unfolding all_unstarted_def all_closed_def list_all2_conv_all_nth list_all_length
  by (metis all_ended_closed list_all_length phase_ended_def)

lemma skipped_all_closed: "all_closed Q \<Longrightarrow> all_closed (map skip_pending Q)" "all_unstarted P \<Longrightarrow> all_closed (map skip_pending P)"
  by (auto simp: all_closed_def all_unstarted_def list_all_iff closed_skipped unstarted_closed)

definition failed_steps :: "move_phase list \<Rightarrow> move_step list" where
  "failed_steps Q = filter (\<lambda>st. ms_status st = FAILED) (concat (map mp_steps Q))"

lemma failed_steps_append [simp]: "failed_steps (P @ Q) = failed_steps P @ failed_steps Q"
  by (simp add: failed_steps_def)

lemma closed_none_failed: "all_closed Q \<Longrightarrow> failed_steps Q = []"
  by (fastforce simp: failed_steps_def all_closed_def list_all_iff closed_def filter_empty_conv)

lemma run_failed_settled:
  assumes "run_failed wk finished P Q es" and "all_unstarted P"
  shows "length (failed_steps (map skip_pending Q)) = 1 \<and>
    list_all (\<lambda>ph. list_all (\<lambda>st. closed st \<or> ms_status st = FAILED) (mp_steps ph)) (map skip_pending Q)"
proof -
  obtain A A' ph ph' B SA st where F: "P = A @ ph # B" "Q = A' @ ph' # B" "list_all2 (phase_ended wk finished) A A'"
      "phase_failed wk finished ph ph' SA st"
    using assms(1) by (auto simp: run_failed_def)
  obtain SA' st' SB where G: "mp_steps ph = SA @ st # SB" "mp_steps ph' = SA' @ st' # SB" "list_all2 (ended wk finished ph) SA SA'"
      "ms_status st' = FAILED"
    using F(4) by (auto simp: phase_failed_def)
  have U: "all_unstarted A" "all_unstarted B" "list_all unstarted SA" "list_all unstarted SB" using assms(2) F(1) G(1) by (auto simp: all_unstarted_def)
  have C: "all_closed (map skip_pending A')" "all_closed (map skip_pending B)"
    using phases_ended_closed [OF U(1) F(3)] U(2) by (simp_all add: skipped_all_closed)
  have S: "list_all closed (map step_skipped SA')" "list_all closed (map step_skipped SB)"
    using all_ended_closed [OF U(3) G(3)] U(4) by (auto simp: list_all_iff closed_skipped unstarted_closed)
  have "step_skipped st' = st'" using G(4) by (simp add: step_skipped_def)
  then have steps: "mp_steps (skip_pending ph') = map step_skipped SA' @ st' # map step_skipped SB" by (simp add: G(2))
  have none: "filter (\<lambda>st. ms_status st = FAILED) sts = []" if "list_all closed sts" for sts
    using that by (auto simp: list_all_iff filter_empty_conv closed_def)
  have "failed_steps [skip_pending ph'] = [st']" using none [OF S(1)] none [OF S(2)] G(4) by (simp add: failed_steps_def steps del: skip_pending_steps)
  then have "failed_steps (map skip_pending Q) = [st']"
    using closed_none_failed [OF C(1)] closed_none_failed [OF C(2)] failed_steps_append [of "[skip_pending ph']" "map skip_pending B"]
    by (simp add: F(2))
  moreover have "list_all (\<lambda>st. closed st \<or> ms_status st = FAILED) (mp_steps (skip_pending ph'))"
    using S G(4) unfolding steps by (auto simp: list_all_iff)
  ultimately show ?thesis using C by (auto simp: F(2) all_closed_def list_all_iff simp del: skip_pending_steps)
qed



section \<open>What a resumed move does\<close>

lemma resume_done_skipped: "resume_done (map skip_pending Q) = resume_done Q"
proof -
  have "map (step_key (skip_pending ph)) (filter (\<lambda>st. ms_status st = SUCCEEDED \<or> ms_done_before st) (map step_skipped sts)) =
      map (step_key ph) (filter (\<lambda>st. ms_status st = SUCCEEDED \<or> ms_done_before st) sts)" for ph sts
    by (induction sts) (auto simp: step_skipped_def step_key_def)
  then show ?thesis by (simp add: resume_done_def cong: map_cong if_cong)
qed

lemma ended_resumable:
  assumes "unstarted st" and "ended wk [] ph st st'"
  shows "ms_status st' = SUCCEEDED \<or> ms_done_before st' \<Longrightarrow> executed [] ph st"
    and "productive wk \<Longrightarrow> executed [] ph st \<Longrightarrow> ms_status st' = SUCCEEDED" and "step_key ph st' = step_key ph st"
  using assms by (auto simp: ended_def executed_def unstarted_def step_key_def split: if_splits)

lemma steps_resumable:
  assumes "list_all2 (ended wk [] ph) S S'" and "list_all unstarted S"
  shows "set (map (step_key ph) (filter (\<lambda>st. ms_status st = SUCCEEDED \<or> ms_done_before st) S')) \<subseteq> set (todo [] ph S) \<and>
    (productive wk \<longrightarrow> set (todo [] ph S) \<subseteq> set (map (step_key ph) (filter (\<lambda>st. ms_status st = SUCCEEDED \<or> ms_done_before st) S')))"
  using assms
proof (induction S S')
  case Nil
  then show ?case by (simp add: todo_def)
next
  case (Cons st S st' S')
  then have "unstarted st" "list_all unstarted S" by simp_all
  note one = ended_resumable [OF this(1) Cons.hyps(1)] and rest = Cons.IH [OF this(2)]
  show ?case using one rest by (auto simp: todo_def)
qed

definition resumed_keys :: "move_phase \<Rightarrow> step_id list" where
  "resumed_keys ph = map (step_key ph) (filter (\<lambda>st. ms_status st = SUCCEEDED \<or> ms_done_before st) (mp_steps ph))"

lemma in_resume_done: "k \<in> set (resume_done Q) \<longleftrightarrow> (\<exists>ph\<in>set Q. mp_phase ph \<noteq> ''plan'' \<and> k \<in> set (resumed_keys ph))"
  by (auto simp: resume_done_def resumed_keys_def)

lemma phases_resumable:
  assumes "list_all2 (phase_ended wk []) P Q" and "all_unstarted P"
  shows "set (resume_done Q) \<subseteq> set (all_todo [] P) \<and>
    (productive wk \<longrightarrow> (\<forall>ph\<in>set P. mp_phase ph \<noteq> ''plan'' \<longrightarrow> set (todo [] ph (mp_steps ph)) \<subseteq> set (resume_done Q)))"
  using assms
proof (induction P Q)
  case Nil
  then show ?case by (simp add: resume_done_def)
next
  case (Cons ph P ph' Q)
  have same: "same_phase ph ph'" and E: "list_all2 (ended wk [] ph) (mp_steps ph) (mp_steps ph')" using Cons.hyps(1) by (simp_all add: phase_ended_def)
  have "list_all unstarted (mp_steps ph)" "all_unstarted P" using Cons.prems by (simp_all add: all_unstarted_def)
  note one = steps_resumable [OF E this(1)] and rest = Cons.IH [OF this(2)]
  have "set (resumed_keys ph') \<subseteq> set (todo [] ph (mp_steps ph))"
      "productive wk \<longrightarrow> set (todo [] ph (mp_steps ph)) \<subseteq> set (resumed_keys ph')"
    using one by (simp_all add: resumed_keys_def step_key_same [OF same])
  moreover have "set (resume_done (ph' # Q)) = (if mp_phase ph = ''plan'' then {} else set (resumed_keys ph')) \<union> set (resume_done Q)"
    using same by (auto simp: in_resume_done same_phase_def)
  ultimately show ?case using rest by (auto simp: all_todo_def)
qed

text \<open>Of a move that failed, exactly the steps that were worked on to their end are done.\<close>

lemma failed_resumable:
  assumes "run_failed wk [] P Q es" and "all_unstarted P"
  shows "(k \<in> set (resume_done (map skip_pending Q)) \<longrightarrow> (k, True) \<in> set es) \<and>
    (productive wk \<longrightarrow> fst k \<noteq> ''plan'' \<longrightarrow> list_all (\<lambda>ph. mp_phase ph = ''plan'' \<longrightarrow> mp_application ph = []) P \<longrightarrow>
      (k, True) \<in> set es \<longrightarrow> k \<in> set (resume_done (map skip_pending Q)))"
proof -
  obtain A A' ph ph' B SA st where F: "P = A @ ph # B" "Q = A' @ ph' # B" "list_all2 (phase_ended wk []) A A'"
      "phase_failed wk [] ph ph' SA st" "es = succeeded (all_todo [] A @ todo [] ph SA) @ [(step_key ph st, False)]"
    using assms(1) by (auto simp: run_failed_def)
  obtain SA' st' SB where G: "same_phase ph ph'" "mp_steps ph = SA @ st # SB" "mp_steps ph' = SA' @ st' # SB" "list_all2 (ended wk [] ph) SA SA'"
      "ms_status st' = FAILED" "ms_done_before st' = ms_done_before st"
    using F(4) by (auto simp: phase_failed_def)
  have U: "all_unstarted A" "all_unstarted B" "list_all unstarted SA" "unstarted st" "list_all unstarted SB"
    using assms(2) F(1) G(2) by (auto simp: all_unstarted_def)
  have none: "filter (\<lambda>st. ms_status st = SUCCEEDED \<or> ms_done_before st) sts = []" if "list_all unstarted sts" for sts
    using that by (auto simp: list_all_iff unstarted_def filter_empty_conv)
  have B: "resumed_keys p = []" if "p \<in> set B" for p
    using none U(2) that by (auto simp: resumed_keys_def all_unstarted_def list_all_iff)
  have ph': "resumed_keys ph' = map (step_key ph) (filter (\<lambda>st. ms_status st = SUCCEEDED \<or> ms_done_before st) SA')"
    using G(5,6) U(4) none [OF U(5)] by (simp add: resumed_keys_def G(3) step_key_same [OF G(1)] unstarted_def)
  have mem: "k \<in> set (resume_done (map skip_pending Q)) \<longleftrightarrow> k \<in> set (resume_done A') \<or> mp_phase ph \<noteq> ''plan'' \<and> k \<in> set (resumed_keys ph')"
    unfolding resume_done_skipped in_resume_done F(2) using B G(1) by (auto simp: same_phase_def)
  note low = phases_resumable [OF F(3) U(1)] and here = steps_resumable [OF G(4) U(3), folded ph']
  have "k \<in> set (resume_done A')" if "productive wk" "k \<in> set (all_todo [] A)" "fst k \<noteq> ''plan''"
      "list_all (\<lambda>ph. mp_phase ph = ''plan'' \<longrightarrow> mp_application ph = []) P"
  proof -
    note T = that
    obtain p where p: "p \<in> set A" "k \<in> set (todo [] p (mp_steps p))" using T(2) by (auto simp: all_todo_def)
    then have "mp_phase p \<noteq> ''plan''" using T(3,4) by (auto simp: F(1) list_all_iff todo_def step_key_def)
    then show ?thesis using low T(1) p by blast
  qed
  moreover have "mp_phase ph \<noteq> ''plan''" if "k \<in> set (todo [] ph SA)" "fst k \<noteq> ''plan''"
      "list_all (\<lambda>ph. mp_phase ph = ''plan'' \<longrightarrow> mp_application ph = []) P"
    using that by (auto simp: F(1) todo_def step_key_def)
  ultimately show ?thesis using low here unfolding mem F(5) by auto
qed

lemma all_todo_done: "set (all_todo finished P) = set (all_todo [] P) - set finished"
  by (auto simp: all_todo_def todo_def executed_def)

lemma later_todo: "all_todo finished (later_phases previous found) = all_todo finished (later_phases [] found)"
proof -
  have same: "same_phase (application_phase [] plan) (application_phase previous plan)" for plan
    by (simp add: application_phase_def same_phase_def Let_def)
  have "mp_steps (application_phase previous plan) = mp_steps (application_phase [] plan)" for plan
    by (simp add: application_phase_def Let_def)
  then have "todo finished (application_phase previous plan) (mp_steps (application_phase previous plan)) =
      todo finished (application_phase [] plan) (mp_steps (application_phase [] plan))" for plan
    by (simp add: todo_same [OF same])
  then show ?thesis by (cases found) (simp_all add: later_phases_def all_todo_def o_def cong: map_cong)
qed

lemma entries_planned:
  assumes "starting mv" and "run_move wk mv w = Some (r, s')" and "(k, b) \<in> set (rs_entries s')"
  shows "k \<in> set (all_todo (mv_done_before mv) (planned_phases mv (rs_move s')))"
proof -
  obtain Q where Q: "move_result wk mv r s' Q" using run_move_result [OF assms(1,2)] by blast
  show ?thesis
  proof (cases r)
    case None
    then show ?thesis using Q assms(3) by (auto simp: move_result_def planned_phases_def all_todo_def split: if_splits)
  next
    case (Some e)
    then obtain n where "n < length (all_todo (mv_done_before mv) (planned_phases mv (rs_move s')))"
        "rs_entries s' = succeeded (take n (all_todo (mv_done_before mv) (planned_phases mv (rs_move s')))) @
           [(all_todo (mv_done_before mv) (planned_phases mv (rs_move s')) ! n, False)]"
      using Q run_failed_prefix by (fastforce simp: move_result_def)
    then show ?thesis using assms(3) by (auto dest: in_set_takeD)
  qed
qed

lemma starting_moves [simp]: "starting (new_move b)" "starting (resumed_move b mv)"
  by (simp_all add: starting_def new_move_def resumed_move_def)

text \<open>
  C39: a resumed move does the rest, and nothing twice. When a move stopped at a failure and is resumed, no step behind the
  plan that the first attempt finished is worked on again; and when the second attempt succeeds, having found the same
  inventory, every step of the plan was finished in one of the two.
\<close>
theorem resume_finishes_the_rest:
  assumes "run_move wk (new_move False) w = Some (Some e, s1)" and "productive wk"
    and "run_move wk' (resumed_move False (rs_move s1)) w' = Some (r, s2)"
  shows "(\<forall>k b. (k, True) \<in> set (rs_entries s1) \<and> fst k \<noteq> ''plan'' \<longrightarrow> (k, b) \<notin> set (rs_entries s2)) \<and>
    (r = None \<and> mv_inventory (rs_move s2) = mv_inventory (rs_move s1) \<longrightarrow>
      (\<forall>k \<in> set (all_todo [] (later_phases [] (mv_inventory (rs_move s1)))). (k, True) \<in> set (rs_entries s1) \<union> set (rs_entries s2)))"
proof -
  let ?mv2 = "resumed_move False (rs_move s1)"
  have fields: "mv_done_before (new_move False) = []" "mv_rehearsal (new_move False) = False" "mv_previous (new_move False) = []"
      "mv_done_before ?mv2 = resume_done (mv_phases (rs_move s1))" "mv_rehearsal ?mv2 = False"
    by (simp_all add: new_move_def resumed_move_def)
  obtain Q where Q: "move_result wk (new_move False) (Some e) s1 Q" using run_move_result [OF starting_moves(1) assms(1)] by blast
  then have F: "mv_phases (rs_move s1) = map skip_pending Q" "run_failed wk [] (planned_phases (new_move False) (rs_move s1)) Q (rs_entries s1)"
    by (simp_all add: move_result_def fields)
  have plain: "list_all (\<lambda>ph. mp_phase ph = ''plan'' \<longrightarrow> mp_application ph = []) (planned_phases (new_move False) (rs_move s1))"
    by (cases "mv_inventory (rs_move s1)")
      (auto simp: planned_phases_def later_phases_def plan_phase_def prepare_phase_def application_phase_def list_all_iff Let_def)
  note kept = failed_resumable [OF F(2) planned_unstarted, folded F(1)]
  have "(k, b) \<notin> set (rs_entries s2)" if "(k, True) \<in> set (rs_entries s1)" "fst k \<noteq> ''plan''" for k b
    using kept [of k] that assms(2) plain entries_planned [OF starting_moves(2) assms(3), of k b] by (auto simp: fields all_todo_done [of "resume_done _"])
  moreover have "(k, True) \<in> set (rs_entries s1) \<union> set (rs_entries s2)"
    if "r = None" "mv_inventory (rs_move s2) = mv_inventory (rs_move s1)" "k \<in> set (all_todo [] (later_phases [] (mv_inventory (rs_move s1))))" for k
  proof (cases "k \<in> set (resume_done (mv_phases (rs_move s1)))")
    case True
    then show ?thesis using kept [of k] by blast
  next
    case False
    obtain Q2 where Q2: "move_result wk' ?mv2 r s2 Q2" using run_move_result [OF starting_moves(2) assms(3)] by blast
    then have "rs_entries s2 = succeeded (all_todo (resume_done (mv_phases (rs_move s1))) (planned_phases ?mv2 (rs_move s2)))"
      using that(1) by (simp add: move_result_def fields)
    moreover have "k \<in> set (all_todo [] (planned_phases ?mv2 (rs_move s2)))"
      using that(2,3) later_todo [of "[]" "mv_previous ?mv2"] by (simp add: planned_phases_def all_todo_def)
    ultimately show ?thesis using False by (auto simp: all_todo_done [of "resume_done _"])
  qed
  ultimately show ?thesis by blast
qed

lemma resume_finishes_the_rest_witness:
  "((''a'', ''source_backup'', []), True) \<notin> set (rs_entries (snd (demo_run False (resumed_move False (rs_move (snd (demo_run True (new_move False))))))))"
  using resume_finishes_the_rest [OF demo_run [OF starting_moves(1), of True False, unfolded demo_facts(1)] demo_productive
      demo_run [OF starting_moves(2), of False False]]
    demo_facts(2) by auto

section \<open>What a move leaves alone\<close>

lemma rehearsal_stays_with_the_plan:
  assumes "starting mv" and "mv_rehearsal mv" and "run_move wk mv w = Some (r, s')" and "(k, b) \<in> set (rs_entries s')"
  shows "k \<in> set (map (step_key plan_phase) (mp_steps plan_phase))"
proof -
  obtain Q where Q: "move_result wk mv r s' Q" using run_move_result [OF assms(1,3)] by blast
  have "k \<in> set (map (step_key plan_phase) (mp_steps plan_phase))" if "k \<in> set (todo finished plan_phase S)" "set S \<subseteq> set (mp_steps plan_phase)" for finished S
    using that by (auto simp: todo_def)
  then show ?thesis using Q assms(2,4)
    by (cases r) (fastforce simp: move_result_def all_todo_def phase_failed_def)+
qed

lemma shared_steps_skipped:
  assumes "pl_database_action plan = ''shared''"
  shows "list_all (\<lambda>st. ms_step st \<in> {''migrate'', ''restore''} \<longrightarrow> ms_status st = SKIPPED) (application_steps plan)"
  by (rule application_steps_all) (use assms in \<open>auto simp: step_of_def\<close>)

text \<open>
  C40: a database that the servers share is left alone. In no move, real or rehearsed, new or resumed, is an application
  whose database the inventory calls shared migrated or restored.
\<close>
theorem shared_database_is_left_alone:
  assumes "starting mv" and "run_move wk mv w = Some (r, s')" and "mv_inventory (rs_move s') = Some iv"
    and "plan \<in> set (in_applications iv)" and "pl_database_action plan = ''shared''"
    and "distinct (map pl_application (in_applications iv))" and "[] \<notin> set (map pl_application (in_applications iv))"
    and "name \<in> {''migrate'', ''restore''}"
  shows "((pl_application plan, name, []), b) \<notin> set (rs_entries s')"
proof
  assume "((pl_application plan, name, []), b) \<in> set (rs_entries s')"
  then have "(pl_application plan, name, []) \<in> set (all_todo [] (planned_phases mv (rs_move s')))"
    using entries_planned [OF assms(1,2)] all_todo_done by fast
  then obtain ph st where P: "ph \<in> set (planned_phases mv (rs_move s'))" "st \<in> set (mp_steps ph)" "ms_status st \<noteq> SKIPPED"
      "step_key ph st = (pl_application plan, name, [])"
    by (auto simp: all_todo_def todo_def executed_def)
  have "ms_step st = name" using P(4) by (auto simp: step_key_def)
  moreover have "list_all (\<lambda>st. ms_step st \<notin> {''migrate'', ''restore''}) (mp_steps plan_phase)"
    by (simp add: plan_phase_def planned_def PLAN_STEPS_def step_of_def)
  moreover have "list_all (\<lambda>st. ms_step st \<notin> {''migrate'', ''restore''}) (mp_steps (prepare_phase iv))"
    by (simp add: step_of_def prepare_phase_def prepare_steps_def PREPARE_STEPS_def)
  ultimately have "ph \<noteq> plan_phase" "ph \<noteq> prepare_phase iv" using P(2) assms(8) unfolding list_all_iff by metis+
  then obtain plan' where A: "plan' \<in> set (in_applications iv)" "ph = application_phase (mv_previous mv) plan'"
    using P(1) assms(3) by (auto simp: planned_phases_def later_phases_def)
  have "pl_application plan' \<noteq> []" using A(1) assms(7) by force
  then have "pl_application plan' = pl_application plan" using P(4) by (simp add: A(2) step_key_def application_phase_def Let_def)
  then have "plan' = plan" using A(1) assms(4,6) by (meson distinct_map inj_onD)
  then have "st \<in> set (application_steps plan)" using P(2) by (simp add: A(2) application_phase_def Let_def)
  then show False using shared_steps_skipped [OF assms(5)] P(3) assms(8) \<open>ms_step st = name\<close> by (auto simp: list_all_iff)
qed

lemma shared_database_is_left_alone_witness:
  "((''a'', ''restore'', []), True) \<notin> set (rs_entries (snd (demo_run False (new_move False))))"
  using shared_database_is_left_alone [OF starting_moves(1) demo_run [OF starting_moves(1), of False False] demo_facts(3), of demo_app "''restore''" True]
  by (simp add: demo_inventory_def demo_app_def)

text \<open>
  What was done is forgotten by a resumed move that stops while it is still planning: none of its steps counts as done
  when it is resumed in turn, although the steps of the first attempt are still in place.
\<close>

lemma stopped_plan_forgets:
  assumes "phase_failed wk finished plan_phase ph' A st" and "Q = ph' # later_phases previous found"
  shows "resume_done (map skip_pending Q) = []"
proof -
  have "mp_phase ph' = ''plan''" using assms(1) by (auto simp: phase_failed_def same_phase_def plan_phase_def)
  moreover have "resumed_keys ph = []" if "ph \<in> set (later_phases previous found)" for ph
    using later_fresh [of previous found] that by (fastforce simp: resumed_keys_def list_all_iff fresh_step_def filter_empty_conv)
  ultimately have "k \<notin> set (resume_done Q)" for k by (auto simp: assms(2) in_resume_done)
  then show ?thesis by (cases "resume_done Q") (auto simp: resume_done_skipped)
qed

end
