(* ===== verification/Spec2Isabelle.thy ===== *)
theory Spec2Isabelle
  imports Prelude GF256 RSCode RSParity ReedSolomon RSRepair RSProperties Blocks Struct Errors Crypto ContainerFormat
    StreamLayout StreamSchedule StreamWriter WriterCorrect StreamReader ReaderPass ReaderCorrect StreamRoundtrip
    Frames Payload PayloadCorrect PayloadWrite PayloadRoundtrip PayloadProperties PyText AbsPath Catalogue CatalogueSafe CatalogueProps Privileged Permissions OutputBuffer Terminals TerminalLimits Packages Dotenv Tee Naming Retention Pipeline PipelineStages Decoding RowBatches ModelOrder StagedFiles Restore RestoreProps RestoreRuns Leases Schedule AuditTrail Jobs Moves MoveProps
begin

text \<open>
  A verification development for Django Backup Solution (the Python package under \<^verbatim>\<open>src/dbs\<close>).

  THE PROGRAM. A backup is a stream of frames (\<^verbatim>\<open>engine/frames.py\<close>, \<^verbatim>\<open>engine/backup.py\<close>) that runs through a pipeline of
  threads (\<^verbatim>\<open>engine/pipeline.py\<close>): it is compressed, cut into chunks, encrypted (\<^verbatim>\<open>crypto/\<close>), encoded with a Reed-Solomon
  code (\<^verbatim>\<open>container/rs.py\<close>) and written twice into the slots of a container (\<^verbatim>\<open>container/stream.py\<close>), which a reader can
  still open when parts of it are lost. Containers of version 1 (\<^verbatim>\<open>container/format.py\<close>, \<^verbatim>\<open>container/blocks.py\<close>) keep two
  copies of a payload. Around it: the names of backup files and which of them are kept (\<^verbatim>\<open>naming.py\<close>, \<^verbatim>\<open>retention.py\<close>), when
  scheduled backups run (\<^verbatim>\<open>schedule_runner.py\<close>, \<^verbatim>\<open>scheduling.py\<close>, \<^verbatim>\<open>leases.py\<close>), and a manager that moves applications
  between servers by running a closed catalogue of commands on them (\<^verbatim>\<open>manager/relocation\<close>).

  CONVENTIONS. A byte is \<open>8 word\<close>, a byte string a list of bytes, Python text a list of ASCII characters, a Python
  integer \<open>int\<close> or, where it cannot be negative, \<open>nat\<close>; an exception is a value of \<open>Errors.exn\<close> and a call that may raise
  has a result \<open>exn + 'a\<close>. Objects with state are records that the operations take and return; threads are the step
  relation of theory \<open>Pipeline\<close>. Functions of libraries are parameters: BLAKE2b and SHA-256, AES-GCM with the laws of
  the locale \<open>aead_scheme\<close>, Argon2id, the third-party Reed-Solomon decoder (locale \<open>correcting_codec\<close>), zlib, the JSON codec (its
  laws are named hypotheses), the random generator, the remote host, the clock. Every such hypothesis has an
  instance in a witness.

  THE THEORIES, in the order of the data.

  \<open>Prelude\<close>, \<open>Struct\<close>, \<open>Errors\<close>, \<open>PyText\<close>: sequencing of results, cutting lists into pieces, \<^verbatim>\<open>struct\<close> packing,
  exception classes (\<^verbatim>\<open>exceptions.py\<close>), operations and patterns on text.

  \<open>GF256\<close>, \<open>RSCode\<close>, \<open>RSParity\<close>, \<open>ReedSolomon\<close>, \<open>RSRepair\<close>, \<open>RSProperties\<close>: \<^verbatim>\<open>container/rs.py\<close>. The log tables are
  shown to be the field with 256 elements (an instance of the class \<open>field\<close>), the parity tables to compute the
  remainder modulo the generator polynomial; so every codeword is a codeword of the Reed-Solomon code, two messages differ
  in more than \<open>nsym\<close> places, and decoding and merging of copies give the payload back within the bounds of the code.

  \<open>Blocks\<close>, \<open>ContainerFormat\<close>: version 1, the repair of a payload from two copies block by block, headers and the
  reading of a container in which one copy of the header survives. \<open>Crypto\<close>: nonces, chunk encryption, key wrapping, limits
  of key derivation.

  \<open>StreamLayout\<close>, \<open>StreamSchedule\<close>, \<open>StreamWriter\<close>, \<open>WriterCorrect\<close>: version 2, sizes, header and trailer, the interleaved
  schedule of slots and the writer. \<open>WriterCorrect\<close> defines the container as a function of the payload
  (\<open>container_image\<close>) and shows that the writer refines it whatever the sizes of the writes. \<open>StreamReader\<close>, \<open>ReaderPass\<close>,
  \<open>ReaderCorrect\<close>, \<open>StreamRoundtrip\<close>: the reader; a damaged container in which every block has a slot that can be
  repaired reads back the payload, a burst within the announced tolerance is survived, and what is read is what was sealed.

  \<open>Frames\<close>, \<open>Payload\<close>, \<open>PayloadCorrect\<close>, \<open>PayloadWrite\<close>, \<open>PayloadRoundtrip\<close>, \<open>PayloadProperties\<close>: the frames of a payload,
  the reader that takes them from pieces of any size, the emission of a backup and reading it through. A produced payload
  reads back as what was emitted; an accepted payload has the counts, sizes and checksums it announces.

  \<open>Pipeline\<close>, \<open>PipelineStages\<close>: channels and threads. A channel operation is a step, a waiting thread is one whose step
  is not enabled; the measure behind \<open>runs_end\<close> is the number of unfinished threads, then the lengths of what is still to
  be put and read, from the caller to the sink. The locale \<open>pipeline_stages\<close> states what the stages promise; it is
  interpreted on the stages of a backup. The threads of a backup always end, never block each other, and write
  \<open>container_image\<close> byte for byte whatever the interleaving.

  \<open>Decoding\<close>: the way back, reading ahead of the reader and inflating the payload. \<^verbatim>\<open>zlib\<close> is a parameter whose contract is
  \<open>zlib_ok\<close>, assumed by the locale \<open>zlib_stream\<close>, which is interpreted on a small format with end marks. Its theorem
  \<open>backup_is_restored\<close> composes the development: emission, threads, container, damage, reader, inflation, payload reader.

  \<open>RowBatches\<close>, \<open>ModelOrder\<close>: \<^verbatim>\<open>serialize.py\<close> and \<^verbatim>\<open>introspect.py\<close>, where the payload comes from. The locale
  \<open>keyset_query\<close> says what a query promises; it is interpreted on a table. Batches hold every row once whatever the pages,
  and models come after what they need.

  \<open>StagedFiles\<close>, \<open>Restore\<close>, \<open>RestoreProps\<close>, \<open>RestoreRuns\<close>: \<^verbatim>\<open>files.py\<close> and \<^verbatim>\<open>engine/restore.py\<close>. Files are staged beside their
  targets while the payload is read, rows are loaded in one transaction, then the files are moved. The database is a record
  of operations (\<open>rows\<close>), the disk a map with calls that may fail (\<open>faults\<close>). A restore happens as a whole or leaves rows
  and files as they were, stays inside the restore roots, and brings back what was backed up.

  \<open>Naming\<close>, \<open>Retention\<close>, \<open>Leases\<close>, \<open>Schedule\<close>: file names that read back, exactly which backups are stale, mutual exclusion
  by leases, and the state machine that retries an interrupted backup at most once per interval. \<open>Tee\<close>: a backup that is
  streamed out is kept on the server whole or not at all. \<open>Dotenv\<close>: reading environment files.

  \<open>AuditTrail\<close>, \<open>Jobs\<close>: \<^verbatim>\<open>audit.py\<close>, \<^verbatim>\<open>jobs.py\<close> and the end of a process in \<^verbatim>\<open>job_process.py\<close>. The events form a hash chain
  that every operation only extends, so a known head fixes the history. A job is an event, a lease and a reserved file over
  the trail and the leases; however it ends, fails to start or is cut off, the three are settled. The one gap found is
  proved as \<open>begin_without_lease\<close>.

  \<open>AbsPath\<close>, \<open>Catalogue\<close>, \<open>CatalogueSafe\<close>, \<open>CatalogueProps\<close>, \<open>Privileged\<close>, \<open>Packages\<close>: paths a user may open, every builder of
  the command catalogue (no argument of a built command can be read as an option, \<^verbatim>\<open>sudo\<close> is only ever the wrapper), the
  session that runs commands as root (its password goes to \<^verbatim>\<open>sudo\<close> alone) and the resolution of packages.

  \<open>Moves\<close>, \<open>MoveProps\<close>: \<^verbatim>\<open>relocation/steps.py\<close> and the resuming of \<^verbatim>\<open>services.py\<close>. The engine of a move is a loop over phases
  that one of its steps plans anew; it is reduced to a walk over the planned steps, from which it follows that a move ends,
  that every step ends settled, that a resumed move repeats nothing and that shared databases are left alone. The work
  on the servers is an argument (\<open>works\<close>).

  \<open>Permissions\<close>, \<open>OutputBuffer\<close>, \<open>Terminals\<close>, \<open>TerminalLimits\<close>: roles and capabilities, and the terminals of the manager
  (\<^verbatim>\<open>shell/buffer.py\<close>, \<^verbatim>\<open>sessions.py\<close>, \<^verbatim>\<open>service.py\<close>). Each lock of the code is one step; the invariant \<open>limited\<close> bounds the
  open sessions, the places under reservation and the waiting requests in every reachable state.

  BOUNDS. No theorem is about bounded instances. Loops whose recursion is not structural have a termination proof;
  limits of the code (\<open>MAX_BLOCKS\<close>, frame sizes, attempts to reserve a name) are hypotheses or branches of the model.

  NOT MODELLED. The Django models, views and services, the ORM and the migrations (calls of a framework that is not
  under \<^verbatim>\<open>src/\<close>); SSH transport, the inventory of a server and the parsers of its output;
  processes, threads and signals of jobs; accounts and the MCP tools. A thread of the
  writer's pool only computes blocks that are used in order, so it is a function call here. Log messages and the texts of
  exceptions are left out.
\<close>

end
